(* ===== verification/Prelude.thy ===== *)
theory Prelude
  imports Complex_Main "HOL-Library.AList" "HOL-Library.Word" "HOL-Library.Multiset"
begin

text \<open>
  Vocabulary shared by every component of the development.

  The modelled program is Python: a method that raises becomes a function into
  \<open>'a res\<close> (the left summand is the exception), an insertion-ordered
  \<^verbatim>\<open>dict\<close> or \<^verbatim>\<open>OrderedDict\<close> becomes an association list with
  distinct keys, \<^verbatim>\<open>bytes\<close> become lists of 8-bit words, and the unbounded
  \<^verbatim>\<open>int\<close> becomes \<open>int\<close> (or \<open>nat\<close> for lengths and indices that
  the code never lets go below zero).
\<close>

section \<open>Exceptions as values\<close>

datatype py_error =
    AssertionError
  | ValueError
  | RuntimeError
  | KeyError
  | IndexError
  | OverflowError
  | StopIteration
  | NotImplementedError

type_synonym 'a res = "py_error + 'a"

named_theorems res_simps \<open>rewriting of sequenced fallible calls\<close>
named_theorems dict_simps \<open>lookups and key sets of updated dictionaries\<close>

definition rbind :: "'a res \<Rightarrow> ('a \<Rightarrow> 'b res) \<Rightarrow> 'b res" where
  "rbind r f = (case r of Inl e \<Rightarrow> Inl e | Inr x \<Rightarrow> f x)"

text \<open>A Python \<^verbatim>\<open>for\<close> loop whose body may raise.\<close>

fun fold_res :: "('a \<Rightarrow> 's \<Rightarrow> 's res) \<Rightarrow> 'a list \<Rightarrow> 's \<Rightarrow> 's res" where
  "fold_res f [] s = Inr s"
| "fold_res f (x # xs) s = rbind (f x s) (fold_res f xs)"

lemma rbind_Inr [simp, res_simps]: "rbind (Inr x) f = f x"
  by (simp add: rbind_def)

lemma rbind_Inl [simp, res_simps]: "rbind (Inl e) f = Inl e"
  by (simp add: rbind_def)

lemma rbind_eq_Inr [res_simps]: "rbind r f = Inr y \<longleftrightarrow> (\<exists>x. r = Inr x \<and> f x = Inr y)"
  by (cases r) auto

lemma rbind_eq_Inl [res_simps]: "rbind r f = Inl e \<longleftrightarrow> r = Inl e \<or> (\<exists>x. r = Inr x \<and> f x = Inl e)"
  by (cases r) auto

lemma fold_res_append: "fold_res f (xs @ ys) s = rbind (fold_res f xs s) (fold_res f ys)"
proof (induction xs arbitrary: s)
  case (Cons x xs)
  then show ?case by (cases "f x s") simp_all
qed simp

text \<open>
  The loop rule: an invariant over the elements still to be processed, kept by every
  iteration, which never raises.
\<close>

lemma fold_res_rule:
  assumes "I xs s"
    and "\<And>x xs s. I (x # xs) s \<Longrightarrow> \<exists>s'. f x s = Inr s' \<and> I xs s'"
  shows "\<exists>s'. fold_res f xs s = Inr s' \<and> I [] s'"
  using assms(1)
proof (induction xs arbitrary: s)
  case (Cons x xs)
  from assms(2) [OF Cons.prems] obtain s' where "f x s = Inr s'" "I xs s'" by blast
  with Cons.IH [of s'] show ?case by simp
qed simp

lemma fold_res_inv:
  assumes "fold_res f xs s = Inr s'" and "I s"
    and "\<And>x s s'. x \<in> set xs \<Longrightarrow> I s \<Longrightarrow> f x s = Inr s' \<Longrightarrow> I s'"
  shows "I s'"
  using assms
proof (induction xs arbitrary: s)
  case (Cons x xs)
  then obtain t where t: "f x s = Inr t" "fold_res f xs t = Inr s'"
    by (auto simp: res_simps)
  have "I t" using Cons.prems(2,3) t(1) by force
  with t(2) show ?case using Cons.IH Cons.prems(3) by (meson list.set_intros(2))
qed simp


section \<open>Insertion-ordered dictionaries\<close>

text \<open>
  \<open>dict_set\<close> overwrites in place or appends, as \<^verbatim>\<open>d[k] = v\<close> does;
  \<open>dict_del\<close> is \<^verbatim>\<open>del d[k]\<close> (and \<^verbatim>\<open>d.pop(k, None)\<close>, whose value is
  \<open>dict_get\<close>); \<open>move_to_end\<close> is the \<^verbatim>\<open>OrderedDict\<close> method on a present key.
\<close>

type_synonym ('k, 'v) pydict = "('k \<times> 'v) list"

definition dict_get :: "('k, 'v) pydict \<Rightarrow> 'k \<Rightarrow> 'v option" where
  "dict_get d k = map_of d k"

definition dict_set :: "'k \<Rightarrow> 'v \<Rightarrow> ('k, 'v) pydict \<Rightarrow> ('k, 'v) pydict" where
  "dict_set k v d = AList.update k v d"

definition dict_del :: "'k \<Rightarrow> ('k, 'v) pydict \<Rightarrow> ('k, 'v) pydict" where
  "dict_del k d = filter (\<lambda>(k', _). k' \<noteq> k) d"

definition dict_keys :: "('k, 'v) pydict \<Rightarrow> 'k list" where
  "dict_keys d = map fst d"

definition move_to_end :: "'k \<Rightarrow> ('k, 'v) pydict \<Rightarrow> ('k, 'v) pydict" where
  "move_to_end k d = (case dict_get d k of None \<Rightarrow> d | Some v \<Rightarrow> dict_del k d @ [(k, v)])"

definition dict_ok :: "('k, 'v) pydict \<Rightarrow> bool" where
  "dict_ok d \<longleftrightarrow> distinct (dict_keys d)"

lemma dict_get_Nil [simp]: "dict_get [] k = None"
  by (simp add: dict_get_def)

lemma dict_get_Cons: "dict_get ((k', v) # d) k = (if k' = k then Some v else dict_get d k)"
  by (simp add: dict_get_def)

lemma dict_get_append: "dict_get (d @ e) k = (case dict_get d k of None \<Rightarrow> dict_get e k | Some v \<Rightarrow> Some v)"
  by (simp add: dict_get_def map_add_def split: option.splits)

lemma dict_get_set [dict_simps]: "dict_get (dict_set k v d) k' = (if k' = k then Some v else dict_get d k')"
  by (simp add: dict_get_def dict_set_def update_conv')

lemma dict_get_del [dict_simps]: "dict_get (dict_del k d) k' = (if k' = k then None else dict_get d k')"
  by (induction d) (auto simp: dict_get_def dict_del_def)

lemma dict_get_None_iff: "dict_get d k = None \<longleftrightarrow> k \<notin> set (dict_keys d)"
  by (simp add: dict_get_def dict_keys_def map_of_eq_None_iff)

lemma dict_get_Some_keys: "dict_get d k = Some v \<Longrightarrow> k \<in> set (dict_keys d)"
  by (metis dict_get_None_iff option.distinct(1))

lemma dict_get_SomeD: "dict_get d k = Some v \<Longrightarrow> (k, v) \<in> set d"
  by (simp add: dict_get_def map_of_SomeD)

lemma dict_get_mem: "dict_ok d \<Longrightarrow> (k, v) \<in> set d \<Longrightarrow> dict_get d k = Some v"
  by (simp add: dict_get_def dict_ok_def dict_keys_def)

lemma dict_mem_iff: "dict_ok d \<Longrightarrow> (k, v) \<in> set d \<longleftrightarrow> dict_get d k = Some v"
  by (auto intro: dict_get_mem dict_get_SomeD)

lemma dict_keys_del [dict_simps]: "dict_keys (dict_del k d) = filter (\<lambda>x. x \<noteq> k) (dict_keys d)"
  by (induction d) (auto simp: dict_keys_def dict_del_def)

lemma dict_keys_append [dict_simps]: "dict_keys (d @ e) = dict_keys d @ dict_keys e"
  by (simp add: dict_keys_def)

lemma dict_keys_single [dict_simps]: "dict_keys [(k, v)] = [k]"
  by (simp add: dict_keys_def)

lemma dict_keys_set [dict_simps]:
  "dict_keys (dict_set k v d) = (if k \<in> set (dict_keys d) then dict_keys d else dict_keys d @ [k])"
  by (simp add: dict_keys_def dict_set_def update_keys)

lemma dict_ok_Nil [simp, intro]: "dict_ok []"
  by (simp add: dict_ok_def dict_keys_def)

lemma dict_ok_set [simp, intro]: "dict_ok d \<Longrightarrow> dict_ok (dict_set k v d)"
  by (auto simp: dict_ok_def dict_keys_set)

lemma dict_ok_del [simp, intro]: "dict_ok d \<Longrightarrow> dict_ok (dict_del k d)"
  by (auto simp: dict_ok_def dict_keys_del)

lemma dict_del_absent: "k \<notin> set (dict_keys d) \<Longrightarrow> dict_del k d = d"
  by (force simp: dict_del_def dict_keys_def filter_id_conv)

lemma dict_set_absent: "k \<notin> set (dict_keys d) \<Longrightarrow> dict_set k v d = d @ [(k, v)]"
  by (induction d) (auto simp: dict_set_def dict_keys_def)

lemma move_to_end_get [dict_simps]: "dict_get (move_to_end k d) k' = dict_get d k'"
  by (auto simp: move_to_end_def dict_get_append dict_get_del dict_get_Cons split: option.splits)

lemma move_to_end_keys [dict_simps]: "set (dict_keys (move_to_end k d)) = set (dict_keys d)"
  by (auto simp: move_to_end_def dict_keys_append dict_keys_del dict_keys_single
      split: option.splits dest: dict_get_Some_keys)

lemma dict_ok_move_to_end [simp, intro]: "dict_ok d \<Longrightarrow> dict_ok (move_to_end k d)"
  by (auto simp: move_to_end_def dict_ok_def dict_keys_append dict_keys_del dict_keys_single
      split: option.splits)

lemma dict_ok_length: "dict_ok d \<Longrightarrow> length d = card (set (dict_keys d))"
  by (metis dict_ok_def distinct_card dict_keys_def length_map)

lemma length_dict_del:
  "dict_ok d \<Longrightarrow> k \<in> set (dict_keys d) \<Longrightarrow> Suc (length (dict_del k d)) = length d"
proof (induction d)
  case (Cons a d)
  show ?case
  proof (cases "fst a = k")
    case True
    with Cons.prems have "k \<notin> set (dict_keys d)" by (auto simp: dict_ok_def dict_keys_def)
    with True show ?thesis using dict_del_absent [of k d] by (cases a) (simp add: dict_del_def)
  next
    case False
    with Cons show ?thesis by (cases a) (auto simp: dict_del_def dict_ok_def dict_keys_def)
  qed
qed (simp add: dict_keys_def)

text \<open>A sum over the values of a dictionary, and how updates change it.\<close>

definition dict_sum :: "('v \<Rightarrow> nat) \<Rightarrow> ('k, 'v) pydict \<Rightarrow> nat" where
  "dict_sum f d = sum_list (map (\<lambda>kv. f (snd kv)) d)"

definition dict_val :: "'v \<Rightarrow> ('k, 'v) pydict \<Rightarrow> 'k \<Rightarrow> 'v" where
  "dict_val v0 d k = (case dict_get d k of None \<Rightarrow> v0 | Some v \<Rightarrow> v)"

lemma dict_val_set [dict_simps]: "dict_val v0 (dict_set k v d) k' = (if k' = k then v else dict_val v0 d k')"
  by (simp add: dict_val_def dict_get_set)

lemma dict_val_del [dict_simps]: "dict_val v0 (dict_del k d) k' = (if k' = k then v0 else dict_val v0 d k')"
  by (simp add: dict_val_def dict_get_del)

lemma dict_sum_del:
  "dict_ok d \<Longrightarrow> f v0 = 0 \<Longrightarrow> dict_sum f (dict_del k d) + f (dict_val v0 d k) = dict_sum f d"
proof (induction d)
  case (Cons a d)
  obtain k' v where a: "a = (k', v)" by (cases a)
  have ok: "dict_ok d" "k' \<notin> set (dict_keys d)" using Cons.prems a by (auto simp: dict_ok_def dict_keys_def)
  show ?case
  proof (cases "k' = k")
    case True
    then show ?thesis using ok dict_del_absent [of k d] a
      by (simp add: dict_del_def dict_val_def dict_sum_def dict_get_Cons)
  next
    case False
    then show ?thesis using Cons.IH [OF ok(1) Cons.prems(2)] a
      by (simp add: dict_del_def dict_val_def dict_sum_def dict_get_Cons)
  qed
qed (simp add: dict_del_def dict_val_def dict_sum_def)

lemma dict_sum_set:
  "dict_ok d \<Longrightarrow> f v0 = 0 \<Longrightarrow> dict_sum f (dict_set k v d) + f (dict_val v0 d k) = dict_sum f d + f v"
proof (induction d)
  case (Cons a d)
  obtain k' v' where a: "a = (k', v')" by (cases a)
  have ok: "dict_ok d" using Cons.prems a by (auto simp: dict_ok_def dict_keys_def)
  show ?case using Cons.IH [OF ok Cons.prems(2)] a
    by (auto simp: dict_set_def dict_val_def dict_sum_def dict_get_Cons)
qed (simp add: dict_set_def dict_val_def dict_sum_def)


section \<open>Bytes, integers and slices\<close>

type_synonym bytes = "8 word list"

text \<open>\<^verbatim>\<open>int.from_bytes(b, "big", signed=False)\<close>\<close>

definition from_bytes_be :: "bytes \<Rightarrow> int" where
  "from_bytes_be bs = foldl (\<lambda>acc b. acc * 256 + uint b) 0 bs"

text \<open>\<^verbatim>\<open>g.to_bytes(4, "big", signed=False)\<close>, which raises on a value that does not fit.\<close>

definition to_bytes4_be :: "int \<Rightarrow> bytes res" where
  "to_bytes4_be g =
     (if 0 \<le> g \<and> g < 2 ^ 32
      then Inr (map (\<lambda>k. word_of_int (g div 2 ^ (8 * k))) [3, 2, 1, 0])
      else Inl OverflowError)"

text \<open>\<^verbatim>\<open>vllm.utils.math_utils.cdiv\<close>: \<^verbatim>\<open>-(a // -b)\<close>.\<close>

definition cdiv :: "int \<Rightarrow> int \<Rightarrow> int" where
  "cdiv a b = - (a div (- b))"

lemma cdiv_le_iff: "0 < b \<Longrightarrow> cdiv a b \<le> q \<longleftrightarrow> a \<le> q * b"
proof -
  assume b: "0 < b"
  define d where "d = (- a) div b"
  have "a div (- b) = d" unfolding d_def by (metis div_minus_minus minus_minus)
  moreover have "- q \<le> d \<longleftrightarrow> - q * b \<le> - a"
  proof
    assume "- q \<le> d"
    then have "- q * b \<le> d * b" using b mult_right_mono [of "- q" d b] by simp
    also have "d * b \<le> - a"
      unfolding d_def using pos_mod_sign [OF b, of "- a"] by (simp add: minus_mod_eq_div_mult [symmetric])
    finally show "- q * b \<le> - a" .
  next
    assume "- q * b \<le> - a"
    from zdiv_mono1 [OF this b] show "- q \<le> d"
      using b nonzero_mult_div_cancel_right [of b "- q"] by (simp add: d_def)
  qed
  ultimately show ?thesis by (simp add: cdiv_def minus_le_iff)
qed

lemma cdiv_ge: "0 < b \<Longrightarrow> a \<le> cdiv a b * b"
  using cdiv_le_iff [of b a "cdiv a b"] by simp

lemma cdiv_nonneg: "0 < b \<Longrightarrow> 0 \<le> a \<Longrightarrow> 0 \<le> cdiv a b"
  using cdiv_le_iff [of b a "-1"] by (cases "cdiv a b \<le> -1") auto

lemma cdiv_mono: "0 < b \<Longrightarrow> a \<le> a' \<Longrightarrow> cdiv a b \<le> cdiv a' b"
  by (meson cdiv_ge cdiv_le_iff order_trans)

lemma cdiv_mult [simp]: "0 < b \<Longrightarrow> cdiv (q * b) b = q"
  by (rule antisym) (use cdiv_le_iff [of b "q * b" q] cdiv_ge [of b "q * b"] in simp_all)

text \<open>The Python slice \<^verbatim>\<open>xs[a:b]\<close> for non-negative bounds.\<close>

definition py_slice :: "nat \<Rightarrow> nat \<Rightarrow> 'a list \<Rightarrow> 'a list" where
  "py_slice a b xs = take (b - a) (drop a xs)"

lemma length_py_slice [simp]: "length (py_slice a b xs) = min (b - a) (length xs - a)"
  by (simp add: py_slice_def min.commute)

lemma py_slice_append: "b \<le> length xs \<Longrightarrow> py_slice a b (xs @ ys) = py_slice a b xs"
  by (cases "a \<le> length xs") (simp_all add: py_slice_def)

lemma set_py_slice: "set (py_slice a b xs) \<subseteq> set xs"
  unfolding py_slice_def by (rule subset_trans [OF set_take_subset set_drop_subset])

lemma take_slice: "a \<le> b \<Longrightarrow> take a xs @ py_slice a b xs = take b xs"
  by (metis le_add_diff_inverse py_slice_def take_add)

lemma length_butlast_four: "length t = 4 \<Longrightarrow> take (length (xs @ t) - 4) (xs @ t) = xs"
  by simp

lemma count_list_distinct: "distinct xs \<Longrightarrow> count_list xs x = (if x \<in> set xs then 1 else 0)"
  by (induction xs) auto

lemma in_set_tlD: "x \<in> set (tl xs) \<Longrightarrow> x \<in> set xs"
  by (cases xs) auto

end
