(* ===== verification/Free_Queue.thy ===== *)
theory Free_Queue
  imports Prelude
begin

text \<open>
  \<^verbatim>\<open>vllm/v1/core/kv_cache_utils.py\<close>: the \<^verbatim>\<open>KVCacheBlock\<close> objects and
  the \<^verbatim>\<open>FreeKVCacheBlockQueue\<close>, a doubly linked list threaded through the blocks
  themselves.

  Block objects have identity and are shared between the queue, the block pool and the
  requests, so they live in a store: a \<open>block_ref\<close> is an object reference (the two
  sentinels, or the block at an index of the pool), and \<open>cells\<close> gives the object's
  current fields. The abstraction of the queue is the list of its blocks in eviction
  order (\<open>free_rep\<close>); every operation is shown to refine the list operation, and to
  leave everything but the two link fields alone (\<open>metadata\<close>).
\<close>

section \<open>Model\<close>

datatype block_ref = FakeHead | FakeTail | Blk nat

record kv_cache_block =
  block_id :: int
  ref_cnt :: int
  block_hash :: "bytes option"
  prev_free_block :: "block_ref option"
  next_free_block :: "block_ref option"
  is_null :: bool

type_synonym block_store = "block_ref \<Rightarrow> kv_cache_block"

definition KVCacheBlock :: "int \<Rightarrow> kv_cache_block" where
  "KVCacheBlock i = \<lparr>block_id = i, ref_cnt = 0, block_hash = None,
     prev_free_block = None, next_free_block = None, is_null = False\<rparr>"

text \<open>The \<^verbatim>\<open>block_hash\<close> property setter asserts that no hash is set yet.\<close>

definition set_block_hash :: "bytes \<Rightarrow> kv_cache_block \<Rightarrow> kv_cache_block res" where
  "set_block_hash k b =
     (if block_hash b = None then Inr (b\<lparr>block_hash := Some k\<rparr>) else Inl AssertionError)"

definition reset_hash :: "kv_cache_block \<Rightarrow> kv_cache_block" where
  "reset_hash b = b\<lparr>block_hash := None\<rparr>"

definition set_prev :: "block_ref \<Rightarrow> block_ref option \<Rightarrow> block_store \<Rightarrow> block_store" where
  "set_prev r v h = h(r := (h r)\<lparr>prev_free_block := v\<rparr>)"

definition set_next :: "block_ref \<Rightarrow> block_ref option \<Rightarrow> block_store \<Rightarrow> block_store" where
  "set_next r v h = h(r := (h r)\<lparr>next_free_block := v\<rparr>)"

record free_queue =
  cells :: block_store
  num_free_blocks :: int

text \<open>The loop of \<^verbatim>\<open>__init__\<close> that links consecutive blocks.\<close>

definition link_step :: "block_ref list \<Rightarrow> nat \<Rightarrow> block_store \<Rightarrow> block_store" where
  "link_step blocks i h =
     (let h1 = (if 0 < i then set_prev (blocks ! i) (Some (blocks ! (i - 1))) h else h)
      in if i < length blocks - 1 then set_next (blocks ! i) (Some (blocks ! (i + 1))) h1 else h1)"

definition FreeKVCacheBlockQueue :: "block_ref list \<Rightarrow> block_store \<Rightarrow> free_queue" where
  "FreeKVCacheBlockQueue blocks h0 =
     (let h1 = fold (link_step blocks) [0..<length blocks] h0;
          h2 = h1(FakeHead := KVCacheBlock (-1), FakeTail := KVCacheBlock (-1));
          h3 = (if 0 < length blocks then
                  set_next (last blocks) (Some FakeTail)
                   (set_prev FakeTail (Some (last blocks))
                     (set_prev (hd blocks) (Some FakeHead)
                       (set_next FakeHead (Some (hd blocks)) h2)))
                else set_prev FakeTail (Some FakeHead) (set_next FakeHead (Some FakeTail) h2))
      in \<lparr>cells = h3, num_free_blocks = int (length blocks)\<rparr>)"

definition popleft :: "free_queue \<Rightarrow> (block_ref \<times> free_queue) res" where
  "popleft q =
     (let h = cells q in
      case next_free_block (h FakeHead) of
        None \<Rightarrow> if num_free_blocks q = 0 then Inl ValueError else Inl AssertionError
      | Some first_block \<Rightarrow>
          if first_block = FakeTail then
            if num_free_blocks q = 0 then Inl ValueError else Inl AssertionError
          else
            (case next_free_block (h first_block) of
               None \<Rightarrow> Inl RuntimeError
             | Some second \<Rightarrow>
                 let h1 = set_next FakeHead (Some second) h;
                     h2 = set_prev second (Some FakeHead) h1;
                     h3 = set_next first_block None (set_prev first_block None h2)
                 in Inr (first_block, \<lparr>cells = h3, num_free_blocks = num_free_blocks q - 1\<rparr>)))"

text \<open>
  The loop of \<^verbatim>\<open>popleft_n\<close>: the current block, the blocks popped so far and the store.
\<close>

fun popleft_loop ::
  "nat \<Rightarrow> block_ref option \<Rightarrow> block_ref list \<Rightarrow> block_store
    \<Rightarrow> (block_ref option \<times> block_ref list \<times> block_store) res" where
  "popleft_loop 0 cur ret h = Inr (cur, ret, h)"
| "popleft_loop (Suc n) None ret h = Inl AssertionError"
| "popleft_loop (Suc n) (Some c) ret h =
     popleft_loop n (next_free_block (h c)) (ret @ [c]) (set_next c None (set_prev c None h))"

definition popleft_n :: "int \<Rightarrow> free_queue \<Rightarrow> (block_ref list \<times> free_queue) res" where
  "popleft_n n q =
     (if n = 0 then Inr ([], q)
      else if \<not> n \<le> num_free_blocks q then Inl AssertionError
      else
        rbind (popleft_loop (nat n) (next_free_block (cells q FakeHead)) [] (cells q))
          (\<lambda>(cur, ret, h).
             let h' = (case cur of
                         None \<Rightarrow> h
                       | Some c \<Rightarrow> set_prev c (Some FakeHead) (set_next FakeHead (Some c) h))
             in Inr (ret, \<lparr>cells = h', num_free_blocks = num_free_blocks q - n\<rparr>)))"

definition remove :: "block_ref \<Rightarrow> free_queue \<Rightarrow> free_queue res" where
  "remove block q =
     (let h = cells q in
      case (prev_free_block (h block), next_free_block (h block)) of
        (Some p, Some n) \<Rightarrow>
          let h1 = set_next p (Some n) h;
              h2 = set_prev n (Some p) h1;
              h3 = set_next block None (set_prev block None h2)
          in Inr \<lparr>cells = h3, num_free_blocks = num_free_blocks q - 1\<rparr>
      | _ \<Rightarrow> Inl RuntimeError)"

definition append_block :: "block_ref \<Rightarrow> free_queue \<Rightarrow> free_queue res" where
  "append_block block q =
     (let h = cells q in
      case prev_free_block (h FakeTail) of
        None \<Rightarrow> Inl RuntimeError
      | Some last_block \<Rightarrow>
          let h1 = set_prev block (Some last_block) (set_next last_block (Some block) h);
              h2 = set_prev FakeTail (Some block) (set_next block (Some FakeTail) h1)
          in Inr \<lparr>cells = h2, num_free_blocks = num_free_blocks q + 1\<rparr>)"

fun append_loop :: "block_ref list \<Rightarrow> block_ref \<Rightarrow> block_store \<Rightarrow> block_ref \<times> block_store" where
  "append_loop [] last_block h = (last_block, h)"
| "append_loop (b # bs) last_block h =
     append_loop bs b (set_next last_block (Some b) (set_prev b (Some last_block) h))"

definition append_n :: "block_ref list \<Rightarrow> free_queue \<Rightarrow> free_queue res" where
  "append_n blocks q =
     (if blocks = [] then Inr q
      else case prev_free_block (cells q FakeTail) of
        None \<Rightarrow> Inl AssertionError
      | Some l \<Rightarrow>
          let (last_block, h) = append_loop blocks l (cells q);
              h' = set_prev FakeTail (Some last_block) (set_next last_block (Some FakeTail) h)
          in Inr \<lparr>cells = h', num_free_blocks = num_free_blocks q + int (length blocks)\<rparr>)"

text \<open>
  The traversal loop has no bound of its own: it returns only if the links lead to a
  block without a successor.
\<close>

partial_function (option) walk_free ::
  "block_store \<Rightarrow> block_ref \<Rightarrow> block_ref list \<Rightarrow> block_ref list option" where
  "walk_free h cur ret =
     (case next_free_block (h cur) of
        None \<Rightarrow> Some ret
      | Some nxt \<Rightarrow> walk_free h nxt (ret @ [cur]))"

definition get_all_free_blocks :: "free_queue \<Rightarrow> block_ref list res option" where
  "get_all_free_blocks q =
     (case next_free_block (cells q FakeHead) of
        None \<Rightarrow> Some (Inl RuntimeError)
      | Some first \<Rightarrow> map_option Inr (walk_free (cells q) first []))"


section \<open>The list a queue represents\<close>

definition linked :: "block_store \<Rightarrow> block_ref \<Rightarrow> block_ref \<Rightarrow> bool" where
  "linked h a b \<longleftrightarrow> next_free_block (h a) = Some b \<and> prev_free_block (h b) = Some a"

definition free_rep :: "free_queue \<Rightarrow> block_ref list \<Rightarrow> bool" where
  "free_rep q xs \<longleftrightarrow>
     successively (linked (cells q)) (FakeHead # xs @ [FakeTail]) \<and>
     next_free_block (cells q FakeTail) = None \<and> prev_free_block (cells q FakeHead) = None \<and>
     distinct xs \<and> set xs \<subseteq> range Blk \<and>
     num_free_blocks q = int (length xs) \<and>
     (\<forall>i. Blk i \<notin> set xs \<longrightarrow>
        prev_free_block (cells q (Blk i)) = None \<and> next_free_block (cells q (Blk i)) = None)"

text \<open>What the queue operations must not touch: every field but the links.\<close>

definition metadata :: "free_queue \<Rightarrow> block_ref \<Rightarrow> kv_cache_block" where
  "metadata q r = (cells q r)\<lparr>prev_free_block := None, next_free_block := None\<rparr>"

subsection \<open>Link updates\<close>

lemma links_set [simp]:
  "next_free_block (set_next r v h r') = (if r' = r then v else next_free_block (h r'))"
  "prev_free_block (set_next r v h r') = prev_free_block (h r')"
  "next_free_block (set_prev r v h r') = next_free_block (h r')"
  "prev_free_block (set_prev r v h r') = (if r' = r then v else prev_free_block (h r'))"
  by (simp_all add: set_next_def set_prev_def)

lemma meta_set [simp]:
  "block_id (set_next r v h r') = block_id (h r')"
  "ref_cnt (set_next r v h r') = ref_cnt (h r')"
  "block_hash (set_next r v h r') = block_hash (h r')"
  "is_null (set_next r v h r') = is_null (h r')"
  "block_id (set_prev r v h r') = block_id (h r')"
  "ref_cnt (set_prev r v h r') = ref_cnt (h r')"
  "block_hash (set_prev r v h r') = block_hash (h r')"
  "is_null (set_prev r v h r') = is_null (h r')"
  by (simp_all add: set_next_def set_prev_def)

lemma metadata_set [simp]:
  "(set_next r v h r')\<lparr>prev_free_block := None, next_free_block := None\<rparr>
     = (h r')\<lparr>prev_free_block := None, next_free_block := None\<rparr>"
  "(set_prev r v h r')\<lparr>prev_free_block := None, next_free_block := None\<rparr>
     = (h r')\<lparr>prev_free_block := None, next_free_block := None\<rparr>"
  by (simp_all add: set_next_def set_prev_def)

lemma metadata_eqD:
  assumes "metadata q' r = metadata q r"
  shows "block_id (cells q' r) = block_id (cells q r)" "ref_cnt (cells q' r) = ref_cnt (cells q r)"
    "block_hash (cells q' r) = block_hash (cells q r)" "is_null (cells q' r) = is_null (cells q r)"
  using assms by (cases "cells q' r"; cases "cells q r"; simp add: metadata_def)+

text \<open>A path survives updates of the last element's successor and the first one's predecessor.\<close>

lemma path_frame:
  assumes "successively (linked h) xs"
    and "\<And>r. r \<in> set (butlast xs) \<Longrightarrow> next_free_block (h' r) = next_free_block (h r)"
    and "\<And>r. r \<in> set (tl xs) \<Longrightarrow> prev_free_block (h' r) = prev_free_block (h r)"
  shows "successively (linked h') xs"
  using assms
proof (induction xs rule: induct_list012)
  case (3 x y zs)
  then have "successively (linked h') (y # zs)"
    by (intro "3.IH"(2)) (auto split: if_splits dest: in_set_butlastD)
  moreover have "linked h' x y" using 3 by (auto simp: linked_def)
  ultimately show ?case by simp
qed simp_all

lemma path_join:
  assumes "successively (linked h) P" "successively (linked h) N" "P \<noteq> []" "N \<noteq> []"
    and "distinct (P @ N)"
  shows "successively (linked (set_prev (hd N) (Some (last P)) (set_next (last P) (Some (hd N)) h))) (P @ N)"
    (is "successively (linked ?h) _")
proof -
  obtain P' p where P': "P = P' @ [p]" using assms(3) by (cases P rule: rev_cases) auto
  obtain n N' where N': "N = n # N'" using assms(4) by (cases N) auto
  have ends: "last P \<notin> set (butlast P)" "last P \<notin> set N" "hd N \<notin> set (tl N)" "hd N \<notin> set P"
    using assms(5) by (auto simp: P' N')
  from ends(4) have "hd N \<notin> set (tl P)" by (cases P) auto
  with ends have "successively (linked ?h) P"
    by (intro path_frame [OF assms(1)]) (auto split: if_splits)
  moreover have "successively (linked ?h) N"
    by (rule path_frame [OF assms(2)]) (use ends in \<open>auto split: if_splits dest: in_set_butlastD\<close>)
  moreover have "linked ?h (last P) (hd N)" by (simp add: linked_def)
  ultimately show ?thesis by (simp add: successively_append_iff)
qed

lemma path_set_other [simp]:
  assumes "r \<notin> set xs"
  shows "successively (linked (set_next r v h)) xs = successively (linked h) xs"
    and "successively (linked (set_prev r v h)) xs = successively (linked h) xs"
  using assms by (auto intro!: successively_cong simp: linked_def split: if_splits)


lemma path_splitD:
  assumes "successively R (P @ N)" "P \<noteq> []" "N \<noteq> []"
  shows "successively R P" "successively R N" "R (last P) (hd N)"
  using assms by (auto simp: successively_append_iff)

subsection \<open>What a represented queue looks like\<close>

lemma free_repD:
  assumes "free_rep q xs"
  shows "successively (linked (cells q)) (FakeHead # xs)" "successively (linked (cells q)) (xs @ [FakeTail])"
    "next_free_block (cells q FakeTail) = None" "distinct xs" "FakeHead \<notin> set xs" "FakeTail \<notin> set xs"
    "set xs \<subseteq> range Blk" "num_free_blocks q = int (length xs)"
    "linked (cells q) (last (FakeHead # xs)) FakeTail"
    "linked (cells q) FakeHead (hd (xs @ [FakeTail]))"
  using assms path_splitD [of "linked (cells q)" "FakeHead # xs" "[FakeTail]"]
    path_splitD [of "linked (cells q)" "[FakeHead]" "xs @ [FakeTail]"]
  by (auto simp: free_rep_def)

lemma free_rep_unlinked:
  "free_rep q xs \<Longrightarrow> Blk i \<notin> set xs \<Longrightarrow>
     prev_free_block (cells q (Blk i)) = None \<and> next_free_block (cells q (Blk i)) = None"
  by (simp add: free_rep_def)

text \<open>The represented list is unique: the links determine it.\<close>

lemma path_to_None_unique:
  assumes "successively (linked h) (a # xs @ [e])" "successively (linked h) (a # ys @ [e])"
    and "next_free_block (h e) = None"
  shows "xs = ys"
  using assms
proof (induction xs arbitrary: a ys)
  case Nil
  then show ?case by (cases ys) (auto simp: successively_Cons linked_def)
next
  case (Cons x xs)
  from Cons.prems have a: "next_free_block (h a) = Some x" by (simp add: linked_def)
  show ?case
  proof (cases ys)
    case Nil
    with Cons.prems a have "x = e" by (simp add: linked_def)
    with Cons.prems(1,3) show ?thesis by (cases xs) (auto simp: linked_def)
  next
    case (Cons y ys')
    with Cons.prems a have "y = x" by (simp add: linked_def)
    with Cons Cons.prems Cons.IH [of x ys'] show ?thesis by simp
  qed
qed

lemma free_rep_unique: "free_rep q xs \<Longrightarrow> free_rep q ys \<Longrightarrow> xs = ys"
  unfolding free_rep_def by (elim conjE) (rule path_to_None_unique)

text \<open>Rewriting block metadata alone does not change the represented list.\<close>

lemma free_rep_cong:
  assumes "free_rep q xs" and "num_free_blocks q' = num_free_blocks q"
    and "\<And>r. prev_free_block (cells q' r) = prev_free_block (cells q r)"
    and "\<And>r. next_free_block (cells q' r) = next_free_block (cells q r)"
  shows "free_rep q' xs"
proof -
  have "linked (cells q') = linked (cells q)" using assms(3,4) by (auto simp: linked_def fun_eq_iff)
  with assms show ?thesis by (simp add: free_rep_def)
qed

section \<open>Each operation refines its list operation\<close>

text \<open>
  All removals end the same way: the two parts around the removed blocks are joined.
\<close>

lemma free_rep_rejoin:
  assumes "successively (linked h) (FakeHead # xs)" "successively (linked h) (ys @ [FakeTail])"
    and "next_free_block (h FakeTail) = None" "prev_free_block (h FakeHead) = None"
    and "distinct (xs @ ys)" "set (xs @ ys) \<subseteq> range Blk"
    and "\<And>i. Blk i \<notin> set (xs @ ys) \<Longrightarrow>
            prev_free_block (h (Blk i)) = None \<and> next_free_block (h (Blk i)) = None"
    and links: "\<And>r. next_free_block (cells q' r) =
           (if r = last (FakeHead # xs) then Some (hd (ys @ [FakeTail])) else next_free_block (h r))"
      "\<And>r. prev_free_block (cells q' r) =
           (if r = hd (ys @ [FakeTail]) then Some (last (FakeHead # xs)) else prev_free_block (h r))"
    and "num_free_blocks q' = int (length (xs @ ys))"
  shows "free_rep q' (xs @ ys)"
proof -
  define q where "q = \<lparr>cells = set_prev (hd (ys @ [FakeTail])) (Some (last (FakeHead # xs)))
           (set_next (last (FakeHead # xs)) (Some (hd (ys @ [FakeTail]))) h),
         num_free_blocks = int (length (xs @ ys))\<rparr>"
  have "distinct ((FakeHead # xs) @ (ys @ [FakeTail]))" using assms(5,6) by auto
  then have "successively (linked (cells q)) ((FakeHead # xs) @ (ys @ [FakeTail]))"
    unfolding q_def free_queue.simps by (intro path_join assms(1,2)) simp_all
  moreover have "last (FakeHead # xs) \<noteq> FakeTail"
    using assms(6) last_in_set [of xs] by (auto simp del: last_in_set)
  moreover have "hd (ys @ [FakeTail]) \<in> set ys \<union> {FakeTail}" by (cases ys) auto
  moreover have "last (FakeHead # xs) \<in> insert FakeHead (set xs)" by auto
  ultimately have "free_rep q (xs @ ys)"
    using assms(3-7) by (auto simp: free_rep_def q_def)
  then show ?thesis
    by (rule free_rep_cong) (simp_all add: q_def links assms(10))
qed

lemma remove_refines:
  assumes "free_rep q (xs @ x # ys)"
  shows "\<exists>q'. remove x q = Inr q' \<and> free_rep q' (xs @ ys) \<and> metadata q' = metadata q"
proof -
  let ?h = "cells q" and ?p = "last (FakeHead # xs)" and ?n = "hd (ys @ [FakeTail])"
  have path: "successively (linked ?h) ((FakeHead # xs) @ x # (ys @ [FakeTail]))"
    using assms by (simp add: free_rep_def)
  then have P: "successively (linked ?h) (FakeHead # xs)" "successively (linked ?h) (ys @ [FakeTail])"
    and L: "linked ?h ?p x" "linked ?h x ?n"
    using path_splitD [OF path] path_splitD [of _ "[x]" "ys @ [FakeTail]"] by auto
  from assms have x: "x \<notin> set (FakeHead # xs)" "x \<notin> set (ys @ [FakeTail])" "x \<noteq> ?p" "x \<noteq> ?n"
    by (auto simp: free_rep_def hd_append split: if_splits)
  define h' where "h' = set_next x None (set_prev x None ?h)"
  define q' where "q' = \<lparr>cells = set_next x None (set_prev x None
      (set_prev ?n (Some ?p) (set_next ?p (Some ?n) ?h))), num_free_blocks = num_free_blocks q - 1\<rparr>"
  have "remove x q = Inr q'"
    using L by (simp add: remove_def linked_def Let_def q'_def)
  moreover have "free_rep q' (xs @ ys)"
    by (rule free_rep_rejoin [where h = h'])
       (use assms P x in \<open>auto simp: h'_def q'_def free_rep_def\<close>)
  moreover have "metadata q' = metadata q"
    by (simp add: metadata_def q'_def fun_eq_iff)
  ultimately show ?thesis by blast
qed

lemma remove_absent: "free_rep q xs \<Longrightarrow> Blk i \<notin> set xs \<Longrightarrow> remove (Blk i) q = Inl RuntimeError"
  by (simp add: remove_def free_rep_unlinked)


lemma popleft_Nil: "free_rep q [] \<Longrightarrow> popleft q = Inl ValueError"
  using free_repD [of q "[]"] by (simp add: popleft_def linked_def)

text \<open>On a represented queue \<^verbatim>\<open>popleft\<close> is \<^verbatim>\<open>remove\<close> of the first block.\<close>

lemma popleft_eq_remove:
  assumes "free_rep q (x # xs)"
  shows "popleft q = rbind (remove x q) (\<lambda>q'. Inr (x, q'))"
proof -
  have l: "linked (cells q) FakeHead x" "linked (cells q) x (hd (xs @ [FakeTail]))"
    using assms by (cases xs; simp add: free_rep_def)+
  have "x \<noteq> FakeTail" using assms by (auto simp: free_rep_def)
  with l show ?thesis by (simp add: popleft_def remove_def linked_def Let_def)
qed

lemma popleft_refines:
  "free_rep q (x # xs) \<Longrightarrow>
     \<exists>q'. popleft q = Inr (x, q') \<and> free_rep q' xs \<and> metadata q' = metadata q"
  using remove_refines [of q "[]" x xs] by (auto simp: popleft_eq_remove)

subsection \<open>Popping several blocks\<close>

text \<open>The loop only follows successors, which unlinking the blocks behind it keeps.\<close>

fun succs :: "block_store \<Rightarrow> block_ref list \<Rightarrow> block_ref \<Rightarrow> bool" where
  "succs h [] e \<longleftrightarrow> True"
| "succs h (x # xs) e \<longleftrightarrow> next_free_block (h x) = Some (hd (xs @ [e])) \<and> succs h xs e"

lemma succs_path: "successively (linked h) (xs @ [e]) \<Longrightarrow> succs h xs e"
proof (induction xs)
  case (Cons x xs)
  then show ?case by (cases xs) (auto simp: linked_def)
qed simp

lemma succs_frame:
  "(\<And>r. r \<in> set xs \<Longrightarrow> next_free_block (h' r) = next_free_block (h r)) \<Longrightarrow> succs h' xs e = succs h xs e"
  by (induction xs) auto

definition unlink :: "block_ref list \<Rightarrow> block_store \<Rightarrow> block_store" where
  "unlink xs h = fold (\<lambda>c h. set_next c None (set_prev c None h)) xs h"

lemma unlink_links:
  "next_free_block (unlink xs h r) = (if r \<in> set xs then None else next_free_block (h r))"
  "prev_free_block (unlink xs h r) = (if r \<in> set xs then None else prev_free_block (h r))"
  by (induction xs arbitrary: h) (auto simp: unlink_def)

lemma unlink_meta:
  "(unlink xs h r)\<lparr>prev_free_block := None, next_free_block := None\<rparr>
     = (h r)\<lparr>prev_free_block := None, next_free_block := None\<rparr>"
  by (induction xs arbitrary: h) (auto simp: unlink_def)

lemma popleft_loop_unlinks:
  assumes "succs h xs e" "distinct xs" "cur = Some (hd (xs @ [e]))"
  shows "popleft_loop (length xs) cur ret h = Inr (Some e, ret @ xs, unlink xs h)"
  using assms
proof (induction xs arbitrary: cur ret h)
  case (Cons x xs)
  let ?h = "set_next x None (set_prev x None h)"
  have "succs ?h xs e" using Cons.prems by (subst succs_frame [where h = h]) auto
  with Cons show ?case by (simp add: unlink_def)
qed (simp add: unlink_def)

lemma popleft_n_refines:
  assumes "free_rep q (xs @ ys)"
  shows "\<exists>q'. popleft_n (int (length xs)) q = Inr (xs, q') \<and> free_rep q' ys \<and> metadata q' = metadata q"
proof (cases "xs = []")
  case True
  with assms show ?thesis by (auto simp: popleft_n_def)
next
  case False
  let ?e = "hd (ys @ [FakeTail])" and ?h = "unlink xs (cells q)"
  have path: "successively (linked (cells q)) ([FakeHead] @ xs @ ys @ [FakeTail])"
    using assms by (simp add: free_rep_def)
  from path_splitD [OF path] False have hd: "next_free_block (cells q FakeHead) = Some (hd (xs @ [?e]))"
    by (simp add: linked_def)
  have "successively (linked (cells q)) (xs @ [?e])"
    using path_splitD [OF path] path_splitD [of _ xs "ys @ [FakeTail]"] False
    by (auto simp: successively_append_iff)
  from popleft_loop_unlinks [OF succs_path [OF this] _ hd, of "[]"] assms
  have loop: "popleft_loop (length xs) (next_free_block (cells q FakeHead)) [] (cells q)
      = Inr (Some ?e, xs, ?h)"
    by (simp add: free_rep_def)
  define q' where "q' = \<lparr>cells = set_prev ?e (Some FakeHead) (set_next FakeHead (Some ?e) ?h),
    num_free_blocks = num_free_blocks q - int (length xs)\<rparr>"
  have "popleft_n (int (length xs)) q = Inr (xs, q')"
    using loop False assms by (simp add: popleft_n_def q'_def free_rep_def)
  moreover have "free_rep q' ([] @ ys)"
  proof (rule free_rep_rejoin [where h = ?h])
    have "successively (linked (cells q)) (ys @ [FakeTail])"
      using path_splitD [OF path] path_splitD [of _ xs "ys @ [FakeTail]"] False by auto
    then show "successively (linked ?h) (ys @ [FakeTail])"
      by (rule path_frame)
         (use assms in \<open>auto simp: unlink_links free_rep_def dest!: in_set_butlastD in_set_tlD\<close>)
  qed (use assms in \<open>auto simp: q'_def unlink_links free_rep_def\<close>)
  moreover have "metadata q' = metadata q"
    by (simp add: metadata_def q'_def unlink_meta fun_eq_iff)
  ultimately show ?thesis by auto
qed

lemma popleft_n_too_many:
  "free_rep q xs \<Longrightarrow> length xs < n \<Longrightarrow> popleft_n (int n) q = Inl AssertionError"
  by (auto simp: popleft_n_def free_rep_def)


subsection \<open>Appending\<close>

lemma append_loop_spec:
  assumes "successively (linked h) P" "P \<noteq> []" "distinct (P @ bs)"
    and "append_loop bs (last P) h = (l, h')"
  shows "successively (linked h') (P @ bs) \<and> l = last (P @ bs) \<and>
     (\<forall>r. r \<noteq> last P \<longrightarrow> r \<notin> set bs \<longrightarrow> next_free_block (h' r) = next_free_block (h r)) \<and>
     (\<forall>r. r \<notin> set bs \<longrightarrow> prev_free_block (h' r) = prev_free_block (h r)) \<and>
     (\<forall>r. (h' r)\<lparr>prev_free_block := None, next_free_block := None\<rparr>
          = (h r)\<lparr>prev_free_block := None, next_free_block := None\<rparr>)"
  using assms
proof (induction bs arbitrary: P h)
  case (Cons b bs)
  let ?h = "set_next (last P) (Some b) (set_prev b (Some (last P)) h)"
  have b: "b \<noteq> last P" using Cons.prems(2,3) by auto
  have "successively (linked (set_prev b (Some (last P)) (set_next (last P) (Some b) h))) (P @ [b])"
    using path_join [of h P "[b]"] Cons.prems by simp
  then have "successively (linked ?h) (P @ [b])"
    by (rule path_frame) auto
  with Cons.IH [of ?h "P @ [b]"] Cons.prems b show ?case by auto
qed auto

lemma append_n_refines:
  assumes "free_rep q xs" "distinct bs" "set bs \<subseteq> range Blk" "set bs \<inter> set xs = {}"
  shows "\<exists>q'. append_n bs q = Inr q' \<and> free_rep q' (xs @ bs) \<and> metadata q' = metadata q"
proof (cases "bs = []")
  case True
  with assms show ?thesis by (auto simp: append_n_def)
next
  case False
  let ?P = "FakeHead # xs"
  obtain l h where loop: "append_loop bs (last ?P) (cells q) = (l, h)" by fastforce
  have dist: "distinct (?P @ bs)" using assms by (auto simp: free_rep_def)
  note spec = append_loop_spec [OF free_repD(1) [OF assms(1)] _ dist loop, simplified]
  define q' where "q' = \<lparr>cells = set_prev FakeTail (Some l) (set_next l (Some FakeTail) h),
    num_free_blocks = num_free_blocks q + int (length bs)\<rparr>"
  have "append_n bs q = Inr q'"
    using free_repD(9) [OF assms(1)] False loop
    by (simp add: append_n_def linked_def q'_def)
  moreover have "free_rep q' ((xs @ bs) @ [])"
  proof (rule free_rep_rejoin [where h = h])
    have "last ?P \<noteq> FakeTail" using free_repD(6) [OF assms(1)] last_in_set [of ?P] by (auto simp del: last_in_set)
    moreover have "FakeTail \<notin> set bs" using assms(3) by auto
    ultimately show "next_free_block (h FakeTail) = None"
      using spec free_repD(3) [OF assms(1)] by auto
    show "prev_free_block (h (Blk i)) = None \<and> next_free_block (h (Blk i)) = None"
      if "Blk i \<notin> set ((xs @ bs) @ [])" for i
    proof -
      from that have "Blk i \<noteq> last ?P" by (metis append_Nil2 block_ref.distinct(4) last_in_set list.distinct(1) set_ConsD UnI1 set_append)
      with that spec free_rep_unlinked [OF assms(1), of i] show ?thesis by auto
    qed
  qed (use assms spec dist in \<open>auto simp: q'_def free_rep_def\<close>)
  moreover have "metadata q' = metadata q"
    using spec by (simp add: metadata_def q'_def fun_eq_iff)
  ultimately show ?thesis by auto
qed

lemma append_block_refines:
  assumes "free_rep q xs" "b \<in> range Blk" "b \<notin> set xs"
  shows "\<exists>q'. append_block b q = Inr q' \<and> free_rep q' (xs @ [b]) \<and> metadata q' = metadata q"
proof -
  let ?l = "last (FakeHead # xs)" and ?h = "cells q"
  have l: "prev_free_block (?h FakeTail) = Some ?l"
    using free_repD(9) [OF assms(1)] by (simp add: linked_def)
  have "?l \<noteq> b" using assms(2,3) by (cases xs rule: rev_cases) auto
  define q' where "q' = \<lparr>cells = set_prev FakeTail (Some b) (set_next b (Some FakeTail)
      (set_prev b (Some ?l) (set_next ?l (Some b) ?h))), num_free_blocks = num_free_blocks q + 1\<rparr>"
  define q'' where "q'' = \<lparr>cells = set_prev FakeTail (Some b) (set_next b (Some FakeTail)
      (set_next ?l (Some b) (set_prev b (Some ?l) ?h))), num_free_blocks = num_free_blocks q + 1\<rparr>"
  have "append_n [b] q = Inr q''" using l by (simp add: append_n_def q''_def)
  with append_n_refines [of q xs "[b]"] assms have "free_rep q'' (xs @ [b])" by auto
  then have "free_rep q' (xs @ [b])" by (rule free_rep_cong) (auto simp: q'_def q''_def)
  moreover have "append_block b q = Inr q'" using l by (simp add: append_block_def Let_def q'_def)
  moreover have "metadata q' = metadata q" by (simp add: metadata_def q'_def fun_eq_iff)
  ultimately show ?thesis by blast
qed

subsection \<open>Traversal and construction\<close>

lemma walk_free_collects:
  "succs h xs e \<Longrightarrow> next_free_block (h e) = None \<Longrightarrow> walk_free h (hd (xs @ [e])) ret = Some (ret @ xs)"
proof (induction xs arbitrary: ret)
  case Nil
  then show ?case by (simp add: walk_free.simps)
next
  case (Cons x xs)
  then show ?case by (subst walk_free.simps) simp
qed

lemma get_all_free_blocks_refines:
  assumes "free_rep q xs"
  shows "get_all_free_blocks q = Some (Inr xs)"
  using free_repD(10) [OF assms] walk_free_collects [OF succs_path [OF free_repD(2) [OF assms]] free_repD(3) [OF assms], of "[]"]
  by (simp add: get_all_free_blocks_def linked_def)

lemma link_fold:
  fixes h :: block_store
  assumes "distinct bs" "k \<le> length bs"
  defines "h' \<equiv> fold (link_step bs) [0..<k] h"
  shows "(\<forall>i < k. prev_free_block (h' (bs ! i)) =
            (if 0 < i then Some (bs ! (i - 1)) else prev_free_block (h (bs ! i)))) \<and>
     (\<forall>i < k. next_free_block (h' (bs ! i)) =
            (if i < length bs - 1 then Some (bs ! (i + 1)) else next_free_block (h (bs ! i)))) \<and>
     (\<forall>r. r \<notin> (!) bs ` {..<k} \<longrightarrow> h' r = h r) \<and>
     (\<forall>r. (h' r)\<lparr>prev_free_block := None, next_free_block := None\<rparr>
          = (h r)\<lparr>prev_free_block := None, next_free_block := None\<rparr>)"
  using assms(2) unfolding h'_def
proof (induction k)
  case (Suc k)
  let ?h = "fold (link_step bs) [0..<k] h"
  have IH: "\<forall>i < k. prev_free_block (?h (bs ! i)) =
            (if 0 < i then Some (bs ! (i - 1)) else prev_free_block (h (bs ! i)))"
    "\<forall>i < k. next_free_block (?h (bs ! i)) =
            (if i < length bs - 1 then Some (bs ! (i + 1)) else next_free_block (h (bs ! i)))"
    "\<forall>r. r \<notin> (!) bs ` {..<k} \<longrightarrow> ?h r = h r"
    "\<forall>r. (?h r)\<lparr>prev_free_block := None, next_free_block := None\<rparr>
          = (h r)\<lparr>prev_free_block := None, next_free_block := None\<rparr>"
    using Suc by auto
  have old: "bs ! i \<noteq> bs ! k" if "i < k" for i
    using that Suc.prems assms(1) by (simp add: nth_eq_iff_index_eq)
  then have new: "?h (bs ! k) = h (bs ! k)"
    using IH(3) by (metis (no_types, lifting) imageE lessThan_iff)
  have step: "prev_free_block (link_step bs k ?h r) =
      (if r = bs ! k \<and> 0 < k then Some (bs ! (k - 1)) else prev_free_block (?h r))"
    "next_free_block (link_step bs k ?h r) =
      (if r = bs ! k \<and> k < length bs - 1 then Some (bs ! (k + 1)) else next_free_block (?h r))"
    "r \<noteq> bs ! k \<Longrightarrow> link_step bs k ?h r = ?h r"
    "(link_step bs k ?h r)\<lparr>prev_free_block := None, next_free_block := None\<rparr>
       = (?h r)\<lparr>prev_free_block := None, next_free_block := None\<rparr>" for r
    by (auto simp: link_step_def Let_def set_next_def set_prev_def)
  show ?case
    using IH old new by (simp add: step less_Suc_eq lessThan_Suc all_conj_distrib)
qed simp

text \<open>A queue over fresh blocks represents the blocks in the given order.\<close>

lemma FreeKVCacheBlockQueue_refines:
  assumes "distinct bs" "set bs \<subseteq> range Blk"
    and "\<And>i. prev_free_block (h (Blk i)) = None \<and> next_free_block (h (Blk i)) = None"
  shows "free_rep (FreeKVCacheBlockQueue bs h) bs \<and>
     (\<forall>i. metadata (FreeKVCacheBlockQueue bs h) (Blk i)
          = (h (Blk i))\<lparr>prev_free_block := None, next_free_block := None\<rparr>)"
proof -
  let ?q = "FreeKVCacheBlockQueue bs h"
  define h1 where "h1 = fold (link_step bs) [0..<length bs] h"
  define h2 where "h2 = h1(FakeHead := KVCacheBlock (-1), FakeTail := KVCacheBlock (-1))"
  note lf = link_fold [OF assms(1) order_refl, of h, folded h1_def]
  have off: "h1 r = h r" if "r \<notin> set bs" for r
    using lf that by (metis (no_types, lifting) imageE lessThan_iff nth_mem)
  have fake: "FakeHead \<notin> set bs" "FakeTail \<notin> set bs" using assms(2) by auto
  have "successively (linked h1) bs"
    unfolding successively_conv_nth linked_def using lf by auto
  then have path: "successively (linked h2) bs"
    by (rule path_frame) (use fake in \<open>auto simp: h2_def dest!: in_set_butlastD in_set_tlD\<close>)
  have meta: "metadata ?q (Blk i) = (h (Blk i))\<lparr>prev_free_block := None, next_free_block := None\<rparr>" for i
    using lf by (auto simp: metadata_def FreeKVCacheBlockQueue_def Let_def h1_def [symmetric] h2_def [symmetric])
       (simp_all add: h2_def)
  show ?thesis
  proof (cases "bs = []")
    case True
    then have "free_rep ?q []"
      using assms(3) off by (auto simp: FreeKVCacheBlockQueue_def free_rep_def linked_def KVCacheBlock_def
          set_next_def set_prev_def)
    with True meta show ?thesis by simp
  next
    case False
    have "successively (linked (set_prev (hd bs) (Some FakeHead) (set_next FakeHead (Some (hd bs)) h2)))
            (FakeHead # bs)"
      using path_join [of h2 "[FakeHead]" bs] path assms(1) fake False by simp
    moreover have "hd bs \<noteq> FakeHead" "hd bs \<noteq> FakeTail" "last bs \<in> set bs"
      using fake False hd_in_set [OF False] by force+
    ultimately have "free_rep ?q (bs @ [])"
      using False assms fake off lf
      by (intro free_rep_rejoin [where h = "set_prev (hd bs) (Some FakeHead) (set_next FakeHead (Some (hd bs)) h2)"])
         (auto simp: FreeKVCacheBlockQueue_def Let_def h1_def [symmetric] h2_def KVCacheBlock_def)
    with meta show ?thesis by simp
  qed
qed


text \<open>
  Links and counters are functions of the represented list, so a queue is determined by
  that list and the blocks' metadata.
\<close>

lemma successively_links:
  assumes "successively (linked h) xs" "successively (linked h') xs"
  shows "r \<in> set (butlast xs) \<Longrightarrow> next_free_block (h r) = next_free_block (h' r)"
    and "r \<in> set (tl xs) \<Longrightarrow> prev_free_block (h r) = prev_free_block (h' r)"
  using assms by (induction xs rule: induct_list012) (auto simp: linked_def split: if_splits)

lemma block_eqI:
  assumes "b\<lparr>prev_free_block := None, next_free_block := None\<rparr> = b'\<lparr>prev_free_block := None, next_free_block := None\<rparr>"
    and "prev_free_block b = prev_free_block b'" "next_free_block b = next_free_block b'"
  shows "b = (b' :: kv_cache_block)"
  using assms by (cases b; cases b') simp

lemma free_rep_determines:
  assumes "free_rep q xs" "free_rep q' xs" "metadata q = metadata q'"
  shows "q = q'"
proof -
  note path = assms(1,2) [unfolded free_rep_def, THEN conjunct1]
  have "cells q r = cells q' r" for r
  proof (rule block_eqI)
    show "(cells q r)\<lparr>prev_free_block := None, next_free_block := None\<rparr>
        = (cells q' r)\<lparr>prev_free_block := None, next_free_block := None\<rparr>"
      using assms(3) by (simp add: metadata_def fun_eq_iff)
    show "prev_free_block (cells q r) = prev_free_block (cells q' r)"
      using successively_links(2) [OF path, of r] assms(1,2)
      by (cases "r \<in> set xs"; cases r) (auto simp: free_rep_def)
    show "next_free_block (cells q r) = next_free_block (cells q' r)"
      using successively_links(1) [OF path, of r] assms(1,2)
      by (cases "r \<in> set xs"; cases r) (auto simp: free_rep_def butlast_append)
  qed
  moreover have "num_free_blocks q = num_free_blocks q'" using assms(1,2) by (simp add: free_rep_def)
  ultimately show ?thesis by (cases q; cases q') (simp add: fun_eq_iff)
qed


section \<open>The interface the block pool relies on\<close>

text \<open>
  The contract of an eviction queue: it holds distinct admissible blocks in eviction
  order, gives them out from the front, takes blocks back at the end, can drop a block
  from the middle, and never touches what its clients store in the blocks (\<open>frame\<close>).
\<close>

fun iterate_popleft :: "('q \<Rightarrow> ('b \<times> 'q) res) \<Rightarrow> nat \<Rightarrow> 'q \<Rightarrow> ('b list \<times> 'q) res" where
  "iterate_popleft pop 0 q = Inr ([], q)"
| "iterate_popleft pop (Suc n) q =
     rbind (pop q) (\<lambda>(b, q'). rbind (iterate_popleft pop n q') (\<lambda>(bs, q''). Inr (b # bs, q'')))"

locale eviction_queue =
  fixes pop :: "'q \<Rightarrow> ('b \<times> 'q) res"
    and pop_n :: "int \<Rightarrow> 'q \<Rightarrow> ('b list \<times> 'q) res"
    and drop_one :: "'b \<Rightarrow> 'q \<Rightarrow> 'q res"
    and put_n :: "'b list \<Rightarrow> 'q \<Rightarrow> 'q res"
    and rep :: "'q \<Rightarrow> 'b list \<Rightarrow> bool"
    and admissible :: "'b \<Rightarrow> bool"
    and frame :: "'q \<Rightarrow> 'm"
  assumes rep_distinct: "rep q xs \<Longrightarrow> distinct xs"
    and rep_admissible: "rep q xs \<Longrightarrow> x \<in> set xs \<Longrightarrow> admissible x"
    and rep_determines: "rep q xs \<Longrightarrow> rep q' xs \<Longrightarrow> frame q = frame q' \<Longrightarrow> q = q'"
    and pop_empty: "rep q [] \<Longrightarrow> pop q = Inl ValueError"
    and pop_first: "rep q (x # xs) \<Longrightarrow> \<exists>q'. pop q = Inr (x, q') \<and> rep q' xs \<and> frame q' = frame q"
    and pop_n_front: "rep q (xs @ ys) \<Longrightarrow>
           \<exists>q'. pop_n (int (length xs)) q = Inr (xs, q') \<and> rep q' ys \<and> frame q' = frame q"
    and pop_n_short: "rep q xs \<Longrightarrow> length xs < n \<Longrightarrow> pop_n (int n) q = Inl AssertionError"
    and drop_member: "rep q (xs @ x # ys) \<Longrightarrow>
           \<exists>q'. drop_one x q = Inr q' \<and> rep q' (xs @ ys) \<and> frame q' = frame q"
    and put_back: "rep q xs \<Longrightarrow> distinct bs \<Longrightarrow> (\<forall>b\<in>set bs. admissible b) \<Longrightarrow> set bs \<inter> set xs = {} \<Longrightarrow>
           \<exists>q'. put_n bs q = Inr q' \<and> rep q' (xs @ bs) \<and> frame q' = frame q"
begin

lemma iterate_pop:
  "rep q (xs @ ys) \<Longrightarrow>
     \<exists>q'. iterate_popleft pop (length xs) q = Inr (xs, q') \<and> rep q' ys \<and> frame q' = frame q"
proof (induction xs arbitrary: q)
  case (Cons x xs)
  from pop_first [of q x "xs @ ys"] Cons.prems obtain q1
    where q1: "pop q = Inr (x, q1)" "rep q1 (xs @ ys)" "frame q1 = frame q" by auto
  from Cons.IH [OF q1(2)] q1 show ?case by auto
qed auto

text \<open>Popping a batch is popping one block after the other.\<close>

lemma pop_n_is_iterated_pop:
  assumes "rep q xs" "n \<le> length xs"
  shows "pop_n (int n) q = iterate_popleft pop n q"
proof -
  have xs: "rep q (take n xs @ drop n xs)" "length (take n xs) = n" using assms by simp_all
  from pop_n_front [OF xs(1)] xs(2) obtain q1
    where "pop_n (int n) q = Inr (take n xs, q1)" "rep q1 (drop n xs)" "frame q1 = frame q" by auto
  moreover from iterate_pop [OF xs(1)] xs(2) obtain q2
    where "iterate_popleft pop n q = Inr (take n xs, q2)" "rep q2 (drop n xs)" "frame q2 = frame q" by auto
  ultimately show ?thesis using rep_determines by metis
qed

text \<open>Blocks put back are given out only after every block that was already free.\<close>

lemma put_back_evicted_last:
  assumes "rep q xs" "distinct bs" "\<forall>b\<in>set bs. admissible b" "set bs \<inter> set xs = {}"
  shows "\<exists>q1 q2. put_n bs q = Inr q1 \<and> pop_n (int (length xs)) q1 = Inr (xs, q2) \<and> rep q2 bs"
  using put_back [OF assms] pop_n_front [of _ xs bs] by fastforce

text \<open>Taking a free block back into use leaves the eviction order of the others alone.\<close>

lemma drop_then_pop:
  assumes "rep q (xs @ x # ys)"
  shows "\<exists>q1 q2. drop_one x q = Inr q1 \<and> pop_n (int (length (xs @ ys))) q1 = Inr (xs @ ys, q2) \<and> rep q2 []"
  using drop_member [OF assms] pop_n_front [of _ "xs @ ys" "[]"] by fastforce

end

interpretation fq: eviction_queue popleft popleft_n remove append_n free_rep "\<lambda>b. b \<in> range Blk" metadata
proof
  fix q :: free_queue and x and xs :: "block_ref list"
  show "free_rep q xs \<Longrightarrow> distinct xs" by (rule free_repD)
  show "free_rep q xs \<Longrightarrow> x \<in> set xs \<Longrightarrow> x \<in> range Blk" using free_repD(7) by blast
next
  fix q xs bs
  assume "free_rep q xs" "distinct bs" "\<forall>b\<in>set bs. b \<in> range Blk" "set bs \<inter> set xs = {}"
  then show "\<exists>q'. append_n bs q = Inr q' \<and> free_rep q' (xs @ bs) \<and> metadata q' = metadata q"
    by (intro append_n_refines) auto
qed (fact free_rep_determines popleft_Nil popleft_refines popleft_n_refines popleft_n_too_many remove_refines)+

section \<open>Properties\<close>

definition fresh_blocks :: block_store where
  "fresh_blocks r = (case r of Blk i \<Rightarrow> KVCacheBlock (int i) | _ \<Rightarrow> KVCacheBlock (-1))"

lemma fresh_queue_rep: "distinct bs \<Longrightarrow> set bs \<subseteq> range Blk \<Longrightarrow> free_rep (FreeKVCacheBlockQueue bs fresh_blocks) bs"
  using FreeKVCacheBlockQueue_refines [of bs fresh_blocks] by (simp add: fresh_blocks_def KVCacheBlock_def)

text \<open>
  C9. The batched \<^verbatim>\<open>popleft_n\<close>, which walks the list once and relinks the head once,
  leaves exactly the queue and returns exactly the blocks of \<open>n\<close> calls of
  \<^verbatim>\<open>popleft\<close>, for every queue that represents a list of at least \<open>n\<close> blocks.
\<close>

theorem popleft_n_eq_iterated_popleft:
  assumes "free_rep q xs" "n \<le> length xs"
  shows "popleft_n (int n) q = iterate_popleft popleft n q"
  using assms by (rule fq.pop_n_is_iterated_pop)

theorem popleft_n_eq_iterated_popleft_witness:
  "popleft_n (int 2) (FreeKVCacheBlockQueue [Blk 0, Blk 1, Blk 2] fresh_blocks)
     = iterate_popleft popleft 2 (FreeKVCacheBlockQueue [Blk 0, Blk 1, Blk 2] fresh_blocks)"
  by (rule popleft_n_eq_iterated_popleft [where xs = "[Blk 0, Blk 1, Blk 2]"])
     (simp_all add: fresh_queue_rep)

text \<open>
  C10. The linked list implements the eviction order: on a queue holding \<open>xs\<close>, removing a
  block from the middle, popping the first \<open>n\<close> and appending a batch of blocks that are
  not in the queue never raise and give the queues holding \<open>xs\<close> without the block, without
  its first \<open>n\<close> blocks, and with the batch at the end; the traversal
  \<^verbatim>\<open>get_all_free_blocks\<close> returns and yields \<open>xs\<close>; and no operation changes any field
  of a block other than its links.
\<close>

theorem free_queue_refines_list:
  assumes "free_rep q xs"
  shows "get_all_free_blocks q = Some (Inr xs) \<and>
    (\<forall>i < length xs. \<exists>q'. remove (xs ! i) q = Inr q' \<and>
       free_rep q' (take i xs @ drop (Suc i) xs) \<and> metadata q' = metadata q) \<and>
    (\<forall>n \<le> length xs. \<exists>q'. popleft_n (int n) q = Inr (take n xs, q') \<and>
       free_rep q' (drop n xs) \<and> metadata q' = metadata q) \<and>
    (\<forall>bs. distinct bs \<longrightarrow> set bs \<subseteq> range Blk \<longrightarrow> set bs \<inter> set xs = {} \<longrightarrow>
       (\<exists>q'. append_n bs q = Inr q' \<and> free_rep q' (xs @ bs) \<and> metadata q' = metadata q))"
proof (intro conjI allI impI)
  show "get_all_free_blocks q = Some (Inr xs)" using assms by (rule get_all_free_blocks_refines)
  show "\<exists>q'. remove (xs ! i) q = Inr q' \<and> free_rep q' (take i xs @ drop (Suc i) xs) \<and> metadata q' = metadata q"
    if "i < length xs" for i
    using fq.drop_member [of q "take i xs" "xs ! i" "drop (Suc i) xs"] assms that
    by (simp add: id_take_nth_drop [symmetric])
  show "\<exists>q'. popleft_n (int n) q = Inr (take n xs, q') \<and> free_rep q' (drop n xs) \<and> metadata q' = metadata q"
    if "n \<le> length xs" for n
    using fq.pop_n_front [of q "take n xs" "drop n xs"] assms that by simp
  show "\<exists>q'. append_n bs q = Inr q' \<and> free_rep q' (xs @ bs) \<and> metadata q' = metadata q"
    if "distinct bs" "set bs \<subseteq> range Blk" "set bs \<inter> set xs = {}" for bs
    using fq.put_back [OF assms that(1) _ that(3)] that(2) by auto
qed

theorem free_queue_refines_list_witness:
  "\<exists>q'. remove (Blk 1) (FreeKVCacheBlockQueue [Blk 0, Blk 1, Blk 2] fresh_blocks) = Inr q' \<and>
     get_all_free_blocks q' = Some (Inr [Blk 0, Blk 2])"
proof -
  let ?q = "FreeKVCacheBlockQueue [Blk 0, Blk 1, Blk 2] fresh_blocks"
  have "free_rep ?q [Blk 0, Blk 1, Blk 2]" by (simp add: fresh_queue_rep)
  from free_queue_refines_list [OF this, THEN conjunct2, THEN conjunct1, rule_format, of 1]
  obtain q' where "remove (Blk 1) ?q = Inr q'" "free_rep q' [Blk 0, Blk 2]" by auto
  with free_queue_refines_list [of q'] show ?thesis by blast
qed

end
