(* ===== verification/Block_Map.thy ===== *)
theory Block_Map
  imports Free_Queue
begin

text \<open>
  \<^verbatim>\<open>vllm/v1/core/block_pool.py\<close>, class \<^verbatim>\<open>BlockHashToBlockMap\<close>: the index from
  keys (hash and group id) to the cached blocks that carry them. A key that only one
  block has is mapped to the block itself; duplicates are kept in a dictionary from block
  id to block. The abstraction (\<open>bm_blocks\<close>) is the list of the blocks under a key, oldest
  first; the contract the block pool relies on is the locale \<open>hash_index\<close>.
\<close>

section \<open>Model\<close>

datatype cached_blocks = OneBlock block_ref | ManyBlocks "(int, block_ref) pydict"

type_synonym block_map = "(bytes, cached_blocks) pydict"

text \<open>\<open>next(iter(blocks.values()))\<close> raises on an empty dictionary.\<close>

definition get_one_block :: "block_map \<Rightarrow> bytes \<Rightarrow> block_ref option res" where
  "get_one_block m key =
     (case dict_get m key of
        None \<Rightarrow> Inr None
      | Some (OneBlock b) \<Rightarrow> Inr (Some b)
      | Some (ManyBlocks d) \<Rightarrow> (case d of [] \<Rightarrow> Inl StopIteration | (_, b) # _ \<Rightarrow> Inr (Some b)))"

text \<open>\<open>ids\<close> reads \<^verbatim>\<open>block.block_id\<close>.\<close>

definition insert_block :: "(block_ref \<Rightarrow> int) \<Rightarrow> bytes \<Rightarrow> block_ref \<Rightarrow> block_map \<Rightarrow> block_map" where
  "insert_block ids key b m =
     (case dict_get m key of
        None \<Rightarrow> dict_set key (OneBlock b) m
      | Some (OneBlock b0) \<Rightarrow> dict_set key (ManyBlocks (dict_set (ids b) b (dict_set (ids b0) b0 []))) m
      | Some (ManyBlocks d) \<Rightarrow> dict_set key (ManyBlocks (dict_set (ids b) b d)) m)"

definition pop_block :: "(block_ref \<Rightarrow> int) \<Rightarrow> bytes \<Rightarrow> int \<Rightarrow> block_map \<Rightarrow> block_ref option \<times> block_map" where
  "pop_block ids key bid m =
     (let m' = dict_del key m in
      case dict_get m key of
        None \<Rightarrow> (None, m')
      | Some (OneBlock b) \<Rightarrow> if ids b = bid then (Some b, m') else (None, dict_set key (OneBlock b) m')
      | Some (ManyBlocks d) \<Rightarrow>
          let d' = dict_del bid d
          in (dict_get d bid, if d' \<noteq> [] then dict_set key (ManyBlocks d') m' else m'))"

definition block_map_len :: "block_map \<Rightarrow> nat" where
  "block_map_len m = length m"

section \<open>Abstraction and invariant\<close>

fun entry_blocks :: "cached_blocks \<Rightarrow> block_ref list" where
  "entry_blocks (OneBlock b) = [b]"
| "entry_blocks (ManyBlocks d) = map snd d"

definition bm_blocks :: "block_map \<Rightarrow> bytes \<Rightarrow> block_ref list" where
  "bm_blocks m key = (case dict_get m key of None \<Rightarrow> [] | Some e \<Rightarrow> entry_blocks e)"

fun entry_ok :: "(block_ref \<Rightarrow> int) \<Rightarrow> cached_blocks \<Rightarrow> bool" where
  "entry_ok ids (OneBlock b) = True"
| "entry_ok ids (ManyBlocks d) = (d \<noteq> [] \<and> dict_ok d \<and> (\<forall>(i, b) \<in> set d. ids b = i))"

definition bm_ok :: "(block_ref \<Rightarrow> int) \<Rightarrow> block_map \<Rightarrow> bool" where
  "bm_ok ids m \<longleftrightarrow> dict_ok m \<and> (\<forall>key e. dict_get m key = Some e \<longrightarrow> entry_ok ids e)"

lemma bm_blocks_Nil [simp]: "bm_blocks [] key = []"
  by (simp add: bm_blocks_def)

lemma bm_ok_Nil [simp]: "bm_ok ids []"
  by (simp add: bm_ok_def)

lemma dict_set_nonempty [simp]: "dict_set k v d \<noteq> []"
  by (metis dict_get_Nil dict_get_set option.distinct(1))

lemma dict_set_pair [simp]:
  "dict_set i b (dict_set i0 b0 []) = (if i = i0 then [(i, b)] else [(i0, b0), (i, b)])"
  by (auto simp: dict_set_def)

lemma entry_ok_Many:
  "entry_ok ids (ManyBlocks d) \<longleftrightarrow> d \<noteq> [] \<and> dict_ok d \<and> (\<forall>i b. dict_get d i = Some b \<longrightarrow> ids b = i)"
  by (auto simp: dict_mem_iff dest: dict_get_SomeD)

lemma bm_ok_entry: "bm_ok ids m \<Longrightarrow> dict_get m key = Some e \<Longrightarrow> entry_ok ids e"
  by (auto simp: bm_ok_def)

lemma entry_dict_keys: "entry_ok ids (ManyBlocks d) \<Longrightarrow> dict_keys d = map ids (map snd d)"
  by (auto simp: dict_keys_def)

lemma entry_distinct: "entry_ok ids e \<Longrightarrow> distinct (map ids (entry_blocks e))"
proof (cases e)
  case (ManyBlocks d)
  assume "entry_ok ids e"
  then show ?thesis using entry_dict_keys [of ids d] ManyBlocks by (simp add: dict_ok_def)
qed simp

lemma entry_nonempty: "entry_ok ids e \<Longrightarrow> entry_blocks e \<noteq> []"
  by (cases e) auto

lemma get_one_block_spec:
  "bm_ok ids m \<Longrightarrow>
   get_one_block m key = Inr (case bm_blocks m key of [] \<Rightarrow> None | b # _ \<Rightarrow> Some b)"
proof (cases "dict_get m key")
  case (Some e)
  assume "bm_ok ids m"
  with Some have "entry_ok ids e" by (auto simp: bm_ok_def)
  with Some show ?thesis
    by (cases e) (auto simp: get_one_block_def bm_blocks_def split: list.splits)
qed (simp add: get_one_block_def bm_blocks_def)

lemma insert_block_ok:
  assumes "bm_ok ids m"
  shows "bm_ok ids (insert_block ids key b m)"
proof (cases "dict_get m key")
  case None
  with assms show ?thesis by (auto simp: bm_ok_def insert_block_def dict_get_set split: if_splits)
next
  case (Some e)
  show ?thesis
  proof (cases e)
    case (OneBlock b0)
    with Some assms show ?thesis
      by (auto simp: bm_ok_def insert_block_def dict_get_set dict_ok_def [of "[_, _]"] dict_ok_def [of "[_]"]
          dict_keys_def split: if_splits)
  next
    case (ManyBlocks d)
    have "entry_ok ids (ManyBlocks d)" using bm_ok_entry [OF _ Some] assms ManyBlocks by simp
    then have "entry_ok ids (ManyBlocks (dict_set (ids b) b d))"
      unfolding entry_ok_Many by (auto simp: dict_get_set)
    with Some ManyBlocks assms show ?thesis
      by (auto simp: bm_ok_def insert_block_def dict_get_set split: if_splits)
  qed
qed

lemma insert_block_spec:
  assumes "bm_ok ids m" "\<forall>b' \<in> set (bm_blocks m key). ids b' \<noteq> ids b"
  shows "bm_blocks (insert_block ids key b m) key' =
    (if key' = key then bm_blocks m key @ [b] else bm_blocks m key')"
proof (cases "dict_get m key")
  case None
  then show ?thesis by (simp add: insert_block_def bm_blocks_def dict_get_set)
next
  case (Some e)
  show ?thesis
  proof (cases e)
    case (OneBlock b0)
    with Some assms show ?thesis
      by (simp add: insert_block_def bm_blocks_def dict_get_set)
  next
    case (ManyBlocks d)
    have "entry_ok ids (ManyBlocks d)" using bm_ok_entry [OF _ Some] assms ManyBlocks by simp
    from entry_dict_keys [OF this] Some ManyBlocks assms(2) have "ids b \<notin> set (dict_keys d)"
      by (auto simp: bm_blocks_def)
    with Some ManyBlocks show ?thesis
      by (simp add: insert_block_def bm_blocks_def dict_get_set dict_set_absent)
  qed
qed

lemma entry_del:
  assumes "entry_ok ids (ManyBlocks d)"
  shows "map snd (dict_del bid d) = filter (\<lambda>b. ids b \<noteq> bid) (map snd d)"
  using assms by (auto simp: dict_del_def filter_map o_def intro!: arg_cong [where f = "map snd"] filter_cong)

lemma entry_get:
  assumes "entry_ok ids (ManyBlocks d)"
  shows "dict_get d bid = find (\<lambda>b. ids b = bid) (map snd d)"
proof -
  have "\<forall>(i, b) \<in> set d. ids b = i" using assms by simp
  then show ?thesis by (induction d) (auto simp: dict_get_Cons)
qed

lemma pop_block_spec:
  assumes "bm_ok ids m"
  shows "fst (pop_block ids key bid m) = find (\<lambda>b. ids b = bid) (bm_blocks m key)"
    and "bm_blocks (snd (pop_block ids key bid m)) key' =
      (if key' = key then filter (\<lambda>b. ids b \<noteq> bid) (bm_blocks m key) else bm_blocks m key')"
    and "bm_ok ids (snd (pop_block ids key bid m))"
proof -
  show "fst (pop_block ids key bid m) = find (\<lambda>b. ids b = bid) (bm_blocks m key)"
  proof (cases "dict_get m key")
    case (Some e)
    then have "entry_ok ids e" using assms by (auto simp: bm_ok_def)
    with Some show ?thesis
      by (cases e) (auto simp: pop_block_def bm_blocks_def Let_def entry_get)
  qed (simp add: pop_block_def bm_blocks_def)
  show "bm_blocks (snd (pop_block ids key bid m)) key' =
      (if key' = key then filter (\<lambda>b. ids b \<noteq> bid) (bm_blocks m key) else bm_blocks m key')"
  proof (cases "dict_get m key")
    case (Some e)
    then have e: "entry_ok ids e" using assms by (auto simp: bm_ok_def)
    show ?thesis
    proof (cases e)
      case (OneBlock b)
      with Some show ?thesis by (auto simp: pop_block_def bm_blocks_def Let_def dict_get_set dict_get_del)
    next
      case (ManyBlocks d)
      have "dict_del bid d = [] \<longleftrightarrow> filter (\<lambda>b. ids b \<noteq> bid) (map snd d) = []"
        using entry_del [of ids d bid] e ManyBlocks by (metis list.map_disc_iff)
      with Some ManyBlocks e entry_del [of ids d bid] show ?thesis
        by (auto simp: pop_block_def bm_blocks_def Let_def dict_get_set dict_get_del)
    qed
  qed (simp add: pop_block_def bm_blocks_def dict_get_del)
  show "bm_ok ids (snd (pop_block ids key bid m))"
  proof (cases "dict_get m key")
    case None
    with assms show ?thesis by (auto simp: pop_block_def bm_ok_def dict_get_del split: if_splits)
  next
    case (Some e)
    then have e: "entry_ok ids e" using assms by (auto simp: bm_ok_def)
    show ?thesis
    proof (cases e)
      case (OneBlock b)
      with Some assms show ?thesis
        by (auto simp: pop_block_def bm_ok_def Let_def dict_get_set dict_get_del split: if_splits)
    next
      case (ManyBlocks d)
      have "entry_ok ids (ManyBlocks (dict_del bid d))" if "dict_del bid d \<noteq> []"
        using that e unfolding ManyBlocks entry_ok_Many by (auto simp: dict_get_del)
      with Some ManyBlocks assms show ?thesis
        by (auto simp: pop_block_def bm_ok_def Let_def dict_get_set dict_get_del split: if_splits)
    qed
  qed
qed

section \<open>The interface the block pool relies on\<close>

text \<open>
  An index of blocks under keys: a lookup gives the oldest block inserted under the key
  and not removed since; inserting adds the block behind the others; removing a block by
  its id takes out that block only.
\<close>

locale hash_index =
  fixes lookup :: "'m \<Rightarrow> 'k \<Rightarrow> 'b option res"
    and ins :: "('b \<Rightarrow> int) \<Rightarrow> 'k \<Rightarrow> 'b \<Rightarrow> 'm \<Rightarrow> 'm"
    and del :: "('b \<Rightarrow> int) \<Rightarrow> 'k \<Rightarrow> int \<Rightarrow> 'm \<Rightarrow> 'b option \<times> 'm"
    and stored :: "'m \<Rightarrow> 'k \<Rightarrow> 'b list"
    and ok :: "('b \<Rightarrow> int) \<Rightarrow> 'm \<Rightarrow> bool"
  assumes lookup_oldest: "ok ids m \<Longrightarrow> lookup m k = Inr (case stored m k of [] \<Rightarrow> None | b # _ \<Rightarrow> Some b)"
    and stored_ids: "ok ids m \<Longrightarrow> distinct (map ids (stored m k))"
    and ins_ok: "ok ids m \<Longrightarrow> ok ids (ins ids k b m)"
    and ins_stored: "ok ids m \<Longrightarrow> \<forall>b' \<in> set (stored m k). ids b' \<noteq> ids b \<Longrightarrow>
           stored (ins ids k b m) k' = (if k' = k then stored m k @ [b] else stored m k')"
    and del_ok: "ok ids m \<Longrightarrow> ok ids (snd (del ids k i m))"
    and del_found: "ok ids m \<Longrightarrow> fst (del ids k i m) = find (\<lambda>b. ids b = i) (stored m k)"
    and del_stored: "ok ids m \<Longrightarrow> stored (snd (del ids k i m)) k' =
           (if k' = k then filter (\<lambda>b. ids b \<noteq> i) (stored m k) else stored m k')"
begin

lemma lookup_stored: "ok ids m \<Longrightarrow> lookup m k = Inr (Some b) \<Longrightarrow> b \<in> set (stored m k)"
  using lookup_oldest [of ids m k] by (auto split: list.splits)

lemma lookup_none: "ok ids m \<Longrightarrow> lookup m k = Inr None \<longleftrightarrow> stored m k = []"
  using lookup_oldest [of ids m k] by (auto split: list.splits)

lemma del_member:
  assumes "ok ids m" "b \<in> set (stored m k)"
  shows "fst (del ids k (ids b) m) = Some b \<and> set (stored (snd (del ids k (ids b) m)) k) = set (stored m k) - {b}"
proof -
  have inj: "b' = b" if "b' \<in> set (stored m k)" "ids b' = ids b" for b'
    using stored_ids [OF assms(1), of k] that assms(2) by (auto simp: distinct_map dest: inj_onD)
  obtain c where c: "find (\<lambda>b'. ids b' = ids b) (stored m k) = Some c"
    using assms(2) by (cases "find (\<lambda>b'. ids b' = ids b) (stored m k)") (auto simp: find_None_iff)
  then have "c \<in> set (stored m k)" "ids c = ids b" by (auto simp: find_Some_iff)
  with c inj have "find (\<lambda>b'. ids b' = ids b) (stored m k) = Some b" by simp
  then show ?thesis using del_found [OF assms(1)] del_stored [OF assms(1)] inj by auto
qed

text \<open>Inserting a block that is not under the key and removing it again changes nothing.\<close>

lemma ins_del:
  assumes "ok ids m" "\<forall>b' \<in> set (stored m k). ids b' \<noteq> ids b"
  shows "stored (snd (del ids k (ids b) (ins ids k b m))) k' = stored m k'"
  using del_stored [OF ins_ok [OF assms(1)]] ins_stored [OF assms] assms(2) by simp

end

interpretation bm: hash_index get_one_block insert_block pop_block bm_blocks bm_ok
proof
  fix ids m k
  assume "bm_ok ids m"
  then show "distinct (map ids (bm_blocks m k))"
    by (auto simp: bm_blocks_def bm_ok_def intro: entry_distinct split: option.splits)
qed (fact get_one_block_spec insert_block_ok insert_block_spec pop_block_spec)+

end
