(* ===== verification/Request.thy ===== *)
theory Request
  imports Prelude "HOL-Library.Char_ord" "HOL-Library.List_Lexorder" "HOL-Library.Product_Lexorder"
begin

text \<open>
  \<^verbatim>\<open>vllm/v1/request.py\<close>: the request object every scheduler component works on, its
  status, its token lists and the order used by priority scheduling.

  The object's fields keep their names. Its identity (what \<^verbatim>\<open>id(self)\<close> returns) is the
  field \<open>object_id\<close>. The block hasher that the engine attaches to a request is an
  argument of the operations that call it. Prompt embeddings are kept as the raw bytes of
  each row, which is all the code reads of them. Of the structured-output request only its
  presence is kept (\<open>use_structured_output\<close>); trace headers, the event log and the streaming
  queue, which no modelled component reads, are left out, and the client index is the default.
\<close>

section \<open>Parameters and multi-modal inputs\<close>

record repetition_detection_params =
  max_pattern_size :: int
  min_pattern_size :: int
  min_count :: int

record sampling_params_rec =
  sp_max_tokens :: "int option"
  min_tokens :: int
  eos_token_id :: "int option"
  stop_token_ids :: "int list option"
  repetition_detection :: "repetition_detection_params option"
  sp_skip_reading_prefix_cache :: "bool option"
  structured_outputs :: bool
  sp_kv_transfer_params :: "(string, string) pydict option"

record pooling_params_rec =
  pp_skip_reading_prefix_cache :: "bool option"

record placeholder_range =
  offset :: int
  plength :: int
  is_embed :: "bool list option"

text \<open>
  \<^verbatim>\<open>PlaceholderRange.get_num_embeds\<close>: the whole range, or the last entry of the running
  sum of the mask (reading the last entry of an empty mask raises).
\<close>

definition get_num_embeds :: "placeholder_range \<Rightarrow> int res" where
  "get_num_embeds p =
     (case is_embed p of
        None \<Rightarrow> Inr (plength p)
      | Some bits \<Rightarrow> if bits = [] then Inl IndexError else Inr (int (length (filter id bits))))"

record mm_feature =
  mm_identifier :: string
  mm_position :: placeholder_range

record lora_request_rec =
  lora_name :: string
  lora_int_id :: int

section \<open>Status\<close>

datatype request_status =
    WAITING
  | WAITING_FOR_STRUCTURED_OUTPUT_GRAMMAR
  | WAITING_FOR_REMOTE_KVS
  | WAITING_FOR_STREAMING_REQ
  | RUNNING
  | PREEMPTED
  | FINISHED_STOPPED
  | FINISHED_LENGTH_CAPPED
  | FINISHED_ABORTED
  | FINISHED_IGNORED
  | FINISHED_ERROR
  | FINISHED_REPETITION

text \<open>The values of the \<^verbatim>\<open>IntEnum\<close>, by which the code compares statuses.\<close>

fun status_value :: "request_status \<Rightarrow> nat" where
  "status_value WAITING = 1"
| "status_value WAITING_FOR_STRUCTURED_OUTPUT_GRAMMAR = 2"
| "status_value WAITING_FOR_REMOTE_KVS = 3"
| "status_value WAITING_FOR_STREAMING_REQ = 4"
| "status_value RUNNING = 5"
| "status_value PREEMPTED = 6"
| "status_value FINISHED_STOPPED = 7"
| "status_value FINISHED_LENGTH_CAPPED = 8"
| "status_value FINISHED_ABORTED = 9"
| "status_value FINISHED_IGNORED = 10"
| "status_value FINISHED_ERROR = 11"
| "status_value FINISHED_REPETITION = 12"

definition is_finished_status :: "request_status \<Rightarrow> bool" where
  "is_finished_status s \<longleftrightarrow> status_value PREEMPTED < status_value s"

datatype finish_reason = FR_STOP | FR_LENGTH | FR_ABORT | FR_ERROR | FR_REPETITION

fun finished_reason_of :: "request_status \<Rightarrow> finish_reason option" where
  "finished_reason_of FINISHED_STOPPED = Some FR_STOP"
| "finished_reason_of FINISHED_LENGTH_CAPPED = Some FR_LENGTH"
| "finished_reason_of FINISHED_ABORTED = Some FR_ABORT"
| "finished_reason_of FINISHED_IGNORED = Some FR_LENGTH"
| "finished_reason_of FINISHED_ERROR = Some FR_ERROR"
| "finished_reason_of WAITING_FOR_STREAMING_REQ = Some FR_STOP"
| "finished_reason_of FINISHED_REPETITION = Some FR_REPETITION"
| "finished_reason_of _ = None"

datatype stop_reason = StopToken int | StopString string

section \<open>The request\<close>

record request =
  request_id :: string
  object_id :: nat
  priority :: int
  arrival_time :: real
  sampling_params :: "sampling_params_rec option"
  pooling_params :: "pooling_params_rec option"
  lora_request :: "lora_request_rec option"
  use_structured_output :: bool
  status :: request_status
  stop_reason :: "stop_reason option"
  kv_transfer_params :: "(string, string) pydict option"
  max_tokens :: int
  prompt_embeds :: "bytes list option"
  prompt_embeds_per_block_hashes :: "(int \<times> int, bytes) pydict"
  num_prompt_tokens :: nat
  output_token_ids :: "int list"
  all_token_ids :: "int list"
  num_output_placeholders :: int
  spec_token_ids :: "int list"
  num_computed_tokens :: int
  cache_salt :: "string option"
  mm_features :: "mm_feature list"
  num_cached_tokens :: int
  num_preemptions :: int
  num_external_computed_tokens :: int
  block_hashes :: "bytes list"
  skip_reading_prefix_cache :: bool
  resumable :: bool
  client_index :: int
  prompt_token_ids :: "int list option"
  discard_latest_async_tokens :: bool
  is_prefill_chunk :: bool
  num_nans_in_logits :: int

text \<open>\<^verbatim>\<open>vllm.utils.length_from_prompt_token_ids_or_embeds\<close>\<close>

definition length_from_prompt_token_ids_or_embeds :: "int list option \<Rightarrow> bytes list option \<Rightarrow> nat res" where
  "length_from_prompt_token_ids_or_embeds ids embeds =
     (case ids of
        None \<Rightarrow> (case embeds of None \<Rightarrow> Inl ValueError | Some e \<Rightarrow> Inr (length e))
      | Some t \<Rightarrow>
          (case embeds of
             None \<Rightarrow> Inr (length t)
           | Some e \<Rightarrow> if length e \<noteq> length t then Inl ValueError else Inr (length t)))"

definition num_tokens :: "request \<Rightarrow> nat" where
  "num_tokens r = length (all_token_ids r)"

definition num_tokens_with_spec :: "request \<Rightarrow> nat" where
  "num_tokens_with_spec r = length (all_token_ids r) + length (spec_token_ids r)"

definition num_output_tokens :: "request \<Rightarrow> nat" where
  "num_output_tokens r = length (output_token_ids r)"

definition num_encoder_inputs :: "request \<Rightarrow> nat" where
  "num_encoder_inputs r = length (mm_features r)"

definition has_encoder_inputs :: "request \<Rightarrow> bool" where
  "has_encoder_inputs r \<longleftrightarrow> 0 < num_encoder_inputs r"

definition get_skip_reading_prefix_cache :: "sampling_params_rec option \<Rightarrow> pooling_params_rec option \<Rightarrow> bool" where
  "get_skip_reading_prefix_cache sp pp =
     (case Option.bind sp sp_skip_reading_prefix_cache of
        Some b \<Rightarrow> b
      | None \<Rightarrow> (case Option.bind pp pp_skip_reading_prefix_cache of Some b \<Rightarrow> b | None \<Rightarrow> False))"

definition is_finished :: "request \<Rightarrow> bool" where
  "is_finished r = is_finished_status (status r)"

definition get_finished_reason :: "request \<Rightarrow> finish_reason option" where
  "get_finished_reason r = finished_reason_of (status r)"

definition get_num_encoder_embeds :: "request \<Rightarrow> nat \<Rightarrow> int res" where
  "get_num_encoder_embeds r i =
     (if i < length (mm_features r) then get_num_embeds (mm_position (mm_features r ! i))
      else Inl AssertionError)"

text \<open>
  The hasher returns the hashes of the blocks completed since the last call, and the
  request with its memo of embedding hashes updated.
\<close>

type_synonym block_hasher = "request \<Rightarrow> (bytes list \<times> request) res"

definition update_block_hashes :: "block_hasher option \<Rightarrow> request \<Rightarrow> request res" where
  "update_block_hashes hasher r =
     (case hasher of
        None \<Rightarrow> Inr r
      | Some f \<Rightarrow> rbind (f r) (\<lambda>(hs, r'). Inr (r'\<lparr>block_hashes := block_hashes r' @ hs\<rparr>)))"

definition append_output_token_ids :: "block_hasher option \<Rightarrow> int list \<Rightarrow> request \<Rightarrow> request res" where
  "append_output_token_ids hasher token_ids r =
     update_block_hashes hasher
       (r\<lparr>output_token_ids := output_token_ids r @ token_ids,
          all_token_ids := all_token_ids r @ token_ids\<rparr>)"

text \<open>The constructor, in two parts: what it derives from the parameters, and the fields it sets.\<close>

definition request_mode ::
  "sampling_params_rec option \<Rightarrow> pooling_params_rec option \<Rightarrow>
   (int \<times> request_status \<times> (string, string) pydict option) res" where
  "request_mode sp pp =
     (case pp of
        Some _ \<Rightarrow> Inr (1, WAITING, None)
      | None \<Rightarrow>
          (case sp of
             None \<Rightarrow> Inl ValueError
           | Some s \<Rightarrow>
               (case sp_max_tokens s of
                  None \<Rightarrow> Inl AssertionError
                | Some m \<Rightarrow>
                    Inr (m, if structured_outputs s then WAITING_FOR_STRUCTURED_OUTPUT_GRAMMAR else WAITING,
                         sp_kv_transfer_params s))))"

definition Request ::
  "string \<Rightarrow> nat \<Rightarrow> int list option \<Rightarrow> sampling_params_rec option \<Rightarrow> pooling_params_rec option \<Rightarrow>
   real \<Rightarrow> bytes list option \<Rightarrow> mm_feature list option \<Rightarrow> lora_request_rec option \<Rightarrow>
   string option \<Rightarrow> int \<Rightarrow> block_hasher option \<Rightarrow> bool \<Rightarrow> request res" where
  "Request rid oid ids sp pp arrival embeds mm lora salt prio hasher resum =
     (case request_mode sp pp of
        Inl err \<Rightarrow> Inl err
      | Inr (mt, st, kvp) \<Rightarrow>
          (case length_from_prompt_token_ids_or_embeds ids embeds of
             Inl err \<Rightarrow> Inl err
           | Inr n \<Rightarrow>
               update_block_hashes hasher
                 \<lparr>request_id = rid, object_id = oid, priority = prio, arrival_time = arrival,
                  sampling_params = sp, pooling_params = pp, lora_request = lora,
                  use_structured_output = (case sp of None \<Rightarrow> False | Some s \<Rightarrow> structured_outputs s),
                  status = st, stop_reason = None, kv_transfer_params = kvp, max_tokens = mt,
                  prompt_embeds = embeds, prompt_embeds_per_block_hashes = [],
                  num_prompt_tokens = n, output_token_ids = [],
                  all_token_ids = (case ids of Some t \<Rightarrow> t | None \<Rightarrow> replicate n 0),
                  num_output_placeholders = 0, spec_token_ids = [], num_computed_tokens = 0,
                  cache_salt = salt, mm_features = (case mm of None \<Rightarrow> [] | Some fs \<Rightarrow> fs),
                  num_cached_tokens = -1, num_preemptions = 0, num_external_computed_tokens = 0,
                  block_hashes = [], skip_reading_prefix_cache = get_skip_reading_prefix_cache sp pp,
                  resumable = resum, client_index = 0, prompt_token_ids = ids,
                  discard_latest_async_tokens = False, is_prefill_chunk = False, num_nans_in_logits = 0\<rparr>))"

lemma Request_init:
  assumes "Request rid oid ids sp pp arrival embeds mm lora salt prio hasher resum = Inr r"
  shows "\<exists>r0. update_block_hashes hasher r0 = Inr r \<and> block_hashes r0 = [] \<and>
    prompt_embeds_per_block_hashes r0 = [] \<and> lora_request r0 = lora \<and> cache_salt r0 = salt \<and>
    mm_features r0 = (case mm of None \<Rightarrow> [] | Some fs \<Rightarrow> fs) \<and> prompt_embeds r0 = embeds \<and>
    (\<forall>t. ids = Some t \<longrightarrow> all_token_ids r0 = t) \<and> num_computed_tokens r0 = 0 \<and> request_id r0 = rid \<and>
    skip_reading_prefix_cache r0 = get_skip_reading_prefix_cache sp pp \<and> num_prompt_tokens r0 = num_tokens r0"
proof (cases "request_mode sp pp")
  case (Inr v)
  obtain mt st kvp where v: "v = (mt, st, kvp)" by (cases v)
  obtain n where n: "length_from_prompt_token_ids_or_embeds ids embeds = Inr n"
    using assms Inr v by (cases "length_from_prompt_token_ids_or_embeds ids embeds") (auto simp: Request_def)
  then have len: "length (case ids of Some t \<Rightarrow> t | None \<Rightarrow> replicate n 0) = n"
    by (auto simp: length_from_prompt_token_ids_or_embeds_def split: option.splits if_splits)
  show ?thesis
    using assms unfolding Request_def Inr v n sum.case prod.case
    by (intro exI conjI, assumption) (simp_all add: num_tokens_def len)
qed (use assms in \<open>simp add: Request_def\<close>)

section \<open>The scheduling order\<close>

definition request_lt :: "request \<Rightarrow> request \<Rightarrow> bool" where
  "request_lt a b =
     (if priority a \<noteq> priority b then priority a < priority b
      else if arrival_time a \<noteq> arrival_time b then arrival_time a < arrival_time b
      else if request_id a \<noteq> request_id b then request_id a < request_id b
      else object_id a < object_id b)"

definition request_key :: "request \<Rightarrow> int \<times> real \<times> string \<times> nat" where
  "request_key r = (priority r, arrival_time r, request_id r, object_id r)"

lemma request_lt_key: "request_lt a b \<longleftrightarrow> request_key a < request_key b"
  by (auto simp: request_lt_def request_key_def less_prod_def')

text \<open>A request with given multi-modal inputs, for concrete runs.\<close>

definition mm_request :: "string \<Rightarrow> mm_feature list \<Rightarrow> request" where
  "mm_request rid fs =
     \<lparr>request_id = rid, object_id = 0, priority = 0, arrival_time = 0, sampling_params = None,
      pooling_params = None, lora_request = None, use_structured_output = False, status = WAITING,
      stop_reason = None, kv_transfer_params = None, max_tokens = 16, prompt_embeds = None,
      prompt_embeds_per_block_hashes = [], num_prompt_tokens = 12, output_token_ids = [],
      all_token_ids = replicate 12 0, num_output_placeholders = 0, spec_token_ids = [],
      num_computed_tokens = 0, cache_salt = None, mm_features = fs, num_cached_tokens = -1,
      num_preemptions = 0, num_external_computed_tokens = 0, block_hashes = [],
      skip_reading_prefix_cache = False, resumable = False, client_index = 0,
      prompt_token_ids = Some (replicate 12 0), discard_latest_async_tokens = False,
      is_prefill_chunk = False, num_nans_in_logits = 0\<rparr>"

lemma mm_request_simps [simp]:
  "mm_features (mm_request rid fs) = fs" "request_id (mm_request rid fs) = rid"
  by (simp_all add: mm_request_def)

end
