(* ===== verification/Block_Hash.thy ===== *)
theory Block_Hash
  imports Request
begin

text \<open>
  \<^verbatim>\<open>vllm/v1/core/kv_cache_utils.py\<close>: block hashes. A block of a request is identified
  by the hash of its parent block's hash, its tokens and its extra keys (LoRA adapter,
  multi-modal items, cache salt, prompt embeddings). A group id is packed behind the hash
  to make the key of the prefix cache.

  The hash functions (\<^verbatim>\<open>caching_hash_fn\<close>, \<^verbatim>\<open>hashlib.sha256\<close>) and the seed
  \<^verbatim>\<open>NONE_HASH\<close> are parameters.
\<close>

section \<open>Keys\<close>

definition make_block_hash_with_group_id :: "bytes \<Rightarrow> int \<Rightarrow> bytes res" where
  "make_block_hash_with_group_id h g = rbind (to_bytes4_be g) (\<lambda>b. Inr (h @ b))"

text \<open>\<^verbatim>\<open>key[:-4]\<close> and \<^verbatim>\<open>key[-4:]\<close>\<close>

definition get_block_hash :: "bytes \<Rightarrow> bytes" where
  "get_block_hash key = take (length key - 4) key"

definition get_group_id :: "bytes \<Rightarrow> int" where
  "get_group_id key = from_bytes_be (drop (length key - 4) key)"

datatype external_block_hash = ExtBytes bytes | ExtInt int

definition maybe_convert_block_hash :: "bool \<Rightarrow> bytes \<Rightarrow> external_block_hash" where
  "maybe_convert_block_hash use_int h =
     (if \<not> use_int then ExtBytes h else ExtInt (from_bytes_be h mod 2 ^ 64))"

section \<open>Extra keys\<close>

text \<open>
  The elements of the Python tuple, by the type they have there: a LoRA name and a cache
  salt are both plain strings.
\<close>

datatype extra_key = KStr string | KMm string int | KBytes bytes

definition need_extra_keys :: "request \<Rightarrow> bool" where
  "need_extra_keys r \<longleftrightarrow> mm_features r \<noteq> [] \<or> lora_request r \<noteq> None \<or> cache_salt r \<noteq> None"

fun mm_keys_loop :: "int \<Rightarrow> int \<Rightarrow> mm_feature list \<Rightarrow> int \<Rightarrow> extra_key list \<Rightarrow> extra_key list \<times> int" where
  "mm_keys_loop s e [] idx keys = (keys, idx)"
| "mm_keys_loop s e (f # fs) idx keys =
     (let off = offset (mm_position f); len = plength (mm_position f) in
      if e > off then
        if s \<ge> off + len then mm_keys_loop s e fs (idx + 1) keys
        else
          let keys' = keys @ [KMm (mm_identifier f) (off - s)] in
          if e \<ge> off + len then mm_keys_loop s e fs (idx + 1) keys' else (keys', idx)
      else (keys, idx))"

definition gen_mm_extra_hash_keys :: "request \<Rightarrow> int \<Rightarrow> int \<Rightarrow> int \<Rightarrow> (extra_key list \<times> int) res" where
  "gen_mm_extra_hash_keys r s e start_mm_idx =
     (let fs = mm_features r in
      if fs = [] then Inr ([], start_mm_idx)
      else if offset (mm_position (last fs)) + plength (mm_position (last fs)) \<le> s then Inr ([], start_mm_idx)
      else if start_mm_idx < 0 then
        if - start_mm_idx \<le> int (length fs)
        then Inr (mm_keys_loop s e (drop (nat (int (length fs) + start_mm_idx)) fs)
                    (int (length fs) + start_mm_idx) [])
        else Inl AssertionError
      else Inr (mm_keys_loop s e (drop (nat start_mm_idx) fs) start_mm_idx []))"

definition gen_lora_extra_hash_keys :: "request \<Rightarrow> extra_key list" where
  "gen_lora_extra_hash_keys r =
     (case lora_request r of None \<Rightarrow> [] | Some l \<Rightarrow> [KStr (lora_name l)])"

definition gen_prompt_embeds_extra_hash_keys ::
  "(bytes \<Rightarrow> bytes) \<Rightarrow> request \<Rightarrow> int \<Rightarrow> int \<Rightarrow> extra_key list \<times> request" where
  "gen_prompt_embeds_extra_hash_keys sha256 r s e =
     (case prompt_embeds r of
        None \<Rightarrow> ([], r)
      | Some rows \<Rightarrow>
          (case dict_get (prompt_embeds_per_block_hashes r) (s, e) of
             Some h \<Rightarrow> ([KBytes h], r)
           | None \<Rightarrow>
               let h = sha256 (concat (py_slice (nat s) (nat e) rows))
               in ([KBytes h], r\<lparr>prompt_embeds_per_block_hashes :=
                                   dict_set (s, e) h (prompt_embeds_per_block_hashes r)\<rparr>)))"

text \<open>The salt enters the keys of the first block only, and only if it is not empty.\<close>

definition cache_salt_keys :: "request \<Rightarrow> int \<Rightarrow> extra_key list" where
  "cache_salt_keys r s =
     (case cache_salt r of
        Some salt \<Rightarrow> if s = 0 \<and> salt \<noteq> [] then [KStr salt] else []
      | None \<Rightarrow> [])"

definition generate_block_hash_extra_keys ::
  "(bytes \<Rightarrow> bytes) \<Rightarrow> request \<Rightarrow> int \<Rightarrow> int \<Rightarrow> int \<Rightarrow> (extra_key list option \<times> int \<times> request) res" where
  "generate_block_hash_extra_keys sha256 r s e start_mm_idx =
     rbind (gen_mm_extra_hash_keys r s e start_mm_idx)
       (\<lambda>(mm_keys, idx).
          let lora_keys = gen_lora_extra_hash_keys r;
              salt_keys = cache_salt_keys r s;
              (embeds_keys, r') = gen_prompt_embeds_extra_hash_keys sha256 r s e;
              keys = lora_keys @ mm_keys @ salt_keys @ embeds_keys
          in Inr (if keys = [] then None else Some keys, idx, r'))"

section \<open>Hashing the blocks of a request\<close>

type_synonym hash_input = "bytes \<times> int list \<times> extra_key list option"

definition hash_block_tokens ::
  "(hash_input \<Rightarrow> bytes) \<Rightarrow> bytes \<Rightarrow> bytes option \<Rightarrow> int list \<Rightarrow> extra_key list option \<Rightarrow> bytes" where
  "hash_block_tokens hash_fn none_hash parent tokens keys =
     (let p = (case parent of None \<Rightarrow> none_hash | Some h \<Rightarrow> if h = [] then none_hash else h)
      in hash_fn (p, tokens, keys))"

text \<open>
  The \<^verbatim>\<open>while True\<close> loop of the hasher, with the number of tokens \<open>n\<close> read before
  it. It ends because every round advances \<open>start\<close> by the block size; a block size of 0,
  with which the Python loop would never end, is excluded by the configuration, and the
  model stops there at once.
\<close>

function hasher_loop ::
  "(bytes \<Rightarrow> bytes) \<Rightarrow> (hash_input \<Rightarrow> bytes) \<Rightarrow> bytes \<Rightarrow> nat \<Rightarrow> nat \<Rightarrow> nat \<Rightarrow> int \<Rightarrow> bytes option
    \<Rightarrow> bytes list \<Rightarrow> request \<Rightarrow> (bytes list \<times> request) res" where
  "hasher_loop sha256 hash_fn none_hash bs n start mm_idx prev new r =
     (if n < start + bs \<or> bs = 0 then Inr (new, r)
      else
        (case generate_block_hash_extra_keys sha256 r (int start) (int (start + bs)) mm_idx of
           Inl err \<Rightarrow> Inl err
         | Inr (keys, mm_idx', r') \<Rightarrow>
             let h = hash_block_tokens hash_fn none_hash prev
                       (py_slice start (start + bs) (all_token_ids r')) keys
             in hasher_loop sha256 hash_fn none_hash bs n (start + bs) mm_idx' (Some h) (new @ [h]) r'))"
  by pat_completeness auto
termination
  by (relation "measure (\<lambda>(_, _, _, bs, n, start, _). n - start)") auto

declare hasher_loop.simps [simp del]

definition request_block_hasher ::
  "(bytes \<Rightarrow> bytes) \<Rightarrow> (hash_input \<Rightarrow> bytes) \<Rightarrow> bytes \<Rightarrow> nat \<Rightarrow> block_hasher" where
  "request_block_hasher sha256 hash_fn none_hash bs r =
     (let start = length (block_hashes r) * bs in
      if num_tokens r < start + bs then Inr ([], r)
      else
        hasher_loop sha256 hash_fn none_hash bs (num_tokens r) start (if 0 < start then -1 else 0)
          (if block_hashes r = [] then None else Some (last (block_hashes r))) [] r)"

section \<open>Hash lists at a coarser granularity\<close>

text \<open>
  \<^verbatim>\<open>BlockHashList\<close>: the request's own list, or a view of it that joins
  \<open>scale\<close> consecutive hashes (\<^verbatim>\<open>BlockHashListWithBlockSize\<close>).
\<close>

datatype block_hash_list = PlainHashes "bytes list" | ScaledHashes "bytes list" nat

definition BlockHashListWithBlockSize :: "bytes list \<Rightarrow> nat \<Rightarrow> nat \<Rightarrow> block_hash_list res" where
  "BlockHashListWithBlockSize hs hash_block_size target_block_size =
     (if target_block_size mod hash_block_size = 0
      then Inr (ScaledHashes hs (target_block_size div hash_block_size)) else Inl AssertionError)"

fun bhl_length :: "block_hash_list \<Rightarrow> nat" where
  "bhl_length (PlainHashes hs) = length hs"
| "bhl_length (ScaledHashes hs k) = length hs div k"

text \<open>
  \<^verbatim>\<open>_get_value_at\<close> reads \<open>hs[base]\<close> and appends the hashes up to
  \<open>base + scale\<close>; reading past the end raises.
\<close>

definition merged_hash :: "bytes list \<Rightarrow> nat \<Rightarrow> nat \<Rightarrow> bytes" where
  "merged_hash hs k idx = foldl (@) (hs ! (idx * k)) (map ((!) hs) [idx * k + 1..<idx * k + k])"

definition get_value_at :: "bytes list \<Rightarrow> nat \<Rightarrow> nat \<Rightarrow> bytes res" where
  "get_value_at hs k idx =
     (if idx * k < length hs \<and> idx * k + k \<le> length hs then Inr (merged_hash hs k idx) else Inl IndexError)"

fun bhl_get :: "block_hash_list \<Rightarrow> nat \<Rightarrow> bytes res" where
  "bhl_get (PlainHashes hs) i = (if i < length hs then Inr (hs ! i) else Inl IndexError)"
| "bhl_get (ScaledHashes hs k) i = get_value_at hs k i"

text \<open>
  Iteration and slicing call \<^verbatim>\<open>_get_value_at\<close> at every index below the length, where it does not raise;
  \<^verbatim>\<open>hashes[start:]\<close> for a non-negative \<open>start\<close> drops the first of these values.
\<close>

fun bhl_values :: "block_hash_list \<Rightarrow> bytes list" where
  "bhl_values (PlainHashes hs) = hs"
| "bhl_values (ScaledHashes hs k) = map (merged_hash hs k) [0..<length hs div k]"


section \<open>What the hashes stand for\<close>

text \<open>
  The reference: the content of block \<open>i\<close> is its tokens and the keys of everything that
  overlaps it, and the hashes are the chain of the contents' hashes.
\<close>

definition mm_end :: "mm_feature \<Rightarrow> int" where
  "mm_end f = offset (mm_position f) + plength (mm_position f)"

definition overlaps :: "int \<Rightarrow> int \<Rightarrow> mm_feature \<Rightarrow> bool" where
  "overlaps s e f \<longleftrightarrow> offset (mm_position f) < e \<and> s < mm_end f"

definition mm_key :: "int \<Rightarrow> mm_feature \<Rightarrow> extra_key" where
  "mm_key s f = KMm (mm_identifier f) (offset (mm_position f) - s)"

definition block_extra_keys :: "(bytes \<Rightarrow> bytes) \<Rightarrow> request \<Rightarrow> nat \<Rightarrow> nat \<Rightarrow> extra_key list option" where
  "block_extra_keys sha256 r s e =
     (let keys = gen_lora_extra_hash_keys r
            @ map (mm_key (int s)) (filter (overlaps (int s) (int e)) (mm_features r))
            @ cache_salt_keys r (int s)
            @ (case prompt_embeds r of Some rows \<Rightarrow> [KBytes (sha256 (concat (py_slice s e rows)))] | None \<Rightarrow> [])
      in if keys = [] then None else Some keys)"

definition block_content :: "(bytes \<Rightarrow> bytes) \<Rightarrow> nat \<Rightarrow> request \<Rightarrow> nat \<Rightarrow> int list \<times> extra_key list option" where
  "block_content sha256 bs r i =
     (py_slice (i * bs) (i * bs + bs) (all_token_ids r), block_extra_keys sha256 r (i * bs) (i * bs + bs))"

fun hash_chain ::
  "(hash_input \<Rightarrow> bytes) \<Rightarrow> bytes \<Rightarrow> bytes option \<Rightarrow> (int list \<times> extra_key list option) list \<Rightarrow> bytes list" where
  "hash_chain hash_fn none_hash prev [] = []"
| "hash_chain hash_fn none_hash prev ((t, k) # cs) =
     (let h = hash_block_tokens hash_fn none_hash prev t k
      in h # hash_chain hash_fn none_hash (Some h) cs)"

text \<open>Multi-modal items are sorted by offset and do not overlap (the code assumes it).\<close>

definition mm_sorted :: "mm_feature list \<Rightarrow> bool" where
  "mm_sorted fs \<longleftrightarrow> sorted_wrt (\<lambda>f g. mm_end f \<le> offset (mm_position g)) fs \<and>
     (\<forall>f\<in>set fs. 0 < plength (mm_position f))"

definition memo_ok :: "(bytes \<Rightarrow> bytes) \<Rightarrow> request \<Rightarrow> bool" where
  "memo_ok sha256 r \<longleftrightarrow>
     (\<forall>s e h rows. dict_get (prompt_embeds_per_block_hashes r) (s, e) = Some h \<longrightarrow>
        prompt_embeds r = Some rows \<longrightarrow> h = sha256 (concat (py_slice (nat s) (nat e) rows)))"

subsection \<open>The multi-modal keys\<close>

lemma mm_keys_loop_spec:
  assumes "mm_sorted fs" "s < e" "mm_keys_loop s e fs idx keys = (keys', idx')"
  shows "keys' = keys @ map (mm_key s) (filter (overlaps s e) fs) \<and>
     (\<exists>k \<le> length fs. idx' = idx + int k \<and> (\<forall>f\<in>set (take k fs). mm_end f \<le> e))"
  using assms
proof (induction fs arbitrary: idx keys)
  case (Cons f fs)
  let ?off = "offset (mm_position f)"
  have sorted: "mm_sorted fs" and after: "\<And>g. g \<in> set fs \<Longrightarrow> mm_end f \<le> offset (mm_position g)"
    and pos: "?off < mm_end f"
    using Cons.prems(1) by (auto simp: mm_sorted_def mm_end_def)
  have none: "filter (overlaps s e) fs = []" if "e \<le> mm_end f"
    using after that by (force simp: filter_empty_conv overlaps_def)
  consider (before) "e \<le> ?off" | (passed) "?off < e" "mm_end f \<le> s"
    | (inside) "?off < e" "s < mm_end f" "mm_end f \<le> e" | (straddles) "?off < e" "s < mm_end f" "e < mm_end f"
    by linarith
  then show ?case
  proof cases
    case before
    then have "filter (overlaps s e) (f # fs) = []" using none pos by (auto simp: overlaps_def)
    with before Cons.prems(3) show ?thesis by (auto intro!: exI [of _ 0])
  next
    case passed
    then have "mm_keys_loop s e fs (idx + 1) keys = (keys', idx')"
      using Cons.prems(3) by (simp add: mm_end_def)
    from Cons.IH [OF sorted Cons.prems(2) this] obtain k where
      "keys' = keys @ map (mm_key s) (filter (overlaps s e) fs)" "k \<le> length fs" "idx' = idx + 1 + int k"
      "\<forall>g\<in>set (take k fs). mm_end g \<le> e" by blast
    moreover have "\<not> overlaps s e f" using passed by (simp add: overlaps_def)
    ultimately show ?thesis using passed Cons.prems(2) by (auto intro!: exI [of _ "Suc k"])
  next
    case inside
    then have "mm_keys_loop s e fs (idx + 1) (keys @ [mm_key s f]) = (keys', idx')"
      using Cons.prems(3) by (simp add: mm_end_def mm_key_def Let_def)
    from Cons.IH [OF sorted Cons.prems(2) this] obtain k where
      "keys' = keys @ [mm_key s f] @ map (mm_key s) (filter (overlaps s e) fs)" "k \<le> length fs"
      "idx' = idx + 1 + int k" "\<forall>g\<in>set (take k fs). mm_end g \<le> e" by auto
    moreover have "overlaps s e f" using inside by (simp add: overlaps_def)
    ultimately show ?thesis using inside by (auto intro!: exI [of _ "Suc k"])
  next
    case straddles
    then have "overlaps s e f" by (simp add: overlaps_def)
    with straddles Cons.prems(3) none show ?thesis
      by (auto simp: mm_end_def mm_key_def Let_def intro!: exI [of _ 0])
  qed
qed simp

lemma mm_sorted_drop: "mm_sorted fs \<Longrightarrow> mm_sorted (drop k fs)"
  by (auto simp: mm_sorted_def sorted_wrt_drop dest: in_set_dropD)

text \<open>
  The index handed from block to block: every item before it ends at or before the block's
  start (\<open>-1\<close> stands for the last item).
\<close>

definition mm_index_ok :: "mm_feature list \<Rightarrow> int \<Rightarrow> int \<Rightarrow> bool" where
  "mm_index_ok fs idx s \<longleftrightarrow>
     (if idx = -1 then \<forall>f\<in>set (butlast fs). mm_end f \<le> s
      else 0 \<le> idx \<and> idx \<le> int (length fs) \<and> (\<forall>f\<in>set (take (nat idx) fs). mm_end f \<le> s))"

lemma filter_overlaps_drop:
  "(\<forall>f\<in>set (take k fs). mm_end f \<le> s) \<Longrightarrow> filter (overlaps s e) (drop k fs) = filter (overlaps s e) fs"
proof -
  assume "\<forall>f\<in>set (take k fs). mm_end f \<le> s"
  then have "filter (overlaps s e) (take k fs) = []" by (auto simp: filter_empty_conv overlaps_def)
  then show ?thesis by (metis append_Nil append_take_drop_id filter_append)
qed

lemma mm_last_end: "mm_sorted fs \<Longrightarrow> f \<in> set fs \<Longrightarrow> mm_end f \<le> mm_end (last fs)"
proof (induction fs)
  case (Cons g fs)
  then show ?case
  proof (cases "fs = []")
    case False
    with Cons.prems(1) have "mm_end g \<le> offset (mm_position (last fs))" "mm_sorted fs"
      "0 < plength (mm_position (last fs))"
      by (auto simp: mm_sorted_def)
    then show ?thesis using Cons False by (auto simp: mm_end_def)
  qed simp
qed simp

lemma gen_mm_extra_hash_keys_spec:
  assumes "mm_sorted (mm_features r)" "mm_index_ok (mm_features r) idx s" "s < e"
  shows "\<exists>idx'. gen_mm_extra_hash_keys r s e idx =
      Inr (map (mm_key s) (filter (overlaps s e) (mm_features r)), idx') \<and> mm_index_ok (mm_features r) idx' e"
proof -
  let ?fs = "mm_features r"
  define k where "k = (if idx = -1 then length ?fs - 1 else nat idx)"
  show ?thesis
  proof (cases "?fs = [] \<or> mm_end (last ?fs) \<le> s")
    case True
    then have "filter (overlaps s e) ?fs = []"
      using mm_last_end [OF assms(1)] by (force simp: filter_empty_conv overlaps_def)
    moreover have "mm_index_ok ?fs idx e" using assms(2,3) by (force simp: mm_index_ok_def)
    ultimately show ?thesis using True by (auto simp: gen_mm_extra_hash_keys_def mm_end_def Let_def)
  next
    case False
    have idx: "idx = -1 \<or> 0 \<le> idx" using assms(2) by (auto simp: mm_index_ok_def split: if_splits)
    have k: "k \<le> length ?fs" "\<forall>f\<in>set (take k ?fs). mm_end f \<le> s"
      using assms(2) False by (auto simp: mm_index_ok_def k_def butlast_conv_take split: if_splits)
    obtain keys' idx' where loop: "mm_keys_loop s e (drop k ?fs) (int k) [] = (keys', idx')" by fastforce
    have gen: "gen_mm_extra_hash_keys r s e idx = Inr (keys', idx')"
      using False idx loop
      by (cases "idx = -1")
         (auto simp: gen_mm_extra_hash_keys_def mm_end_def Let_def k_def Suc_leI of_nat_diff nat_diff_distrib)
    from mm_keys_loop_spec [OF mm_sorted_drop [OF assms(1)] assms(3) loop] obtain j where
      j: "keys' = map (mm_key s) (filter (overlaps s e) (drop k ?fs))" "j \<le> length ?fs - k"
        "idx' = int (k + j)" "\<forall>f\<in>set (take j (drop k ?fs)). mm_end f \<le> e" by auto
    have "mm_index_ok ?fs idx' e"
      using j k assms(3) by (auto simp: mm_index_ok_def take_add nat_add_distrib)
    with gen j(1) filter_overlaps_drop [OF k(2)] show ?thesis by auto
  qed
qed


subsection \<open>The hashes of a request\<close>

lemma block_extra_keys_memo [simp]:
  "block_extra_keys sha256 (r\<lparr>prompt_embeds_per_block_hashes := m\<rparr>) s e = block_extra_keys sha256 r s e"
  by (simp add: block_extra_keys_def gen_lora_extra_hash_keys_def cache_salt_keys_def)

lemma block_content_memo [simp]:
  "block_content sha256 bs (r\<lparr>prompt_embeds_per_block_hashes := m\<rparr>) = block_content sha256 bs r"
  by (simp add: block_content_def fun_eq_iff)

lemma gen_prompt_embeds_spec:
  assumes "memo_ok sha256 r"
  shows "\<exists>m. gen_prompt_embeds_extra_hash_keys sha256 r (int s) (int e) =
      (case prompt_embeds r of Some rows \<Rightarrow> [KBytes (sha256 (concat (py_slice s e rows)))] | None \<Rightarrow> [],
       r\<lparr>prompt_embeds_per_block_hashes := m\<rparr>) \<and>
      memo_ok sha256 (r\<lparr>prompt_embeds_per_block_hashes := m\<rparr>)"
proof (cases "prompt_embeds r")
  case None
  then show ?thesis using assms
    by (auto simp: gen_prompt_embeds_extra_hash_keys_def intro!: exI [of _ "prompt_embeds_per_block_hashes r"])
next
  case (Some rows)
  show ?thesis
  proof (cases "dict_get (prompt_embeds_per_block_hashes r) (int s, int e)")
    case None
    with Some assms show ?thesis
      by (auto simp: gen_prompt_embeds_extra_hash_keys_def Let_def memo_ok_def dict_get_set split: if_splits
          intro!: exI [of _ "dict_set (int s, int e) (sha256 (concat (py_slice s e rows)))
                                      (prompt_embeds_per_block_hashes r)"])
  next
    case (Some h)
    then have "h = sha256 (concat (py_slice s e rows))"
      using assms \<open>prompt_embeds r = Some rows\<close> unfolding memo_ok_def by (metis nat_int)
    with Some \<open>prompt_embeds r = Some rows\<close> assms show ?thesis
      by (auto simp: gen_prompt_embeds_extra_hash_keys_def
          intro!: exI [of _ "prompt_embeds_per_block_hashes r"])
  qed
qed

lemma generate_block_hash_extra_keys_spec:
  assumes "mm_sorted (mm_features r)" "mm_index_ok (mm_features r) idx (int s)" "s < e" "memo_ok sha256 r"
  shows "\<exists>idx' m. generate_block_hash_extra_keys sha256 r (int s) (int e) idx =
      Inr (block_extra_keys sha256 r s e, idx', r\<lparr>prompt_embeds_per_block_hashes := m\<rparr>) \<and>
      mm_index_ok (mm_features r) idx' (int e) \<and> memo_ok sha256 (r\<lparr>prompt_embeds_per_block_hashes := m\<rparr>)"
proof -
  from gen_mm_extra_hash_keys_spec [OF assms(1,2), of "int e"] assms(3) obtain idx' where
    mm: "gen_mm_extra_hash_keys r (int s) (int e) idx =
      Inr (map (mm_key (int s)) (filter (overlaps (int s) (int e)) (mm_features r)), idx')"
      "mm_index_ok (mm_features r) idx' (int e)" by auto
  from gen_prompt_embeds_spec [OF assms(4), of s e] obtain m where
    pe: "gen_prompt_embeds_extra_hash_keys sha256 r (int s) (int e) =
      (case prompt_embeds r of Some rows \<Rightarrow> [KBytes (sha256 (concat (py_slice s e rows)))] | None \<Rightarrow> [],
       r\<lparr>prompt_embeds_per_block_hashes := m\<rparr>)" "memo_ok sha256 (r\<lparr>prompt_embeds_per_block_hashes := m\<rparr>)"
    by auto
  show ?thesis
    by (intro exI [of _ idx'] exI [of _ m])
       (simp add: generate_block_hash_extra_keys_def mm pe block_extra_keys_def Let_def)
qed

lemma hasher_loop_spec:
  assumes "0 < bs" "mm_sorted (mm_features r)" "mm_index_ok (mm_features r) idx (int (k * bs))"
    and "memo_ok sha256 r"
  shows "\<exists>m. hasher_loop sha256 hash_fn none_hash bs n (k * bs) idx prev new r =
      Inr (new @ hash_chain hash_fn none_hash prev (map (block_content sha256 bs r) [k..<n div bs]),
           r\<lparr>prompt_embeds_per_block_hashes := m\<rparr>) \<and>
      memo_ok sha256 (r\<lparr>prompt_embeds_per_block_hashes := m\<rparr>)"
  using assms
proof (induction "n div bs - k" arbitrary: k idx prev new r)
  case 0
  then have "n div bs < Suc k" by simp
  with \<open>0 < bs\<close> have "n < k * bs + bs" by (simp add: div_less_iff_less_mult)
  with 0 show ?case
    by (subst hasher_loop.simps) (auto intro!: exI [of _ "prompt_embeds_per_block_hashes r"])
next
  case (Suc d)
  then have k: "k < n div bs" by simp
  have "k * bs + bs \<le> (n div bs) * bs" using k by (metis Suc_leI add.commute mult_Suc mult_le_mono1)
  then have ge: "\<not> n < k * bs + bs" using div_times_less_eq_dividend [of n bs] by linarith
  from generate_block_hash_extra_keys_spec [OF Suc.prems(2,3) _ Suc.prems(4), of "k * bs + bs"] Suc.prems(1)
  obtain idx' m where gen: "generate_block_hash_extra_keys sha256 r (int (k * bs)) (int (k * bs + bs)) idx =
      Inr (block_extra_keys sha256 r (k * bs) (k * bs + bs), idx', r\<lparr>prompt_embeds_per_block_hashes := m\<rparr>)"
      "mm_index_ok (mm_features r) idx' (int (k * bs + bs))"
      "memo_ok sha256 (r\<lparr>prompt_embeds_per_block_hashes := m\<rparr>)" by auto
  define h where "h = hash_block_tokens hash_fn none_hash prev
    (py_slice (k * bs) (k * bs + bs) (all_token_ids r)) (block_extra_keys sha256 r (k * bs) (k * bs + bs))"
  have step: "hasher_loop sha256 hash_fn none_hash bs n (k * bs) idx prev new r =
      hasher_loop sha256 hash_fn none_hash bs n (Suc k * bs) idx' (Some h) (new @ [h])
        (r\<lparr>prompt_embeds_per_block_hashes := m\<rparr>)"
    using ge Suc.prems(1) gen(1)
    by (subst hasher_loop.simps) (simp add: h_def Let_def add.commute)
  have "d = n div bs - Suc k" using Suc.hyps(2) by simp
  from Suc.hyps(1) [OF this Suc.prems(1), of "r\<lparr>prompt_embeds_per_block_hashes := m\<rparr>" idx' "Some h" "new @ [h]"]
    Suc.prems gen obtain m' where
    "hasher_loop sha256 hash_fn none_hash bs n (Suc k * bs) idx' (Some h) (new @ [h])
        (r\<lparr>prompt_embeds_per_block_hashes := m\<rparr>) =
      Inr ((new @ [h]) @ hash_chain hash_fn none_hash (Some h) (map (block_content sha256 bs r) [Suc k..<n div bs]),
           r\<lparr>prompt_embeds_per_block_hashes := m'\<rparr>)"
    "memo_ok sha256 (r\<lparr>prompt_embeds_per_block_hashes := m'\<rparr>)"
    by (auto simp: add.commute)
  with step k show ?case
    by (auto simp: upt_conv_Cons h_def block_content_def Let_def intro!: exI [of _ m'])
qed


definition hashes_ok :: "(bytes \<Rightarrow> bytes) \<Rightarrow> (hash_input \<Rightarrow> bytes) \<Rightarrow> bytes \<Rightarrow> nat \<Rightarrow> request \<Rightarrow> bool" where
  "hashes_ok sha256 hash_fn none_hash bs r \<longleftrightarrow>
     block_hashes r = hash_chain hash_fn none_hash None (map (block_content sha256 bs r) [0..<num_tokens r div bs])"

lemma length_hash_chain [simp]: "length (hash_chain hash_fn none_hash prev cs) = length cs"
  by (induction hash_fn none_hash prev cs rule: hash_chain.induct) (auto simp: Let_def)

lemma hash_chain_append:
  "hash_chain hash_fn none_hash prev (cs @ ds) = hash_chain hash_fn none_hash prev cs @
     hash_chain hash_fn none_hash (if cs = [] then prev else Some (last (hash_chain hash_fn none_hash prev cs))) ds"
proof (induction hash_fn none_hash prev cs rule: hash_chain.induct)
  case (2 hash_fn none_hash prev t k cs)
  then show ?case by (cases cs) (auto simp: Let_def)
qed simp

lemma request_block_hasher_spec:
  assumes "0 < bs" "mm_sorted (mm_features r)" "memo_ok sha256 r" "k \<le> num_tokens r div bs"
    and hs: "block_hashes r = hash_chain hash_fn none_hash None (map (block_content sha256 bs r) [0..<k])"
    and passed: "k = 0 \<or> (\<forall>f\<in>set (butlast (mm_features r)). mm_end f \<le> int (k * bs))"
  shows "\<exists>new m. request_block_hasher sha256 hash_fn none_hash bs r =
       Inr (new, r\<lparr>prompt_embeds_per_block_hashes := m\<rparr>) \<and>
     memo_ok sha256 (r\<lparr>prompt_embeds_per_block_hashes := m\<rparr>) \<and>
     block_hashes r @ new =
       hash_chain hash_fn none_hash None (map (block_content sha256 bs r) [0..<num_tokens r div bs])"
proof -
  let ?n = "num_tokens r" and ?cs = "map (block_content sha256 bs r)"
  have len: "length (block_hashes r) = k" by (simp add: hs)
  show ?thesis
  proof (cases "?n < k * bs + bs")
    case True
    then have "?n div bs < Suc k" using assms(1) by (simp add: div_less_iff_less_mult mult.commute)
    with assms(4) have "?n div bs = k" by simp
    with True hs len assms(3) show ?thesis
      by (intro exI [of _ "[]"] exI [of _ "prompt_embeds_per_block_hashes r"])
         (simp add: request_block_hasher_def)
  next
    case False
    have idx: "mm_index_ok (mm_features r) (if 0 < k * bs then -1 else 0) (int (k * bs))"
      using passed assms(1) by (auto simp: mm_index_ok_def)
    let ?prev = "if block_hashes r = [] then None else Some (last (block_hashes r))"
    from hasher_loop_spec [OF assms(1,2) idx assms(3), of hash_fn none_hash ?n ?prev "[]"] obtain m where
      m: "request_block_hasher sha256 hash_fn none_hash bs r =
           Inr (hash_chain hash_fn none_hash ?prev (?cs [k..<?n div bs]), r\<lparr>prompt_embeds_per_block_hashes := m\<rparr>)"
         "memo_ok sha256 (r\<lparr>prompt_embeds_per_block_hashes := m\<rparr>)"
      using False len by (auto simp: request_block_hasher_def Let_def)
    have split: "[0..<?n div bs] = [0..<k] @ [k..<?n div bs]"
      using upt_add_eq_append [of 0 k "?n div bs - k"] assms(4) by simp
    have "block_hashes r = [] \<longleftrightarrow> k = 0" using len by auto
    then have "hash_chain hash_fn none_hash None (?cs ([0..<k] @ [k..<?n div bs])) =
        block_hashes r @ hash_chain hash_fn none_hash ?prev (?cs [k..<?n div bs])"
      by (simp add: hash_chain_append flip: hs)
    with m show ?thesis unfolding split [symmetric] by auto
  qed
qed

lemma block_content_append:
  "i < num_tokens r div bs \<Longrightarrow> all_token_ids r' = all_token_ids r @ ts \<Longrightarrow>
   block_extra_keys sha256 r' = block_extra_keys sha256 r \<Longrightarrow>
   block_content sha256 bs r' i = block_content sha256 bs r i"
proof -
  assume i: "i < num_tokens r div bs" and r': "all_token_ids r' = all_token_ids r @ ts"
    "block_extra_keys sha256 r' = block_extra_keys sha256 r"
  have "Suc i * bs \<le> (num_tokens r div bs) * bs" using i by (intro mult_le_mono1) simp
  also have "\<dots> \<le> num_tokens r" by simp
  finally have "i * bs + bs \<le> length (all_token_ids r)" by (simp add: num_tokens_def)
  with r' show ?thesis by (simp add: block_content_def py_slice_append)
qed

subsection \<open>Collision freedom\<close>

definition parent_of :: "bytes \<Rightarrow> bytes option \<Rightarrow> bytes" where
  "parent_of none_hash p = (case p of None \<Rightarrow> none_hash | Some h \<Rightarrow> if h = [] then none_hash else h)"

text \<open>The inputs on which the hash function is called for a chain of contents.\<close>

fun chain_inputs ::
  "(hash_input \<Rightarrow> bytes) \<Rightarrow> bytes \<Rightarrow> bytes option \<Rightarrow> (int list \<times> extra_key list option) list \<Rightarrow> hash_input list" where
  "chain_inputs hash_fn none_hash prev [] = []"
| "chain_inputs hash_fn none_hash prev ((t, k) # cs) =
     (parent_of none_hash prev, t, k) #
       chain_inputs hash_fn none_hash (Some (hash_block_tokens hash_fn none_hash prev t k)) cs"

definition request_hash_inputs :: "(bytes \<Rightarrow> bytes) \<Rightarrow> (hash_input \<Rightarrow> bytes) \<Rightarrow> bytes \<Rightarrow> nat \<Rightarrow> request \<Rightarrow> hash_input set" where
  "request_hash_inputs sha256 hash_fn none_hash bs r =
     set (chain_inputs hash_fn none_hash None (map (block_content sha256 bs r) [0..<num_tokens r div bs]))"

lemma length_chain_inputs [simp]: "length (chain_inputs hash_fn none_hash prev cs) = length cs"
  by (induction hash_fn none_hash prev cs rule: chain_inputs.induct) auto

lemma hash_chain_inputs: "hash_chain hash_fn none_hash prev cs = map hash_fn (chain_inputs hash_fn none_hash prev cs)"
  by (induction hash_fn none_hash prev cs rule: chain_inputs.induct)
     (auto simp: hash_block_tokens_def parent_of_def Let_def)

lemma chain_inputs_nth:
  "i < length cs \<Longrightarrow> chain_inputs hash_fn none_hash prev cs ! i =
     (parent_of none_hash (if i = 0 then prev else Some (hash_chain hash_fn none_hash prev cs ! (i - 1))),
      fst (cs ! i), snd (cs ! i))"
proof (induction hash_fn none_hash prev cs arbitrary: i rule: chain_inputs.induct)
  case (2 hash_fn none_hash prev t k cs)
  show ?case
  proof (cases i)
    case (Suc j)
    then show ?thesis using 2 by (cases j) (auto simp: Let_def)
  qed simp
qed simp

lemma hash_chain_injective:
  assumes inj: "inj_on hash_fn (set (chain_inputs hash_fn none_hash None cs) \<union> set (chain_inputs hash_fn none_hash None ds))"
    and fresh: "\<And>x. x \<in> set (chain_inputs hash_fn none_hash None cs) \<union> set (chain_inputs hash_fn none_hash None ds)
           \<Longrightarrow> hash_fn x \<noteq> none_hash \<and> hash_fn x \<noteq> []"
  shows "i < length cs \<Longrightarrow> j < length ds \<Longrightarrow>
     hash_chain hash_fn none_hash None cs ! i = hash_chain hash_fn none_hash None ds ! j \<Longrightarrow>
     i = j \<and> take (Suc i) cs = take (Suc i) ds"
proof (induction i arbitrary: j)
  case (0 j)
  have "chain_inputs hash_fn none_hash None cs ! 0 = chain_inputs hash_fn none_hash None ds ! j"
    by (rule inj_onD [OF inj]) (use 0 in \<open>simp_all add: hash_chain_inputs\<close>)
  then have eq: "parent_of none_hash (if j = 0 then None else Some (hash_chain hash_fn none_hash None ds ! (j - 1)))
      = none_hash" "cs ! 0 = ds ! j"
    using 0 by (auto simp: chain_inputs_nth parent_of_def prod_eq_iff)
  have "j = 0"
  proof (rule ccontr)
    assume "j \<noteq> 0"
    then show False using eq(1) 0 fresh [of "chain_inputs hash_fn none_hash None ds ! (j - 1)"]
      by (simp add: parent_of_def hash_chain_inputs)
  qed
  with 0 eq(2) show ?case by (simp add: take_Suc_conv_app_nth)
next
  case (Suc i j)
  have eq0: "chain_inputs hash_fn none_hash None cs ! Suc i = chain_inputs hash_fn none_hash None ds ! j"
    by (rule inj_onD [OF inj]) (use Suc.prems in \<open>simp_all add: hash_chain_inputs\<close>)
  let ?c = "hash_chain hash_fn none_hash None cs ! i"
  have c: "?c \<noteq> none_hash" "?c \<noteq> []"
    using Suc.prems(1) fresh [of "chain_inputs hash_fn none_hash None cs ! i"] by (auto simp: hash_chain_inputs)
  show ?case
  proof (cases j)
    case 0
    then show ?thesis using eq0 Suc.prems c by (simp add: chain_inputs_nth parent_of_def)
  next
    case (Suc j')
    have "hash_chain hash_fn none_hash None ds ! j' \<noteq> []"
      using Suc Suc.prems(2) fresh [of "chain_inputs hash_fn none_hash None ds ! j'"] by (auto simp: hash_chain_inputs)
    then have "?c = hash_chain hash_fn none_hash None ds ! j'" "cs ! Suc i = ds ! j"
      using eq0 Suc Suc.prems c by (auto simp: chain_inputs_nth parent_of_def prod_eq_iff)
    moreover from this Suc.IH [of j'] Suc Suc.prems have "i = j'" "take (Suc i) cs = take (Suc i) ds" by auto
    ultimately show ?thesis
      using Suc Suc.prems take_Suc_conv_app_nth [of "Suc i" cs] take_Suc_conv_app_nth [of "Suc i" ds] by simp
  qed
qed


subsection \<open>Packing the group id\<close>

lemma horner_4:
  fixes g :: int
  shows "x2 = x3 * 256 + y2 \<Longrightarrow> x1 = x2 * 256 + y1 \<Longrightarrow> g = x1 * 256 + y0 \<Longrightarrow>
    ((x3 * 256 + y2) * 256 + y1) * 256 + y0 = g"
  by simp

lemma to_bytes4_be_roundtrip:
  assumes "to_bytes4_be g = Inr b"
  shows "length b = 4 \<and> from_bytes_be b = g"
proof -
  have g: "0 \<le> g" "g < 2 ^ 32" and
    b: "b = map (\<lambda>k. word_of_int (g div 2 ^ (8 * k))) [3, 2, 1, 0]"
    using assms by (auto simp: to_bytes4_be_def split: if_splits)
  have top: "g div 16777216 mod 256 = g div 16777216" using g by (intro mod_pos_pos_trivial) auto
  have "from_bytes_be b = ((g div 16777216 mod 256 * 256 + g div 65536 mod 256) * 256 + g div 256 mod 256) * 256 + g mod 256"
    by (simp add: b from_bytes_be_def uint_word_of_int)
  also have "\<dots> = g"
    unfolding top
  proof (rule horner_4)
    show "g div 65536 = g div 16777216 * 256 + g div 65536 mod 256"
      using zdiv_zmult2_eq [of 256 g 65536] div_mult_mod_eq [of "g div 65536" 256] by simp
    show "g div 256 = g div 65536 * 256 + g div 256 mod 256"
      using zdiv_zmult2_eq [of 256 g 256] div_mult_mod_eq [of "g div 256" 256] by simp
  qed simp
  finally show ?thesis by (simp add: b)
qed

subsection \<open>The hasher changes only its memo\<close>

lemma extra_keys_memo:
  "generate_block_hash_extra_keys sha256 r s e i = Inr (ks, j, r') \<Longrightarrow> \<exists>memo. r' = r\<lparr>prompt_embeds_per_block_hashes := memo\<rparr>"
proof -
  have same: "\<exists>memo. r = r\<lparr>prompt_embeds_per_block_hashes := memo\<rparr>" by (rule exI [of _ "prompt_embeds_per_block_hashes r"]) simp
  show "\<exists>memo. r' = r\<lparr>prompt_embeds_per_block_hashes := memo\<rparr>"
    if "generate_block_hash_extra_keys sha256 r s e i = Inr (ks, j, r')"
    using that same by (auto simp: generate_block_hash_extra_keys_def gen_prompt_embeds_extra_hash_keys_def Let_def rbind_eq_Inr split: option.splits)
qed

lemma hasher_loop_memo:
  "hasher_loop sha256 hash_fn none_hash bs n start mm prev new r = Inr (hs, r') \<Longrightarrow> \<exists>memo. r' = r\<lparr>prompt_embeds_per_block_hashes := memo\<rparr>"
proof (induction sha256 hash_fn none_hash bs n start mm prev new r rule: hasher_loop.induct)
  case (1 sha256 hash_fn none_hash bs n start mm prev new r)
  show ?case
  proof (cases "n < start + bs \<or> bs = 0")
    case True
    then have "r' = r" using "1.prems" by (simp add: hasher_loop.simps [of _ _ _ bs])
    then show ?thesis by (intro exI [of _ "prompt_embeds_per_block_hashes r"]) simp
  next
    case False
    then obtain ks j r1 where g: "generate_block_hash_extra_keys sha256 r (int start) (int (start + bs)) mm = Inr (ks, j, r1)"
      using "1.prems" by (auto simp: hasher_loop.simps [of _ _ _ bs] split: sum.splits)
    from extra_keys_memo [OF g] obtain m where m: "r1 = r\<lparr>prompt_embeds_per_block_hashes := m\<rparr>" by blast
    from "1.IH" [OF False g refl refl refl] "1.prems" False g obtain m' where "r' = r1\<lparr>prompt_embeds_per_block_hashes := m'\<rparr>"
      by (auto simp: hasher_loop.simps [of _ _ _ bs n start] Let_def)
    then have "r' = r\<lparr>prompt_embeds_per_block_hashes := m'\<rparr>" using m by simp
    then show ?thesis by (rule exI)
  qed
qed

lemma hashes_extend:
  assumes "update_block_hashes (Some (request_block_hasher sha256 hash_fn none_hash bs)) r = Inr r'"
  shows "\<exists>hs memo. r' = r\<lparr>prompt_embeds_per_block_hashes := memo, block_hashes := block_hashes r @ hs\<rparr>"
proof -
  from assms obtain hs r1 where h: "request_block_hasher sha256 hash_fn none_hash bs r = Inr (hs, r1)"
    "r' = r1\<lparr>block_hashes := block_hashes r1 @ hs\<rparr>" by (auto simp: update_block_hashes_def rbind_eq_Inr)
  have "\<exists>memo. r1 = r\<lparr>prompt_embeds_per_block_hashes := memo\<rparr>"
    using h(1) hasher_loop_memo by (auto simp: request_block_hasher_def Let_def split: if_splits intro: exI [of _ "prompt_embeds_per_block_hashes r"])
  then obtain memo where "r1 = r\<lparr>prompt_embeds_per_block_hashes := memo\<rparr>" by blast
  then have "r' = r\<lparr>prompt_embeds_per_block_hashes := memo, block_hashes := block_hashes r @ hs\<rparr>" using h(2) by simp
  then show ?thesis by blast
qed

lemma append_fields:
  assumes "append_output_token_ids (Some (request_block_hasher sha256 hash_fn none_hash bs)) ts r = Inr r'"
  shows "mm_features r' = mm_features r" "num_prompt_tokens r' = num_prompt_tokens r" "all_token_ids r' = all_token_ids r @ ts"
  using hashes_extend [OF assms [unfolded append_output_token_ids_def]] by auto

subsection \<open>Growing a request\<close>

text \<open>
  The multi-modal items lie within the tokens, and those before the last one within the
  blocks hashed already, if there are any.
\<close>

definition mm_passed :: "nat \<Rightarrow> request \<Rightarrow> bool" where
  "mm_passed bs r \<longleftrightarrow>
     (\<forall>f\<in>set (mm_features r). mm_end f \<le> int (num_tokens r)) \<and>
     (num_tokens r div bs = 0 \<or>
      (\<forall>f\<in>set (butlast (mm_features r)). mm_end f \<le> int (num_tokens r div bs * bs)))"

lemma mm_passed_grow:
  assumes "0 < bs" "mm_passed bs r" "mm_features r' = mm_features r" "num_tokens r \<le> num_tokens r'"
  shows "mm_passed bs r'"
proof -
  have mono: "num_tokens r div bs * bs \<le> num_tokens r' div bs * bs"
    using assms(4) by (intro mult_le_mono1 div_le_mono)
  have full: "num_tokens r \<le> num_tokens r' div bs * bs" if "num_tokens r div bs = 0" "num_tokens r' div bs \<noteq> 0"
  proof -
    have "num_tokens r < bs" using that(1) assms(1) by (simp add: div_eq_0_iff)
    also have "bs \<le> num_tokens r' div bs * bs" using that(2) by (cases "num_tokens r' div bs") auto
    finally show ?thesis by simp
  qed
  show ?thesis
  proof (cases "num_tokens r div bs = 0")
    case True
    with assms(2,3,4) full show ?thesis
      unfolding mm_passed_def by (smt (verit, best) in_set_butlastD of_nat_le_iff)
  next
    case False
    with assms(2,3,4) mono show ?thesis
      unfolding mm_passed_def by (smt (verit, best) of_nat_le_iff)
  qed
qed

lemma update_block_hashes_spec:
  assumes "0 < bs" "mm_sorted (mm_features r)" "memo_ok sha256 r" "k \<le> num_tokens r div bs"
    and "block_hashes r = hash_chain hash_fn none_hash None (map (block_content sha256 bs r) [0..<k])"
    and "k = 0 \<or> (\<forall>f\<in>set (butlast (mm_features r)). mm_end f \<le> int (k * bs))"
  shows "\<exists>hs m. update_block_hashes (Some (request_block_hasher sha256 hash_fn none_hash bs)) r =
       Inr (r\<lparr>prompt_embeds_per_block_hashes := m, block_hashes := hs\<rparr>) \<and>
     memo_ok sha256 (r\<lparr>prompt_embeds_per_block_hashes := m\<rparr>) \<and>
     hs = hash_chain hash_fn none_hash None (map (block_content sha256 bs r) [0..<num_tokens r div bs])"
  using request_block_hasher_spec [OF assms] by (force simp: update_block_hashes_def)

lemma block_content_hashes [simp]:
  "block_content sha256 bs (r\<lparr>block_hashes := hs\<rparr>) = block_content sha256 bs r"
  by (simp add: block_content_def block_extra_keys_def gen_lora_extra_hash_keys_def cache_salt_keys_def fun_eq_iff)

lemma append_output_token_ids_spec:
  assumes "0 < bs" "mm_sorted (mm_features r)" "memo_ok sha256 r"
    and ok: "hashes_ok sha256 hash_fn none_hash bs r" and "mm_passed bs r"
  shows "\<exists>r'. append_output_token_ids (Some (request_block_hasher sha256 hash_fn none_hash bs)) ts r = Inr r' \<and>
     hashes_ok sha256 hash_fn none_hash bs r' \<and> memo_ok sha256 r' \<and> mm_passed bs r' \<and>
     all_token_ids r' = all_token_ids r @ ts \<and> mm_features r' = mm_features r"
proof -
  let ?r = "r\<lparr>output_token_ids := output_token_ids r @ ts, all_token_ids := all_token_ids r @ ts\<rparr>"
  let ?k = "num_tokens r div bs"
  have extra: "block_extra_keys sha256 ?r = block_extra_keys sha256 r"
    by (simp add: block_extra_keys_def gen_lora_extra_hash_keys_def cache_salt_keys_def fun_eq_iff)
  have content: "map (block_content sha256 bs ?r) [0..<?k] = map (block_content sha256 bs r) [0..<?k]"
    by (rule map_cong) (auto intro!: block_content_append [OF _ _ extra])
  have "block_hashes ?r = hash_chain hash_fn none_hash None (map (block_content sha256 bs ?r) [0..<?k])"
    unfolding content using ok by (simp add: hashes_ok_def)
  moreover have mono: "?k \<le> num_tokens ?r div bs" by (simp add: num_tokens_def div_le_mono)
  moreover have "memo_ok sha256 ?r" using assms(3) by (simp add: memo_ok_def)
  ultimately obtain hs m where
    u: "update_block_hashes (Some (request_block_hasher sha256 hash_fn none_hash bs)) ?r =
       Inr (?r\<lparr>prompt_embeds_per_block_hashes := m, block_hashes := hs\<rparr>)"
     "memo_ok sha256 (?r\<lparr>prompt_embeds_per_block_hashes := m\<rparr>)"
     "hs = hash_chain hash_fn none_hash None (map (block_content sha256 bs ?r) [0..<num_tokens ?r div bs])"
    using update_block_hashes_spec [of bs ?r sha256 ?k hash_fn none_hash] assms(1,2,5) by (auto simp: mm_passed_def)
  let ?r' = "?r\<lparr>prompt_embeds_per_block_hashes := m, block_hashes := hs\<rparr>"
  have nt: "num_tokens ?r' = num_tokens ?r" by (simp add: num_tokens_def)
  have "mm_passed bs ?r'"
    using assms(1,5) by (rule mm_passed_grow) (simp_all add: num_tokens_def)
  moreover have "hashes_ok sha256 hash_fn none_hash bs ?r'" unfolding hashes_ok_def nt using u(3) by simp
  moreover have "memo_ok sha256 ?r'" using u(2) by (simp add: memo_ok_def)
  ultimately show ?thesis unfolding append_output_token_ids_def u(1) by simp
qed


lemma append_batches:
  assumes "0 < bs" "mm_sorted (mm_features r0)" "memo_ok sha256 r0" "hashes_ok sha256 hash_fn none_hash bs r0" "mm_passed bs r0"
  shows "\<exists>r. fold_res (append_output_token_ids (Some (request_block_hasher sha256 hash_fn none_hash bs))) tss r0 = Inr r \<and>
    all_token_ids r = all_token_ids r0 @ concat tss \<and> hashes_ok sha256 hash_fn none_hash bs r"
proof -
  let ?H = "Some (request_block_hasher sha256 hash_fn none_hash bs)"
  let ?I = "\<lambda>tss' r. mm_sorted (mm_features r) \<and> memo_ok sha256 r \<and> hashes_ok sha256 hash_fn none_hash bs r \<and>
    mm_passed bs r \<and> all_token_ids r @ concat tss' = all_token_ids r0 @ concat tss"
  have "\<exists>r. fold_res (append_output_token_ids ?H) tss r0 = Inr r \<and> ?I [] r"
  proof (rule fold_res_rule [where I = ?I])
    show "?I tss r0" using assms by simp
  next
    fix ts tss' r
    assume "?I (ts # tss') r"
    with append_output_token_ids_spec [OF assms(1), of r sha256 hash_fn none_hash ts]
    show "\<exists>r'. append_output_token_ids ?H ts r = Inr r' \<and> ?I tss' r'" by auto
  qed
  then show ?thesis by auto
qed

lemma Request_fields:
  assumes "0 < bs"
    and "Request rid oid ids sp pp arrival embeds mm lora salt prio
           (Some (request_block_hasher sha256 hash_fn none_hash bs)) resum = Inr r"
    and sorted: "mm_sorted (case mm of None \<Rightarrow> [] | Some fs \<Rightarrow> fs)"
  shows "hashes_ok sha256 hash_fn none_hash bs r" "memo_ok sha256 r"
    "mm_features r = (case mm of None \<Rightarrow> [] | Some fs \<Rightarrow> fs)" "lora_request r = lora" "cache_salt r = salt"
    "prompt_embeds r = embeds" "ids = Some t \<Longrightarrow> all_token_ids r = t" "num_computed_tokens r = 0" "request_id r = rid"
    "skip_reading_prefix_cache r = get_skip_reading_prefix_cache sp pp" "num_prompt_tokens r = num_tokens r"
proof -
  from Request_init [OF assms(2)] obtain r0 where r0: "update_block_hashes (Some (request_block_hasher sha256 hash_fn none_hash bs)) r0 = Inr r"
    "block_hashes r0 = []" "prompt_embeds_per_block_hashes r0 = []" "lora_request r0 = lora" "cache_salt r0 = salt"
    "mm_features r0 = (case mm of None \<Rightarrow> [] | Some fs \<Rightarrow> fs)" "prompt_embeds r0 = embeds"
    "ids = Some t \<Longrightarrow> all_token_ids r0 = t" "num_computed_tokens r0 = 0" "request_id r0 = rid"
    "skip_reading_prefix_cache r0 = get_skip_reading_prefix_cache sp pp" "num_prompt_tokens r0 = num_tokens r0" by blast
  have "\<exists>hs m. update_block_hashes (Some (request_block_hasher sha256 hash_fn none_hash bs)) r0 =
       Inr (r0\<lparr>prompt_embeds_per_block_hashes := m, block_hashes := hs\<rparr>) \<and>
     memo_ok sha256 (r0\<lparr>prompt_embeds_per_block_hashes := m\<rparr>) \<and>
     hs = hash_chain hash_fn none_hash None (map (block_content sha256 bs r0) [0..<num_tokens r0 div bs])"
    by (rule update_block_hashes_spec [where k = 0]) (use assms(1) sorted r0 in \<open>simp_all add: memo_ok_def\<close>)
  then obtain hs m where r: "r = r0\<lparr>prompt_embeds_per_block_hashes := m, block_hashes := hs\<rparr>"
     "memo_ok sha256 (r0\<lparr>prompt_embeds_per_block_hashes := m\<rparr>)"
     "hs = hash_chain hash_fn none_hash None (map (block_content sha256 bs r0) [0..<num_tokens r0 div bs])"
    using r0(1) by auto
  show "hashes_ok sha256 hash_fn none_hash bs r" by (simp add: hashes_ok_def r num_tokens_def)
  show "memo_ok sha256 r" using r(2) by (simp add: memo_ok_def r(1))
  show "mm_features r = (case mm of None \<Rightarrow> [] | Some fs \<Rightarrow> fs)" "lora_request r = lora" "cache_salt r = salt"
    "prompt_embeds r = embeds" "ids = Some t \<Longrightarrow> all_token_ids r = t" "num_computed_tokens r = 0" "request_id r = rid"
    "skip_reading_prefix_cache r = get_skip_reading_prefix_cache sp pp" "num_prompt_tokens r = num_tokens r"
    using r0 by (simp_all add: r(1) num_tokens_def)
qed


lemma hash_chain_nth_0:
  "cs \<noteq> [] \<Longrightarrow> hash_chain hash_fn none_hash prev cs ! 0 = hash_block_tokens hash_fn none_hash prev (fst (hd cs)) (snd (hd cs))"
  by (cases cs) (auto simp: Let_def)

lemma take_chunks:
  "n * bs \<le> length xs \<Longrightarrow> concat (map (\<lambda>i. py_slice (i * bs) (i * bs + bs) xs) [0..<n]) = take (n * bs) xs"
proof (induction n)
  case (Suc n)
  then show ?case using take_slice [of "n * bs" "n * bs + bs" xs] by (simp add: add.commute)
qed simp

lemma concat_map_concat: "concat (map (\<lambda>i. concat (f i)) xs) = concat (concat (map f xs))"
  by (induction xs) auto

lemma chunk_end: "i < length hs div k \<Longrightarrow> i * k + k \<le> length hs"
proof -
  assume "i < length hs div k"
  then have "Suc i * k \<le> length hs div k * k" by (intro mult_le_mono1) simp
  also have "\<dots> \<le> length hs" by simp
  finally show ?thesis by simp
qed

lemma merged_hash_slice:
  assumes "0 < k" "i * k + k \<le> length hs"
  shows "merged_hash hs k i = concat (py_slice (i * k) (i * k + k) hs)"
proof -
  have append: "foldl (@) x ys = x @ concat ys" for x :: bytes and ys by (induction ys arbitrary: x) simp_all
  have "py_slice (i * k) (i * k + k) hs = map ((!) hs) [i * k..<i * k + k]"
    by (rule nth_equalityI) (use assms(2) in \<open>simp_all add: py_slice_def\<close>)
  also have "\<dots> = hs ! (i * k) # map ((!) hs) [i * k + 1..<i * k + k]" using assms(1) by (simp add: upt_conv_Cons)
  finally show ?thesis by (simp add: merged_hash_def append)
qed

lemma bhl_get_values:
  assumes "0 < k" "i < length hs div k"
  shows "bhl_get (ScaledHashes hs k) i = Inr (bhl_values (ScaledHashes hs k) ! i)"
  using assms chunk_end [OF assms(2)] by (auto simp: get_value_at_def)

section \<open>Properties\<close>

text \<open>
  C23. Packing a block hash with a group id is lossless: for a group id of at most 32 bits the two
  accessors recover the hash and the id from the key, whatever the length of the hash; any
  other group id raises \<^verbatim>\<open>OverflowError\<close>.
\<close>

theorem block_hash_key_roundtrip:
  "case make_block_hash_with_group_id h g of
     Inr key \<Rightarrow> 0 \<le> g \<and> g < 2 ^ 32 \<and> get_block_hash key = h \<and> get_group_id key = g
   | Inl err \<Rightarrow> err = OverflowError \<and> (g < 0 \<or> 2 ^ 32 \<le> g)"
proof (cases "to_bytes4_be g")
  case (Inl err)
  then show ?thesis by (auto simp: make_block_hash_with_group_id_def to_bytes4_be_def split: if_splits)
next
  case (Inr b)
  then have "0 \<le> g \<and> g < 2 ^ 32" by (auto simp: to_bytes4_be_def split: if_splits)
  with Inr to_bytes4_be_roundtrip [OF Inr] show ?thesis
    by (simp add: make_block_hash_with_group_id_def get_block_hash_def get_group_id_def)
qed

text \<open>
  C11. Hashing incrementally is hashing from scratch: however the output tokens of a request are
  appended, in batches \<open>tss\<close>, no append raises and the block hashes the request ends up with are
  those of the chain over the contents of all its full blocks (tokens and every extra key that
  overlaps the block). It needs the multi-modal items to be sorted and within the prompt, and
  those before the last one to lie within the blocks that the prompt fills.
\<close>

theorem incremental_hashing_correct:
  assumes "0 < bs" "mm_sorted (case mm of None \<Rightarrow> [] | Some fs \<Rightarrow> fs)"
    and "Request rid oid ids sp pp arrival embeds mm lora salt prio
           (Some (request_block_hasher sha256 hash_fn none_hash bs)) resum = Inr r0"
    and "mm_passed bs r0"
  shows "\<exists>r. fold_res (append_output_token_ids (Some (request_block_hasher sha256 hash_fn none_hash bs))) tss r0 = Inr r \<and>
    all_token_ids r = all_token_ids r0 @ concat tss \<and>
    block_hashes r = hash_chain hash_fn none_hash None (map (block_content sha256 bs r) [0..<num_tokens r div bs])"
proof -
  note fields = Request_fields [OF assms(1,3,2)]
  have "mm_sorted (mm_features r0)" using fields(3) assms(2) by simp
  from append_batches [OF assms(1) this fields(2,1) assms(4), of tss] show ?thesis by (auto simp: hashes_ok_def)
qed

definition greedy_params :: sampling_params_rec where
  "greedy_params = \<lparr>sp_max_tokens = Some 16, min_tokens = 0, eos_token_id = None, stop_token_ids = None,
     repetition_detection = None, sp_skip_reading_prefix_cache = None, structured_outputs = False,
     sp_kv_transfer_params = None\<rparr>"

definition image_at :: "string \<Rightarrow> int \<Rightarrow> int \<Rightarrow> mm_feature" where
  "image_at ident off len = \<lparr>mm_identifier = ident,
     mm_position = \<lparr>offset = off, plength = len, is_embed = None\<rparr>\<rparr>"


lemma Request_total:
  assumes "0 < bs" "mm_sorted (case mm of None \<Rightarrow> [] | Some fs \<Rightarrow> fs)"
    and "request_mode sp pp = Inr v" "length_from_prompt_token_ids_or_embeds ids embeds = Inr n"
  shows "\<exists>r. Request rid oid ids sp pp arrival embeds mm lora salt prio
           (Some (request_block_hasher sha256 hash_fn none_hash bs)) resum = Inr r"
proof -
  have total: "\<exists>r'. update_block_hashes (Some (request_block_hasher sha256 hash_fn none_hash bs)) r = Inr r'"
    if "mm_sorted (mm_features r)" "block_hashes r = []" "prompt_embeds_per_block_hashes r = []" for r
    using update_block_hashes_spec [of bs r sha256 0 hash_fn none_hash] assms(1) that by (force simp: memo_ok_def)
  obtain mt st kvp where "v = (mt, st, kvp)" by (cases v)
  with assms(3,4) show ?thesis
    unfolding Request_def by (simp only: sum.case prod.case) (rule total, simp_all add: assms(2))
qed

theorem incremental_hashing_correct_witness:
  "\<exists>r0 r. Request ''r'' 0 (Some [1, 2, 3, 4, 5]) (Some greedy_params) None 0 None (Some [image_at ''img'' 1 2]) None None 0
        (Some (request_block_hasher id (\<lambda>(p, t, k). p) [0] 2)) False = Inr r0 \<and>
     fold_res (append_output_token_ids (Some (request_block_hasher id (\<lambda>(p, t, k). p) [0] 2))) [[6], [7, 8]] r0 = Inr r \<and>
     all_token_ids r = [1, 2, 3, 4, 5, 6, 7, 8] \<and> length (block_hashes r) = 4"
proof -
  let ?h = "\<lambda>(p :: bytes, t :: int list, k :: extra_key list option). p"
  let ?mm = "Some [image_at ''img'' 1 2]"
  have sorted: "mm_sorted (case ?mm of None \<Rightarrow> [] | Some fs \<Rightarrow> fs)" by (simp add: mm_sorted_def image_at_def)
  have "request_mode (Some greedy_params) None = Inr (16, WAITING, None)"
    by (simp add: request_mode_def greedy_params_def)
  then obtain r0 where r0: "Request ''r'' 0 (Some [1, 2, 3, 4, 5]) (Some greedy_params) None 0 None ?mm None None 0
        (Some (request_block_hasher id ?h [0] 2)) False = Inr r0"
    using Request_total [of 2 ?mm "Some greedy_params" None _ "Some [1, 2, 3, 4, 5]" None 5] sorted
    by (force simp: length_from_prompt_token_ids_or_embeds_def)
  note fields = Request_fields [OF _ r0 sorted]
  have "mm_passed 2 r0" using fields(3,7) by (simp add: mm_passed_def num_tokens_def mm_end_def image_at_def)
  from incremental_hashing_correct [OF _ sorted r0 this, of "[[6], [7, 8]]"] fields(7)
  show ?thesis using r0 by (auto simp: num_tokens_def)
qed

text \<open>
  A request as it grows: created with the hasher attached, its multi-modal items sorted and disjoint as the
  code assumes, then extended by the tokens it generates.
\<close>

inductive hashed_request ::
  "(bytes \<Rightarrow> bytes) \<Rightarrow> (hash_input \<Rightarrow> bytes) \<Rightarrow> bytes \<Rightarrow> nat \<Rightarrow> request \<Rightarrow> bool"
  for sha256 hash_fn none_hash bs where
  created: "Request rid oid ids sp pp arrival embeds mm lora salt prio
      (Some (request_block_hasher sha256 hash_fn none_hash bs)) resum = Inr r \<Longrightarrow>
    mm_sorted (case mm of None \<Rightarrow> [] | Some fs \<Rightarrow> fs) \<Longrightarrow> hashed_request sha256 hash_fn none_hash bs r"
| appended: "hashed_request sha256 hash_fn none_hash bs r \<Longrightarrow>
    append_output_token_ids (Some (request_block_hasher sha256 hash_fn none_hash bs)) ts r = Inr r' \<Longrightarrow>
    hashed_request sha256 hash_fn none_hash bs r'"

text \<open>
  The multi-modal items lie within the prompt and, unless the prompt fills no block at all, those before the
  last one within the blocks that the prompt fills. The hasher needs this to see every item: it
  continues a partly hashed request at the last item. A request with at most one item satisfies it.
\<close>

definition mm_settled :: "nat \<Rightarrow> request \<Rightarrow> bool" where
  "mm_settled bs r \<longleftrightarrow>
     (\<forall>f\<in>set (mm_features r). mm_end f \<le> int (num_prompt_tokens r)) \<and>
     (num_prompt_tokens r < bs \<or>
      (\<forall>f\<in>set (butlast (mm_features r)). mm_end f \<le> int (num_prompt_tokens r div bs * bs)))"

lemma hashed_request_ok:
  assumes "hashed_request sha256 hash_fn none_hash bs r" "0 < bs" "mm_settled bs r"
  shows "hashes_ok sha256 hash_fn none_hash bs r \<and> memo_ok sha256 r \<and> mm_sorted (mm_features r) \<and> mm_passed bs r"
  using assms
proof induction
  case (created rid oid ids sp pp arrival embeds mm lora salt prio resum r)
  note fields = Request_fields [OF created(3,1,2)]
  have "mm_passed bs r" using created(4) fields(11) by (auto simp: mm_settled_def mm_passed_def)
  with fields created(2) show ?case by simp
next
  case (appended r ts r')
  have "mm_settled bs r" using appended.prems(2) append_fields [OF appended.hyps(2)] by (simp add: mm_settled_def)
  with appended show ?case using append_output_token_ids_spec [of bs r sha256 hash_fn none_hash ts] by auto
qed

text \<open>
  C12. A hash identifies the whole prefix: if the hash function does not collide on the inputs
  the two requests feed it and never returns the seed or the empty string, two equal block
  hashes stand at the same position, and the requests agree on every token up to the end
  of that block and on the extra keys (adapter, multi-modal items, salt, embeddings) of every block up
  to it. This is proved for requests whose multi-modal items the hasher sees: the items lie within the prompt,
  and when the prompt fills a block, all of them but the last lie within the blocks it fills.
  Requests with no or one multi-modal item always qualify; for others it is a real restriction,
  since an item in the unfinished last block of the prompt that another item follows is not hashed.
\<close>

theorem equal_hash_equal_prefix:
  assumes "0 < bs"
    and "hashed_request sha256 hash_fn none_hash bs r" "hashed_request sha256 hash_fn none_hash bs r'"
    and "mm_settled bs r" "mm_settled bs r'"
    and "inj_on hash_fn (request_hash_inputs sha256 hash_fn none_hash bs r \<union> request_hash_inputs sha256 hash_fn none_hash bs r')"
    and "\<forall>x \<in> request_hash_inputs sha256 hash_fn none_hash bs r \<union> request_hash_inputs sha256 hash_fn none_hash bs r'.
           hash_fn x \<noteq> none_hash \<and> hash_fn x \<noteq> []"
    and "i < length (block_hashes r)" "j < length (block_hashes r')" "block_hashes r ! i = block_hashes r' ! j"
  shows "i = j \<and> take (Suc i * bs) (all_token_ids r) = take (Suc i * bs) (all_token_ids r') \<and>
    (\<forall>k \<le> i. block_extra_keys sha256 r (k * bs) (k * bs + bs) = block_extra_keys sha256 r' (k * bs) (k * bs + bs))"
proof -
  let ?cs = "\<lambda>r. map (block_content sha256 bs r) [0..<num_tokens r div bs]"
  have ok: "block_hashes r = hash_chain hash_fn none_hash None (?cs r)"
      "block_hashes r' = hash_chain hash_fn none_hash None (?cs r')"
    using hashed_request_ok assms(1-5) by (auto simp: hashes_ok_def)
  have bound: "i < num_tokens r div bs" "j < num_tokens r' div bs" using assms(8,9) ok by auto
  from hash_chain_injective [of hash_fn none_hash "?cs r" "?cs r'" i j] assms ok
  have ij: "i = j" "take (Suc i) (?cs r) = take (Suc i) (?cs r')"
    by (auto simp: request_hash_inputs_def)
  have content: "block_content sha256 bs r k = block_content sha256 bs r' k" if "k \<le> i" for k
    using arg_cong [OF ij(2), of "\<lambda>xs. xs ! k"] that bound ij(1) by simp
  have tokens: "concat (map (\<lambda>k. fst (block_content sha256 bs q k)) [0..<Suc i]) = take (Suc i * bs) (all_token_ids q)"
    if "i < num_tokens q div bs" for q
  proof -
    have "Suc i * bs \<le> num_tokens q div bs * bs" using that by (intro mult_le_mono1) simp
    also have "\<dots> \<le> length (all_token_ids q)" by (simp add: num_tokens_def)
    finally show ?thesis using take_chunks [of "Suc i" bs "all_token_ids q"] by (simp add: block_content_def)
  qed
  have "map (\<lambda>k. fst (block_content sha256 bs r k)) [0..<Suc i] = map (\<lambda>k. fst (block_content sha256 bs r' k)) [0..<Suc i]"
    using content by auto
  with tokens [of r] tokens [of r'] bound ij(1) have "take (Suc i * bs) (all_token_ids r) = take (Suc i * bs) (all_token_ids r')"
    by metis
  with ij(1) content show ?thesis by (auto simp: block_content_def)
qed


definition tagging_hash :: "hash_input \<Rightarrow> bytes" where
  "tagging_hash = (\<lambda>(p, t, k). p @ map word_of_int t)"

definition text_request :: "int list \<Rightarrow> request res" where
  "text_request toks = Request ''r'' 0 (Some toks) (Some greedy_params) None 0 None None None None 0
     (Some (request_block_hasher id tagging_hash [0] 1)) False"

lemma text_request_exists:
  "\<exists>r. text_request toks = Inr r \<and> hashed_request id tagging_hash [0] 1 r \<and> (\<forall>bs. mm_settled bs r) \<and> all_token_ids r = toks \<and>
     lora_request r = None \<and> cache_salt r = None \<and> prompt_embeds r = None \<and> mm_features r = [] \<and>
     num_computed_tokens r = 0 \<and> request_id r = ''r'' \<and> \<not> skip_reading_prefix_cache r"
proof -
  have "request_mode (Some greedy_params) None = Inr (16, WAITING, None)"
    by (simp add: request_mode_def greedy_params_def)
  then obtain r where r: "text_request toks = Inr r"
    using Request_total [of 1 None "Some greedy_params" None _ "Some toks" None "length toks"]
    by (force simp: length_from_prompt_token_ids_or_embeds_def text_request_def mm_sorted_def)
  note r' = r [unfolded text_request_def]
  have fields: "mm_features r = []" "lora_request r = None" "cache_salt r = None" "prompt_embeds r = None"
    "all_token_ids r = toks" "num_computed_tokens r = 0" "request_id r = ''r''" "\<not> skip_reading_prefix_cache r"
    using Request_fields [OF _ r'] by (simp_all add: mm_sorted_def get_skip_reading_prefix_cache_def greedy_params_def)
  have "hashed_request id tagging_hash [0] 1 r"
    by (rule created [OF r']) (simp add: mm_sorted_def)
  moreover have "mm_settled bs r" for bs by (simp add: mm_settled_def fields)
  ultimately show ?thesis using r fields by blast
qed

theorem equal_hash_equal_prefix_witness:
  "\<exists>r r'. text_request [7, 8] = Inr r \<and> text_request [7, 9] = Inr r' \<and>
     block_hashes r ! 0 = block_hashes r' ! 0 \<and> take 1 (all_token_ids r) = take 1 (all_token_ids r')"
proof -
  from text_request_exists [of "[7, 8]"] obtain r where r: "text_request [7, 8] = Inr r"
    "hashed_request id tagging_hash [0] 1 r" "mm_settled 1 r" "all_token_ids r = [7, 8]" "lora_request r = None" "cache_salt r = None"
    "prompt_embeds r = None" "mm_features r = []" by auto
  from text_request_exists [of "[7, 9]"] obtain r' where r': "text_request [7, 9] = Inr r'"
    "hashed_request id tagging_hash [0] 1 r'" "mm_settled 1 r'" "all_token_ids r' = [7, 9]" "lora_request r' = None" "cache_salt r' = None"
    "prompt_embeds r' = None" "mm_features r' = []" by auto
  note eval = block_content_def block_extra_keys_def gen_lora_extra_hash_keys_def cache_salt_keys_def py_slice_def
    num_tokens_def upt_rec hash_block_tokens_def tagging_hash_def parent_of_def Let_def
  have inputs: "request_hash_inputs id tagging_hash [0] 1 r = {([0], [7], None), ([0, 7], [8], None)}"
    "request_hash_inputs id tagging_hash [0] 1 r' = {([0], [7], None), ([0, 7], [9], None)}"
    unfolding request_hash_inputs_def by (auto simp: r r' eval)
  have hs: "block_hashes r = [[0, 7], [0, 7, 8]]" "block_hashes r' = [[0, 7], [0, 7, 9]]"
    using hashed_request_ok [OF r(2) _ r(3)] hashed_request_ok [OF r'(2) _ r'(3)] by (simp_all add: hashes_ok_def r r' eval)
  have "take (Suc 0 * 1) (all_token_ids r) = take (Suc 0 * 1) (all_token_ids r')"
    using equal_hash_equal_prefix [OF _ r(2) r'(2) r(3) r'(3), of 0 0] inputs hs by (simp add: inj_on_def tagging_hash_def)
  with r(1) r'(1) hs show ?thesis by auto
qed

text \<open>
  C25. The adapter name and the cache salt enter the first block's key as bare strings: a
  request that uses the LoRA adapter \<open>x\<close> and a request for the base model with the cache salt \<open>x\<close>
  have the same first block hash when their first blocks hold the same tokens, for every hash function.
\<close>

theorem lora_name_collides_with_salt:
  assumes "0 < bs" "bs \<le> length toks" "x \<noteq> []"
    and "Request rid oid (Some toks) sp pp arrival None None (Some \<lparr>lora_name = x, lora_int_id = n\<rparr>) None prio
           (Some (request_block_hasher sha256 hash_fn none_hash bs)) resum = Inr r"
    and "Request rid' oid' (Some toks) sp' pp' arrival' None None None (Some x) prio'
           (Some (request_block_hasher sha256 hash_fn none_hash bs)) resum' = Inr r'"
  shows "block_hashes r ! 0 = block_hashes r' ! 0"
proof -
  have sorted: "mm_sorted (case None of None \<Rightarrow> [] | Some fs \<Rightarrow> fs)" by (simp add: mm_sorted_def)
  note r = Request_fields [OF assms(1,4) sorted] and r' = Request_fields [OF assms(1,5) sorted]
  have "0 < num_tokens q div bs" if "all_token_ids q = toks" for q
    using that assms(1,2) by (simp add: num_tokens_def div_greater_zero_iff)
  then have "block_hashes q ! 0 = hash_block_tokens hash_fn none_hash None (fst (block_content sha256 bs q 0)) (snd (block_content sha256 bs q 0))"
    if "hashes_ok sha256 hash_fn none_hash bs q" "all_token_ids q = toks" for q
    using that by (simp add: hashes_ok_def hash_chain_nth_0 hd_map upt_conv_Cons)
  moreover have "block_content sha256 bs r 0 = block_content sha256 bs r' 0"
    using r(3-7) r'(3-7) assms(3)
    by (simp add: block_content_def block_extra_keys_def gen_lora_extra_hash_keys_def cache_salt_keys_def)
  ultimately show ?thesis using r r' by simp
qed


theorem lora_name_collides_with_salt_witness:
  "\<exists>r r'. Request ''a'' 0 (Some [1, 2]) (Some greedy_params) None 0 None None
             (Some \<lparr>lora_name = ''x'', lora_int_id = 1\<rparr>) None 0
             (Some (request_block_hasher id tagging_hash [0] 2)) False = Inr r \<and>
     Request ''b'' 1 (Some [1, 2]) (Some greedy_params) None 0 None None None (Some ''x'') 0
             (Some (request_block_hasher id tagging_hash [0] 2)) False = Inr r' \<and>
     block_hashes r ! 0 = block_hashes r' ! 0"
proof -
  have mode: "request_mode (Some greedy_params) None = Inr (16, WAITING, None)"
    by (simp add: request_mode_def greedy_params_def)
  have ex: "\<exists>r. Request rid oid (Some [1, 2]) (Some greedy_params) None 0 None None lora salt 0
             (Some (request_block_hasher id tagging_hash [0] 2)) False = Inr r" for rid oid lora salt
    by (rule Request_total [OF _ _ mode, where n = 2])
       (simp_all add: mm_sorted_def length_from_prompt_token_ids_or_embeds_def)
  from ex [of "''a''" 0 "Some \<lparr>lora_name = ''x'', lora_int_id = 1\<rparr>" None] obtain r where
    r: "Request ''a'' 0 (Some [1, 2]) (Some greedy_params) None 0 None None
             (Some \<lparr>lora_name = ''x'', lora_int_id = 1\<rparr>) None 0
             (Some (request_block_hasher id tagging_hash [0] 2)) False = Inr r" by auto
  from ex [of "''b''" 1 None "Some ''x''"] obtain r' where
    r': "Request ''b'' 1 (Some [1, 2]) (Some greedy_params) None 0 None None None (Some ''x'') 0
             (Some (request_block_hasher id tagging_hash [0] 2)) False = Inr r'" by auto
  from lora_name_collides_with_salt [OF _ _ _ r r'] r r' show ?thesis by auto
qed

subsection \<open>Items the hasher does not see\<close>

text \<open>
  A hasher that starts at the last item works as on the request with this item alone: the index is shifted by
  the number of items before it.
\<close>

definition shifted :: "nat \<Rightarrow> int \<Rightarrow> int \<Rightarrow> bool" where
  "shifted d idx idx' \<longleftrightarrow> idx = -1 \<and> idx' = -1 \<or> 0 \<le> idx' \<and> idx = idx' + int d"

lemma mm_keys_loop_shift:
  "mm_keys_loop s e fs (idx + d) keys = map_prod id (\<lambda>j. j + d) (mm_keys_loop s e fs idx keys)"
proof (induction fs arbitrary: idx keys)
  case (Cons f fs)
  show ?case using Cons.IH [of "idx + 1"] by (simp add: Let_def add.assoc add.commute [of 1])
qed simp

lemma mm_keys_loop_index: "mm_keys_loop s e fs idx keys = (keys', idx') \<Longrightarrow> idx \<le> idx'"
  by (induction fs arbitrary: idx keys) (fastforce simp: Let_def split: if_splits)+

lemma gen_mm_last_item:
  assumes "mm_features r = fs @ [f]" and "shifted (length fs) idx idx'"
  shows "\<exists>keys j j'. gen_mm_extra_hash_keys r s e idx = Inr (keys, j) \<and>
    gen_mm_extra_hash_keys (r\<lparr>mm_features := [f]\<rparr>) s e idx' = Inr (keys, j') \<and> shifted (length fs) j j'"
proof (cases "offset (mm_position f) + plength (mm_position f) \<le> s")
  case True
  then show ?thesis using assms by (auto simp: gen_mm_extra_hash_keys_def)
next
  case False
  define i where "i = (if idx' = -1 then 0 else idx')"
  have i: "0 \<le> i" using assms(2) by (auto simp: shifted_def i_def)
  obtain keys j where loop: "mm_keys_loop s e (drop (nat i) [f]) i [] = (keys, j)" by fastforce
  then have "mm_keys_loop s e (drop (nat i) [f]) (i + int (length fs)) [] = (keys, j + int (length fs))" "i \<le> j"
    using mm_keys_loop_index by (auto simp: mm_keys_loop_shift)
  moreover have "drop (nat (i + int (length fs))) (fs @ [f]) = drop (nat i) [f]" using i by (simp add: nat_add_distrib)
  ultimately have "gen_mm_extra_hash_keys r s e idx = Inr (keys, j + int (length fs))"
    using False assms i by (auto simp: gen_mm_extra_hash_keys_def Let_def shifted_def i_def split: if_splits)
  moreover have "gen_mm_extra_hash_keys (r\<lparr>mm_features := [f]\<rparr>) s e idx' = Inr (keys, j)"
    using False assms(2) loop by (auto simp: gen_mm_extra_hash_keys_def Let_def shifted_def i_def split: if_splits)
  ultimately show ?thesis using \<open>i \<le> j\<close> i by (auto simp: shifted_def)
qed

text \<open>Before the first item there is nothing to see.\<close>

lemma gen_mm_before:
  assumes "mm_features r \<noteq> []" "e \<le> offset (mm_position (hd (mm_features r)))"
  shows "gen_mm_extra_hash_keys r s e 0 = Inr ([], 0)"
  using assms by (cases "mm_features r") (auto simp: gen_mm_extra_hash_keys_def Let_def)

lemma embeds_keys_mm:
  "gen_prompt_embeds_extra_hash_keys sha256 (r\<lparr>mm_features := fs\<rparr>) s e =
   map_prod id (\<lambda>q. q\<lparr>mm_features := fs\<rparr>) (gen_prompt_embeds_extra_hash_keys sha256 r s e)"
  by (auto simp: gen_prompt_embeds_extra_hash_keys_def Let_def split: option.splits)

lemma generate_keys_mm:
  assumes "gen_mm_extra_hash_keys r s e idx = Inr (keys, j)" "gen_mm_extra_hash_keys (r\<lparr>mm_features := fs\<rparr>) s e idx' = Inr (keys, j')"
  shows "\<exists>ks r'. generate_block_hash_extra_keys sha256 r s e idx = Inr (ks, j, r') \<and>
    generate_block_hash_extra_keys sha256 (r\<lparr>mm_features := fs\<rparr>) s e idx' = Inr (ks, j', r'\<lparr>mm_features := fs\<rparr>)"
proof -
  obtain ek r' where "gen_prompt_embeds_extra_hash_keys sha256 r s e = (ek, r')" by fastforce
  then show ?thesis
    using assms by (simp add: generate_block_hash_extra_keys_def embeds_keys_mm gen_lora_extra_hash_keys_def cache_salt_keys_def Let_def)
qed

definition unseen :: "nat \<Rightarrow> nat \<Rightarrow> mm_feature list \<Rightarrow> mm_feature \<Rightarrow> int \<Rightarrow> int \<Rightarrow> bool" where
  "unseen bs n fs f idx idx' \<longleftrightarrow>
     shifted (length fs) idx idx' \<or> idx = 0 \<and> idx' = 0 \<and> (\<forall>g \<in> set (fs @ [f]). int (n div bs * bs) \<le> offset (mm_position g))"

lemma hasher_loop_unseen:
  assumes "mm_features r = fs @ [f]" "unseen bs n fs f idx idx'" "bs dvd start"
  shows "hasher_loop sha256 hash_fn none_hash bs n start idx' prev new (r\<lparr>mm_features := [f]\<rparr>) =
    map_sum id (map_prod id (\<lambda>q. q\<lparr>mm_features := [f]\<rparr>)) (hasher_loop sha256 hash_fn none_hash bs n start idx prev new r)"
  using assms
proof (induction sha256 hash_fn none_hash bs n start idx prev new r arbitrary: idx' rule: hasher_loop.induct)
  case (1 sha256 hash_fn none_hash bs n start idx prev new r)
  show ?case
  proof (cases "n < start + bs \<or> bs = 0")
    case True
    then show ?thesis by (simp add: hasher_loop.simps [of _ _ _ bs])
  next
    case False
    have "start + bs \<le> n div bs * bs"
    proof -
      have "(start + bs) div bs \<le> n div bs" using False by (intro div_le_mono) simp
      then show ?thesis using "1.prems"(3) by (metis dvd_add dvd_div_mult_self dvd_refl mult_le_mono1)
    qed
    then have before: "int (start + bs) \<le> offset (mm_position g)" if "g \<in> set (fs @ [f])" "\<not> shifted (length fs) idx idx'" for g
    proof -
      have "int (n div bs * bs) \<le> offset (mm_position g)" using that "1.prems"(2) unfolding unseen_def by blast
      with \<open>start + bs \<le> n div bs * bs\<close> show ?thesis by linarith
    qed
    have "\<exists>keys j j'. gen_mm_extra_hash_keys r (int start) (int (start + bs)) idx = Inr (keys, j) \<and>
      gen_mm_extra_hash_keys (r\<lparr>mm_features := [f]\<rparr>) (int start) (int (start + bs)) idx' = Inr (keys, j') \<and> unseen bs n fs f j j'"
    proof (cases "shifted (length fs) idx idx'")
      case True
      with gen_mm_last_item [OF "1.prems"(1) this] show ?thesis unfolding unseen_def by blast
    next
      case other: False
      have "hd (fs @ [f]) \<in> set (fs @ [f])" by (rule hd_in_set) simp
      then have "gen_mm_extra_hash_keys r (int start) (int (start + bs)) 0 = Inr ([], 0)"
        using before other "1.prems"(1) by (intro gen_mm_before) simp_all
      moreover have "gen_mm_extra_hash_keys (r\<lparr>mm_features := [f]\<rparr>) (int start) (int (start + bs)) 0 = Inr ([], 0)"
        using before [OF _ other, of f] by (intro gen_mm_before) simp_all
      ultimately show ?thesis using other "1.prems"(2) by (auto simp: unseen_def)
    qed
    then obtain keys j j' where g: "gen_mm_extra_hash_keys r (int start) (int (start + bs)) idx = Inr (keys, j)"
      "gen_mm_extra_hash_keys (r\<lparr>mm_features := [f]\<rparr>) (int start) (int (start + bs)) idx' = Inr (keys, j')" "unseen bs n fs f j j'" by blast
    from generate_keys_mm [OF g(1,2), of sha256] obtain ks r1 where
      k: "generate_block_hash_extra_keys sha256 r (int start) (int (start + bs)) idx = Inr (ks, j, r1)"
        "generate_block_hash_extra_keys sha256 (r\<lparr>mm_features := [f]\<rparr>) (int start) (int (start + bs)) idx' = Inr (ks, j', r1\<lparr>mm_features := [f]\<rparr>)"
      by blast
    have "mm_features r1 = fs @ [f]" using extra_keys_memo [OF k(1)] "1.prems"(1) by auto
    from "1.IH" [OF False k(1) refl refl refl this g(3)] "1.prems"(3) False k show ?thesis
      by (simp add: hasher_loop.simps [of _ _ _ bs n start] Let_def)
  qed
qed

lemma update_block_hashes_unseen:
  assumes "mm_features r = fs @ [f]"
    and "block_hashes r \<noteq> [] \<and> 0 < bs \<or> (\<forall>g \<in> set (fs @ [f]). int (num_tokens r div bs * bs) \<le> offset (mm_position g))"
  shows "update_block_hashes (Some (request_block_hasher sha256 hash_fn none_hash bs)) (r\<lparr>mm_features := [f]\<rparr>) =
    map_sum id (\<lambda>q. q\<lparr>mm_features := [f]\<rparr>) (update_block_hashes (Some (request_block_hasher sha256 hash_fn none_hash bs)) r)"
proof -
  let ?start = "length (block_hashes r) * bs" and ?prev = "if block_hashes r = [] then None else Some (last (block_hashes r))"
  let ?idx = "if 0 < ?start then -1 else 0 :: int"
  have nt: "num_tokens (r\<lparr>mm_features := [f]\<rparr>) = num_tokens r" by (simp add: num_tokens_def)
  have "unseen bs (num_tokens r) fs f ?idx ?idx" using assms(2) by (auto simp: unseen_def shifted_def)
  from hasher_loop_unseen [OF assms(1) this, of ?start sha256 hash_fn none_hash ?prev "[]"]
  have "request_block_hasher sha256 hash_fn none_hash bs (r\<lparr>mm_features := [f]\<rparr>) =
      map_sum id (map_prod id (\<lambda>q. q\<lparr>mm_features := [f]\<rparr>)) (request_block_hasher sha256 hash_fn none_hash bs r)"
    by (cases "num_tokens r < ?start + bs") (simp_all add: request_block_hasher_def nt Let_def split del: if_split cong: if_cong)
  then show ?thesis
    by (cases "request_block_hasher sha256 hash_fn none_hash bs r") (auto simp: update_block_hashes_def)
qed

lemma append_unseen:
  assumes "mm_features r = fs @ [f]" "block_hashes r \<noteq> []" "0 < bs"
  shows "fold_res (append_output_token_ids (Some (request_block_hasher sha256 hash_fn none_hash bs))) tss (r\<lparr>mm_features := [f]\<rparr>) =
    map_sum id (\<lambda>q. q\<lparr>mm_features := [f]\<rparr>)
      (fold_res (append_output_token_ids (Some (request_block_hasher sha256 hash_fn none_hash bs))) tss r)"
  using assms
proof (induction tss arbitrary: r)
  case (Cons ts tss)
  let ?H = "Some (request_block_hasher sha256 hash_fn none_hash bs)"
  let ?r = "r\<lparr>output_token_ids := output_token_ids r @ ts, all_token_ids := all_token_ids r @ ts\<rparr>"
  have comm: "r\<lparr>mm_features := [f], output_token_ids := output_token_ids r @ ts, all_token_ids := all_token_ids r @ ts\<rparr> = ?r\<lparr>mm_features := [f]\<rparr>"
    by (rule request.equality) simp_all
  have "append_output_token_ids ?H ts (r\<lparr>mm_features := [f]\<rparr>) = update_block_hashes ?H (?r\<lparr>mm_features := [f]\<rparr>)"
    unfolding append_output_token_ids_def comm [symmetric] by simp
  then have step: "append_output_token_ids ?H ts (r\<lparr>mm_features := [f]\<rparr>) =
      map_sum id (\<lambda>q. q\<lparr>mm_features := [f]\<rparr>) (append_output_token_ids ?H ts r)"
    using update_block_hashes_unseen [of ?r fs f bs sha256 hash_fn none_hash] Cons.prems by (simp add: append_output_token_ids_def)
  show ?case
  proof (cases "append_output_token_ids ?H ts r")
    case (Inl e)
    then show ?thesis using step by simp
  next
    case (Inr q)
    have "mm_features q = fs @ [f]" "block_hashes q \<noteq> []"
      using Cons.prems hashes_extend [OF Inr [unfolded append_output_token_ids_def]] by auto
    with Cons.IH [of q] Cons.prems(3) Inr step show ?thesis by simp
  qed
qed simp

lemma created_unseen:
  assumes "\<forall>g \<in> set (fs @ [f]). int (length toks div bs * bs) \<le> offset (mm_position g)"
  shows "Request rid oid (Some toks) sp pp arrival embeds (Some [f]) lora salt prio
      (Some (request_block_hasher sha256 hash_fn none_hash bs)) resum =
    map_sum id (\<lambda>q. q\<lparr>mm_features := [f]\<rparr>) (Request rid oid (Some toks) sp pp arrival embeds (Some (fs @ [f])) lora salt prio
      (Some (request_block_hasher sha256 hash_fn none_hash bs)) resum)"
proof (cases "request_mode sp pp")
  case (Inr v)
  obtain mt st kvp where v: "v = (mt, st, kvp)" by (cases v)
  show ?thesis
  proof (cases "length_from_prompt_token_ids_or_embeds (Some toks) embeds")
    case n: (Inr n)
    show ?thesis unfolding Request_def Inr v n sum.case prod.case option.case
      by (subst update_block_hashes_unseen [symmetric, where fs = fs]) (use assms in \<open>simp_all add: num_tokens_def\<close>)
  qed (simp add: Request_def Inr v)
qed (simp add: Request_def)

text \<open>
  C26. The hasher continues a partly hashed request at the last multi-modal item only. Take a prompt that fills
  at least one block and whose unfinished last block holds the items \<open>fs\<close> followed by a last item \<open>f\<close>. However the
  generated tokens are appended, and for every hash function, the request ends up with the block hashes of a
  request that has the item \<open>f\<close> alone. Once the block is full its hash therefore ignores the items \<open>fs\<close>,
  although they belong to the keys of its content: prompts that differ only in these items share the block.
\<close>

theorem straddling_mm_item_not_hashed:
  assumes "0 < bs" "bs \<le> length toks" "mm_sorted (fs @ [f])" "fs \<noteq> []"
    and "\<forall>g \<in> set fs. int (length toks div bs * bs) \<le> offset (mm_position g)" "mm_end f \<le> int (length toks)"
    and "Request rid oid (Some toks) sp pp arrival embeds (Some (fs @ [f])) lora salt prio
           (Some (request_block_hasher sha256 hash_fn none_hash bs)) resum = Inr r0"
    and "length toks div bs * bs + bs \<le> length toks + length (concat tss)"
  shows "\<exists>r q0 q. fold_res (append_output_token_ids (Some (request_block_hasher sha256 hash_fn none_hash bs))) tss r0 = Inr r \<and>
    Request rid oid (Some toks) sp pp arrival embeds (Some [f]) lora salt prio
      (Some (request_block_hasher sha256 hash_fn none_hash bs)) resum = Inr q0 \<and>
    fold_res (append_output_token_ids (Some (request_block_hasher sha256 hash_fn none_hash bs))) tss q0 = Inr q \<and>
    block_hashes r = block_hashes q \<and> length toks div bs < length (block_hashes r) \<and>
    block_extra_keys sha256 r (length toks div bs * bs) (length toks div bs * bs + bs) \<noteq>
      block_extra_keys sha256 q (length toks div bs * bs) (length toks div bs * bs + bs)"
proof -
  let ?H = "Some (request_block_hasher sha256 hash_fn none_hash bs)" and ?s = "length toks div bs * bs" and ?i = "length toks div bs"
  let ?q0 = "r0\<lparr>mm_features := [f]\<rparr>"
  have ends: "mm_end g \<le> offset (mm_position f)" if "g \<in> set fs" for g using assms(3) that by (auto simp: mm_sorted_def sorted_wrt_append)
  have pos: "offset (mm_position g) < mm_end g" if "g \<in> set (fs @ [f])" for g using assms(3) that by (auto simp: mm_sorted_def mm_end_def)
  have late: "int ?s \<le> offset (mm_position g)" if "g \<in> set (fs @ [f])" for g
    using that assms(4,5) ends [of "hd fs"] pos [of "hd fs"] by (cases fs) force+
  then have q0: "Request rid oid (Some toks) sp pp arrival embeds (Some [f]) lora salt prio ?H resum = Inr ?q0"
    using created_unseen [of fs f toks bs] assms(7) by simp
  have sorted: "mm_sorted [f]" using assms(3) by (auto simp: mm_sorted_def)
  note r0 = Request_fields [OF assms(1,7)] and fq = Request_fields [OF assms(1) q0]
  have nq: "num_tokens ?q0 = length toks" using fq(7) sorted by (simp add: num_tokens_def)
  have "mm_passed bs ?q0" using assms(6) nq by (simp add: mm_passed_def)
  from append_batches [OF assms(1) _ _ _ this, of sha256 hash_fn none_hash tss] fq(1,2) sorted obtain q where
    q: "fold_res (append_output_token_ids ?H) tss ?q0 = Inr q" "all_token_ids q = all_token_ids ?q0 @ concat tss"
      "hashes_ok sha256 hash_fn none_hash bs q" by auto
  have hs: "block_hashes r0 \<noteq> []"
    using r0(1,7) assms(1,2,3) by (auto simp: hashes_ok_def num_tokens_def div_greater_zero_iff simp flip: length_greater_0_conv)
  from append_unseen [OF _ this assms(1), of fs f sha256 hash_fn none_hash tss] r0(3) assms(3) q(1) obtain r where
    r: "fold_res (append_output_token_ids ?H) tss r0 = Inr r" "q = r\<lparr>mm_features := [f]\<rparr>"
    by (cases "fold_res (append_output_token_ids ?H) tss r0") auto
  have "num_tokens q = length toks + length (concat tss)" using q(2) nq by (simp add: num_tokens_def)
  then have "Suc ?i \<le> num_tokens q div bs" using assms(1,8) by (simp add: less_eq_div_iff_mult_less_eq add.commute)
  then have "?i < length (block_hashes q)" using q(3) by (simp add: hashes_ok_def)
  moreover have "mm_features r = fs @ [f]"
    using fold_res_inv [OF r(1), of "\<lambda>r. mm_features r = fs @ [f]"] r0(3) assms(3) append_fields(1) by auto
  moreover have "overlaps (int ?s) (int (?s + bs)) g" if "g \<in> set (fs @ [f])" for g
  proof -
    have "length toks < ?s + bs" using div_mult_mod_eq [of "length toks" bs] mod_less_divisor [of bs "length toks"] assms(1) by linarith
    then have "mm_end f < int (?s + bs)" using assms(6) by linarith
    then show ?thesis using late [OF that] pos [OF that] pos [of f] ends [of g] that by (fastforce simp: overlaps_def)
  qed
  ultimately have "block_extra_keys sha256 r ?s (?s + bs) \<noteq> block_extra_keys sha256 q ?s (?s + bs)"
    using assms(4) by (auto simp: r(2) block_extra_keys_def gen_lora_extra_hash_keys_def cache_salt_keys_def Let_def)
  with \<open>?i < length (block_hashes q)\<close> r q(1) q0 show ?thesis by auto
qed

theorem straddling_mm_item_not_hashed_witness:
  "\<exists>r0 r q0 q. Request ''a'' 0 (Some [1, 2, 3, 4, 5, 6]) (Some greedy_params) None 0 None (Some [image_at ''cat'' 4 1, image_at ''dog'' 5 1])
       None None 0 (Some (request_block_hasher id tagging_hash [0] 4)) False = Inr r0 \<and>
     fold_res (append_output_token_ids (Some (request_block_hasher id tagging_hash [0] 4))) [[7], [8]] r0 = Inr r \<and>
     Request ''a'' 0 (Some [1, 2, 3, 4, 5, 6]) (Some greedy_params) None 0 None (Some [image_at ''dog'' 5 1])
       None None 0 (Some (request_block_hasher id tagging_hash [0] 4)) False = Inr q0 \<and>
     fold_res (append_output_token_ids (Some (request_block_hasher id tagging_hash [0] 4))) [[7], [8]] q0 = Inr q \<and>
     block_hashes r = block_hashes q \<and> 1 < length (block_hashes r) \<and> block_extra_keys id r 4 8 \<noteq> block_extra_keys id q 4 8"
proof -
  let ?mm = "[image_at ''cat'' 4 1] @ [image_at ''dog'' 5 1]"
  have sorted: "mm_sorted ?mm" by (simp add: mm_sorted_def mm_end_def image_at_def)
  have "request_mode (Some greedy_params) None = Inr (16, WAITING, None)" by (simp add: request_mode_def greedy_params_def)
  then obtain r0 where "Request ''a'' 0 (Some [1, 2, 3, 4, 5, 6]) (Some greedy_params) None 0 None (Some ?mm) None None 0
        (Some (request_block_hasher id tagging_hash [0] 4)) False = Inr r0"
    using Request_total [of 4 "Some ?mm" "Some greedy_params" None _ "Some [1, 2, 3, 4, 5, 6]" None 6] sorted
    by (force simp: length_from_prompt_token_ids_or_embeds_def)
  with straddling_mm_item_not_hashed [OF _ _ sorted _ _ _ this, of "[[7], [8]]"] show ?thesis
    by (simp add: image_at_def mm_end_def)
qed

text \<open>
  C24. The coarser view of a hash list is total and lossless: for a target block size that is a
  multiple of the hash block size, every index below its length reads without error, the iteration
  gives the values the indexing gives, and together they are the hashes they cover in order.
\<close>

theorem scaled_hash_view:
  assumes "0 < hbs" "0 < tbs" "tbs mod hbs = 0"
  shows "\<exists>v. BlockHashListWithBlockSize hs hbs tbs = Inr v \<and>
     bhl_length v = length hs div (tbs div hbs) \<and>
     (\<forall>i < bhl_length v. bhl_get v i = Inr (bhl_values v ! i)) \<and>
     concat (bhl_values v) = concat (take (bhl_length v * (tbs div hbs)) hs)"
proof -
  let ?k = "tbs div hbs"
  have k: "0 < ?k" using assms by (auto simp: div_greater_zero_iff mod_eq_0_iff_dvd dest: dvd_imp_le)
  have eq: "map (merged_hash hs ?k) [0..<length hs div ?k] = map (\<lambda>i. concat (py_slice (i * ?k) (i * ?k + ?k) hs)) [0..<length hs div ?k]"
    using merged_hash_slice [OF k chunk_end] by (intro map_cong) auto
  have "concat (map (merged_hash hs ?k) [0..<length hs div ?k]) = concat (take (length hs div ?k * ?k) hs)"
    unfolding eq using arg_cong [OF take_chunks [of "length hs div ?k" ?k hs], of concat] by (simp add: concat_map_concat)
  then show ?thesis using k assms(3) bhl_get_values [OF k, of _ hs]
    by (simp add: BlockHashListWithBlockSize_def)
qed

theorem scaled_hash_view_witness:
  "\<exists>v. BlockHashListWithBlockSize [[1], [2], [3], [4], [5]] 16 32 = Inr v \<and>
     bhl_get v 1 = Inr [3, 4] \<and> concat (bhl_values v) = [1, 2, 3, 4]"
  using scaled_hash_view [of 16 32 "[[1], [2], [3], [4], [5]]"]
  by (force simp: BlockHashListWithBlockSize_def get_value_at_def merged_hash_def upt_conv_Cons)

end
