(* ===== verification/Block_Pool.thy ===== *)
theory Block_Pool
  imports Block_Map Block_Hash
begin

text \<open>
  \<^verbatim>\<open>vllm/v1/core/block_pool.py\<close>, class \<^verbatim>\<open>BlockPool\<close>: allocation, reference
  counting, freeing, caching and eviction of KV-cache blocks. The block objects live in the
  store of the free queue; \<open>blk p b\<close> reads one.

  The optional \<^verbatim>\<open>metrics_collector\<close> only observes and is taken to be \<^verbatim>\<open>None\<close>; the
  environment flag read by \<^verbatim>\<open>maybe_convert_block_hash\<close> is a field of the model.
\<close>

section \<open>Model\<close>

datatype kv_cache_event =
    BlockStored "external_block_hash list" "external_block_hash option" "int list" nat
      "int option" "string option" "extra_key list option list option"
  | BlockRemoved "external_block_hash list"
  | AllBlocksCleared

record block_pool =
  free_block_queue :: free_queue
  cached_block_hash_to_block :: block_map
  num_gpu_blocks :: int
  enable_caching :: bool
  hash_block_size :: nat
  blocks :: "block_ref list"
  null_block :: block_ref
  enable_kv_cache_events :: bool
  kv_event_queue :: "kv_cache_event list"
  use_int_block_hashes :: bool

abbreviation blk :: "block_pool \<Rightarrow> block_ref \<Rightarrow> kv_cache_block" where
  "blk p b \<equiv> cells (free_block_queue p) b"

definition upd_blk :: "block_ref \<Rightarrow> (kv_cache_block \<Rightarrow> kv_cache_block) \<Rightarrow> block_pool \<Rightarrow> block_pool" where
  "upd_blk b f p = p\<lparr>free_block_queue := (free_block_queue p)
      \<lparr>cells := (cells (free_block_queue p))(b := f (cells (free_block_queue p) b))\<rparr>\<rparr>"

definition BlockPool :: "int \<Rightarrow> bool \<Rightarrow> nat \<Rightarrow> bool \<Rightarrow> bool \<Rightarrow> block_pool res" where
  "BlockPool n caching hbs events use_int =
     (if n \<le> 0 then Inl AssertionError
      else
        let bs = map Blk [0..<nat n] in
        rbind (popleft (FreeKVCacheBlockQueue bs fresh_blocks)) (\<lambda>(nb, q).
          Inr (upd_blk nb (\<lambda>b. b\<lparr>is_null := True\<rparr>)
            \<lparr>free_block_queue = q, cached_block_hash_to_block = [], num_gpu_blocks = n,
             enable_caching = caching, hash_block_size = hbs, blocks = bs, null_block = nb,
             enable_kv_cache_events = events, kv_event_queue = [], use_int_block_hashes = use_int\<rparr>)))"

text \<open>Looking up one hash in several groups: the loop returns at the first miss.\<close>

fun get_cached_block :: "block_pool \<Rightarrow> bytes \<Rightarrow> int list \<Rightarrow> block_ref list option res" where
  "get_cached_block p h [] = Inr (Some [])"
| "get_cached_block p h (g # gs) =
     rbind (make_block_hash_with_group_id h g) (\<lambda>key.
       rbind (get_one_block (cached_block_hash_to_block p) key) (\<lambda>hit.
         case hit of
           None \<Rightarrow> Inr None
         | Some b \<Rightarrow> rbind (get_cached_block p h gs) (\<lambda>rest. Inr (map_option ((#) b) rest))))"

subsection \<open>Caching full blocks\<close>

definition cache_one :: "int \<Rightarrow> bytes \<Rightarrow> block_ref \<Rightarrow> block_pool \<Rightarrow> block_pool res" where
  "cache_one gid h b p =
     rbind (make_block_hash_with_group_id h gid) (\<lambda>key.
       rbind (set_block_hash key (blk p b)) (\<lambda>b'.
         let p1 = upd_blk b (\<lambda>_. b') p
         in Inr (p1\<lparr>cached_block_hash_to_block :=
                insert_block (\<lambda>c. block_id (blk p1 c)) key b (cached_block_hash_to_block p1)\<rparr>)))"

fun cache_loop ::
  "int \<Rightarrow> bytes list \<Rightarrow> nat \<Rightarrow> block_ref list \<Rightarrow> external_block_hash list \<Rightarrow> block_pool \<Rightarrow>
   (external_block_hash list \<times> block_pool) res" where
  "cache_loop gid hs i [] new_hashes p = Inr (new_hashes, p)"
| "cache_loop gid hs i (b # bs) new_hashes p =
     (if is_null (blk p b) then cache_loop gid hs (i + 1) bs new_hashes p
      else if block_hash (blk p b) \<noteq> None then Inl AssertionError
      else if length hs \<le> i then Inl IndexError
      else rbind (cache_one gid (hs ! i) b p) (\<lambda>p'.
             cache_loop gid hs (i + 1) bs
               (if enable_kv_cache_events p
                then new_hashes @ [maybe_convert_block_hash (use_int_block_hashes p) (hs ! i)] else new_hashes) p'))"

text \<open>The extra keys reported with a \<^verbatim>\<open>BlockStored\<close> event.\<close>

fun event_keys_loop ::
  "(bytes \<Rightarrow> bytes) \<Rightarrow> block_pool \<Rightarrow> block_ref list \<Rightarrow> nat \<Rightarrow> nat list \<Rightarrow> int \<Rightarrow>
   extra_key list option list \<Rightarrow> request \<Rightarrow> (extra_key list option list \<times> request) res" where
  "event_keys_loop sha256 p bs block_size [] mm_idx acc r = Inr (acc, r)"
| "event_keys_loop sha256 p bs block_size (i # is) mm_idx acc r =
     (if length bs \<le> i then Inl IndexError
      else if is_null (blk p (bs ! i)) then event_keys_loop sha256 p bs block_size is mm_idx acc r
      else
        rbind (generate_block_hash_extra_keys sha256 r (int (i * block_size)) (int (i * block_size + block_size)) mm_idx)
          (\<lambda>(keys, mm_idx', r').
             event_keys_loop sha256 p bs block_size is mm_idx' (acc @ [keys]) r'))"

definition block_hashes_for :: "nat \<Rightarrow> nat \<Rightarrow> bytes list \<Rightarrow> block_hash_list res" where
  "block_hashes_for hbs block_size hs =
     (if block_size = hbs then Inr (PlainHashes hs)
      else if block_size mod hbs \<noteq> 0 then Inl AssertionError
      else BlockHashListWithBlockSize hs hbs block_size)"

definition cache_full_blocks ::
  "(bytes \<Rightarrow> bytes) \<Rightarrow> request \<Rightarrow> block_ref list \<Rightarrow> nat \<Rightarrow> nat \<Rightarrow> nat \<Rightarrow> int \<Rightarrow> block_pool \<Rightarrow>
   (block_pool \<times> request) res" where
  "cache_full_blocks sha256 r bs num_cached num_full block_size gid p =
     (if num_full \<le> num_cached then Inr (p, r)
      else if length (block_hashes r) < num_full then Inl AssertionError
      else
        rbind (block_hashes_for (hash_block_size p) block_size (block_hashes r)) (\<lambda>bhl.
        rbind (cache_loop gid (drop num_cached (bhl_values bhl)) 0 (py_slice num_cached num_full bs) [] p)
          (\<lambda>(new_hashes, p').
        if \<not> enable_kv_cache_events p then Inr (p', r)
        else
          rbind (if num_cached = 0 then Inr None
                 else rbind (bhl_get bhl (num_cached - 1))
                        (\<lambda>h. Inr (Some (maybe_convert_block_hash (use_int_block_hashes p) h)))) (\<lambda>parent.
          rbind (event_keys_loop sha256 p' bs block_size [num_cached..<num_full] 0 [] r) (\<lambda>(keys, r').
          Inr (p'\<lparr>kv_event_queue := kv_event_queue p' @
                 [BlockStored new_hashes parent
                    (py_slice (num_cached * block_size) (num_full * block_size) (all_token_ids r))
                    block_size (map_option lora_int_id (lora_request r)) (map_option lora_name (lora_request r))
                    (if keys = [] then None else Some keys)]\<rparr>, r'))))))"

subsection \<open>Allocation and eviction\<close>

definition get_num_free_blocks :: "block_pool \<Rightarrow> int" where
  "get_num_free_blocks p = num_free_blocks (free_block_queue p)"

definition maybe_evict_cached_block :: "block_ref \<Rightarrow> block_pool \<Rightarrow> bool \<times> block_pool" where
  "maybe_evict_cached_block b p =
     (case block_hash (blk p b) of
        None \<Rightarrow> (False, p)
      | Some key \<Rightarrow>
          (case pop_block (\<lambda>c. block_id (blk p c)) key (block_id (blk p b)) (cached_block_hash_to_block p) of
             (None, m) \<Rightarrow> (False, p\<lparr>cached_block_hash_to_block := m\<rparr>)
           | (Some _, m) \<Rightarrow>
               let p1 = upd_blk b reset_hash (p\<lparr>cached_block_hash_to_block := m\<rparr>) in
               (True,
                if enable_kv_cache_events p
                then p1\<lparr>kv_event_queue := kv_event_queue p1 @
                       [BlockRemoved [maybe_convert_block_hash (use_int_block_hashes p) (get_block_hash key)]]\<rparr>
                else p1)))"

definition alloc_step :: "block_ref \<Rightarrow> block_pool \<Rightarrow> block_pool res" where
  "alloc_step b p =
     (let p1 = (if enable_caching p then snd (maybe_evict_cached_block b p) else p) in
      if ref_cnt (blk p1 b) = 0 then Inr (upd_blk b (\<lambda>x. x\<lparr>ref_cnt := ref_cnt x + 1\<rparr>) p1)
      else Inl AssertionError)"

definition get_new_blocks :: "int \<Rightarrow> block_pool \<Rightarrow> (block_ref list \<times> block_pool) res" where
  "get_new_blocks n p =
     (if get_num_free_blocks p < n then Inl ValueError
      else
        rbind (popleft_n n (free_block_queue p)) (\<lambda>(ret, q).
        rbind (fold_res alloc_step ret (p\<lparr>free_block_queue := q\<rparr>)) (\<lambda>p'.
        Inr (ret, p'))))"

definition touch_step :: "block_ref \<Rightarrow> block_pool \<Rightarrow> block_pool res" where
  "touch_step b p =
     rbind (if ref_cnt (blk p b) = 0 \<and> \<not> is_null (blk p b)
            then rbind (remove b (free_block_queue p)) (\<lambda>q. Inr (p\<lparr>free_block_queue := q\<rparr>)) else Inr p)
       (\<lambda>p1. Inr (upd_blk b (\<lambda>x. x\<lparr>ref_cnt := ref_cnt x + 1\<rparr>) p1))"

definition touch :: "block_ref list \<Rightarrow> block_pool \<Rightarrow> block_pool res" where
  "touch bs p = fold_res touch_step bs p"

definition decr_step :: "block_ref \<Rightarrow> block_pool \<Rightarrow> block_pool" where
  "decr_step b p = upd_blk b (\<lambda>x. x\<lparr>ref_cnt := ref_cnt x - 1\<rparr>) p"

definition free_blocks :: "block_ref list \<Rightarrow> block_pool \<Rightarrow> block_pool res" where
  "free_blocks bs p =
     (let p1 = fold decr_step bs p in
      rbind (append_n (filter (\<lambda>b. ref_cnt (blk p1 b) = 0 \<and> \<not> is_null (blk p1 b)) bs) (free_block_queue p1))
        (\<lambda>q. Inr (p1\<lparr>free_block_queue := q\<rparr>)))"

text \<open>
  The set of ids is given in the order in which Python iterates over it; a negative id
  indexes from the end.
\<close>

definition evict_step :: "int \<Rightarrow> block_pool \<Rightarrow> block_pool res" where
  "evict_step i p =
     (let n = int (length (blocks p)) in
      if n \<le> i then Inl AssertionError
      else if i < - n then Inl IndexError
      else Inr (snd (maybe_evict_cached_block (blocks p ! nat (if i < 0 then i + n else i)) p)))"

definition evict_blocks :: "int list \<Rightarrow> block_pool \<Rightarrow> block_pool res" where
  "evict_blocks ids p = fold_res evict_step ids p"

definition reset_prefix_cache :: "block_pool \<Rightarrow> bool \<times> block_pool" where
  "reset_prefix_cache p =
     (if num_gpu_blocks p - get_num_free_blocks p \<noteq> 1 then (False, p)
      else
        let p1 = fold (\<lambda>b. upd_blk b reset_hash) (blocks p) (p\<lparr>cached_block_hash_to_block := []\<rparr>)
        in (True, if enable_kv_cache_events p
                  then p1\<lparr>kv_event_queue := kv_event_queue p1 @ [AllBlocksCleared]\<rparr> else p1))"

definition get_usage :: "block_pool \<Rightarrow> real" where
  "get_usage p =
     (let total = num_gpu_blocks p - 1
      in if total = 0 then 0 else 1 - real_of_int (get_num_free_blocks p) / real_of_int total)"

definition take_events :: "block_pool \<Rightarrow> kv_cache_event list \<times> block_pool" where
  "take_events p =
     (if \<not> enable_kv_cache_events p then ([], p) else (kv_event_queue p, p\<lparr>kv_event_queue := []\<rparr>))"


section \<open>Invariant\<close>

text \<open>
  What the clients of the pool see of it: reference counts and hashes of the blocks, and
  the part that never changes.
\<close>

definition refs :: "block_pool \<Rightarrow> block_ref \<Rightarrow> int" where
  "refs p b = ref_cnt (blk p b)"

definition hashes :: "block_pool \<Rightarrow> block_ref \<Rightarrow> bytes option" where
  "hashes p b = block_hash (blk p b)"

definition same_pool :: "block_pool \<Rightarrow> block_pool \<Rightarrow> bool" where
  "same_pool p p' \<longleftrightarrow> blocks p' = blocks p \<and> null_block p' = null_block p \<and>
     num_gpu_blocks p' = num_gpu_blocks p \<and> enable_caching p' = enable_caching p \<and>
     hash_block_size p' = hash_block_size p \<and> enable_kv_cache_events p' = enable_kv_cache_events p \<and>
     use_int_block_hashes p' = use_int_block_hashes p \<and>
     (\<forall>b. block_id (blk p' b) = block_id (blk p b) \<and> is_null (blk p' b) = is_null (blk p b))"

lemma same_pool_refl [simp, intro]: "same_pool p p"
  by (simp add: same_pool_def)

lemma same_pool_trans [trans]: "same_pool p p' \<Longrightarrow> same_pool p' p'' \<Longrightarrow> same_pool p p''"
  by (simp add: same_pool_def)

text \<open>
  The pool is a table of \<open>n\<close> blocks whose first one is the null block; the index holds a block
  under a key exactly if the block carries that key as its hash.
\<close>

definition pool_table :: "block_pool \<Rightarrow> bool" where
  "pool_table p \<longleftrightarrow> 0 < num_gpu_blocks p \<and> blocks p = map Blk [0..<nat (num_gpu_blocks p)] \<and>
     null_block p = Blk 0 \<and>
     (\<forall>i. block_id (blk p (Blk i)) = int i) \<and> (\<forall>i. is_null (blk p (Blk i)) \<longleftrightarrow> i = 0)"

definition pool_index :: "block_pool \<Rightarrow> bool" where
  "pool_index p \<longleftrightarrow> bm_ok (\<lambda>b. block_id (blk p b)) (cached_block_hash_to_block p) \<and>
     (\<forall>key b. b \<in> set (bm_blocks (cached_block_hash_to_block p) key) \<longleftrightarrow>
        b \<in> set (blocks p) \<and> b \<noteq> null_block p \<and> hashes p b = Some key) \<and>
     hashes p (null_block p) = None"

text \<open>The free list holds exactly the blocks, other than the null block, that nobody references.\<close>

definition pool_free :: "block_pool \<Rightarrow> block_ref list \<Rightarrow> bool" where
  "pool_free p xs \<longleftrightarrow> free_rep (free_block_queue p) xs \<and>
     (\<forall>b. b \<in> set xs \<longleftrightarrow> b \<in> set (blocks p) \<and> b \<noteq> null_block p \<and> refs p b = 0) \<and>
     (\<forall>b \<in> set (blocks p). b \<noteq> null_block p \<longrightarrow> 0 \<le> refs p b)"

definition pool_rep :: "block_pool \<Rightarrow> block_ref list \<Rightarrow> bool" where
  "pool_rep p xs \<longleftrightarrow> pool_table p \<and> pool_index p \<and> pool_free p xs"

definition pool_inv :: "block_pool \<Rightarrow> bool" where
  "pool_inv p \<longleftrightarrow> (\<exists>xs. pool_rep p xs)"

lemma pool_table_same: "pool_table p \<Longrightarrow> same_pool p p' \<Longrightarrow> pool_table p'"
  by (auto simp: pool_table_def same_pool_def)

lemma pool_tableD:
  assumes "pool_table p"
  shows "b \<in> set (blocks p) \<Longrightarrow> is_null (blk p b) \<longleftrightarrow> b = null_block p"
    and "b \<in> set (blocks p) \<Longrightarrow> b \<in> range Blk" "null_block p \<in> set (blocks p)"
    and "b \<in> set (blocks p) \<Longrightarrow> c \<in> set (blocks p) \<Longrightarrow> block_id (blk p b) = block_id (blk p c) \<longleftrightarrow> b = c"
    and "distinct (blocks p)" "int (length (blocks p)) = num_gpu_blocks p"
  using assms by (auto simp: pool_table_def distinct_map inj_on_def)

lemma pool_repD:
  assumes "pool_rep p xs"
  shows "pool_table p" "pool_index p" "pool_free p xs" "free_rep (free_block_queue p) xs" "distinct xs"
    "b \<in> set xs \<longleftrightarrow> b \<in> set (blocks p) \<and> b \<noteq> null_block p \<and> refs p b = 0"
    "get_num_free_blocks p = int (length xs)" "set xs \<subseteq> set (blocks p)" "set xs \<subseteq> range Blk"
  using assms free_repD(4,7,8) [of "free_block_queue p" xs]
  by (auto simp: pool_rep_def pool_free_def get_num_free_blocks_def)

subsection \<open>Updates of one block\<close>

lemma blk_upd: "blk (upd_blk b f p) c = (if c = b then f (blk p b) else blk p c)"
  by (simp add: upd_blk_def)

lemma upd_blk_frame [simp]:
  "blocks (upd_blk b f p) = blocks p" "null_block (upd_blk b f p) = null_block p"
  "num_gpu_blocks (upd_blk b f p) = num_gpu_blocks p" "enable_caching (upd_blk b f p) = enable_caching p"
  "hash_block_size (upd_blk b f p) = hash_block_size p"
  "enable_kv_cache_events (upd_blk b f p) = enable_kv_cache_events p"
  "use_int_block_hashes (upd_blk b f p) = use_int_block_hashes p"
  "cached_block_hash_to_block (upd_blk b f p) = cached_block_hash_to_block p"
  "kv_event_queue (upd_blk b f p) = kv_event_queue p"
  "num_free_blocks (free_block_queue (upd_blk b f p)) = num_free_blocks (free_block_queue p)"
  by (simp_all add: upd_blk_def)

lemma free_rep_upd:
  assumes "free_rep (free_block_queue p) xs"
    and "prev_free_block (f (blk p b)) = prev_free_block (blk p b)" "next_free_block (f (blk p b)) = next_free_block (blk p b)"
  shows "free_rep (free_block_queue (upd_blk b f p)) xs"
  using assms(1) by (rule free_rep_cong) (auto simp: assms blk_upd)

lemma same_pool_upd:
  assumes "block_id (f (blk p b)) = block_id (blk p b)" "is_null (f (blk p b)) = is_null (blk p b)"
  shows "same_pool p (upd_blk b f p)"
  using assms by (simp add: same_pool_def blk_upd)

text \<open>A change of the queue that keeps the metadata is invisible in counts and hashes.\<close>

lemma with_queue_meta:
  assumes "metadata q = metadata (free_block_queue p)"
  shows "refs (p\<lparr>free_block_queue := q\<rparr>) = refs p" "hashes (p\<lparr>free_block_queue := q\<rparr>) = hashes p"
    "same_pool p (p\<lparr>free_block_queue := q\<rparr>)"
  using metadata_eqD [OF fun_cong [OF assms]]
  by (auto simp: refs_def hashes_def same_pool_def fun_eq_iff)

lemma pool_index_cong:
  assumes "pool_index p" "same_pool p p'" "hashes p' = hashes p"
    "cached_block_hash_to_block p' = cached_block_hash_to_block p"
  shows "pool_index p'"
  using assms by (auto simp: pool_index_def same_pool_def)

lemma events_frame [simp]:
  "refs (p\<lparr>kv_event_queue := evs\<rparr>) = refs p" "hashes (p\<lparr>kv_event_queue := evs\<rparr>) = hashes p"
  "pool_rep (p\<lparr>kv_event_queue := evs\<rparr>) xs = pool_rep p xs"
  by (simp_all add: refs_def hashes_def pool_rep_def pool_table_def pool_index_def pool_free_def fun_eq_iff)

lemma refs_upd: "refs (upd_blk b f p) = (refs p)(b := ref_cnt (f (blk p b)))"
  by (auto simp: refs_def blk_upd)

lemma hashes_upd: "hashes (upd_blk b f p) = (hashes p)(b := block_hash (f (blk p b)))"
  by (auto simp: hashes_def blk_upd)


subsection \<open>Every operation keeps the invariant\<close>

lemma fresh_pool_cells:
  assumes "0 < n" "popleft (FreeKVCacheBlockQueue (map Blk [0..<n]) fresh_blocks) = Inr (nb, q)"
  shows "nb = Blk 0 \<and> free_rep q (map Blk [1..<n]) \<and>
    (\<forall>i. ref_cnt (cells q (Blk i)) = 0 \<and> block_hash (cells q (Blk i)) = None \<and>
         block_id (cells q (Blk i)) = int i \<and> \<not> is_null (cells q (Blk i)))"
proof -
  let ?q0 = "FreeKVCacheBlockQueue (map Blk [0..<n]) fresh_blocks"
  have dist: "distinct (map Blk [0..<n])" "set (map Blk [0..<n]) \<subseteq> range Blk"
    by (auto simp: distinct_map inj_on_def)
  have split: "map Blk [0..<n] = Blk 0 # map Blk [1..<n]" using assms(1) by (simp add: upt_conv_Cons)
  have rep: "free_rep ?q0 (Blk 0 # map Blk [1..<n])" using fresh_queue_rep [OF dist] unfolding split .
  from popleft_refines [OF rep] assms(2) have q: "nb = Blk 0" "free_rep q (map Blk [1..<n])" "metadata q = metadata ?q0"
    by auto
  have "metadata ?q0 (Blk i) = KVCacheBlock (int i)" for i
    using FreeKVCacheBlockQueue_refines [OF dist, of fresh_blocks] by (simp add: fresh_blocks_def KVCacheBlock_def)
  then have meta: "metadata q (Blk i) = KVCacheBlock (int i)" for i using q(3) by simp
  have "ref_cnt (cells q (Blk i)) = 0 \<and> block_hash (cells q (Blk i)) = None \<and>
         block_id (cells q (Blk i)) = int i \<and> \<not> is_null (cells q (Blk i))" for i
    using meta [of i] by (cases "cells q (Blk i)") (simp add: metadata_def KVCacheBlock_def)
  with q show ?thesis by blast
qed

lemma BlockPool_spec:
  assumes "0 < n"
  shows "\<exists>p. BlockPool n caching hbs events use_int = Inr p \<and> pool_rep p (map Blk [1..<nat n]) \<and>
    (\<forall>b \<in> set (blocks p). refs p b = 0 \<and> hashes p b = None) \<and> num_gpu_blocks p = n \<and>
    enable_caching p = caching \<and> hash_block_size p = hbs \<and> enable_kv_cache_events p = events"
proof -
  let ?bs = "map Blk [0..<nat n]"
  have n: "0 < nat n" using assms by simp
  have "free_rep (FreeKVCacheBlockQueue ?bs fresh_blocks) ?bs"
    by (rule fresh_queue_rep) (auto simp: distinct_map inj_on_def)
  moreover have "?bs = Blk 0 # map Blk [1..<nat n]" using n by (simp add: upt_conv_Cons)
  ultimately obtain nb q where pop: "popleft (FreeKVCacheBlockQueue ?bs fresh_blocks) = Inr (nb, q)"
    using popleft_refines by metis
  note q = fresh_pool_cells [OF n pop]
  let ?p0 = "\<lparr>free_block_queue = q, cached_block_hash_to_block = [], num_gpu_blocks = n,
             enable_caching = caching, hash_block_size = hbs, blocks = ?bs, null_block = nb,
             enable_kv_cache_events = events, kv_event_queue = [], use_int_block_hashes = use_int\<rparr>"
  let ?p = "upd_blk nb (\<lambda>b. b\<lparr>is_null := True\<rparr>) ?p0"
  have init: "BlockPool n caching hbs events use_int = Inr ?p" using assms pop by (simp add: BlockPool_def)
  have zero: "refs ?p (Blk i) = 0" "hashes ?p (Blk i) = None" for i
    using q by (auto simp: refs_def hashes_def blk_upd)
  have "pool_table ?p" using assms q by (auto simp: pool_table_def blk_upd)
  moreover have "pool_index ?p" using q zero by (auto simp: pool_index_def)
  moreover have "free_rep (free_block_queue ?p) (map Blk [1..<nat n])" by (rule free_rep_upd) (use q in simp_all)
  moreover have "b \<in> set (map Blk [1..<nat n]) \<longleftrightarrow> b \<in> set ?bs \<and> b \<noteq> nb" for b using q by auto
  ultimately have "pool_rep ?p (map Blk [1..<nat n])" using zero by (auto simp: pool_rep_def pool_free_def)
  with init zero show ?thesis by auto
qed

text \<open>
  Evicting a block from the index: it loses its hash and its entry, nothing else changes.
  Stated without the free list, because the pool evicts blocks it has just popped.
\<close>

lemma maybe_evict_spec:
  assumes "pool_table p" "pool_index p" "free_rep (free_block_queue p) xs" "b \<in> set (blocks p)"
    and "maybe_evict_cached_block b p = (ev, p')"
  shows "pool_index p' \<and> free_rep (free_block_queue p') xs \<and> same_pool p p' \<and> refs p' = refs p \<and>
    hashes p' = (hashes p)(b := None) \<and> (ev \<longleftrightarrow> hashes p b \<noteq> None)"
proof (cases "block_hash (blk p b)")
  case None
  then show ?thesis using assms by (auto simp: maybe_evict_cached_block_def hashes_def)
next
  case (Some key)
  let ?ids = "\<lambda>c. block_id (blk p c)" and ?m = "cached_block_hash_to_block p"
  have idx: "bm_ok ?ids ?m" "\<And>key c. c \<in> set (bm_blocks ?m key) \<longleftrightarrow> c \<in> set (blocks p) \<and> c \<noteq> null_block p \<and> hashes p c = Some key"
    "hashes p (null_block p) = None" using assms(2) by (auto simp: pool_index_def)
  have b: "b \<in> set (bm_blocks ?m key)" using Some assms(4) idx by (auto simp: hashes_def)
  obtain m where m: "pop_block ?ids key (?ids b) ?m = (Some b, m)"
    using bm.del_member [OF idx(1) b] by (cases "pop_block ?ids key (?ids b) ?m") auto
  have stored: "set (bm_blocks m key') = set (bm_blocks ?m key') - {b}" for key'
    using bm.del_member [OF idx(1) b] bm.del_stored [OF idx(1), of key "?ids b" key'] m b idx(2) by (cases "key' = key") auto
  let ?p1 = "upd_blk b reset_hash (p\<lparr>cached_block_hash_to_block := m\<rparr>)"
  have "p' = ?p1\<lparr>kv_event_queue := kv_event_queue p'\<rparr>" "ev"
    using assms(5) Some m by (auto simp: maybe_evict_cached_block_def Let_def upd_blk_def split: if_splits)
  then obtain evs where p': "p' = ?p1\<lparr>kv_event_queue := evs\<rparr>" "ev" by blast
  have view: "blk p' c = (if c = b then reset_hash (blk p b) else blk p c)" "cached_block_hash_to_block p' = m" for c
    by (simp_all add: p' blk_upd)
  have same: "same_pool p p'" unfolding same_pool_def view by (simp add: p' reset_hash_def)
  have h: "hashes p' = (hashes p)(b := None)" "refs p' = refs p"
    by (auto simp: hashes_def refs_def view fun_eq_iff reset_hash_def)
  have "bm_ok ?ids m" using bm.del_ok [OF idx(1), of key "?ids b"] m by simp
  then have "pool_index p'" using same idx stored h by (auto simp: pool_index_def same_pool_def view)
  moreover have "free_rep (free_block_queue p') xs"
    using assms(3) by (rule free_rep_cong) (simp_all add: view reset_hash_def, simp add: p')
  ultimately show ?thesis using same h p'(2) Some by (auto simp: hashes_def)
qed


lemma alloc_step_spec:
  assumes "pool_table p" "pool_index p" "free_rep (free_block_queue p) xs" "b \<in> set (blocks p)" "refs p b = 0"
  shows "\<exists>p'. alloc_step b p = Inr p' \<and> pool_index p' \<and> free_rep (free_block_queue p') xs \<and> same_pool p p' \<and>
    refs p' = (refs p)(b := 1) \<and> hashes p' = (if enable_caching p then (hashes p)(b := None) else hashes p)"
proof -
  obtain ev p1 where ev: "maybe_evict_cached_block b p = (ev, p1)" by fastforce
  define p2 where "p2 = (if enable_caching p then p1 else p)"
  have p2: "pool_index p2" "free_rep (free_block_queue p2) xs" "same_pool p p2" "refs p2 = refs p"
    "hashes p2 = (if enable_caching p then (hashes p)(b := None) else hashes p)"
    using maybe_evict_spec [OF assms(1-4) ev] assms(2,3) by (auto simp: p2_def)
  let ?p' = "upd_blk b (\<lambda>x. x\<lparr>ref_cnt := ref_cnt x + 1\<rparr>) p2"
  have one: "ref_cnt (blk p2 b) = 0" using p2(4) assms(5) by (metis refs_def)
  have "alloc_step b p = Inr ?p'" using one ev by (auto simp: alloc_step_def p2_def Let_def)
  moreover have same: "same_pool p2 ?p'" by (rule same_pool_upd) simp_all
  moreover have "hashes ?p' = hashes p2" by (auto simp: hashes_upd hashes_def)
  moreover have "pool_index ?p'" by (rule pool_index_cong [OF p2(1) same]) (auto simp: hashes_upd hashes_def)
  moreover have "free_rep (free_block_queue ?p') xs" by (rule free_rep_upd [OF p2(2)]) simp_all
  moreover have "refs ?p' = (refs p)(b := 1)" by (simp add: refs_upd one p2(4))
  ultimately show ?thesis using p2(3,5) same_pool_trans by (metis (no_types, lifting))
qed

lemma alloc_loop_spec:
  assumes "pool_table p" "pool_index p" "free_rep (free_block_queue p) xs" "distinct bs" "set bs \<subseteq> set (blocks p)"
    "\<forall>b \<in> set bs. refs p b = 0"
  shows "\<exists>p'. fold_res alloc_step bs p = Inr p' \<and> pool_index p' \<and> free_rep (free_block_queue p') xs \<and> same_pool p p' \<and>
    refs p' = (\<lambda>b. if b \<in> set bs then 1 else refs p b) \<and>
    hashes p' = (\<lambda>b. if enable_caching p \<and> b \<in> set bs then None else hashes p b)"
  using assms
proof (induction bs arbitrary: p)
  case (Cons b bs)
  from alloc_step_spec [OF Cons.prems(1-3), of b] Cons.prems(5,6) obtain p1 where
    p1: "alloc_step b p = Inr p1" "pool_index p1" "free_rep (free_block_queue p1) xs" "same_pool p p1"
      "refs p1 = (refs p)(b := 1)" "hashes p1 = (if enable_caching p then (hashes p)(b := None) else hashes p)" by auto
  have "\<exists>p'. fold_res alloc_step bs p1 = Inr p' \<and> pool_index p' \<and> free_rep (free_block_queue p') xs \<and> same_pool p1 p' \<and>
    refs p' = (\<lambda>b. if b \<in> set bs then 1 else refs p1 b) \<and>
    hashes p' = (\<lambda>b. if enable_caching p1 \<and> b \<in> set bs then None else hashes p1 b)"
    by (rule Cons.IH [OF pool_table_same [OF Cons.prems(1) p1(4)] p1(2,3)])
       (use Cons.prems p1(4,5) in \<open>auto simp: same_pool_def\<close>)
  then obtain p' where p': "fold_res alloc_step bs p1 = Inr p'" "pool_index p'" "free_rep (free_block_queue p') xs"
    "same_pool p1 p'" "refs p' = (\<lambda>b. if b \<in> set bs then 1 else refs p1 b)"
    "hashes p' = (\<lambda>b. if enable_caching p1 \<and> b \<in> set bs then None else hashes p1 b)" by auto
  have "enable_caching p1 = enable_caching p" using p1(4) by (simp add: same_pool_def)
  with p1 p' same_pool_trans [OF p1(4) p'(4)] show ?case
    by (intro exI [of _ p']) (auto simp: fun_eq_iff)
qed auto

text \<open>Allocation takes blocks from the front of the free list and drops their hashes.\<close>

lemma get_new_blocks_spec:
  assumes "pool_rep p (zs @ ys)"
  shows "\<exists>p'. get_new_blocks (int (length zs)) p = Inr (zs, p') \<and> pool_rep p' ys \<and> same_pool p p' \<and>
    refs p' = (\<lambda>b. if b \<in> set zs then 1 else refs p b) \<and>
    hashes p' = (\<lambda>b. if enable_caching p \<and> b \<in> set zs then None else hashes p b)"
proof -
  note pD = pool_repD [OF assms]
  from popleft_n_refines [OF pD(4)] obtain q where
    q: "popleft_n (int (length zs)) (free_block_queue p) = Inr (zs, q)" "free_rep q ys"
      "metadata q = metadata (free_block_queue p)" by auto
  let ?p1 = "p\<lparr>free_block_queue := q\<rparr>"
  note m = with_queue_meta [OF q(3)]
  have idx: "pool_index ?p1" by (rule pool_index_cong [OF pD(2) m(3,2)]) simp
  have "\<exists>p'. fold_res alloc_step zs ?p1 = Inr p' \<and> pool_index p' \<and> free_rep (free_block_queue p') ys \<and> same_pool ?p1 p' \<and>
    refs p' = (\<lambda>b. if b \<in> set zs then 1 else refs ?p1 b) \<and>
    hashes p' = (\<lambda>b. if enable_caching ?p1 \<and> b \<in> set zs then None else hashes ?p1 b)"
    by (rule alloc_loop_spec [OF pool_table_same [OF pD(1) m(3)] idx])
       (use q(2) pD(5) pD(6) m in auto)
  then obtain p' where p': "fold_res alloc_step zs ?p1 = Inr p'" "pool_index p'" "free_rep (free_block_queue p') ys"
    "same_pool ?p1 p'" "refs p' = (\<lambda>b. if b \<in> set zs then 1 else refs p b)"
    "hashes p' = (\<lambda>b. if enable_caching p \<and> b \<in> set zs then None else hashes p b)"
    unfolding m(1,2) by auto
  have same: "same_pool p p'" using m(3) p'(4) by (rule same_pool_trans)
  have "pool_free p' ys"
    unfolding pool_free_def
  proof (intro conjI allI ballI)
    have st: "blocks p' = blocks p" "null_block p' = null_block p" using same by (simp_all add: same_pool_def)
    show "b \<in> set ys \<longleftrightarrow> b \<in> set (blocks p') \<and> b \<noteq> null_block p' \<and> refs p' b = 0" for b
      using pD(5,6) p'(5) st by auto
    show "b \<noteq> null_block p' \<longrightarrow> 0 \<le> refs p' b" if "b \<in> set (blocks p')" for b
      using pD(3) p'(5) st that by (auto simp: pool_free_def)
  qed (rule p'(3))
  moreover have "get_new_blocks (int (length zs)) p = Inr (zs, p')"
    using q(1) p'(1) pD(7) by (simp add: get_new_blocks_def)
  ultimately show ?thesis
    using p'(2,5,6) same pool_table_same [OF pD(1) same] by (auto simp: pool_rep_def)
qed

lemma get_new_blocks_short:
  "pool_rep p xs \<Longrightarrow> int (length xs) < n \<Longrightarrow> get_new_blocks n p = Inl ValueError"
  using pool_repD(7) [of p xs] by (simp add: get_new_blocks_def)


lemma touch_step_spec:
  assumes "pool_rep p xs" "b \<in> set (blocks p)"
  shows "\<exists>p'. touch_step b p = Inr p' \<and> pool_rep p' (removeAll b xs) \<and> same_pool p p' \<and>
    refs p' = (refs p)(b := refs p b + 1) \<and> hashes p' = hashes p"
proof -
  note pD = pool_repD [OF assms(1)]
  let ?free = "ref_cnt (blk p b) = 0 \<and> \<not> is_null (blk p b)"
  have free_iff: "?free \<longleftrightarrow> b \<in> set xs"
    using pD(6) [of b] pool_tableD(1) [OF pD(1) assms(2)] assms(2) by (auto simp: refs_def)
  have "\<exists>q. (if ?free then remove b (free_block_queue p) else Inr (free_block_queue p)) = Inr q \<and>
      free_rep q (removeAll b xs) \<and> metadata q = metadata (free_block_queue p)"
  proof (cases "b \<in> set xs")
    case True
    then obtain us vs where xs: "xs = us @ b # vs" by (meson split_list)
    with pD(5) have "removeAll b xs = us @ vs" by auto
    with remove_refines [of "free_block_queue p" us b vs] pD(4) xs True free_iff show ?thesis by auto
  next
    case False
    with free_iff pD(4) show ?thesis by auto
  qed
  then obtain q where q: "(if ?free then remove b (free_block_queue p) else Inr (free_block_queue p)) = Inr q"
      "free_rep q (removeAll b xs)" "metadata q = metadata (free_block_queue p)" by auto
  let ?p1 = "p\<lparr>free_block_queue := q\<rparr>"
  let ?p' = "upd_blk b (\<lambda>x. x\<lparr>ref_cnt := ref_cnt x + 1\<rparr>) ?p1"
  note m = with_queue_meta [OF q(3)]
  have step: "touch_step b p = Inr ?p'" using q(1) by (auto simp: touch_step_def split: if_splits)
  have same: "same_pool p ?p'" by (rule same_pool_trans [OF m(3)], rule same_pool_upd) simp_all
  have h: "hashes ?p' = hashes p" using m(2) by (auto simp: hashes_upd hashes_def fun_eq_iff)
  have r: "refs ?p' = (refs p)(b := refs p b + 1)"
    using m(1) by (simp only: refs_upd) (simp add: refs_def fun_eq_iff)
  have rep: "free_rep (free_block_queue ?p') (removeAll b xs)" by (rule free_rep_upd) (use q(2) in simp_all)
  have "pool_index ?p'" by (rule pool_index_cong [OF pD(2) same h]) simp
  moreover have "pool_free ?p' (removeAll b xs)"
    using pD(3,6) rep unfolding pool_free_def r by (auto simp: upd_blk_frame)
  ultimately show ?thesis using step same h r pool_table_same [OF pD(1) same] by (auto simp: pool_rep_def)
qed

text \<open>Touching increments every count once per occurrence and takes the blocks off the free list.\<close>

lemma touch_spec:
  assumes "pool_rep p xs" "set bs \<subseteq> set (blocks p)"
  shows "\<exists>p'. touch bs p = Inr p' \<and> pool_rep p' (filter (\<lambda>b. b \<notin> set bs) xs) \<and> same_pool p p' \<and>
    refs p' = (\<lambda>b. refs p b + int (count_list bs b)) \<and> hashes p' = hashes p"
  using assms
proof (induction bs arbitrary: p xs)
  case Nil
  then show ?case by (simp add: touch_def)
next
  case (Cons b bs)
  from touch_step_spec [OF Cons.prems(1), of b] Cons.prems(2) obtain p1 where
    p1: "touch_step b p = Inr p1" "pool_rep p1 (removeAll b xs)" "same_pool p p1"
      "refs p1 = (refs p)(b := refs p b + 1)" "hashes p1 = hashes p" by auto
  from Cons.IH [OF p1(2)] Cons.prems(2) p1(3) obtain p' where
    p': "touch bs p1 = Inr p'" "pool_rep p' (filter (\<lambda>b. b \<notin> set bs) (removeAll b xs))" "same_pool p1 p'"
      "refs p' = (\<lambda>c. refs p1 c + int (count_list bs c))" "hashes p' = hashes p1"
    by (auto simp: same_pool_def)
  have "filter (\<lambda>c. c \<notin> set bs) (removeAll b xs) = filter (\<lambda>c. c \<notin> set (b # bs)) xs"
    by (auto simp: removeAll_filter_not_eq intro!: filter_cong)
  with p1 p' same_pool_trans [OF p1(3) p'(3)] show ?case
    by (intro exI [of _ p']) (auto simp: touch_def fun_eq_iff)
qed

lemma decr_loop:
  "free_rep (free_block_queue p) xs \<Longrightarrow>
   free_rep (free_block_queue (fold decr_step bs p)) xs \<and> same_pool p (fold decr_step bs p) \<and>
   hashes (fold decr_step bs p) = hashes p \<and>
   cached_block_hash_to_block (fold decr_step bs p) = cached_block_hash_to_block p \<and>
   refs (fold decr_step bs p) = (\<lambda>b. refs p b - int (count_list bs b))"
proof (induction bs arbitrary: p)
  case (Cons b bs)
  let ?p1 = "decr_step b p"
  have p1: "free_rep (free_block_queue ?p1) xs" unfolding decr_step_def by (rule free_rep_upd [OF Cons.prems]) simp_all
  have same: "same_pool p ?p1" unfolding decr_step_def by (rule same_pool_upd) simp_all
  have "hashes ?p1 = hashes p" "refs ?p1 = (refs p)(b := refs p b - 1)"
    "cached_block_hash_to_block ?p1 = cached_block_hash_to_block p"
    by (auto simp: decr_step_def hashes_upd refs_upd hashes_def refs_def)
  with Cons.IH [OF p1] same_pool_trans [OF same] show ?case by (auto simp: fun_eq_iff)
qed auto

text \<open>
  Freeing decrements the counts; the blocks that nobody references any more go to the end
  of the free list in the order given.
\<close>

lemma free_blocks_spec:
  assumes "pool_rep p xs" "set bs \<subseteq> set (blocks p)" "distinct (filter (\<lambda>b. b \<noteq> null_block p) bs)"
    "\<forall>b \<in> set bs. b \<noteq> null_block p \<longrightarrow> 1 \<le> refs p b"
  shows "\<exists>p'. free_blocks bs p = Inr p' \<and>
    pool_rep p' (xs @ filter (\<lambda>b. b \<noteq> null_block p \<and> refs p b = 1) bs) \<and> same_pool p p' \<and>
    refs p' = (\<lambda>b. refs p b - int (count_list bs b)) \<and> hashes p' = hashes p"
proof -
  note pD = pool_repD [OF assms(1)]
  let ?p1 = "fold decr_step bs p"
  note d = decr_loop [OF pD(4), of bs]
  have once: "count_list bs b = 1" if "b \<in> set bs" "b \<noteq> null_block p" for b
  proof -
    have "count_list bs b = count_list (filter (\<lambda>c. c \<noteq> null_block p) bs) b"
      using that(2) by (induction bs) auto
    also have "\<dots> = 1" using that assms(3) by (simp add: count_list_distinct)
    finally show ?thesis .
  qed
  have null: "is_null (blk ?p1 b) \<longleftrightarrow> b = null_block p" if "b \<in> set bs" for b
    using d pool_tableD(1) [OF pD(1), of b] that assms(2) by (auto simp: same_pool_def)
  let ?freed = "filter (\<lambda>b. b \<noteq> null_block p \<and> refs p b = 1) bs"
  have freed: "filter (\<lambda>b. ref_cnt (blk ?p1 b) = 0 \<and> \<not> is_null (blk ?p1 b)) bs = ?freed"
  proof (rule filter_cong [OF refl])
    fix b assume b: "b \<in> set bs"
    have "ref_cnt (blk ?p1 b) = refs p b - int (count_list bs b)" using d by (metis refs_def)
    with once [OF b] null [OF b] show "(ref_cnt (blk ?p1 b) = 0 \<and> \<not> is_null (blk ?p1 b)) \<longleftrightarrow> b \<noteq> null_block p \<and> refs p b = 1"
      by auto
  qed
  have "distinct ?freed" using distinct_filter [OF assms(3), of "\<lambda>b. refs p b = 1"] by simp
  moreover have "set ?freed \<subseteq> range Blk" using assms(2) pool_tableD(2) [OF pD(1)] by auto
  moreover have "set ?freed \<inter> set xs = {}" by (auto simp: pD(6))
  ultimately obtain q where q: "append_n ?freed (free_block_queue ?p1) = Inr q" "free_rep q (xs @ ?freed)"
    "metadata q = metadata (free_block_queue ?p1)" using append_n_refines [of "free_block_queue ?p1" xs] d by blast
  let ?p' = "?p1\<lparr>free_block_queue := q\<rparr>"
  note m = with_queue_meta [OF q(3)]
  have same: "same_pool p ?p'" using d m(3) same_pool_trans by blast
  have r: "refs ?p' = (\<lambda>b. refs p b - int (count_list bs b))" and h: "hashes ?p' = hashes p" using d m by auto
  have "pool_index ?p'" by (rule pool_index_cong [OF pD(2) same h]) (use d in simp)
  moreover have "pool_free ?p' (xs @ ?freed)"
    unfolding pool_free_def
  proof (intro conjI allI ballI)
    have st: "blocks ?p' = blocks p" "null_block ?p' = null_block p" using same unfolding same_pool_def by blast+
    have cnt: "int (count_list bs b) = (if b \<in> set bs then 1 else 0)" if "b \<noteq> null_block p" for b
      using once [of b] that by (simp add: count_list_0_iff)
    show "b \<in> set (xs @ ?freed) \<longleftrightarrow> b \<in> set (blocks ?p') \<and> b \<noteq> null_block ?p' \<and> refs ?p' b = 0" for b
      unfolding st r using pD(6) [of b] cnt [of b] assms(2,4) by (auto split: if_splits)
    show "b \<noteq> null_block ?p' \<longrightarrow> 0 \<le> refs ?p' b" if "b \<in> set (blocks ?p')" for b
      unfolding r st using pD(3) cnt [of b] that st assms(4) by (auto simp: pool_free_def)
  qed (use q(2) in simp)
  moreover have "free_blocks bs p = Inr ?p'" using q(1) freed by (simp add: free_blocks_def Let_def)
  ultimately show ?thesis using same r h pool_table_same [OF pD(1) same] by (auto simp: pool_rep_def)
qed


lemma evict_keeps:
  assumes "pool_rep p xs" "b \<in> set (blocks p)"
  shows "pool_rep (snd (maybe_evict_cached_block b p)) xs \<and> same_pool p (snd (maybe_evict_cached_block b p)) \<and>
    refs (snd (maybe_evict_cached_block b p)) = refs p \<and>
    hashes (snd (maybe_evict_cached_block b p)) = (hashes p)(b := None)"
proof -
  note pD = pool_repD [OF assms(1)]
  obtain ev p' where ev: "maybe_evict_cached_block b p = (ev, p')" by fastforce
  note e = maybe_evict_spec [OF pD(1,2,4) assms(2) ev]
  then have same: "same_pool p p'" by blast
  have "pool_free p' xs" using pD(3) e unfolding pool_free_def by (simp add: same_pool_def)
  with e ev pool_table_same [OF pD(1) same] show ?thesis by (simp add: pool_rep_def)
qed

lemma evict_blocks_spec:
  assumes "pool_rep p xs" "\<forall>i \<in> set ids. 0 \<le> i \<and> i < num_gpu_blocks p"
  shows "\<exists>p'. evict_blocks ids p = Inr p' \<and> pool_rep p' xs \<and> same_pool p p' \<and> refs p' = refs p \<and>
    hashes p' = (\<lambda>b. if b \<in> (\<lambda>i. Blk (nat i)) ` set ids then None else hashes p b)"
  using assms
proof (induction ids arbitrary: p)
  case (Cons i ids)
  note pD = pool_repD [OF Cons.prems(1)]
  have i: "0 \<le> i" "i < num_gpu_blocks p" using Cons.prems(2) by auto
  have at: "blocks p ! nat i = Blk (nat i)" "Blk (nat i) \<in> set (blocks p)" "i < int (length (blocks p))"
    using pD(1) i by (auto simp: pool_table_def)
  let ?p1 = "snd (maybe_evict_cached_block (Blk (nat i)) p)"
  have step: "evict_step i p = Inr ?p1" using i at by (simp add: evict_step_def Let_def)
  note e = evict_keeps [OF Cons.prems(1) at(2)]
  have "\<forall>j \<in> set ids. 0 \<le> j \<and> j < num_gpu_blocks ?p1" using e Cons.prems(2) by (simp add: same_pool_def)
  from Cons.IH [OF _ this] e obtain p' where p': "evict_blocks ids ?p1 = Inr p'" "pool_rep p' xs" "same_pool ?p1 p'"
    "refs p' = refs ?p1" "hashes p' = (\<lambda>b. if b \<in> (\<lambda>i. Blk (nat i)) ` set ids then None else hashes ?p1 b)" by auto
  have "same_pool p p'" using e p'(3) same_pool_trans by blast
  with p' e step show ?case by (auto simp: evict_blocks_def fun_eq_iff)
qed (auto simp: evict_blocks_def)

lemma reset_loop:
  "free_rep (free_block_queue p) xs \<Longrightarrow>
   (let p' = fold (\<lambda>b. upd_blk b reset_hash) bs p in
    free_rep (free_block_queue p') xs \<and> same_pool p p' \<and> refs p' = refs p \<and>
    cached_block_hash_to_block p' = cached_block_hash_to_block p \<and> kv_event_queue p' = kv_event_queue p \<and>
    hashes p' = (\<lambda>b. if b \<in> set bs then None else hashes p b))"
proof (induction bs arbitrary: p)
  case (Cons b bs)
  let ?p1 = "upd_blk b reset_hash p"
  have p1: "free_rep (free_block_queue ?p1) xs" by (rule free_rep_upd [OF Cons.prems]) (simp_all add: reset_hash_def)
  have same: "same_pool p ?p1" by (rule same_pool_upd) (simp_all add: reset_hash_def)
  have "hashes ?p1 = (hashes p)(b := None)" "refs ?p1 = refs p"
    by (auto simp: hashes_upd refs_upd refs_def reset_hash_def)
  with Cons.IH [OF p1] same_pool_trans [OF same] show ?case by (auto simp: fun_eq_iff Let_def)
qed auto

text \<open>The prefix cache is reset only when no block is in use, and then no block is cached.\<close>

lemma reset_prefix_cache_spec:
  assumes "pool_rep p xs" "reset_prefix_cache p = (done, p')"
  shows "pool_rep p' xs \<and> same_pool p p' \<and> refs p' = refs p \<and>
    (done \<longleftrightarrow> (\<forall>b \<in> set (blocks p). b \<noteq> null_block p \<longrightarrow> refs p b = 0)) \<and>
    (if done then cached_block_hash_to_block p' = [] \<and> (\<forall>b \<in> set (blocks p). hashes p' b = None) else p' = p)"
proof -
  note pD = pool_repD [OF assms(1)]
  have card: "num_gpu_blocks p - get_num_free_blocks p = 1 \<longleftrightarrow> (\<forall>b \<in> set (blocks p). b \<noteq> null_block p \<longrightarrow> refs p b = 0)"
  proof -
    let ?nn = "set (blocks p) - {null_block p}"
    have sub: "set xs \<subseteq> ?nn" "finite ?nn" by (auto simp: pD(6))
    have N: "int (card ?nn) = num_gpu_blocks p - 1"
      using pD(1) by (auto simp: card_image inj_on_def pool_table_def of_nat_diff)
    have "get_num_free_blocks p = int (card (set xs))" using pD(5,7) by (simp add: distinct_card)
    with N have "num_gpu_blocks p - get_num_free_blocks p = 1 \<longleftrightarrow> card (set xs) = card ?nn" by linarith
    also have "\<dots> \<longleftrightarrow> set xs = ?nn" using sub card_subset_eq by metis
    also have "\<dots> \<longleftrightarrow> (\<forall>b \<in> set (blocks p). b \<noteq> null_block p \<longrightarrow> refs p b = 0)"
      by (simp add: set_eq_iff pD(6)) blast
    finally show ?thesis .
  qed
  show ?thesis
  proof (cases "num_gpu_blocks p - get_num_free_blocks p = 1")
    case False
    then show ?thesis using assms card by (auto simp: reset_prefix_cache_def)
  next
    case True
    let ?p1 = "fold (\<lambda>b. upd_blk b reset_hash) (blocks p) (p\<lparr>cached_block_hash_to_block := []\<rparr>)"
    have q: "free_rep (free_block_queue (p\<lparr>cached_block_hash_to_block := []\<rparr>)) xs" using pD(4) by simp
    note l = reset_loop [OF q, of "blocks p", unfolded Let_def]
    have p': "done" "\<exists>evs. p' = ?p1\<lparr>kv_event_queue := evs\<rparr>"
      using assms(2) True by (auto simp: reset_prefix_cache_def Let_def split: if_splits) (metis block_pool.surjective block_pool.update_convs(9))+
    then obtain evs where evs: "p' = ?p1\<lparr>kv_event_queue := evs\<rparr>" by blast
    have view: "free_rep (free_block_queue p') xs" "same_pool p p'" "refs p' = refs p" "cached_block_hash_to_block p' = []"
      "hashes p' = (\<lambda>b. if b \<in> set (blocks p) then None else hashes p b)"
      using l unfolding evs by (auto simp: same_pool_def refs_def hashes_def fun_eq_iff)
    have "pool_index p'" using view pool_tableD(3) [OF pD(1)] by (auto simp: pool_index_def same_pool_def)
    moreover have "pool_free p' xs" using pD(3) view by (auto simp: pool_free_def same_pool_def)
    ultimately show ?thesis using p'(1) card True view pool_table_same [OF pD(1) view(2)] by (auto simp: pool_rep_def)
  qed
qed


subsection \<open>Caching full blocks\<close>

lemma cache_one_spec:
  assumes "pool_rep p xs" "b \<in> set (blocks p)" "b \<noteq> null_block p" "hashes p b = None"
    and "make_block_hash_with_group_id h gid = Inr key"
  shows "\<exists>p'. cache_one gid h b p = Inr p' \<and> pool_rep p' xs \<and> same_pool p p' \<and> refs p' = refs p \<and>
    hashes p' = (hashes p)(b := Some key)"
proof -
  note pD = pool_repD [OF assms(1)]
  let ?p1 = "upd_blk b (\<lambda>_. (blk p b)\<lparr>block_hash := Some key\<rparr>) p"
  let ?ids = "\<lambda>c. block_id (blk p c)" and ?m = "cached_block_hash_to_block p"
  have ids: "(\<lambda>c. block_id (blk ?p1 c)) = ?ids" by (auto simp: blk_upd)
  let ?p' = "?p1\<lparr>cached_block_hash_to_block := insert_block ?ids key b ?m\<rparr>"
  have idx: "bm_ok ?ids ?m" "\<And>key c. c \<in> set (bm_blocks ?m key) \<longleftrightarrow> c \<in> set (blocks p) \<and> c \<noteq> null_block p \<and> hashes p c = Some key"
    using pD(2) by (auto simp: pool_index_def)
  have fresh: "\<forall>c \<in> set (bm_blocks ?m key). ?ids c \<noteq> ?ids b"
    using idx(2) assms(2,4) pool_tableD(4) [OF pD(1)] by fastforce
  have run: "cache_one gid h b p = Inr ?p'"
    using assms(4,5) by (simp add: cache_one_def set_block_hash_def hashes_def ids)
  have blk': "blk ?p' c = (if c = b then (blk p b)\<lparr>block_hash := Some key\<rparr> else blk p c)" for c
    by (simp add: blk_upd)
  have same: "same_pool p ?p'" unfolding same_pool_def blk' by simp
  have view: "refs ?p' = refs p" "hashes ?p' = (hashes p)(b := Some key)"
    unfolding refs_def hashes_def blk' by auto
  have stored: "set (bm_blocks (insert_block ?ids key b ?m) key') =
      (if key' = key then insert b (set (bm_blocks ?m key)) else set (bm_blocks ?m key'))" for key'
    using bm.ins_stored [OF idx(1) fresh, of key'] by auto
  have ids': "(\<lambda>c. block_id (blk ?p' c)) = ?ids" unfolding blk' by auto
  have "pool_index ?p'"
    using bm.ins_ok [OF idx(1), of key b] pD(2) assms(2-4)
    unfolding pool_index_def view ids' by (auto simp: stored idx(2))
  moreover have "free_rep (free_block_queue ?p') xs"
    by (rule free_rep_cong [OF pD(4)]) (simp, unfold blk', simp_all)
  then have "pool_free ?p' xs" using pD(3) unfolding pool_free_def view by simp
  ultimately show ?thesis using run same view pool_table_same [OF pD(1) same] by (auto simp: pool_rep_def)
qed

definition carries :: "block_pool \<Rightarrow> block_ref \<Rightarrow> bytes \<Rightarrow> int \<Rightarrow> bool" where
  "carries p b h gid \<longleftrightarrow> (\<exists>key. make_block_hash_with_group_id h gid = Inr key \<and> hashes p b = Some key)"

text \<open>
  The loop gives the \<open>j\<close>-th block of the batch the \<open>j\<close>-th hash, skips null blocks, and
  raises for no block without a hash.
\<close>

lemma cache_loop_spec:
  assumes "pool_rep p xs" "set bs \<subseteq> set (blocks p)" "distinct (filter (\<lambda>b. b \<noteq> null_block p) bs)"
    "\<forall>b \<in> set bs. b \<noteq> null_block p \<longrightarrow> hashes p b = None" "i + length bs \<le> length hs" "0 \<le> gid" "gid < 2 ^ 32"
  shows "\<exists>new' p'. cache_loop gid hs i bs new p = Inr (new', p') \<and> pool_rep p' xs \<and> same_pool p p' \<and> refs p' = refs p \<and>
    (\<forall>j < length bs. bs ! j \<noteq> null_block p \<longrightarrow>
       carries p' (bs ! j) (hs ! (i + j)) gid) \<and>
    (\<forall>b. b \<notin> set bs \<or> b = null_block p \<longrightarrow> hashes p' b = hashes p b)"
  using assms
proof (induction bs arbitrary: p i new)
  case (Cons b bs)
  note pD = pool_repD [OF Cons.prems(1)]
  have null: "is_null (blk p b) \<longleftrightarrow> b = null_block p" using pool_tableD(1) [OF pD(1)] Cons.prems(2) by auto
  show ?case
  proof (cases "b = null_block p")
    case True
    with Cons.IH [of p "i + 1" new] Cons.prems null show ?thesis by (auto simp: nth_Cons split: nat.splits)
  next
    case False
    obtain key where key: "make_block_hash_with_group_id (hs ! i) gid = Inr key"
      using Cons.prems(6,7) by (auto simp: make_block_hash_with_group_id_def to_bytes4_be_def)
    have b: "b \<in> set (blocks p)" "hashes p b = None" using Cons.prems(2,4) False by auto
    from cache_one_spec [OF Cons.prems(1) b(1) False b(2) key] obtain p1 where
      p1: "cache_one gid (hs ! i) b p = Inr p1" "pool_rep p1 xs" "same_pool p p1" "refs p1 = refs p"
        "hashes p1 = (hashes p)(b := Some key)" by auto
    have st: "blocks p1 = blocks p" "null_block p1 = null_block p" using p1(3) by (auto simp: same_pool_def)
    have notin: "b \<notin> set bs" using Cons.prems(3) False by auto
    define new1 where "new1 = (if enable_kv_cache_events p
      then new @ [maybe_convert_block_hash (use_int_block_hashes p) (hs ! i)] else new)"
    have "\<exists>new' p'. cache_loop gid hs (i + 1) bs new1 p1 = Inr (new', p') \<and> pool_rep p' xs \<and> same_pool p1 p' \<and> refs p' = refs p1 \<and>
      (\<forall>j < length bs. bs ! j \<noteq> null_block p1 \<longrightarrow>
       carries p' (bs ! j) (hs ! (i + 1 + j)) gid) \<and>
      (\<forall>b. b \<notin> set bs \<or> b = null_block p1 \<longrightarrow> hashes p' b = hashes p1 b)"
      by (rule Cons.IH [OF p1(2)]) (use Cons.prems st p1(5) notin False in \<open>auto\<close>)
    then obtain new' p' where p': "cache_loop gid hs (i + 1) bs new1 p1 = Inr (new', p')" "pool_rep p' xs"
      "same_pool p1 p'" "refs p' = refs p1"
      "\<forall>j < length bs. bs ! j \<noteq> null_block p \<longrightarrow>
       carries p' (bs ! j) (hs ! (i + 1 + j)) gid"
      "\<forall>b. b \<notin> set bs \<or> b = null_block p \<longrightarrow> hashes p' b = hashes p1 b" unfolding st by blast
    have run: "cache_loop gid hs i (b # bs) new p = Inr (new', p')"
      using p1(1) p'(1) null False b(2) Cons.prems(5) by (simp add: hashes_def new1_def)
    have "hashes p' b = Some key" using p'(6) notin p1(5) by auto
    then have "\<forall>j < length (b # bs). (b # bs) ! j \<noteq> null_block p \<longrightarrow>
       carries p' ((b # bs) ! j) (hs ! (i + j)) gid"
      using p'(5) key by (auto simp: nth_Cons carries_def split: nat.splits)
    moreover have "\<forall>c. c \<notin> set (b # bs) \<or> c = null_block p \<longrightarrow> hashes p' c = hashes p c"
      using p'(6) p1(5) False by auto
    ultimately show ?thesis
      using run p'(2,4) p1(4) same_pool_trans [OF p1(3) p'(3)]
      by (intro exI [of _ new'] exI [of _ p'] conjI) simp_all
  qed
qed auto


lemma gen_mm_total:
  "0 \<le> idx \<Longrightarrow> \<exists>keys idx'. gen_mm_extra_hash_keys r s e idx = Inr (keys, idx') \<and> 0 \<le> idx'"
proof -
  have loop: "0 \<le> idx \<Longrightarrow> 0 \<le> snd (mm_keys_loop s e fs idx keys)" for fs idx keys
    by (induction s e fs idx keys rule: mm_keys_loop.induct) (auto simp: Let_def)
  assume "0 \<le> idx"
  with loop [OF this, of "drop (nat idx) (mm_features r)" "[]"] show ?thesis
    by (cases "mm_keys_loop s e (drop (nat idx) (mm_features r)) idx []")
       (auto simp: gen_mm_extra_hash_keys_def Let_def)
qed

lemma generate_keys_total:
  assumes "0 \<le> idx"
  shows "\<exists>keys idx' m. generate_block_hash_extra_keys sha256 r s e idx =
    Inr (keys, idx', r\<lparr>prompt_embeds_per_block_hashes := m\<rparr>) \<and> 0 \<le> idx'"
proof -
  obtain mk idx' where mm: "gen_mm_extra_hash_keys r s e idx = Inr (mk, idx')" "0 \<le> idx'"
    using gen_mm_total [OF assms] by blast
  have "\<exists>ks m. gen_prompt_embeds_extra_hash_keys sha256 r s e = (ks, r\<lparr>prompt_embeds_per_block_hashes := m\<rparr>)"
  proof (cases "prompt_embeds r = None \<or> dict_get (prompt_embeds_per_block_hashes r) (s, e) \<noteq> None")
    case True
    then show ?thesis
      by (intro exI [of _ "fst (gen_prompt_embeds_extra_hash_keys sha256 r s e)"] exI [of _ "prompt_embeds_per_block_hashes r"])
         (auto simp: gen_prompt_embeds_extra_hash_keys_def split: option.splits)
  next
    case False
    then show ?thesis by (auto simp: gen_prompt_embeds_extra_hash_keys_def Let_def)
  qed
  then obtain ks m where "gen_prompt_embeds_extra_hash_keys sha256 r s e = (ks, r\<lparr>prompt_embeds_per_block_hashes := m\<rparr>)" by blast
  with mm show ?thesis by (auto simp: generate_block_hash_extra_keys_def Let_def)
qed

lemma event_keys_loop_total:
  assumes "\<forall>i \<in> set is. i < length bs" "0 \<le> idx"
  shows "\<exists>keys m. event_keys_loop sha256 p bs block_size is idx acc r =
    Inr (keys, r\<lparr>prompt_embeds_per_block_hashes := m\<rparr>)"
  using assms
proof (induction "is" arbitrary: idx acc r)
  case Nil
  show ?case by (intro exI [of _ acc] exI [of _ "prompt_embeds_per_block_hashes r"]) simp
next
  case (Cons i "is")
  show ?case
  proof (cases "is_null (blk p (bs ! i))")
    case True
    with Cons.IH [OF _ Cons.prems(2), of acc r] Cons.prems(1) show ?thesis by simp
  next
    case False
    obtain keys idx' m where gen: "generate_block_hash_extra_keys sha256 r (int (i * block_size)) (int (i * block_size + block_size)) idx =
      Inr (keys, idx', r\<lparr>prompt_embeds_per_block_hashes := m\<rparr>)" "0 \<le> idx'"
      using generate_keys_total [OF Cons.prems(2)] by blast
    from Cons.IH [OF _ gen(2), of "acc @ [keys]" "r\<lparr>prompt_embeds_per_block_hashes := m\<rparr>"] Cons.prems(1) gen(1) False
    show ?thesis by simp
  qed
qed

lemma bhl_get_total:
  assumes "block_hashes_for hbs bsz hs = Inr v" "i < length (bhl_values v)"
  shows "bhl_get v i = Inr (bhl_values v ! i)"
proof (cases v)
  case (ScaledHashes hs' k)
  with assms have "i < length hs' div k" by simp
  then show ?thesis unfolding ScaledHashes by (intro bhl_get_values) (cases k; simp)+
qed (use assms in simp)

lemma cache_full_blocks_spec:
  assumes rep: "pool_rep p xs" and bs: "set (py_slice nc nf bs) \<subseteq> set (blocks p)" "nf \<le> length bs"
    and fresh: "distinct (filter (\<lambda>b. b \<noteq> null_block p) (py_slice nc nf bs))"
      "\<forall>b \<in> set (py_slice nc nf bs). b \<noteq> null_block p \<longrightarrow> hashes p b = None"
    and hs: "nf \<le> length (block_hashes r)" "block_hashes_for (hash_block_size p) bsz (block_hashes r) = Inr v"
      "nf \<le> length (bhl_values v)"
    and gid: "0 \<le> gid" "gid < 2 ^ 32"
  shows "\<exists>p' m. cache_full_blocks sha256 r bs nc nf bsz gid p = Inr (p', r\<lparr>prompt_embeds_per_block_hashes := m\<rparr>) \<and>
    pool_rep p' xs \<and> same_pool p p' \<and> refs p' = refs p \<and>
    (\<forall>j. nc \<le> j \<longrightarrow> j < nf \<longrightarrow> bs ! j \<noteq> null_block p \<longrightarrow> carries p' (bs ! j) (bhl_values v ! j) gid) \<and>
    (\<forall>b. b \<notin> set (py_slice nc nf bs) \<or> b = null_block p \<longrightarrow> hashes p' b = hashes p b)"
proof (cases "nf \<le> nc")
  case True
  then have "cache_full_blocks sha256 r bs nc nf bsz gid p = Inr (p, r\<lparr>prompt_embeds_per_block_hashes := prompt_embeds_per_block_hashes r\<rparr>)"
    by (simp add: cache_full_blocks_def)
  with True rep show ?thesis by (intro exI [of _ p] exI [of _ "prompt_embeds_per_block_hashes r"]) auto
next
  case False
  let ?hs = "drop nc (bhl_values v)" and ?new = "py_slice nc nf bs"
  have len: "0 + length ?new \<le> length ?hs" using hs(3) False by simp
  from cache_loop_spec [OF rep bs(1) fresh len gid, of "[]"] obtain new' p1 where
    p1: "cache_loop gid ?hs 0 ?new [] p = Inr (new', p1)" "pool_rep p1 xs" "same_pool p p1" "refs p1 = refs p"
      "\<forall>j < length ?new. ?new ! j \<noteq> null_block p \<longrightarrow> carries p1 (?new ! j) (?hs ! j) gid"
      "\<forall>b. b \<notin> set ?new \<or> b = null_block p \<longrightarrow> hashes p1 b = hashes p b" by auto
  have carried: "carries p1 (bs ! j) (bhl_values v ! j) gid" if "nc \<le> j" "j < nf" "bs ! j \<noteq> null_block p" for j
    using p1(5) [rule_format, of "j - nc"] that bs(2) hs(3) by (simp add: py_slice_def)
  show ?thesis
  proof (cases "enable_kv_cache_events p")
    case no_events: False
    have "cache_full_blocks sha256 r bs nc nf bsz gid p = Inr (p1, r\<lparr>prompt_embeds_per_block_hashes := prompt_embeds_per_block_hashes r\<rparr>)"
      using False no_events hs(1,2) p1(1) by (simp add: cache_full_blocks_def)
    with p1 carried show ?thesis by (intro exI [of _ p1] exI [of _ "prompt_embeds_per_block_hashes r"]) auto
  next
    case True
    obtain keys m where keys: "event_keys_loop sha256 p1 bs bsz [nc..<nf] 0 [] r = Inr (keys, r\<lparr>prompt_embeds_per_block_hashes := m\<rparr>)"
      using event_keys_loop_total [of "[nc..<nf]" bs 0 sha256 p1 bsz "[]" r] bs(2) by auto
    have "\<exists>parent. (if nc = 0 then Inr None else rbind (bhl_get v (nc - 1))
        (\<lambda>h. Inr (Some (maybe_convert_block_hash (use_int_block_hashes p) h)))) = Inr parent"
      using hs(3) False bhl_get_total [OF hs(2), of "nc - 1"] by simp
    then obtain parent where par: "(if nc = 0 then Inr None else rbind (bhl_get v (nc - 1))
        (\<lambda>h. Inr (Some (maybe_convert_block_hash (use_int_block_hashes p) h)))) = Inr parent" by blast
    have "\<exists>evs. cache_full_blocks sha256 r bs nc nf bsz gid p =
        Inr (p1\<lparr>kv_event_queue := evs\<rparr>, r\<lparr>prompt_embeds_per_block_hashes := m\<rparr>)"
      unfolding cache_full_blocks_def hs(2) rbind_Inr p1(1) prod.case par keys
      using False True hs(1) by (simp add: exI)
    then obtain evs where run: "cache_full_blocks sha256 r bs nc nf bsz gid p =
        Inr (p1\<lparr>kv_event_queue := evs\<rparr>, r\<lparr>prompt_embeds_per_block_hashes := m\<rparr>)" by blast
    have "same_pool p (p1\<lparr>kv_event_queue := evs\<rparr>)" using p1(3) by (simp add: same_pool_def)
    with run p1(2,4,6) carried show ?thesis
      by (intro exI [of _ "p1\<lparr>kv_event_queue := evs\<rparr>"] exI [of _ m]) (simp add: carries_def)
  qed
qed

lemma get_cached_block_spec:
  assumes "pool_rep p xs" "\<forall>g \<in> set gids. 0 \<le> g \<and> g < 2 ^ 32"
  shows "\<exists>hit. get_cached_block p h gids = Inr hit \<and>
    (case hit of
       Some bs \<Rightarrow> length bs = length gids \<and> (\<forall>j < length gids. bs ! j \<in> set (blocks p) \<and> bs ! j \<noteq> null_block p \<and> carries p (bs ! j) h (gids ! j))
     | None \<Rightarrow> \<exists>g \<in> set gids. \<forall>b \<in> set (blocks p). b \<noteq> null_block p \<longrightarrow> \<not> carries p b h g)"
  using assms(2)
proof (induction gids)
  case (Cons g gids)
  note pD = pool_repD [OF assms(1)]
  let ?m = "cached_block_hash_to_block p"
  obtain key where key: "make_block_hash_with_group_id h g = Inr key"
    using Cons.prems by (auto simp: make_block_hash_with_group_id_def to_bytes4_be_def)
  have idx: "bm_ok (\<lambda>b. block_id (blk p b)) ?m"
    "\<And>key c. c \<in> set (bm_blocks ?m key) \<longleftrightarrow> c \<in> set (blocks p) \<and> c \<noteq> null_block p \<and> hashes p c = Some key"
    using pD(2) by (auto simp: pool_index_def)
  show ?case
  proof (cases "bm_blocks ?m key")
    case Nil
    then have "get_cached_block p h (g # gids) = Inr None" using key bm.lookup_oldest [OF idx(1), of key] by simp
    moreover have "\<not> carries p b h g" if "b \<in> set (blocks p)" "b \<noteq> null_block p" for b
      using idx(2) [of b key] Nil that key by (auto simp: carries_def)
    ultimately show ?thesis by auto
  next
    case (Cons b bs)
    have b: "b \<in> set (blocks p)" "b \<noteq> null_block p" "carries p b h g" using idx(2) [of b key] Cons key by (auto simp: carries_def)
    from Cons.IH Cons.prems obtain hit where hit: "get_cached_block p h gids = Inr hit"
      "case hit of
       Some bs \<Rightarrow> length bs = length gids \<and> (\<forall>j < length gids. bs ! j \<in> set (blocks p) \<and> bs ! j \<noteq> null_block p \<and> carries p (bs ! j) h (gids ! j))
     | None \<Rightarrow> \<exists>g \<in> set gids. \<forall>b \<in> set (blocks p). b \<noteq> null_block p \<longrightarrow> \<not> carries p b h g" by auto
    have "get_cached_block p h (g # gids) = Inr (map_option ((#) b) hit)"
      using key bm.lookup_oldest [OF idx(1), of key] Cons hit(1) by simp
    with hit(2) b show ?thesis by (cases hit) (auto simp: nth_Cons split: nat.splits)
  qed
qed simp


lemma get_cached_one:
  assumes "pool_rep p xs" "0 \<le> g" "g < 2 ^ 32"
  obtains (hit) b where "get_cached_block p h [g] = Inr (Some [b])" "b \<in> set (blocks p)" "b \<noteq> null_block p" "carries p b h g"
    | (miss) "get_cached_block p h [g] = Inr None" "\<forall>b \<in> set (blocks p). b \<noteq> null_block p \<longrightarrow> \<not> carries p b h g"
proof -
  have gs: "\<forall>g' \<in> set [g]. 0 \<le> g' \<and> g' < 2 ^ 32" using assms(2,3) by simp
  from get_cached_block_spec [OF assms(1) gs, of h] obtain r where r: "get_cached_block p h [g] = Inr r"
    "case r of
       Some bs \<Rightarrow> length bs = length [g] \<and> (\<forall>j < length [g]. bs ! j \<in> set (blocks p) \<and> bs ! j \<noteq> null_block p \<and> carries p (bs ! j) h ([g] ! j))
     | None \<Rightarrow> \<exists>g \<in> set [g]. \<forall>b \<in> set (blocks p). b \<noteq> null_block p \<longrightarrow> \<not> carries p b h g"
    by blast
  show thesis
  proof (cases r)
    case None
    with r miss show thesis by simp
  next
    case (Some bs)
    with r(2) obtain b where "bs = [b]" by (cases bs) auto
    with r Some hit [of b] show thesis by simp
  qed
qed

section \<open>The interface the cache managers rely on\<close>

text \<open>
  A reference-counting pool: the free list holds the ordinary blocks with count zero, in
  eviction order; allocating hands out blocks from its front with count one; acquiring and
  releasing count up and down and move blocks off and onto the list.
\<close>

locale refcount_pool =
  fixes alloc :: "int \<Rightarrow> 'p \<Rightarrow> ('b list \<times> 'p) res"
    and acquire :: "'b list \<Rightarrow> 'p \<Rightarrow> 'p res"
    and release :: "'b list \<Rightarrow> 'p \<Rightarrow> 'p res"
    and rep :: "'p \<Rightarrow> 'b list \<Rightarrow> bool"
    and cnt :: "'p \<Rightarrow> 'b \<Rightarrow> int"
    and ordinary :: "'p \<Rightarrow> 'b set"
  assumes finite_ordinary: "rep p xs \<Longrightarrow> finite (ordinary p)"
    and free_distinct: "rep p xs \<Longrightarrow> distinct xs"
    and free_iff: "rep p xs \<Longrightarrow> b \<in> set xs \<longleftrightarrow> b \<in> ordinary p \<and> cnt p b = 0"
    and cnt_nonneg: "rep p xs \<Longrightarrow> b \<in> ordinary p \<Longrightarrow> 0 \<le> cnt p b"
    and alloc_front: "rep p (zs @ ys) \<Longrightarrow> \<exists>p'. alloc (int (length zs)) p = Inr (zs, p') \<and> rep p' ys \<and>
           ordinary p' = ordinary p \<and> cnt p' = (\<lambda>b. if b \<in> set zs then 1 else cnt p b)"
    and alloc_short: "rep p xs \<Longrightarrow> int (length xs) < n \<Longrightarrow> alloc n p = Inl ValueError"
    and acquire_counts: "rep p xs \<Longrightarrow> set bs \<subseteq> ordinary p \<Longrightarrow>
           \<exists>p'. acquire bs p = Inr p' \<and> rep p' (filter (\<lambda>b. b \<notin> set bs) xs) \<and> ordinary p' = ordinary p \<and>
                cnt p' = (\<lambda>b. cnt p b + int (count_list bs b))"
    and release_counts: "rep p xs \<Longrightarrow> set bs \<subseteq> ordinary p \<Longrightarrow> distinct bs \<Longrightarrow> (\<forall>b \<in> set bs. 1 \<le> cnt p b) \<Longrightarrow>
           \<exists>p'. release bs p = Inr p' \<and> rep p' (xs @ filter (\<lambda>b. cnt p b = 1) bs) \<and> ordinary p' = ordinary p \<and>
                cnt p' = (\<lambda>b. cnt p b - int (count_list bs b))"
begin

text \<open>Free and used blocks partition the pool.\<close>

lemma conservation:
  assumes "rep p xs"
  shows "length xs + card {b \<in> ordinary p. 0 < cnt p b} = card (ordinary p)"
proof -
  have "set xs \<inter> {b \<in> ordinary p. 0 < cnt p b} = {}" "set xs \<union> {b \<in> ordinary p. 0 < cnt p b} = ordinary p"
    using free_iff [OF assms] cnt_nonneg [OF assms] by (auto simp: order_le_less)
  with finite_ordinary [OF assms] card_Un_disjoint [of "set xs" "{b \<in> ordinary p. 0 < cnt p b}"]
  show ?thesis using free_distinct [OF assms] by (simp add: distinct_card)
qed

lemma alloc_exact:
  assumes "rep p xs" "0 \<le> n"
  shows "alloc n p = Inl ValueError \<longleftrightarrow> int (length xs) < n"
proof
  assume err: "alloc n p = Inl ValueError"
  show "int (length xs) < n"
  proof (rule ccontr)
    assume "\<not> int (length xs) < n"
    then have "rep p (take (nat n) xs @ drop (nat n) xs)" "int (length (take (nat n) xs)) = n"
      using assms by simp_all
    with alloc_front [of p "take (nat n) xs" "drop (nat n) xs"] err show False by auto
  qed
qed (rule alloc_short [OF assms(1)])

lemma alloc_release:
  assumes "rep p (zs @ ys)"
  shows "\<exists>p1 p2. alloc (int (length zs)) p = Inr (zs, p1) \<and> release zs p1 = Inr p2 \<and> rep p2 (ys @ zs) \<and> cnt p2 = cnt p"
proof -
  from alloc_front [OF assms] obtain p1 where p1: "alloc (int (length zs)) p = Inr (zs, p1)" "rep p1 ys"
    "ordinary p1 = ordinary p" "cnt p1 = (\<lambda>b. if b \<in> set zs then 1 else cnt p b)" by auto
  have zs: "distinct zs" "set zs \<subseteq> ordinary p1" "\<forall>b \<in> set zs. cnt p b = 0" "\<forall>b \<in> set zs. 1 \<le> cnt p1 b"
    using free_distinct [OF assms] free_iff [OF assms] p1 by auto
  from release_counts [OF p1(2) zs(2,1,4)] obtain p2 where p2: "release zs p1 = Inr p2"
    "rep p2 (ys @ filter (\<lambda>b. cnt p1 b = 1) zs)" "cnt p2 = (\<lambda>b. cnt p1 b - int (count_list zs b))" by auto
  have "filter (\<lambda>b. cnt p1 b = 1) zs = zs" by (simp add: p1(4) filter_id_conv)
  moreover have "cnt p2 = cnt p" using p2(3) p1(4) zs by (auto simp: count_list_distinct fun_eq_iff)
  ultimately show ?thesis using p1(1) p2 by auto
qed

lemma acquire_release:
  assumes "rep p xs" "set bs \<subseteq> ordinary p" "distinct bs"
  shows "\<exists>p1 p2. acquire bs p = Inr p1 \<and> release bs p1 = Inr p2 \<and> cnt p2 = cnt p \<and>
    rep p2 (filter (\<lambda>b. b \<notin> set bs) xs @ filter (\<lambda>b. b \<in> set xs) bs)"
proof -
  from acquire_counts [OF assms(1,2)] obtain p1 where p1: "acquire bs p = Inr p1"
    "rep p1 (filter (\<lambda>b. b \<notin> set bs) xs)" "ordinary p1 = ordinary p" "cnt p1 = (\<lambda>b. cnt p b + int (count_list bs b))" by auto
  have ge: "\<forall>b \<in> set bs. 1 \<le> cnt p1 b"
    using cnt_nonneg [OF assms(1)] assms(2,3) p1(4) by (auto simp: count_list_distinct)
  from release_counts [OF p1(2) _ assms(3) ge] assms(2) p1(3) obtain p2 where p2: "release bs p1 = Inr p2"
    "rep p2 (filter (\<lambda>b. b \<notin> set bs) xs @ filter (\<lambda>b. cnt p1 b = 1) bs)"
    "cnt p2 = (\<lambda>b. cnt p1 b - int (count_list bs b))" by auto
  have "filter (\<lambda>b. cnt p1 b = 1) bs = filter (\<lambda>b. b \<in> set xs) bs"
    by (rule filter_cong) (use free_iff [OF assms(1)] assms(2,3) p1(4) in \<open>auto simp: count_list_distinct\<close>)
  moreover have "cnt p2 = cnt p" using p1(4) p2(3) by auto
  ultimately show ?thesis using p1(1) p2 by auto
qed

end

interpretation bp: refcount_pool get_new_blocks touch free_blocks pool_rep refs "\<lambda>p. set (blocks p) - {null_block p}"
proof
  fix p xs bs
  assume rep: "pool_rep p xs" and bs: "set bs \<subseteq> set (blocks p) - {null_block p}"
  then have sub: "set bs \<subseteq> set (blocks p)" by blast
  show "\<exists>p'. touch bs p = Inr p' \<and> pool_rep p' (filter (\<lambda>b. b \<notin> set bs) xs) \<and>
      set (blocks p') - {null_block p'} = set (blocks p) - {null_block p} \<and> refs p' = (\<lambda>b. refs p b + int (count_list bs b))"
    using touch_spec [OF rep sub] by (auto simp: same_pool_def)
  assume "distinct bs" and ge: "\<forall>b \<in> set bs. 1 \<le> refs p b"
  moreover have "filter (\<lambda>b. b \<noteq> null_block p) bs = bs" "filter (\<lambda>b. b \<noteq> null_block p \<and> refs p b = 1) bs = filter (\<lambda>b. refs p b = 1) bs"
    using bs by (auto simp: filter_id_conv intro!: filter_cong)
  ultimately show "\<exists>p'. free_blocks bs p = Inr p' \<and> pool_rep p' (xs @ filter (\<lambda>b. refs p b = 1) bs) \<and>
      set (blocks p') - {null_block p'} = set (blocks p) - {null_block p} \<and> refs p' = (\<lambda>b. refs p b - int (count_list bs b))"
    using free_blocks_spec [OF rep sub] by (auto simp: same_pool_def)
next
  fix p zs ys
  assume "pool_rep p (zs @ ys)"
  from get_new_blocks_spec [OF this]
  show "\<exists>p'. get_new_blocks (int (length zs)) p = Inr (zs, p') \<and> pool_rep p' ys \<and>
      set (blocks p') - {null_block p'} = set (blocks p) - {null_block p} \<and> refs p' = (\<lambda>b. if b \<in> set zs then 1 else refs p b)"
    by (auto simp: same_pool_def)
next
  fix p xs b
  assume rep: "pool_rep p xs"
  show "finite (set (blocks p) - {null_block p})" by simp
  show "distinct xs" using rep by (rule pool_repD)
  show "b \<in> set xs \<longleftrightarrow> b \<in> set (blocks p) - {null_block p} \<and> refs p b = 0" using pool_repD(6) [OF rep] by blast
  show "b \<in> set (blocks p) - {null_block p} \<Longrightarrow> 0 \<le> refs p b" using pool_repD(3) [OF rep] by (auto simp: pool_free_def)
qed (rule get_new_blocks_short)


section \<open>Reachable pools\<close>

lemma cache_loop_inv:
  assumes "pool_rep p xs" "set bs \<subseteq> set (blocks p)" "cache_loop gid hs i bs new p = Inr (new', p')"
  shows "pool_rep p' xs \<and> same_pool p p'"
  using assms
proof (induction bs arbitrary: p i new)
  case (Cons b bs)
  note pD = pool_repD [OF Cons.prems(1)]
  have null: "is_null (blk p b) \<longleftrightarrow> b = null_block p" using pool_tableD(1) [OF pD(1)] Cons.prems(2) by auto
  show ?case
  proof (cases "b = null_block p")
    case True
    with Cons null show ?thesis by simp
  next
    case False
    with Cons.prems(3) null have h: "hashes p b = None" by (auto simp: hashes_def split: if_splits)
    from Cons.prems(3) null False obtain p1 new1 where
      p1: "cache_one gid (hs ! i) b p = Inr p1" "cache_loop gid hs (i + 1) bs new1 p1 = Inr (new', p')"
      by (auto simp: res_simps split: if_splits)
    from p1(1) obtain key where "make_block_hash_with_group_id (hs ! i) gid = Inr key"
      by (auto simp: cache_one_def res_simps)
    from cache_one_spec [OF Cons.prems(1) _ False h this] Cons.prems(2) p1(1)
    have "pool_rep p1 xs" "same_pool p p1" by auto
    with Cons.IH [OF _ _ p1(2)] Cons.prems(2) same_pool_trans show ?thesis by (simp add: same_pool_def)
  qed
qed simp

lemma cache_full_blocks_inv:
  assumes "pool_rep p xs" "set bs \<subseteq> set (blocks p)" "cache_full_blocks sha256 r bs nc nf bsz gid p = Inr (p', r')"
  shows "pool_rep p' xs \<and> same_pool p p'"
proof (cases "nf \<le> nc")
  case False
  obtain v where v: "block_hashes_for (hash_block_size p) bsz (block_hashes r) = Inr v"
    using assms(3) False by (auto simp: cache_full_blocks_def res_simps split: if_splits)
  obtain new p1 where p1: "cache_loop gid (drop nc (bhl_values v)) 0 (py_slice nc nf bs) [] p = Inr (new, p1)"
    using assms(3) False v
    by (cases "cache_loop gid (drop nc (bhl_values v)) 0 (py_slice nc nf bs) [] p")
       (auto simp: cache_full_blocks_def split: if_splits)
  have events: "\<exists>evs. p' = p1\<lparr>kv_event_queue := evs\<rparr>"
  proof (cases "enable_kv_cache_events p")
    case True
    with assms(3) False v p1 show ?thesis
      by (simp add: cache_full_blocks_def rbind_eq_Inr split: if_splits) blast+
  next
    case no_events: False
    with assms(3) False v p1 have "p' = p1\<lparr>kv_event_queue := kv_event_queue p1\<rparr>"
      by (simp add: cache_full_blocks_def split: if_splits)
    then show ?thesis by blast
  qed
  have "set (py_slice nc nf bs) \<subseteq> set (blocks p)"
    using assms(2) by (rule subset_trans [OF set_py_slice])
  from cache_loop_inv [OF assms(1) this p1] have "pool_rep p1 xs" "same_pool p p1" by simp_all
  moreover from events obtain evs where "p' = p1\<lparr>kv_event_queue := evs\<rparr>" by blast
  ultimately show ?thesis by (simp add: same_pool_def)
qed (use assms in \<open>auto simp: cache_full_blocks_def\<close>)

lemma evict_blocks_inv:
  assumes "pool_rep p xs" "evict_blocks ids p = Inr p'"
  shows "pool_rep p' xs"
proof (rule fold_res_inv [where I = "\<lambda>q. pool_rep q xs"])
  show "fold_res evict_step ids p = Inr p'" using assms(2) by (simp add: evict_blocks_def)
  show "pool_rep q' xs" if "pool_rep q xs" "evict_step i q = Inr q'" for i q q'
  proof -
    let ?n = "int (length (blocks q))" and ?k = "nat (if i < 0 then i + int (length (blocks q)) else i)"
    have "?k < length (blocks q)" "q' = snd (maybe_evict_cached_block (blocks q ! ?k) q)"
      using that(2) by (auto simp: evict_step_def Let_def split: if_splits)
    with evict_keeps [OF that(1) nth_mem] show ?thesis by auto
  qed
qed (rule assms(1))

text \<open>
  The operations as steps, with what their callers guarantee: blocks belong to the pool, and a
  batch that is freed holds each ordinary block once and references it.
\<close>

inductive pool_step :: "(bytes \<Rightarrow> bytes) \<Rightarrow> block_pool \<Rightarrow> block_pool \<Rightarrow> bool" for sha256 where
  allocated: "0 \<le> n \<Longrightarrow> get_new_blocks n p = Inr (bs, p') \<Longrightarrow> pool_step sha256 p p'"
| touched: "set bs \<subseteq> set (blocks p) \<Longrightarrow> touch bs p = Inr p' \<Longrightarrow> pool_step sha256 p p'"
| freed: "set bs \<subseteq> set (blocks p) \<Longrightarrow> distinct (filter (\<lambda>b. b \<noteq> null_block p) bs) \<Longrightarrow>
    \<forall>b \<in> set bs. b \<noteq> null_block p \<longrightarrow> 1 \<le> refs p b \<Longrightarrow> free_blocks bs p = Inr p' \<Longrightarrow> pool_step sha256 p p'"
| cached: "set bs \<subseteq> set (blocks p) \<Longrightarrow> cache_full_blocks sha256 r bs nc nf bsz gid p = Inr (p', r') \<Longrightarrow>
    pool_step sha256 p p'"
| evicted: "evict_blocks ids p = Inr p' \<Longrightarrow> pool_step sha256 p p'"
| reset: "reset_prefix_cache p = (done, p') \<Longrightarrow> pool_step sha256 p p'"
| drained: "take_events p = (evs, p') \<Longrightarrow> pool_step sha256 p p'"

inductive_cases pool_stepE: "pool_step sha256 p p'"

lemma pool_step_inv:
  assumes "pool_step sha256 p p'" "pool_inv p"
  shows "pool_inv p'"
proof -
  from assms(2) obtain xs where rep: "pool_rep p xs" by (auto simp: pool_inv_def)
  have "\<exists>ys. pool_rep p' ys"
    using assms(1)
  proof cases
    case (allocated n bs)
    then have "nat n \<le> length xs" using get_new_blocks_short [OF rep, of n] by force
    then have rep2: "pool_rep p (take (nat n) xs @ drop (nat n) xs)" "int (length (take (nat n) xs)) = n"
      using rep allocated(1) by simp_all
    from get_new_blocks_spec [OF rep2(1)] rep2(2) allocated show ?thesis by auto
  next
    case (touched bs)
    then show ?thesis using touch_spec [OF rep, of bs] by auto
  next
    case (freed bs)
    then show ?thesis using free_blocks_spec [OF rep, of bs] by auto
  next
    case (cached bs r nc nf bsz gid r')
    then show ?thesis using cache_full_blocks_inv [OF rep] by blast
  next
    case (evicted ids)
    then show ?thesis using evict_blocks_inv [OF rep] by blast
  next
    case (reset ok)
    then show ?thesis using reset_prefix_cache_spec [OF rep] by blast
  next
    case (drained evs)
    then show ?thesis using rep by (auto simp: take_events_def split: if_splits)
  qed
  then show ?thesis by (simp add: pool_inv_def)
qed


lemma pool_reach_inv:
  assumes "(pool_step sha256)\<^sup>*\<^sup>* p0 p" "pool_inv p0"
  shows "pool_inv p"
  using assms by (induction rule: rtranclp_induct) (auto intro: pool_step_inv)

lemma BlockPool_inv: "BlockPool n caching hbs events use_int = Inr p \<Longrightarrow> pool_inv p"
  using BlockPool_spec [of n caching hbs events use_int]
  by (cases "0 < n") (auto simp: pool_inv_def BlockPool_def)

section \<open>Properties\<close>

text \<open>
  C13. In every pool reachable from a new one by allocating, touching, freeing, caching,
  evicting, resetting and draining events, the free list holds exactly the blocks other than the
  null block with reference count zero, no count is negative, and the hash index and the
  hashes stored in the blocks agree in both directions.
\<close>

theorem pool_reachable_invariant:
  assumes "BlockPool n caching hbs events use_int = Inr p0" "(pool_step sha256)\<^sup>*\<^sup>* p0 p"
  shows "\<exists>xs. get_all_free_blocks (free_block_queue p) = Some (Inr xs) \<and> distinct xs \<and>
    (\<forall>b \<in> set (blocks p). b \<noteq> null_block p \<longrightarrow> 0 \<le> refs p b \<and> (b \<in> set xs \<longleftrightarrow> refs p b = 0)) \<and>
    (\<forall>key b. b \<in> set (bm_blocks (cached_block_hash_to_block p) key) \<longleftrightarrow>
       b \<in> set (blocks p) \<and> b \<noteq> null_block p \<and> hashes p b = Some key)"
proof -
  from pool_reach_inv [OF assms(2) BlockPool_inv [OF assms(1)]] obtain xs where rep: "pool_rep p xs"
    by (auto simp: pool_inv_def)
  note pD = pool_repD [OF rep]
  show ?thesis
    using get_all_free_blocks_refines [OF pD(4)] pD(2,3,5,6)
    by (intro exI [of _ xs]) (auto simp: pool_index_def pool_free_def)
qed

theorem pool_reachable_invariant_witness:
  "\<exists>p0 bs p. BlockPool 3 True 16 False False = Inr p0 \<and> get_new_blocks 1 p0 = Inr (bs, p) \<and>
     (\<exists>xs. get_all_free_blocks (free_block_queue p) = Some (Inr xs) \<and> distinct xs)"
proof -
  from BlockPool_spec [of 3 True 16 False False] obtain p0 where
    p0: "BlockPool 3 True 16 False False = Inr p0" "pool_rep p0 (map Blk [1..<3])" by auto
  then have rep: "pool_rep p0 ([Blk 1] @ [Blk 2])" by (simp add: upt_rec numeral_2_eq_2 numeral_3_eq_3)
  from get_new_blocks_spec [OF rep] obtain p where p: "get_new_blocks 1 p0 = Inr ([Blk 1], p)" by auto
  have "(pool_step id)\<^sup>*\<^sup>* p0 p" using p by (intro r_into_rtranclp, intro allocated) auto
  from pool_reachable_invariant [OF p0(1) this] p0(1) p show ?thesis by blast
qed

text \<open>
  C21. No block is lost or counted twice: free blocks, referenced blocks and the null block add up
  to the size of the pool, so the reported usage is the share of referenced blocks
  and lies between 0 and 1.
\<close>

theorem pool_conservation:
  assumes "pool_inv p"
  shows "get_num_free_blocks p + int (card {b \<in> set (blocks p) - {null_block p}. 0 < refs p b}) + 1 = num_gpu_blocks p \<and>
    get_usage p = (if num_gpu_blocks p = 1 then 0 else
      real (card {b \<in> set (blocks p) - {null_block p}. 0 < refs p b}) / real_of_int (num_gpu_blocks p - 1)) \<and>
    0 \<le> get_usage p \<and> get_usage p \<le> 1"
proof -
  from assms obtain xs where rep: "pool_rep p xs" by (auto simp: pool_inv_def)
  note pD = pool_repD [OF rep]
  let ?used = "card {b \<in> set (blocks p) - {null_block p}. 0 < refs p b}"
  have pos: "0 < num_gpu_blocks p" using pD(1) by (simp add: pool_table_def)
  have "card (set (blocks p) - {null_block p}) = nat (num_gpu_blocks p) - 1"
    using pD(1) by (auto simp: pool_table_def card_image inj_on_def)
  with bp.conservation [OF rep] have "int (length xs) + int ?used = num_gpu_blocks p - 1"
    using pos by (simp add: nat_eq_iff)
  then have sum: "get_num_free_blocks p + int ?used + 1 = num_gpu_blocks p" "0 \<le> get_num_free_blocks p"
    using pD(7) by simp_all
  let ?t = "real_of_int (num_gpu_blocks p - 1)"
  have free: "real_of_int (get_num_free_blocks p) = ?t - real ?used" using sum by linarith
  have usage: "get_usage p = (if num_gpu_blocks p = 1 then 0 else real ?used / ?t)"
    using pos by (simp add: get_usage_def Let_def free diff_divide_distrib)
  have "0 \<le> ?t - real ?used" using sum(2) unfolding free [symmetric] by simp
  then have "0 \<le> get_usage p" "get_usage p \<le> 1" unfolding usage using pos by (auto simp: divide_le_eq_1)
  with sum(1) usage show ?thesis by blast
qed

theorem pool_conservation_witness:
  "\<exists>p. BlockPool 4 True 16 False False = Inr p \<and> get_num_free_blocks p \<le> 3 \<and> 0 \<le> get_usage p"
proof -
  from BlockPool_spec [of 4 True 16 False False] obtain p where
    p: "BlockPool 4 True 16 False False = Inr p" "num_gpu_blocks p = 4" by auto
  from pool_conservation [OF BlockPool_inv [OF p(1)]] p show ?thesis by auto
qed

text \<open>
  C20. Allocation is exact: asking for \<open>n\<close> blocks raises \<^verbatim>\<open>ValueError\<close> if and only if fewer
  than \<open>n\<close> are free; otherwise it returns the first \<open>n\<close> in eviction order, each with count one and, with
  caching on, without a hash, and leaves the counts and hashes of all other blocks alone.
\<close>

theorem allocation_exact:
  assumes "pool_rep p xs"
  shows "case get_new_blocks (int n) p of
      Inl err \<Rightarrow> err = ValueError \<and> length xs < n
    | Inr (bs, p') \<Rightarrow> n \<le> length xs \<and> bs = take n xs \<and> pool_rep p' (drop n xs) \<and>
        (\<forall>b. refs p' b = (if b \<in> set bs then 1 else refs p b) \<and>
             hashes p' b = (if b \<in> set bs \<and> enable_caching p then None else hashes p b))"
proof (cases "n \<le> length xs")
  case True
  then have "pool_rep p (take n xs @ drop n xs)" "length (take n xs) = n" using assms by simp_all
  with get_new_blocks_spec [of p "take n xs" "drop n xs"] True show ?thesis by auto
next
  case False
  with bp.alloc_short [OF assms, of "int n"] show ?thesis by simp
qed

theorem allocation_exact_witness:
  "\<exists>p p'. BlockPool 3 True 16 False False = Inr p \<and> get_new_blocks 2 p = Inr ([Blk 1, Blk 2], p') \<and> refs p' (Blk 2) = 1"
proof -
  from BlockPool_spec [of 3 True 16 False False] obtain p where
    p: "BlockPool 3 True 16 False False = Inr p" "pool_rep p (map Blk [1..<3])" by auto
  then have rep: "pool_rep p [Blk 1, Blk 2]" by (simp add: upt_rec numeral_2_eq_2 numeral_3_eq_3)
  from allocation_exact [OF rep, of 2] p(1) show ?thesis by (auto split: sum.splits)
qed

text \<open>
  C27. Acquiring a set of blocks and releasing it again restores every reference count; the
  blocks that were free before are free again, at the end of the eviction order.
\<close>

theorem touch_free_restores:
  assumes "pool_rep p xs" "set bs \<subseteq> set (blocks p) - {null_block p}" "distinct bs"
  shows "\<exists>p1 p2. touch bs p = Inr p1 \<and> free_blocks bs p1 = Inr p2 \<and> refs p2 = refs p \<and>
    pool_rep p2 (filter (\<lambda>b. b \<notin> set bs) xs @ filter (\<lambda>b. b \<in> set xs) bs)"
  using assms by (rule bp.acquire_release)

theorem touch_free_restores_witness:
  "\<exists>p p1 p2. BlockPool 4 True 16 False False = Inr p \<and> touch [Blk 2] p = Inr p1 \<and> free_blocks [Blk 2] p1 = Inr p2 \<and>
     pool_rep p2 [Blk 1, Blk 3, Blk 2]"
proof -
  from BlockPool_spec [of 4 True 16 False False] obtain p where
    p: "BlockPool 4 True 16 False False = Inr p" "pool_rep p (map Blk [1..<4])" by auto
  then have rep: "pool_rep p [Blk 1, Blk 2, Blk 3]" by (simp add: upt_rec numeral_2_eq_2 numeral_3_eq_3)
  from touch_free_restores [OF rep, of "[Blk 2]"] pool_repD(6) [OF rep, of "Blk 2"] p(1) show ?thesis by auto
qed


text \<open>The hash of block \<open>j\<close> of a request whose hashes are kept for pieces, \<open>k\<close> of which make a block.\<close>

definition span_hash :: "bytes list \<Rightarrow> nat \<Rightarrow> nat \<Rightarrow> bytes" where
  "span_hash hs k j = concat (py_slice (j * k) (j * k + k) hs)"

lemma block_hashes_for_spans:
  assumes "0 < hbs" "0 < bsz" "hbs dvd bsz" "nf * (bsz div hbs) \<le> length hs"
  shows "\<exists>v. block_hashes_for hbs bsz hs = Inr v \<and> nf \<le> length (bhl_values v) \<and> (\<forall>j < nf. bhl_values v ! j = span_hash hs (bsz div hbs) j)"
proof -
  let ?k = "bsz div hbs"
  have k: "0 < ?k" using assms(1-3) by (auto simp: div_greater_zero_iff dest: dvd_imp_le)
  then have nf: "nf \<le> length hs div ?k" using assms(4) by (simp add: less_eq_div_iff_mult_less_eq)
  have span: "merged_hash hs ?k j = span_hash hs ?k j" if "j < nf" for j
    using merged_hash_slice [OF k chunk_end [of j hs]] that nf by (simp add: span_hash_def)
  have one: "hs ! j = span_hash hs 1 j" if "j < length hs" for j
    using that by (simp add: span_hash_def py_slice_def take_Suc_conv_app_nth hd_drop_conv_nth take_Suc)
  show ?thesis
  proof (cases "bsz = hbs")
    case True
    then show ?thesis using assms(1) nf one by (simp add: block_hashes_for_def)
  next
    case False
    then show ?thesis using assms(3) nf span by (simp add: block_hashes_for_def BlockHashListWithBlockSize_def)
  qed
qed

text \<open>
  C14. What is cached is found. Let the block size be a multiple of the hash block size of the pool, equal to it or
  larger; the hash of a block is then the concatenation of the hashes of its pieces. Caching the full blocks
  \<open>nc..nf\<close> of a request (none of them hashed yet) never raises, changes no reference count and no
  other block's hash, and gives each of the blocks its hash in the group; a lookup of that hash in the group hits a block that
  carries it. Any lookup in the group returns a block that carries the hash asked for, and misses only if no block of the pool does.
\<close>

theorem cached_blocks_are_found:
  assumes "pool_rep p xs" "set bs \<subseteq> set (blocks p)" "nf \<le> length bs"
    and "distinct (filter (\<lambda>b. b \<noteq> null_block p) bs)"
    and "\<forall>b \<in> set (py_slice nc nf bs). b \<noteq> null_block p \<longrightarrow> hashes p b = None"
    and "0 < hash_block_size p" "0 < block_size" "hash_block_size p dvd block_size"
    and "nf * (block_size div hash_block_size p) \<le> length (block_hashes r)" "0 \<le> gid" "gid < 2 ^ 32"
  shows "\<exists>p' r'. cache_full_blocks sha256 r bs nc nf block_size gid p = Inr (p', r') \<and>
    pool_rep p' xs \<and> refs p' = refs p \<and>
    (\<forall>b. b \<notin> set (py_slice nc nf bs) \<or> b = null_block p \<longrightarrow> hashes p' b = hashes p b) \<and>
    (\<forall>j. nc \<le> j \<longrightarrow> j < nf \<longrightarrow> bs ! j \<noteq> null_block p \<longrightarrow>
       (let h = span_hash (block_hashes r) (block_size div hash_block_size p) j
        in carries p' (bs ! j) h gid \<and> (\<exists>b. get_cached_block p' h [gid] = Inr (Some [b]) \<and> carries p' b h gid))) \<and>
    (\<forall>h. (\<exists>b \<in> set (blocks p'). b \<noteq> null_block p' \<and> carries p' b h gid \<and> get_cached_block p' h [gid] = Inr (Some [b])) \<or>
       (\<forall>b \<in> set (blocks p'). b \<noteq> null_block p' \<longrightarrow> \<not> carries p' b h gid) \<and> get_cached_block p' h [gid] = Inr None)"
proof -
  let ?h = "span_hash (block_hashes r) (block_size div hash_block_size p)"
  have sub: "set (py_slice nc nf bs) \<subseteq> set (blocks p)" using assms(2) by (rule subset_trans [OF set_py_slice])
  have dist: "distinct (filter (\<lambda>b. b \<noteq> null_block p) (py_slice nc nf bs))"
    using assms(4) unfolding py_slice_def
    by (metis append_take_drop_id distinct_append filter_append)
  have "0 < block_size div hash_block_size p" using assms(6-8) by (auto simp: div_greater_zero_iff dest: dvd_imp_le)
  then have len: "nf \<le> length (block_hashes r)" using assms(9) by (cases "block_size div hash_block_size p") auto
  from block_hashes_for_spans [OF assms(6-9)] obtain v where
    v: "block_hashes_for (hash_block_size p) block_size (block_hashes r) = Inr v" "nf \<le> length (bhl_values v)"
      "\<forall>j < nf. bhl_values v ! j = ?h j" by blast
  from cache_full_blocks_spec [OF assms(1) sub assms(3) dist assms(5) len v(1,2) assms(10,11), of sha256] v(3)
  obtain p' m where p': "cache_full_blocks sha256 r bs nc nf block_size gid p = Inr (p', r\<lparr>prompt_embeds_per_block_hashes := m\<rparr>)"
    "pool_rep p' xs" "same_pool p p'" "refs p' = refs p"
    "\<forall>j. nc \<le> j \<longrightarrow> j < nf \<longrightarrow> bs ! j \<noteq> null_block p \<longrightarrow> carries p' (bs ! j) (?h j) gid"
    "\<forall>b. b \<notin> set (py_slice nc nf bs) \<or> b = null_block p \<longrightarrow> hashes p' b = hashes p b" by auto
  have look: "(\<exists>b \<in> set (blocks p'). b \<noteq> null_block p' \<and> carries p' b h gid \<and> get_cached_block p' h [gid] = Inr (Some [b])) \<or>
       (\<forall>b \<in> set (blocks p'). b \<noteq> null_block p' \<longrightarrow> \<not> carries p' b h gid) \<and> get_cached_block p' h [gid] = Inr None" for h
    by (rule get_cached_one [OF p'(2) assms(10,11), of h]) blast+
  have "\<exists>b. get_cached_block p' (?h j) [gid] = Inr (Some [b]) \<and> carries p' b (?h j) gid"
    if j: "nc \<le> j" "j < nf" "bs ! j \<noteq> null_block p" for j
  proof -
    have "bs ! j \<in> set (blocks p')" "bs ! j \<noteq> null_block p'" "carries p' (bs ! j) (?h j) gid"
      using j assms(2,3) p'(3,5) nth_mem [of j bs] by (auto simp: same_pool_def)
    then show ?thesis using look [of "?h j"] by blast
  qed
  with p' look show ?thesis unfolding Let_def by blast
qed

text \<open>Four hashes of one token each, cached as two blocks of two tokens.\<close>

theorem cached_blocks_are_found_witness:
  "\<exists>r p p' r'. text_request [6, 7, 8, 9] = Inr r \<and> BlockPool 3 True 1 False False = Inr p \<and>
     cache_full_blocks id r [Blk 1, Blk 2] 0 2 2 0 p = Inr (p', r') \<and>
     (let h = block_hashes r ! 2 @ block_hashes r ! 3
      in carries p' (Blk 2) h 0 \<and> (\<exists>b. get_cached_block p' h [0] = Inr (Some [b]) \<and> carries p' b h 0))"
proof -
  from text_request_exists [of "[6, 7, 8, 9]"] obtain r where r: "text_request [6, 7, 8, 9] = Inr r"
    "hashed_request id tagging_hash [0] 1 r" "all_token_ids r = [6, 7, 8, 9]" "mm_settled 1 r" by auto
  have len: "length (block_hashes r) = 4"
    using hashed_request_ok [OF r(2) _ r(4)] by (simp add: hashes_ok_def num_tokens_def r(3))
  then obtain h0 h1 h2 h3 where hs: "block_hashes r = [h0, h1, h2, h3]" by (auto simp: numeral_eq_Suc length_Suc_conv)
  from BlockPool_spec [of 3 True 1 False False] obtain p where p: "BlockPool 3 True 1 False False = Inr p"
    "pool_rep p (map Blk [1..<nat 3])" "\<forall>b \<in> set (blocks p). refs p b = 0 \<and> hashes p b = None" "hash_block_size p = 1"
    "num_gpu_blocks p = 3" by auto
  have tab: "blocks p = [Blk 0, Blk 1, Blk 2]" "null_block p = Blk 0"
    using pool_repD(1) [OF p(2)] p(5) by (auto simp: pool_table_def upt_rec numeral_2_eq_2)
  have pre: "set [Blk 1, Blk 2] \<subseteq> set (blocks p)" "2 \<le> length [Blk 1, Blk 2]" "distinct (filter (\<lambda>b. b \<noteq> null_block p) [Blk 1, Blk 2])"
    "\<forall>b \<in> set (py_slice 0 2 [Blk 1, Blk 2]). b \<noteq> null_block p \<longrightarrow> hashes p b = None"
    "0 < hash_block_size p" "0 < (2 :: nat)" "hash_block_size p dvd 2" "2 * (2 div hash_block_size p) \<le> length (block_hashes r)"
    "(0 :: int) \<le> 0" "(0 :: int) < 2 ^ 32"
    using p(3,4) tab len by (simp_all add: py_slice_def)
  from cached_blocks_are_found [OF p(2) pre, of id] obtain p' r' where
    run: "cache_full_blocks id r [Blk 1, Blk 2] 0 2 2 0 p = Inr (p', r')"
      "\<forall>j \<ge> 0. j < 2 \<longrightarrow> [Blk 1, Blk 2] ! j \<noteq> null_block p \<longrightarrow>
        (let h = span_hash (block_hashes r) (2 div hash_block_size p) j
         in carries p' ([Blk 1, Blk 2] ! j) h 0 \<and> (\<exists>b. get_cached_block p' h [0] = Inr (Some [b]) \<and> carries p' b h 0))" by blast
  have "span_hash (block_hashes r) (2 div hash_block_size p) 1 = block_hashes r ! 2 @ block_hashes r ! 3"
    using p(4) by (simp add: hs span_hash_def py_slice_def)
  with run(2) [rule_format, of 1] tab r(1) p(1) run(1) show ?thesis by (auto simp: Let_def)
qed

end
