(* ===== verification/Cache_Manager.thy ===== *)
theory Cache_Manager
  imports Block_Pool
begin

text \<open>
  \<^verbatim>\<open>vllm/v1/core/single_type_kv_cache_manager.py\<close>: the managers that keep, for one
  group of layers, the block table of every request. The base class and the managers for full,
  sliding-window, chunked-local and cross attention are modelled; the class of a manager
  is read off its spec.

  The block pool is shared by all managers, so every operation takes the pool and returns it.
  \<^verbatim>\<open>req_to_blocks\<close> is a \<^verbatim>\<open>defaultdict\<close>: indexing it with an unknown
  request creates an empty entry (\<open>ensure_req\<close>).
\<close>

section \<open>Model\<close>

datatype kv_cache_spec =
    FullAttentionSpec nat
  | MLAAttentionSpec nat
  | SlidingWindowSpec nat int
  | ChunkedLocalAttentionSpec nat int
  | CrossAttentionSpec nat

fun spec_block_size :: "kv_cache_spec \<Rightarrow> nat" where
  "spec_block_size (FullAttentionSpec bs) = bs"
| "spec_block_size (MLAAttentionSpec bs) = bs"
| "spec_block_size (SlidingWindowSpec bs _) = bs"
| "spec_block_size (ChunkedLocalAttentionSpec bs _) = bs"
| "spec_block_size (CrossAttentionSpec bs) = bs"

record cache_manager =
  kv_cache_spec :: kv_cache_spec
  block_size :: nat
  mgr_enable_caching :: bool
  new_block_ids :: "int list"
  req_to_blocks :: "(string, block_ref list) pydict"
  num_cached_block :: "(string, nat) pydict"
  kv_cache_group_id :: int
  mgr_null_block :: block_ref

definition SingleTypeKVCacheManager :: "kv_cache_spec \<Rightarrow> block_pool \<Rightarrow> bool \<Rightarrow> int \<Rightarrow> nat \<Rightarrow> nat \<Rightarrow> cache_manager" where
  "SingleTypeKVCacheManager spec p caching gid dcp pcp =
     \<lparr>kv_cache_spec = spec,
      block_size = (if 1 < dcp * pcp then spec_block_size spec * (dcp * pcp) else spec_block_size spec),
      mgr_enable_caching = caching, new_block_ids = [], req_to_blocks = [], num_cached_block = [],
      kv_cache_group_id = gid, mgr_null_block = null_block p\<rparr>"

definition req_blocks :: "string \<Rightarrow> cache_manager \<Rightarrow> block_ref list" where
  "req_blocks rid m = dict_val [] (req_to_blocks m) rid"

definition ncached :: "string \<Rightarrow> cache_manager \<Rightarrow> nat" where
  "ncached rid m = dict_val 0 (num_cached_block m) rid"

definition set_req_blocks :: "string \<Rightarrow> block_ref list \<Rightarrow> cache_manager \<Rightarrow> cache_manager" where
  "set_req_blocks rid bs m = m\<lparr>req_to_blocks := dict_set rid bs (req_to_blocks m)\<rparr>"

definition ensure_req :: "string \<Rightarrow> cache_manager \<Rightarrow> cache_manager" where
  "ensure_req rid m = set_req_blocks rid (req_blocks rid m) m"

definition is_running :: "string \<Rightarrow> cache_manager \<Rightarrow> bool" where
  "is_running rid m \<longleftrightarrow> dict_get (num_cached_block m) rid \<noteq> None"

fun is_full_spec :: "kv_cache_spec \<Rightarrow> bool" where
  "is_full_spec (FullAttentionSpec _) = True"
| "is_full_spec _ = False"

text \<open>\<^verbatim>\<open>get_num_skipped_tokens\<close>, overridden by the managers with a window.\<close>

fun get_num_skipped_tokens :: "kv_cache_spec \<Rightarrow> int \<Rightarrow> int" where
  "get_num_skipped_tokens (SlidingWindowSpec _ window) n = max 0 (n - window + 1)"
| "get_num_skipped_tokens (ChunkedLocalAttentionSpec _ chunk) n = n div chunk * chunk"
| "get_num_skipped_tokens _ n = 0"

definition get_num_evictable_blocks :: "block_pool \<Rightarrow> block_ref list \<Rightarrow> int" where
  "get_num_evictable_blocks p bs = int (length (filter (\<lambda>b. ref_cnt (blk p b) = 0 \<and> \<not> is_null (blk p b)) bs))"

definition get_num_blocks_to_allocate ::
  "string \<Rightarrow> int \<Rightarrow> block_ref list \<Rightarrow> int \<Rightarrow> cache_manager \<Rightarrow> block_pool \<Rightarrow> int res" where
  "get_num_blocks_to_allocate rid ntok new_computed total_computed m p =
     (let required = cdiv ntok (int (block_size m));
          have = int (length (req_blocks rid m))
      in if is_running rid m then
           if new_computed \<noteq> [] then Inl AssertionError else Inr (max (required - have) 0)
         else
           let skipped_tokens = get_num_skipped_tokens (kv_cache_spec m) total_computed;
               local = int (length new_computed) + have;
               skipped = skipped_tokens div int (block_size m);
               new = max (required - max skipped local) 0;
               skipped_new = max 0 (skipped - have)
           in Inr (new + get_num_evictable_blocks p (drop (nat skipped_new) new_computed)))"

subsection \<open>Allocation\<close>

definition note_new_ids :: "block_ref list \<Rightarrow> block_pool \<Rightarrow> cache_manager \<Rightarrow> cache_manager" where
  "note_new_ids bs p m =
     (if is_full_spec (kv_cache_spec m)
      then m\<lparr>new_block_ids := new_block_ids m @ map (\<lambda>b. block_id (blk p b)) bs\<rparr> else m)"

text \<open>\<open>is_cross\<close> selects the override of \<^verbatim>\<open>CrossAttentionManager\<close>.\<close>

fun is_cross :: "kv_cache_spec \<Rightarrow> bool" where
  "is_cross (CrossAttentionSpec _) = True"
| "is_cross _ = False"

definition allocate_new_computed_blocks ::
  "string \<Rightarrow> block_ref list \<Rightarrow> int \<Rightarrow> int \<Rightarrow> cache_manager \<Rightarrow> block_pool \<Rightarrow> (cache_manager \<times> block_pool) res" where
  "allocate_new_computed_blocks rid new_computed num_local num_external m p =
     (if is_cross (kv_cache_spec m) then
        if new_computed \<noteq> [] then Inl AssertionError else Inr (m, p)
      else if is_running rid m then
        if new_computed \<noteq> [] then Inl AssertionError else Inr (m, p)
      else if req_blocks rid m \<noteq> [] then Inl AssertionError
      else
        let total = num_local + num_external;
            skipped_tokens = get_num_skipped_tokens (kv_cache_spec m) total;
            skipped = skipped_tokens div int (block_size m);
            new_computed' = (if 0 < skipped then drop (nat skipped) new_computed else new_computed);
            num_external' = (if 0 < skipped then min (total - skipped_tokens) num_external else num_external)
        in
        rbind (if mgr_enable_caching m then touch new_computed' p
               else if new_computed' \<noteq> [] then Inl AssertionError else Inr p) (\<lambda>p1.
        let bs = replicate (nat skipped) (mgr_null_block m) @ new_computed';
            m1 = (set_req_blocks rid bs m)\<lparr>num_cached_block := dict_set rid (length bs) (num_cached_block m)\<rparr>
        in
        if 0 < num_external' then
          rbind (get_new_blocks (cdiv total (int (block_size m)) - int (length bs)) p1) (\<lambda>(new, p2).
            Inr (note_new_ids new p2 (set_req_blocks rid (bs @ new) m1), p2))
        else Inr (m1, p1)))"

definition allocate_new_blocks ::
  "string \<Rightarrow> int \<Rightarrow> cache_manager \<Rightarrow> block_pool \<Rightarrow> (block_ref list \<times> cache_manager \<times> block_pool) res" where
  "allocate_new_blocks rid ntok m p =
     (let bs = req_blocks rid m;
          num_new = cdiv ntok (int (block_size m)) - int (length bs)
      in if num_new \<le> 0 then Inr ([], ensure_req rid m, p)
         else
           rbind (get_new_blocks num_new p) (\<lambda>(new, p').
             Inr (new, note_new_ids new p' (set_req_blocks rid (bs @ new) m), p')))"

definition take_new_block_ids :: "cache_manager \<Rightarrow> int list \<times> cache_manager" where
  "take_new_block_ids m = (new_block_ids m, m\<lparr>new_block_ids := []\<rparr>)"

definition cache_blocks ::
  "(bytes \<Rightarrow> bytes) \<Rightarrow> request \<Rightarrow> int \<Rightarrow> cache_manager \<Rightarrow> block_pool \<Rightarrow>
   (cache_manager \<times> block_pool \<times> request) res" where
  "cache_blocks sha256 r ntok m p =
     (if is_cross (kv_cache_spec m) then Inl ValueError
      else
        let num_cached = ncached (request_id r) m;
            num_full = nat (ntok div int (block_size m))
        in if num_full \<le> num_cached then Inr (m, p, r)
           else
             rbind (cache_full_blocks sha256 r (req_blocks (request_id r) m) num_cached num_full
                      (block_size m) (kv_cache_group_id m) p) (\<lambda>(p', r').
               Inr ((ensure_req (request_id r) m)
                      \<lparr>num_cached_block := dict_set (request_id r) num_full (num_cached_block m)\<rparr>, p', r')))"

subsection \<open>Freeing\<close>

definition free_request :: "string \<Rightarrow> cache_manager \<Rightarrow> block_pool \<Rightarrow> (cache_manager \<times> block_pool) res" where
  "free_request rid m p =
     rbind (free_blocks (rev (req_blocks rid m)) p) (\<lambda>p'.
       Inr (m\<lparr>req_to_blocks := dict_del rid (req_to_blocks m),
              num_cached_block := dict_del rid (num_cached_block m)\<rparr>, p'))"

text \<open>
  The loop of \<^verbatim>\<open>remove_skipped_blocks\<close>, from index \<open>n - 1\<close> down to the first null
  block: the blocks taken out and the table with null blocks in their places.
\<close>

fun remove_loop :: "block_ref \<Rightarrow> nat \<Rightarrow> block_ref list \<Rightarrow> block_ref list \<Rightarrow> block_ref list \<times> block_ref list" where
  "remove_loop nb 0 bs removed = (removed, bs)"
| "remove_loop nb (Suc i) bs removed =
     (if bs ! i = nb then (removed, bs)
      else remove_loop nb i (bs[i := nb]) (removed @ [bs ! i]))"

definition remove_skipped_blocks ::
  "string \<Rightarrow> int \<Rightarrow> cache_manager \<Rightarrow> block_pool \<Rightarrow> (cache_manager \<times> block_pool) res" where
  "remove_skipped_blocks rid total_computed m p =
     (let skipped_tokens = get_num_skipped_tokens (kv_cache_spec m) total_computed in
      if skipped_tokens \<le> 0 then Inr (m, p)
      else
        let bs = req_blocks rid m;
            skipped = min (skipped_tokens div int (block_size m)) (int (length bs));
            (removed, bs') = remove_loop (mgr_null_block m) (nat skipped) bs []
        in rbind (free_blocks removed p) (\<lambda>p'. Inr (set_req_blocks rid bs' m, p')))"

fun common_prefix_loop :: "block_pool \<Rightarrow> int \<Rightarrow> block_ref list \<Rightarrow> int" where
  "common_prefix_loop p n [] = 0"
| "common_prefix_loop p n (b # bs) = (if ref_cnt (blk p b) = n then 1 + common_prefix_loop p n bs else 0)"

definition get_num_common_prefix_blocks :: "string \<Rightarrow> cache_manager \<Rightarrow> block_pool \<Rightarrow> int \<times> cache_manager" where
  "get_num_common_prefix_blocks rid m p =
     (case kv_cache_spec m of
        FullAttentionSpec _ \<Rightarrow>
          (let m' = ensure_req rid m in
           (common_prefix_loop p (int (length (req_to_blocks m'))) (req_blocks rid m'), m'))
      | MLAAttentionSpec _ \<Rightarrow>
          (let m' = ensure_req rid m in
           (common_prefix_loop p (int (length (req_to_blocks m'))) (req_blocks rid m'), m'))
      | _ \<Rightarrow> (0, m))"


section \<open>Ownership\<close>

text \<open>
  The references a manager holds, and its invariant in the presence of \<open>ext b\<close> references
  to block \<open>b\<close> held elsewhere (by the other managers of the pool): every count is the number of
  places that refer to the block, a request refers to an ordinary block at most once, and the blocks
  of a request that are not cached yet have no hash and no other owner.
\<close>

definition owned :: "cache_manager \<Rightarrow> block_ref \<Rightarrow> nat" where
  "owned m b = dict_sum (\<lambda>bs. count_list bs b) (req_to_blocks m)"

definition tables_ok :: "cache_manager \<Rightarrow> block_pool \<Rightarrow> bool" where
  "tables_ok m p \<longleftrightarrow> dict_ok (req_to_blocks m) \<and> dict_ok (num_cached_block m) \<and> 0 < block_size m \<and>
     mgr_null_block m = null_block p \<and>
     (\<forall>rid. set (req_blocks rid m) \<subseteq> set (blocks p) \<and> distinct (filter (\<lambda>b. b \<noteq> null_block p) (req_blocks rid m)))"

definition counts_ok :: "(block_ref \<Rightarrow> nat) \<Rightarrow> cache_manager \<Rightarrow> block_pool \<Rightarrow> bool" where
  "counts_ok ext m p \<longleftrightarrow>
     (\<forall>b \<in> set (blocks p). b \<noteq> null_block p \<longrightarrow> refs p b = int (ext b + owned m b))"

definition tails_ok :: "cache_manager \<Rightarrow> block_pool \<Rightarrow> bool" where
  "tails_ok m p \<longleftrightarrow>
     (\<forall>rid i. ncached rid m \<le> i \<longrightarrow> i < length (req_blocks rid m) \<longrightarrow> req_blocks rid m ! i \<noteq> null_block p \<longrightarrow>
        hashes p (req_blocks rid m ! i) = None \<and> refs p (req_blocks rid m ! i) = 1)"

definition uncached_ok :: "block_pool \<Rightarrow> bool" where
  "uncached_ok p \<longleftrightarrow> enable_caching p \<or> (\<forall>b \<in> set (blocks p). hashes p b = None)"

definition mgr_inv :: "(block_ref \<Rightarrow> nat) \<Rightarrow> cache_manager \<Rightarrow> block_pool \<Rightarrow> bool" where
  "mgr_inv ext m p \<longleftrightarrow> pool_inv p \<and> uncached_ok p \<and> tables_ok m p \<and> counts_ok ext m p \<and> tails_ok m p"

text \<open>What an operation of one manager leaves to the others.\<close>

definition mgr_frame :: "(block_ref \<Rightarrow> nat) \<Rightarrow> cache_manager \<Rightarrow> block_pool \<Rightarrow> cache_manager \<Rightarrow> block_pool \<Rightarrow> bool" where
  "mgr_frame ext m p m' p' \<longleftrightarrow> same_pool p p' \<and> kv_cache_spec m' = kv_cache_spec m \<and> block_size m' = block_size m \<and>
     mgr_enable_caching m' = mgr_enable_caching m \<and> kv_cache_group_id m' = kv_cache_group_id m \<and>
     mgr_null_block m' = mgr_null_block m \<and>
     (\<forall>b. b \<noteq> null_block p \<longrightarrow> 0 < ext b \<longrightarrow> owned m b = 0 \<longrightarrow> hashes p b = None \<longrightarrow>
        hashes p' b = None \<and> owned m' b = 0)"

lemma req_blocks_set [simp]:
  "req_blocks rid' (set_req_blocks rid bs m) = (if rid' = rid then bs else req_blocks rid' m)"
  by (simp add: req_blocks_def set_req_blocks_def dict_val_set)

lemma set_req_blocks_frame [simp]:
  "kv_cache_spec (set_req_blocks rid bs m) = kv_cache_spec m" "block_size (set_req_blocks rid bs m) = block_size m"
  "mgr_enable_caching (set_req_blocks rid bs m) = mgr_enable_caching m"
  "kv_cache_group_id (set_req_blocks rid bs m) = kv_cache_group_id m"
  "mgr_null_block (set_req_blocks rid bs m) = mgr_null_block m"
  "num_cached_block (set_req_blocks rid bs m) = num_cached_block m"
  "ncached rid' (set_req_blocks rid bs m) = ncached rid' m"
  "dict_ok (req_to_blocks (set_req_blocks rid bs m)) = dict_ok (dict_set rid bs (req_to_blocks m))"
  by (simp_all add: set_req_blocks_def ncached_def)

lemma note_new_ids_frame [simp]:
  "kv_cache_spec (note_new_ids bs p m) = kv_cache_spec m" "block_size (note_new_ids bs p m) = block_size m"
  "mgr_enable_caching (note_new_ids bs p m) = mgr_enable_caching m"
  "kv_cache_group_id (note_new_ids bs p m) = kv_cache_group_id m"
  "mgr_null_block (note_new_ids bs p m) = mgr_null_block m"
  "num_cached_block (note_new_ids bs p m) = num_cached_block m" "req_to_blocks (note_new_ids bs p m) = req_to_blocks m"
  "req_blocks rid (note_new_ids bs p m) = req_blocks rid m" "ncached rid (note_new_ids bs p m) = ncached rid m"
  "owned (note_new_ids bs p m) = owned m"
  by (simp_all add: note_new_ids_def req_blocks_def ncached_def owned_def fun_eq_iff)

lemma owned_set:
  "dict_ok (req_to_blocks m) \<Longrightarrow>
   owned (set_req_blocks rid bs m) b + count_list (req_blocks rid m) b = owned m b + count_list bs b"
  unfolding owned_def set_req_blocks_def req_blocks_def
  using dict_sum_set [of "req_to_blocks m" "\<lambda>bs. count_list bs b" "[]" rid bs] by simp

lemma owned_del:
  "dict_ok (req_to_blocks m) \<Longrightarrow>
   owned (m\<lparr>req_to_blocks := dict_del rid (req_to_blocks m)\<rparr>) b + count_list (req_blocks rid m) b = owned m b"
  unfolding owned_def req_blocks_def
  using dict_sum_del [of "req_to_blocks m" "\<lambda>bs. count_list bs b" "[]" rid] by simp

lemma owned_ge: "dict_ok (req_to_blocks m) \<Longrightarrow> count_list (req_blocks rid m) b \<le> owned m b"
  using owned_del [of m rid b] by linarith

lemma owned_caching [simp]: "owned (m\<lparr>num_cached_block := d\<rparr>) = owned m"
  by (simp add: owned_def fun_eq_iff)

lemma req_blocks_caching [simp]: "req_blocks rid (m\<lparr>num_cached_block := d\<rparr>) = req_blocks rid m"
  by (simp add: req_blocks_def)

lemma mgr_invD:
  assumes "mgr_inv ext m p"
  shows "pool_inv p" "dict_ok (req_to_blocks m)" "dict_ok (num_cached_block m)" "0 < block_size m" "mgr_null_block m = null_block p"
    "set (req_blocks rid m) \<subseteq> set (blocks p)" "distinct (filter (\<lambda>b. b \<noteq> null_block p) (req_blocks rid m))"
    "b \<in> set (blocks p) \<Longrightarrow> b \<noteq> null_block p \<Longrightarrow> refs p b = int (ext b + owned m b)"
    "tails_ok m p" "uncached_ok p"
  using assms by (auto simp: mgr_inv_def tables_ok_def counts_ok_def)

text \<open>A block in some request's table is not free, so it is not handed out to another request.\<close>

lemma owned_not_free:
  assumes "mgr_inv ext m p" "pool_rep p xs" "b \<in> set (req_blocks rid m)" "b \<noteq> null_block p"
  shows "b \<notin> set xs"
proof -
  have b: "b \<in> set (blocks p)" using mgr_invD(6) [OF assms(1)] assms(3) by blast
  have "0 < count_list (req_blocks rid m) b" using assms(3) by (metis count_list_0_iff not_gr_zero)
  with owned_ge [OF mgr_invD(2) [OF assms(1)], of rid b] have "0 < owned m b" by linarith
  then have "refs p b \<noteq> 0" using mgr_invD(8) [OF assms(1) b assms(4)] by simp
  then show ?thesis using pool_repD(6) [OF assms(2), of b] by simp
qed


text \<open>Appending freshly allocated blocks to a request's table.\<close>

lemma extend_table:
  assumes inv: "mgr_inv ext m p" and rep: "pool_rep p (zs @ ys)"
    and run: "get_new_blocks (int (length zs)) p = Inr (zs, p')"
    and m': "m' = set_req_blocks rid (req_blocks rid m @ zs) m"
  shows "mgr_inv ext m' p' \<and> mgr_frame ext m p m' p' \<and> pool_rep p' ys"
proof -
  note I = mgr_invD [OF inv] and pD = pool_repD [OF rep]
  from get_new_blocks_spec [OF rep] run have p': "pool_rep p' ys" "same_pool p p'"
    "refs p' = (\<lambda>b. if b \<in> set zs then 1 else refs p b)"
    "hashes p' = (\<lambda>b. if enable_caching p \<and> b \<in> set zs then None else hashes p b)" by auto
  have st: "blocks p' = blocks p" "null_block p' = null_block p" "enable_caching p' = enable_caching p"
    using p'(2) by (auto simp: same_pool_def)
  have zs: "b \<in> set (blocks p) \<and> b \<noteq> null_block p \<and> ext b = 0 \<and> owned m b = 0 \<and> hashes p' b = None" if "b \<in> set zs" for b
  proof -
    have b: "b \<in> set (blocks p)" "b \<noteq> null_block p" "refs p b = 0" using pD(6) [of b] that by auto
    with I(8) [of b] have "ext b = 0" "owned m b = 0" by simp_all
    moreover have "hashes p' b = None" using p'(4) that I(10) b by (auto simp: uncached_ok_def)
    ultimately show ?thesis using b by blast
  qed
  have dist: "distinct zs" using pD(5) by simp
  have not_in: "b \<notin> set (req_blocks rid' m)" if "b \<in> set zs" for b rid'
    using owned_not_free [OF inv rep] zs [OF that] that by auto
  have own: "owned m' b = owned m b + count_list zs b" for b
    using owned_set [OF I(2), of rid "req_blocks rid m @ zs" b] by (simp add: m')
  have old: "hashes p' b = hashes p b" "refs p' b = refs p b" if "b \<notin> set zs" for b
    using that p'(3,4) by auto
  have "tables_ok m' p'"
    using I(2-7) zs dist not_in [of _ rid] unfolding tables_ok_def m' st by (auto simp: filter_id_conv)
  moreover have "counts_ok ext m' p'"
    using I(8) zs dist unfolding counts_ok_def st own p'(3) by (auto simp: count_list_distinct count_list_0_iff)
  moreover have "tails_ok m' p'"
    unfolding tails_ok_def st
  proof (intro allI impI)
    fix rid' i
    assume i: "ncached rid' m' \<le> i" "i < length (req_blocks rid' m')" "req_blocks rid' m' ! i \<noteq> null_block p"
    show "hashes p' (req_blocks rid' m' ! i) = None \<and> refs p' (req_blocks rid' m' ! i) = 1"
    proof (cases "i < length (req_blocks rid' m)")
      case True
      then have eq: "req_blocks rid' m' ! i = req_blocks rid' m ! i" by (auto simp: m' nth_append)
      then have "req_blocks rid' m' ! i \<notin> set zs" using not_in True nth_mem by metis
      with eq old I(9) i True show ?thesis unfolding tails_ok_def by (simp add: m')
    next
      case False
      with i have "req_blocks rid' m' ! i \<in> set zs" by (auto simp: m' nth_append split: if_splits)
      with zs p'(3) show ?thesis by simp
    qed
  qed
  moreover have "uncached_ok p'" using I(10) p'(4) unfolding uncached_ok_def st by auto
  ultimately have "mgr_inv ext m' p'" using p'(1) by (auto simp: mgr_inv_def pool_inv_def)
  moreover have "mgr_frame ext m p m' p'"
  proof -
    have "hashes p' b = None \<and> owned m' b = 0" if "0 < ext b" "owned m b = 0" "hashes p b = None" for b
    proof -
      have "b \<notin> set zs" using zs [of b] that(1) by auto
      then show ?thesis using that old own by (simp add: count_list_0_iff)
    qed
    then show ?thesis using p'(2) unfolding mgr_frame_def m' by simp
  qed
  ultimately show ?thesis using p'(1) by blast
qed

text \<open>\<^verbatim>\<open>allocate_new_blocks\<close>: enough slots for the tokens, or a \<^verbatim>\<open>ValueError\<close> if too few blocks are free.\<close>

lemma mgr_inv_ensure [simp]: "dict_ok (req_to_blocks m) \<Longrightarrow> owned (ensure_req rid m) = owned m"
  using owned_set [of m rid "req_blocks rid m"] by (auto simp: ensure_req_def fun_eq_iff)

lemma ensure_req_obs [simp]: "req_blocks rid' (ensure_req rid m) = req_blocks rid' m"
  by (simp add: ensure_req_def)

lemma ensure_req_inv:
  assumes "mgr_inv ext m p"
  shows "mgr_inv ext (ensure_req rid m) p \<and> mgr_frame ext m p (ensure_req rid m) p"
proof -
  note I = mgr_invD [OF assms]
  have same: "req_blocks rid' (ensure_req rid m) = req_blocks rid' m" "ncached rid' (ensure_req rid m) = ncached rid' m" for rid'
    by (auto simp: ensure_req_def)
  show ?thesis
    using assms I(2) unfolding mgr_inv_def mgr_frame_def tables_ok_def counts_ok_def tails_ok_def same
    by (auto simp: ensure_req_def [of rid m] mgr_inv_ensure [unfolded ensure_req_def])
qed

lemma allocate_new_blocks_spec:
  assumes inv: "mgr_inv ext m p" and rep: "pool_rep p xs"
    and need: "cdiv ntok (int (block_size m)) - int (length (req_blocks rid m)) \<le> int (length xs)"
  shows "\<exists>new m' p'. allocate_new_blocks rid ntok m p = Inr (new, m', p') \<and> mgr_inv ext m' p' \<and> mgr_frame ext m p m' p' \<and>
    req_blocks rid m' = req_blocks rid m @ new \<and> (\<forall>r. r \<noteq> rid \<longrightarrow> req_blocks r m' = req_blocks r m) \<and>
    num_cached_block m' = num_cached_block m \<and>
    int (length new) = max 0 (cdiv ntok (int (block_size m)) - int (length (req_blocks rid m))) \<and>
    pool_rep p' (drop (length new) xs)"
proof -
  let ?n = "cdiv ntok (int (block_size m)) - int (length (req_blocks rid m))"
  show ?thesis
  proof (cases "?n \<le> 0")
    case True
    then have run: "allocate_new_blocks rid ntok m p = Inr ([], ensure_req rid m, p)" by (simp add: allocate_new_blocks_def Let_def)
    show ?thesis unfolding run
      using True ensure_req_inv [OF inv, of rid] rep by (simp add: ensure_req_def)
  next
    case False
    let ?zs = "take (nat ?n) xs" and ?ys = "drop (nat ?n) xs"
    have len: "int (length ?zs) = ?n" using need False by simp
    have rep': "pool_rep p (?zs @ ?ys)" using rep by simp
    from get_new_blocks_spec [OF rep'] obtain p' where p': "get_new_blocks (int (length ?zs)) p = Inr (?zs, p')" by auto
    let ?m1 = "set_req_blocks rid (req_blocks rid m @ ?zs) m"
    note e = extend_table [OF inv rep' p' refl, of rid]
    have run: "allocate_new_blocks rid ntok m p = Inr (?zs, note_new_ids ?zs p' ?m1, p')"
      using False p' len by (simp add: allocate_new_blocks_def Let_def)
    have note_inv: "mgr_inv ext (note_new_ids ?zs p' ?m1) p'" "mgr_frame ext m p (note_new_ids ?zs p' ?m1) p'"
      using e unfolding mgr_inv_def mgr_frame_def tables_ok_def counts_ok_def tails_ok_def by simp_all
    show ?thesis unfolding run
      using note_inv e len False need by (intro exI conjI) (rule refl | simp)+
  qed
qed


subsection \<open>Releasing blocks\<close>

lemma count_le_1_distinct: "(\<And>x. count_list xs x \<le> 1) \<Longrightarrow> distinct xs"
proof (induction xs)
  case (Cons a xs)
  have "count_list xs x \<le> 1" for x using Cons.prems [of x] by (simp split: if_splits)
  moreover have "a \<notin> set xs" using Cons.prems [of a] by (simp add: count_list_0_iff [symmetric])
  ultimately show ?case using Cons.IH by simp
qed simp

lemma count_list_filter: "count_list (filter P xs) x = (if P x then count_list xs x else 0)"
  by (induction xs) auto

lemma owned_ge2:
  assumes "dict_ok (req_to_blocks m)" "rid \<noteq> rid'"
  shows "count_list (req_blocks rid m) b + count_list (req_blocks rid' m) b \<le> owned m b"
proof -
  let ?m = "m\<lparr>req_to_blocks := dict_del rid (req_to_blocks m)\<rparr>"
  have "req_blocks rid' ?m = req_blocks rid' m" using assms(2) by (simp add: req_blocks_def dict_val_del)
  moreover have "dict_ok (req_to_blocks ?m)" using assms(1) by simp
  ultimately show ?thesis using owned_ge [of ?m rid' b] owned_del [OF assms(1), of rid b] by simp
qed

text \<open>The invariant depends on a manager only through these observations.\<close>

lemma mgr_inv_cong:
  assumes "mgr_inv ext m p" "\<And>rid. req_blocks rid m' = req_blocks rid m" "owned m' = owned m" "\<And>rid. ncached rid m' = ncached rid m"
    "dict_ok (req_to_blocks m')" "dict_ok (num_cached_block m')" "block_size m' = block_size m" "mgr_null_block m' = mgr_null_block m"
  shows "mgr_inv ext m' p"
  using assms unfolding mgr_inv_def tables_ok_def counts_ok_def tails_ok_def by simp

lemma release_table:
  assumes inv: "mgr_inv ext m p" and rep: "pool_rep p xs"
    and split: "\<And>b. b \<noteq> null_block p \<Longrightarrow> count_list (req_blocks rid m) b = count_list bs' b + count_list rs b"
    and sub: "set rs \<subseteq> set (req_blocks rid m)"
    and keep: "\<And>i. i < length bs' \<Longrightarrow> bs' ! i = null_block p \<or> i < length (req_blocks rid m) \<and> bs' ! i = req_blocks rid m ! i"
  shows "\<exists>p'. free_blocks rs p = Inr p' \<and> mgr_inv ext (set_req_blocks rid bs' m) p' \<and>
    mgr_frame ext m p (set_req_blocks rid bs' m) p' \<and> hashes p' = hashes p \<and>
    pool_rep p' (xs @ filter (\<lambda>b. b \<noteq> null_block p \<and> refs p b = 1) rs)"
proof -
  note I = mgr_invD [OF inv] and pD = pool_repD [OF rep]
  let ?m' = "set_req_blocks rid bs' m"
  have once: "count_list (req_blocks rid' m) b \<le> 1" if "b \<noteq> null_block p" for b rid'
    using I(7) [of rid'] count_list_filter [of "\<lambda>b. b \<noteq> null_block p" "req_blocks rid' m" b] that
      count_list_distinct [OF I(7) [of rid'], of b] by (simp split: if_splits)
  have distinct_part: "distinct (filter (\<lambda>b. b \<noteq> null_block p) ys)" if "\<And>b. b \<noteq> null_block p \<Longrightarrow> count_list ys b \<le> 1" for ys
    by (rule count_le_1_distinct) (use that in \<open>auto simp: count_list_filter\<close>)
  have rs_d: "distinct (filter (\<lambda>b. b \<noteq> null_block p) rs)" and bs_d: "distinct (filter (\<lambda>b. b \<noteq> null_block p) bs')"
    by (rule distinct_part, use once [of _ rid] split in \<open>fastforce simp: add_leE\<close>)+
  have rs_blocks: "set rs \<subseteq> set (blocks p)" using sub I(6) by blast
  have own: "owned m b = owned ?m' b + count_list rs b" if "b \<noteq> null_block p" for b
    using owned_set [OF I(2), of rid bs' b] split [OF that] by simp
  have ge: "\<forall>b \<in> set rs. b \<noteq> null_block p \<longrightarrow> 1 \<le> refs p b"
  proof (intro ballI impI)
    fix b assume b: "b \<in> set rs" "b \<noteq> null_block p"
    then have "0 < count_list rs b" by (metis count_list_0_iff not_gr_zero)
    then show "1 \<le> refs p b" using I(8) [of b] own [OF b(2)] b rs_blocks by auto
  qed
  from free_blocks_spec [OF rep rs_blocks rs_d ge] obtain p' where p': "free_blocks rs p = Inr p'"
    "pool_rep p' (xs @ filter (\<lambda>b. b \<noteq> null_block p \<and> refs p b = 1) rs)" "same_pool p p'"
    "refs p' = (\<lambda>b. refs p b - int (count_list rs b))" "hashes p' = hashes p" by auto
  have st: "blocks p' = blocks p" "null_block p' = null_block p" "enable_caching p' = enable_caching p"
    using p'(3) by (auto simp: same_pool_def)
  have bs_blocks: "set bs' \<subseteq> set (blocks p)"
    using keep I(6) [of rid] pool_tableD(3) [OF pD(1)] by (metis in_set_conv_nth nth_mem subset_eq)
  have "tables_ok ?m' p'" using I(2-7) bs_blocks bs_d unfolding tables_ok_def st by auto
  moreover have "counts_ok ext ?m' p'" using I(8) own unfolding counts_ok_def st p'(4) by auto
  moreover have "tails_ok ?m' p'"
    unfolding tails_ok_def st p'(5)
  proof (intro allI impI)
    fix rid' i
    assume i: "ncached rid' ?m' \<le> i" "i < length (req_blocks rid' ?m')" "req_blocks rid' ?m' ! i \<noteq> null_block p"
    let ?b = "req_blocks rid' ?m' ! i"
    have old: "i < length (req_blocks rid' m)" "?b = req_blocks rid' m ! i"
      using keep [of i] i by (auto split: if_splits)
    then have tail: "hashes p ?b = None" "refs p ?b = 1" using I(9) i unfolding tails_ok_def by auto
    have in_tab: "?b \<in> set (req_blocks rid' m)" "?b \<in> set (blocks p)" using old I(6) [of rid'] by auto
    have "count_list rs ?b = 0"
    proof (cases "rid' = rid")
      case True
      have "0 < count_list bs' ?b" using i(2) True by (metis count_list_0_iff not_gr_zero nth_mem req_blocks_set)
      then show ?thesis using split [OF i(3)] once [OF i(3), of rid] by linarith
    next
      case False
      have "owned m ?b \<le> 1" using I(8) [OF in_tab(2) i(3)] tail(2) by simp
      moreover have "0 < count_list (req_blocks rid' m) ?b" using in_tab(1) by (metis count_list_0_iff not_gr_zero)
      ultimately show ?thesis using owned_ge2 [OF I(2) False, of ?b] split [OF i(3)] by linarith
    qed
    with tail p'(4) show "hashes p ?b = None \<and> refs p' ?b = 1" by simp
  qed
  moreover have "uncached_ok p'" using I(10) p'(5) unfolding uncached_ok_def st by auto
  ultimately have inv': "mgr_inv ext ?m' p'" using p'(2) by (auto simp: mgr_inv_def pool_inv_def)
  have "owned ?m' b = 0" if "b \<noteq> null_block p" "owned m b = 0" for b using own that by simp
  then have "mgr_frame ext m p ?m' p'" using p'(3,5) unfolding mgr_frame_def by simp
  with p' inv' show ?thesis by blast
qed


lemma py_slice_snoc: "k \<le> n \<Longrightarrow> n < length xs \<Longrightarrow> py_slice k (Suc n) xs = py_slice k n xs @ [xs ! n]"
  by (simp add: py_slice_def Suc_diff_le take_Suc_conv_app_nth)

lemma remove_loop_spec:
  assumes "n \<le> length bs" "remove_loop nb n bs acc = (removed, bs')"
  shows "\<exists>k \<le> n. bs' = take k bs @ replicate (n - k) nb @ drop n bs \<and> removed = acc @ rev (py_slice k n bs) \<and>
    nb \<notin> set (py_slice k n bs) \<and> (k = 0 \<or> bs ! (k - 1) = nb)"
  using assms
proof (induction n arbitrary: bs acc)
  case 0
  then show ?case by (simp add: py_slice_def)
next
  case (Suc i)
  show ?case
  proof (cases "bs ! i = nb")
    case True
    with Suc.prems show ?thesis by (intro exI [of _ "Suc i"]) (simp add: py_slice_def)
  next
    case False
    let ?bs = "bs[i := nb]"
    have run: "remove_loop nb i ?bs (acc @ [bs ! i]) = (removed, bs')" using Suc.prems False by simp
    have "i \<le> length ?bs" using Suc.prems(1) by simp
    from Suc.IH [OF this run] obtain k where
      k: "k \<le> i" "bs' = take k ?bs @ replicate (i - k) nb @ drop i ?bs" "removed = (acc @ [bs ! i]) @ rev (py_slice k i ?bs)"
        "nb \<notin> set (py_slice k i ?bs)" "k = 0 \<or> ?bs ! (k - 1) = nb" by blast
    have same: "take k ?bs = take k bs" "py_slice k i ?bs = py_slice k i bs" "drop i ?bs = nb # drop (Suc i) bs"
      using k(1) Suc.prems(1) Cons_nth_drop_Suc [of i ?bs]
      by (simp_all add: py_slice_def drop_update_swap)
    have "py_slice k (Suc i) bs = py_slice k i bs @ [bs ! i]" using k(1) Suc.prems(1) by (intro py_slice_snoc) auto
    moreover have "replicate (i - k) nb @ nb # drop (Suc i) bs = replicate (Suc i - k) nb @ drop (Suc i) bs"
      using k(1) by (simp add: Suc_diff_le replicate_app_Cons_same)
    moreover have "k = 0 \<or> bs ! (k - 1) = nb" using k(1,5) by (cases "k = 0") auto
    ultimately show ?thesis using k same False by (intro exI [of _ k]) auto
  qed
qed

lemma count_slices:
  "k \<le> n \<Longrightarrow> n \<le> length bs \<Longrightarrow>
   count_list bs b = count_list (take k bs) b + count_list (py_slice k n bs) b + count_list (drop n bs) b"
  by (metis append_take_drop_id count_list_append take_slice)

text \<open>
  \<^verbatim>\<open>remove_skipped_blocks\<close> never raises; the blocks of the request from the first one
  that the window still needs on are untouched, and those before it are the same or null.
\<close>

lemma remove_skipped_blocks_spec:
  assumes inv: "mgr_inv ext m p" and rep: "pool_rep p xs"
  shows "\<exists>m' p' freed. remove_skipped_blocks rid tc m p = Inr (m', p') \<and> mgr_inv ext m' p' \<and> mgr_frame ext m p m' p' \<and>
    hashes p' = hashes p \<and> num_cached_block m' = num_cached_block m \<and> pool_rep p' (xs @ freed) \<and>
    (\<forall>r. r \<noteq> rid \<longrightarrow> req_blocks r m' = req_blocks r m) \<and> length (req_blocks rid m') = length (req_blocks rid m) \<and>
    (\<forall>i < length (req_blocks rid m). req_blocks rid m' ! i = req_blocks rid m ! i \<or>
       req_blocks rid m' ! i = null_block p \<and> int (Suc i) * int (block_size m) \<le> get_num_skipped_tokens (kv_cache_spec m) tc)"
proof -
  note I = mgr_invD [OF inv]
  let ?sk = "get_num_skipped_tokens (kv_cache_spec m) tc" and ?bs = "req_blocks rid m"
  show ?thesis
  proof (cases "?sk \<le> 0")
    case True
    then show ?thesis using inv rep
      by (intro exI [of _ m] exI [of _ p] exI [of _ "[]"]) (simp add: remove_skipped_blocks_def mgr_frame_def)
  next
    case False
    define n where "n = nat (min (?sk div int (block_size m)) (int (length ?bs)))"
    have pos: "0 \<le> ?sk div int (block_size m)" using False I(4) by (simp add: pos_imp_zdiv_nonneg_iff)
    have n: "n \<le> length ?bs" using pos by (simp add: n_def)
    have nb: "int n * int (block_size m) \<le> ?sk"
    proof -
      have "int n \<le> ?sk div int (block_size m)" using pos by (simp add: n_def)
      then have "int n * int (block_size m) \<le> ?sk div int (block_size m) * int (block_size m)" by (intro mult_right_mono) simp_all
      also have "\<dots> \<le> ?sk" using I(4) pos_mod_sign [of "int (block_size m)" ?sk] by (simp add: minus_mod_eq_div_mult [symmetric])
      finally show ?thesis .
    qed
    obtain removed bs' where loop: "remove_loop (null_block p) n ?bs [] = (removed, bs')" by fastforce
    from remove_loop_spec [OF n loop] obtain k where
      k: "k \<le> n" "bs' = take k ?bs @ replicate (n - k) (null_block p) @ drop n ?bs" "removed = rev (py_slice k n ?bs)" by auto
    have nth: "i < length ?bs \<Longrightarrow> bs' ! i = (if k \<le> i \<and> i < n then null_block p else ?bs ! i)" for i
      using k(1,2) n by (auto simp: nth_append)
    have len: "length bs' = length ?bs" using k n by simp
    have "\<exists>p'. free_blocks removed p = Inr p' \<and> mgr_inv ext (set_req_blocks rid bs' m) p' \<and>
      mgr_frame ext m p (set_req_blocks rid bs' m) p' \<and> hashes p' = hashes p \<and>
      pool_rep p' (xs @ filter (\<lambda>b. b \<noteq> null_block p \<and> refs p b = 1) removed)"
    proof (rule release_table [OF inv rep])
      show "set removed \<subseteq> set ?bs" using set_py_slice k(3) by fastforce
      show "count_list ?bs b = count_list bs' b + count_list removed b" if "b \<noteq> null_block p" for b
        using count_slices [OF k(1) n, of b] k(2,3) that by (simp add: count_list_0_iff)
      show "bs' ! i = null_block p \<or> i < length ?bs \<and> bs' ! i = ?bs ! i" if "i < length bs'" for i
        using nth len that by auto
    qed
    then obtain p' where p': "free_blocks removed p = Inr p'" "mgr_inv ext (set_req_blocks rid bs' m) p'"
      "mgr_frame ext m p (set_req_blocks rid bs' m) p'" "hashes p' = hashes p"
      "pool_rep p' (xs @ filter (\<lambda>b. b \<noteq> null_block p \<and> refs p b = 1) removed)" by blast
    have run: "remove_skipped_blocks rid tc m p = Inr (set_req_blocks rid bs' m, p')"
      using False loop p'(1) I(5) unfolding remove_skipped_blocks_def Let_def n_def by simp
    have win: "int (Suc i) * int (block_size m) \<le> ?sk" if "i < n" for i
    proof -
      have "int (Suc i) * int (block_size m) \<le> int n * int (block_size m)" using that by (intro mult_right_mono) simp_all
      with nb show ?thesis by linarith
    qed
    show ?thesis
      by (intro exI conjI, rule run) (use p' nth len win in \<open>auto\<close>)
  qed
qed

text \<open>\<^verbatim>\<open>free\<close> never raises: it gives back every reference of the request and no other.\<close>

lemma free_request_spec:
  assumes inv: "mgr_inv ext m p" and rep: "pool_rep p xs"
  shows "\<exists>m' p' freed. free_request rid m p = Inr (m', p') \<and> mgr_inv ext m' p' \<and> mgr_frame ext m p m' p' \<and>
    hashes p' = hashes p \<and> pool_rep p' (xs @ freed) \<and> req_blocks rid m' = [] \<and> \<not> is_running rid m' \<and>
    (\<forall>r. r \<noteq> rid \<longrightarrow> req_blocks r m' = req_blocks r m \<and> ncached r m' = ncached r m)"
proof -
  note I = mgr_invD [OF inv]
  have "\<exists>p'. free_blocks (rev (req_blocks rid m)) p = Inr p' \<and> mgr_inv ext (set_req_blocks rid [] m) p' \<and>
      mgr_frame ext m p (set_req_blocks rid [] m) p' \<and> hashes p' = hashes p \<and>
      pool_rep p' (xs @ filter (\<lambda>b. b \<noteq> null_block p \<and> refs p b = 1) (rev (req_blocks rid m)))"
    by (rule release_table [OF inv rep]) simp_all
  then obtain p' where p': "free_blocks (rev (req_blocks rid m)) p = Inr p'" "mgr_inv ext (set_req_blocks rid [] m) p'"
      "mgr_frame ext m p (set_req_blocks rid [] m) p'" "hashes p' = hashes p"
      "pool_rep p' (xs @ filter (\<lambda>b. b \<noteq> null_block p \<and> refs p b = 1) (rev (req_blocks rid m)))" by blast
  let ?m' = "m\<lparr>req_to_blocks := dict_del rid (req_to_blocks m), num_cached_block := dict_del rid (num_cached_block m)\<rparr>"
  have run: "free_request rid m p = Inr (?m', p')" using p'(1) by (simp add: free_request_def)
  have obs: "req_blocks r ?m' = req_blocks r (set_req_blocks rid [] m)"
    "ncached r ?m' = (if r = rid then 0 else ncached r m)" for r
    by (simp_all add: req_blocks_def ncached_def set_req_blocks_def dict_val_del dict_val_set)
  have own: "owned ?m' = owned (set_req_blocks rid [] m)"
  proof
    fix b
    have "owned ?m' b = owned (m\<lparr>req_to_blocks := dict_del rid (req_to_blocks m)\<rparr>) b" by (simp add: owned_def)
    then show "owned ?m' b = owned (set_req_blocks rid [] m) b"
      using owned_del [OF I(2), of rid b] owned_set [OF I(2), of rid "[]" b] by simp
  qed
  have "mgr_inv ext ?m' p'"
    using p'(2) I(2,3) unfolding mgr_inv_def tables_ok_def counts_ok_def tails_ok_def own obs
    by (auto split: if_splits)
  moreover have "mgr_frame ext m p ?m' p'" using p'(3) own unfolding mgr_frame_def by simp
  ultimately show ?thesis using run p'(4,5) obs by (auto simp: is_running_def dict_get_del)
qed


subsection \<open>Adopting cache hits\<close>

text \<open>What a cache lookup hands to the manager: blocks of the pool, null or cached, no ordinary one twice.\<close>

definition hits_ok :: "block_pool \<Rightarrow> block_ref list \<Rightarrow> bool" where
  "hits_ok p bs \<longleftrightarrow> set bs \<subseteq> set (blocks p) \<and> distinct (filter (\<lambda>b. b \<noteq> null_block p) bs) \<and>
     (\<forall>b \<in> set bs. b \<noteq> null_block p \<longrightarrow> hashes p b \<noteq> None)"

lemma hits_ok_drop: "hits_ok p bs \<Longrightarrow> hits_ok p (drop n bs)"
  unfolding hits_ok_def
  by (metis append_take_drop_id distinct_append filter_append in_set_dropD set_drop_subset subset_trans)

lemma hits_ok_Nil [simp]: "hits_ok p []"
  by (simp add: hits_ok_def)

lemma evictable_count:
  assumes rep: "pool_rep p xs" and hits: "hits_ok p bs"
  shows "get_num_evictable_blocks p bs + int (length (filter (\<lambda>b. b \<notin> set bs) xs)) = int (length xs)"
proof -
  note pD = pool_repD [OF rep]
  have "filter (\<lambda>b. ref_cnt (blk p b) = 0 \<and> \<not> is_null (blk p b)) bs = filter (\<lambda>b. b \<in> set xs) bs"
    by (rule filter_cong) (use hits pool_tableD(1) [OF pD(1)] in \<open>auto simp: pD(6) hits_ok_def refs_def\<close>)
  moreover have "distinct (filter (\<lambda>b. b \<in> set xs) bs)"
  proof -
    have "filter (\<lambda>b. b \<in> set xs) bs = filter (\<lambda>b. b \<in> set xs) (filter (\<lambda>b. b \<noteq> null_block p) bs)"
      using pD(6) [of "null_block p"] by (auto intro!: filter_cong)
    then show ?thesis using hits by (simp add: hits_ok_def del: filter_filter)
  qed
  then have "length (filter (\<lambda>b. b \<in> set xs) bs) = card (set bs \<inter> set xs)"
    by (simp add: distinct_card [symmetric] Int_def)
  moreover have "length (filter (\<lambda>b. b \<notin> set bs) xs) = card (set xs - set bs)"
    using pD(5) by (simp add: distinct_card [symmetric] set_diff_eq)
  moreover have "card (set xs - set bs) + card (set bs \<inter> set xs) = card (set xs)"
    by (metis Int_commute card_Int_Diff finite_set add.commute)
  ultimately show ?thesis using pD(5) by (simp add: get_num_evictable_blocks_def distinct_card)
qed

lemma count_replicate_null: "b \<noteq> nb \<Longrightarrow> count_list (replicate n nb @ bs) b = count_list bs b"
  by (simp add: count_list_0_iff)

lemma adopt_table:
  assumes inv: "mgr_inv ext m p" and rep: "pool_rep p xs" and new: "req_blocks rid m = []"
    and hits: "hits_ok p nc"
    and m': "m' = (set_req_blocks rid (replicate n (null_block p) @ nc) m)
                   \<lparr>num_cached_block := dict_set rid (n + length nc) (num_cached_block m)\<rparr>"
  shows "\<exists>p'. touch nc p = Inr p' \<and> mgr_inv ext m' p' \<and> mgr_frame ext m p m' p' \<and>
    refs p' = (\<lambda>b. refs p b + int (count_list nc b)) \<and>
    hashes p' = hashes p \<and> pool_rep p' (filter (\<lambda>b. b \<notin> set nc) xs)"
proof -
  note I = mgr_invD [OF inv] and pD = pool_repD [OF rep]
  let ?bs = "replicate n (null_block p) @ nc"
  have nc: "set nc \<subseteq> set (blocks p)" using hits by (simp add: hits_ok_def)
  from touch_spec [OF rep nc] obtain p' where p': "touch nc p = Inr p'" "pool_rep p' (filter (\<lambda>b. b \<notin> set nc) xs)"
    "same_pool p p'" "refs p' = (\<lambda>b. refs p b + int (count_list nc b))" "hashes p' = hashes p" by auto
  have st: "blocks p' = blocks p" "null_block p' = null_block p" "enable_caching p' = enable_caching p"
    using p'(3) by (auto simp: same_pool_def)
  have own: "owned m' b = owned m b + count_list nc b" if "b \<noteq> null_block p" for b
    using owned_set [OF I(2), of rid ?bs b] that new by (simp add: m' count_replicate_null count_list_0_iff)
  have obs: "req_blocks r m' = (if r = rid then ?bs else req_blocks r m)"
    "ncached r m' = (if r = rid then n + length nc else ncached r m)" for r
    by (simp_all add: m' ncached_def dict_val_set)
  have "tables_ok m' p'"
  proof -
    have "set ?bs \<subseteq> set (blocks p)" "distinct (filter (\<lambda>b. b \<noteq> null_block p) ?bs)"
      using nc pool_tableD(3) [OF pD(1)] hits by (auto simp: hits_ok_def)
    then show ?thesis using I(2-7) unfolding tables_ok_def st obs by (simp add: m')
  qed
  moreover have "counts_ok ext m' p'" using I(8) own unfolding counts_ok_def st p'(4) by simp
  moreover have "tails_ok m' p'"
    unfolding tails_ok_def st p'(5)
  proof (intro allI impI)
    fix rid' i
    assume i: "ncached rid' m' \<le> i" "i < length (req_blocks rid' m')" "req_blocks rid' m' ! i \<noteq> null_block p"
    then have r: "rid' \<noteq> rid" by (auto simp: obs)
    let ?b = "req_blocks rid' m ! i"
    have tail: "hashes p ?b = None" "refs p ?b = 1" using I(9) i r unfolding tails_ok_def obs by auto
    have "?b \<notin> set nc" using hits tail(1) i(3) r by (auto simp: hits_ok_def obs)
    then show "hashes p (req_blocks rid' m' ! i) = None \<and> refs p' (req_blocks rid' m' ! i) = 1"
      using tail r p'(4) by (simp add: obs count_list_0_iff)
  qed
  moreover have "uncached_ok p'" using I(10) p'(5) unfolding uncached_ok_def st by simp
  ultimately have "mgr_inv ext m' p'" using p'(2) by (auto simp: mgr_inv_def pool_inv_def)
  moreover have "mgr_frame ext m p m' p'"
  proof -
    have "owned m' b = 0" if "b \<noteq> null_block p" "owned m b = 0" "hashes p b = None" for b
    proof -
      have "b \<notin> set nc" using hits that by (auto simp: hits_ok_def)
      then show ?thesis using own that by (simp add: count_list_0_iff)
    qed
    then show ?thesis using p'(3,5) unfolding mgr_frame_def by (simp add: m')
  qed
  ultimately show ?thesis using p' by blast
qed


lemma mgr_frame_trans: "mgr_frame ext m p m1 p1 \<Longrightarrow> mgr_frame ext m1 p1 m2 p2 \<Longrightarrow> mgr_frame ext m p m2 p2"
  unfolding mgr_frame_def by (auto intro: same_pool_trans simp: same_pool_def)

lemma mgr_frame_refl [simp]: "mgr_frame ext m p m p"
  by (simp add: mgr_frame_def)

fun spec_ok :: "kv_cache_spec \<Rightarrow> bool" where
  "spec_ok (SlidingWindowSpec _ w) = (1 \<le> w)"
| "spec_ok (ChunkedLocalAttentionSpec _ c) = (1 \<le> c)"
| "spec_ok _ = True"

lemma floor_mult: "0 < b \<Longrightarrow> a div b * b \<le> (a :: int)"
  using pos_mod_sign [of b a] minus_mod_eq_div_mult [of a b] by linarith

lemma skipped_bounds:
  "spec_ok spec \<Longrightarrow> 0 \<le> n \<Longrightarrow> 0 \<le> get_num_skipped_tokens spec n \<and> get_num_skipped_tokens spec n \<le> n"
proof (cases spec)
  case (ChunkedLocalAttentionSpec bs c)
  assume "spec_ok spec" "0 \<le> n"
  with ChunkedLocalAttentionSpec show ?thesis
    using floor_mult [of c n] by (simp add: pos_imp_zdiv_nonneg_iff)
qed auto

lemma div_le_cdiv: "0 < b \<Longrightarrow> a' \<le> a \<Longrightarrow> a' div b \<le> cdiv a b"
proof -
  assume b: "0 < b" and "a' \<le> a"
  then have "a' div b * b \<le> a" using floor_mult [OF b, of a'] by linarith
  also have "\<dots> \<le> cdiv a b * b" using cdiv_ge [OF b] .
  finally show ?thesis using b by simp
qed

lemma le_cdiv: "0 < b \<Longrightarrow> q * b \<le> a \<Longrightarrow> q \<le> cdiv a b"
  using div_le_cdiv [of b "q * b" a] by simp

text \<open>
  The blocks of a new request: nulls for what the window skips, the remaining cache
  hits, and new blocks up to the externally computed tokens.
\<close>

lemma allocate_new_computed_blocks_spec:
  fixes nl ne :: int
  assumes inv: "mgr_inv ext m p" and rep: "pool_rep p xs" and new: "req_blocks rid m = []" "\<not> is_running rid m"
    and hits: "hits_ok p nc" "mgr_enable_caching m \<or> nc = []"
    and spec: "spec_ok (kv_cache_spec m)" "\<not> is_cross (kv_cache_spec m)"
    and nl: "int (length nc) * int (block_size m) \<le> nl" and ne: "0 \<le> ne"
    and s: "s = nat (get_num_skipped_tokens (kv_cache_spec m) (nl + ne) div int (block_size m))"
    and room: "cdiv (nl + ne) (int (block_size m)) - int (max s (length nc)) + get_num_evictable_blocks p (drop s nc) \<le> int (length xs)
               \<or> ne = 0"
  shows "\<exists>m' p' ys k. allocate_new_computed_blocks rid nc nl ne m p = Inr (m', p') \<and> mgr_inv ext m' p' \<and> mgr_frame ext m p m' p' \<and>
    pool_rep p' ys \<and> int (length (req_blocks rid m')) = int (max s (length nc)) + k \<and>
    int (length ys) = int (length xs) - get_num_evictable_blocks p (drop s nc) - k \<and>
    ncached rid m' = max s (length nc) \<and> is_running rid m' \<and>
    0 \<le> k \<and> k \<le> cdiv (nl + ne) (int (block_size m)) - int (max s (length nc)) \<and>
    (ne = 0 \<longrightarrow> hashes p' = hashes p \<and> (\<forall>b. b \<notin> set nc \<longrightarrow> refs p' b = refs p b)) \<and>
    (\<forall>r. r \<noteq> rid \<longrightarrow> req_blocks r m' = req_blocks r m \<and> ncached r m' = ncached r m)"
proof -
  note I = mgr_invD [OF inv]
  let ?bs = "int (block_size m)" and ?tc = "nl + ne"
  let ?sk = "get_num_skipped_tokens (kv_cache_spec m) ?tc"
  let ?nc = "drop s nc" and ?tab = "replicate s (null_block p) @ drop s nc"
  have bs: "0 < ?bs" using I(4) by simp
  have nl0: "0 \<le> nl" using order_trans [OF _ nl] by simp
  then have sk: "0 \<le> ?sk" "?sk \<le> ?tc" using skipped_bounds [OF spec(1), of ?tc] ne by auto
  have sdiv: "?sk div ?bs = int s" using sk(1) bs s by (simp add: pos_imp_zdiv_nonneg_iff)
  have len: "length ?tab = max s (length nc)" by simp
  have tab_le: "int (max s (length nc)) \<le> cdiv ?tc ?bs"
    using le_cdiv [OF bs, of "int (length nc)" ?tc] div_le_cdiv [OF bs sk(2)] sdiv nl ne by simp
  let ?m1 = "(set_req_blocks rid ?tab m)\<lparr>num_cached_block := dict_set rid (s + length ?nc) (num_cached_block m)\<rparr>"
  from adopt_table [OF inv rep new(1) hits_ok_drop [OF hits(1), of s] refl, of s] obtain p1 where
    p1: "touch ?nc p = Inr p1" "mgr_inv ext ?m1 p1" "mgr_frame ext m p ?m1 p1"
      "pool_rep p1 (filter (\<lambda>b. b \<notin> set ?nc) xs)"
      "hashes p1 = hashes p" "refs p1 = (\<lambda>b. refs p b + int (count_list ?nc b))" by auto
  have others1: "refs p1 b = refs p b" if "b \<notin> set nc" for b
    using that p1(6) in_set_dropD [of b s nc] by (auto simp: count_list_0_iff)
  let ?xs1 = "filter (\<lambda>b. b \<notin> set ?nc) xs"
  have ev: "int (length ?xs1) = int (length xs) - get_num_evictable_blocks p ?nc"
    using evictable_count [OF rep hits_ok_drop [OF hits(1), of s]] by linarith
  have touched: "(if mgr_enable_caching m then touch ?nc p else if ?nc \<noteq> [] then Inl AssertionError else Inr p) = Inr p1"
    using p1(1) hits(2) by (auto simp: touch_def)
  have obs: "req_blocks r ?m1 = (if r = rid then ?tab else req_blocks r m)"
    "ncached r ?m1 = (if r = rid then max s (length nc) else ncached r m)" "is_running rid ?m1" for r
    by (auto simp: ncached_def dict_val_set is_running_def dict_get_set)
  let ?ne = "if 0 < s then min (?tc - ?sk) ne else ne"
  have drop_eq: "(if 0 < int s then drop (nat (int s)) nc else nc) = ?nc" by auto
  have run: "allocate_new_computed_blocks rid nc nl ne m p =
      (if 0 < ?ne then rbind (get_new_blocks (cdiv ?tc ?bs - int (length ?tab)) p1) (\<lambda>(new, p2).
            Inr (note_new_ids new p2 (set_req_blocks rid (?tab @ new) ?m1), p2))
        else Inr (?m1, p1))"
    using new spec(2) touched I(5)
    unfolding allocate_new_computed_blocks_def Let_def sdiv drop_eq by (simp add: rbind_def)
  show ?thesis
  proof (cases "0 < ?ne")
    case False
    then have "allocate_new_computed_blocks rid nc nl ne m p = Inr (?m1, p1)" using run by simp
    then show ?thesis
      using p1 ev obs len tab_le others1
      by (intro exI [of _ ?m1] exI [of _ p1] exI [of _ ?xs1] exI [of _ 0]) simp
  next
    case True
    then have "ne \<noteq> 0" by (auto split: if_splits)
    define k where "k = cdiv ?tc ?bs - int (length ?tab)"
    have k: "0 \<le> k" "k \<le> int (length ?xs1)" using tab_le room \<open>ne \<noteq> 0\<close> ev unfolding k_def len by auto
    let ?zs = "take (nat k) ?xs1" and ?ys = "drop (nat k) ?xs1"
    have rep1: "pool_rep p1 (?zs @ ?ys)" using p1(4) by simp
    have lz: "int (length ?zs) = k" using k by simp
    from get_new_blocks_spec [OF rep1] obtain p2 where p2: "get_new_blocks (int (length ?zs)) p1 = Inr (?zs, p2)" by auto
    let ?m2 = "set_req_blocks rid (?tab @ ?zs) ?m1"
    have "?m2 = set_req_blocks rid (req_blocks rid ?m1 @ ?zs) ?m1" by (simp add: obs)
    note e = extend_table [OF p1(2) rep1 p2 this]
    let ?m3 = "note_new_ids ?zs p2 ?m2"
    have run2: "allocate_new_computed_blocks rid nc nl ne m p = Inr (?m3, p2)"
      using run True p2 unfolding k_def [symmetric] lz by simp
    have inv3: "mgr_inv ext ?m3 p2" by (rule mgr_inv_cong [OF e [THEN conjunct1]]) (use I(2,3) in simp_all)
    have "mgr_frame ext ?m1 p1 ?m3 p2"
      using e [THEN conjunct2, THEN conjunct1] unfolding mgr_frame_def by simp
    note fr3 = mgr_frame_trans [OF p1(3) this]
    have lens: "int (length (req_blocks rid ?m3)) = int (max s (length nc)) + k" using lz len by simp
    have rest: "int (length ?ys) = int (length xs) - get_num_evictable_blocks p ?nc - k" using k ev by simp
    have nc3: "ncached r ?m3 = (if r = rid then max s (length nc) else ncached r m)" "is_running rid ?m3"
      "r \<noteq> rid \<Longrightarrow> req_blocks r ?m3 = req_blocks r m" for r
      using obs(2) [of r] obs(1) [of r] obs(3) by (simp_all add: is_running_def)
    have "k \<le> cdiv ?tc ?bs - int (max s (length nc))" by (simp add: k_def len)
    note k_le = this
    have others: "req_blocks r ?m3 = req_blocks r m \<and> ncached r ?m3 = ncached r m" if "r \<noteq> rid" for r
      using nc3(1) [of r] nc3(3) [OF that] that by simp
    have "ncached rid ?m3 = max s (length nc)" using nc3(1) [of rid] by simp
    moreover have "hashes p2 = hashes p \<and> (\<forall>b. b \<notin> set nc \<longrightarrow> refs p2 b = refs p b)" if "ne = 0" using that \<open>ne \<noteq> 0\<close> by simp
    ultimately have facts: "ncached rid ?m3 = max s (length nc)"
      "ne = 0 \<Longrightarrow> hashes p2 = hashes p" "ne = 0 \<Longrightarrow> b \<notin> set nc \<Longrightarrow> refs p2 b = refs p b" for b by blast+
    note facts = facts run2 inv3 fr3 e [THEN conjunct2, THEN conjunct2] lens rest nc3(2) k(1) k_le
    show ?thesis
      by (rule exI [of _ ?m3], rule exI [of _ p2], rule exI [of _ ?ys], rule exI [of _ k])
         (intro conjI allI impI facts others [THEN conjunct1] others [THEN conjunct2])
  qed
qed


subsection \<open>Caching a request's blocks\<close>

lemma distinct_filter_nth:
  "distinct (filter P xs) \<Longrightarrow> i < length xs \<Longrightarrow> j < length xs \<Longrightarrow> xs ! i = xs ! j \<Longrightarrow> P (xs ! i) \<Longrightarrow> i = j"
proof (induction xs arbitrary: i j)
  case (Cons x xs)
  show ?case
  proof (cases i)
    case 0
    with Cons.prems show ?thesis by (cases j) (auto dest: nth_mem split: if_splits)
  next
    case (Suc i')
    with Cons show ?thesis by (cases j) (auto split: if_splits)
  qed
qed simp

lemma set_py_slice_nth: "b \<in> set (py_slice a e xs) \<longleftrightarrow> (\<exists>j. a \<le> j \<and> j < e \<and> j < length xs \<and> xs ! j = b)"
proof
  assume "b \<in> set (py_slice a e xs)"
  then obtain i where "i < length (py_slice a e xs)" "py_slice a e xs ! i = b" by (auto simp: in_set_conv_nth)
  then show "\<exists>j. a \<le> j \<and> j < e \<and> j < length xs \<and> xs ! j = b"
    by (intro exI [of _ "a + i"]) (auto simp: py_slice_def)
next
  assume "\<exists>j. a \<le> j \<and> j < e \<and> j < length xs \<and> xs ! j = b"
  then obtain j where "a \<le> j" "j < e" "j < length xs" "xs ! j = b" by blast
  then show "b \<in> set (py_slice a e xs)"
    unfolding in_set_conv_nth by (intro exI [of _ "j - a"]) (auto simp: py_slice_def)
qed

lemma distinct_filter_slice: "distinct (filter P xs) \<Longrightarrow> distinct (filter P (py_slice a e xs))"
  unfolding py_slice_def by (metis append_take_drop_id distinct_append filter_append)

lemma memo_id: "\<exists>memo. r = r\<lparr>prompt_embeds_per_block_hashes := memo\<rparr>"
  by (rule exI [of _ "prompt_embeds_per_block_hashes r"]) simp

lemma cache_blocks_spec:
  assumes inv: "mgr_inv ext m p" and rep: "pool_rep p xs" and spec: "\<not> is_cross (kv_cache_spec m)"
    and caching: "enable_caching p" and v: "block_hashes_for (hash_block_size p) (block_size m) (block_hashes r) = Inr v"
    and nf: "nf = nat (ntok div int (block_size m))" "nf \<le> length (req_blocks (request_id r) m)" "nf \<le> length (block_hashes r)" "nf \<le> length (bhl_values v)"
    and gid: "0 \<le> kv_cache_group_id m" "kv_cache_group_id m < 2 ^ 32"
  shows "\<exists>m' p' r'. cache_blocks sha256 r ntok m p = Inr (m', p', r') \<and> mgr_inv ext m' p' \<and> mgr_frame ext m p m' p' \<and>
    pool_rep p' xs \<and> refs p' = refs p \<and> (\<forall>rid. req_blocks rid m' = req_blocks rid m) \<and>
    (\<forall>rid. ncached rid m' = (if rid = request_id r then max nf (ncached rid m) else ncached rid m)) \<and>
    (\<forall>j. ncached (request_id r) m \<le> j \<longrightarrow> j < nf \<longrightarrow> req_blocks (request_id r) m ! j \<noteq> null_block p \<longrightarrow>
       carries p' (req_blocks (request_id r) m ! j) (bhl_values v ! j) (kv_cache_group_id m)) \<and>
    (\<exists>memo. r' = r\<lparr>prompt_embeds_per_block_hashes := memo\<rparr>)"
proof -
  note I = mgr_invD [OF inv]
  let ?rid = "request_id r"
  let ?nc = "ncached ?rid m" and ?bs = "req_blocks ?rid m"
  show ?thesis
  proof (cases "nf \<le> ?nc")
    case True
    then have "cache_blocks sha256 r ntok m p = Inr (m, p, r\<lparr>prompt_embeds_per_block_hashes := prompt_embeds_per_block_hashes r\<rparr>)"
      using spec nf(1) by (simp add: cache_blocks_def Let_def)
    with True inv rep show ?thesis
      by (intro exI [of _ m] exI [of _ p] exI [of _ r]) (auto simp: max_absorb2 memo_id)
  next
    case False
    let ?new = "py_slice ?nc nf ?bs"
    have sub: "set ?new \<subseteq> set (blocks p)" using I(6) by (rule subset_trans [OF set_py_slice])
    have fresh: "\<forall>b \<in> set ?new. b \<noteq> null_block p \<longrightarrow> hashes p b = None"
      using I(9) by (auto simp: set_py_slice_nth tails_ok_def)
    from cache_full_blocks_spec [OF rep sub nf(2) distinct_filter_slice [OF I(7)] fresh nf(3) v nf(4) gid, of sha256]
    obtain p' memo where p': "cache_full_blocks sha256 r ?bs ?nc nf (block_size m) (kv_cache_group_id m) p =
        Inr (p', r\<lparr>prompt_embeds_per_block_hashes := memo\<rparr>)"
      "pool_rep p' xs" "same_pool p p'" "refs p' = refs p"
      "\<forall>j. ?nc \<le> j \<longrightarrow> j < nf \<longrightarrow> ?bs ! j \<noteq> null_block p \<longrightarrow> carries p' (?bs ! j) (bhl_values v ! j) (kv_cache_group_id m)"
      "\<forall>b. b \<notin> set ?new \<or> b = null_block p \<longrightarrow> hashes p' b = hashes p b" by auto
    have st: "blocks p' = blocks p" "null_block p' = null_block p" "enable_caching p' = enable_caching p"
      using p'(3) by (auto simp: same_pool_def)
    let ?m' = "(ensure_req ?rid m)\<lparr>num_cached_block := dict_set ?rid nf (num_cached_block m)\<rparr>"
    have run: "cache_blocks sha256 r ntok m p = Inr (?m', p', r\<lparr>prompt_embeds_per_block_hashes := memo\<rparr>)"
      using False spec nf(1) p'(1) by (simp add: cache_blocks_def Let_def)
    have obs: "req_blocks rid ?m' = req_blocks rid m" "ncached rid ?m' = (if rid = ?rid then nf else ncached rid m)"
      "owned ?m' = owned m" for rid
      using I(2) by (auto simp: ensure_req_def ncached_def dict_val_set mgr_inv_ensure [unfolded ensure_req_def])
    have "tails_ok ?m' p'"
      unfolding tails_ok_def st p'(4)
    proof (intro allI impI)
      fix rid i
      assume i: "ncached rid ?m' \<le> i" "i < length (req_blocks rid ?m')" "req_blocks rid ?m' ! i \<noteq> null_block p"
      let ?b = "req_blocks rid m ! i"
      have tail: "hashes p ?b = None" "refs p ?b = 1" using I(9) i False unfolding tails_ok_def obs by (auto split: if_splits)
      have b: "?b \<in> set (req_blocks rid m)" "?b \<in> set (blocks p)" using i(2) I(6) [of rid] by (auto simp: obs)
      have "?b \<notin> set ?new"
      proof
        assume "?b \<in> set ?new"
        then obtain j where j: "?nc \<le> j" "j < nf" "j < length ?bs" "?bs ! j = ?b" by (auto simp: set_py_slice_nth)
        show False
        proof (cases "rid = ?rid")
          case True
          have "i = j" by (rule distinct_filter_nth [OF I(7) [of ?rid]]) (use i j True in \<open>auto simp: obs\<close>)
          then show False using i(1) j(2) True by (simp add: obs)
        next
          case other: False
          have "0 < count_list (req_blocks rid m) ?b" using b(1) by (metis count_list_0_iff not_gr_zero)
          moreover have "0 < count_list ?bs ?b" using j(3,4) by (metis count_list_0_iff not_gr_zero nth_mem)
          ultimately have "2 \<le> owned m ?b" using owned_ge2 [OF I(2) other, of ?b] by linarith
          then show False using I(8) [OF b(2)] i(3) tail(2) by (simp add: obs)
        qed
      qed
      with tail p'(6) show "hashes p' (req_blocks rid ?m' ! i) = None \<and> refs p (req_blocks rid ?m' ! i) = 1" by (simp add: obs)
    qed
    moreover have "tables_ok ?m' p'" using I(2-7) unfolding tables_ok_def st obs by (simp add: ensure_req_def)
    moreover have "counts_ok ext ?m' p'" using I(8) unfolding counts_ok_def st obs p'(4) by simp
    moreover have "uncached_ok p'" using caching unfolding uncached_ok_def st by simp
    ultimately have inv': "mgr_inv ext ?m' p'" using p'(2) by (auto simp: mgr_inv_def pool_inv_def)
    have "hashes p' b = hashes p b" if "owned m b = 0" for b
    proof -
      have "count_list ?bs b = 0" using owned_ge [OF I(2), of ?rid b] that by simp
      then have "b \<notin> set ?new" using set_py_slice [of ?nc nf ?bs] by (auto simp: count_list_0_iff)
      with p'(6) show ?thesis by simp
    qed
    then have frame: "mgr_frame ext m p ?m' p'" using p'(3) unfolding mgr_frame_def obs by (simp add: ensure_req_def)
    show ?thesis
      by (rule exI [of _ ?m'], rule exI [of _ p'], rule exI [of _ "r\<lparr>prompt_embeds_per_block_hashes := memo\<rparr>"])
         (use run inv' frame p'(2,4,5) False in \<open>simp add: obs max_absorb1, blast\<close>)
  qed
qed

end
