(* ===== verification/Cache_Hit.thy ===== *)
theory Cache_Hit
  imports Cache_Manager
begin

text \<open>
  \<^verbatim>\<open>find_longest_cache_hit\<close> of the cache managers
  (\<^verbatim>\<open>vllm/v1/core/single_type_kv_cache_manager.py\<close>): the search for the longest cached prefix of
  a request, from left to right for full and chunked-local attention, from right to left
  for a sliding window. The result has one list of blocks per group of the call.
\<close>

section \<open>Model\<close>

type_synonym hit_table = "block_ref list list"

text \<open>
  The walrus test \<^verbatim>\<open>if cached_block := get_cached_block(...)\<close>: a miss and an empty
  list of groups are both false.
\<close>

definition lookup_hit :: "block_pool \<Rightarrow> bytes \<Rightarrow> int list \<Rightarrow> block_ref list option res" where
  "lookup_hit p h gids =
     rbind (get_cached_block p h gids) (\<lambda>hit. Inr (case hit of Some (b # bs) \<Rightarrow> Some (b # bs) | _ \<Rightarrow> None))"

definition append_hit :: "hit_table \<Rightarrow> block_ref list \<Rightarrow> hit_table" where
  "append_hit computed cached = map (\<lambda>(c, b). c @ [b]) (zip computed cached)"

fun extend_hits :: "block_pool \<Rightarrow> int list \<Rightarrow> bytes list \<Rightarrow> hit_table \<Rightarrow> hit_table res" where
  "extend_hits p gids [] computed = Inr computed"
| "extend_hits p gids (h # hs) computed =
     rbind (lookup_hit p h gids) (\<lambda>hit.
       case hit of None \<Rightarrow> Inr computed | Some bs \<Rightarrow> extend_hits p gids hs (append_hit computed bs))"

definition pop_each :: "hit_table \<Rightarrow> hit_table" where
  "pop_each computed = map butlast computed"

text \<open>The \<^verbatim>\<open>while\<close> loop that drops blocks until the hit length is a multiple of the alignment.\<close>

function trim_aligned :: "nat \<Rightarrow> nat \<Rightarrow> hit_table \<Rightarrow> hit_table" where
  "trim_aligned bs al computed =
     (if computed \<noteq> [] \<and> bs \<noteq> al \<and> length (hd computed) * bs mod al \<noteq> 0
      then trim_aligned bs al (pop_each computed) else computed)"
  by pat_completeness auto
termination
proof (relation "measure (\<lambda>(_, _, computed). length (hd computed))", goal_cases)
  case (2 bs al computed)
  then have "hd computed \<noteq> []" by (metis list.size(3) mod_0 mult_0)
  with 2 show ?case by (simp add: pop_each_def hd_map)
qed simp

declare trim_aligned.simps [simp del]

definition full_find_longest_cache_hit ::
  "block_hash_list \<Rightarrow> int \<Rightarrow> int list \<Rightarrow> block_pool \<Rightarrow> kv_cache_spec \<Rightarrow> bool \<Rightarrow> nat \<Rightarrow> nat \<Rightarrow> nat \<Rightarrow> hit_table res" where
  "full_find_longest_cache_hit hs max_length gids p spec use_eagle alignment dcp pcp =
     (case spec of
        SlidingWindowSpec _ _ \<Rightarrow> Inl AssertionError
      | CrossAttentionSpec _ \<Rightarrow> Inl AssertionError
      | _ \<Rightarrow>
         (let bs = (if 1 < dcp * pcp then spec_block_size spec * (dcp * pcp) else spec_block_size spec);
              max_num_blocks = nat (max_length div int bs)
          in
          if max_length div int bs < 0 then Inl ValueError
          else
          rbind (extend_hits p gids (take max_num_blocks (bhl_values hs)) (replicate (length gids) [])) (\<lambda>computed.
          if gids = [] \<and> (use_eagle \<or> bs \<noteq> alignment) then Inl IndexError
          else
            let computed' = (if use_eagle \<and> hd computed \<noteq> [] then pop_each computed else computed)
            in Inr (trim_aligned bs alignment computed'))))"

subsection \<open>Sliding window\<close>

definition set_hit :: "nat \<Rightarrow> hit_table \<Rightarrow> block_ref list \<Rightarrow> hit_table" where
  "set_hit i computed cached = map (\<lambda>(c, b). c[i := b]) (zip computed cached)"

text \<open>
  The loop from the last block down to the first. \<open>n\<close> counts the contiguous hits; the first
  component tells whether enough of them were found.
\<close>

fun window_loop ::
  "block_pool \<Rightarrow> block_hash_list \<Rightarrow> int list \<Rightarrow> nat \<Rightarrow> nat \<Rightarrow> int \<Rightarrow> nat \<Rightarrow> hit_table \<Rightarrow> nat \<Rightarrow>
   (bool \<times> hit_table \<times> nat) res" where
  "window_loop p hs gids bs al need 0 computed n = Inr (False, computed, n)"
| "window_loop p hs gids bs al need (Suc i) computed n =
     rbind (bhl_get hs i) (\<lambda>h.
     rbind (lookup_hit p h gids) (\<lambda>hit.
       case hit of
         None \<Rightarrow> window_loop p hs gids bs al need i computed 0
       | Some cached \<Rightarrow>
           if n = 0 \<and> bs \<noteq> al \<and> (i + 1) * bs mod al \<noteq> 0 then window_loop p hs gids bs al need i computed n
           else
             let computed' = set_hit i computed cached in
             if need \<le> int (n + 1) then Inr (True, map (take (i + (n + 1))) computed', n + 1)
             else window_loop p hs gids bs al need i computed' (n + 1)))"

definition window_find_longest_cache_hit ::
  "block_hash_list \<Rightarrow> int \<Rightarrow> int list \<Rightarrow> block_pool \<Rightarrow> kv_cache_spec \<Rightarrow> bool \<Rightarrow> nat \<Rightarrow> nat \<Rightarrow> nat \<Rightarrow> hit_table res" where
  "window_find_longest_cache_hit hs max_length gids p spec use_eagle alignment dcp pcp =
     (case spec of
        SlidingWindowSpec bs window \<Rightarrow>
          if dcp \<noteq> 1 \<or> pcp \<noteq> 1 then Inl AssertionError
          else
            let need = cdiv (window - 1) (int bs) + (if use_eagle then 1 else 0);
                max_num_blocks = nat (max_length div int bs)
            in
            rbind (window_loop p hs gids bs alignment need max_num_blocks
                     (replicate (length gids) (replicate max_num_blocks (null_block p))) 0)
              (\<lambda>(found, computed, n).
            if gids = [] \<and> (use_eagle \<or> (\<not> found \<and> bs \<noteq> alignment)) then Inl IndexError
            else
              let computed' = (if found then computed else trim_aligned bs alignment (map (take n) computed))
              in if use_eagle \<and> hd computed' \<noteq> [] then
                   if bs \<noteq> alignment then Inl AssertionError else Inr (pop_each computed')
                 else Inr computed')
      | _ \<Rightarrow> Inl AssertionError)"

subsection \<open>Chunked local attention\<close>

fun chunk_loop :: "block_pool \<Rightarrow> block_hash_list \<Rightarrow> int list \<Rightarrow> nat list \<Rightarrow> hit_table \<Rightarrow> hit_table res" where
  "chunk_loop p hs gids [] computed = Inr computed"
| "chunk_loop p hs gids (i # is) computed =
     rbind (bhl_get hs i) (\<lambda>h.
     rbind (lookup_hit p h gids) (\<lambda>hit.
       case hit of None \<Rightarrow> Inr computed | Some bs \<Rightarrow> chunk_loop p hs gids is (append_hit computed bs)))"

definition chunk_find_longest_cache_hit ::
  "block_hash_list \<Rightarrow> int \<Rightarrow> int list \<Rightarrow> block_pool \<Rightarrow> kv_cache_spec \<Rightarrow> bool \<Rightarrow> nat \<Rightarrow> nat \<Rightarrow> nat \<Rightarrow> hit_table res" where
  "chunk_find_longest_cache_hit hs max_length gids p spec use_eagle alignment dcp pcp =
     (case spec of
        ChunkedLocalAttentionSpec bs chunk \<Rightarrow>
          if use_eagle \<or> dcp \<noteq> 1 \<or> pcp \<noteq> 1 \<or> bs \<noteq> alignment then Inl AssertionError
          else
            let max_num_blocks = nat (max_length div int bs);
                start_idx = (if 0 < max_length then max_length div chunk * chunk else 0);
                start_block = nat (start_idx div int bs)
            in chunk_loop p hs gids [start_block..<max_num_blocks]
                 (replicate (length gids) (replicate start_block (null_block p)))
      | _ \<Rightarrow> Inl AssertionError)"

text \<open>The dispatch on the manager class; cross attention does not support caching.\<close>

definition find_longest_cache_hit ::
  "kv_cache_spec \<Rightarrow> block_hash_list \<Rightarrow> int \<Rightarrow> int list \<Rightarrow> block_pool \<Rightarrow> bool \<Rightarrow> nat \<Rightarrow> nat \<Rightarrow> nat \<Rightarrow> hit_table res" where
  "find_longest_cache_hit spec hs max_length gids p use_eagle alignment dcp pcp =
     (case spec of
        SlidingWindowSpec _ _ \<Rightarrow> window_find_longest_cache_hit hs max_length gids p spec use_eagle alignment dcp pcp
      | ChunkedLocalAttentionSpec _ _ \<Rightarrow> chunk_find_longest_cache_hit hs max_length gids p spec use_eagle alignment dcp pcp
      | CrossAttentionSpec _ \<Rightarrow> Inl NotImplementedError
      | _ \<Rightarrow> full_find_longest_cache_hit hs max_length gids p spec use_eagle alignment dcp pcp)"


section \<open>Lookups\<close>

text \<open>Block \<open>b\<close> is cached under hash \<open>h\<close> in group \<open>g\<close>; a hash is a hit if every group has such a block.\<close>

definition holds :: "block_pool \<Rightarrow> block_ref \<Rightarrow> bytes \<Rightarrow> int \<Rightarrow> bool" where
  "holds p b h g \<longleftrightarrow> b \<in> set (blocks p) \<and> b \<noteq> null_block p \<and> carries p b h g"

definition cached_in_all :: "block_pool \<Rightarrow> int list \<Rightarrow> bytes \<Rightarrow> bool" where
  "cached_in_all p gids h \<longleftrightarrow> (\<forall>g \<in> set gids. \<exists>b. holds p b h g)"

definition gids_ok :: "int list \<Rightarrow> bool" where
  "gids_ok gids \<longleftrightarrow> gids \<noteq> [] \<and> (\<forall>g \<in> set gids. 0 \<le> g \<and> g < 2 ^ 32)"

lemma lookup_hit_spec:
  assumes "pool_rep p xs" "gids_ok gids"
  shows "(cached_in_all p gids h \<and> (\<exists>bs. lookup_hit p h gids = Inr (Some bs) \<and> length bs = length gids \<and>
      (\<forall>j < length gids. holds p (bs ! j) h (gids ! j)))) \<or>
    (\<not> cached_in_all p gids h \<and> lookup_hit p h gids = Inr None)"
proof -
  have gs: "\<forall>g \<in> set gids. 0 \<le> g \<and> g < 2 ^ 32" using assms(2) by (simp add: gids_ok_def)
  from get_cached_block_spec [OF assms(1) gs, of h] obtain hit where hit: "get_cached_block p h gids = Inr hit"
    "case hit of
       Some bs \<Rightarrow> length bs = length gids \<and> (\<forall>j < length gids. bs ! j \<in> set (blocks p) \<and> bs ! j \<noteq> null_block p \<and> carries p (bs ! j) h (gids ! j))
     | None \<Rightarrow> \<exists>g \<in> set gids. \<forall>b \<in> set (blocks p). b \<noteq> null_block p \<longrightarrow> \<not> carries p b h g" by blast
  show ?thesis
  proof (cases hit)
    case None
    with hit show ?thesis by (auto simp: lookup_hit_def cached_in_all_def holds_def)
  next
    case (Some bs)
    with hit(2) have bs: "length bs = length gids" "\<forall>j < length gids. holds p (bs ! j) h (gids ! j)" by (auto simp: holds_def)
    moreover have "bs \<noteq> []" using bs(1) assms(2) by (auto simp: gids_ok_def)
    then have "lookup_hit p h gids = Inr (Some bs)" using hit(1) Some by (cases bs) (auto simp: lookup_hit_def)
    moreover have "cached_in_all p gids h" using bs(2) by (metis cached_in_all_def in_set_conv_nth)
    ultimately show ?thesis by blast
  qed
qed

lemma lookup_hit_cases:
  assumes "pool_rep p xs" "gids_ok gids"
  obtains (hit) bs where "lookup_hit p h gids = Inr (Some bs)" "length bs = length gids"
      "\<And>j. j < length gids \<Longrightarrow> holds p (bs ! j) h (gids ! j)" "cached_in_all p gids h"
    | (miss) "lookup_hit p h gids = Inr None" "\<not> cached_in_all p gids h"
  using lookup_hit_spec [OF assms, of h] by blast

text \<open>A table of hits: row \<open>j\<close> holds \<open>n\<close> blocks, of which those from \<open>a\<close> on are cached under the hashes at their index.\<close>

definition hit_rows :: "block_pool \<Rightarrow> int list \<Rightarrow> bytes list \<Rightarrow> nat \<Rightarrow> nat \<Rightarrow> hit_table \<Rightarrow> bool" where
  "hit_rows p gids hs a n computed \<longleftrightarrow> length computed = length gids \<and>
     (\<forall>j < length gids. length (computed ! j) = n \<and>
        (\<forall>k < n. if k < a then computed ! j ! k = null_block p else holds p (computed ! j ! k) (hs ! k) (gids ! j)))"

lemma hit_rows_append:
  assumes "hit_rows p gids hs a n computed" "a \<le> n" "length bs = length gids"
    "\<And>j. j < length gids \<Longrightarrow> holds p (bs ! j) (hs ! n) (gids ! j)"
  shows "hit_rows p gids hs a (Suc n) (append_hit computed bs)"
  using assms unfolding hit_rows_def append_hit_def by (auto simp: nth_append less_Suc_eq)

lemma hit_rows_hd: "hit_rows p gids hs a n computed \<Longrightarrow> gids \<noteq> [] \<Longrightarrow> computed \<noteq> [] \<and> length (hd computed) = n"
  unfolding hit_rows_def by (metis hd_conv_nth length_greater_0_conv)

lemma hit_rows_pop: "hit_rows p gids hs a n computed \<Longrightarrow> hit_rows p gids hs a (n - 1) (pop_each computed)"
  unfolding hit_rows_def pop_each_def by (auto simp: nth_butlast)

lemma hit_rows_Nil: "hit_rows p gids hs a a (replicate (length gids) (replicate a (null_block p)))"
  by (simp add: hit_rows_def)

lemma extend_hits_spec:
  assumes "pool_rep p xs" "gids_ok gids" "hit_rows p gids hs a n computed" "a \<le> n" "m \<le> length hs" "n \<le> m"
  shows "\<exists>computed'. extend_hits p gids (py_slice n m hs) computed = Inr computed' \<and>
    hit_rows p gids hs a (n + length (takeWhile (cached_in_all p gids) (py_slice n m hs))) computed'"
  using assms(3-6)
proof (induction "m - n" arbitrary: n computed)
  case 0
  then show ?case by (simp add: py_slice_def)
next
  case (Suc d)
  then have slice: "py_slice n m hs = hs ! n # py_slice (Suc n) m hs"
    by (simp add: py_slice_def) (metis Cons_nth_drop_Suc Suc_diff_Suc less_le_trans take_Suc_Cons zero_less_Suc zero_less_diff)
  show ?case
  proof (rule lookup_hit_cases [OF assms(1,2), of "hs ! n"])
    fix bs
    assume hit: "lookup_hit p (hs ! n) gids = Inr (Some bs)" "length bs = length gids"
      "\<And>j. j < length gids \<Longrightarrow> holds p (bs ! j) (hs ! n) (gids ! j)" "cached_in_all p gids (hs ! n)"
    have "d = m - Suc n" "Suc n \<le> m" "a \<le> Suc n" using Suc.hyps(2) Suc.prems by simp_all
    from Suc.hyps(1) [OF this(1) hit_rows_append [OF Suc.prems(1,2) hit(2,3)] this(3) Suc.prems(3) this(2)]
    obtain computed' where "extend_hits p gids (py_slice (Suc n) m hs) (append_hit computed bs) = Inr computed'"
      "hit_rows p gids hs a (Suc n + length (takeWhile (cached_in_all p gids) (py_slice (Suc n) m hs))) computed'" by auto
    with hit slice show ?thesis by simp
  next
    assume "lookup_hit p (hs ! n) gids = Inr None" "\<not> cached_in_all p gids (hs ! n)"
    with slice Suc.prems show ?thesis by simp
  qed
qed

text \<open>Trimming keeps the largest aligned length.\<close>

definition aligned :: "nat \<Rightarrow> nat \<Rightarrow> nat \<Rightarrow> bool" where
  "aligned bs al n \<longleftrightarrow> bs = al \<or> n * bs mod al = 0"

lemma aligned_0 [simp]: "aligned bs al 0"
  by (simp add: aligned_def)

lemma trim_aligned_spec:
  assumes "hit_rows p gids hs a n computed" "gids \<noteq> []"
  shows "\<exists>n' \<le> n. hit_rows p gids hs a n' (trim_aligned bs al computed) \<and> aligned bs al n' \<and>
    (\<forall>k. n' < k \<longrightarrow> k \<le> n \<longrightarrow> \<not> aligned bs al k)"
  using assms(1)
proof (induction n arbitrary: computed)
  case 0
  then show ?case using hit_rows_hd [OF 0 assms(2)] by (subst trim_aligned.simps) simp
next
  case (Suc n)
  note hd = hit_rows_hd [OF Suc.prems assms(2)]
  show ?case
  proof (cases "aligned bs al (Suc n)")
    case True
    then have "trim_aligned bs al computed = computed"
      using hd by (subst trim_aligned.simps) (auto simp: aligned_def)
    with True Suc.prems show ?thesis by (intro exI [of _ "Suc n"]) simp
  next
    case False
    then have step: "trim_aligned bs al computed = trim_aligned bs al (pop_each computed)"
      using hd by (subst trim_aligned.simps) (simp add: aligned_def)
    from Suc.IH [of "pop_each computed"] hit_rows_pop [OF Suc.prems] obtain n' where
      "n' \<le> n" "hit_rows p gids hs a n' (trim_aligned bs al (pop_each computed))" "aligned bs al n'"
      "\<forall>k. n' < k \<longrightarrow> k \<le> n \<longrightarrow> \<not> aligned bs al k" by auto
    with step False show ?thesis by (intro exI [of _ n']) (auto simp: le_Suc_eq)
  qed
qed


section \<open>Full attention\<close>

definition world_block_size :: "kv_cache_spec \<Rightarrow> nat \<Rightarrow> nat \<Rightarrow> nat" where
  "world_block_size spec dcp pcp = (if 1 < dcp * pcp then spec_block_size spec * (dcp * pcp) else spec_block_size spec)"

text \<open>The number of leading blocks that are cached in all groups, less the one recomputed for EAGLE.\<close>

definition usable_prefix :: "block_pool \<Rightarrow> int list \<Rightarrow> bytes list \<Rightarrow> nat \<Rightarrow> bool \<Rightarrow> nat" where
  "usable_prefix p gids hs m use_eagle =
     length (takeWhile (cached_in_all p gids) (take m hs)) - (if use_eagle then 1 else 0)"

lemma full_hit_spec:
  assumes rep: "pool_rep p xs" and gids: "gids_ok gids" and spec: "spec \<in> range FullAttentionSpec \<union> range MLAAttentionSpec"
    and bs: "bs = world_block_size spec dcp pcp" and m: "m = nat (max_length div int bs)" and len: "0 \<le> max_length"
  shows "\<exists>n computed. full_find_longest_cache_hit v max_length gids p spec use_eagle al dcp pcp = Inr computed \<and>
    hit_rows p gids (bhl_values v) 0 n computed \<and> n \<le> usable_prefix p gids (bhl_values v) m use_eagle \<and> aligned bs al n \<and>
    (\<forall>k. n < k \<longrightarrow> k \<le> usable_prefix p gids (bhl_values v) m use_eagle \<longrightarrow> \<not> aligned bs al k)"
proof -
  let ?hs = "bhl_values v"
  define m' where "m' = min m (length ?hs)"
  have nonneg: "\<not> max_length div int bs < 0" using len by (cases "bs = 0") (simp_all add: pos_imp_zdiv_nonneg_iff not_less)
  have slice: "py_slice 0 m' ?hs = take m ?hs" by (simp add: py_slice_def m'_def min_def)
  have ne: "gids \<noteq> []" using gids by (simp add: gids_ok_def)
  let ?L = "length (takeWhile (cached_in_all p gids) (take m ?hs))"
  from extend_hits_spec [OF rep gids hit_rows_Nil [of p gids ?hs 0], of m'] slice obtain c where
    c: "extend_hits p gids (take m ?hs) (replicate (length gids) []) = Inr c" "hit_rows p gids ?hs 0 ?L c"
    by (auto simp: m'_def)
  let ?c = "if use_eagle \<and> hd c \<noteq> [] then pop_each c else c"
  have "hit_rows p gids ?hs 0 (usable_prefix p gids ?hs m use_eagle) ?c"
    using c(2) hit_rows_pop [OF c(2)] hit_rows_hd [OF c(2) ne] by (auto simp: usable_prefix_def)
  from trim_aligned_spec [OF this ne, of bs al] obtain n where
    n: "n \<le> usable_prefix p gids ?hs m use_eagle" "hit_rows p gids ?hs 0 n (trim_aligned bs al ?c)" "aligned bs al n"
      "\<forall>k. n < k \<longrightarrow> k \<le> usable_prefix p gids ?hs m use_eagle \<longrightarrow> \<not> aligned bs al k" by auto
  have "full_find_longest_cache_hit v max_length gids p spec use_eagle al dcp pcp = Inr (trim_aligned bs al ?c)"
    using spec c(1) ne bs m nonneg
    by (auto simp: full_find_longest_cache_hit_def world_block_size_def Let_def)
  with n show ?thesis by blast
qed

section \<open>Sliding window\<close>

text \<open>
  The state of the right-to-left search at index \<open>i\<close>: nulls below \<open>i\<close>, hits at the \<open>n\<close>
  positions from \<open>i\<close> on, and null or a hit everywhere.
\<close>

definition window_rows :: "block_pool \<Rightarrow> int list \<Rightarrow> bytes list \<Rightarrow> nat \<Rightarrow> nat \<Rightarrow> nat \<Rightarrow> hit_table \<Rightarrow> bool" where
  "window_rows p gids hs m i n computed \<longleftrightarrow> length computed = length gids \<and>
     (\<forall>j < length gids. length (computed ! j) = m \<and> (\<forall>k < i. computed ! j ! k = null_block p) \<and>
        (\<forall>k. i \<le> k \<longrightarrow> k < i + n \<longrightarrow> holds p (computed ! j ! k) (hs ! k) (gids ! j)))"

lemma window_rows_set:
  assumes "window_rows p gids hs m (Suc i) n computed" "Suc i + n \<le> m" "length bs = length gids"
    "\<And>j. j < length gids \<Longrightarrow> holds p (bs ! j) (hs ! i) (gids ! j)"
  shows "window_rows p gids hs m i (n + 1) (set_hit i computed bs)"
proof -
  have len: "length computed = length gids" using assms(1) by (simp add: window_rows_def)
  have row: "set_hit i computed bs ! j = (computed ! j)[i := bs ! j]" if "j < length gids" for j
    using that len assms(3) by (simp add: set_hit_def)
  have old: "length (computed ! j) = m" "k < Suc i \<Longrightarrow> computed ! j ! k = null_block p"
    "Suc i \<le> k \<Longrightarrow> k < Suc i + n \<Longrightarrow> holds p (computed ! j ! k) (hs ! k) (gids ! j)" if "j < length gids" for j k
    using assms(1) that by (simp_all add: window_rows_def)
  show ?thesis
    unfolding window_rows_def
  proof (intro conjI allI impI)
    show "length (set_hit i computed bs) = length gids" using len assms(3) by (simp add: set_hit_def)
    fix j k
    assume j: "j < length gids"
    show "length (set_hit i computed bs ! j) = m" using old(1) [OF j] row [OF j] by simp
    show "set_hit i computed bs ! j ! k = null_block p" if "k < i" using old(2) [OF j, of k] row [OF j] that by simp
    show "holds p (set_hit i computed bs ! j ! k) (hs ! k) (gids ! j)" if "i \<le> k" "k < i + (n + 1)"
      using old(1) [OF j] old(3) [OF j, of k] row [OF j] that assms(2) assms(4) [OF j] by (cases "k = i") simp_all
  qed
qed

lemma window_rows_take:
  "window_rows p gids hs m i n computed \<Longrightarrow> i + n \<le> m \<Longrightarrow> hit_rows p gids hs i (i + n) (map (take (i + n)) computed)"
  unfolding window_rows_def hit_rows_def by (simp add: min_absorb2)

lemma window_rows_weaken: "window_rows p gids hs m (Suc i) n computed \<Longrightarrow> window_rows p gids hs m i 0 computed"
  unfolding window_rows_def by simp

text \<open>What the search returns: enough hits that end on an aligned length, or the hits of the leading blocks.\<close>

definition window_result ::
  "block_pool \<Rightarrow> int list \<Rightarrow> bytes list \<Rightarrow> nat \<Rightarrow> nat \<Rightarrow> nat \<Rightarrow> int \<Rightarrow> (bool \<times> hit_table \<times> nat) res \<Rightarrow> bool" where
  "window_result p gids hs m bs al need r \<longleftrightarrow>
     (\<exists>computed n a. r = Inr (True, computed, n) \<and> a + n \<le> m \<and> hit_rows p gids hs a (a + n) computed \<and>
        need \<le> int n \<and> 0 < n \<and> aligned bs al (a + n)) \<or>
     (\<exists>computed n. r = Inr (False, computed, n) \<and> n \<le> m \<and> window_rows p gids hs m 0 n computed \<and> int n < max 1 need)"

lemma window_loop_spec:
  assumes rep: "pool_rep p xs" and gids: "gids_ok gids" and get: "\<And>k. k < m \<Longrightarrow> bhl_get v k = Inr (hs ! k)"
  shows "i + n \<le> m \<Longrightarrow> window_rows p gids hs m i n computed \<Longrightarrow> n = 0 \<or> int n < need \<and> aligned bs al (i + n) \<Longrightarrow>
    window_result p gids hs m bs al need (window_loop p v gids bs al need i computed n)"
proof (induction i arbitrary: n computed)
  case 0
  then have "n \<le> m" "window_rows p gids hs m 0 n computed" "int n < max 1 need" by (simp, simp, fastforce)
  then show ?case by (simp add: window_result_def)
next
  case (Suc i)
  have h: "bhl_get v i = Inr (hs ! i)" using get Suc.prems(1) by simp
  note weak = window_rows_weaken [OF Suc.prems(2)]
  show ?case
  proof (rule lookup_hit_cases [OF rep gids, of "hs ! i"])
    assume miss: "lookup_hit p (hs ! i) gids = Inr None"
    have "window_result p gids hs m bs al need (window_loop p v gids bs al need i computed 0)"
      by (rule Suc.IH) (use Suc.prems(1) weak in simp_all)
    with h miss show ?thesis by simp
  next
    fix bs'
    assume hit: "lookup_hit p (hs ! i) gids = Inr (Some bs')" "length bs' = length gids"
      "\<And>j. j < length gids \<Longrightarrow> holds p (bs' ! j) (hs ! i) (gids ! j)"
    let ?c = "set_hit i computed bs'"
    have unfold: "window_loop p v gids bs al need (Suc i) computed n =
      (if n = 0 \<and> \<not> aligned bs al (Suc i) then window_loop p v gids bs al need i computed n
       else if need \<le> int (n + 1) then Inr (True, map (take (i + (n + 1))) ?c, n + 1)
       else window_loop p v gids bs al need i ?c (n + 1))"
      using h hit(1) by (simp add: Let_def aligned_def)
    show ?thesis
    proof (cases "n = 0 \<and> \<not> aligned bs al (Suc i)")
      case True
      have "window_result p gids hs m bs al need (window_loop p v gids bs al need i computed n)"
        by (rule Suc.IH) (use Suc.prems(1) weak True in simp_all)
      with True show ?thesis unfolding unfold by simp
    next
      case False
      have rows: "window_rows p gids hs m i (n + 1) ?c" using window_rows_set [OF Suc.prems(2,1) hit(2,3)] .
      have al: "aligned bs al (i + (n + 1))" using Suc.prems(3) False by auto
      have m: "i + (n + 1) \<le> m" using Suc.prems(1) by simp
      show ?thesis
      proof (cases "need \<le> int (n + 1)")
        case True
        have "window_result p gids hs m bs al need (Inr (True, map (take (i + (n + 1))) ?c, n + 1))"
          unfolding window_result_def using m window_rows_take [OF rows m] True al
          by (intro disjI1 exI [of _ "map (take (i + (n + 1))) ?c"] exI [of _ "n + 1"] exI [of _ i]) simp
        then show ?thesis unfolding unfold if_not_P [OF False] if_P [OF True] .
      next
        case less: False
        have "window_result p gids hs m bs al need (window_loop p v gids bs al need i ?c (n + 1))"
          by (rule Suc.IH) (use m rows al less in simp_all)
        then show ?thesis unfolding unfold if_not_P [OF False] if_not_P [OF less] .
      qed
    qed
  qed
qed

text \<open>Right-to-left search of the sliding window; with EAGLE one more block is asked for and the last one dropped.\<close>

definition view_ok :: "block_hash_list \<Rightarrow> bool" where
  "view_ok v = (case v of PlainHashes _ \<Rightarrow> True | ScaledHashes _ k \<Rightarrow> 0 < k)"

lemma view_get: "view_ok v \<Longrightarrow> k < bhl_length v \<Longrightarrow> bhl_get v k = Inr (bhl_values v ! k)"
  by (cases v) (simp_all add: view_ok_def bhl_get_values del: bhl_get.simps(2) bhl_values.simps(2))

lemma view_length [simp]: "length (bhl_values v) = bhl_length v"
  by (cases v) simp_all

lemma window_rows_Nil: "window_rows p gids hs m m 0 (replicate (length gids) (replicate m (null_block p)))"
  by (simp add: window_rows_def)

lemma window_hit_spec:
  assumes rep: "pool_rep p xs" and gids: "gids_ok gids" and v: "view_ok v"
    and m: "m = nat (max_length div int bs)" "m \<le> bhl_length v" and eagle: "use_eagle \<longrightarrow> bs = al"
  shows "\<exists>a n computed. window_find_longest_cache_hit v max_length gids p (SlidingWindowSpec bs w) use_eagle al 1 1 = Inr computed \<and>
    hit_rows p gids (bhl_values v) a n computed \<and> n \<le> m \<and> aligned bs al n \<and> (a = 0 \<or> cdiv (w - 1) (int bs) \<le> int n - int a)"
proof -
  let ?hs = "bhl_values v" and ?c = "cdiv (w - 1) (int bs)"
  let ?need = "?c + (if use_eagle then 1 else 0)"
  let ?r = "window_loop p v gids bs al ?need m (replicate (length gids) (replicate m (null_block p))) 0"
  have ne: "gids \<noteq> []" using gids by (simp add: gids_ok_def)
  have pop: "aligned bs al (k - 1)" if "use_eagle" for k using eagle that by (simp add: aligned_def)
  let ?post = "\<lambda>c. if use_eagle \<and> hd c \<noteq> [] then if bs \<noteq> al then Inl AssertionError else Inr (pop_each c) else Inr c"
  have post: "\<exists>n' computed'. ?post computed = Inr computed' \<and> hit_rows p gids ?hs a n' computed' \<and> n' \<le> n \<and> aligned bs al n' \<and>
      int n - (if use_eagle then 1 else 0) \<le> int n'"
    if "hit_rows p gids ?hs a n computed" "aligned bs al n" for a n computed
  proof (cases "use_eagle \<and> hd computed \<noteq> []")
    case True
    then show ?thesis using hit_rows_pop [OF that(1)] pop eagle
      by (intro exI [of _ "n - 1"] exI [of _ "pop_each computed"]) simp
  qed (use that in \<open>intro exI [of _ n] exI [of _ computed], simp\<close>)
  have "window_result p gids ?hs m bs al ?need ?r"
    by (rule window_loop_spec [OF rep gids]) (use view_get [OF v] m(2) window_rows_Nil in \<open>simp_all\<close>)
  then consider (found) computed n a where "?r = Inr (True, computed, n)" "a + n \<le> m" "hit_rows p gids ?hs a (a + n) computed"
      "?need \<le> int n" "0 < n" "aligned bs al (a + n)"
    | (short) computed n where "?r = Inr (False, computed, n)" "n \<le> m" "window_rows p gids ?hs m 0 n computed"
    unfolding window_result_def by blast
  then show ?thesis
  proof cases
    case found
    from post [OF found(3,6)] obtain n' computed' where
      n': "?post computed = Inr computed'" "hit_rows p gids ?hs a n' computed'" "n' \<le> a + n" "aligned bs al n'"
        "int (a + n) - (if use_eagle then 1 else 0) \<le> int n'" by blast
    have "window_find_longest_cache_hit v max_length gids p (SlidingWindowSpec bs w) use_eagle al 1 1 = Inr computed'"
      using found(1) n'(1) ne by (simp add: window_find_longest_cache_hit_def Let_def flip: m(1) split: if_splits)
    moreover have "?c \<le> int n' - int a" using n'(5) found(4) by (simp split: if_splits)
    ultimately show ?thesis using n' found(2) by (intro exI conjI) (assumption | simp)+
  next
    case short
    have "hit_rows p gids ?hs 0 n (map (take n) computed)" using window_rows_take [OF short(3)] short(2) by simp
    from trim_aligned_spec [OF this ne, of bs al] obtain k where
      k: "k \<le> n" "hit_rows p gids ?hs 0 k (trim_aligned bs al (map (take n) computed))" "aligned bs al k" by blast
    from post [OF k(2,3)] obtain n' computed' where
      n': "?post (trim_aligned bs al (map (take n) computed)) = Inr computed'" "hit_rows p gids ?hs 0 n' computed'" "n' \<le> k" "aligned bs al n'"
      by blast
    have "window_find_longest_cache_hit v max_length gids p (SlidingWindowSpec bs w) use_eagle al 1 1 = Inr computed'"
      using short(1) n'(1) ne by (auto simp: window_find_longest_cache_hit_def Let_def simp flip: m(1) split: if_splits)
    then show ?thesis using n' k(1) short(2) by (intro exI [of _ "0::nat"] exI [of _ n'] exI [of _ computed']) simp
  qed
qed

section \<open>Chunked local attention\<close>

lemma chunk_loop_spec:
  assumes "pool_rep p xs" "gids_ok gids" "\<And>k. k < m \<Longrightarrow> bhl_get v k = Inr (hs ! k)"
  shows "hit_rows p gids hs a n computed \<Longrightarrow> a \<le> n \<Longrightarrow>
    \<exists>n' computed'. chunk_loop p v gids [n..<m] computed = Inr computed' \<and> hit_rows p gids hs a n' computed' \<and> n \<le> n' \<and> n' \<le> max n m"
proof (induction "m - n" arbitrary: n computed)
  case 0
  then show ?case by (intro exI [of _ n] exI [of _ computed]) simp
next
  case (Suc d)
  then have upt: "[n..<m] = n # [Suc n..<m]" and nm: "n < m" by (simp_all add: upt_conv_Cons)
  have h: "bhl_get v n = Inr (hs ! n)" using assms(3) nm .
  show ?case
  proof (rule lookup_hit_cases [OF assms(1,2), of "hs ! n"])
    fix bs
    assume hit: "lookup_hit p (hs ! n) gids = Inr (Some bs)" "length bs = length gids"
      "\<And>j. j < length gids \<Longrightarrow> holds p (bs ! j) (hs ! n) (gids ! j)"
    from Suc.hyps(2) have d: "d = m - Suc n" by simp
    from Suc.hyps(1) [OF d hit_rows_append [OF Suc.prems hit(2,3)]] Suc.prems(2) obtain n' computed' where
      "chunk_loop p v gids [Suc n..<m] (append_hit computed bs) = Inr computed'" "hit_rows p gids hs a n' computed'"
      "Suc n \<le> n'" "n' \<le> max (Suc n) m" by auto
    with h hit(1) nm show ?thesis unfolding upt by (intro exI [of _ n'] exI [of _ computed']) simp
  next
    assume "lookup_hit p (hs ! n) gids = Inr None"
    with h Suc.prems(1) show ?thesis unfolding upt by (intro exI [of _ n] exI [of _ computed]) simp
  qed
qed

lemma chunk_hit_spec:
  fixes chunk max_length :: int
  assumes rep: "pool_rep p xs" and gids: "gids_ok gids" and v: "view_ok v" and bs: "0 < bs" and chunk: "0 < chunk" "int bs dvd chunk"
    and len: "0 \<le> max_length" "nat (max_length div int bs) \<le> bhl_length v"
  shows "\<exists>a n computed. chunk_find_longest_cache_hit v max_length gids p (ChunkedLocalAttentionSpec bs chunk) False bs 1 1 = Inr computed \<and>
    hit_rows p gids (bhl_values v) a n computed \<and> a \<le> n \<and> int (n * bs) \<le> max_length \<and>
    int (a * bs) = max_length div chunk * chunk"
proof -
  let ?m = "nat (max_length div int bs)" and ?start = "max_length div chunk * chunk"
  define a where "a = nat (?start div int bs)"
  have s0: "0 \<le> ?start" "?start \<le> max_length"
    using len(1) chunk(1) floor_mult [OF chunk(1), of max_length] by (simp_all add: pos_imp_zdiv_nonneg_iff)
  have abs: "int (a * bs) = ?start"
    using s0(1) bs chunk(2) by (simp add: a_def pos_imp_zdiv_nonneg_iff dvd_mult_div_cancel)
  have start: "nat ((if 0 < max_length then ?start else 0) div int bs) = a" using len(1) by (auto simp: a_def)
  from chunk_loop_spec [OF rep gids, of ?m v "bhl_values v", OF _ hit_rows_Nil [of p gids "bhl_values v" a] order_refl]
    view_get [OF v] len(2)
  obtain n computed where n: "chunk_loop p v gids [a..<?m] (replicate (length gids) (replicate a (null_block p))) = Inr computed"
    "hit_rows p gids (bhl_values v) a n computed" "a \<le> n" "n \<le> max a ?m" by force
  have "int (?m * bs) \<le> max_length" using floor_mult [of "int bs" max_length] len(1) bs by (simp add: pos_imp_zdiv_nonneg_iff)
  moreover have "int (n * bs) \<le> int (a * bs) \<or> int (n * bs) \<le> int (?m * bs)"
    unfolding of_nat_le_iff using n(4) by (cases "n \<le> a") (auto simp: le_max_iff_disj)
  ultimately have "int (n * bs) \<le> max_length" using abs s0(2) by linarith
  moreover have "chunk_find_longest_cache_hit v max_length gids p (ChunkedLocalAttentionSpec bs chunk) False bs 1 1 = Inr computed"
    using n(1) start by (simp add: chunk_find_longest_cache_hit_def Let_def)
  ultimately show ?thesis using n(2,3) abs by blast
qed

section \<open>What a hit covers\<close>

text \<open>The specs and the arguments under which the lookup is supported.\<close>

fun hit_call_ok :: "kv_cache_spec \<Rightarrow> bool \<Rightarrow> nat \<Rightarrow> nat \<Rightarrow> nat \<Rightarrow> bool" where
  "hit_call_ok (FullAttentionSpec bs) use_eagle al dcp pcp = (0 < bs \<and> 0 < dcp \<and> 0 < pcp)"
| "hit_call_ok (MLAAttentionSpec bs) use_eagle al dcp pcp = (0 < bs \<and> 0 < dcp \<and> 0 < pcp)"
| "hit_call_ok (SlidingWindowSpec bs w) use_eagle al dcp pcp = (0 < bs \<and> 1 \<le> w \<and> (use_eagle \<longrightarrow> bs = al) \<and> dcp = 1 \<and> pcp = 1)"
| "hit_call_ok (ChunkedLocalAttentionSpec bs chunk) use_eagle al dcp pcp =
     (0 < bs \<and> 0 < chunk \<and> int bs dvd chunk \<and> \<not> use_eagle \<and> bs = al \<and> dcp = 1 \<and> pcp = 1)"
| "hit_call_ok (CrossAttentionSpec bs) use_eagle al dcp pcp = False"

text \<open>
  Row by row: \<open>n\<close> blocks, each null or cached under the hash at its index, and cached whenever
  one of its tokens is still attended to once \<open>n\<close> blocks are computed.
\<close>

definition hit_covers :: "kv_cache_spec \<Rightarrow> block_pool \<Rightarrow> int list \<Rightarrow> bytes list \<Rightarrow> nat \<Rightarrow> nat \<Rightarrow> hit_table \<Rightarrow> bool" where
  "hit_covers spec p gids hs bs n computed \<longleftrightarrow> length computed = length gids \<and>
     (\<forall>j < length gids. length (computed ! j) = n \<and>
        (\<forall>k < n. (computed ! j ! k = null_block p \<or> holds p (computed ! j ! k) (hs ! k) (gids ! j)) \<and>
           (get_num_skipped_tokens spec (int (n * bs)) < int ((k + 1) * bs) \<longrightarrow> holds p (computed ! j ! k) (hs ! k) (gids ! j))))"

lemma hit_rows_covers:
  assumes "hit_rows p gids hs a n computed"
    "\<And>k. k < n \<Longrightarrow> k < a \<Longrightarrow> int ((k + 1) * bs) \<le> get_num_skipped_tokens spec (int (n * bs))"
  shows "hit_covers spec p gids hs bs n computed"
  using assms unfolding hit_rows_def hit_covers_def by (auto simp: not_less [symmetric]) (metis not_less)+

lemma floor_le_nat: "0 \<le> l \<Longrightarrow> 0 < bs \<Longrightarrow> n \<le> nat (l div int bs) \<Longrightarrow> int (n * bs) \<le> l"
proof -
  assume a: "0 \<le> l" "0 < bs" "n \<le> nat (l div int bs)"
  then have "0 \<le> l div int bs" by (simp add: pos_imp_zdiv_nonneg_iff)
  with a(3) have "int n \<le> l div int bs" by linarith
  then have "int n * int bs \<le> l div int bs * int bs" by (intro mult_right_mono) simp_all
  also have "\<dots> \<le> l" using floor_mult [of "int bs" l] a(2) by simp
  finally show ?thesis by simp
qed

lemma find_hit_covers:
  assumes rep: "pool_rep p xs" and gids: "gids_ok gids" and v: "view_ok v" and ok: "hit_call_ok spec use_eagle al dcp pcp"
    and bs: "bs = world_block_size spec dcp pcp" and len: "0 \<le> max_length" "nat (max_length div int bs) \<le> bhl_length v"
  shows "\<exists>n computed. find_longest_cache_hit spec v max_length gids p use_eagle al dcp pcp = Inr computed \<and>
    int (n * bs) \<le> max_length \<and> aligned bs al n \<and> hit_covers spec p gids (bhl_values v) bs n computed"
proof -
  let ?hs = "bhl_values v" and ?m = "nat (max_length div int bs)"
  have full: ?thesis if full: "spec \<in> range FullAttentionSpec \<union> range MLAAttentionSpec"
  proof -
    have bs0: "0 < bs" using ok full bs by (auto simp: world_block_size_def)
    from full_hit_spec [OF rep gids full bs refl len(1), of v use_eagle al] obtain n computed where
      n: "full_find_longest_cache_hit v max_length gids p spec use_eagle al dcp pcp = Inr computed" "hit_rows p gids ?hs 0 n computed"
        "n \<le> usable_prefix p gids ?hs ?m use_eagle" "aligned bs al n" by blast
    have "n \<le> ?m" using n(3) length_takeWhile_le [of "cached_in_all p gids" "take ?m ?hs"] by (auto simp: usable_prefix_def split: if_splits)
    moreover have "find_longest_cache_hit spec v max_length gids p use_eagle al dcp pcp = Inr computed"
      using n(1) full by (auto simp: find_longest_cache_hit_def)
    ultimately show ?thesis using n(4) hit_rows_covers [OF n(2)] floor_le_nat [OF len(1) bs0] by blast
  qed
  show ?thesis
  proof (cases spec)
    case (SlidingWindowSpec b w)
    then have w: "0 < bs" "1 \<le> w" "use_eagle \<longrightarrow> bs = al" "dcp = 1" "pcp = 1" "b = bs" using ok bs by (auto simp: world_block_size_def)
    from window_hit_spec [OF rep gids v refl len(2) w(3), of w] obtain a n computed where
      n: "window_find_longest_cache_hit v max_length gids p (SlidingWindowSpec bs w) use_eagle al 1 1 = Inr computed"
        "hit_rows p gids ?hs a n computed" "n \<le> ?m" "aligned bs al n" "a = 0 \<or> cdiv (w - 1) (int bs) \<le> int n - int a" by blast
    have "int ((k + 1) * bs) \<le> get_num_skipped_tokens spec (int (n * bs))" if "k < a" for k
    proof -
      have "cdiv (w - 1) (int bs) * int bs \<le> (int n - int a) * int bs" using that n(5) by (intro mult_right_mono) auto
      with cdiv_ge [of "int bs" "w - 1"] w(1) have "int (a * bs) \<le> int (n * bs) - w + 1" by (simp add: left_diff_distrib)
      moreover have "(k + 1) * bs \<le> a * bs" using that by (intro mult_right_mono) simp_all
      then have "int ((k + 1) * bs) \<le> int (a * bs)" by (simp only: of_nat_le_iff)
      ultimately show ?thesis by (simp add: SlidingWindowSpec)
    qed
    from hit_rows_covers [OF n(2) this] have "hit_covers spec p gids ?hs bs n computed" .
    then show ?thesis using n(1,4) floor_le_nat [OF len(1) w(1) n(3)] w SlidingWindowSpec by (auto simp: find_longest_cache_hit_def)
  next
    case (ChunkedLocalAttentionSpec b chunk)
    then have c: "0 < bs" "0 < chunk" "int bs dvd chunk" "\<not> use_eagle" "bs = al" "dcp = 1" "pcp = 1" "b = bs"
      using ok bs by (auto simp: world_block_size_def)
    from chunk_hit_spec [OF rep gids v c(1-3) len] obtain a n computed where
      n: "chunk_find_longest_cache_hit v max_length gids p (ChunkedLocalAttentionSpec bs chunk) False bs 1 1 = Inr computed"
        "hit_rows p gids ?hs a n computed" "a \<le> n" "int (n * bs) \<le> max_length" "int (a * bs) = max_length div chunk * chunk" by blast
    have "int ((k + 1) * bs) \<le> get_num_skipped_tokens spec (int (n * bs))" if "k < a" for k
    proof -
      have "a * bs \<le> n * bs" "(k + 1) * bs \<le> a * bs" using n(3) that by (intro mult_right_mono; simp)+
      then have le: "int (a * bs) \<le> int (n * bs)" "int ((k + 1) * bs) \<le> int (a * bs)" by (simp_all only: of_nat_le_iff)
      have "int (a * bs) div chunk * chunk \<le> int (n * bs) div chunk * chunk"
        using zdiv_mono1 [OF le(1) c(2)] c(2) by (intro mult_right_mono) simp_all
      moreover have "int (a * bs) div chunk * chunk = int (a * bs)" using n(5) c(2) by simp
      ultimately show ?thesis using le by (simp add: ChunkedLocalAttentionSpec)
    qed
    from hit_rows_covers [OF n(2) this] have "hit_covers spec p gids ?hs bs n computed" .
    then show ?thesis using n(1,4) c ChunkedLocalAttentionSpec by (auto simp: find_longest_cache_hit_def aligned_def)
  qed (use ok full in auto)
qed

text \<open>What a lookup returns can be adopted by a request, if no two of its blocks have the same hash.\<close>

lemma make_key_parts: "make_block_hash_with_group_id h g = Inr key \<Longrightarrow> get_block_hash key = h \<and> get_group_id key = g"
  by (auto simp: make_block_hash_with_group_id_def rbind_eq_Inr get_block_hash_def get_group_id_def dest!: to_bytes4_be_roundtrip)

lemma carries_inj: "carries p b h g \<Longrightarrow> carries p b h' g' \<Longrightarrow> h = h' \<and> g = g'"
  unfolding carries_def by (metis make_key_parts option.inject)

lemma distinct_filter_nthI:
  "(\<And>i j. i < j \<Longrightarrow> j < length xs \<Longrightarrow> P (xs ! i) \<Longrightarrow> P (xs ! j) \<Longrightarrow> xs ! i \<noteq> xs ! j) \<Longrightarrow> distinct (filter P xs)"
proof (induction xs)
  case (Cons x xs)
  have "distinct (filter P xs)"
  proof (rule Cons.IH)
    fix i j
    assume "i < j" "j < length xs" "P (xs ! i)" "P (xs ! j)"
    then show "xs ! i \<noteq> xs ! j" using Cons.prems [of "Suc i" "Suc j"] by simp
  qed
  moreover have "x \<notin> set xs" if "P x"
    using Cons.prems [of 0 "Suc j" for j] that by (auto simp: in_set_conv_nth)
  ultimately show ?case by auto
qed simp

lemma covers_hits_ok:
  assumes cov: "hit_covers spec p gids hs bs n computed" and j: "j < length gids"
    and dist: "distinct (take n hs)" "n \<le> length hs" and null: "null_block p \<in> set (blocks p)"
  shows "hits_ok p (computed ! j)"
proof -
  let ?row = "computed ! j"
  have len: "length ?row = n" and row: "\<And>k. k < n \<Longrightarrow> ?row ! k = null_block p \<or> holds p (?row ! k) (hs ! k) (gids ! j)"
    using cov j by (auto simp: hit_covers_def)
  have hit: "b = null_block p \<or> (\<exists>k < n. ?row ! k = b \<and> holds p b (hs ! k) (gids ! j))" if "b \<in> set ?row" for b
    using that row len by (metis in_set_conv_nth)
  have "distinct (filter (\<lambda>b. b \<noteq> null_block p) ?row)"
  proof (rule distinct_filter_nthI)
    fix k l
    assume kl: "k < l" "l < length ?row" "?row ! k \<noteq> null_block p" "?row ! l \<noteq> null_block p"
    show "?row ! k \<noteq> ?row ! l"
    proof
      assume "?row ! k = ?row ! l"
      with row [of k] row [of l] kl len have "hs ! k = hs ! l" using carries_inj by (auto simp: holds_def)
      moreover have "hs ! k = take n hs ! k" "hs ! l = take n hs ! l" "l < length (take n hs)" "k < length (take n hs)"
        using kl len dist(2) by simp_all
      ultimately show False using dist(1) kl(1) nth_eq_iff_index_eq by (metis less_irrefl)
    qed
  qed
  moreover have "set ?row \<subseteq> set (blocks p)" using hit null by (auto simp: holds_def)
  moreover have "\<forall>b \<in> set ?row. b \<noteq> null_block p \<longrightarrow> hashes p b \<noteq> None" using hit by (fastforce simp: holds_def carries_def)
  ultimately show ?thesis by (simp add: hits_ok_def)
qed

text \<open>A pool in which the two blocks of a request are cached.\<close>

lemma cached_pair:
  "\<exists>r p0 p r'. text_request [7, 8] = Inr r \<and> BlockPool 3 True 1 False False = Inr p0 \<and>
     cache_full_blocks id r [Blk 1, Blk 2] 0 2 1 0 p0 = Inr (p, r') \<and> pool_rep p [Blk 1, Blk 2] \<and>
     length (block_hashes r) = 2 \<and> holds p (Blk 1) (block_hashes r ! 0) 0 \<and> holds p (Blk 2) (block_hashes r ! 1) 0"
proof -
  from text_request_exists [of "[7, 8]"] obtain r where r: "text_request [7, 8] = Inr r"
    "hashed_request id tagging_hash [0] 1 r" "all_token_ids r = [7, 8]" "mm_settled 1 r" by auto
  have len: "length (block_hashes r) = 2"
    using hashed_request_ok [OF r(2) _ r(4)] by (simp add: hashes_ok_def num_tokens_def r(3))
  from BlockPool_spec [of 3 True 1 False False] obtain p where p: "BlockPool 3 True 1 False False = Inr p"
    "pool_rep p (map Blk [1..<nat 3])" "\<forall>b \<in> set (blocks p). refs p b = 0 \<and> hashes p b = None" "hash_block_size p = 1"
    "num_gpu_blocks p = 3" by auto
  have rep: "pool_rep p [Blk 1, Blk 2]" using p(2) by (simp add: upt_rec numeral_2_eq_2)
  have tab: "blocks p = [Blk 0, Blk 1, Blk 2]" "null_block p = Blk 0"
    using pool_repD(1) [OF p(2)] p(5) by (auto simp: pool_table_def upt_rec numeral_2_eq_2)
  have v: "block_hashes_for (hash_block_size p) 1 (block_hashes r) = Inr (PlainHashes (block_hashes r))"
    by (simp add: block_hashes_for_def p(4))
  from cache_full_blocks_spec [OF rep _ _ _ _ _ v, of 0 2 "[Blk 1, Blk 2]" 0 id] p(3) tab len
  obtain p' r' where p': "cache_full_blocks id r [Blk 1, Blk 2] 0 2 1 0 p = Inr (p', r')" "pool_rep p' [Blk 1, Blk 2]"
    "same_pool p p'" "\<forall>j < 2. [Blk 1, Blk 2] ! j \<noteq> null_block p \<longrightarrow> carries p' ([Blk 1, Blk 2] ! j) (block_hashes r ! j) 0"
    by (simp add: py_slice_def) blast
  have "carries p' (Blk 1) (block_hashes r ! 0) 0" "carries p' (Blk 2) (block_hashes r ! 1) 0"
    using p'(4) [rule_format, of 0] p'(4) [rule_format, of 1] tab by auto
  with p' tab r(1) len p(1) show ?thesis by (auto simp: holds_def same_pool_def)
qed


section \<open>Properties\<close>

text \<open>
  C7. A cache hit holds everything attention will still read. For each kind of attention that
  supports prefix caching, the lookup returns without raising; the hit is not longer than
  asked for, its length is a multiple of the alignment, and every block with a token that the
  next token attends to (by \<^verbatim>\<open>get_num_skipped_tokens\<close> of the same manager) is a block of
  the pool cached under the request's own hash for that position and group. Only blocks out
  of the window are null. For chunked attention the chunk is a multiple of the block size.
\<close>

theorem cache_hit_covers_attention:
  assumes "pool_rep p xs" "gids_ok gids" "view_ok v" "hit_call_ok spec use_eagle al dcp pcp"
    and "bs = world_block_size spec dcp pcp" "0 \<le> max_length" "nat (max_length div int bs) \<le> bhl_length v"
  shows "\<exists>n computed. find_longest_cache_hit spec v max_length gids p use_eagle al dcp pcp = Inr computed \<and>
    int (n * bs) \<le> max_length \<and> aligned bs al n \<and> hit_covers spec p gids (bhl_values v) bs n computed"
  using assms by (rule find_hit_covers)

theorem cache_hit_covers_attention_witness:
  "\<exists>r p0 p r' n computed. text_request [7, 8] = Inr r \<and> BlockPool 3 True 1 False False = Inr p0 \<and>
     cache_full_blocks id r [Blk 1, Blk 2] 0 2 1 0 p0 = Inr (p, r') \<and>
     find_longest_cache_hit (SlidingWindowSpec 1 2) (PlainHashes (block_hashes r)) 2 [0] p False 1 1 1 = Inr computed \<and>
     hit_covers (SlidingWindowSpec 1 2) p [0] (block_hashes r) 1 n computed"
proof -
  from cached_pair obtain r p0 p r' where r: "text_request [7, 8] = Inr r" "BlockPool 3 True 1 False False = Inr p0"
    "cache_full_blocks id r [Blk 1, Blk 2] 0 2 1 0 p0 = Inr (p, r')" "pool_rep p [Blk 1, Blk 2]" "length (block_hashes r) = 2" by blast
  have "\<exists>n computed. find_longest_cache_hit (SlidingWindowSpec 1 2) (PlainHashes (block_hashes r)) 2 [0] p False 1 1 1 = Inr computed \<and>
    int (n * 1) \<le> 2 \<and> aligned 1 1 n \<and>
    hit_covers (SlidingWindowSpec 1 2) p [0] (bhl_values (PlainHashes (block_hashes r))) 1 n computed"
    by (rule cache_hit_covers_attention [OF r(4)])
       (use r(5) in \<open>simp_all add: gids_ok_def view_ok_def world_block_size_def\<close>)
  with r(1-3) show ?thesis by auto
qed

text \<open>
  C17. For full attention (and MLA) the hit is the longest possible: every block of the result is
  cached under the request's hash in its group, and no longer aligned prefix within the
  limit is cached in all groups (less the last block with EAGLE, which is recomputed).
\<close>

theorem full_attention_hit_longest:
  assumes "pool_rep p xs" "gids_ok gids" "spec \<in> range FullAttentionSpec \<union> range MLAAttentionSpec"
    and "bs = world_block_size spec dcp pcp" "m = nat (max_length div int bs)" "0 \<le> max_length"
  shows "\<exists>n computed. find_longest_cache_hit spec v max_length gids p use_eagle al dcp pcp = Inr computed \<and>
    hit_rows p gids (bhl_values v) 0 n computed \<and> n \<le> usable_prefix p gids (bhl_values v) m use_eagle \<and> aligned bs al n \<and>
    (\<forall>k. n < k \<longrightarrow> k \<le> usable_prefix p gids (bhl_values v) m use_eagle \<longrightarrow> \<not> aligned bs al k)"
proof -
  have "find_longest_cache_hit spec v max_length gids p use_eagle al dcp pcp =
    full_find_longest_cache_hit v max_length gids p spec use_eagle al dcp pcp"
    using assms(3) by (auto simp: find_longest_cache_hit_def)
  then show ?thesis using full_hit_spec [OF assms] by simp
qed

theorem full_attention_hit_longest_witness:
  "\<exists>r p0 p r' computed. text_request [7, 8] = Inr r \<and> BlockPool 3 True 1 False False = Inr p0 \<and>
     cache_full_blocks id r [Blk 1, Blk 2] 0 2 1 0 p0 = Inr (p, r') \<and>
     find_longest_cache_hit (FullAttentionSpec 1) (PlainHashes (block_hashes r)) 2 [0] p False 1 1 1 = Inr computed \<and>
     length (computed ! 0) = 2"
proof -
  from cached_pair obtain r p0 p r' where r: "text_request [7, 8] = Inr r" "BlockPool 3 True 1 False False = Inr p0"
    "cache_full_blocks id r [Blk 1, Blk 2] 0 2 1 0 p0 = Inr (p, r')" "pool_rep p [Blk 1, Blk 2]" "length (block_hashes r) = 2"
    "holds p (Blk 1) (block_hashes r ! 0) 0" "holds p (Blk 2) (block_hashes r ! 1) 0" by blast
  have hs: "block_hashes r = [block_hashes r ! 0, block_hashes r ! 1]"
    using r(5) by (intro nth_equalityI) (auto simp: less_Suc_eq numeral_2_eq_2)
  have "list_all (cached_in_all p [0]) [block_hashes r ! 0, block_hashes r ! 1]"
    using r(6,7) by (auto simp: cached_in_all_def)
  then have "list_all (cached_in_all p [0]) (block_hashes r)" unfolding hs [symmetric] .
  then have all: "takeWhile (cached_in_all p [0]) (block_hashes r) = block_hashes r"
    by (simp add: list_all_iff takeWhile_eq_all_conv)
  have "\<exists>n computed. find_longest_cache_hit (FullAttentionSpec 1) (PlainHashes (block_hashes r)) 2 [0] p False 1 1 1 = Inr computed \<and>
    hit_rows p [0] (bhl_values (PlainHashes (block_hashes r))) 0 n computed \<and>
    n \<le> usable_prefix p [0] (bhl_values (PlainHashes (block_hashes r))) 2 False \<and> aligned 1 1 n \<and>
    (\<forall>k. n < k \<longrightarrow> k \<le> usable_prefix p [0] (bhl_values (PlainHashes (block_hashes r))) 2 False \<longrightarrow> \<not> aligned 1 1 k)"
    by (rule full_attention_hit_longest [OF r(4)]) (simp_all add: gids_ok_def world_block_size_def)
  then obtain n computed where
    n: "find_longest_cache_hit (FullAttentionSpec 1) (PlainHashes (block_hashes r)) 2 [0] p False 1 1 1 = Inr computed"
      "hit_rows p [0] (block_hashes r) 0 n computed" "n \<le> 2" "\<forall>k. n < k \<longrightarrow> k \<le> 2 \<longrightarrow> \<not> aligned 1 1 k"
    using r(5) all by (auto simp: usable_prefix_def)
  from n(3,4) have "n = 2" by (auto simp: aligned_def)
  with n r(1-3) show ?thesis by (auto simp: hit_rows_def)
qed

end
