(* ===== verification/Coordinator.thy ===== *)
theory Coordinator
  imports Cache_Hit
begin

text \<open>
  \<^verbatim>\<open>vllm/v1/core/kv_cache_coordinator.py\<close>: the coordinator owns the block pool and one cache
  manager per group of layers, and calls them in the order of the groups. Its three classes
  (no prefix cache, one group, several kinds of attention) differ in the cache lookup.

  A group is its spec together with a number that stands for the fields of the spec
  the managers do not read (heads, head size, dtype, padding); specs are compared with both.
  The argument \<^verbatim>\<open>num_tokens_main_model\<close> is read by the Mamba manager only and left out.
\<close>

section \<open>Model\<close>

type_synonym kv_cache_group = "kv_cache_spec \<times> nat"

record kv_cache_config =
  num_blocks :: int
  kv_cache_groups :: "kv_cache_group list"

datatype coordinator_class = NoPrefixCacheCoordinator | UnitaryCoordinator | HybridCoordinator

record coordinator =
  coord_class :: coordinator_class
  coord_pool :: block_pool
  single_type_managers :: "cache_manager list"
  coord_use_eagle :: bool
  unitary_spec :: kv_cache_spec
  unitary_block_size :: nat
  coord_dcp :: nat
  coord_pcp :: nat
  attention_groups :: "(kv_cache_group \<times> nat list) list"
  lcm_block_size :: nat

subsection \<open>Construction\<close>

text \<open>\<^verbatim>\<open>isinstance(spec, FullAttentionSpec)\<close>; the spec of MLA is a subclass.\<close>

fun isinstance_full :: "kv_cache_spec \<Rightarrow> bool" where
  "isinstance_full (FullAttentionSpec _) = True"
| "isinstance_full (MLAAttentionSpec _) = True"
| "isinstance_full _ = False"

fun add_attention_group ::
  "kv_cache_group \<Rightarrow> nat \<Rightarrow> (kv_cache_group \<times> nat list) list \<Rightarrow> (kv_cache_group \<times> nat list) list" where
  "add_attention_group g i [] = [(g, [i])]"
| "add_attention_group g i ((g', is) # gs) =
     (if g' = g then (g', is @ [i]) # gs else (g', is) # add_attention_group g i gs)"

definition verify_and_split_kv_cache_groups :: "kv_cache_group list \<Rightarrow> ((kv_cache_group \<times> nat list) list \<times> nat) res" where
  "verify_and_split_kv_cache_groups groups =
     (let ags = fold (\<lambda>(i, g). add_attention_group g i) (enumerate 0 groups) [] in
      if length ags \<le> 1 then Inl AssertionError
      else Inr (filter (\<lambda>(g, _). isinstance_full (fst g)) ags @ filter (\<lambda>(g, _). \<not> isinstance_full (fst g)) ags,
                fold lcm (map (\<lambda>(g, _). spec_block_size (fst g)) ags) 1))"

definition KVCacheCoordinator ::
  "coordinator_class \<Rightarrow> kv_cache_config \<Rightarrow> bool \<Rightarrow> bool \<Rightarrow> bool \<Rightarrow> nat \<Rightarrow> nat \<Rightarrow> nat \<Rightarrow> bool \<Rightarrow> coordinator res" where
  "KVCacheCoordinator cls config use_eagle caching events dcp pcp hbs use_int =
     rbind (BlockPool (num_blocks config) caching hbs events use_int) (\<lambda>p.
       Inr \<lparr>coord_class = cls, coord_pool = p,
            single_type_managers = map (\<lambda>(i, (spec, _)). SingleTypeKVCacheManager spec p caching (int i) dcp pcp)
              (enumerate 0 (kv_cache_groups config)),
            coord_use_eagle = use_eagle, unitary_spec = FullAttentionSpec 0, unitary_block_size = 0,
            coord_dcp = dcp, coord_pcp = pcp, attention_groups = [], lcm_block_size = 0\<rparr>)"

definition UnitaryKVCacheCoordinator ::
  "kv_cache_config \<Rightarrow> bool \<Rightarrow> bool \<Rightarrow> bool \<Rightarrow> nat \<Rightarrow> nat \<Rightarrow> nat \<Rightarrow> bool \<Rightarrow> coordinator res" where
  "UnitaryKVCacheCoordinator config use_eagle caching events dcp pcp hbs use_int =
     rbind (KVCacheCoordinator UnitaryCoordinator config use_eagle caching events dcp pcp hbs use_int) (\<lambda>c.
       case kv_cache_groups config of
         [] \<Rightarrow> Inl IndexError
       | (spec, _) # rest \<Rightarrow>
           let bs = spec_block_size spec * (if 1 < dcp then dcp else 1) * (if 1 < pcp then pcp else 1) in
           if caching \<and> hbs \<noteq> bs then Inl AssertionError
           else if rest \<noteq> [] then Inl AssertionError
           else Inr (c\<lparr>unitary_spec := spec, unitary_block_size := bs\<rparr>))"

definition HybridKVCacheCoordinator ::
  "kv_cache_config \<Rightarrow> bool \<Rightarrow> bool \<Rightarrow> bool \<Rightarrow> nat \<Rightarrow> nat \<Rightarrow> nat \<Rightarrow> bool \<Rightarrow> coordinator res" where
  "HybridKVCacheCoordinator config use_eagle caching events dcp pcp hbs use_int =
     rbind (KVCacheCoordinator HybridCoordinator config use_eagle caching events dcp pcp hbs use_int) (\<lambda>c.
       if \<not> (\<forall>(spec, _) \<in> set (kv_cache_groups config). spec_block_size spec mod hbs = 0) then Inl AssertionError
       else if dcp \<noteq> 1 \<or> pcp \<noteq> 1 then Inl AssertionError
       else rbind (verify_and_split_kv_cache_groups (kv_cache_groups config)) (\<lambda>(ags, l).
         Inr (c\<lparr>attention_groups := ags, lcm_block_size := l\<rparr>)))"

definition get_kv_cache_coordinator ::
  "kv_cache_config \<Rightarrow> bool \<Rightarrow> bool \<Rightarrow> bool \<Rightarrow> nat \<Rightarrow> nat \<Rightarrow> nat \<Rightarrow> bool \<Rightarrow> coordinator res" where
  "get_kv_cache_coordinator config use_eagle caching events dcp pcp hbs use_int =
     (if \<not> caching then KVCacheCoordinator NoPrefixCacheCoordinator config use_eagle False events dcp pcp hbs use_int
      else if length (kv_cache_groups config) = 1
      then UnitaryKVCacheCoordinator config use_eagle caching events dcp pcp hbs use_int
      else HybridKVCacheCoordinator config use_eagle caching events dcp pcp hbs use_int)"

subsection \<open>Calls to the managers\<close>

text \<open>
  The \<^verbatim>\<open>for\<close> loops over the managers: the call for manager \<open>i\<close> may raise, and threads a state
  (the block pool, with what the loop accumulates).
\<close>

definition call_manager ::
  "(nat \<Rightarrow> cache_manager \<Rightarrow> 's \<Rightarrow> (cache_manager \<times> 's) res) \<Rightarrow> nat \<Rightarrow> cache_manager list \<times> 's \<Rightarrow> (cache_manager list \<times> 's) res" where
  "call_manager f i = (\<lambda>(ms, s). rbind (f i (ms ! i) s) (\<lambda>(m, s'). Inr (ms[i := m], s')))"

definition each_manager ::
  "(nat \<Rightarrow> cache_manager \<Rightarrow> 's \<Rightarrow> (cache_manager \<times> 's) res) \<Rightarrow> cache_manager list \<Rightarrow> 's \<Rightarrow> (cache_manager list \<times> 's) res" where
  "each_manager f ms s = fold_res (call_manager f) [0..<length ms] (ms, s)"

text \<open>The coordinator after such a loop.\<close>

definition with_state :: "cache_manager list \<Rightarrow> block_pool \<Rightarrow> coordinator \<Rightarrow> coordinator" where
  "with_state ms p c = c\<lparr>single_type_managers := ms, coord_pool := p\<rparr>"

text \<open>\<^verbatim>\<open>new_computed_blocks[i]\<close>.\<close>

definition group_blocks :: "hit_table \<Rightarrow> nat \<Rightarrow> block_ref list res" where
  "group_blocks rows i = (if i < length rows then Inr (rows ! i) else Inl IndexError)"

definition blocks_needed_step ::
  "string \<Rightarrow> int \<Rightarrow> hit_table \<Rightarrow> int \<Rightarrow> int \<Rightarrow> coordinator \<Rightarrow> nat \<Rightarrow> int \<Rightarrow> int res" where
  "blocks_needed_step rid ntok rows num_encoder total_computed c i n =
     (let m = single_type_managers c ! i in
      rbind (if is_cross (kv_cache_spec m) then get_num_blocks_to_allocate rid num_encoder [] 0 m (coord_pool c)
             else rbind (group_blocks rows i) (\<lambda>row.
               get_num_blocks_to_allocate rid ntok row total_computed m (coord_pool c))) (\<lambda>k.
        Inr (n + k)))"

definition coord_get_num_blocks_to_allocate ::
  "string \<Rightarrow> int \<Rightarrow> hit_table \<Rightarrow> int \<Rightarrow> int \<Rightarrow> coordinator \<Rightarrow> int res" where
  "coord_get_num_blocks_to_allocate rid ntok rows num_encoder total_computed c =
     fold_res (blocks_needed_step rid ntok rows num_encoder total_computed c) [0..<length (single_type_managers c)] 0"

definition coord_allocate_new_computed_blocks ::
  "string \<Rightarrow> hit_table \<Rightarrow> int \<Rightarrow> int \<Rightarrow> coordinator \<Rightarrow> coordinator res" where
  "coord_allocate_new_computed_blocks rid rows num_local num_external c =
     rbind (each_manager (\<lambda>i m p. rbind (group_blocks rows i) (\<lambda>row.
              allocate_new_computed_blocks rid row num_local num_external m p))
              (single_type_managers c) (coord_pool c)) (\<lambda>(ms, p).
       Inr (with_state ms p c))"

definition coord_allocate_new_blocks ::
  "string \<Rightarrow> int \<Rightarrow> int \<Rightarrow> coordinator \<Rightarrow> (hit_table \<times> coordinator) res" where
  "coord_allocate_new_blocks rid ntok num_encoder c =
     rbind (each_manager (\<lambda>i m (p, rows).
              rbind (allocate_new_blocks rid (if is_cross (kv_cache_spec m) then num_encoder else ntok) m p)
                (\<lambda>(new, m', p'). Inr (m', (p', rows @ [new]))))
              (single_type_managers c) (coord_pool c, [])) (\<lambda>(ms, (p, rows)).
       Inr (rows, with_state ms p c))"

definition coord_cache_blocks :: "(bytes \<Rightarrow> bytes) \<Rightarrow> request \<Rightarrow> int \<Rightarrow> coordinator \<Rightarrow> (coordinator \<times> request) res" where
  "coord_cache_blocks sha256 r ntok c =
     rbind (each_manager (\<lambda>i m (p, r).
              rbind (cache_blocks sha256 r ntok m p) (\<lambda>(m', p', r'). Inr (m', (p', r'))))
              (single_type_managers c) (coord_pool c, r)) (\<lambda>(ms, (p, r')).
       Inr (with_state ms p c, r'))"

definition coord_free :: "string \<Rightarrow> coordinator \<Rightarrow> coordinator res" where
  "coord_free rid c =
     rbind (each_manager (\<lambda>i. free_request rid) (single_type_managers c) (coord_pool c)) (\<lambda>(ms, p).
       Inr (with_state ms p c))"

definition coord_remove_skipped_blocks :: "string \<Rightarrow> int \<Rightarrow> coordinator \<Rightarrow> coordinator res" where
  "coord_remove_skipped_blocks rid total_computed c =
     rbind (each_manager (\<lambda>i. remove_skipped_blocks rid total_computed) (single_type_managers c) (coord_pool c)) (\<lambda>(ms, p).
       Inr (with_state ms p c))"

definition coord_get_num_common_prefix_blocks :: "string \<Rightarrow> coordinator \<Rightarrow> int list \<times> coordinator" where
  "coord_get_num_common_prefix_blocks rid c =
     (if coord_class c = NoPrefixCacheCoordinator then (replicate (length (single_type_managers c)) 0, c)
      else
        let rs = map (\<lambda>m. get_num_common_prefix_blocks rid m (coord_pool c)) (single_type_managers c)
        in (map fst rs, c\<lparr>single_type_managers := map snd rs\<rparr>))"

definition coord_get_blocks :: "string \<Rightarrow> coordinator \<Rightarrow> hit_table" where
  "coord_get_blocks rid c = map (req_blocks rid) (single_type_managers c)"

subsection \<open>Cache lookup\<close>

text \<open>The single group of \<^verbatim>\<open>UnitaryKVCacheCoordinator\<close>.\<close>

definition unitary_find_longest_cache_hit :: "bytes list \<Rightarrow> int \<Rightarrow> coordinator \<Rightarrow> (hit_table \<times> int) res" where
  "unitary_find_longest_cache_hit hs max_length c =
     rbind (find_longest_cache_hit (unitary_spec c) (PlainHashes hs) max_length [0] (coord_pool c) (coord_use_eagle c)
              (unitary_block_size c) (coord_dcp c) (coord_pcp c)) (\<lambda>hit.
       Inr (hit, int (length (hd hit)) * int (unitary_block_size c)))"

text \<open>
  One group of \<^verbatim>\<open>HybridKVCacheCoordinator\<close>: full attention is looked up once and only rounded
  down afterwards; the others are looked up again with the current length.
\<close>

definition store_hits :: "nat list \<Rightarrow> hit_table \<Rightarrow> block_ref list option list \<Rightarrow> block_ref list option list" where
  "store_hits gids hit bg = fold (\<lambda>(g, row) bg. bg[g := Some row]) (zip gids hit) bg"

definition hybrid_group_step ::
  "bytes list \<Rightarrow> coordinator \<Rightarrow> kv_cache_group \<times> nat list \<Rightarrow> int \<times> block_ref list option list \<Rightarrow>
   (int \<times> block_ref list option list) res" where
  "hybrid_group_step hs c = (\<lambda>((spec, _), gids) (hit_length, bg).
     let bs = spec_block_size spec in
     if isinstance_full spec \<and> bg ! hd gids \<noteq> None then Inr (hit_length div int bs * int bs, bg)
     else
       rbind (block_hashes_for (hash_block_size (coord_pool c)) bs hs) (\<lambda>v.
       rbind (find_longest_cache_hit spec v hit_length (map int gids) (coord_pool c) (coord_use_eagle c)
                (lcm_block_size c) 1 1) (\<lambda>hit.
         Inr (int (length (hd hit)) * int bs, store_hits gids hit bg))))"

definition is_simple_hybrid :: "coordinator \<Rightarrow> bool" where
  "is_simple_hybrid c = (case attention_groups c of [((spec, _), _), _] \<Rightarrow> isinstance_full spec | _ \<Rightarrow> False)"

text \<open>The \<^verbatim>\<open>while True\<close> loop; not returning is \<^const>\<open>None\<close>.\<close>

partial_function (option) hybrid_loop ::
  "bytes list \<Rightarrow> coordinator \<Rightarrow> int \<Rightarrow> block_ref list option list \<Rightarrow> (int \<times> block_ref list option list) res option" where
  "hybrid_loop hs c hit_length bg =
     (case fold_res (hybrid_group_step hs c) (attention_groups c) (hit_length, bg) of
        Inl err \<Rightarrow> Some (Inl err)
      | Inr (new_length, bg') \<Rightarrow>
          if hit_length \<le> new_length then Some (Inr (hit_length, bg'))
          else if is_simple_hybrid c then Some (Inr (new_length, bg'))
          else hybrid_loop hs c new_length bg')"

declare hybrid_loop.simps [code]

definition truncate_full :: "coordinator \<Rightarrow> int \<Rightarrow> block_ref list option list \<Rightarrow> block_ref list option list" where
  "truncate_full c hit_length bg =
     (case attention_groups c of
        ((spec, _), gids) # _ \<Rightarrow>
          if isinstance_full spec
          then fold (\<lambda>g bg. bg[g := map_option (take (nat (hit_length div int (spec_block_size spec)))) (bg ! g)]) gids bg
          else bg
      | [] \<Rightarrow> bg)"

definition hybrid_find_longest_cache_hit :: "bytes list \<Rightarrow> int \<Rightarrow> coordinator \<Rightarrow> (hit_table \<times> int) res option" where
  "hybrid_find_longest_cache_hit hs max_length c =
     (case hybrid_loop hs c max_length (replicate (length (single_type_managers c)) None) of
        None \<Rightarrow> None
      | Some (Inl err) \<Rightarrow> Some (Inl err)
      | Some (Inr (hit_length, bg)) \<Rightarrow>
          Some (Inr (map (\<lambda>row. case row of Some bs \<Rightarrow> bs | None \<Rightarrow> []) (truncate_full c hit_length bg), hit_length)))"

text \<open>The dispatch on the class; \<open>hybrid_terminates\<close> below shows that it always returns.\<close>

definition coord_find_longest_cache_hit :: "bytes list \<Rightarrow> int \<Rightarrow> coordinator \<Rightarrow> (hit_table \<times> int) res option" where
  "coord_find_longest_cache_hit hs max_length c =
     (case coord_class c of
        NoPrefixCacheCoordinator \<Rightarrow> Some (Inr (replicate (length (single_type_managers c)) [], 0))
      | UnitaryCoordinator \<Rightarrow> Some (unitary_find_longest_cache_hit hs max_length c)
      | HybridCoordinator \<Rightarrow> hybrid_find_longest_cache_hit hs max_length c)"


section \<open>Ownership across the managers\<close>

text \<open>The references to a block held by the managers other than manager \<open>i\<close>.\<close>

definition others :: "cache_manager list \<Rightarrow> nat \<Rightarrow> block_ref \<Rightarrow> nat" where
  "others ms i b = (\<Sum>j \<in> {..<length ms} - {i}. owned (ms ! j) b)"

definition mgrs_inv :: "cache_manager list \<Rightarrow> block_pool \<Rightarrow> bool" where
  "mgrs_inv ms p \<longleftrightarrow> pool_inv p \<and> (\<forall>i < length ms. mgr_inv (others ms i) (ms ! i) p)"

lemma others_sum: "i < length ms \<Longrightarrow> others ms i b + owned (ms ! i) b = (\<Sum>j < length ms. owned (ms ! j) b)"
  unfolding others_def by (subst (2) sum.remove [of _ i]) simp_all

lemma others_update [simp]: "others (ms[i := m]) i = others ms i"
  unfolding others_def fun_eq_iff by (intro allI sum.cong) auto

lemma others_ge: "j < length ms \<Longrightarrow> j \<noteq> i \<Longrightarrow> owned (ms ! j) b \<le> others ms i b"
  unfolding others_def by (rule member_le_sum) auto

text \<open>A step of one manager within its frame keeps the invariants of all of them.\<close>

lemma mgrs_step:
  assumes inv: "mgrs_inv ms p" and i: "i < length ms"
    and inv': "mgr_inv (others ms i) m' p'" and frame: "mgr_frame (others ms i) (ms ! i) p m' p'"
  shows "mgrs_inv (ms[i := m']) p'"
proof -
  have st: "blocks p' = blocks p" "null_block p' = null_block p" using frame by (auto simp: mgr_frame_def same_pool_def)
  have "mgr_inv (others (ms[i := m']) j) (ms ! j) p'" if j: "j < length ms" "j \<noteq> i" for j
  proof -
    note I = mgr_invD [OF inv [unfolded mgrs_inv_def, THEN conjunct2, rule_format, OF j(1)]]
      and I' = mgr_invD [OF inv']
    have tot: "others (ms[i := m']) j b + owned (ms ! j) b = others ms i b + owned m' b" for b
      using others_sum [of j "ms[i := m']" b] others_sum [of i "ms[i := m']" b] j i by simp
    have tot0: "others ms j b + owned (ms ! j) b = others ms i b + owned (ms ! i) b" for b
      using others_sum [of j ms b] others_sum [of i ms b] j(1) i by simp
    have "tables_ok (ms ! j) p'" using I(2-7) unfolding tables_ok_def st by simp
    moreover have "counts_ok (others (ms[i := m']) j) (ms ! j) p'"
      using I'(8) unfolding counts_ok_def tot st by simp
    moreover have "tails_ok (ms ! j) p'"
      unfolding tails_ok_def st
    proof (intro allI impI)
      fix rid k
      let ?b = "req_blocks rid (ms ! j) ! k"
      assume k: "ncached rid (ms ! j) \<le> k" "k < length (req_blocks rid (ms ! j))" "?b \<noteq> null_block p"
      then have tail: "hashes p ?b = None" "refs p ?b = 1" using I(9) by (auto simp: tails_ok_def)
      have b: "?b \<in> set (blocks p)" using I(6) [of rid] k(2) by auto
      have "0 < count_list (req_blocks rid (ms ! j)) ?b" using k(2) by (metis count_list_0_iff not_gr_zero nth_mem)
      then have "0 < owned (ms ! j) ?b" using owned_ge [OF I(2), of rid ?b] by linarith
      then have ext: "0 < others ms i ?b" using others_ge [OF j, of ?b] by linarith
      moreover have "others ms i ?b + owned (ms ! i) ?b = 1" using I(8) [OF b k(3)] tail(2) tot0 [of ?b] by simp
      ultimately have "owned (ms ! i) ?b = 0" "others ms i ?b = 1" by simp_all
      with frame ext tail(1) k(3) have "hashes p' ?b = None" "owned m' ?b = 0" by (simp_all add: mgr_frame_def)
      then show "hashes p' ?b = None \<and> refs p' ?b = 1" using I'(8) [of ?b] b k(3) \<open>others ms i ?b = 1\<close> by (simp add: st)
    qed
    ultimately show ?thesis using I'(1,10) by (simp add: mgr_inv_def)
  qed
  moreover have "mgr_inv (others (ms[i := m']) i) (ms[i := m'] ! i) p'" using inv' i by simp
  ultimately show ?thesis using mgr_invD(1) [OF inv'] unfolding mgrs_inv_def by (metis length_list_update nth_list_update_neq)
qed

lemma each_manager_rule:
  assumes "I 0 ms s"
    and "\<And>i ms' s'. i < length ms \<Longrightarrow> length ms' = length ms \<Longrightarrow> I i ms' s' \<Longrightarrow>
       \<exists>m s''. f i (ms' ! i) s' = Inr (m, s'') \<and> I (Suc i) (ms'[i := m]) s''"
  shows "\<exists>ms' s'. each_manager f ms s = Inr (ms', s') \<and> length ms' = length ms \<and> I (length ms) ms' s'"
proof -
  have "\<exists>ms' s'. fold_res (call_manager f) [0..<k] (ms, s) = Inr (ms', s') \<and> length ms' = length ms \<and> I k ms' s'"
    if "k \<le> length ms" for k
    using that
  proof (induction k)
    case (Suc k)
    then obtain ms' s' where IH: "fold_res (call_manager f) [0..<k] (ms, s) = Inr (ms', s')" "length ms' = length ms" "I k ms' s'"
      by auto
    from assms(2) [OF _ IH(2,3)] Suc.prems obtain m s'' where "f k (ms' ! k) s' = Inr (m, s'')" "I (Suc k) (ms'[k := m]) s''" by auto
    then have "fold_res (call_manager f) [k] (ms', s') = Inr (ms'[k := m], s'')" by (simp add: call_manager_def)
    with IH \<open>I (Suc k) (ms'[k := m]) s''\<close> show ?case by (simp add: fold_res_append)
  qed (use assms(1) in simp)
  then show ?thesis by (simp add: each_manager_def)
qed

text \<open>
  The same with the ownership invariant built in. \<open>pl\<close> reads the pool off the state of the loop, \<open>J\<close> speaks
  about the state, \<open>R\<close> about each manager once it has been called.
\<close>

lemma each_manager_mgrs:
  assumes inv: "mgrs_inv ms (pl s)" and J: "J 0 ms s"
    and step: "\<And>i ms' s. i < length ms \<Longrightarrow> length ms' = length ms \<Longrightarrow> mgrs_inv ms' (pl s) \<Longrightarrow> ms' ! i = ms ! i \<Longrightarrow>
       mgr_inv (others ms' i) (ms ! i) (pl s) \<Longrightarrow> J i ms' s \<Longrightarrow>
       \<exists>m' s'. f i (ms ! i) s = Inr (m', s') \<and> mgr_inv (others ms' i) m' (pl s') \<and>
         mgr_frame (others ms' i) (ms ! i) (pl s) m' (pl s') \<and> R i m' \<and> J (Suc i) (ms'[i := m']) s'"
  shows "\<exists>ms' s'. each_manager f ms s = Inr (ms', s') \<and> length ms' = length ms \<and> mgrs_inv ms' (pl s') \<and>
    (\<forall>i < length ms. R i (ms' ! i)) \<and> J (length ms) ms' s'"
proof -
  let ?I = "\<lambda>i ms' s'. mgrs_inv ms' (pl s') \<and> (\<forall>j < length ms. if j < i then R j (ms' ! j) else ms' ! j = ms ! j) \<and> J i ms' s'"
  have "\<exists>ms' s'. each_manager f ms s = Inr (ms', s') \<and> length ms' = length ms \<and> ?I (length ms) ms' s'"
  proof (rule each_manager_rule [where I = ?I])
    show "?I 0 ms s" using inv J by simp
    fix i ms' s'
    assume i: "i < length ms" and len: "length ms' = length ms" and I: "?I i ms' s'"
    then have inv': "mgrs_inv ms' (pl s')" and eq: "ms' ! i = ms ! i" and J: "J i ms' s'" by auto
    then have "mgr_inv (others ms' i) (ms ! i) (pl s')" using i len by (metis mgrs_inv_def)
    from step [OF i len inv' eq this J] obtain m s'' where
      m: "f i (ms ! i) s' = Inr (m, s'')" "mgr_inv (others ms' i) m (pl s'')" "mgr_frame (others ms' i) (ms ! i) (pl s') m (pl s'')"
        "R i m" "J (Suc i) (ms'[i := m]) s''" by blast
    have "mgrs_inv (ms'[i := m]) (pl s'')" using mgrs_step [OF inv' _ m(2)] m(3) i len eq by simp
    moreover have "\<forall>j < length ms. if j < Suc i then R j (ms'[i := m] ! j) else ms'[i := m] ! j = ms ! j"
      using I m(4) len by (auto simp: nth_list_update less_Suc_eq)
    ultimately show "\<exists>m s''. f i (ms' ! i) s' = Inr (m, s'') \<and> ?I (Suc i) (ms'[i := m]) s''" using m(1,5) eq by auto
  qed
  then show ?thesis by auto
qed

text \<open>What no operation changes in a manager.\<close>

definition same_static :: "cache_manager \<Rightarrow> cache_manager \<Rightarrow> bool" where
  "same_static m m' \<longleftrightarrow> kv_cache_spec m' = kv_cache_spec m \<and> block_size m' = block_size m \<and>
     mgr_enable_caching m' = mgr_enable_caching m \<and> kv_cache_group_id m' = kv_cache_group_id m"

lemma frame_static: "mgr_frame ext m p m' p' \<Longrightarrow> same_static m m' \<and> same_pool p p'"
  by (simp add: mgr_frame_def same_static_def)

definition coord_inv :: "coordinator \<Rightarrow> bool" where
  "coord_inv c \<longleftrightarrow> mgrs_inv (single_type_managers c) (coord_pool c)"

lemma with_state_sel [simp]:
  "single_type_managers (with_state ms p c) = ms" "coord_pool (with_state ms p c) = p"
  "with_state ms' p' (with_state ms p c) = with_state ms' p' c"
  "coord_inv (with_state ms p c) = mgrs_inv ms p"
  by (simp_all add: with_state_def coord_inv_def)

subsection \<open>Freeing\<close>

lemma coord_free_spec:
  assumes inv: "coord_inv c" and rep: "pool_rep (coord_pool c) xs"
  shows "\<exists>ms p freed. coord_free rid c = Inr (with_state ms p c) \<and> mgrs_inv ms p \<and> pool_rep p (xs @ freed) \<and>
    same_pool (coord_pool c) p \<and> hashes p = hashes (coord_pool c) \<and> length ms = length (single_type_managers c) \<and>
    (\<forall>i < length ms. same_static (single_type_managers c ! i) (ms ! i) \<and> req_blocks rid (ms ! i) = [] \<and> \<not> is_running rid (ms ! i) \<and>
       (\<forall>r. r \<noteq> rid \<longrightarrow> req_blocks r (ms ! i) = req_blocks r (single_type_managers c ! i)))"
proof -
  let ?ms = "single_type_managers c" and ?p = "coord_pool c"
  let ?R = "\<lambda>i m. same_static (?ms ! i) m \<and> req_blocks rid m = [] \<and> \<not> is_running rid m \<and>
      (\<forall>r. r \<noteq> rid \<longrightarrow> req_blocks r m = req_blocks r (?ms ! i))"
  let ?J = "\<lambda>i ms p. \<exists>freed. pool_rep p (xs @ freed) \<and> same_pool ?p p \<and> hashes p = hashes ?p"
  have "\<exists>ms p. each_manager (\<lambda>i. free_request rid) ?ms ?p = Inr (ms, p) \<and> length ms = length ?ms \<and> mgrs_inv ms p \<and>
      (\<forall>i < length ?ms. ?R i (ms ! i)) \<and> ?J (length ?ms) ms p"
  proof (rule each_manager_mgrs [where pl = "\<lambda>p. p" and R = ?R and J = ?J])
    show "mgrs_inv ?ms ?p" using inv by (simp add: coord_inv_def)
    show "\<exists>freed. pool_rep ?p (xs @ freed) \<and> same_pool ?p ?p \<and> hashes ?p = hashes ?p" using rep by (intro exI [of _ "[]"]) simp
    fix i ms p
    assume m: "mgr_inv (others ms i) (?ms ! i) p" and "\<exists>freed. pool_rep p (xs @ freed) \<and> same_pool ?p p \<and> hashes p = hashes ?p"
    then obtain freed where p: "pool_rep p (xs @ freed)" "same_pool ?p p" "hashes p = hashes ?p" by blast
    from free_request_spec [OF m p(1), of rid] obtain m' p' freed' where
      f: "free_request rid (?ms ! i) p = Inr (m', p')" "mgr_inv (others ms i) m' p'" "mgr_frame (others ms i) (?ms ! i) p m' p'"
        "hashes p' = hashes p" "pool_rep p' ((xs @ freed) @ freed')" "req_blocks rid m' = []" "\<not> is_running rid m'"
        "\<forall>r. r \<noteq> rid \<longrightarrow> req_blocks r m' = req_blocks r (?ms ! i)" by blast
    moreover have "same_pool ?p p'" using p(2) frame_static [OF f(3)] same_pool_trans by blast
    ultimately show "\<exists>m' p'. free_request rid (?ms ! i) p = Inr (m', p') \<and> mgr_inv (others ms i) m' p' \<and>
         mgr_frame (others ms i) (?ms ! i) p m' p' \<and> ?R i m' \<and> (\<exists>freed. pool_rep p' (xs @ freed) \<and> same_pool ?p p' \<and> hashes p' = hashes ?p)"
      using p(3) frame_static [OF f(3)] by (intro exI [of _ m'] exI [of _ p']) (auto intro!: exI [of _ "freed @ freed'"])
  qed
  then obtain ms p freed where r: "each_manager (\<lambda>i. free_request rid) ?ms ?p = Inr (ms, p)" "length ms = length ?ms" "mgrs_inv ms p"
    "\<forall>i < length ?ms. ?R i (ms ! i)" "pool_rep p (xs @ freed)" "same_pool ?p p" "hashes p = hashes ?p" by blast
  show ?thesis
    by (rule exI [of _ ms], rule exI [of _ p], rule exI [of _ freed]) (use r in \<open>simp add: coord_free_def\<close>)
qed

lemma coord_remove_skipped_spec:
  assumes inv: "coord_inv c" and rep: "pool_rep (coord_pool c) xs"
  shows "\<exists>ms p freed. coord_remove_skipped_blocks rid tc c = Inr (with_state ms p c) \<and> mgrs_inv ms p \<and> pool_rep p (xs @ freed) \<and>
    same_pool (coord_pool c) p \<and> hashes p = hashes (coord_pool c) \<and> length ms = length (single_type_managers c) \<and>
    (\<forall>i < length ms. same_static (single_type_managers c ! i) (ms ! i) \<and>
       num_cached_block (ms ! i) = num_cached_block (single_type_managers c ! i) \<and>
       length (req_blocks rid (ms ! i)) = length (req_blocks rid (single_type_managers c ! i)) \<and>
       (\<forall>r. r \<noteq> rid \<longrightarrow> req_blocks r (ms ! i) = req_blocks r (single_type_managers c ! i)))"
proof -
  let ?ms = "single_type_managers c" and ?p = "coord_pool c"
  let ?R = "\<lambda>i m. same_static (?ms ! i) m \<and> num_cached_block m = num_cached_block (?ms ! i) \<and>
      length (req_blocks rid m) = length (req_blocks rid (?ms ! i)) \<and> (\<forall>r. r \<noteq> rid \<longrightarrow> req_blocks r m = req_blocks r (?ms ! i))"
  let ?J = "\<lambda>i ms p. \<exists>freed. pool_rep p (xs @ freed) \<and> same_pool ?p p \<and> hashes p = hashes ?p"
  have "\<exists>ms p. each_manager (\<lambda>i. remove_skipped_blocks rid tc) ?ms ?p = Inr (ms, p) \<and> length ms = length ?ms \<and> mgrs_inv ms p \<and>
      (\<forall>i < length ?ms. ?R i (ms ! i)) \<and> ?J (length ?ms) ms p"
  proof (rule each_manager_mgrs [where pl = "\<lambda>p. p" and R = ?R and J = ?J])
    show "mgrs_inv ?ms ?p" using inv by (simp add: coord_inv_def)
    show "\<exists>freed. pool_rep ?p (xs @ freed) \<and> same_pool ?p ?p \<and> hashes ?p = hashes ?p" using rep by (intro exI [of _ "[]"]) simp
    fix i ms p
    assume m: "mgr_inv (others ms i) (?ms ! i) p" and "?J i ms p"
    then obtain freed where p: "pool_rep p (xs @ freed)" "same_pool ?p p" "hashes p = hashes ?p" by blast
    from remove_skipped_blocks_spec [OF m p(1), of rid tc] obtain m' p' freed' where
      f: "remove_skipped_blocks rid tc (?ms ! i) p = Inr (m', p')" "mgr_inv (others ms i) m' p'" "mgr_frame (others ms i) (?ms ! i) p m' p'"
        "hashes p' = hashes p" "num_cached_block m' = num_cached_block (?ms ! i)" "pool_rep p' ((xs @ freed) @ freed')"
        "\<forall>r. r \<noteq> rid \<longrightarrow> req_blocks r m' = req_blocks r (?ms ! i)"
        "length (req_blocks rid m') = length (req_blocks rid (?ms ! i))" by blast
    have "same_pool ?p p'" using p(2) frame_static [OF f(3)] same_pool_trans by blast
    then show "\<exists>m' p'. remove_skipped_blocks rid tc (?ms ! i) p = Inr (m', p') \<and> mgr_inv (others ms i) m' p' \<and>
         mgr_frame (others ms i) (?ms ! i) p m' p' \<and> ?R i m' \<and> ?J (Suc i) (ms[i := m']) p'"
      using f p(3) frame_static [OF f(3)] by (intro exI [of _ m'] exI [of _ p']) (auto intro!: exI [of _ "freed @ freed'"])
  qed
  then obtain ms p freed where r: "each_manager (\<lambda>i. remove_skipped_blocks rid tc) ?ms ?p = Inr (ms, p)" "length ms = length ?ms"
    "mgrs_inv ms p" "\<forall>i < length ?ms. ?R i (ms ! i)" "pool_rep p (xs @ freed)" "same_pool ?p p" "hashes p = hashes ?p" by blast
  show ?thesis
    by (rule exI [of _ ms], rule exI [of _ p], rule exI [of _ freed]) (use r in \<open>simp add: coord_remove_skipped_blocks_def\<close>)
qed

subsection \<open>How many blocks a request needs\<close>

lemma blocks_needed_sum:
  assumes "\<And>i. i < length (single_type_managers c) \<Longrightarrow>
    blocks_needed_step rid ntok rows enc tc c i = (\<lambda>n. Inr (n + need i))"
  shows "coord_get_num_blocks_to_allocate rid ntok rows enc tc c = Inr (\<Sum>i < length (single_type_managers c). need i)"
proof -
  have "fold_res (blocks_needed_step rid ntok rows enc tc c) [0..<k] 0 = Inr (\<Sum>i < k. need i)"
    if "k \<le> length (single_type_managers c)" for k
    using that by (induction k) (simp_all add: fold_res_append assms)
  then show ?thesis by (simp add: coord_get_num_blocks_to_allocate_def)
qed

text \<open>The blocks that hold the tokens of a request, encoder tokens for cross attention.\<close>

definition slots_for :: "int \<Rightarrow> int \<Rightarrow> cache_manager \<Rightarrow> int" where
  "slots_for ntok enc m = cdiv (if is_cross (kv_cache_spec m) then enc else ntok) (int (block_size m))"

text \<open>The second phase: new blocks for every manager.\<close>

lemma coord_allocate_new_blocks_spec:
  assumes inv: "coord_inv c" and rep: "pool_rep (coord_pool c) xs"
    and room: "(\<Sum>i < length (single_type_managers c).
       max 0 (slots_for ntok enc (single_type_managers c ! i) - int (length (req_blocks rid (single_type_managers c ! i))))) \<le> int (length xs)"
  shows "\<exists>rows ms p ys. coord_allocate_new_blocks rid ntok enc c = Inr (rows, with_state ms p c) \<and> mgrs_inv ms p \<and> pool_rep p ys \<and>
    same_pool (coord_pool c) p \<and> length ms = length (single_type_managers c) \<and> length rows = length ms \<and>
    (\<forall>i < length ms. same_static (single_type_managers c ! i) (ms ! i) \<and>
       num_cached_block (ms ! i) = num_cached_block (single_type_managers c ! i) \<and>
       req_blocks rid (ms ! i) = req_blocks rid (single_type_managers c ! i) @ rows ! i \<and>
       slots_for ntok enc (ms ! i) \<le> int (length (req_blocks rid (ms ! i))) \<and>
       (\<forall>r. r \<noteq> rid \<longrightarrow> req_blocks r (ms ! i) = req_blocks r (single_type_managers c ! i)))"
proof -
  let ?ms = "single_type_managers c" and ?p = "coord_pool c"
  let ?u = "\<lambda>i. max 0 (slots_for ntok enc (?ms ! i) - int (length (req_blocks rid (?ms ! i))))"
  let ?f = "\<lambda>i m (p, rows). rbind (allocate_new_blocks rid (if is_cross (kv_cache_spec m) then enc else ntok) m p)
                (\<lambda>(new, m', p'). Inr (m', (p', rows @ [new])))"
  let ?S = "\<lambda>i m. same_static (?ms ! i) m \<and> num_cached_block m = num_cached_block (?ms ! i) \<and>
      slots_for ntok enc m \<le> int (length (req_blocks rid m)) \<and> (\<forall>r. r \<noteq> rid \<longrightarrow> req_blocks r m = req_blocks r (?ms ! i))"
  let ?J = "\<lambda>i ms (p, rows). (\<exists>ys. pool_rep p ys \<and> int (length ys) = int (length xs) - (\<Sum>j < i. ?u j)) \<and> same_pool ?p p \<and> length rows = i \<and>
      (\<forall>j < i. req_blocks rid (ms ! j) = req_blocks rid (?ms ! j) @ rows ! j)"
  have "\<exists>ms s. each_manager ?f ?ms (?p, []) = Inr (ms, s) \<and> length ms = length ?ms \<and> mgrs_inv ms (fst s) \<and>
      (\<forall>i < length ?ms. ?S i (ms ! i)) \<and> ?J (length ?ms) ms s"
  proof (rule each_manager_mgrs [where pl = fst and R = ?S and J = ?J])
    show "mgrs_inv ?ms (fst (?p, []))" using inv by (simp add: coord_inv_def)
    show "?J 0 ?ms (?p, [])" using rep by auto
    fix i ms s
    assume i: "i < length ?ms" and len: "length ms = length ?ms" and m: "mgr_inv (others ms i) (?ms ! i) (fst s)" and J: "?J i ms s"
    obtain p rows where s: "s = (p, rows)" by (cases s)
    with J obtain ys where ys: "pool_rep p ys" "int (length ys) = int (length xs) - (\<Sum>j < i. ?u j)" "same_pool ?p p" "length rows = i"
      "\<forall>j < i. req_blocks rid (ms ! j) = req_blocks rid (?ms ! j) @ rows ! j" by auto
    let ?n = "if is_cross (kv_cache_spec (?ms ! i)) then enc else ntok"
    have "(\<Sum>j < Suc i. ?u j) \<le> (\<Sum>j < length ?ms. ?u j)" by (rule sum_mono2) (use i in auto)
    then have fits: "cdiv ?n (int (block_size (?ms ! i))) - int (length (req_blocks rid (?ms ! i))) \<le> int (length ys)"
      using room ys(2) by (simp add: slots_for_def max_def split: if_splits)
    from allocate_new_blocks_spec [OF m [unfolded s fst_conv] ys(1) fits] obtain new m' p' where
      a: "allocate_new_blocks rid ?n (?ms ! i) p = Inr (new, m', p')" "mgr_inv (others ms i) m' p'" "mgr_frame (others ms i) (?ms ! i) p m' p'"
        "req_blocks rid m' = req_blocks rid (?ms ! i) @ new" "\<forall>r. r \<noteq> rid \<longrightarrow> req_blocks r m' = req_blocks r (?ms ! i)"
        "num_cached_block m' = num_cached_block (?ms ! i)"
        "int (length new) = max 0 (cdiv ?n (int (block_size (?ms ! i))) - int (length (req_blocks rid (?ms ! i))))"
        "pool_rep p' (drop (length new) ys)" by blast
    note st = frame_static [OF a(3)]
    have u: "int (length new) = ?u i" using a(7) by (simp add: slots_for_def)
    have len_new: "length new \<le> length ys" using a(7) fits by (simp add: max_def split: if_splits)
    have slots: "slots_for ntok enc m' = slots_for ntok enc (?ms ! i)" using st by (simp add: slots_for_def same_static_def)
    have S: "?S i m'" using st a(4-6) u by (simp add: slots)
    have "pool_rep p' (drop (length new) ys) \<and> int (length (drop (length new) ys)) = int (length xs) - (\<Sum>j < Suc i. ?u j)"
      using a(8) ys(2) u len_new by simp
    moreover have "same_pool ?p p'" using st ys(3) same_pool_trans by blast
    moreover have "\<forall>j < Suc i. req_blocks rid (ms[i := m'] ! j) = req_blocks rid (?ms ! j) @ (rows @ [new]) ! j"
      using ys(4,5) a(4) i len by (auto simp: nth_append nth_list_update less_Suc_eq)
    ultimately have J': "?J (Suc i) (ms[i := m']) (p', rows @ [new])" using ys(4) by (simp only: prod.case) (intro conjI exI, auto)
    show "\<exists>m' s'. ?f i (?ms ! i) s = Inr (m', s') \<and> mgr_inv (others ms i) m' (fst s') \<and>
         mgr_frame (others ms i) (?ms ! i) (fst s) m' (fst s') \<and> ?S i m' \<and> ?J (Suc i) (ms[i := m']) s'"
      by (rule exI [of _ m'], rule exI [of _ "(p', rows @ [new])"])
         (intro conjI S J', use a(1-3) s in simp_all)
  qed
  then obtain ms p rows ys where r: "each_manager ?f ?ms (?p, []) = Inr (ms, (p, rows))" "length ms = length ?ms" "mgrs_inv ms p"
    "\<forall>i < length ?ms. ?S i (ms ! i)" "pool_rep p ys" "same_pool ?p p" "length rows = length ?ms"
    "\<forall>j < length ?ms. req_blocks rid (ms ! j) = req_blocks rid (?ms ! j) @ rows ! j" by auto
  have "coord_allocate_new_blocks rid ntok enc c = Inr (rows, with_state ms p c)"
    using r(1) by (simp add: coord_allocate_new_blocks_def)
  with r show ?thesis
    by (intro exI [of _ rows] exI [of _ ms] exI [of _ p] exI [of _ ys]) simp
qed

subsection \<open>Admitting a request\<close>

lemma evictable_cong:
  assumes "pool_rep p xs" "pool_rep p' xs'" "same_pool p p'" "set bs \<subseteq> set (blocks p)"
    and "\<And>b. b \<in> set bs \<Longrightarrow> b \<noteq> null_block p \<Longrightarrow> refs p' b = refs p b"
  shows "get_num_evictable_blocks p' bs = get_num_evictable_blocks p bs"
proof -
  have st: "blocks p' = blocks p" "null_block p' = null_block p" using assms(3) by (auto simp: same_pool_def)
  have "(ref_cnt (blk p' b) = 0 \<and> \<not> is_null (blk p' b)) = (ref_cnt (blk p b) = 0 \<and> \<not> is_null (blk p b))" if "b \<in> set bs" for b
  proof -
    have b: "b \<in> set (blocks p)" "b \<in> set (blocks p')" using that assms(4) st by auto
    have "is_null (blk p b) = (b = null_block p)" "is_null (blk p' b) = (b = null_block p)"
      using pool_tableD(1) [OF pool_repD(1) [OF assms(1)]] pool_tableD(1) [OF pool_repD(1) [OF assms(2)]] b st by auto
    then show ?thesis using assms(5) [OF that] by (auto simp: refs_def)
  qed
  then have "filter (\<lambda>b. ref_cnt (blk p' b) = 0 \<and> \<not> is_null (blk p' b)) bs =
    filter (\<lambda>b. ref_cnt (blk p b) = 0 \<and> \<not> is_null (blk p b)) bs" by (rule filter_cong [OF refl])
  then show ?thesis by (simp add: get_num_evictable_blocks_def)
qed

text \<open>
  What the caller guarantees for each manager when it admits a request: the request is new
  to it, and the hit is a row of cached blocks no longer than the tokens it stands for.
\<close>

definition admissible :: "string \<Rightarrow> int \<Rightarrow> block_ref list \<Rightarrow> cache_manager \<Rightarrow> block_pool \<Rightarrow> bool" where
  "admissible rid nl row m p \<longleftrightarrow>
     (if is_cross (kv_cache_spec m) then row = []
      else req_blocks rid m = [] \<and> \<not> is_running rid m \<and> hits_ok p row \<and> (mgr_enable_caching m \<or> row = []) \<and>
        spec_ok (kv_cache_spec m) \<and> int (length row) * int (block_size m) \<le> nl)"

definition rows_disjoint :: "block_ref \<Rightarrow> hit_table \<Rightarrow> bool" where
  "rows_disjoint nb rows \<longleftrightarrow> (\<forall>i j. i < j \<longrightarrow> j < length rows \<longrightarrow> set (rows ! i) \<inter> set (rows ! j) \<subseteq> {nb})"

text \<open>The blocks the window skips, the length of the table after adopting the hit, and the hits that are free now.\<close>

definition skipped_blocks :: "int \<Rightarrow> cache_manager \<Rightarrow> nat" where
  "skipped_blocks tc m = nat (get_num_skipped_tokens (kv_cache_spec m) tc div int (block_size m))"

definition adopted :: "string \<Rightarrow> int \<Rightarrow> block_ref list \<Rightarrow> cache_manager \<Rightarrow> int" where
  "adopted rid tc row m = (if is_cross (kv_cache_spec m) then int (length (req_blocks rid m)) else int (max (skipped_blocks tc m) (length row)))"

definition revived :: "int \<Rightarrow> block_ref list \<Rightarrow> cache_manager \<Rightarrow> block_pool \<Rightarrow> int" where
  "revived tc row m p = (if is_cross (kv_cache_spec m) then 0 else get_num_evictable_blocks p (drop (skipped_blocks tc m) row))"

lemma admit_one:
  assumes inv: "mgr_inv ext m p" and rep: "pool_rep p xs" and adm: "admissible rid nl row m p" and ne: "0 \<le> ne"
    and room: "ne = 0 \<or> is_cross (kv_cache_spec m) \<or>
      cdiv (nl + ne) (int (block_size m)) - adopted rid (nl + ne) row m + revived (nl + ne) row m p \<le> int (length xs)"
  shows "\<exists>m' p' ys. allocate_new_computed_blocks rid row nl ne m p = Inr (m', p') \<and> mgr_inv ext m' p' \<and> mgr_frame ext m p m' p' \<and>
    pool_rep p' ys \<and>
    int (length ys) = int (length xs) - revived (nl + ne) row m p - (int (length (req_blocks rid m')) - adopted rid (nl + ne) row m) \<and>
    adopted rid (nl + ne) row m \<le> int (length (req_blocks rid m')) \<and>
    (is_cross (kv_cache_spec m) \<or> int (length (req_blocks rid m')) \<le> max (adopted rid (nl + ne) row m) (cdiv (nl + ne) (int (block_size m)))) \<and>
    (is_cross (kv_cache_spec m) \<longrightarrow> length (req_blocks rid m') = length (req_blocks rid m)) \<and>
    (ne = 0 \<longrightarrow> hashes p' = hashes p \<and> (\<forall>b. b \<notin> set row \<longrightarrow> refs p' b = refs p b)) \<and>
    (\<forall>r. r \<noteq> rid \<longrightarrow> req_blocks r m' = req_blocks r m)"
proof (cases "is_cross (kv_cache_spec m)")
  case True
  then have "allocate_new_computed_blocks rid row nl ne m p = Inr (m, p)" using adm by (simp add: allocate_new_computed_blocks_def admissible_def)
  with True inv rep show ?thesis by (intro exI [of _ m] exI [of _ p] exI [of _ xs]) (simp add: adopted_def revived_def)
next
  case False
  then have a: "req_blocks rid m = []" "\<not> is_running rid m" "hits_ok p row" "mgr_enable_caching m \<or> row = []" "spec_ok (kv_cache_spec m)"
    "int (length row) * int (block_size m) \<le> nl" using adm by (simp_all add: admissible_def)
  have "cdiv (nl + ne) (int (block_size m)) - int (max (skipped_blocks (nl + ne) m) (length row)) +
      get_num_evictable_blocks p (drop (skipped_blocks (nl + ne) m) row) \<le> int (length xs) \<or> ne = 0"
    using room False by (auto simp: adopted_def revived_def)
  from allocate_new_computed_blocks_spec [OF inv rep a(1-5) False a(6) ne skipped_blocks_def this]
  obtain m' p' ys k where k: "allocate_new_computed_blocks rid row nl ne m p = Inr (m', p')" "mgr_inv ext m' p'" "mgr_frame ext m p m' p'"
    "pool_rep p' ys" "int (length (req_blocks rid m')) = int (max (skipped_blocks (nl + ne) m) (length row)) + k"
    "int (length ys) = int (length xs) - get_num_evictable_blocks p (drop (skipped_blocks (nl + ne) m) row) - k" "0 \<le> k"
    "k \<le> cdiv (nl + ne) (int (block_size m)) - int (max (skipped_blocks (nl + ne) m) (length row))"
    "ne = 0 \<longrightarrow> hashes p' = hashes p \<and> (\<forall>b. b \<notin> set row \<longrightarrow> refs p' b = refs p b)"
    "\<forall>r. r \<noteq> rid \<longrightarrow> req_blocks r m' = req_blocks r m" by blast
  show ?thesis
    by (rule exI [of _ m'], rule exI [of _ p'], rule exI [of _ ys])
       (use k False in \<open>simp add: adopted_def revived_def\<close>)
qed

text \<open>
  The first phase: every manager adopts its hits. External tokens are allowed with one manager only;
  with several, a manager that allocates for them could evict the hits of a later one.
\<close>

lemma hits_ok_cong: "hashes p' = hashes p \<Longrightarrow> same_pool p p' \<Longrightarrow> hits_ok p' bs = hits_ok p bs"
  by (simp add: hits_ok_def same_pool_def)

lemma coord_admit_spec:
  fixes nl ne :: int
  assumes inv: "coord_inv c" and rep: "pool_rep (coord_pool c) xs" and rows: "length rows = length (single_type_managers c)"
    and adm: "\<forall>i < length rows. admissible rid nl (rows ! i) (single_type_managers c ! i) (coord_pool c)"
    and disj: "rows_disjoint (null_block (coord_pool c)) rows" and ne: "0 \<le> ne" "ne = 0 \<or> length rows \<le> 1"
    and room: "ne = 0 \<or> (\<forall>i < length rows. is_cross (kv_cache_spec (single_type_managers c ! i)) \<or> cdiv (nl + ne) (int (block_size (single_type_managers c ! i))) -
        adopted rid (nl + ne) (rows ! i) (single_type_managers c ! i) +
        revived (nl + ne) (rows ! i) (single_type_managers c ! i) (coord_pool c) \<le> int (length xs))"
  shows "\<exists>ms p ys. coord_allocate_new_computed_blocks rid rows nl ne c = Inr (with_state ms p c) \<and> mgrs_inv ms p \<and>
    same_pool (coord_pool c) p \<and> length ms = length (single_type_managers c) \<and> pool_rep p ys \<and>
    int (length ys) = int (length xs) - (\<Sum>i < length ms. revived (nl + ne) (rows ! i) (single_type_managers c ! i) (coord_pool c) +
      (int (length (req_blocks rid (ms ! i))) - adopted rid (nl + ne) (rows ! i) (single_type_managers c ! i))) \<and>
    (\<forall>i < length ms. same_static (single_type_managers c ! i) (ms ! i) \<and>
       adopted rid (nl + ne) (rows ! i) (single_type_managers c ! i) \<le> int (length (req_blocks rid (ms ! i))) \<and>
       (is_cross (kv_cache_spec (ms ! i)) \<or> int (length (req_blocks rid (ms ! i))) \<le>
          max (adopted rid (nl + ne) (rows ! i) (single_type_managers c ! i)) (cdiv (nl + ne) (int (block_size (ms ! i))))) \<and>
       (is_cross (kv_cache_spec (ms ! i)) \<longrightarrow> length (req_blocks rid (ms ! i)) = length (req_blocks rid (single_type_managers c ! i))) \<and>
       (\<forall>r. r \<noteq> rid \<longrightarrow> req_blocks r (ms ! i) = req_blocks r (single_type_managers c ! i)))"
proof -
  let ?ms = "single_type_managers c" and ?p = "coord_pool c" and ?tc = "nl + ne"
  let ?f = "\<lambda>i m p. rbind (group_blocks rows i) (\<lambda>row. allocate_new_computed_blocks rid row nl ne m p)"
  let ?ad = "\<lambda>i. adopted rid ?tc (rows ! i) (?ms ! i)" and ?rv = "\<lambda>i. revived ?tc (rows ! i) (?ms ! i) ?p"
  let ?R = "\<lambda>i m. same_static (?ms ! i) m \<and> ?ad i \<le> int (length (req_blocks rid m)) \<and>
      (is_cross (kv_cache_spec m) \<or> int (length (req_blocks rid m)) \<le> max (?ad i) (cdiv ?tc (int (block_size m)))) \<and>
      (is_cross (kv_cache_spec m) \<longrightarrow> length (req_blocks rid m) = length (req_blocks rid (?ms ! i))) \<and>
      (\<forall>r. r \<noteq> rid \<longrightarrow> req_blocks r m = req_blocks r (?ms ! i))"
  let ?J = "\<lambda>i ms p. (\<exists>ys. pool_rep p ys \<and> int (length ys) = int (length xs) -
        (\<Sum>j < i. ?rv j + (int (length (req_blocks rid (ms ! j))) - ?ad j))) \<and> same_pool ?p p \<and>
      (ne = 0 \<or> i = 0 \<longrightarrow> hashes p = hashes ?p \<and> (\<forall>b. (\<forall>j < i. b \<notin> set (rows ! j)) \<longrightarrow> refs p b = refs ?p b))"
  have "\<exists>ms p. each_manager ?f ?ms ?p = Inr (ms, p) \<and> length ms = length ?ms \<and> mgrs_inv ms p \<and>
      (\<forall>i < length ?ms. ?R i (ms ! i)) \<and> ?J (length ?ms) ms p"
  proof (rule each_manager_mgrs [where pl = "\<lambda>p. p" and R = ?R and J = ?J])
    show "mgrs_inv ?ms ?p" using inv by (simp add: coord_inv_def)
    show "?J 0 ?ms ?p" using rep by auto
    fix i ms p
    assume i: "i < length ?ms" and len: "length ms = length ?ms" and m: "mgr_inv (others ms i) (?ms ! i) p" and J: "?J i ms p"
    then obtain ys where ys: "pool_rep p ys" "int (length ys) = int (length xs) - (\<Sum>j < i. ?rv j + (int (length (req_blocks rid (ms ! j))) - ?ad j))"
      "same_pool ?p p" by blast
    have same: "ne = 0 \<or> i = 0" using ne(2) i rows by linarith
    with J have eq: "hashes p = hashes ?p" "\<And>b. (\<forall>j < i. b \<notin> set (rows ! j)) \<Longrightarrow> refs p b = refs ?p b" by auto
    let ?row = "rows ! i"
    have adm_i: "admissible rid nl ?row (?ms ! i) ?p" using adm i rows by simp
    then have adm': "admissible rid nl ?row (?ms ! i) p" using hits_ok_cong [OF eq(1) ys(3)] by (simp add: admissible_def)
    have rv: "revived ?tc ?row (?ms ! i) p = ?rv i"
    proof (cases "is_cross (kv_cache_spec (?ms ! i))")
      case False
      have sub: "set ?row \<subseteq> set (blocks ?p)" using False adm_i by (simp add: admissible_def hits_ok_def)
      have "refs p b = refs ?p b" if "b \<in> set ?row" "b \<noteq> null_block ?p" for b
        using that disj i rows by (intro eq(2)) (auto simp: rows_disjoint_def)
      then have "get_num_evictable_blocks p (drop k ?row) = get_num_evictable_blocks ?p (drop k ?row)" for k
        using sub in_set_dropD by (intro evictable_cong [OF rep ys(1,3)]) fastforce+
      then show ?thesis by (simp add: revived_def)
    qed (simp add: revived_def)
    have room': "ne = 0 \<or> is_cross (kv_cache_spec (?ms ! i)) \<or> cdiv ?tc (int (block_size (?ms ! i))) - adopted rid ?tc ?row (?ms ! i) + revived ?tc ?row (?ms ! i) p \<le> int (length ys)"
      using room same i rows ys(2) rv by auto
    from admit_one [OF m ys(1) adm' ne(1) room'] obtain m' p' zs where
      a: "allocate_new_computed_blocks rid ?row nl ne (?ms ! i) p = Inr (m', p')" "mgr_inv (others ms i) m' p'"
        "mgr_frame (others ms i) (?ms ! i) p m' p'" "pool_rep p' zs"
        "int (length zs) = int (length ys) - revived ?tc ?row (?ms ! i) p - (int (length (req_blocks rid m')) - ?ad i)"
        "?ad i \<le> int (length (req_blocks rid m'))"
        "is_cross (kv_cache_spec (?ms ! i)) \<or> int (length (req_blocks rid m')) \<le> max (?ad i) (cdiv ?tc (int (block_size (?ms ! i))))"
        "is_cross (kv_cache_spec (?ms ! i)) \<longrightarrow> length (req_blocks rid m') = length (req_blocks rid (?ms ! i))"
        "ne = 0 \<longrightarrow> hashes p' = hashes p \<and> (\<forall>b. b \<notin> set ?row \<longrightarrow> refs p' b = refs p b)"
        "\<forall>r. r \<noteq> rid \<longrightarrow> req_blocks r m' = req_blocks r (?ms ! i)" by blast
    note st = frame_static [OF a(3)]
    have R: "?R i m'" using st a(6,7,8,10) by (simp add: same_static_def)
    have "(\<Sum>j < i. ?rv j + (int (length (req_blocks rid (ms[i := m'] ! j))) - ?ad j)) =
        (\<Sum>j < i. ?rv j + (int (length (req_blocks rid (ms ! j))) - ?ad j))" by (rule sum.cong) auto
    then have "int (length zs) = int (length xs) - (\<Sum>j < Suc i. ?rv j + (int (length (req_blocks rid (ms[i := m'] ! j))) - ?ad j))"
      using a(5) ys(2) rv i len by simp
    moreover have "same_pool ?p p'" using st ys(3) same_pool_trans by blast
    moreover have "hashes p' = hashes ?p \<and> (\<forall>b. (\<forall>j < Suc i. b \<notin> set (rows ! j)) \<longrightarrow> refs p' b = refs ?p b)" if "ne = 0"
      using a(9) that eq by simp
    ultimately have J': "?J (Suc i) (ms[i := m']) p'" using a(4) by blast
    have "?f i (?ms ! i) p = Inr (m', p')" using a(1) i rows by (simp add: group_blocks_def)
    then show "\<exists>m' p'. ?f i (?ms ! i) p = Inr (m', p') \<and> mgr_inv (others ms i) m' p' \<and>
         mgr_frame (others ms i) (?ms ! i) p m' p' \<and> ?R i m' \<and> ?J (Suc i) (ms[i := m']) p'"
      by (intro exI [of _ m'] exI [of _ p'] conjI a(2,3) R J')
  qed
  then obtain ms p ys where r: "each_manager ?f ?ms ?p = Inr (ms, p)" "length ms = length ?ms" "mgrs_inv ms p"
    "\<forall>i < length ?ms. ?R i (ms ! i)" "pool_rep p ys" "same_pool ?p p"
    "int (length ys) = int (length xs) - (\<Sum>j < length ?ms. ?rv j + (int (length (req_blocks rid (ms ! j))) - ?ad j))" by blast
  have run: "coord_allocate_new_computed_blocks rid rows nl ne c = Inr (with_state ms p c)"
    using r(1) by (simp add: coord_allocate_new_computed_blocks_def)
  show ?thesis
    by (rule exI [of _ ms], rule exI [of _ p], rule exI [of _ ys]) (use run r in simp)
qed

subsection \<open>Caching\<close>

text \<open>
  The request carries one hash per full hash block of its tokens, and the block size of a manager is a multiple
  of the hash block size; then the view of the hashes at the manager's block size is long enough.
\<close>

lemma block_view:
  assumes "0 < hbs" "hbs dvd bs" "0 < bs" "length hs = n div hbs" "k \<le> n div bs"
  shows "\<exists>v. block_hashes_for hbs bs hs = Inr v \<and> k \<le> length hs \<and> k \<le> length (bhl_values v)"
proof -
  have "n div bs \<le> n div hbs" using assms(1,2,3) by (intro div_le_mono2) (auto dest: dvd_imp_le)
  moreover have "n div hbs div (bs div hbs) = n div bs" using assms(2) by (metis div_mult2_eq dvd_mult_div_cancel)
  ultimately show ?thesis using assms by (auto simp: block_hashes_for_def BlockHashListWithBlockSize_def)
qed

definition cacheable :: "int \<Rightarrow> request \<Rightarrow> cache_manager \<Rightarrow> block_pool \<Rightarrow> bool" where
  "cacheable ntok r m p \<longleftrightarrow> \<not> is_cross (kv_cache_spec m) \<and> hash_block_size p dvd block_size m \<and>
     ntok div int (block_size m) \<le> int (length (req_blocks (request_id r) m)) \<and> 0 \<le> kv_cache_group_id m \<and> kv_cache_group_id m < 2 ^ 32"

lemma coord_cache_blocks_spec:
  assumes inv: "coord_inv c" and rep: "pool_rep (coord_pool c) xs" and caching: "enable_caching (coord_pool c)"
    and hbs: "0 < hash_block_size (coord_pool c)" "length (block_hashes r) = num_tokens r div hash_block_size (coord_pool c)"
    and ntok: "ntok \<le> int (num_tokens r)"
    and able: "\<forall>m \<in> set (single_type_managers c). cacheable ntok r m (coord_pool c)"
  shows "\<exists>ms p memo. coord_cache_blocks sha256 r ntok c = Inr (with_state ms p c, r\<lparr>prompt_embeds_per_block_hashes := memo\<rparr>) \<and>
    mgrs_inv ms p \<and> pool_rep p xs \<and> same_pool (coord_pool c) p \<and> length ms = length (single_type_managers c) \<and>
    (\<forall>i < length ms. same_static (single_type_managers c ! i) (ms ! i) \<and> (\<forall>rid. req_blocks rid (ms ! i) = req_blocks rid (single_type_managers c ! i)))"
proof -
  let ?ms = "single_type_managers c" and ?p = "coord_pool c"
  let ?f = "\<lambda>(i :: nat) m (p, r). rbind (cache_blocks sha256 r ntok m p) (\<lambda>(m', p', r'). Inr (m', (p', r')))"
  let ?R = "\<lambda>i m. same_static (?ms ! i) m \<and> (\<forall>rid. req_blocks rid m = req_blocks rid (?ms ! i))"
  let ?J = "\<lambda>(i :: nat) (ms :: cache_manager list) (p, r'). pool_rep p xs \<and> same_pool ?p p \<and> (\<exists>memo. r' = r\<lparr>prompt_embeds_per_block_hashes := memo\<rparr>)"
  have "\<exists>ms s. each_manager ?f ?ms (?p, r) = Inr (ms, s) \<and> length ms = length ?ms \<and> mgrs_inv ms (fst s) \<and>
      (\<forall>i < length ?ms. ?R i (ms ! i)) \<and> ?J (length ?ms) ms s"
  proof (rule each_manager_mgrs [where pl = fst and R = ?R and J = ?J])
    show "mgrs_inv ?ms (fst (?p, r))" using inv by (simp add: coord_inv_def)
    show "?J 0 ?ms (?p, r)" using rep memo_id by simp
    fix i ms s
    assume i: "i < length ?ms" and m: "mgr_inv (others ms i) (?ms ! i) (fst s)" and J: "?J i ms s"
    from J obtain p r' memo where s: "s = (p, r')" "pool_rep p xs" "same_pool ?p p" "r' = r\<lparr>prompt_embeds_per_block_hashes := memo\<rparr>"
      by (cases s) (simp only: prod.case, blast)
    have st: "enable_caching p" "hash_block_size p = hash_block_size ?p" using s(3) caching by (auto simp: same_pool_def)
    from able i have ok: "cacheable ntok r (?ms ! i) ?p" by simp
    note mI = m [unfolded s(1) fst_conv]
    let ?bs = "block_size (?ms ! i)" and ?nf = "nat (ntok div int (block_size (?ms ! i)))"
    have bs: "0 < ?bs" using mgr_invD(4) [OF mI] .
    have "ntok div int ?bs \<le> int (num_tokens r div ?bs)" using zdiv_mono1 [OF ntok, of "int ?bs"] bs by (simp add: zdiv_int)
    then have "?nf \<le> num_tokens r div ?bs" by simp
    from block_view [OF hbs(1) _ bs hbs(2) this] ok obtain v where
      v: "block_hashes_for (hash_block_size ?p) ?bs (block_hashes r) = Inr v" "?nf \<le> length (block_hashes r)" "?nf \<le> length (bhl_values v)"
      by (auto simp: cacheable_def)
    have facts: "\<not> is_cross (kv_cache_spec (?ms ! i))" "block_hashes_for (hash_block_size p) ?bs (block_hashes r') = Inr v"
      "?nf \<le> length (req_blocks (request_id r') (?ms ! i))" "?nf \<le> length (block_hashes r')"
      "0 \<le> kv_cache_group_id (?ms ! i)" "kv_cache_group_id (?ms ! i) < 2 ^ 32"
      using ok st(2) v s(4) by (simp_all add: cacheable_def nat_le_iff)
    from cache_blocks_spec [OF mI s(2) facts(1) st(1) facts(2) refl facts(3,4) v(3) facts(5,6), of sha256] obtain m' p' r'' where
      a: "cache_blocks sha256 r' ntok (?ms ! i) p = Inr (m', p', r'')" "mgr_inv (others ms i) m' p'" "mgr_frame (others ms i) (?ms ! i) p m' p'"
        "pool_rep p' xs" "\<forall>rid. req_blocks rid m' = req_blocks rid (?ms ! i)" "\<exists>memo. r'' = r'\<lparr>prompt_embeds_per_block_hashes := memo\<rparr>"
      by blast
    note sf = frame_static [OF a(3)]
    have R: "?R i m'" using sf a(5) by simp
    from a(6) obtain memo' where "r'' = r\<lparr>prompt_embeds_per_block_hashes := memo'\<rparr>" unfolding s(4) by auto
    then have J': "?J (Suc i) (ms[i := m']) (p', r'')" using a(4) same_pool_trans [OF s(3)] sf unfolding prod.case by blast
    show "\<exists>m' s'. ?f i (?ms ! i) s = Inr (m', s') \<and> mgr_inv (others ms i) m' (fst s') \<and>
         mgr_frame (others ms i) (?ms ! i) (fst s) m' (fst s') \<and> ?R i m' \<and> ?J (Suc i) (ms[i := m']) s'"
      by (rule exI [of _ m'], rule exI [of _ "(p', r'')"]) (intro conjI R J', use a(1-3) s in simp_all)
  qed
  then obtain ms s where m: "each_manager ?f ?ms (?p, r) = Inr (ms, s)" "length ms = length ?ms" "mgrs_inv ms (fst s)"
    "\<forall>i < length ?ms. ?R i (ms ! i)" "?J (length ?ms) ms s" by blast
  obtain p r' where s: "s = (p, r')" by (cases s)
  from m(5) obtain memo where memo: "r' = r\<lparr>prompt_embeds_per_block_hashes := memo\<rparr>" unfolding s prod.case by blast
  from m have a: "each_manager ?f ?ms (?p, r) = Inr (ms, (p, r'))" "length ms = length ?ms" "mgrs_inv ms p"
    "\<forall>i < length ?ms. ?R i (ms ! i)" "pool_rep p xs" "same_pool ?p p" unfolding s prod.case fst_conv by blast+
  have run: "coord_cache_blocks sha256 r ntok c = Inr (with_state ms p c, r')" using a(1) by (simp add: coord_cache_blocks_def)
  show ?thesis
    by (rule exI [of _ ms], rule exI [of _ p], rule exI [of _ memo]) (use run a memo in simp)
qed

end
