(* ===== verification/KV_Manager.thy ===== *)
theory KV_Manager
  imports Coordinator
begin

text \<open>
  \<^verbatim>\<open>vllm/v1/core/kv_cache_manager.py\<close>: the interface between the scheduler and the KV cache.
  A \<^verbatim>\<open>KVCacheBlocks\<close> is modelled with a flag for the one precomputed empty object
  of the manager, since \<^verbatim>\<open>allocate_slots\<close> tests for it by identity.
\<close>

section \<open>Model\<close>

subsection \<open>KVCacheBlocks\<close>

datatype kv_cache_blocks = KVCacheBlocks (shared_empty: bool) (kv_rows: hit_table)

definition kv_blocks_add :: "kv_cache_blocks \<Rightarrow> kv_cache_blocks \<Rightarrow> kv_cache_blocks" where
  "kv_blocks_add a b = KVCacheBlocks False (map (\<lambda>(x, y). x @ y) (zip (kv_rows a) (kv_rows b)))"

definition get_block_ids :: "bool \<Rightarrow> block_pool \<Rightarrow> kv_cache_blocks \<Rightarrow> int list list option" where
  "get_block_ids allow_none p b =
     (if allow_none \<and> (\<forall>row \<in> set (kv_rows b). row = []) then None
      else Some (map (map (\<lambda>x. block_id (blk p x))) (kv_rows b)))"

definition get_unhashed_block_ids :: "block_pool \<Rightarrow> kv_cache_blocks \<Rightarrow> int list res" where
  "get_unhashed_block_ids p b =
     (case kv_rows b of
        [row] \<Rightarrow> Inr (map (\<lambda>x. block_id (blk p x)) (filter (\<lambda>x. block_hash (blk p x) = None) row))
      | _ \<Rightarrow> Inl AssertionError)"

definition get_unhashed_block_ids_all_groups :: "block_pool \<Rightarrow> kv_cache_blocks \<Rightarrow> int list list" where
  "get_unhashed_block_ids_all_groups p b =
     map (\<lambda>row. map (\<lambda>x. block_id (blk p x))
                  (filter (\<lambda>x. block_hash (blk p x) = None \<and> \<not> is_null (blk p x)) row)) (kv_rows b)"

definition new_empty :: "kv_cache_blocks \<Rightarrow> kv_cache_blocks" where
  "new_empty b = KVCacheBlocks False (replicate (length (kv_rows b)) [])"

subsection \<open>Statistics\<close>

record prefix_cache_stats =
  stats_reset :: bool
  stats_requests :: int
  stats_queries :: int
  stats_hits :: int
  preempted_requests :: int
  preempted_queries :: int
  preempted_hits :: int

definition PrefixCacheStats :: prefix_cache_stats where
  "PrefixCacheStats = \<lparr>stats_reset = False, stats_requests = 0, stats_queries = 0, stats_hits = 0,
     preempted_requests = 0, preempted_queries = 0, preempted_hits = 0\<rparr>"

definition record_hit :: "int \<Rightarrow> int \<Rightarrow> bool \<Rightarrow> prefix_cache_stats \<Rightarrow> prefix_cache_stats" where
  "record_hit ntok num_hits preempted s =
     (if preempted then
        s\<lparr>preempted_requests := preempted_requests s + 1, preempted_queries := preempted_queries s + ntok,
          preempted_hits := preempted_hits s + num_hits\<rparr>
      else
        s\<lparr>stats_requests := stats_requests s + 1, stats_queries := stats_queries s + ntok,
          stats_hits := stats_hits s + num_hits\<rparr>)"

subsection \<open>KVCacheManager\<close>

record kv_manager =
  max_model_len :: int
  kv_enable_caching :: bool
  log_stats :: bool
  kv_stats :: "prefix_cache_stats option"
  coordinator :: coordinator
  num_kv_cache_groups :: nat

definition empty_kv_cache_blocks :: "kv_manager \<Rightarrow> kv_cache_blocks" where
  "empty_kv_cache_blocks k = KVCacheBlocks True (replicate (num_kv_cache_groups k) [])"

definition KVCacheManager ::
  "kv_cache_config \<Rightarrow> int \<Rightarrow> nat \<Rightarrow> bool \<Rightarrow> bool \<Rightarrow> bool \<Rightarrow> bool \<Rightarrow> nat \<Rightarrow> nat \<Rightarrow> bool \<Rightarrow> kv_manager res" where
  "KVCacheManager config max_len hbs caching use_eagle logs events dcp pcp use_int =
     rbind (get_kv_cache_coordinator config use_eagle caching events dcp pcp hbs use_int) (\<lambda>c.
       Inr \<lparr>max_model_len = max_len, kv_enable_caching = caching, log_stats = logs,
            kv_stats = (if logs then Some PrefixCacheStats else None), coordinator = c,
            num_kv_cache_groups = length (kv_cache_groups config)\<rparr>)"

definition usage :: "kv_manager \<Rightarrow> real" where
  "usage k = get_usage (coord_pool (coordinator k))"

definition make_prefix_cache_stats :: "kv_manager \<Rightarrow> prefix_cache_stats option \<times> kv_manager" where
  "make_prefix_cache_stats k =
     (if \<not> log_stats k then (None, k) else (kv_stats k, k\<lparr>kv_stats := Some PrefixCacheStats\<rparr>))"

definition create_kv_cache_blocks :: "hit_table \<Rightarrow> kv_manager \<Rightarrow> kv_cache_blocks" where
  "create_kv_cache_blocks rows k =
     (if \<exists>row \<in> set rows. row \<noteq> [] then KVCacheBlocks False rows else empty_kv_cache_blocks k)"

text \<open>The hybrid lookup is a loop, so this operation is an option, \<^const>\<open>None\<close> for not returning.\<close>

definition get_computed_blocks :: "request \<Rightarrow> kv_manager \<Rightarrow> (kv_cache_blocks \<times> int \<times> kv_manager) res option" where
  "get_computed_blocks r k =
     (if \<not> kv_enable_caching k \<or> skip_reading_prefix_cache r then Some (Inr (empty_kv_cache_blocks k, 0, k))
      else
        case coord_find_longest_cache_hit (block_hashes r) (int (num_tokens r) - 1) (coordinator k) of
          None \<Rightarrow> None
        | Some (Inl err) \<Rightarrow> Some (Inl err)
        | Some (Inr (rows, n)) \<Rightarrow>
            if log_stats k then
              case kv_stats k of
                None \<Rightarrow> Some (Inl AssertionError)
              | Some s \<Rightarrow>
                  Some (Inr (create_kv_cache_blocks rows k, n,
                    k\<lparr>kv_stats := Some (record_hit (int (num_tokens r)) n (0 < num_preemptions r) s)\<rparr>))
            else Some (Inr (create_kv_cache_blocks rows k, n, k)))"

definition can_fit_full_sequence ::
  "request \<Rightarrow> int \<Rightarrow> kv_cache_blocks option \<Rightarrow> int \<Rightarrow> int \<Rightarrow> kv_manager \<Rightarrow> bool res" where
  "can_fit_full_sequence r num_new_computed new_computed num_external num_encoder k =
     (let rows = kv_rows (case new_computed of Some b \<Rightarrow> b | None \<Rightarrow> empty_kv_cache_blocks k);
          num_local = num_computed_tokens r + num_new_computed;
          total_computed = min (num_local + num_external) (max_model_len k);
          full_num_tokens = min (int (num_tokens r)) (max_model_len k)
      in
      rbind (coord_get_num_blocks_to_allocate (request_id r) full_num_tokens rows num_encoder total_computed (coordinator k)) (\<lambda>n.
        Inr (n \<le> get_num_free_blocks (coord_pool (coordinator k)))))"

text \<open>
  \<^verbatim>\<open>allocate_slots\<close> with its steps in the order of the code. \<^const>\<open>None\<close> in the result means
  that too few blocks are free; the skipped blocks have been released then, too.
\<close>

definition allocate_slots ::
  "(bytes \<Rightarrow> bytes) \<Rightarrow> request \<Rightarrow> int \<Rightarrow> int \<Rightarrow> kv_cache_blocks option \<Rightarrow> int \<Rightarrow> int \<Rightarrow> bool \<Rightarrow> int \<Rightarrow> kv_manager \<Rightarrow>
   (kv_cache_blocks option \<times> kv_manager \<times> request) res" where
  "allocate_slots sha256 r num_new num_new_computed new_computed num_lookahead num_external delay_cache num_encoder k =
     (if num_new = 0 \<and> num_external = 0 then Inl ValueError
      else
        let computed = (case new_computed of Some b \<Rightarrow> b | None \<Rightarrow> empty_kv_cache_blocks k);
            num_local = num_computed_tokens r + num_new_computed;
            total_computed = min (num_local + num_external) (max_model_len k);
            num_need_slot = min (total_computed + num_new + num_lookahead) (max_model_len k)
        in
        rbind (coord_remove_skipped_blocks (request_id r) total_computed (coordinator k)) (\<lambda>c1.
        rbind (coord_get_num_blocks_to_allocate (request_id r) num_need_slot (kv_rows computed) num_encoder
                 (num_local + num_external) c1) (\<lambda>n.
        if get_num_free_blocks (coord_pool c1) < n then Inr (None, k\<lparr>coordinator := c1\<rparr>, r)
        else
          rbind (if \<not> shared_empty computed \<or> 0 < num_external
                 then coord_allocate_new_computed_blocks (request_id r) (kv_rows computed) num_local num_external c1
                 else Inr c1) (\<lambda>c2.
          rbind (coord_allocate_new_blocks (request_id r) num_need_slot num_encoder c2) (\<lambda>(new_blocks, c3).
          if \<not> kv_enable_caching k \<or> delay_cache
          then Inr (Some (create_kv_cache_blocks new_blocks k), k\<lparr>coordinator := c3\<rparr>, r)
          else
            rbind (coord_cache_blocks sha256 r (min (total_computed + num_new) (int (num_tokens r))) c3) (\<lambda>(c4, r').
              Inr (Some (create_kv_cache_blocks new_blocks k), k\<lparr>coordinator := c4\<rparr>, r')))))))"

definition kv_free :: "request \<Rightarrow> kv_manager \<Rightarrow> kv_manager res" where
  "kv_free r k = rbind (coord_free (request_id r) (coordinator k)) (\<lambda>c. Inr (k\<lparr>coordinator := c\<rparr>))"

definition kv_remove_skipped_blocks :: "string \<Rightarrow> int \<Rightarrow> kv_manager \<Rightarrow> kv_manager res" where
  "kv_remove_skipped_blocks rid total_computed k =
     rbind (coord_remove_skipped_blocks rid total_computed (coordinator k)) (\<lambda>c. Inr (k\<lparr>coordinator := c\<rparr>))"

definition kv_evict_blocks :: "int list \<Rightarrow> kv_manager \<Rightarrow> kv_manager res" where
  "kv_evict_blocks ids k =
     rbind (evict_blocks ids (coord_pool (coordinator k))) (\<lambda>p.
       Inr (k\<lparr>coordinator := (coordinator k)\<lparr>coord_pool := p\<rparr>\<rparr>))"

definition kv_reset_prefix_cache :: "kv_manager \<Rightarrow> (bool \<times> kv_manager) res" where
  "kv_reset_prefix_cache k =
     (let (ok, p) = reset_prefix_cache (coord_pool (coordinator k));
          k' = k\<lparr>coordinator := (coordinator k)\<lparr>coord_pool := p\<rparr>\<rparr>
      in if \<not> ok then Inr (False, k')
         else if log_stats k then
           case kv_stats k of
             None \<Rightarrow> Inl AssertionError
           | Some s \<Rightarrow> Inr (True, k'\<lparr>kv_stats := Some (s\<lparr>stats_reset := True\<rparr>)\<rparr>)
         else Inr (True, k'))"

definition kv_get_num_common_prefix_blocks :: "string \<Rightarrow> kv_manager \<Rightarrow> int list \<times> kv_manager" where
  "kv_get_num_common_prefix_blocks rid k =
     (let (ns, c) = coord_get_num_common_prefix_blocks rid (coordinator k) in (ns, k\<lparr>coordinator := c\<rparr>))"

definition kv_take_events :: "kv_manager \<Rightarrow> kv_cache_event list \<times> kv_manager" where
  "kv_take_events k =
     (let (evs, p) = take_events (coord_pool (coordinator k)) in (evs, k\<lparr>coordinator := (coordinator k)\<lparr>coord_pool := p\<rparr>\<rparr>))"

definition kv_get_blocks :: "string \<Rightarrow> kv_manager \<Rightarrow> kv_cache_blocks" where
  "kv_get_blocks rid k = create_kv_cache_blocks (coord_get_blocks rid (coordinator k)) k"

definition kv_get_block_ids :: "string \<Rightarrow> kv_manager \<Rightarrow> int list list option" where
  "kv_get_block_ids rid k = get_block_ids False (coord_pool (coordinator k)) (kv_get_blocks rid k)"

definition kv_cache_blocks_op :: "(bytes \<Rightarrow> bytes) \<Rightarrow> request \<Rightarrow> int \<Rightarrow> kv_manager \<Rightarrow> (kv_manager \<times> request) res" where
  "kv_cache_blocks_op sha256 r num_computed k =
     (if kv_enable_caching k
      then rbind (coord_cache_blocks sha256 r num_computed (coordinator k)) (\<lambda>(c, r'). Inr (k\<lparr>coordinator := c\<rparr>, r'))
      else Inr (k, r))"

definition kv_take_new_block_ids :: "kv_manager \<Rightarrow> int list \<times> kv_manager" where
  "kv_take_new_block_ids k =
     (let rs = map take_new_block_ids (single_type_managers (coordinator k))
      in (concat (map fst rs), k\<lparr>coordinator := (coordinator k)\<lparr>single_type_managers := map snd rs\<rparr>\<rparr>))"


section \<open>Enough free blocks are enough\<close>

text \<open>What one manager asks for: in a plain call the missing slots, on admission also the free hits it revives.\<close>

lemma skipped_le:
  assumes "spec_ok spec" "0 \<le> tc" "tc \<le> int n * int bs" "0 < bs"
  shows "get_num_skipped_tokens spec tc div int bs \<le> int n"
proof -
  have "get_num_skipped_tokens spec tc \<le> int n * int bs" using skipped_bounds [OF assms(1,2)] assms(3) by linarith
  then have "get_num_skipped_tokens spec tc div int bs \<le> int n * int bs div int bs" using assms(4) by (intro zdiv_mono1) simp_all
  with assms(4) show ?thesis by simp
qed

lemma plain_need:
  assumes "i < length rows" "rows ! i = []" "m = single_type_managers c ! i" "0 < block_size m"
    and "is_cross (kv_cache_spec m) \<or> spec_ok (kv_cache_spec m) \<and> 0 \<le> tc \<and> tc \<le> int (length (req_blocks rid m)) * int (block_size m)"
  shows "blocks_needed_step rid ntok rows enc tc c i =
    (\<lambda>n. Inr (n + max 0 (slots_for ntok enc m - int (length (req_blocks rid m)))))"
proof -
  have ev: "get_num_evictable_blocks p [] = 0" for p by (simp add: get_num_evictable_blocks_def)
  show ?thesis
  proof (cases "is_cross (kv_cache_spec m)")
    case True
    then have "get_num_skipped_tokens (kv_cache_spec m) 0 = 0" by (cases "kv_cache_spec m") simp_all
    with True show ?thesis
      by (auto simp: blocks_needed_step_def slots_for_def get_num_blocks_to_allocate_def Let_def ev fun_eq_iff max.commute simp flip: assms(3))
  next
    case False
    with assms(5) have "get_num_skipped_tokens (kv_cache_spec m) tc div int (block_size m) \<le> int (length (req_blocks rid m))"
      using skipped_le assms(4) by blast
    with False assms(1,2) show ?thesis
      by (simp add: blocks_needed_step_def slots_for_def group_blocks_def get_num_blocks_to_allocate_def Let_def ev fun_eq_iff
            max.commute max_absorb2 max_absorb1 flip: assms(3))
  qed
qed

lemma admit_need:
  assumes "i < length rows" "m = single_type_managers c ! i" "0 < block_size m" "0 \<le> tc" "admissible rid nl (rows ! i) m (coord_pool c)"
  shows "blocks_needed_step rid ntok rows enc tc c i =
    (\<lambda>n. Inr (n + (revived tc (rows ! i) m (coord_pool c) + max 0 (slots_for ntok enc m - adopted rid tc (rows ! i) m))))"
proof (cases "is_cross (kv_cache_spec m)")
  case True
  then have "rows ! i = []" using assms(5) by (simp add: admissible_def)
  from plain_need [OF assms(1) this assms(2,3), of tc rid ntok enc] True show ?thesis by (simp add: revived_def adopted_def)
next
  case False
  then have a: "req_blocks rid m = []" "\<not> is_running rid m" "spec_ok (kv_cache_spec m)" using assms(5) by (simp_all add: admissible_def)
  have "0 \<le> get_num_skipped_tokens (kv_cache_spec m) tc div int (block_size m)"
    using skipped_bounds [OF a(3) assms(4)] assms(3) by (simp add: pos_imp_zdiv_nonneg_iff)
  then have sk: "get_num_skipped_tokens (kv_cache_spec m) tc div int (block_size m) = int (skipped_blocks tc m)" by (simp add: skipped_blocks_def)
  show ?thesis
    using False a(1,2) assms(1)
    by (simp add: blocks_needed_step_def slots_for_def group_blocks_def get_num_blocks_to_allocate_def Let_def fun_eq_iff
          revived_def adopted_def sk max.commute of_nat_max flip: assms(2))
qed

text \<open>
  After the check, adopting the hits leaves enough free blocks for the rest. \<open>missing\<close> is
  what \<^verbatim>\<open>allocate_new_blocks\<close> will take from the pool.
\<close>

definition missing :: "string \<Rightarrow> int \<Rightarrow> int \<Rightarrow> cache_manager \<Rightarrow> int" where
  "missing rid ntok enc m = max 0 (slots_for ntok enc m - int (length (req_blocks rid m)))"

lemma admit_then_missing:
  fixes nl ne :: int
  assumes inv: "coord_inv c" and rep: "pool_rep (coord_pool c) xs" and rows: "length rows = length (single_type_managers c)"
    and adm: "\<forall>i < length rows. admissible rid nl (rows ! i) (single_type_managers c ! i) (coord_pool c)"
    and disj: "rows_disjoint (null_block (coord_pool c)) rows" and ne: "0 \<le> ne" "ne = 0 \<or> length rows \<le> 1" and ntok: "nl + ne \<le> ntok"
    and fits: "(\<Sum>i < length rows. revived (nl + ne) (rows ! i) (single_type_managers c ! i) (coord_pool c) +
        max 0 (slots_for ntok enc (single_type_managers c ! i) - adopted rid (nl + ne) (rows ! i) (single_type_managers c ! i))) \<le> int (length xs)"
  shows "\<exists>ms p ys. coord_allocate_new_computed_blocks rid rows nl ne c = Inr (with_state ms p c) \<and> mgrs_inv ms p \<and> pool_rep p ys \<and>
    same_pool (coord_pool c) p \<and> length ms = length (single_type_managers c) \<and>
    (\<Sum>i < length ms. missing rid ntok enc (ms ! i)) \<le> int (length ys) \<and>
    (\<forall>i < length ms. same_static (single_type_managers c ! i) (ms ! i) \<and>
       (\<forall>r. r \<noteq> rid \<longrightarrow> req_blocks r (ms ! i) = req_blocks r (single_type_managers c ! i)))"
proof -
  let ?ms = "single_type_managers c" and ?p = "coord_pool c" and ?tc = "nl + ne"
  let ?ad = "\<lambda>i. adopted rid ?tc (rows ! i) (?ms ! i)" and ?rv = "\<lambda>i. revived ?tc (rows ! i) (?ms ! i) ?p"
  let ?sl = "\<lambda>i. slots_for ntok enc (?ms ! i)"
  have bs: "0 < int (block_size (?ms ! i))" if "i < length rows" for i
    using inv that rows mgr_invD(4) unfolding coord_inv_def mgrs_inv_def by (metis of_nat_0_less_iff)
  have slots: "cdiv ?tc (int (block_size (?ms ! i))) \<le> ?sl i" if "i < length rows" "\<not> is_cross (kv_cache_spec (?ms ! i))" for i
    using cdiv_mono [OF bs [OF that(1)] ntok] that(2) by (simp add: slots_for_def)
  have room: "ne = 0 \<or> (\<forall>i < length rows. is_cross (kv_cache_spec (?ms ! i)) \<or>
      cdiv ?tc (int (block_size (?ms ! i))) - ?ad i + ?rv i \<le> int (length xs))"
  proof (cases "ne = 0")
    case False
    then have one: "length rows \<le> 1" using ne(2) by simp
    have "cdiv ?tc (int (block_size (?ms ! i))) - ?ad i + ?rv i \<le> int (length xs)"
      if "i < length rows" "\<not> is_cross (kv_cache_spec (?ms ! i))" for i
    proof -
      have "length rows = 1" "i = 0" using one that(1) by auto
      then have "?rv i + max 0 (?sl i - ?ad i) \<le> int (length xs)" using fits by simp
      then show ?thesis using slots [OF that] by linarith
    qed
    then show ?thesis by blast
  qed simp
  from coord_admit_spec [OF inv rep rows adm disj ne room] obtain ms p ys where
    a: "coord_allocate_new_computed_blocks rid rows nl ne c = Inr (with_state ms p c)" "mgrs_inv ms p" "same_pool ?p p"
      "length ms = length ?ms" "pool_rep p ys"
      "int (length ys) = int (length xs) - (\<Sum>i < length ms. ?rv i + (int (length (req_blocks rid (ms ! i))) - ?ad i))"
      "\<forall>i < length ms. same_static (?ms ! i) (ms ! i) \<and> ?ad i \<le> int (length (req_blocks rid (ms ! i))) \<and>
       (is_cross (kv_cache_spec (ms ! i)) \<or> int (length (req_blocks rid (ms ! i))) \<le> max (?ad i) (cdiv ?tc (int (block_size (ms ! i))))) \<and>
       (is_cross (kv_cache_spec (ms ! i)) \<longrightarrow> length (req_blocks rid (ms ! i)) = length (req_blocks rid (?ms ! i))) \<and>
       (\<forall>r. r \<noteq> rid \<longrightarrow> req_blocks r (ms ! i) = req_blocks r (?ms ! i))" by blast
  have eq: "?rv i + max 0 (?sl i - ?ad i) = ?rv i + (int (length (req_blocks rid (ms ! i))) - ?ad i) + missing rid ntok enc (ms ! i)"
    if i: "i < length ms" for i
  proof -
    note ai = a(7) [rule_format, OF i]
    have st: "same_static (?ms ! i) (ms ! i)" using ai by simp
    then have s: "slots_for ntok enc (ms ! i) = ?sl i" by (simp add: slots_for_def same_static_def)
    have "?ad i \<le> int (length (req_blocks rid (ms ! i)))" using ai by simp
    moreover have "int (length (req_blocks rid (ms ! i))) \<le> max (?ad i) (?sl i)"
    proof (cases "is_cross (kv_cache_spec (?ms ! i))")
      case True
      then have "?ad i = int (length (req_blocks rid (ms ! i)))" using ai st by (simp add: adopted_def same_static_def)
      then show ?thesis by simp
    next
      case False
      with ai st have "int (length (req_blocks rid (ms ! i))) \<le> max (?ad i) (cdiv ?tc (int (block_size (?ms ! i))))"
        by (auto simp: same_static_def)
      with slots [of i] False i a(4) rows show ?thesis by simp
    qed
    ultimately show ?thesis unfolding missing_def s by linarith
  qed
  have "(\<Sum>i < length ms. ?rv i + max 0 (?sl i - ?ad i)) =
      (\<Sum>i < length ms. ?rv i + (int (length (req_blocks rid (ms ! i))) - ?ad i) + missing rid ntok enc (ms ! i))"
    by (rule sum.cong) (use eq in simp_all)
  then have "(\<Sum>i < length ms. missing rid ntok enc (ms ! i)) \<le> int (length ys)"
    using fits a(4,6) rows by (simp add: sum.distrib)
  then show ?thesis using a by blast
qed

text \<open>
  What the scheduler guarantees when it asks for slots: a plain call is for a request whose computed
  tokens have slots; otherwise the request is admitted with its cache hits (external tokens with
  one group only). To be cached, its tokens must be hashed.
\<close>

definition computed_have_slots :: "string \<Rightarrow> int \<Rightarrow> cache_manager \<Rightarrow> bool" where
  "computed_have_slots rid nl m \<longleftrightarrow> is_cross (kv_cache_spec m) \<or>
     spec_ok (kv_cache_spec m) \<and> nl \<le> int (length (req_blocks rid m)) * int (block_size m)"

definition slots_pre :: "request \<Rightarrow> int \<Rightarrow> int \<Rightarrow> kv_cache_blocks \<Rightarrow> int \<Rightarrow> int \<Rightarrow> bool \<Rightarrow> kv_manager \<Rightarrow> bool" where
  "slots_pre r num_new num_new_computed computed num_lookahead num_external delay_cache k \<longleftrightarrow>
     (let ms = single_type_managers (coordinator k); p = coord_pool (coordinator k); rows = kv_rows computed;
          nl = num_computed_tokens r + num_new_computed
      in 0 \<le> num_new \<and> 0 \<le> num_lookahead \<and> 0 \<le> num_external \<and> (num_new \<noteq> 0 \<or> num_external \<noteq> 0) \<and>
         0 \<le> nl \<and> nl + num_external + num_new \<le> max_model_len k \<and> length rows = length ms \<and>
         (if shared_empty computed \<and> num_external = 0
          then (\<forall>row \<in> set rows. row = []) \<and> (\<forall>m \<in> set ms. computed_have_slots (request_id r) nl m)
          else (\<forall>i < length ms. admissible (request_id r) nl (rows ! i) (ms ! i) p) \<and> rows_disjoint (null_block p) rows \<and>
            (num_external = 0 \<or> length ms \<le> 1)) \<and>
         (kv_enable_caching k \<and> \<not> delay_cache \<longrightarrow>
            enable_caching p \<and> 0 < hash_block_size p \<and> length (block_hashes r) = num_tokens r div hash_block_size p \<and>
            (\<forall>m \<in> set ms. \<not> is_cross (kv_cache_spec m) \<and> hash_block_size p dvd block_size m \<and>
               0 \<le> kv_cache_group_id m \<and> kv_cache_group_id m < 2 ^ 32)))"

text \<open>Both kinds of call, from the check to the new blocks.\<close>

definition same_managers :: "string \<Rightarrow> cache_manager list \<Rightarrow> cache_manager list \<Rightarrow> bool" where
  "same_managers rid ms ms' \<longleftrightarrow> length ms' = length ms \<and>
     (\<forall>i < length ms. same_static (ms ! i) (ms' ! i) \<and> (\<forall>r. r \<noteq> rid \<longrightarrow> req_blocks r (ms' ! i) = req_blocks r (ms ! i)))"

lemma same_managers_trans: "same_managers rid ms ms' \<Longrightarrow> same_managers rid ms' ms'' \<Longrightarrow> same_managers rid ms ms''"
  unfolding same_managers_def same_static_def by simp

lemma grant_slots:
  assumes inv: "coord_inv c" and rep: "pool_rep (coord_pool c) xs" and rows: "length rows = length (single_type_managers c)"
    and nl: "0 \<le> nl" and ne: "0 \<le> ne" and ntok: "nl + ne \<le> ntok"
    and pre: "if plain then ne = 0 \<and> (\<forall>row \<in> set rows. row = []) \<and> (\<forall>m \<in> set (single_type_managers c). computed_have_slots rid nl m)
        else (\<forall>i < length (single_type_managers c). admissible rid nl (rows ! i) (single_type_managers c ! i) (coord_pool c)) \<and>
          rows_disjoint (null_block (coord_pool c)) rows \<and> (ne = 0 \<or> length (single_type_managers c) \<le> 1)"
  shows "\<exists>n. coord_get_num_blocks_to_allocate rid ntok rows enc (nl + ne) c = Inr n \<and>
    (n \<le> int (length xs) \<longrightarrow> (\<exists>c2 new ms p ys.
      (if plain then Inr c else coord_allocate_new_computed_blocks rid rows nl ne c) = Inr c2 \<and>
      coord_allocate_new_blocks rid ntok enc c2 = Inr (new, with_state ms p c) \<and> mgrs_inv ms p \<and> pool_rep p ys \<and>
      same_pool (coord_pool c) p \<and> same_managers rid (single_type_managers c) ms \<and>
      (\<forall>m \<in> set ms. slots_for ntok enc m \<le> int (length (req_blocks rid m)))))"
proof -
  let ?ms = "single_type_managers c" and ?p = "coord_pool c"
  have bs: "0 < block_size (?ms ! i)" if "i < length ?ms" for i
    using inv that mgr_invD(4) unfolding coord_inv_def mgrs_inv_def by blast
  have alloc: "\<exists>new ms p ys. coord_allocate_new_blocks rid ntok enc (with_state ms1 p1 c) = Inr (new, with_state ms p c) \<and> mgrs_inv ms p \<and>
      pool_rep p ys \<and> same_pool ?p p \<and> same_managers rid ?ms ms \<and> (\<forall>m \<in> set ms. slots_for ntok enc m \<le> int (length (req_blocks rid m)))"
    if a: "mgrs_inv ms1 p1" "pool_rep p1 ys1" "same_pool ?p p1" "same_managers rid ?ms ms1"
      "(\<Sum>i < length ms1. missing rid ntok enc (ms1 ! i)) \<le> int (length ys1)" for ms1 p1 ys1
  proof -
    have "coord_inv (with_state ms1 p1 c)" "pool_rep (coord_pool (with_state ms1 p1 c)) ys1" using a(1,2) by simp_all
    from coord_allocate_new_blocks_spec [OF this, of ntok enc rid] a(5) obtain new ms p ys where
      b: "coord_allocate_new_blocks rid ntok enc (with_state ms1 p1 c) = Inr (new, with_state ms p c)" "mgrs_inv ms p" "pool_rep p ys"
        "same_pool p1 p" "length ms = length ms1"
        "\<forall>i < length ms. same_static (ms1 ! i) (ms ! i) \<and> slots_for ntok enc (ms ! i) \<le> int (length (req_blocks rid (ms ! i))) \<and>
           (\<forall>r. r \<noteq> rid \<longrightarrow> req_blocks r (ms ! i) = req_blocks r (ms1 ! i))"
      unfolding missing_def with_state_sel by blast
    have "same_managers rid ms1 ms" using b(5,6) by (simp add: same_managers_def)
    then have "same_managers rid ?ms ms" using same_managers_trans a(4) by blast
    moreover have "\<forall>m \<in> set ms. slots_for ntok enc m \<le> int (length (req_blocks rid m))" using b(6) by (auto simp: in_set_conv_nth)
    ultimately show ?thesis using b(1-3) same_pool_trans [OF a(3) b(4)] by blast
  qed
  have self: "c = with_state ?ms ?p c" by (simp add: with_state_def)
  show ?thesis
  proof (cases plain)
    case True
    then have pl: "ne = 0" "\<forall>row \<in> set rows. row = []" "\<forall>m \<in> set ?ms. computed_have_slots rid nl m" using pre by simp_all
    have "coord_get_num_blocks_to_allocate rid ntok rows enc (nl + ne) c = Inr (\<Sum>i < length ?ms. missing rid ntok enc (?ms ! i))"
    proof (rule blocks_needed_sum)
      fix i
      assume i: "i < length ?ms"
      with pl rows have "rows ! i = []" "computed_have_slots rid nl (?ms ! i)" by simp_all
      with plain_need [of i rows "?ms ! i" c "nl + ne" rid ntok enc] i rows bs [OF i] nl pl(1) show
        "blocks_needed_step rid ntok rows enc (nl + ne) c i = (\<lambda>n. Inr (n + missing rid ntok enc (?ms ! i)))"
        unfolding missing_def computed_have_slots_def by auto
    qed
    moreover have "same_managers rid ?ms ?ms" by (simp add: same_managers_def same_static_def)
    ultimately show ?thesis using alloc [of ?ms ?p xs] inv rep True by (simp add: coord_inv_def flip: self)
  next
    case False
    then have ad: "\<forall>i < length rows. admissible rid nl (rows ! i) (?ms ! i) ?p" "rows_disjoint (null_block ?p) rows" "ne = 0 \<or> length rows \<le> 1"
      using pre rows by simp_all
    let ?need = "\<lambda>i. revived (nl + ne) (rows ! i) (?ms ! i) ?p + max 0 (slots_for ntok enc (?ms ! i) - adopted rid (nl + ne) (rows ! i) (?ms ! i))"
    have "coord_get_num_blocks_to_allocate rid ntok rows enc (nl + ne) c = Inr (\<Sum>i < length ?ms. ?need i)"
      by (rule blocks_needed_sum, rule admit_need) (use rows bs nl ne ad(1) in auto)
    moreover have "\<exists>c2 new ms p ys. coord_allocate_new_computed_blocks rid rows nl ne c = Inr c2 \<and>
        coord_allocate_new_blocks rid ntok enc c2 = Inr (new, with_state ms p c) \<and> mgrs_inv ms p \<and> pool_rep p ys \<and>
        same_pool ?p p \<and> same_managers rid ?ms ms \<and> (\<forall>m \<in> set ms. slots_for ntok enc m \<le> int (length (req_blocks rid m)))"
      if fits: "(\<Sum>i < length ?ms. ?need i) \<le> int (length xs)"
    proof -
      from admit_then_missing [OF inv rep rows ad(1,2) ne ad(3) ntok, of enc, unfolded rows, OF fits] obtain ms1 p1 ys1 where
        m: "coord_allocate_new_computed_blocks rid rows nl ne c = Inr (with_state ms1 p1 c)" "mgrs_inv ms1 p1" "pool_rep p1 ys1"
          "same_pool ?p p1" "length ms1 = length ?ms" "(\<Sum>i < length ms1. missing rid ntok enc (ms1 ! i)) \<le> int (length ys1)"
          "\<forall>i < length ms1. same_static (?ms ! i) (ms1 ! i) \<and> (\<forall>r. r \<noteq> rid \<longrightarrow> req_blocks r (ms1 ! i) = req_blocks r (?ms ! i))"
        by blast
      have "same_managers rid ?ms ms1" using m(5,7) by (simp add: same_managers_def)
      from alloc [OF m(2-4) this m(6)] m(1) show ?thesis by blast
    qed
    ultimately show ?thesis using False by simp
  qed
qed

section \<open>Allocating slots\<close>

lemma removed_pre:
  assumes pre: "slots_pre r num_new nnc computed num_lookahead ne delay k"
    and ms: "length ms = length (single_type_managers (coordinator k))"
      "\<forall>i < length ms. same_static (single_type_managers (coordinator k) ! i) (ms ! i) \<and>
         num_cached_block (ms ! i) = num_cached_block (single_type_managers (coordinator k) ! i) \<and>
         length (req_blocks (request_id r) (ms ! i)) = length (req_blocks (request_id r) (single_type_managers (coordinator k) ! i))"
    and p: "same_pool (coord_pool (coordinator k)) p" "hashes p = hashes (coord_pool (coordinator k))"
  shows "slots_pre r num_new nnc computed num_lookahead ne delay (k\<lparr>coordinator := with_state ms p (coordinator k)\<rparr>)"
proof -
  let ?ms = "single_type_managers (coordinator k)" and ?p = "coord_pool (coordinator k)" and ?rid = "request_id r"
  have st: "null_block p = null_block ?p" "enable_caching p = enable_caching ?p" "hash_block_size p = hash_block_size ?p"
    using p(1) by (auto simp: same_pool_def)
  have static: "kv_cache_spec (ms ! i) = kv_cache_spec (?ms ! i)" "block_size (ms ! i) = block_size (?ms ! i)"
    "mgr_enable_caching (ms ! i) = mgr_enable_caching (?ms ! i)" "kv_cache_group_id (ms ! i) = kv_cache_group_id (?ms ! i)"
    "length (req_blocks ?rid (ms ! i)) = length (req_blocks ?rid (?ms ! i))" "is_running ?rid (ms ! i) = is_running ?rid (?ms ! i)"
    if "i < length ?ms" for i
    using ms that by (auto simp: same_static_def is_running_def)
  have all: "(\<forall>m \<in> set ms. P m) = (\<forall>i < length ?ms. P (ms ! i))" "(\<forall>m \<in> set ?ms. P m) = (\<forall>i < length ?ms. P (?ms ! i))" for P
    using ms(1) by (auto simp: all_set_conv_all_nth)
  have slots: "computed_have_slots ?rid nl (ms ! i) = computed_have_slots ?rid nl (?ms ! i)" if "i < length ?ms" for i nl
    using static [OF that] by (simp add: computed_have_slots_def)
  have adm: "admissible ?rid nl row (ms ! i) p = admissible ?rid nl row (?ms ! i) ?p" if "i < length ?ms" for i nl row
    using static [OF that] hits_ok_cong [OF p(2,1), of row] by (simp add: admissible_def flip: length_0_conv)
  define plain where "plain \<longleftrightarrow> shared_empty computed \<and> ne = 0"
  show ?thesis
    using pre ms(1) unfolding slots_pre_def Let_def plain_def [symmetric]
    by (cases plain) (simp_all add: all slots adm static st)
qed

lemma allocate_slots_spec:
  assumes inv: "coord_inv (coordinator k)"
    and computed: "computed = (case new_computed of Some b \<Rightarrow> b | None \<Rightarrow> empty_kv_cache_blocks k)"
    and pre: "slots_pre r num_new nnc computed num_lookahead ne delay k"
    and need: "need = min (num_computed_tokens r + nnc + ne + num_new + num_lookahead) (max_model_len k)"
  shows "\<exists>out k' r'. allocate_slots sha256 r num_new nnc new_computed num_lookahead ne delay enc k = Inr (out, k', r') \<and>
    coord_inv (coordinator k') \<and>
    same_managers (request_id r) (single_type_managers (coordinator k)) (single_type_managers (coordinator k')) \<and>
    (case out of
       None \<Rightarrow> \<exists>n. coord_get_num_blocks_to_allocate (request_id r) need (kv_rows computed) enc
                 (num_computed_tokens r + nnc + ne) (coordinator k') = Inr n \<and> get_num_free_blocks (coord_pool (coordinator k')) < n
     | Some _ \<Rightarrow> \<forall>m \<in> set (single_type_managers (coordinator k')). slots_for need enc m \<le> int (length (req_blocks (request_id r) m))) \<and>
    (\<exists>memo. r' = r\<lparr>prompt_embeds_per_block_hashes := memo\<rparr>) \<and> k' = k\<lparr>coordinator := coordinator k'\<rparr> \<and>
    same_pool (coord_pool (coordinator k)) (coord_pool (coordinator k')) \<and>
    (out = None \<longrightarrow> slots_pre r num_new nnc computed num_lookahead ne delay k')"
proof -
  let ?c = "coordinator k" and ?rid = "request_id r" and ?nl = "num_computed_tokens r + nnc"
  let ?ms = "single_type_managers ?c"
  define plain where "plain \<longleftrightarrow> shared_empty computed \<and> ne = 0"
  have plain_ne: "plain \<longrightarrow> ne = 0" by (simp add: plain_def)
  have basic: "0 \<le> num_new" "0 \<le> num_lookahead" "0 \<le> ne" "\<not> (num_new = 0 \<and> ne = 0)" "0 \<le> ?nl" "?nl + ne + num_new \<le> max_model_len k"
    "length (kv_rows computed) = length ?ms" using pre by (auto simp: slots_pre_def Let_def)
  have tc: "min (?nl + ne) (max_model_len k) = ?nl + ne" using basic by simp
  have ntok: "?nl + ne \<le> need" using basic by (simp add: need)
  from inv obtain xs where rep: "pool_rep (coord_pool ?c) xs" by (auto simp: coord_inv_def mgrs_inv_def pool_inv_def)
  from coord_remove_skipped_spec [OF inv rep, of ?rid "?nl + ne"] obtain ms1 p1 freed where
    rm: "coord_remove_skipped_blocks ?rid (?nl + ne) ?c = Inr (with_state ms1 p1 ?c)" "mgrs_inv ms1 p1" "pool_rep p1 (xs @ freed)"
      "same_pool (coord_pool ?c) p1" "hashes p1 = hashes (coord_pool ?c)" "length ms1 = length ?ms"
      "\<forall>i < length ms1. same_static (?ms ! i) (ms1 ! i) \<and> num_cached_block (ms1 ! i) = num_cached_block (?ms ! i) \<and>
         length (req_blocks ?rid (ms1 ! i)) = length (req_blocks ?rid (?ms ! i)) \<and>
         (\<forall>r. r \<noteq> ?rid \<longrightarrow> req_blocks r (ms1 ! i) = req_blocks r (?ms ! i))" by blast
  let ?c1 = "with_state ms1 p1 ?c" and ?k1 = "k\<lparr>coordinator := with_state ms1 p1 ?c\<rparr>"
  have same1: "same_managers ?rid ?ms ms1" using rm(6,7) by (simp add: same_managers_def)
  have pre1: "slots_pre r num_new nnc computed num_lookahead ne delay ?k1"
    by (rule removed_pre [OF pre rm(6) _ rm(4,5)]) (use rm(7) in simp)
  have c1: "coord_inv ?c1" "pool_rep (coord_pool ?c1) (xs @ freed)" using rm(2,3) by simp_all
  have pl: "if plain then ne = 0 \<and> (\<forall>row \<in> set (kv_rows computed). row = []) \<and> (\<forall>m \<in> set (single_type_managers ?c1). computed_have_slots ?rid ?nl m)
        else (\<forall>i < length (single_type_managers ?c1). admissible ?rid ?nl (kv_rows computed ! i) (single_type_managers ?c1 ! i) (coord_pool ?c1)) \<and>
          rows_disjoint (null_block (coord_pool ?c1)) (kv_rows computed) \<and> (ne = 0 \<or> length (single_type_managers ?c1) \<le> 1)"
    using pre1 plain_ne unfolding slots_pre_def Let_def plain_def [symmetric] by (cases plain) simp_all
  have len1: "length (kv_rows computed) = length (single_type_managers ?c1)" using basic(7) rm(6) by simp
  from grant_slots [OF c1 len1 basic(5,3) ntok pl, of enc, unfolded with_state_sel] obtain n where
    n: "coord_get_num_blocks_to_allocate ?rid need (kv_rows computed) enc (?nl + ne) ?c1 = Inr n"
    and grant: "n \<le> int (length (xs @ freed)) \<Longrightarrow> \<exists>c2 new ms p ys.
      (if plain then Inr ?c1 else coord_allocate_new_computed_blocks ?rid (kv_rows computed) ?nl ne ?c1) = Inr c2 \<and>
      coord_allocate_new_blocks ?rid need enc c2 = Inr (new, with_state ms p ?c) \<and> mgrs_inv ms p \<and> pool_rep p ys \<and>
      same_pool p1 p \<and> same_managers ?rid ms1 ms \<and> (\<forall>m \<in> set ms. slots_for need enc m \<le> int (length (req_blocks ?rid m)))"
    by blast
  have free: "get_num_free_blocks p1 = int (length (xs @ freed))" using pool_repD(7) [OF rm(3)] .
  define run where "run = allocate_slots sha256 r num_new nnc new_computed num_lookahead ne delay enc k"
  have cond: "(\<not> shared_empty computed \<or> 0 < ne) = (\<not> plain)" using basic(3) by (auto simp: plain_def)
  have unfold: "run = (if int (length (xs @ freed)) < n then Inr (None, ?k1, r) else
      rbind (if plain then Inr ?c1 else coord_allocate_new_computed_blocks ?rid (kv_rows computed) ?nl ne ?c1) (\<lambda>c2.
      rbind (coord_allocate_new_blocks ?rid need enc c2) (\<lambda>(new, c3).
        if \<not> kv_enable_caching k \<or> delay then Inr (Some (create_kv_cache_blocks new k), k\<lparr>coordinator := c3\<rparr>, r)
        else rbind (coord_cache_blocks sha256 r (min (?nl + ne + num_new) (int (num_tokens r))) c3) (\<lambda>(c4, r').
          Inr (Some (create_kv_cache_blocks new k), k\<lparr>coordinator := c4\<rparr>, r')))))"
    unfolding run_def allocate_slots_def computed [symmetric] Let_def tc if_not_P [OF basic(4)] cond need [symmetric] rm(1) rbind_Inr n
      with_state_sel free by simp
  show ?thesis
  proof (cases "int (length (xs @ freed)) < n")
    case True
    then have "run = Inr (None, ?k1, r)" unfolding unfold by simp
    then show ?thesis unfolding run_def [symmetric] using True n free rm(2,4) same1 pre1 memo_id [of r]
      by (intro exI [of _ None] exI [of _ ?k1] exI [of _ r]) simp
  next
    case False
    then obtain c2 new ms p ys where
      g: "(if plain then Inr ?c1 else coord_allocate_new_computed_blocks ?rid (kv_rows computed) ?nl ne ?c1) = Inr c2"
        "coord_allocate_new_blocks ?rid need enc c2 = Inr (new, with_state ms p ?c)" "mgrs_inv ms p" "pool_rep p ys"
        "same_pool p1 p" "same_managers ?rid ms1 ms" "\<forall>m \<in> set ms. slots_for need enc m \<le> int (length (req_blocks ?rid m))"
      using grant by (meson not_le)
    let ?c3 = "with_state ms p ?c" and ?b = "create_kv_cache_blocks new k"
    have same: "same_managers ?rid ?ms ms" using same_managers_trans [OF same1 g(6)] .
    have pool3: "same_pool (coord_pool ?c) p" using same_pool_trans [OF rm(4) g(5)] .
    show ?thesis
    proof (cases "\<not> kv_enable_caching k \<or> delay")
      case True
      then have "run = Inr (Some ?b, k\<lparr>coordinator := ?c3\<rparr>, r)" using False g(1,2) unfolding unfold by simp
      then show ?thesis unfolding run_def [symmetric] using g(3,7) same pool3 memo_id [of r]
        by (intro exI [of _ "Some ?b"] exI [of _ "k\<lparr>coordinator := ?c3\<rparr>"] exI [of _ r]) simp
    next
      case caching: False
      let ?nt = "min (?nl + ne + num_new) (int (num_tokens r))"
      have "\<exists>ms4 p4 memo. coord_cache_blocks sha256 r ?nt ?c3 = Inr (with_state ms4 p4 ?c3, r\<lparr>prompt_embeds_per_block_hashes := memo\<rparr>) \<and>
        mgrs_inv ms4 p4 \<and> pool_rep p4 ys \<and> same_pool (coord_pool ?c3) p4 \<and> length ms4 = length (single_type_managers ?c3) \<and>
        (\<forall>i < length ms4. same_static (single_type_managers ?c3 ! i) (ms4 ! i) \<and>
           (\<forall>rid. req_blocks rid (ms4 ! i) = req_blocks rid (single_type_managers ?c3 ! i)))"
      proof (rule coord_cache_blocks_spec)
        show "coord_inv ?c3" "pool_rep (coord_pool ?c3) ys" using g(3,4) by simp_all
        have st: "enable_caching p = enable_caching p1" "hash_block_size p = hash_block_size p1" using g(5) by (auto simp: same_pool_def)
        have c: "enable_caching p1" "0 < hash_block_size p1" "length (block_hashes r) = num_tokens r div hash_block_size p1"
          "\<forall>m \<in> set ms1. \<not> is_cross (kv_cache_spec m) \<and> hash_block_size p1 dvd block_size m \<and> 0 \<le> kv_cache_group_id m \<and> kv_cache_group_id m < 2 ^ 32"
          using pre1 caching unfolding slots_pre_def Let_def by simp_all
        show "enable_caching (coord_pool ?c3)" "0 < hash_block_size (coord_pool ?c3)"
          "length (block_hashes r) = num_tokens r div hash_block_size (coord_pool ?c3)" using c st by simp_all
        show "?nt \<le> int (num_tokens r)" by simp
        have "cacheable ?nt r (ms ! i) p" if i: "i < length ms" for i
        proof -
          have "same_static (ms1 ! i) (ms ! i)" "length ms = length ms1" using g(6) i by (auto simp: same_managers_def)
          then have m: "\<not> is_cross (kv_cache_spec (ms ! i))" "hash_block_size p dvd block_size (ms ! i)" "0 \<le> kv_cache_group_id (ms ! i)"
            "kv_cache_group_id (ms ! i) < 2 ^ 32" using c(4) i st by (auto simp: same_static_def)
          have bs: "0 < block_size (ms ! i)" using g(3) i mgr_invD(4) unfolding mgrs_inv_def by blast
          have "?nt \<le> need" using basic unfolding need by linarith
          then have "?nt div int (block_size (ms ! i)) \<le> cdiv need (int (block_size (ms ! i)))" using bs by (intro div_le_cdiv) simp_all
          moreover have "cdiv need (int (block_size (ms ! i))) \<le> int (length (req_blocks ?rid (ms ! i)))"
            using bspec [OF g(7) nth_mem [OF i]] m(1) by (simp add: slots_for_def)
          ultimately show ?thesis using m by (simp add: cacheable_def)
        qed
        then show "\<forall>m \<in> set (single_type_managers ?c3). cacheable ?nt r m (coord_pool ?c3)" by (simp add: all_set_conv_all_nth)
      qed
      then obtain ms4 p4 memo where
        h: "coord_cache_blocks sha256 r ?nt ?c3 = Inr (with_state ms4 p4 ?c, r\<lparr>prompt_embeds_per_block_hashes := memo\<rparr>)"
          "mgrs_inv ms4 p4" "same_pool p p4" "length ms4 = length ms"
          "\<forall>i < length ms4. same_static (ms ! i) (ms4 ! i) \<and> (\<forall>rid. req_blocks rid (ms4 ! i) = req_blocks rid (ms ! i))"
        unfolding with_state_sel by blast
      let ?k4 = "k\<lparr>coordinator := with_state ms4 p4 ?c\<rparr>" and ?r4 = "r\<lparr>prompt_embeds_per_block_hashes := memo\<rparr>"
      have run: "run = Inr (Some ?b, ?k4, ?r4)" using False caching g(1,2) h(1) unfolding unfold by simp
      have "same_managers ?rid ms ms4" using h(4,5) by (simp add: same_managers_def)
      then have same4: "same_managers ?rid ?ms ms4" using same_managers_trans [OF same] by blast
      have "slots_for need enc m \<le> int (length (req_blocks ?rid m))" if "m \<in> set ms4" for m
      proof -
        from that obtain i where i: "i < length ms4" "m = ms4 ! i" by (auto simp: in_set_conv_nth)
        then have "slots_for need enc m = slots_for need enc (ms ! i)" "req_blocks ?rid m = req_blocks ?rid (ms ! i)"
          using h(5) by (auto simp: slots_for_def same_static_def)
        then show ?thesis using g(7) i(1) h(4) by simp
      qed
      then show ?thesis unfolding run_def [symmetric] using run h(2) same4 same_pool_trans [OF pool3 h(3)]
        by (intro exI [of _ "Some ?b"] exI [of _ ?k4] exI [of _ ?r4]) (simp, blast)
    qed
  qed
qed

section \<open>Reachable states\<close>

text \<open>Operations that only drop hashes, or only touch what the invariant does not read.\<close>

lemma mgrs_inv_unhash:
  assumes inv: "mgrs_inv ms p" and rep: "pool_rep p' xs" and same: "same_pool p p'" and refs: "refs p' = refs p"
    and hash: "\<And>b. b \<in> set (blocks p) \<Longrightarrow> hashes p' b = hashes p b \<or> hashes p' b = None"
  shows "mgrs_inv ms p'"
proof -
  have st: "blocks p' = blocks p" "null_block p' = null_block p" "enable_caching p' = enable_caching p"
    using same by (auto simp: same_pool_def)
  have "mgr_inv (others ms i) (ms ! i) p'" if i: "i < length ms" for i
  proof -
    from inv i have m: "mgr_inv (others ms i) (ms ! i) p" by (simp add: mgrs_inv_def)
    note I = mgr_invD [OF m]
    have "tails_ok (ms ! i) p'"
      unfolding tails_ok_def st refs
    proof (intro allI impI)
      fix rid j
      assume j: "ncached rid (ms ! i) \<le> j" "j < length (req_blocks rid (ms ! i))" "req_blocks rid (ms ! i) ! j \<noteq> null_block p"
      then have "req_blocks rid (ms ! i) ! j \<in> set (blocks p)" using I(6) [of rid] by auto
      with j I(9) hash show "hashes p' (req_blocks rid (ms ! i) ! j) = None \<and> refs p (req_blocks rid (ms ! i) ! j) = 1"
        unfolding tails_ok_def by metis
    qed
    moreover have "uncached_ok p'" using I(10) hash unfolding uncached_ok_def st by metis
    moreover have "tables_ok (ms ! i) p'" using I(2-7) unfolding tables_ok_def st by simp
    moreover have "counts_ok (others ms i) (ms ! i) p'" using I(8) unfolding counts_ok_def st refs by simp
    ultimately show ?thesis using rep by (auto simp: mgr_inv_def pool_inv_def)
  qed
  with rep show ?thesis by (auto simp: mgrs_inv_def pool_inv_def)
qed

lemma mgrs_inv_map:
  assumes "mgrs_inv ms p" "\<And>ext m. mgr_inv ext m p \<Longrightarrow> mgr_inv ext (f m) p \<and> owned (f m) = owned m"
  shows "mgrs_inv (map f ms) p"
proof -
  have own: "owned (f (ms ! i)) = owned (ms ! i)" if "i < length ms" for i using assms that by (auto simp: mgrs_inv_def)
  have "others (map f ms) i = others ms i" if "i < length ms" for i
    unfolding others_def fun_eq_iff length_map by (intro allI sum.cong) (auto simp: own)
  with assms show ?thesis by (simp add: mgrs_inv_def)
qed

lemma evict_unhash:
  assumes "pool_rep p xs" "evict_blocks ids p = Inr p'"
  shows "pool_rep p' xs \<and> same_pool p p' \<and> refs p' = refs p \<and> (\<forall>b. hashes p' b = hashes p b \<or> hashes p' b = None)"
proof (rule fold_res_inv [where I = "\<lambda>q. pool_rep q xs \<and> same_pool p q \<and> refs q = refs p \<and> (\<forall>b. hashes q b = hashes p b \<or> hashes q b = None)"])
  show "fold_res evict_step ids p = Inr p'" using assms(2) by (simp add: evict_blocks_def)
  fix i q q'
  assume q: "pool_rep q xs \<and> same_pool p q \<and> refs q = refs p \<and> (\<forall>b. hashes q b = hashes p b \<or> hashes q b = None)"
    and step: "evict_step i q = Inr q'"
  let ?k = "nat (if i < 0 then i + int (length (blocks q)) else i)"
  have k: "?k < length (blocks q)" "q' = snd (maybe_evict_cached_block (blocks q ! ?k) q)"
    using step by (auto simp: evict_step_def Let_def split: if_splits)
  from evict_keeps [OF _ nth_mem [OF k(1)], of xs] q k(2) have "pool_rep q' xs" "same_pool q q'" "refs q' = refs q"
    "hashes q' = (hashes q)(blocks q ! ?k := None)" by auto
  then show "pool_rep q' xs \<and> same_pool p q' \<and> refs q' = refs p \<and> (\<forall>b. hashes q' b = hashes p b \<or> hashes q' b = None)"
    using q same_pool_trans by auto
qed (use assms(1) in simp)

inductive kv_step :: "(bytes \<Rightarrow> bytes) \<Rightarrow> kv_manager \<Rightarrow> kv_manager \<Rightarrow> bool" for sha256 where
  kv_lookup: "get_computed_blocks r k = Some (Inr (b, n, k')) \<Longrightarrow> kv_step sha256 k k'"
| kv_slots: "slots_pre r num_new nnc (case new_computed of Some b \<Rightarrow> b | None \<Rightarrow> empty_kv_cache_blocks k) num_lookahead ne delay k \<Longrightarrow>
    allocate_slots sha256 r num_new nnc new_computed num_lookahead ne delay enc k = Inr (out, k', r') \<Longrightarrow> kv_step sha256 k k'"
| kv_freed: "kv_free r k = Inr k' \<Longrightarrow> kv_step sha256 k k'"
| kv_skipped: "kv_remove_skipped_blocks rid total_computed k = Inr k' \<Longrightarrow> kv_step sha256 k k'"
| kv_evicted: "kv_evict_blocks ids k = Inr k' \<Longrightarrow> kv_step sha256 k k'"
| kv_reset: "kv_reset_prefix_cache k = Inr (ok, k') \<Longrightarrow> kv_step sha256 k k'"
| kv_common: "kv_get_num_common_prefix_blocks rid k = (ns, k') \<Longrightarrow> kv_step sha256 k k'"
| kv_events: "kv_take_events k = (evs, k') \<Longrightarrow> kv_step sha256 k k'"
| kv_new_ids: "kv_take_new_block_ids k = (ids, k') \<Longrightarrow> kv_step sha256 k k'"
| kv_stats: "make_prefix_cache_stats k = (st, k') \<Longrightarrow> kv_step sha256 k k'"

inductive_cases kv_stepE: "kv_step sha256 k k'"

lemma lookup_keeps: "get_computed_blocks r k = Some (Inr (b, n, k')) \<Longrightarrow> coordinator k' = coordinator k"
  by (auto simp: get_computed_blocks_def split: if_splits option.splits sum.splits prod.splits)

lemma new_ids_keeps: "mgr_inv ext m p \<Longrightarrow> mgr_inv ext (snd (take_new_block_ids m)) p \<and> owned (snd (take_new_block_ids m)) = owned m"
  using mgr_invD(2,3) [of ext m p]
  by (auto simp: take_new_block_ids_def owned_def req_blocks_def ncached_def fun_eq_iff intro!: mgr_inv_cong [of ext m p])

lemma common_prefix_keeps:
  assumes "mgr_inv ext m p"
  shows "mgr_inv ext (snd (get_num_common_prefix_blocks rid m q)) p \<and> owned (snd (get_num_common_prefix_blocks rid m q)) = owned m"
  using ensure_req_inv [OF assms, of rid] assms mgr_invD(2) [OF assms]
  by (auto simp: get_num_common_prefix_blocks_def Let_def split: kv_cache_spec.splits)

lemma kv_step_inv:
  assumes step: "kv_step sha256 k k'" and inv: "coord_inv (coordinator k)"
  shows "coord_inv (coordinator k')"
proof -
  from inv obtain xs where rep: "pool_rep (coord_pool (coordinator k)) xs" by (auto simp: coord_inv_def mgrs_inv_def pool_inv_def)
  note invm = inv [unfolded coord_inv_def]
  show ?thesis
    using step
  proof cases
    case (kv_lookup r b n)
    with lookup_keeps inv show ?thesis by simp
  next
    case (kv_slots r num_new nnc new_computed num_lookahead ne delay enc out r')
    from allocate_slots_spec [OF inv refl kv_slots(1) refl, of sha256 enc] kv_slots(2) show ?thesis by auto
  next
    case (kv_freed r)
    with coord_free_spec [OF inv rep, of "request_id r"] show ?thesis by (auto simp: kv_free_def)
  next
    case (kv_skipped rid tc)
    with coord_remove_skipped_spec [OF inv rep, of rid tc] show ?thesis by (auto simp: kv_remove_skipped_blocks_def)
  next
    case (kv_evicted ids)
    then obtain p' where p': "evict_blocks ids (coord_pool (coordinator k)) = Inr p'" "k' = k\<lparr>coordinator := (coordinator k)\<lparr>coord_pool := p'\<rparr>\<rparr>"
      by (auto simp: kv_evict_blocks_def rbind_eq_Inr)
    note e = evict_unhash [OF rep p'(1)]
    have "mgrs_inv (single_type_managers (coordinator k)) p'" by (rule mgrs_inv_unhash [OF invm]) (use e in auto)
    with p'(2) show ?thesis by (simp add: coord_inv_def)
  next
    case (kv_reset ok)
    obtain ok' p' where p': "reset_prefix_cache (coord_pool (coordinator k)) = (ok', p')" by fastforce
    with kv_reset have k': "coordinator k' = (coordinator k)\<lparr>coord_pool := p'\<rparr>"
      by (auto simp: kv_reset_prefix_cache_def Let_def split: if_splits option.splits)
    note r = reset_prefix_cache_spec [OF rep p']
    have "mgrs_inv (single_type_managers (coordinator k)) p'"
      by (rule mgrs_inv_unhash [OF invm]) (use r in \<open>auto split: if_splits\<close>)
    with k' show ?thesis by (simp add: coord_inv_def)
  next
    case (kv_common rid ns)
    let ?f = "\<lambda>m. snd (get_num_common_prefix_blocks rid m (coord_pool (coordinator k)))"
    have "mgrs_inv (map ?f (single_type_managers (coordinator k))) (coord_pool (coordinator k))"
      by (rule mgrs_inv_map [OF invm]) (use common_prefix_keeps in blast)
    moreover have "coordinator k' = coordinator k \<or>
      coordinator k' = (coordinator k)\<lparr>single_type_managers := map ?f (single_type_managers (coordinator k))\<rparr>"
      using kv_common by (auto simp: kv_get_num_common_prefix_blocks_def coord_get_num_common_prefix_blocks_def Let_def comp_def split: if_splits)
    ultimately show ?thesis using inv by (auto simp: coord_inv_def)
  next
    case (kv_events evs)
    obtain p' where p': "take_events (coord_pool (coordinator k)) = (evs, p')" "coordinator k' = (coordinator k)\<lparr>coord_pool := p'\<rparr>"
      using kv_events by (auto simp: kv_take_events_def split: prod.splits)
    have "\<exists>q. p' = (coord_pool (coordinator k))\<lparr>kv_event_queue := q\<rparr>"
      using p'(1) by (auto simp: take_events_def split: if_splits intro: exI [of _ "kv_event_queue (coord_pool (coordinator k))"])
    then obtain q where q: "p' = (coord_pool (coordinator k))\<lparr>kv_event_queue := q\<rparr>" by blast
    have "mgrs_inv (single_type_managers (coordinator k)) p'"
      by (rule mgrs_inv_unhash [OF invm]) (use rep q in \<open>auto simp: same_pool_def refs_def hashes_def\<close>)
    with p'(2) show ?thesis by (simp add: coord_inv_def)
  next
    case (kv_new_ids ids)
    have "mgrs_inv (map (\<lambda>m. snd (take_new_block_ids m)) (single_type_managers (coordinator k))) (coord_pool (coordinator k))"
      by (rule mgrs_inv_map [OF invm]) (use new_ids_keeps in blast)
    with kv_new_ids show ?thesis by (auto simp: kv_take_new_block_ids_def Let_def comp_def coord_inv_def)
  next
    case (kv_stats st)
    with inv show ?thesis by (auto simp: make_prefix_cache_stats_def split: if_splits)
  qed
qed

lemma kv_reach_inv:
  assumes "(kv_step sha256)\<^sup>*\<^sup>* k0 k" "coord_inv (coordinator k0)"
  shows "coord_inv (coordinator k)"
  using assms by (induction rule: rtranclp_induct) (auto intro: kv_step_inv)

lemma fresh_manager [simp]:
  "req_blocks rid (SingleTypeKVCacheManager spec p caching gid dcp pcp) = []"
  "ncached rid (SingleTypeKVCacheManager spec p caching gid dcp pcp) = 0"
  "owned (SingleTypeKVCacheManager spec p caching gid dcp pcp) = (\<lambda>b. 0)"
  by (simp_all add: SingleTypeKVCacheManager_def req_blocks_def ncached_def owned_def dict_val_def dict_sum_def fun_eq_iff)

lemma KVCacheCoordinator_inv:
  assumes "KVCacheCoordinator cls config use_eagle caching events dcp pcp hbs use_int = Inr c" "0 < dcp" "0 < pcp"
    "\<forall>(spec, _) \<in> set (kv_cache_groups config). 0 < spec_block_size spec"
  shows "coord_inv c"
proof -
  from assms(1) obtain p where p: "BlockPool (num_blocks config) caching hbs events use_int = Inr p"
    "coord_pool c = p" "single_type_managers c = map (\<lambda>(i, (spec, _)). SingleTypeKVCacheManager spec p caching (int i) dcp pcp)
              (enumerate 0 (kv_cache_groups config))"
    by (auto simp: KVCacheCoordinator_def rbind_eq_Inr)
  have "0 < num_blocks config" using p(1) by (auto simp: BlockPool_def split: if_splits)
  from BlockPool_spec [OF this, of caching hbs events use_int] p(1) obtain xs where
    rep: "pool_rep p xs" "\<forall>b \<in> set (blocks p). refs p b = 0 \<and> hashes p b = None" by auto
  let ?ms = "single_type_managers c"
  have fresh: "\<exists>spec gid. ?ms ! i = SingleTypeKVCacheManager spec p caching gid dcp pcp \<and> 0 < spec_block_size spec" if "i < length ?ms" for i
    using that assms(4) unfolding p(3) by (force simp: nth_enumerate_eq split: prod.splits dest: nth_mem)
  have "others ?ms i = (\<lambda>b. 0)" for i
    unfolding others_def fun_eq_iff using fresh by (intro allI sum.neutral) (metis DiffD1 fresh_manager(3) lessThan_iff)
  moreover have "mgr_inv (\<lambda>b. 0) (?ms ! i) p" if i: "i < length ?ms" for i
  proof -
    from fresh [OF i] obtain spec gid where m: "?ms ! i = SingleTypeKVCacheManager spec p caching gid dcp pcp" "0 < spec_block_size spec" by blast
    have "tables_ok (?ms ! i) p" unfolding m(1) tables_ok_def
      using m(2) assms(2,3) by (simp add: SingleTypeKVCacheManager_def req_blocks_def dict_val_def)
    moreover have "counts_ok (\<lambda>b. 0) (?ms ! i) p" "tails_ok (?ms ! i) p" unfolding m(1) counts_ok_def tails_ok_def using rep(2) by simp_all
    moreover have "uncached_ok p" using rep(2) by (simp add: uncached_ok_def)
    ultimately show ?thesis using rep(1) by (auto simp: mgr_inv_def pool_inv_def)
  qed
  ultimately show ?thesis using rep(1) p(2) by (auto simp: coord_inv_def mgrs_inv_def pool_inv_def)
qed

lemma unitary_base:
  assumes "UnitaryKVCacheCoordinator config use_eagle caching events dcp pcp hbs use_int = Inr c"
  shows "\<exists>c0. KVCacheCoordinator UnitaryCoordinator config use_eagle caching events dcp pcp hbs use_int = Inr c0 \<and>
    single_type_managers c = single_type_managers c0 \<and> coord_pool c = coord_pool c0"
proof -
  from assms obtain c0 where c0: "KVCacheCoordinator UnitaryCoordinator config use_eagle caching events dcp pcp hbs use_int = Inr c0"
    by (auto simp: UnitaryKVCacheCoordinator_def rbind_eq_Inr)
  with assms show ?thesis
    by (cases "kv_cache_groups config") (auto simp: UnitaryKVCacheCoordinator_def Let_def split: if_splits)
qed

lemma KVCacheManager_inv:
  assumes "KVCacheManager config max_len hbs caching use_eagle logs events dcp pcp use_int = Inr k" "0 < dcp" "0 < pcp"
    "\<forall>(spec, _) \<in> set (kv_cache_groups config). 0 < spec_block_size spec"
  shows "coord_inv (coordinator k)"
proof -
  from assms(1) obtain c where c: "get_kv_cache_coordinator config use_eagle caching events dcp pcp hbs use_int = Inr c" "coordinator k = c"
    by (auto simp: KVCacheManager_def rbind_eq_Inr)
  have "\<exists>cls caching' c0. KVCacheCoordinator cls config use_eagle caching' events dcp pcp hbs use_int = Inr c0 \<and>
    single_type_managers c = single_type_managers c0 \<and> coord_pool c = coord_pool c0"
  proof (cases "caching \<and> length (kv_cache_groups config) \<noteq> 1")
    case True
    with c(1) have "HybridKVCacheCoordinator config use_eagle caching events dcp pcp hbs use_int = Inr c"
      by (simp add: get_kv_cache_coordinator_def)
    then obtain c0 where "KVCacheCoordinator HybridCoordinator config use_eagle caching events dcp pcp hbs use_int = Inr c0"
      "single_type_managers c = single_type_managers c0" "coord_pool c = coord_pool c0"
      by (auto simp: HybridKVCacheCoordinator_def rbind_eq_Inr split: if_splits)
    then show ?thesis by blast
  next
    case False
    with c(1) show ?thesis using unitary_base [of config use_eagle caching events dcp pcp hbs use_int c]
      unfolding get_kv_cache_coordinator_def by (cases caching) auto
  qed
  then obtain cls caching' c0 where c0: "KVCacheCoordinator cls config use_eagle caching' events dcp pcp hbs use_int = Inr c0"
    "single_type_managers c = single_type_managers c0" "coord_pool c = coord_pool c0" by blast
  from KVCacheCoordinator_inv [OF c0(1) assms(2-4)] c0(2,3) c(2) show ?thesis by (simp add: coord_inv_def)
qed

text \<open>A manager with four blocks and one group of full attention.\<close>

definition small_config :: kv_cache_config where
  "small_config = \<lparr>num_blocks = 4, kv_cache_groups = [(FullAttentionSpec 1, 0)]\<rparr>"

lemma small_manager:
  "\<exists>k p. KVCacheManager small_config 8 1 True False False False 1 1 False = Inr k \<and> coord_inv (coordinator k) \<and>
     coord_pool (coordinator k) = p \<and> single_type_managers (coordinator k) = [SingleTypeKVCacheManager (FullAttentionSpec 1) p True 0 1 1] \<and>
     enable_caching p \<and> hash_block_size p = 1 \<and> max_model_len k = 8 \<and> kv_enable_caching k \<and> num_kv_cache_groups k = 1 \<and>
     coord_class (coordinator k) = UnitaryCoordinator \<and> unitary_spec (coordinator k) = FullAttentionSpec 1 \<and>
     unitary_block_size (coordinator k) = 1 \<and> coord_dcp (coordinator k) = 1 \<and> coord_pcp (coordinator k) = 1 \<and>
     log_stats k = False"
proof -
  from BlockPool_spec [of 4 True 1 False False] obtain p where
    p: "BlockPool 4 True 1 False False = Inr p" "enable_caching p" "hash_block_size p = 1" by auto
  let ?groups = "kv_cache_groups small_config"
  have run: "\<exists>k. KVCacheManager small_config 8 1 True False False False 1 1 False = Inr k \<and>
     coord_pool (coordinator k) = p \<and> single_type_managers (coordinator k) = [SingleTypeKVCacheManager (FullAttentionSpec 1) p True 0 1 1] \<and>
     max_model_len k = 8 \<and> kv_enable_caching k \<and> num_kv_cache_groups k = 1 \<and>
     coord_class (coordinator k) = UnitaryCoordinator \<and> unitary_spec (coordinator k) = FullAttentionSpec 1 \<and>
     unitary_block_size (coordinator k) = 1 \<and> coord_dcp (coordinator k) = 1 \<and> coord_pcp (coordinator k) = 1 \<and> log_stats k = False"
    using p(1) by (simp add: KVCacheManager_def get_kv_cache_coordinator_def UnitaryKVCacheCoordinator_def KVCacheCoordinator_def
        small_config_def enumerate_Suc_eq Let_def)
  then obtain k where k: "KVCacheManager small_config 8 1 True False False False 1 1 False = Inr k"
     "coord_pool (coordinator k) = p" "single_type_managers (coordinator k) = [SingleTypeKVCacheManager (FullAttentionSpec 1) p True 0 1 1]"
     "max_model_len k = 8" "kv_enable_caching k" "num_kv_cache_groups k = 1"
     "coord_class (coordinator k) = UnitaryCoordinator \<and> unitary_spec (coordinator k) = FullAttentionSpec 1 \<and>
     unitary_block_size (coordinator k) = 1 \<and> coord_dcp (coordinator k) = 1 \<and> coord_pcp (coordinator k) = 1 \<and> log_stats k = False" by blast
  have "coord_inv (coordinator k)" by (rule KVCacheManager_inv [OF k(1)]) (simp_all add: small_config_def)
  with k p show ?thesis by blast
qed

lemma small_slots_pre:
  assumes "single_type_managers (coordinator k) = [SingleTypeKVCacheManager (FullAttentionSpec 1) p True 0 1 1]"
    "coord_pool (coordinator k) = p" "enable_caching p" "hash_block_size p = 1" "max_model_len k = 8" "num_kv_cache_groups k = 1"
    "num_computed_tokens r = 0" "length (block_hashes r) = num_tokens r" "0 < n" "n \<le> 8"
  shows "slots_pre r n 0 (empty_kv_cache_blocks k) 0 0 False k"
  using assms by (simp add: slots_pre_def empty_kv_cache_blocks_def computed_have_slots_def Let_def SingleTypeKVCacheManager_def)

lemma text_request_hashed:
  assumes "text_request toks = Inr r"
  shows "length (block_hashes r) = num_tokens r \<and> num_computed_tokens r = 0 \<and> num_tokens r = length toks"
proof -
  from text_request_exists [of toks] assms have r: "hashed_request id tagging_hash [0] 1 r" "num_computed_tokens r = 0" "all_token_ids r = toks" "mm_settled 1 r" by auto
  have "length (block_hashes r) = num_tokens r" using hashed_request_ok [OF r(1) _ r(4)] by (simp add: hashes_ok_def)
  with r show ?thesis by (simp add: num_tokens_def)
qed

section \<open>Properties\<close>

text \<open>
  C4. The check of \<^verbatim>\<open>allocate_slots\<close> is enough. If the scheduler keeps its side (the
  computed tokens of a running request have slots; a new request comes with adoptable hits, and with
  external tokens only if there is one group; tokens to be cached are hashed), then the call never
  raises, whatever the mix of full, window, chunked and cross attention groups. If it returns no blocks,
  more blocks were needed than are free; otherwise every group has slots for all tokens, including
  lookahead. Other requests keep their tables, and the ownership invariant is kept in both cases.
\<close>

theorem allocate_slots_never_raises:
  assumes "coord_inv (coordinator k)"
    and "computed = (case new_computed of Some b \<Rightarrow> b | None \<Rightarrow> empty_kv_cache_blocks k)"
    and "slots_pre r num_new nnc computed num_lookahead ne delay k"
    and "need = min (num_computed_tokens r + nnc + ne + num_new + num_lookahead) (max_model_len k)"
  shows "\<exists>out k' r'. allocate_slots sha256 r num_new nnc new_computed num_lookahead ne delay enc k = Inr (out, k', r') \<and>
    coord_inv (coordinator k') \<and>
    same_managers (request_id r) (single_type_managers (coordinator k)) (single_type_managers (coordinator k')) \<and>
    (case out of
       None \<Rightarrow> \<exists>n. coord_get_num_blocks_to_allocate (request_id r) need (kv_rows computed) enc
                 (num_computed_tokens r + nnc + ne) (coordinator k') = Inr n \<and> get_num_free_blocks (coord_pool (coordinator k')) < n
     | Some _ \<Rightarrow> \<forall>m \<in> set (single_type_managers (coordinator k')). slots_for need enc m \<le> int (length (req_blocks (request_id r) m)))"
  using allocate_slots_spec [OF assms, of sha256 enc] by blast

theorem allocate_slots_never_raises_witness:
  "\<exists>r k out k' r'. text_request [7, 8] = Inr r \<and> KVCacheManager small_config 8 1 True False False False 1 1 False = Inr k \<and>
     allocate_slots id r 2 0 None 0 0 False 0 k = Inr (out, k', r') \<and> coord_inv (coordinator k')"
proof -
  from text_request_exists [of "[7, 8]"] obtain r where r: "text_request [7, 8] = Inr r" by blast
  note f = text_request_hashed [OF r]
  from small_manager obtain k p where k: "KVCacheManager small_config 8 1 True False False False 1 1 False = Inr k" "coord_inv (coordinator k)"
    "coord_pool (coordinator k) = p" "single_type_managers (coordinator k) = [SingleTypeKVCacheManager (FullAttentionSpec 1) p True 0 1 1]"
    "enable_caching p" "hash_block_size p = 1" "max_model_len k = 8" "num_kv_cache_groups k = 1" by blast
  have pre: "slots_pre r 2 0 (case None of Some b \<Rightarrow> b | None \<Rightarrow> empty_kv_cache_blocks k) 0 0 False k"
    using small_slots_pre [OF k(4,3,5-8)] f by simp
  from allocate_slots_never_raises [OF k(2) refl pre refl, of id 0] r k(1) show ?thesis by blast
qed

text \<open>
  C5. Ownership in every reachable state of the KV cache manager. Starting from a new manager
  and through any sequence of lookups, allocations, frees, window trimming, evictions and resets,
  the reference count of every block is exactly the number of places in the requests' tables that
  hold it, summed over all groups; no request holds an ordinary block twice in one group, and
  no block that some request holds is free to be handed out again.
\<close>

theorem kv_ownership_invariant:
  assumes "KVCacheManager config max_len hbs caching use_eagle logs events dcp pcp use_int = Inr k0" "0 < dcp" "0 < pcp"
    and "\<forall>(spec, _) \<in> set (kv_cache_groups config). 0 < spec_block_size spec" "(kv_step sha256)\<^sup>*\<^sup>* k0 k"
    and "ms = single_type_managers (coordinator k)" "p = coord_pool (coordinator k)"
  shows "\<exists>xs. get_all_free_blocks (free_block_queue p) = Some (Inr xs) \<and>
    (ms \<noteq> [] \<longrightarrow> (\<forall>b \<in> set (blocks p) - {null_block p}. refs p b = int (\<Sum>j < length ms. owned (ms ! j) b))) \<and>
    (\<forall>i < length ms. \<forall>rid. distinct (filter (\<lambda>b. b \<noteq> null_block p) (req_blocks rid (ms ! i))) \<and>
       (\<forall>b \<in> set (req_blocks rid (ms ! i)). b \<noteq> null_block p \<longrightarrow> b \<notin> set xs))"
proof -
  from kv_reach_inv [OF assms(5) KVCacheManager_inv [OF assms(1-4)]] have inv: "mgrs_inv ms p" using assms(6,7) by (simp add: coord_inv_def)
  then obtain xs where rep: "pool_rep p xs" by (auto simp: mgrs_inv_def pool_inv_def)
  have m: "mgr_inv (others ms i) (ms ! i) p" if "i < length ms" for i using inv that by (simp add: mgrs_inv_def)
  have "refs p b = int (\<Sum>j < length ms. owned (ms ! j) b)" if "ms \<noteq> []" "b \<in> set (blocks p) - {null_block p}" for b
  proof -
    have i: "0 < length ms" using that(1) by simp
    show ?thesis using mgr_invD(8) [OF m [OF i], of b] that others_sum [OF i, of b] by simp
  qed
  moreover have "distinct (filter (\<lambda>b. b \<noteq> null_block p) (req_blocks rid (ms ! i)))" if "i < length ms" for i rid
    using mgr_invD(7) [OF m [OF that]] .
  moreover have "b \<notin> set xs" if "i < length ms" "b \<in> set (req_blocks rid (ms ! i))" "b \<noteq> null_block p" for i rid b
    using owned_not_free [OF m [OF that(1)] rep that(2,3)] .
  ultimately show ?thesis using get_all_free_blocks_refines [OF pool_repD(4) [OF rep]] by blast
qed

theorem kv_ownership_invariant_witness:
  "\<exists>r k out k' r' xs. text_request [7, 8] = Inr r \<and> KVCacheManager small_config 8 1 True False False False 1 1 False = Inr k \<and>
     allocate_slots id r 2 0 None 0 0 False 0 k = Inr (out, k', r') \<and>
     get_all_free_blocks (free_block_queue (coord_pool (coordinator k'))) = Some (Inr xs)"
proof -
  from text_request_exists [of "[7, 8]"] obtain r where r: "text_request [7, 8] = Inr r" by blast
  note f = text_request_hashed [OF r]
  from small_manager obtain k p where k: "KVCacheManager small_config 8 1 True False False False 1 1 False = Inr k" "coord_inv (coordinator k)"
    "coord_pool (coordinator k) = p" "single_type_managers (coordinator k) = [SingleTypeKVCacheManager (FullAttentionSpec 1) p True 0 1 1]"
    "enable_caching p" "hash_block_size p = 1" "max_model_len k = 8" "num_kv_cache_groups k = 1" by blast
  have pre: "slots_pre r 2 0 (case None of Some b \<Rightarrow> b | None \<Rightarrow> empty_kv_cache_blocks k) 0 0 False k"
    using small_slots_pre [OF k(4,3,5-8)] f by simp
  from allocate_slots_spec [OF k(2) refl pre refl, of id 0] obtain out k' r' where
    run: "allocate_slots id r 2 0 None 0 0 False 0 k = Inr (out, k', r')" by blast
  have "(kv_step id)\<^sup>*\<^sup>* k k'" by (rule r_into_rtranclp, rule kv_slots [OF pre run])
  from kv_ownership_invariant [OF k(1) _ _ _ this refl refl] have
    "\<exists>xs. get_all_free_blocks (free_block_queue (coord_pool (coordinator k'))) = Some (Inr xs)" by (simp add: small_config_def) blast
  with r k(1) run show ?thesis by blast
qed

end
