(* ===== verification/Hybrid_Hit.thy ===== *)
theory Hybrid_Hit
  imports Coordinator
begin

text \<open>
  The cache lookup of \<^verbatim>\<open>HybridKVCacheCoordinator\<close>: its fixed-point loop terminates, and
  its result is a hit for every kind of attention at one common length.
\<close>

section \<open>Termination\<close>

lemma group_step_nonneg:
  assumes "hybrid_group_step hs c g (n, bg) = Inr (n', bg')" "0 \<le> n"
  shows "0 \<le> n'"
proof -
  obtain spec l gids where g: "g = ((spec, l), gids)" by (metis prod.exhaust)
  from assms show ?thesis unfolding g
    by (cases "spec_block_size spec = 0")
       (auto simp: hybrid_group_step_def Let_def rbind_eq_Inr pos_imp_zdiv_nonneg_iff split: if_splits)
qed

lemma sweep_nonneg:
  "fold_res (hybrid_group_step hs c) gs (n, bg) = Inr (n', bg') \<Longrightarrow> 0 \<le> n \<Longrightarrow> 0 \<le> n'"
proof (induction gs arbitrary: n bg)
  case (Cons g gs)
  from Cons.prems(1) obtain m bm where m: "hybrid_group_step hs c g (n, bg) = Inr (m, bm)"
    "fold_res (hybrid_group_step hs c) gs (m, bm) = Inr (n', bg')" by (auto simp: rbind_eq_Inr)
  from Cons.IH [OF m(2) group_step_nonneg [OF m(1) Cons.prems(2)]] show ?case .
qed simp

lemma hybrid_terminates: "0 \<le> n \<Longrightarrow> \<exists>y. hybrid_loop hs c n bg = Some y"
proof (induction "nat n" arbitrary: n bg rule: less_induct)
  case less
  show ?case
  proof (cases "fold_res (hybrid_group_step hs c) (attention_groups c) (n, bg)")
    case (Inl err)
    then show ?thesis by (subst hybrid_loop.simps) simp
  next
    case (Inr s)
    obtain n' bg' where s: "s = (n', bg')" by (cases s)
    show ?thesis
    proof (cases "n \<le> n' \<or> is_simple_hybrid c")
      case True
      then show ?thesis using Inr by (subst hybrid_loop.simps) (auto simp: s)
    next
      case False
      have "0 \<le> n'" using sweep_nonneg Inr s less.prems by blast
      with False have "nat n' < nat n" by simp
      from less.hyps [OF this \<open>0 \<le> n'\<close>, of bg'] False Inr show ?thesis by (subst hybrid_loop.simps) (simp add: s)
    qed
  qed
qed

section \<open>A common hit\<close>

text \<open>
  What the lookup of several groups relies on: every group can be looked up at its block size, the groups are disjoint, and
  at most one of them, the first, is of full attention. The constructor sorts full attention to the front and merges groups with
  equal specs, so the last condition holds unless the model has two different full-attention specs, which
  the constructor does not rule out; only the first of them would be cut to the common length.
\<close>

definition group_ok :: "coordinator \<Rightarrow> kv_cache_group \<times> nat list \<Rightarrow> bool" where
  "group_ok c = (\<lambda>((spec, _), gids).
     hit_call_ok spec (coord_use_eagle c) (lcm_block_size c) 1 1 \<and> hash_block_size (coord_pool c) dvd spec_block_size spec \<and>
     spec_block_size spec dvd lcm_block_size c \<and> gids \<noteq> [] \<and>
     (\<forall>g \<in> set gids. g < length (single_type_managers c) \<and> g < 2 ^ 32))"

definition hybrid_ok :: "coordinator \<Rightarrow> bool" where
  "hybrid_ok c \<longleftrightarrow> 0 < hash_block_size (coord_pool c) \<and> (\<forall>g \<in> set (attention_groups c). group_ok c g) \<and>
     distinct (concat (map snd (attention_groups c))) \<and> (\<forall>((spec, _), _) \<in> set (tl (attention_groups c)). \<not> isinstance_full spec)"

text \<open>Group \<open>g\<close> has stored a hit of \<open>k\<close> blocks.\<close>

definition stored ::
  "bytes list \<Rightarrow> coordinator \<Rightarrow> block_ref list option list \<Rightarrow> kv_cache_group \<times> nat list \<Rightarrow> nat \<Rightarrow> bool" where
  "stored hs c bg = (\<lambda>((spec, _), gids) k. \<exists>v computed.
     block_hashes_for (hash_block_size (coord_pool c)) (spec_block_size spec) hs = Inr v \<and>
     hit_covers spec (coord_pool c) (map int gids) (bhl_values v) (spec_block_size spec) k computed \<and>
     (\<forall>j < length gids. bg ! (gids ! j) = Some (computed ! j)))"

lemma store_fold:
  "length (fold (\<lambda>(g, row) bg. bg[g := Some row]) ps bg) = length bg \<and>
   (x \<notin> fst ` set ps \<longrightarrow> fold (\<lambda>(g, row) bg. bg[g := Some row]) ps bg ! x = bg ! x) \<and>
   (distinct (map fst ps) \<longrightarrow> fst ` set ps \<subseteq> {..<length bg} \<longrightarrow>
      (\<forall>j < length ps. fold (\<lambda>(g, row) bg. bg[g := Some row]) ps bg ! fst (ps ! j) = Some (snd (ps ! j))))"
proof (induction ps arbitrary: bg x)
  case (Cons p ps)
  obtain g row where p: "p = (g, row)" by (cases p)
  let ?F = "fold (\<lambda>(g, row) bg. bg[g := Some row]) ps"
  have len: "length (?F (bg[g := Some row])) = length bg"
    and keep: "\<And>x. x \<notin> fst ` set ps \<Longrightarrow> ?F (bg[g := Some row]) ! x = bg[g := Some row] ! x"
    and get: "distinct (map fst ps) \<Longrightarrow> fst ` set ps \<subseteq> {..<length bg} \<Longrightarrow> j < length ps \<Longrightarrow>
      ?F (bg[g := Some row]) ! fst (ps ! j) = Some (snd (ps ! j))" for j
    using Cons.IH [of "bg[g := Some row]"] by auto
  have "?F (bg[g := Some row]) ! fst ((p # ps) ! j) = Some (snd ((p # ps) ! j))"
    if "distinct (map fst (p # ps))" "fst ` set (p # ps) \<subseteq> {..<length bg}" "j < length (p # ps)" for j
    using that keep [of g] get [of "j - 1"] by (cases j) (auto simp: p)
  with len keep [of x] show ?case by (auto simp: p)
qed simp

lemma store_hits_spec:
  assumes "distinct gids" "length hit = length gids" "\<forall>g \<in> set gids. g < length bg"
  shows "length (store_hits gids hit bg) = length bg" "x \<notin> set gids \<Longrightarrow> store_hits gids hit bg ! x = bg ! x"
    "j < length gids \<Longrightarrow> store_hits gids hit bg ! (gids ! j) = Some (hit ! j)"
proof -
  note s = store_fold [of "zip gids hit" bg]
  show "length (store_hits gids hit bg) = length bg" using s unfolding store_hits_def by simp
  show "store_hits gids hit bg ! x = bg ! x" if "x \<notin> set gids"
    using store_fold [of "zip gids hit" bg x] that assms(2) unfolding store_hits_def by (metis list.set_map map_fst_zip)
  have "map fst (zip gids hit) = gids" using assms(2) by simp
  moreover from this have "fst ` set (zip gids hit) = set gids" by (metis list.set_map)
  ultimately show "store_hits gids hit bg ! (gids ! j) = Some (hit ! j)" if "j < length gids"
    using s that assms unfolding store_hits_def by (auto simp: subset_iff)
qed

lemma stored_frame:
  assumes "stored hs c bg ((spec, l), gids) k" "\<And>g. g \<in> set gids \<Longrightarrow> bg' ! g = bg ! g"
  shows "stored hs c bg' ((spec, l), gids) k"
  using assms unfolding stored_def by (auto simp del: bhl_values.simps)

text \<open>A lookup within the limit of the request's hashes.\<close>

lemma group_lookup:
  assumes rep: "pool_rep (coord_pool c) xs" and ok: "group_ok c ((spec, l), gids)" and hbs: "0 < hash_block_size (coord_pool c)"
    and len: "0 \<le> n" "nat (n div int (hash_block_size (coord_pool c))) \<le> length hs" and dist: "distinct gids"
    and bg: "length bg = length (single_type_managers c)" and miss: "\<not> (isinstance_full spec \<and> bg ! hd gids \<noteq> None)"
  shows "\<exists>k bg'. hybrid_group_step hs c ((spec, l), gids) (n, bg) = Inr (int (k * spec_block_size spec), bg') \<and>
    int (k * spec_block_size spec) \<le> n \<and> lcm_block_size c dvd k * spec_block_size spec \<and> length bg' = length bg \<and>
    (\<forall>x. x \<notin> set gids \<longrightarrow> bg' ! x = bg ! x) \<and> stored hs c bg' ((spec, l), gids) k"
proof -
  let ?p = "coord_pool c" and ?hbs = "hash_block_size (coord_pool c)" and ?bs = "spec_block_size spec"
  from ok have g: "hit_call_ok spec (coord_use_eagle c) (lcm_block_size c) 1 1" "?hbs dvd ?bs" "gids \<noteq> []"
    "\<forall>g \<in> set gids. g < length bg \<and> g < 2 ^ 32" by (auto simp: group_ok_def bg)
  have bs: "0 < ?bs" using g(1) by (cases spec) auto
  have gids: "gids_ok (map int gids)" using g(3,4) by (auto simp: gids_ok_def)
  have nn: "nat (n div int d) = nat n div d" for d using len(1) by (simp add: nat_div_distrib)
  have "nat n div ?bs = nat n div ?hbs div (?bs div ?hbs)" using g(2) by (metis div_mult2_eq dvd_mult_div_cancel)
  also have "\<dots> \<le> length hs div (?bs div ?hbs)" using len(2) nn by (simp add: div_le_mono)
  finally have long: "nat n div ?bs \<le> length hs div (?bs div ?hbs)" .
  obtain v where v: "block_hashes_for ?hbs ?bs hs = Inr v" "view_ok v" "nat (n div int ?bs) \<le> bhl_length v"
    using g(2) bs hbs long nn
    by (cases "?bs = ?hbs") (auto simp: block_hashes_for_def BlockHashListWithBlockSize_def view_ok_def div_greater_zero_iff dvd_imp_le)
  have wbs: "?bs = world_block_size spec 1 1" by (simp add: world_block_size_def)
  from find_hit_covers [OF rep gids v(2) g(1) wbs len(1) v(3)] obtain k computed where
    k: "find_longest_cache_hit spec v n (map int gids) ?p (coord_use_eagle c) (lcm_block_size c) 1 1 = Inr computed"
      "int (k * ?bs) \<le> n" "aligned ?bs (lcm_block_size c) k" "hit_covers spec ?p (map int gids) (bhl_values v) ?bs k computed" by blast
  have cl: "length computed = length gids" "length (computed ! 0) = k" using k(4) g(3) by (simp_all add: hit_covers_def)
  then have hd: "length (hd computed) = k" using g(3) by (metis hd_conv_nth length_0_conv)
  let ?bg = "store_hits gids computed bg"
  have sp: "length ?bg = length bg" "\<And>x. x \<notin> set gids \<Longrightarrow> ?bg ! x = bg ! x" "\<And>j. j < length gids \<Longrightarrow> ?bg ! (gids ! j) = Some (computed ! j)"
    using store_hits_spec [OF dist cl(1)] g(4) by auto
  have "hybrid_group_step hs c ((spec, l), gids) (n, bg) = Inr (int (k * ?bs), ?bg)"
    unfolding hybrid_group_step_def using miss v(1) k(1) hd by (auto simp: Let_def)
  moreover have "lcm_block_size c dvd k * ?bs" using k(3) by (auto simp: aligned_def mod_eq_0_iff_dvd)
  moreover have "stored hs c ?bg ((spec, l), gids) k" unfolding stored_def using v(1) k(4) sp(3) by (auto simp del: bhl_values.simps)
  ultimately show ?thesis using k(2) sp(1,2) by blast
qed

text \<open>One sweep over the groups that are looked up each time.\<close>

definition looked_up :: "kv_cache_group \<times> nat list \<Rightarrow> bool" where
  "looked_up = (\<lambda>((spec, _), _). \<not> isinstance_full spec)"

definition blocks_of :: "kv_cache_group \<times> nat list \<Rightarrow> nat" where
  "blocks_of = (\<lambda>((spec, _), _). spec_block_size spec)"

lemma sweep_spec:
  assumes rep: "pool_rep (coord_pool c) xs" and hbs: "0 < hash_block_size (coord_pool c)"
  shows "\<forall>g \<in> set gs. group_ok c g \<and> looked_up g \<Longrightarrow> distinct (concat (map snd gs)) \<Longrightarrow> 0 \<le> n \<Longrightarrow>
    nat (n div int (hash_block_size (coord_pool c))) \<le> length hs \<Longrightarrow> length bg = length (single_type_managers c) \<Longrightarrow>
    \<exists>n' bg'. fold_res (hybrid_group_step hs c) gs (n, bg) = Inr (n', bg') \<and> 0 \<le> n' \<and> n' \<le> n \<and> length bg' = length bg \<and>
      (gs \<noteq> [] \<longrightarrow> int (lcm_block_size c) dvd n') \<and> (gs = [] \<longrightarrow> n' = n) \<and>
      (\<forall>x. x \<notin> set (concat (map snd gs)) \<longrightarrow> bg' ! x = bg ! x) \<and>
      (\<forall>g \<in> set gs. \<exists>k. n' \<le> int (k * blocks_of g) \<and> int (k * blocks_of g) \<le> n \<and> stored hs c bg' g k) \<and>
      (gs \<noteq> [] \<longrightarrow> (\<exists>k. n' = int (k * blocks_of (last gs)) \<and> stored hs c bg' (last gs) k))"
proof (induction gs arbitrary: n bg)
  case Nil
  then show ?case by simp
next
  case (Cons g gs)
  obtain spec l gids where g: "g = ((spec, l), gids)" by (metis prod.exhaust)
  have ok: "group_ok c ((spec, l), gids)" "\<not> (isinstance_full spec \<and> bg ! hd gids \<noteq> None)" "distinct gids"
    using Cons.prems(1,2) by (auto simp: g looked_up_def)
  from group_lookup [OF rep ok(1) hbs Cons.prems(3,4) ok(3) Cons.prems(5) ok(2)] obtain k bg1 where
    k: "hybrid_group_step hs c g (n, bg) = Inr (int (k * blocks_of g), bg1)" "int (k * blocks_of g) \<le> n"
      "lcm_block_size c dvd k * blocks_of g" "length bg1 = length bg" "\<forall>x. x \<notin> set gids \<longrightarrow> bg1 ! x = bg ! x" "stored hs c bg1 g k"
    by (auto simp: g blocks_of_def)
  let ?n1 = "int (k * blocks_of g)" and ?h = "int (hash_block_size (coord_pool c))"
  have "?n1 div ?h \<le> n div ?h" using k(2) hbs by (intro zdiv_mono1) simp_all
  then have short: "nat (?n1 div ?h) \<le> length hs" using Cons.prems(4) by linarith
  have "\<exists>n' bg'. fold_res (hybrid_group_step hs c) gs (?n1, bg1) = Inr (n', bg') \<and> 0 \<le> n' \<and> n' \<le> ?n1 \<and> length bg' = length bg1 \<and>
      (gs \<noteq> [] \<longrightarrow> int (lcm_block_size c) dvd n') \<and> (gs = [] \<longrightarrow> n' = ?n1) \<and>
      (\<forall>x. x \<notin> set (concat (map snd gs)) \<longrightarrow> bg' ! x = bg1 ! x) \<and>
      (\<forall>g \<in> set gs. \<exists>k. n' \<le> int (k * blocks_of g) \<and> int (k * blocks_of g) \<le> ?n1 \<and> stored hs c bg' g k) \<and>
      (gs \<noteq> [] \<longrightarrow> (\<exists>k. n' = int (k * blocks_of (last gs)) \<and> stored hs c bg' (last gs) k))"
    by (rule Cons.IH) (use Cons.prems short k(4) in auto)
  then obtain n' bg' where r: "fold_res (hybrid_group_step hs c) gs (?n1, bg1) = Inr (n', bg')" "0 \<le> n'" "n' \<le> ?n1" "length bg' = length bg1"
    "gs \<noteq> [] \<longrightarrow> int (lcm_block_size c) dvd n'" "gs = [] \<longrightarrow> n' = ?n1"
    "\<forall>x. x \<notin> set (concat (map snd gs)) \<longrightarrow> bg' ! x = bg1 ! x"
    "\<forall>g \<in> set gs. \<exists>k. n' \<le> int (k * blocks_of g) \<and> int (k * blocks_of g) \<le> ?n1 \<and> stored hs c bg' g k"
    "gs \<noteq> [] \<longrightarrow> (\<exists>k. n' = int (k * blocks_of (last gs)) \<and> stored hs c bg' (last gs) k)" by blast
  have disj: "x \<notin> set (concat (map snd gs))" if "x \<in> set gids" for x using Cons.prems(2) that by (auto simp: g)
  have st: "stored hs c bg' g k" using k(6) unfolding g by (rule stored_frame) (use r(7) disj in blast)
  have lcm: "int (lcm_block_size c) dvd n'" using r(5,6) k(3) by (metis of_nat_dvd_iff)
  have others: "\<forall>h \<in> set (g # gs). \<exists>k. n' \<le> int (k * blocks_of h) \<and> int (k * blocks_of h) \<le> n \<and> stored hs c bg' h k"
  proof
    fix h
    assume "h \<in> set (g # gs)"
    then consider "h = g" | "h \<in> set gs" by auto
    then show "\<exists>k. n' \<le> int (k * blocks_of h) \<and> int (k * blocks_of h) \<le> n \<and> stored hs c bg' h k"
    proof cases
      case 1
      with st r(3) k(2) show ?thesis by blast
    next
      case 2
      with r(8) k(2) show ?thesis by (meson order_trans)
    qed
  qed
  have last: "\<exists>k. n' = int (k * blocks_of (last (g # gs))) \<and> stored hs c bg' (last (g # gs)) k"
    using r(6,9) st by (cases "gs = []") auto
  have keep: "bg' ! x = bg ! x" if "x \<notin> set (concat (map snd (g # gs)))" for x using that r(7) k(5) by (simp add: g)
  have run: "fold_res (hybrid_group_step hs c) (g # gs) (n, bg) = Inr (n', bg')" using k(1) r(1) by simp
  have le: "n' \<le> n" "length bg' = length bg" using r(3,4) k(2,4) by simp_all
  show ?case
    by (rule exI [of _ n'], rule exI [of _ bg']) (intro conjI impI allI run r(2) le lcm others last keep, simp_all)
qed

text \<open>The full-attention group: looked up in the first sweep, rounded down in the later ones.\<close>

definition full_ready :: "bytes list \<Rightarrow> coordinator \<Rightarrow> int \<Rightarrow> block_ref list option list \<Rightarrow> bool" where
  "full_ready hs c n bg \<longleftrightarrow> (\<forall>g gs. attention_groups c = g # gs \<longrightarrow> \<not> looked_up g \<longrightarrow>
     bg ! hd (snd g) = None \<or> int (lcm_block_size c) dvd n \<and> (\<exists>k. n \<le> int (k * blocks_of g) \<and> stored hs c bg g k))"

definition swept :: "bytes list \<Rightarrow> coordinator \<Rightarrow> int \<Rightarrow> int \<Rightarrow> block_ref list option list \<Rightarrow> bool" where
  "swept hs c n n' bg \<longleftrightarrow> 0 \<le> n' \<and> n' \<le> n \<and> int (lcm_block_size c) dvd n' \<and> length bg = length (single_type_managers c) \<and>
     (\<forall>g \<in> set (attention_groups c). \<exists>k. n' \<le> int (k * blocks_of g) \<and> stored hs c bg g k \<and> (looked_up g \<longrightarrow> int (k * blocks_of g) \<le> n)) \<and>
     (looked_up (last (attention_groups c)) \<longrightarrow> (\<exists>k. n' = int (k * blocks_of (last (attention_groups c))) \<and> stored hs c bg (last (attention_groups c)) k))"

lemma full_step:
  assumes rep: "pool_rep (coord_pool c) xs" and ok: "group_ok c g" "distinct (snd g)" "\<not> looked_up g" and hbs: "0 < hash_block_size (coord_pool c)"
    and len: "0 \<le> n" "nat (n div int (hash_block_size (coord_pool c))) \<le> length hs" and bg: "length bg = length (single_type_managers c)"
    and ready: "bg ! hd (snd g) = None \<or> int (lcm_block_size c) dvd n \<and> (\<exists>k. n \<le> int (k * blocks_of g) \<and> stored hs c bg g k)"
  shows "\<exists>n' bg'. hybrid_group_step hs c g (n, bg) = Inr (n', bg') \<and> 0 \<le> n' \<and> n' \<le> n \<and> int (lcm_block_size c) dvd n' \<and>
    length bg' = length bg \<and> (\<exists>k. n' \<le> int (k * blocks_of g) \<and> stored hs c bg' g k)"
proof -
  obtain spec l gids where g: "g = ((spec, l), gids)" by (metis prod.exhaust)
  have full: "isinstance_full spec" using ok(3) by (simp add: g looked_up_def)
  show ?thesis
  proof (cases "bg ! hd gids = None")
    case True
    from group_lookup [OF rep ok(1) [unfolded g] hbs len _ bg] ok(2) True obtain k bg' where
      "hybrid_group_step hs c g (n, bg) = Inr (int (k * blocks_of g), bg')" "int (k * blocks_of g) \<le> n"
      "lcm_block_size c dvd k * blocks_of g" "length bg' = length bg" "stored hs c bg' g k" by (auto simp: g blocks_of_def)
    then show ?thesis by (intro exI [of _ "int (k * blocks_of g)"] exI [of _ bg']) (metis of_nat_0_le_iff of_nat_dvd_iff order_refl)
  next
    case False
    then have r: "int (lcm_block_size c) dvd n" "\<exists>k. n \<le> int (k * blocks_of g) \<and> stored hs c bg g k" using ready by (auto simp: g)
    have "int (spec_block_size spec) dvd int (lcm_block_size c)" using ok(1) by (simp add: g group_ok_def)
    then have "n div int (spec_block_size spec) * int (spec_block_size spec) = n" using r(1) by (metis dvd_div_mult_self dvd_trans)
    then have "hybrid_group_step hs c g (n, bg) = Inr (n, bg)" using full False by (auto simp: g hybrid_group_step_def Let_def)
    then show ?thesis using r len(1) by blast
  qed
qed

lemma tail_looked_up: "hybrid_ok c \<Longrightarrow> attention_groups c = g # gs \<Longrightarrow> \<forall>h \<in> set gs. looked_up h"
  by (auto simp: hybrid_ok_def looked_up_def)

lemma sweep_all:
  assumes rep: "pool_rep (coord_pool c) xs" and ok: "hybrid_ok c" "attention_groups c \<noteq> []"
    and len: "0 \<le> n" "nat (n div int (hash_block_size (coord_pool c))) \<le> length hs" and bg: "length bg = length (single_type_managers c)"
    and ready: "full_ready hs c n bg"
  shows "\<exists>n' bg'. fold_res (hybrid_group_step hs c) (attention_groups c) (n, bg) = Inr (n', bg') \<and> swept hs c n n' bg'"
proof -
  obtain g gs where ags: "attention_groups c = g # gs" using ok(2) by (cases "attention_groups c") auto
  have hbs: "0 < hash_block_size (coord_pool c)" and gok: "\<forall>h \<in> set (g # gs). group_ok c h" and dist: "distinct (concat (map snd (g # gs)))"
    using ok(1) unfolding hybrid_ok_def ags by blast+
  note tail = tail_looked_up [OF ok(1) ags]
  let ?h = "int (hash_block_size (coord_pool c))"
  show ?thesis
  proof (cases "looked_up g")
    case True
    from sweep_spec [OF rep hbs _ dist len bg] gok True tail obtain n' bg' where
      r: "fold_res (hybrid_group_step hs c) (g # gs) (n, bg) = Inr (n', bg')" "0 \<le> n'" "n' \<le> n" "length bg' = length bg" "int (lcm_block_size c) dvd n'"
      "\<forall>h \<in> set (g # gs). \<exists>k. n' \<le> int (k * blocks_of h) \<and> int (k * blocks_of h) \<le> n \<and> stored hs c bg' h k"
      "\<exists>k. n' = int (k * blocks_of (last (g # gs))) \<and> stored hs c bg' (last (g # gs)) k" by auto
    have all: "\<forall>h \<in> set (g # gs). \<exists>k. n' \<le> int (k * blocks_of h) \<and> stored hs c bg' h k \<and> (looked_up h \<longrightarrow> int (k * blocks_of h) \<le> n)"
      using r(6) by blast
    have bl: "length bg' = length (single_type_managers c)" using r(4) bg by simp
    show ?thesis unfolding swept_def ags
      by (rule exI [of _ n'], rule exI [of _ bg']) (intro conjI impI r(1-3,5,7) all bl)
  next
    case False
    have "distinct (snd g)" "group_ok c g" using dist gok by simp_all
    from full_step [OF rep this(2,1) False hbs len bg] ready ags False obtain n1 bg1 k where
      f: "hybrid_group_step hs c g (n, bg) = Inr (n1, bg1)" "0 \<le> n1" "n1 \<le> n" "int (lcm_block_size c) dvd n1" "length bg1 = length bg"
        "n1 \<le> int (k * blocks_of g)" "stored hs c bg1 g k" unfolding full_ready_def by blast
    have "n1 div ?h \<le> n div ?h" using f(3) hbs by (intro zdiv_mono1) simp_all
    then have short: "nat (n1 div ?h) \<le> length hs" using len(2) by linarith
    have sub: "\<forall>h \<in> set gs. group_ok c h \<and> looked_up h" "distinct (concat (map snd gs))" "length bg1 = length (single_type_managers c)"
      using gok tail dist bg f(5) by auto
    from sweep_spec [OF rep hbs sub(1,2) f(2) short sub(3)] obtain n' bg' where
      r: "fold_res (hybrid_group_step hs c) gs (n1, bg1) = Inr (n', bg')" "0 \<le> n'" "n' \<le> n1" "length bg' = length bg1"
        "gs \<noteq> [] \<longrightarrow> int (lcm_block_size c) dvd n'" "gs = [] \<longrightarrow> n' = n1" "\<forall>x. x \<notin> set (concat (map snd gs)) \<longrightarrow> bg' ! x = bg1 ! x"
        "\<forall>g \<in> set gs. \<exists>k. n' \<le> int (k * blocks_of g) \<and> int (k * blocks_of g) \<le> n1 \<and> stored hs c bg' g k"
        "gs \<noteq> [] \<longrightarrow> (\<exists>k. n' = int (k * blocks_of (last gs)) \<and> stored hs c bg' (last gs) k)" by blast
    have disj: "x \<notin> set (concat (map snd gs))" if "x \<in> set (snd g)" for x using dist that by auto
    have "stored hs c bg' g k" using f(7) r(7) disj by (cases g, cases "fst g") (auto intro: stored_frame)
    then have g': "\<exists>k. n' \<le> int (k * blocks_of g) \<and> stored hs c bg' g k \<and> (looked_up g \<longrightarrow> int (k * blocks_of g) \<le> n)"
      using f(6) r(3) False by (meson order_trans)
    have gs': "\<exists>k. n' \<le> int (k * blocks_of h) \<and> stored hs c bg' h k \<and> (looked_up h \<longrightarrow> int (k * blocks_of h) \<le> n)" if "h \<in> set gs" for h
      using r(8) that f(3) by (meson order_trans)
    have last: "\<exists>k. n' = int (k * blocks_of (last (g # gs))) \<and> stored hs c bg' (last (g # gs)) k" if "looked_up (last (g # gs))"
      using that False r(9) by (cases "gs = []") auto
    have lcm: "int (lcm_block_size c) dvd n'" using r(5,6) f(4) by metis
    have "swept hs c n n' bg'" unfolding swept_def ags
      by (intro conjI impI ballI r(2) lcm last) (use r(3,4) f(3,5) bg g' gs' in auto)
    moreover have "fold_res (hybrid_group_step hs c) (g # gs) (n, bg) = Inr (n', bg')" using f(1) r(1) by simp
    ultimately show ?thesis unfolding ags by blast
  qed
qed

lemma group_hd: "hybrid_ok c \<Longrightarrow> g \<in> set (attention_groups c) \<Longrightarrow> snd g \<noteq> []"
  by (auto simp: hybrid_ok_def group_ok_def)

lemma simple_hybrid_groups:
  assumes "is_simple_hybrid c"
  shows "\<exists>g h. attention_groups c = [g, h] \<and> \<not> looked_up g"
proof (cases "attention_groups c")
  case (Cons g gs)
  obtain spec l gids where g: "g = ((spec, l), gids)" by (metis prod.exhaust)
  show ?thesis
  proof (cases gs)
    case gs: (Cons h hs)
    with Cons g assms show ?thesis by (cases hs) (auto simp: is_simple_hybrid_def looked_up_def)
  qed (use Cons g assms in \<open>simp add: is_simple_hybrid_def\<close>)
qed (use assms in \<open>simp add: is_simple_hybrid_def\<close>)

lemma hybrid_loop_spec:
  assumes rep: "pool_rep (coord_pool c) xs" and ok: "hybrid_ok c" "attention_groups c \<noteq> []"
  shows "0 \<le> n \<Longrightarrow> nat (n div int (hash_block_size (coord_pool c))) \<le> length hs \<Longrightarrow> length bg = length (single_type_managers c) \<Longrightarrow>
    full_ready hs c n bg \<Longrightarrow> \<exists>n' bg'. hybrid_loop hs c n bg = Some (Inr (n', bg')) \<and> n' \<le> n \<and> 0 \<le> n' \<and> int (lcm_block_size c) dvd n' \<and>
      length bg' = length (single_type_managers c) \<and>
      (\<forall>g \<in> set (attention_groups c). \<exists>k. n' \<le> int (k * blocks_of g) \<and> stored hs c bg' g k \<and> (looked_up g \<longrightarrow> n' = int (k * blocks_of g)))"
proof (induction "nat n" arbitrary: n bg rule: less_induct)
  case less
  from sweep_all [OF rep ok less.prems] obtain n' bg' where
    run: "fold_res (hybrid_group_step hs c) (attention_groups c) (n, bg) = Inr (n', bg')" and sw: "swept hs c n n' bg'" by blast
  from sw have s: "0 \<le> n'" "n' \<le> n" "int (lcm_block_size c) dvd n'" "length bg' = length (single_type_managers c)"
    "\<forall>g \<in> set (attention_groups c). \<exists>k. n' \<le> int (k * blocks_of g) \<and> stored hs c bg' g k \<and> (looked_up g \<longrightarrow> int (k * blocks_of g) \<le> n)"
    "looked_up (last (attention_groups c)) \<Longrightarrow> \<exists>k. n' = int (k * blocks_of (last (attention_groups c))) \<and> stored hs c bg' (last (attention_groups c)) k"
    unfolding swept_def by blast+
  have unfold: "hybrid_loop hs c n bg = (if n \<le> n' then Some (Inr (n, bg')) else if is_simple_hybrid c then Some (Inr (n', bg')) else hybrid_loop hs c n' bg')"
    using run by (subst hybrid_loop.simps) simp
  have fin: ?case if "hybrid_loop hs c n bg = Some (Inr (n', bg'))"
    "\<And>g. g \<in> set (attention_groups c) \<Longrightarrow> \<exists>k. n' \<le> int (k * blocks_of g) \<and> stored hs c bg' g k \<and> (looked_up g \<longrightarrow> n' = int (k * blocks_of g))"
    using that s(1-4) by blast
  show ?case
  proof (cases "n \<le> n'")
    case True
    then have eq: "n' = n" using s(2) by simp
    show ?thesis
    proof (rule fin)
      show "hybrid_loop hs c n bg = Some (Inr (n', bg'))" using unfold eq by simp
      fix g
      assume "g \<in> set (attention_groups c)"
      with s(5) obtain k where "n' \<le> int (k * blocks_of g)" "stored hs c bg' g k" "looked_up g \<longrightarrow> int (k * blocks_of g) \<le> n" by blast
      then show "\<exists>k. n' \<le> int (k * blocks_of g) \<and> stored hs c bg' g k \<and> (looked_up g \<longrightarrow> n' = int (k * blocks_of g))"
        using eq by (intro exI [of _ k]) auto
    qed
  next
    case False
    show ?thesis
    proof (cases "is_simple_hybrid c")
      case True
      then obtain g h where ags: "attention_groups c = [g, h]" "\<not> looked_up g"
        using simple_hybrid_groups by blast
      have h: "looked_up h" using tail_looked_up [OF ok(1) ags(1)] by simp
      show ?thesis
      proof (rule fin)
        show "hybrid_loop hs c n bg = Some (Inr (n', bg'))" using unfold False True by simp
        fix f
        assume "f \<in> set (attention_groups c)"
        then consider "f = g" | "f = h" by (auto simp: ags)
        then show "\<exists>k. n' \<le> int (k * blocks_of f) \<and> stored hs c bg' f k \<and> (looked_up f \<longrightarrow> n' = int (k * blocks_of f))"
        proof cases
          case 1
          then show ?thesis using s(5) ags by auto
        next
          case 2
          then show ?thesis using s(6) h ags by auto
        qed
      qed
    next
      case again: False
      have "n' div int (hash_block_size (coord_pool c)) \<le> n div int (hash_block_size (coord_pool c))"
        using s(2) ok(1) by (intro zdiv_mono1) (simp_all add: hybrid_ok_def)
      then have short: "nat (n' div int (hash_block_size (coord_pool c))) \<le> length hs" using less.prems(2) by linarith
      have ready: "full_ready hs c n' bg'" using s(3,5) unfolding full_ready_def by (metis list.set_intros(1))
      have "nat n' < nat n" using False s(1) by simp
      from less.hyps [OF this s(1) short s(4) ready] s(2) show ?thesis unfolding unfold if_not_P [OF False] if_not_P [OF again] by force
    qed
  qed
qed

text \<open>The result rows, with the blocks of full attention cut to the common length.\<close>

lemma truncate_fold:
  "length (fold (\<lambda>g bg. bg[g := map_option (take m) (bg ! g)]) gids bg) = length bg \<and>
   (x \<notin> set gids \<longrightarrow> fold (\<lambda>g bg. bg[g := map_option (take m) (bg ! g)]) gids bg ! x = bg ! x) \<and>
   (distinct gids \<longrightarrow> x \<in> set gids \<longrightarrow> x < length bg \<longrightarrow>
      fold (\<lambda>g bg. bg[g := map_option (take m) (bg ! g)]) gids bg ! x = map_option (take m) (bg ! x))"
proof (induction gids arbitrary: bg)
  case (Cons g gids)
  from Cons.IH [of "bg[g := map_option (take m) (bg ! g)]"] show ?case by (cases "x = g") auto
qed simp

lemma covers_take:
  assumes "hit_covers spec p gids hs bs k computed" "isinstance_full spec" "m \<le> k" "0 < bs"
  shows "hit_covers spec p gids hs bs m (map (take m) computed)"
proof -
  have sk: "get_num_skipped_tokens spec n = 0" for n using assms(2) by (cases spec) simp_all
  have "holds p (computed ! j ! i) (hs ! i) (gids ! j)" if "j < length gids" "i < k" for i j
  proof -
    have "0 < int ((i + 1) * bs)" unfolding of_nat_0_less_iff using assms(4) by simp
    then show ?thesis using assms(1) that unfolding hit_covers_def sk by blast
  qed
  with assms(1,3) show ?thesis unfolding hit_covers_def by (auto simp: min_def)
qed

lemma hybrid_hit_spec:
  assumes rep: "pool_rep (coord_pool c) xs" and ok: "hybrid_ok c" "attention_groups c \<noteq> []"
    and len: "0 \<le> max_length" "nat (max_length div int (hash_block_size (coord_pool c))) \<le> length hs"
  shows "\<exists>rows n. hybrid_find_longest_cache_hit hs max_length c = Some (Inr (rows, n)) \<and> 0 \<le> n \<and> n \<le> max_length \<and>
    length rows = length (single_type_managers c) \<and>
    (\<forall>((spec, l), gids) \<in> set (attention_groups c). \<exists>k v. n = int (k * spec_block_size spec) \<and>
       block_hashes_for (hash_block_size (coord_pool c)) (spec_block_size spec) hs = Inr v \<and>
       hit_covers spec (coord_pool c) (map int gids) (bhl_values v) (spec_block_size spec) k (map ((!) rows) gids))"
proof -
  let ?N = "length (single_type_managers c)" and ?bg0 = "replicate (length (single_type_managers c)) (None :: block_ref list option)"
  obtain g0 gs where ags: "attention_groups c = g0 # gs" using ok(2) by (cases "attention_groups c") auto
  have in_range: "x < ?N" if "g \<in> set (attention_groups c)" "x \<in> set (snd g)" for g x
    using ok(1) that by (auto simp: hybrid_ok_def group_ok_def)
  have ready: "full_ready hs c max_length ?bg0"
  proof -
    have "hd (snd g0) < ?N" using in_range [of g0 "hd (snd g0)"] group_hd [OF ok(1), of g0] ags by simp
    then have "?bg0 ! hd (snd g0) = None" by simp
    then show ?thesis unfolding full_ready_def ags by blast
  qed
  from hybrid_loop_spec [OF rep ok len _ ready] obtain n bg where
    l: "hybrid_loop hs c max_length ?bg0 = Some (Inr (n, bg))" "n \<le> max_length" "0 \<le> n" "int (lcm_block_size c) dvd n" "length bg = ?N"
      "\<forall>g \<in> set (attention_groups c). \<exists>k. n \<le> int (k * blocks_of g) \<and> stored hs c bg g k \<and> (looked_up g \<longrightarrow> n = int (k * blocks_of g))"
    by auto
  let ?bg = "truncate_full c n bg"
  let ?rows = "map (\<lambda>row. case row of Some bs \<Rightarrow> bs | None \<Rightarrow> []) ?bg"
  have run: "hybrid_find_longest_cache_hit hs max_length c = Some (Inr (?rows, n))" using l(1) by (simp add: hybrid_find_longest_cache_hit_def)
  have dist: "distinct (concat (map snd (g0 # gs)))" and gok: "\<And>g. g \<in> set (attention_groups c) \<Longrightarrow> group_ok c g"
    using ok(1) unfolding hybrid_ok_def ags by blast+
  have trunc: "length ?bg = ?N" "x \<notin> set (snd g0) \<or> looked_up g0 \<Longrightarrow> ?bg ! x = bg ! x"
    "\<not> looked_up g0 \<Longrightarrow> x \<in> set (snd g0) \<Longrightarrow> ?bg ! x = map_option (take (nat (n div int (blocks_of g0)))) (bg ! x)" for x
  proof -
    obtain spec l gids where g: "g0 = ((spec, l), gids)" by (metis prod.exhaust)
    note t = truncate_fold [of "nat (n div int (spec_block_size spec))" gids bg x]
    show "length ?bg = ?N" "x \<notin> set (snd g0) \<or> looked_up g0 \<Longrightarrow> ?bg ! x = bg ! x"
      using t l(5) by (auto simp: truncate_full_def ags g looked_up_def)
    show "\<not> looked_up g0 \<Longrightarrow> x \<in> set (snd g0) \<Longrightarrow> ?bg ! x = map_option (take (nat (n div int (blocks_of g0)))) (bg ! x)"
      using t l(5) dist in_range [of g0 x] by (auto simp: truncate_full_def ags g looked_up_def blocks_of_def)
  qed
  have rows: "?rows ! x = (case ?bg ! x of Some bs \<Rightarrow> bs | None \<Rightarrow> [])" if "x < ?N" for x using that trunc(1) by simp
  have "\<exists>k v. n = int (k * spec_block_size spec) \<and> block_hashes_for (hash_block_size (coord_pool c)) (spec_block_size spec) hs = Inr v \<and>
       hit_covers spec (coord_pool c) (map int gids) (bhl_values v) (spec_block_size spec) k (map ((!) ?rows) gids)"
    if g: "((spec, l), gids) \<in> set (attention_groups c)" for spec l gids
  proof -
    let ?g = "((spec, l), gids)" and ?bs = "spec_block_size spec"
    from l(6) g obtain k where k: "n \<le> int (k * ?bs)" "stored hs c bg ?g k" "looked_up ?g \<longrightarrow> n = int (k * ?bs)" unfolding blocks_of_def by fastforce
    from k(2) obtain v computed where v: "block_hashes_for (hash_block_size (coord_pool c)) ?bs hs = Inr v"
      "hit_covers spec (coord_pool c) (map int gids) (bhl_values v) ?bs k computed" "\<forall>j < length gids. bg ! (gids ! j) = Some (computed ! j)"
      unfolding stored_def by auto
    have cl: "length computed = length gids" using v(2) by (simp add: hit_covers_def)
    have range: "gids ! j < ?N" if "j < length gids" for j using in_range [OF g, of "gids ! j"] that by simp
    show ?thesis
    proof (cases "looked_up ?g")
      case True
      have "gids ! j \<notin> set (snd g0) \<or> looked_up g0" if "j < length gids" for j
      proof (cases "?g = g0")
        case False
        then have "?g \<in> set gs" using g by (simp add: ags)
        then have "gids ! j \<in> set (concat (map snd gs))" using nth_mem [OF that] by force
        then show ?thesis using dist by auto
      qed (use True in auto)
      then have "map ((!) ?rows) gids = computed" using cl v(3) rows range trunc(2) by (intro nth_equalityI) (simp_all del: nth_map add: nth_map [of _ gids])
      with True k(3) v show ?thesis by auto
    next
      case False
      with g tail_looked_up [OF ok(1) ags] have g0: "?g = g0" by (auto simp: ags)
      let ?m = "nat (n div int ?bs)"
      have "hit_call_ok spec (coord_use_eagle c) (lcm_block_size c) 1 1" "int ?bs dvd int (lcm_block_size c)"
        using gok [OF g] by (auto simp: group_ok_def)
      then have bs: "0 < ?bs" "int ?bs dvd n" using l(4) dvd_trans by (cases spec; auto)+
      then have n: "n = int (?m * ?bs)" using l(3) by (simp add: pos_imp_zdiv_nonneg_iff)
      have "int (?m * ?bs) \<le> int (k * ?bs)" using k(1) n by simp
      then have m: "?m \<le> k" using bs(1) by (simp only: of_nat_le_iff) simp
      have full: "isinstance_full spec" using False by (simp add: looked_up_def)
      have "\<not> looked_up g0" "snd g0 = gids" "blocks_of g0 = ?bs" using False g0 by (auto simp: blocks_of_def)
      then have eq: "map ((!) ?rows) gids = map (take ?m) computed"
        using cl v(3) rows range trunc(3) by (intro nth_equalityI) (simp_all del: nth_map add: nth_map [of _ gids] nth_map [of _ computed])
      show ?thesis unfolding eq by (intro exI [of _ ?m] exI [of _ v] conjI n v(1) covers_take [OF v(2) full m bs(1)])
    qed
  qed
  then show ?thesis using run l(2,3) trunc(1) by (intro exI [of _ ?rows] exI [of _ n]) auto
qed

end
