(* ===== verification/Admission.thy ===== *)
theory Admission
  imports KV_Manager Hybrid_Hit
begin

text \<open>
  The way of a new request into the cache: \<^verbatim>\<open>get_computed_blocks\<close> followed by
  \<^verbatim>\<open>allocate_slots\<close>. What the lookup returns satisfies what the allocation relies on.
\<close>

section \<open>Lookup\<close>

text \<open>
  The static part of a coordinator with prefix caching, as its constructor leaves it for a model with at most one
  full-attention spec.
\<close>

definition coordinator_ok :: "coordinator \<Rightarrow> bool" where
  "coordinator_ok c \<longleftrightarrow> 0 < hash_block_size (coord_pool c) \<and>
     (\<forall>i < length (single_type_managers c). kv_cache_group_id (single_type_managers c ! i) = int i \<and> i < 2 ^ 32 \<and>
        mgr_enable_caching (single_type_managers c ! i) \<and> spec_ok (kv_cache_spec (single_type_managers c ! i)) \<and>
        \<not> is_cross (kv_cache_spec (single_type_managers c ! i))) \<and>
     (case coord_class c of
        NoPrefixCacheCoordinator \<Rightarrow> False
      | UnitaryCoordinator \<Rightarrow> length (single_type_managers c) = 1 \<and>
          (let m = single_type_managers c ! 0
           in kv_cache_spec m = unitary_spec c \<and> block_size m = unitary_block_size c \<and>
              unitary_block_size c = world_block_size (unitary_spec c) (coord_dcp c) (coord_pcp c) \<and>
              hash_block_size (coord_pool c) = unitary_block_size c \<and>
              hit_call_ok (unitary_spec c) (coord_use_eagle c) (unitary_block_size c) (coord_dcp c) (coord_pcp c))
      | HybridCoordinator \<Rightarrow> hybrid_ok c \<and> attention_groups c \<noteq> [] \<and>
          (\<forall>i < length (single_type_managers c). \<exists>((spec, _), gids) \<in> set (attention_groups c).
             i \<in> set gids \<and> kv_cache_spec (single_type_managers c ! i) = spec \<and> block_size (single_type_managers c ! i) = spec_block_size spec))"

definition row_hit :: "bytes list \<Rightarrow> coordinator \<Rightarrow> int \<Rightarrow> nat \<Rightarrow> block_ref list \<Rightarrow> bool" where
  "row_hit hs c n i row \<longleftrightarrow> (\<exists>k v. n = int (k * block_size (single_type_managers c ! i)) \<and>
     block_hashes_for (hash_block_size (coord_pool c)) (block_size (single_type_managers c ! i)) hs = Inr v \<and>
     hit_covers (kv_cache_spec (single_type_managers c ! i)) (coord_pool c) [int i] (bhl_values v)
       (block_size (single_type_managers c ! i)) k [row] \<and> k \<le> bhl_length v)"

lemma covers_row:
  "hit_covers spec p gids hs bs k computed \<Longrightarrow> j < length gids \<Longrightarrow> hit_covers spec p [gids ! j] hs bs k [computed ! j]"
  unfolding hit_covers_def by simp

lemma view_blocks:
  assumes "0 < hbs" "hbs dvd bs" "block_hashes_for hbs bs hs = Inr v" "int (k * bs) \<le> n" "nat (n div int hbs) \<le> length hs" "0 < bs"
  shows "k \<le> bhl_length v"
proof -
  have "k * bs \<le> nat n" using assms(4) by linarith
  then have "k \<le> nat n div bs" using assms(6) by (simp add: less_eq_div_iff_mult_less_eq)
  also have "\<dots> = nat n div hbs div (bs div hbs)" using assms(2) by (metis div_mult2_eq dvd_mult_div_cancel)
  also have "\<dots> \<le> length hs div (bs div hbs)"
  proof (rule div_le_mono)
    have "0 \<le> n" using assms(4) order_trans [OF of_nat_0_le_iff] by blast
    then show "nat n div hbs \<le> length hs" using assms(5) by (simp add: nat_div_distrib)
  qed
  also have "\<dots> = bhl_length v" using assms(1,2,3) by (auto simp: block_hashes_for_def BlockHashListWithBlockSize_def split: if_splits)
  finally show ?thesis .
qed

lemma coord_lookup_spec:
  assumes rep: "pool_rep (coord_pool c) xs" and ok: "coordinator_ok c" and len: "0 \<le> n" "nat (n div int (hash_block_size (coord_pool c))) \<le> length hs"
  shows "\<exists>rows n'. coord_find_longest_cache_hit hs n c = Some (Inr (rows, n')) \<and> 0 \<le> n' \<and> n' \<le> n \<and>
    length rows = length (single_type_managers c) \<and> (\<forall>i < length rows. row_hit hs c n' i (rows ! i))"
proof (cases "coord_class c")
  case NoPrefixCacheCoordinator
  with ok show ?thesis by (simp add: coordinator_ok_def)
next
  case UnitaryCoordinator
  let ?m = "single_type_managers c ! 0" and ?p = "coord_pool c" and ?bs = "unitary_block_size c"
  from ok UnitaryCoordinator have u: "length (single_type_managers c) = 1" "kv_cache_spec ?m = unitary_spec c" "block_size ?m = ?bs"
    "?bs = world_block_size (unitary_spec c) (coord_dcp c) (coord_pcp c)" "hash_block_size ?p = ?bs"
    "hit_call_ok (unitary_spec c) (coord_use_eagle c) ?bs (coord_dcp c) (coord_pcp c)" "0 < ?bs"
    by (auto simp: coordinator_ok_def Let_def)
  have gids: "gids_ok [0]" and v: "view_ok (PlainHashes hs)" by (simp_all add: gids_ok_def view_ok_def)
  have "nat (n div int ?bs) \<le> bhl_length (PlainHashes hs)" using len(2) u(5) by simp
  from find_hit_covers [OF rep gids v u(6,4) len(1) this] obtain k computed where
    k: "find_longest_cache_hit (unitary_spec c) (PlainHashes hs) n [0] ?p (coord_use_eagle c) ?bs (coord_dcp c) (coord_pcp c) = Inr computed"
      "int (k * ?bs) \<le> n" "hit_covers (unitary_spec c) ?p [0] (bhl_values (PlainHashes hs)) ?bs k computed" by blast
  obtain row where row: "computed = [row]" "length row = k" using k(3) by (auto simp: hit_covers_def length_Suc_conv)
  have hs: "block_hashes_for (hash_block_size ?p) ?bs hs = Inr (PlainHashes hs)" using u(5) by (simp add: block_hashes_for_def)
  have short: "k \<le> bhl_length (PlainHashes hs)" by (rule view_blocks [OF _ _ hs k(2) len(2)]) (use u in simp_all)
  have "coord_find_longest_cache_hit hs n c = Some (Inr ([row], int (k * ?bs)))"
    using UnitaryCoordinator k(1) row by (simp add: coord_find_longest_cache_hit_def unitary_find_longest_cache_hit_def)
  moreover have "row_hit hs c (int (k * ?bs)) 0 row"
    unfolding row_hit_def u(2,3) by (intro exI [of _ k] exI [of _ "PlainHashes hs"]) (use hs short k(3) row in simp)
  ultimately show ?thesis using k(2) u(1) by (intro exI [of _ "[row]"] exI [of _ "int (k * ?bs)"]) simp
next
  case HybridCoordinator
  from ok HybridCoordinator have h: "hybrid_ok c" "attention_groups c \<noteq> []" "0 < hash_block_size (coord_pool c)"
    "\<forall>i < length (single_type_managers c). \<exists>((spec, _), gids) \<in> set (attention_groups c).
       i \<in> set gids \<and> kv_cache_spec (single_type_managers c ! i) = spec \<and> block_size (single_type_managers c ! i) = spec_block_size spec"
    by (auto simp: coordinator_ok_def)
  from hybrid_hit_spec [OF rep h(1,2) len] obtain rows n' where
    r: "hybrid_find_longest_cache_hit hs n c = Some (Inr (rows, n'))" "0 \<le> n'" "n' \<le> n" "length rows = length (single_type_managers c)"
      "\<forall>((spec, l), gids) \<in> set (attention_groups c). \<exists>k v. n' = int (k * spec_block_size spec) \<and>
       block_hashes_for (hash_block_size (coord_pool c)) (spec_block_size spec) hs = Inr v \<and>
       hit_covers spec (coord_pool c) (map int gids) (bhl_values v) (spec_block_size spec) k (map ((!) rows) gids)" by blast
  have "row_hit hs c n' i (rows ! i)" if i: "i < length rows" for i
  proof -
    from h(4) i r(4) obtain spec l gids where g: "((spec, l), gids) \<in> set (attention_groups c)" "i \<in> set gids"
      "kv_cache_spec (single_type_managers c ! i) = spec" "block_size (single_type_managers c ! i) = spec_block_size spec" by fastforce
    from r(5) g(1) obtain k v where k: "n' = int (k * spec_block_size spec)"
      "block_hashes_for (hash_block_size (coord_pool c)) (spec_block_size spec) hs = Inr v"
      "hit_covers spec (coord_pool c) (map int gids) (bhl_values v) (spec_block_size spec) k (map ((!) rows) gids)" by fastforce
    from g(2) obtain j where j: "j < length gids" "gids ! j = i" by (auto simp: in_set_conv_nth)
    from covers_row [OF k(3), of j] j have cov: "hit_covers spec (coord_pool c) [int i] (bhl_values v) (spec_block_size spec) k [rows ! i]" by simp
    have grp: "hash_block_size (coord_pool c) dvd spec_block_size spec" "hit_call_ok spec (coord_use_eagle c) (lcm_block_size c) 1 1"
      using h(1) g(1) by (auto simp: hybrid_ok_def group_ok_def)
    have bs: "0 < spec_block_size spec" using grp(2) by (cases spec) auto
    have "k \<le> bhl_length v" by (rule view_blocks [OF h(3) grp(1) k(2) _ len(2) bs]) (use k(1) r(3) in simp)
    then show ?thesis unfolding row_hit_def g(3,4) using k(1,2) cov by blast
  qed
  then show ?thesis using r HybridCoordinator by (intro exI [of _ rows] exI [of _ n']) (simp add: coord_find_longest_cache_hit_def)
qed

section \<open>From lookup to allocation\<close>

text \<open>
  The hashes of a request are distinct at every block size in use; with chained hashes this is
  the absence of collisions.
\<close>

definition hashes_distinct :: "bytes list \<Rightarrow> coordinator \<Rightarrow> bool" where
  "hashes_distinct hs c \<longleftrightarrow> (\<forall>m \<in> set (single_type_managers c). \<forall>v.
     block_hashes_for (hash_block_size (coord_pool c)) (block_size m) hs = Inr v \<longrightarrow> distinct (bhl_values v))"

definition new_request :: "string \<Rightarrow> coordinator \<Rightarrow> bool" where
  "new_request rid c \<longleftrightarrow> (\<forall>m \<in> set (single_type_managers c). req_blocks rid m = [] \<and> \<not> is_running rid m)"

lemma row_admissible:
  assumes ok: "coordinator_ok c" and rep: "pool_rep (coord_pool c) xs" and new: "new_request rid c" and dist: "hashes_distinct hs c"
    and hit: "row_hit hs c n i row" and i: "i < length (single_type_managers c)"
  shows "admissible rid n row (single_type_managers c ! i) (coord_pool c)"
proof -
  let ?m = "single_type_managers c ! i" and ?p = "coord_pool c"
  from hit obtain k v where k: "n = int (k * block_size ?m)" "block_hashes_for (hash_block_size ?p) (block_size ?m) hs = Inr v"
    "hit_covers (kv_cache_spec ?m) ?p [int i] (bhl_values v) (block_size ?m) k [row]" "k \<le> bhl_length v" unfolding row_hit_def by blast
  have "distinct (bhl_values v)" using dist k(2) i unfolding hashes_distinct_def by auto
  then have "hits_ok ?p row"
    using covers_hits_ok [OF k(3), of 0] k(4) pool_tableD(3) [OF pool_repD(1) [OF rep]] by simp
  moreover have "length row = k" using k(3) by (simp add: hit_covers_def)
  moreover have "mgr_enable_caching ?m" "spec_ok (kv_cache_spec ?m)" "\<not> is_cross (kv_cache_spec ?m)" using ok i by (auto simp: coordinator_ok_def)
  moreover have "req_blocks rid ?m = []" "\<not> is_running rid ?m" using new i by (auto simp: new_request_def)
  ultimately show ?thesis using k(1) by (simp add: admissible_def)
qed

lemma row_hit_group: "row_hit hs c n i row \<Longrightarrow> b \<in> set row \<Longrightarrow> b = null_block (coord_pool c) \<or> (\<exists>h. carries (coord_pool c) b h (int i))"
  unfolding row_hit_def hit_covers_def holds_def by (auto simp: in_set_conv_nth simp del: bhl_values.simps)

lemma rows_of_groups_disjoint:
  assumes "\<forall>i < length rows. row_hit hs c n i (rows ! i)"
  shows "rows_disjoint (null_block (coord_pool c)) rows"
  unfolding rows_disjoint_def
proof (intro allI impI subsetI)
  fix i j b
  assume ij: "i < j" "j < length rows" and b: "b \<in> set (rows ! i) \<inter> set (rows ! j)"
  show "b \<in> {null_block (coord_pool c)}"
  proof (rule ccontr)
    assume "b \<notin> {null_block (coord_pool c)}"
    then obtain h h' where "carries (coord_pool c) b h (int i)" "carries (coord_pool c) b h' (int j)"
      using row_hit_group [of hs c n i "rows ! i" b] row_hit_group [of hs c n j "rows ! j" b] assms ij b by fastforce
    then show False using carries_inj ij(1) by fastforce
  qed
qed

lemma lookup_meets_slots_pre:
  assumes inv: "coord_inv (coordinator k)" and ok: "coordinator_ok (coordinator k)" and caching: "kv_enable_caching k" "\<not> skip_reading_prefix_cache r"
    and r: "0 < num_tokens r" "num_computed_tokens r = 0" "new_request (request_id r) (coordinator k)"
      "length (block_hashes r) = num_tokens r div hash_block_size (coord_pool (coordinator k))" "hashes_distinct (block_hashes r) (coordinator k)"
    and pool: "enable_caching (coord_pool (coordinator k))" "num_kv_cache_groups k = length (single_type_managers (coordinator k))"
      "\<forall>m \<in> set (single_type_managers (coordinator k)). hash_block_size (coord_pool (coordinator k)) dvd block_size m"
    and stats: "log_stats k \<longrightarrow> kv_stats k \<noteq> None"
  shows "\<exists>b n k'. get_computed_blocks r k = Some (Inr (b, n, k')) \<and> 0 \<le> n \<and> n < int (num_tokens r) \<and> coordinator k' = coordinator k \<and>
    (\<forall>num_new look delay. 0 < num_new \<longrightarrow> 0 \<le> look \<longrightarrow> n + num_new \<le> max_model_len k \<longrightarrow> slots_pre r num_new n b look 0 delay k')"
proof -
  let ?c = "coordinator k" and ?hs = "block_hashes r"
  let ?ms = "single_type_managers (coordinator k)" and ?h = "hash_block_size (coord_pool (coordinator k))"
  from inv obtain xs where rep: "pool_rep (coord_pool ?c) xs" by (auto simp: coord_inv_def mgrs_inv_def pool_inv_def)
  have hbs: "0 < ?h" using ok by (simp add: coordinator_ok_def)
  have "nat ((int (num_tokens r) - 1) div int ?h) \<le> length ?hs"
  proof -
    have "(int (num_tokens r) - 1) div int ?h \<le> int (num_tokens r) div int ?h" using hbs by (intro zdiv_mono1) simp_all
    then show ?thesis using r(4) by (simp add: nat_le_iff of_nat_div)
  qed
  from coord_lookup_spec [OF rep ok _ this] r(1) obtain rows n where
    l: "coord_find_longest_cache_hit ?hs (int (num_tokens r) - 1) ?c = Some (Inr (rows, n))" "0 \<le> n" "n \<le> int (num_tokens r) - 1"
      "length rows = length ?ms" "\<forall>i < length rows. row_hit ?hs ?c n i (rows ! i)" by auto
  let ?b = "create_kv_cache_blocks rows k"
  obtain k' where k': "get_computed_blocks r k = Some (Inr (?b, n, k'))" "coordinator k' = ?c" "max_model_len k' = max_model_len k"
    "kv_enable_caching k' = kv_enable_caching k"
    using caching l(1) stats by (cases "log_stats k"; cases "kv_stats k") (auto simp: get_computed_blocks_def)
  have adm: "\<forall>i < length ?ms. admissible (request_id r) n (rows ! i) (?ms ! i) (coord_pool ?c)"
    using row_admissible [OF ok rep r(3,5)] l(4,5) by simp
  have disj: "rows_disjoint (null_block (coord_pool ?c)) rows" using rows_of_groups_disjoint l(5) .
  have static: "\<forall>m \<in> set ?ms. \<not> is_cross (kv_cache_spec m) \<and> ?h dvd block_size m \<and> 0 \<le> kv_cache_group_id m \<and> kv_cache_group_id m < 2 ^ 32"
    using ok pool(3) unfolding coordinator_ok_def all_set_conv_all_nth by auto
  have kinds: "if shared_empty ?b \<and> (0::int) = 0
          then (\<forall>row \<in> set (kv_rows ?b). row = []) \<and> (\<forall>m \<in> set ?ms. computed_have_slots (request_id r) n m)
          else (\<forall>i < length ?ms. admissible (request_id r) n (kv_rows ?b ! i) (?ms ! i) (coord_pool ?c)) \<and>
            rows_disjoint (null_block (coord_pool ?c)) (kv_rows ?b) \<and> ((0::int) = 0 \<or> length ?ms \<le> 1)"
  proof (cases "\<exists>row \<in> set rows. row \<noteq> []")
    case True
    then show ?thesis using adm disj by (simp add: create_kv_cache_blocks_def)
  next
    case False
    have "computed_have_slots (request_id r) n m" if "m \<in> set ?ms" for m
    proof -
      from that obtain i where i: "i < length ?ms" "m = ?ms ! i" by (auto simp: in_set_conv_nth)
      then have "rows ! i = []" using False l(4) by (metis nth_mem)
      moreover obtain q v where q: "n = int (q * block_size m)"
        "hit_covers (kv_cache_spec m) (coord_pool ?c) [int i] (bhl_values v) (block_size m) q [rows ! i]"
        using l(5) [rule_format, of i] l(4) i(1) unfolding row_hit_def i(2) by auto
      moreover from q(2) have "q = length (rows ! i)" by (simp add: hit_covers_def)
      ultimately have "n = 0" by simp
      then show ?thesis using adm i ok by (auto simp: computed_have_slots_def coordinator_ok_def)
    qed
    with False show ?thesis by (simp add: create_kv_cache_blocks_def empty_kv_cache_blocks_def)
  qed
  have len: "length (kv_rows ?b) = length ?ms" using l(4) pool(2) by (simp add: create_kv_cache_blocks_def empty_kv_cache_blocks_def)
  have "slots_pre r num_new n ?b look 0 delay k'" if "0 < num_new" "0 \<le> look" "n + num_new \<le> max_model_len k" for num_new look delay
    unfolding slots_pre_def Let_def k'(2-4) r(2) add_0 using that l(2) len kinds static hbs r(4) pool(1) by simp
  then show ?thesis using k'(1,2) l(2,3) by (intro exI [of _ ?b] exI [of _ n] exI [of _ k']) auto
qed


section \<open>External tokens and several groups\<close>

text \<open>The exact table of a request that is admitted with external tokens, for a manager that skips nothing.\<close>

lemma adopt_run:
  assumes rep: "pool_rep p xs" and m: "req_blocks rid m = []" "\<not> is_running rid m" "mgr_enable_caching m" "\<not> is_cross (kv_cache_spec m)"
      "get_num_skipped_tokens (kv_cache_spec m) (nl + ne) = 0"
    and row: "set row \<subseteq> set (blocks p)" and ne: "0 < ne"
    and k: "int k = cdiv (nl + ne) (int (block_size m)) - int (length row)" "k \<le> length (filter (\<lambda>b. b \<notin> set row) xs)"
  shows "\<exists>m' p'. allocate_new_computed_blocks rid row nl ne m p = Inr (m', p') \<and>
    req_blocks rid m' = row @ take k (filter (\<lambda>b. b \<notin> set row) xs) \<and>
    pool_rep p' (drop k (filter (\<lambda>b. b \<notin> set row) xs)) \<and> same_pool p p'"
proof -
  let ?xs = "filter (\<lambda>b. b \<notin> set row) xs"
  from touch_spec [OF rep row] obtain p1 where p1: "touch row p = Inr p1" "pool_rep p1 ?xs" "same_pool p p1" by blast
  have "pool_rep p1 (take k ?xs @ drop k ?xs)" "int (length (take k ?xs)) = int k" using p1(2) k(2) by simp_all
  with get_new_blocks_spec [of p1 "take k ?xs" "drop k ?xs"] obtain p2 where
    p2: "get_new_blocks (int k) p1 = Inr (take k ?xs, p2)" "pool_rep p2 (drop k ?xs)" "same_pool p1 p2" by auto
  let ?m1 = "(set_req_blocks rid row m)\<lparr>num_cached_block := dict_set rid (length row) (num_cached_block m)\<rparr>"
  let ?m2 = "note_new_ids (take k ?xs) p2 (set_req_blocks rid (row @ take k ?xs) ?m1)"
  have "allocate_new_computed_blocks rid row nl ne m p = Inr (?m2, p2)"
    using m ne p1(1) p2(1) by (simp add: allocate_new_computed_blocks_def Let_def flip: k(1))
  moreover have "req_blocks rid ?m2 = row @ take k ?xs" by simp
  ultimately show ?thesis using p2(2) same_pool_trans [OF p1(3) p2(3)] by blast
qed

text \<open>A pool whose oldest free block is a hit of the second group.\<close>

definition pair_config :: kv_cache_config where
  "pair_config = \<lparr>num_blocks = 5, kv_cache_groups = [(FullAttentionSpec 1, 0), (SlidingWindowSpec 1 8, 0)]\<rparr>"

lemma cache_one_block:
  assumes "pool_rep p xs" "b \<in> set (blocks p)" "b \<noteq> null_block p" "hashes p b = None" "hash_block_size p = 1" "1 \<le> length (block_hashes r)"
    "0 \<le> gid" "gid < 2 ^ 32"
  shows "\<exists>p' r'. cache_full_blocks sha256 r [b] 0 1 1 gid p = Inr (p', r') \<and> pool_rep p' xs \<and> same_pool p p' \<and>
    holds p' b (block_hashes r ! 0) gid \<and> (\<forall>b'. b' \<noteq> b \<longrightarrow> hashes p' b' = hashes p b')"
proof -
  have v: "block_hashes_for (hash_block_size p) 1 (block_hashes r) = Inr (PlainHashes (block_hashes r))"
    using assms(5) by (simp add: block_hashes_for_def)
  from cache_full_blocks_spec [OF assms(1) _ _ _ _ _ v _ assms(7,8), of 0 1 "[b]" sha256] assms obtain p' r' where
    p': "cache_full_blocks sha256 r [b] 0 1 1 gid p = Inr (p', r')" "pool_rep p' xs" "same_pool p p'"
      "carries p' b (block_hashes r ! 0) gid" "\<forall>b'. b' \<noteq> b \<longrightarrow> hashes p' b' = hashes p b'"
    by (simp add: py_slice_def) blast
  then show ?thesis using assms(2,3) by (auto simp: holds_def same_pool_def)
qed


section \<open>Properties\<close>

text \<open>
  C6. A new request gets through. With prefix caching on, for one group or for several kinds of
  attention, looking up the cached prefix of a new request returns, finds fewer tokens than the
  request has, and what it returns can be handed to \<^verbatim>\<open>allocate_slots\<close>: that call does
  not raise for any number of new tokens within the model length, keeps the ownership invariant, and
  if it returns blocks, every group has slots for the hit, the new tokens and the lookahead. The
  block hashes of the request are assumed to be distinct.
\<close>

theorem lookup_then_allocate:
  assumes "coord_inv (coordinator k)" "coordinator_ok (coordinator k)" "kv_enable_caching k" "\<not> skip_reading_prefix_cache r"
    and "0 < num_tokens r" "num_computed_tokens r = 0" "new_request (request_id r) (coordinator k)"
    and "length (block_hashes r) = num_tokens r div hash_block_size (coord_pool (coordinator k))" "hashes_distinct (block_hashes r) (coordinator k)"
    and "enable_caching (coord_pool (coordinator k))" "num_kv_cache_groups k = length (single_type_managers (coordinator k))"
    and "\<forall>m \<in> set (single_type_managers (coordinator k)). hash_block_size (coord_pool (coordinator k)) dvd block_size m"
    and "log_stats k \<longrightarrow> kv_stats k \<noteq> None"
  shows "\<exists>b n k'. get_computed_blocks r k = Some (Inr (b, n, k')) \<and> 0 \<le> n \<and> n < int (num_tokens r) \<and>
    (\<forall>num_new look. 0 < num_new \<longrightarrow> 0 \<le> look \<longrightarrow> n + num_new \<le> max_model_len k \<longrightarrow>
       (\<exists>out k'' r'. allocate_slots sha256 r num_new n (Some b) look 0 delay enc k' = Inr (out, k'', r') \<and> coord_inv (coordinator k'') \<and>
          (out \<noteq> None \<longrightarrow> (\<forall>m \<in> set (single_type_managers (coordinator k'')).
             slots_for (min (n + num_new + look) (max_model_len k')) enc m \<le> int (length (req_blocks (request_id r) m))))))"
proof -
  from lookup_meets_slots_pre [OF assms] obtain b n k' where l: "get_computed_blocks r k = Some (Inr (b, n, k'))" "0 \<le> n" "n < int (num_tokens r)"
    "coordinator k' = coordinator k"
    "\<And>num_new look delay. 0 < num_new \<Longrightarrow> 0 \<le> look \<Longrightarrow> n + num_new \<le> max_model_len k \<Longrightarrow> slots_pre r num_new n b look 0 delay k'" by blast
  have inv: "coord_inv (coordinator k')" using assms(1) l(4) by simp
  have "\<exists>out k'' r'. allocate_slots sha256 r num_new n (Some b) look 0 delay enc k' = Inr (out, k'', r') \<and> coord_inv (coordinator k'') \<and>
          (out \<noteq> None \<longrightarrow> (\<forall>m \<in> set (single_type_managers (coordinator k'')).
             slots_for (min (n + num_new + look) (max_model_len k')) enc m \<le> int (length (req_blocks (request_id r) m))))"
    if "0 < num_new" "0 \<le> look" "n + num_new \<le> max_model_len k" for num_new look
  proof -
    have b: "b = (case Some b of Some x \<Rightarrow> x | None \<Rightarrow> empty_kv_cache_blocks k')" by simp
    from allocate_slots_spec [OF inv b l(5) [OF that, of delay] refl, of sha256 enc] obtain out k'' r' where
      "allocate_slots sha256 r num_new n (Some b) look 0 delay enc k' = Inr (out, k'', r')" "coord_inv (coordinator k'')"
      "case out of None \<Rightarrow> \<exists>x. coord_get_num_blocks_to_allocate (request_id r) (min (num_computed_tokens r + n + 0 + num_new + look) (max_model_len k')) (kv_rows b) enc
          (num_computed_tokens r + n + 0) (coordinator k'') = Inr x \<and> get_num_free_blocks (coord_pool (coordinator k'')) < x
       | Some _ \<Rightarrow> \<forall>m \<in> set (single_type_managers (coordinator k'')).
          slots_for (min (num_computed_tokens r + n + 0 + num_new + look) (max_model_len k')) enc m \<le> int (length (req_blocks (request_id r) m))" by blast
    then show ?thesis using assms(6) by (intro exI [of _ out] exI [of _ k''] exI [of _ r']) auto
  qed
  with l(1-3) show ?thesis by blast
qed

lemma small_request:
  "\<exists>r k. text_request [7, 8] = Inr r \<and> KVCacheManager small_config 8 1 True False False False 1 1 False = Inr k \<and>
     coord_inv (coordinator k) \<and> coordinator_ok (coordinator k) \<and> kv_enable_caching k \<and> \<not> skip_reading_prefix_cache r \<and> num_tokens r = 2 \<and>
     num_computed_tokens r = 0 \<and> new_request (request_id r) (coordinator k) \<and>
     length (block_hashes r) = num_tokens r div hash_block_size (coord_pool (coordinator k)) \<and> hashes_distinct (block_hashes r) (coordinator k) \<and>
     enable_caching (coord_pool (coordinator k)) \<and> num_kv_cache_groups k = length (single_type_managers (coordinator k)) \<and>
     (\<forall>m \<in> set (single_type_managers (coordinator k)). hash_block_size (coord_pool (coordinator k)) dvd block_size m) \<and>
     (log_stats k \<longrightarrow> kv_stats k \<noteq> None) \<and> max_model_len k = 8"
proof -
  from text_request_exists [of "[7, 8]"] obtain r where r: "text_request [7, 8] = Inr r" "hashed_request id tagging_hash [0] 1 r"
    "all_token_ids r = [7, 8]" "lora_request r = None" "cache_salt r = None" "prompt_embeds r = None" "mm_features r = []"
    "num_computed_tokens r = 0" "\<not> skip_reading_prefix_cache r" "mm_settled 1 r" by auto
  have hs: "block_hashes r = [[0, 7], [0, 7, 8]]"
    using hashed_request_ok [OF r(2) _ r(10)]
    by (simp add: hashes_ok_def r(3-7) block_content_def block_extra_keys_def gen_lora_extra_hash_keys_def cache_salt_keys_def py_slice_def
        num_tokens_def upt_rec hash_block_tokens_def tagging_hash_def parent_of_def Let_def)
  from small_manager obtain k p where k: "KVCacheManager small_config 8 1 True False False False 1 1 False = Inr k" "coord_inv (coordinator k)"
    "coord_pool (coordinator k) = p" "single_type_managers (coordinator k) = [SingleTypeKVCacheManager (FullAttentionSpec 1) p True 0 1 1]"
    "enable_caching p" "hash_block_size p = 1" "max_model_len k = 8" "kv_enable_caching k" "num_kv_cache_groups k = 1"
    "coord_class (coordinator k) = UnitaryCoordinator" "unitary_spec (coordinator k) = FullAttentionSpec 1"
    "unitary_block_size (coordinator k) = 1" "coord_dcp (coordinator k) = 1" "coord_pcp (coordinator k) = 1" "\<not> log_stats k" by blast
  have "coordinator_ok (coordinator k)"
    using k(3-6,10-14) by (simp add: coordinator_ok_def SingleTypeKVCacheManager_def world_block_size_def Let_def)
  moreover have "new_request (request_id r) (coordinator k)"
    using k(4) by (simp add: new_request_def) (simp add: SingleTypeKVCacheManager_def is_running_def)
  moreover have "hashes_distinct (block_hashes r) (coordinator k)"
    using k(3,4,6) hs by (simp add: hashes_distinct_def SingleTypeKVCacheManager_def block_hashes_for_def)
  moreover have "\<forall>m \<in> set (single_type_managers (coordinator k)). hash_block_size (coord_pool (coordinator k)) dvd block_size m"
    using k(3,4,6) by simp
  ultimately show ?thesis using r(1,3,8,9) k hs by (auto simp: num_tokens_def)
qed

theorem lookup_then_allocate_witness:
  "\<exists>r k b n k' out k'' r'. text_request [7, 8] = Inr r \<and> KVCacheManager small_config 8 1 True False False False 1 1 False = Inr k \<and>
     get_computed_blocks r k = Some (Inr (b, n, k')) \<and> n < 2 \<and>
     allocate_slots id r 1 n (Some b) 0 0 False 0 k' = Inr (out, k'', r') \<and> coord_inv (coordinator k'')"
proof -
  from small_request obtain r k where s: "text_request [7, 8] = Inr r" "KVCacheManager small_config 8 1 True False False False 1 1 False = Inr k"
    "coord_inv (coordinator k)" "coordinator_ok (coordinator k)" "kv_enable_caching k" "\<not> skip_reading_prefix_cache r" "num_tokens r = 2"
    "num_computed_tokens r = 0" "new_request (request_id r) (coordinator k)"
    "length (block_hashes r) = num_tokens r div hash_block_size (coord_pool (coordinator k))" "hashes_distinct (block_hashes r) (coordinator k)"
    "enable_caching (coord_pool (coordinator k))" "num_kv_cache_groups k = length (single_type_managers (coordinator k))"
    "\<forall>m \<in> set (single_type_managers (coordinator k)). hash_block_size (coord_pool (coordinator k)) dvd block_size m"
    "log_stats k \<longrightarrow> kv_stats k \<noteq> None" "max_model_len k = 8" by blast
  have pos: "0 < num_tokens r" using s(7) by simp
  from lookup_then_allocate [OF s(3-6) pos s(8-15), of id False 0] obtain b n k' where
    l: "get_computed_blocks r k = Some (Inr (b, n, k'))" "n < int (num_tokens r)" and
    a: "\<forall>num_new look. 0 < num_new \<longrightarrow> 0 \<le> look \<longrightarrow> n + num_new \<le> max_model_len k \<longrightarrow>
       (\<exists>out k'' r'. allocate_slots id r num_new n (Some b) look 0 False 0 k' = Inr (out, k'', r') \<and> coord_inv (coordinator k'') \<and>
          (out \<noteq> None \<longrightarrow> (\<forall>m \<in> set (single_type_managers (coordinator k'')).
             slots_for (min (n + num_new + look) (max_model_len k')) 0 m \<le> int (length (req_blocks (request_id r) m)))))" by blast
  from l(2) s(7,16) have "n + 1 \<le> max_model_len k" by simp
  with a [rule_format, of 1 0] obtain out k'' r' where
    "allocate_slots id r 1 n (Some b) 0 0 False 0 k' = Inr (out, k'', r')" "coord_inv (coordinator k'')" by auto
  moreover have "n < 2" using l(2) s(7) by simp
  ultimately show ?thesis using s(1,2) l(1) by blast
qed

text \<open>
  C19. Why external tokens are limited to one group above. When a request is admitted with cache hits
  and external tokens, the managers run one after the other, and each allocates for the external
  tokens before the next one has touched its hits. If the oldest free block is a hit of the second
  group, the first manager takes it (and evicts its content), and the second manager adopts it
  as a hit all the same: the call succeeds and one block serves two groups of the request.
\<close>

theorem external_tokens_share_block:
  assumes "pool_rep (coord_pool c) xs" "single_type_managers c = [m0, m1]"
    and "\<forall>m \<in> {m0, m1}. req_blocks rid m = [] \<and> \<not> is_running rid m \<and> mgr_enable_caching m \<and> \<not> is_cross (kv_cache_spec m) \<and>
       get_num_skipped_tokens (kv_cache_spec m) (nl + ne) = 0"
    and "set row0 \<union> set row1 \<subseteq> set (blocks (coord_pool c))" "0 < ne" "0 < k0"
    and "int k0 = cdiv (nl + ne) (int (block_size m0)) - int (length row0)" "int k1 = cdiv (nl + ne) (int (block_size m1)) - int (length row1)"
    and "filter (\<lambda>x. x \<notin> set row0) xs = b # ys" "b \<in> set row1" "k0 \<le> length (b # ys)"
    and "k1 \<le> length (filter (\<lambda>x. x \<notin> set row1) (drop k0 (b # ys)))"
  shows "\<exists>c'. coord_allocate_new_computed_blocks rid [row0, row1] nl ne c = Inr c' \<and>
    b \<in> set (req_blocks rid (single_type_managers c' ! 0)) \<and> b \<in> set (req_blocks rid (single_type_managers c' ! 1))"
proof -
  have k0: "k0 \<le> length (filter (\<lambda>x. x \<notin> set row0) xs)" using assms(9,11) by simp
  from adopt_run [OF assms(1) _ _ _ _ _ _ assms(5,7) k0, of rid] assms(3,4) obtain m0' p1 where
    a: "allocate_new_computed_blocks rid row0 nl ne m0 (coord_pool c) = Inr (m0', p1)" "req_blocks rid m0' = row0 @ take k0 (b # ys)"
      "pool_rep p1 (drop k0 (b # ys))" "same_pool (coord_pool c) p1" unfolding assms(9) by auto
  have "set row1 \<subseteq> set (blocks p1)" using assms(4) a(4) by (auto simp: same_pool_def)
  from adopt_run [OF a(3) _ _ _ _ _ this assms(5,8,12), of rid] assms(3) obtain m1' p2 where
    d: "allocate_new_computed_blocks rid row1 nl ne m1 p1 = Inr (m1', p2)"
      "req_blocks rid m1' = row1 @ take k1 (filter (\<lambda>x. x \<notin> set row1) (drop k0 (b # ys)))" by auto
  have upt: "[0..<length [m0, m1]] = [0, 1]" by (simp add: upt_rec)
  have "coord_allocate_new_computed_blocks rid [row0, row1] nl ne c = Inr (with_state [m0', m1'] p2 c)"
    unfolding coord_allocate_new_computed_blocks_def each_manager_def assms(2) upt
    using a(1) d(1) by (simp add: call_manager_def group_blocks_def)
  moreover have "b \<in> set (req_blocks rid m0')" using a(2) assms(6) by (cases k0) simp_all
  moreover have "b \<in> set (req_blocks rid m1')" using d(2) assms(10) by simp
  ultimately show ?thesis by (intro exI [of _ "with_state [m0', m1'] p2 c"]) simp
qed

theorem external_tokens_share_block_witness:
  "\<exists>r c p c'. text_request [7, 8, 9] = Inr r \<and> HybridKVCacheCoordinator pair_config False True False 1 1 1 False = Inr c \<and>
     holds p (Blk 2) (block_hashes r ! 0) 0 \<and> holds p (Blk 1) (block_hashes r ! 0) 1 \<and>
     coord_allocate_new_computed_blocks ''r'' [[Blk 2], [Blk 1]] 1 1 (c\<lparr>coord_pool := p\<rparr>) = Inr c' \<and>
     Blk 1 \<in> set (req_blocks ''r'' (single_type_managers c' ! 0)) \<and> Blk 1 \<in> set (req_blocks ''r'' (single_type_managers c' ! 1))"
proof -
  from text_request_exists [of "[7, 8, 9]"] obtain r where r: "text_request [7, 8, 9] = Inr r" by blast
  have len: "1 \<le> length (block_hashes r)" using text_request_hashed [OF r] by simp
  from BlockPool_spec [of 5 True 1 False False] obtain p0 where p0: "BlockPool 5 True 1 False False = Inr p0"
    "pool_rep p0 (map Blk [1..<nat 5])" "\<forall>b \<in> set (blocks p0). refs p0 b = 0 \<and> hashes p0 b = None" "hash_block_size p0 = 1"
    "num_gpu_blocks p0 = 5" by auto
  have rep: "pool_rep p0 [Blk 1, Blk 2, Blk 3, Blk 4]" using p0(2) by (simp add: upt_rec numeral_eq_Suc)
  have tab: "blocks p0 = [Blk 0, Blk 1, Blk 2, Blk 3, Blk 4]" "null_block p0 = Blk 0"
    using pool_repD(1) [OF p0(2)] p0(5) by (auto simp: pool_table_def upt_rec)
  from cache_one_block [OF rep, of "Blk 2" r 0 id] tab p0(3,4) len obtain p1 r1 where
    p1: "pool_rep p1 [Blk 1, Blk 2, Blk 3, Blk 4]" "same_pool p0 p1" "holds p1 (Blk 2) (block_hashes r ! 0) 0" "hashes p1 (Blk 1) = hashes p0 (Blk 1)" by auto
  have tab1: "blocks p1 = blocks p0" "null_block p1 = Blk 0" "hash_block_size p1 = 1" using p1(2) tab p0(4) by (auto simp: same_pool_def)
  from cache_one_block [OF p1(1), of "Blk 1" r 1 id] tab tab1 p0(3) p1(4) len obtain p2 r2 where
    p2: "pool_rep p2 [Blk 1, Blk 2, Blk 3, Blk 4]" "same_pool p1 p2" "holds p2 (Blk 1) (block_hashes r ! 0) 1" "hashes p2 (Blk 2) = hashes p1 (Blk 2)" by auto
  have tab2: "blocks p2 = blocks p0" "null_block p2 = Blk 0" using p2(2) tab1 by (auto simp: same_pool_def)
  have hold2: "holds p2 (Blk 2) (block_hashes r ! 0) 0" using p1(3) p2(4) tab1 tab2 by (simp add: holds_def carries_def)
  have "\<exists>c. HybridKVCacheCoordinator pair_config False True False 1 1 1 False = Inr c \<and>
      single_type_managers c = [SingleTypeKVCacheManager (FullAttentionSpec 1) p0 True 0 1 1, SingleTypeKVCacheManager (SlidingWindowSpec 1 8) p0 True 1 1 1]"
    using p0(1) by (simp add: HybridKVCacheCoordinator_def KVCacheCoordinator_def pair_config_def verify_and_split_kv_cache_groups_def Let_def)
  then obtain c where c: "HybridKVCacheCoordinator pair_config False True False 1 1 1 False = Inr c"
    "single_type_managers c = [SingleTypeKVCacheManager (FullAttentionSpec 1) p0 True 0 1 1, SingleTypeKVCacheManager (SlidingWindowSpec 1 8) p0 True 1 1 1]"
    by blast
  let ?c = "c\<lparr>coord_pool := p2\<rparr>"
  have "\<exists>c'. coord_allocate_new_computed_blocks ''r'' [[Blk 2], [Blk 1]] 1 1 ?c = Inr c' \<and>
    Blk 1 \<in> set (req_blocks ''r'' (single_type_managers c' ! 0)) \<and> Blk 1 \<in> set (req_blocks ''r'' (single_type_managers c' ! 1))"
    by (rule external_tokens_share_block [where xs = "[Blk 1, Blk 2, Blk 3, Blk 4]" and ?k0.0 = 1 and ?k1.0 = 1 and ys = "[Blk 3, Blk 4]"
          and ?m0.0 = "SingleTypeKVCacheManager (FullAttentionSpec 1) p0 True 0 1 1" and ?m1.0 = "SingleTypeKVCacheManager (SlidingWindowSpec 1 8) p0 True 1 1 1"])
       (use p2(1) c(2) tab tab2 in \<open>simp_all add: is_running_def\<close>, simp_all add: SingleTypeKVCacheManager_def cdiv_def)
  with r c(1) hold2 p2(3) show ?thesis by blast
qed

text \<open>
  C18. The lookup always ends. For every request with at least one token and every coordinator,
  \<^verbatim>\<open>get_computed_blocks\<close> returns (with a result or an error): the fixed-point loop over the kinds of
  attention of a hybrid model stops for any cache contents, because each repetition lowers the candidate length,
  which stays non-negative.
\<close>

theorem get_computed_blocks_terminates:
  assumes "0 < num_tokens r"
  shows "\<exists>y. get_computed_blocks r k = Some y"
proof -
  have "0 \<le> int (num_tokens r) - 1" using assms by simp
  from hybrid_terminates [OF this] obtain y where
    y: "hybrid_loop (block_hashes r) (coordinator k) (int (num_tokens r) - 1) (replicate (length (single_type_managers (coordinator k))) None) = Some y" by blast
  then have "\<exists>y. coord_find_longest_cache_hit (block_hashes r) (int (num_tokens r) - 1) (coordinator k) = Some y"
    unfolding coord_find_longest_cache_hit_def hybrid_find_longest_cache_hit_def
    by (cases "coord_class (coordinator k)"; cases y) (simp_all split: prod.splits)
  then show ?thesis by (auto simp: get_computed_blocks_def split: option.splits sum.splits)
qed

theorem get_computed_blocks_terminates_witness:
  "\<exists>r k y. text_request [7, 8] = Inr r \<and> KVCacheManager small_config 8 1 True False False False 1 1 False = Inr k \<and>
     get_computed_blocks r k = Some y"
proof -
  from small_request obtain r k where s: "text_request [7, 8] = Inr r" "KVCacheManager small_config 8 1 True False False False 1 1 False = Inr k"
    "num_tokens r = 2" by blast
  from get_computed_blocks_terminates [of r k] s show ?thesis by auto
qed

text \<open>
  C8. Hybrid models: the lookup over several kinds of attention ends with one common length, for which
  every group holds what its attention still reads (\<open>hit_covers\<close>), within the limit. There may be one
  group of full attention, which is looked up once and then only shortened.
\<close>

theorem hybrid_hit_is_common:
  assumes "pool_rep (coord_pool c) xs" "hybrid_ok c" "attention_groups c \<noteq> []" "0 \<le> max_length"
    and "nat (max_length div int (hash_block_size (coord_pool c))) \<le> length hs"
  shows "\<exists>rows n. hybrid_find_longest_cache_hit hs max_length c = Some (Inr (rows, n)) \<and> 0 \<le> n \<and> n \<le> max_length \<and>
    length rows = length (single_type_managers c) \<and>
    (\<forall>((spec, l), gids) \<in> set (attention_groups c). \<exists>k v. n = int (k * spec_block_size spec) \<and>
       block_hashes_for (hash_block_size (coord_pool c)) (spec_block_size spec) hs = Inr v \<and>
       hit_covers spec (coord_pool c) (map int gids) (bhl_values v) (spec_block_size spec) k (map ((!) rows) gids))"
  using assms by (rule hybrid_hit_spec)

theorem hybrid_hit_is_common_witness:
  "\<exists>c rows n. HybridKVCacheCoordinator pair_config False True False 1 1 1 False = Inr c \<and>
     hybrid_find_longest_cache_hit [[1], [1, 2]] 2 c = Some (Inr (rows, n)) \<and> length rows = 2 \<and> 0 \<le> n \<and> n \<le> 2"
proof -
  from BlockPool_spec [of 5 True 1 False False] obtain p where p: "BlockPool 5 True 1 False False = Inr p"
    "pool_rep p (map Blk [1..<nat 5])" "hash_block_size p = 1" by auto
  have "\<exists>c. HybridKVCacheCoordinator pair_config False True False 1 1 1 False = Inr c \<and> coord_pool c = p \<and> length (single_type_managers c) = 2 \<and>
      attention_groups c = [((FullAttentionSpec 1, 0), [0]), ((SlidingWindowSpec 1 8, 0), [1])] \<and> lcm_block_size c = 1 \<and> coord_use_eagle c = False"
    using p(1) by (simp add: HybridKVCacheCoordinator_def KVCacheCoordinator_def pair_config_def verify_and_split_kv_cache_groups_def Let_def)
  then obtain c where c: "HybridKVCacheCoordinator pair_config False True False 1 1 1 False = Inr c" "coord_pool c = p"
    "length (single_type_managers c) = 2" "attention_groups c = [((FullAttentionSpec 1, 0), [0]), ((SlidingWindowSpec 1 8, 0), [1])]"
    "lcm_block_size c = 1" "coord_use_eagle c = False" by blast
  have "hybrid_ok c" using c p(3) by (simp add: hybrid_ok_def group_ok_def)
  from hybrid_hit_is_common [OF _ this, of "map Blk [1..<nat 5]" 2 "[[1], [1, 2]]"] c p show ?thesis by auto
qed

end
