(* ===== verification/Encoder_Cache.thy ===== *)
theory Encoder_Cache
  imports Request
begin

text \<open>
  \<^verbatim>\<open>vllm/v1/core/encoder_cache_manager.py\<close>: the bookkeeping of cached encoder outputs
  (image or audio embeddings), counted in embeddings.

  \<open>EncoderCacheManager\<close> shares an entry between the requests that use the same data and
  evicts the oldest unreferenced entries when a new one needs room; the class for
  encoder-decoder models only counts slots. The invariant ties the two slot counters to the
  entries: free slots are what the entries leave over, freeable slots add the unreferenced
  ones. The size of an entry is what its hash stands for: two inputs with one identifier are
  the same data, so they have the same number of embeddings; this is the function \<open>size_of\<close>.
\<close>

section \<open>The shared cache\<close>

record encoder_cache_manager =
  cache_size :: int
  num_free_slots :: int
  num_freeable_slots :: int
  cached :: "(string, string set) pydict"
  freeable :: "(string, int) pydict"
  freed :: "string list"

definition EncoderCacheManager :: "int \<Rightarrow> encoder_cache_manager" where
  "EncoderCacheManager size0 =
     \<lparr>cache_size = size0, num_free_slots = size0, num_freeable_slots = size0,
      cached = [], freeable = [], freed = []\<rparr>"

definition ecm_reset :: "encoder_cache_manager \<Rightarrow> encoder_cache_manager" where
  "ecm_reset m =
     m\<lparr>cached := [], freeable := [], freed := [],
       num_free_slots := cache_size m, num_freeable_slots := cache_size m\<rparr>"

text \<open>\<^verbatim>\<open>request.mm_features[input_id].identifier\<close>\<close>

definition input_hash :: "request \<Rightarrow> nat \<Rightarrow> string res" where
  "input_hash r i = (if i < length (mm_features r) then Inr (mm_identifier (mm_features r ! i)) else Inl IndexError)"

definition check_and_update_cache ::
  "request \<Rightarrow> nat \<Rightarrow> encoder_cache_manager \<Rightarrow> (bool \<times> encoder_cache_manager) res" where
  "check_and_update_cache r i m =
     rbind (input_hash r i) (\<lambda>h.
       case dict_get (cached m) h of
         None \<Rightarrow> Inr (False, m)
       | Some refs \<Rightarrow>
           rbind (if refs = {}
                  then (case dict_get (freeable m) h of
                          None \<Rightarrow> Inl KeyError
                        | Some n \<Rightarrow> Inr (m\<lparr>freeable := dict_del h (freeable m),
                                          num_freeable_slots := num_freeable_slots m - n\<rparr>))
                  else Inr m)
             (\<lambda>m'. Inr (True, m'\<lparr>cached := dict_set h (insert (request_id r) refs) (cached m')\<rparr>)))"

text \<open>
  The eviction loop of \<^verbatim>\<open>can_allocate\<close>: \<^verbatim>\<open>popitem(last=False)\<close> takes the oldest
  entry and raises when there is none.
\<close>

function evict_entries :: "int \<Rightarrow> encoder_cache_manager \<Rightarrow> encoder_cache_manager res" where
  "evict_entries num_embeds m =
     (if num_embeds > num_free_slots m
      then (case freeable m of
              [] \<Rightarrow> Inl KeyError
            | (h, n) # rest \<Rightarrow>
                if dict_get (cached m) h = None then Inl KeyError
                else evict_entries num_embeds
                       (m\<lparr>freeable := rest, cached := dict_del h (cached m), freed := freed m @ [h],
                          num_free_slots := num_free_slots m + n\<rparr>))
      else Inr m)"
  by pat_completeness auto

termination
  by (relation "measure (\<lambda>(_, m). length (freeable m))") auto

declare evict_entries.simps [simp del]

definition can_allocate ::
  "request \<Rightarrow> nat \<Rightarrow> int \<Rightarrow> int \<Rightarrow> encoder_cache_manager \<Rightarrow> (bool \<times> encoder_cache_manager) res" where
  "can_allocate r i encoder_compute_budget num_embeds_to_schedule m =
     rbind (get_num_encoder_embeds r i) (\<lambda>n.
       if n > encoder_compute_budget then Inr (False, m)
       else let num_embeds = n + num_embeds_to_schedule
            in if num_embeds \<le> num_free_slots m then Inr (True, m)
               else if num_embeds > num_freeable_slots m then Inr (False, m)
               else rbind (evict_entries num_embeds m) (\<lambda>m'. Inr (True, m')))"

definition allocate :: "request \<Rightarrow> nat \<Rightarrow> encoder_cache_manager \<Rightarrow> encoder_cache_manager res" where
  "allocate r i m =
     rbind (input_hash r i) (\<lambda>h.
       let refs = (case dict_get (cached m) h of None \<Rightarrow> {} | Some s \<Rightarrow> s)
       in rbind (get_num_encoder_embeds r i) (\<lambda>n.
            if num_free_slots m < n then Inl AssertionError
            else if num_freeable_slots m < n then Inl AssertionError
            else Inr (m\<lparr>cached := dict_set h (insert (request_id r) refs) (cached m),
                        num_free_slots := num_free_slots m - n,
                        num_freeable_slots := num_freeable_slots m - n\<rparr>)))"

definition get_cached_input_ids :: "request \<Rightarrow> encoder_cache_manager \<Rightarrow> nat list" where
  "get_cached_input_ids r m =
     filter (\<lambda>i. dict_get (cached m) (mm_identifier (mm_features r ! i)) \<noteq> None)
       [0..<length (mm_features r)]"

definition free_encoder_input :: "request \<Rightarrow> nat \<Rightarrow> encoder_cache_manager \<Rightarrow> encoder_cache_manager res" where
  "free_encoder_input r i m =
     rbind (input_hash r i) (\<lambda>h.
       case dict_get (cached m) h of
         None \<Rightarrow> Inr m
       | Some refs \<Rightarrow>
           if refs = {} then Inr m
           else let refs' = refs - {request_id r};
                    m' = m\<lparr>cached := dict_set h refs' (cached m)\<rparr>
                in if refs' = {}
                   then rbind (get_num_encoder_embeds r i) (\<lambda>n.
                          Inr (m'\<lparr>freeable := dict_set h n (freeable m'),
                                  num_freeable_slots := num_freeable_slots m' + n\<rparr>))
                   else Inr m')"

definition ecm_free :: "request \<Rightarrow> encoder_cache_manager \<Rightarrow> encoder_cache_manager res" where
  "ecm_free r m = fold_res (free_encoder_input r) (get_cached_input_ids r m) m"

definition get_freed_mm_hashes :: "encoder_cache_manager \<Rightarrow> string list \<times> encoder_cache_manager" where
  "get_freed_mm_hashes m = (freed m, m\<lparr>freed := []\<rparr>)"


section \<open>Budgets\<close>

record encoder_scheduler_config =
  disable_chunked_mm_input :: bool
  max_num_batched_tokens :: int
  max_num_encoder_input_tokens :: int
  encoder_cache_size :: int

definition compute_mm_encoder_budget ::
  "encoder_scheduler_config \<Rightarrow> (string, int) pydict \<Rightarrow> (int \<times> int) res" where
  "compute_mm_encoder_budget cfg mm_max_toks_per_item =
     (if mm_max_toks_per_item = [] then Inr (0, 0)
      else let max_tokens_per_mm_item = Max (set (map snd mm_max_toks_per_item))
           in if disable_chunked_mm_input cfg \<and> max_tokens_per_mm_item > max_num_batched_tokens cfg
              then Inl ValueError
              else Inr (max (max_num_encoder_input_tokens cfg) max_tokens_per_mm_item,
                        max (encoder_cache_size cfg) max_tokens_per_mm_item))"


section \<open>The counter for encoder-decoder models\<close>

record encoder_decoder_cache_manager =
  ed_cache_size :: int
  ed_num_free_slots :: int
  allocated :: "string list"
  to_free :: "string list"

definition EncoderDecoderCacheManager :: "int \<Rightarrow> encoder_decoder_cache_manager" where
  "EncoderDecoderCacheManager size0 =
     \<lparr>ed_cache_size = size0, ed_num_free_slots = size0, allocated = [], to_free = []\<rparr>"

definition ed_reset :: "encoder_decoder_cache_manager \<Rightarrow> encoder_decoder_cache_manager" where
  "ed_reset m = m\<lparr>ed_num_free_slots := ed_cache_size m, allocated := [], to_free := []\<rparr>"

definition ed_check_and_update_cache ::
  "request \<Rightarrow> nat \<Rightarrow> encoder_decoder_cache_manager \<Rightarrow> (bool \<times> encoder_decoder_cache_manager) res" where
  "ed_check_and_update_cache r i m = Inr (False, m)"

definition ed_can_allocate ::
  "request \<Rightarrow> nat \<Rightarrow> int \<Rightarrow> int \<Rightarrow> encoder_decoder_cache_manager \<Rightarrow> (bool \<times> encoder_decoder_cache_manager) res" where
  "ed_can_allocate r i encoder_compute_budget num_embeds_to_schedule m =
     rbind (get_num_encoder_embeds r i) (\<lambda>n.
       if n > encoder_compute_budget then Inr (False, m)
       else Inr (n + num_embeds_to_schedule \<le> ed_num_free_slots m, m))"

definition ed_allocate :: "request \<Rightarrow> nat \<Rightarrow> encoder_decoder_cache_manager \<Rightarrow> encoder_decoder_cache_manager res" where
  "ed_allocate r i m =
     rbind (get_num_encoder_embeds r i) (\<lambda>n.
       rbind (input_hash r i) (\<lambda>h.
         Inr (m\<lparr>ed_num_free_slots := ed_num_free_slots m - n, allocated := allocated m @ [h]\<rparr>)))"

definition ed_free_encoder_input ::
  "request \<Rightarrow> nat \<Rightarrow> encoder_decoder_cache_manager \<Rightarrow> encoder_decoder_cache_manager res" where
  "ed_free_encoder_input r i m =
     rbind (get_num_encoder_embeds r i) (\<lambda>n. Inr (m\<lparr>ed_num_free_slots := ed_num_free_slots m + n\<rparr>))"

definition ed_free :: "request \<Rightarrow> encoder_decoder_cache_manager \<Rightarrow> encoder_decoder_cache_manager res" where
  "ed_free r m = fold_res (ed_free_encoder_input r) [0..<length (mm_features r)] m"

definition ed_get_cached_input_ids :: "request \<Rightarrow> encoder_decoder_cache_manager \<Rightarrow> nat list" where
  "ed_get_cached_input_ids r m = [0..<length (mm_features r)]"

definition ed_get_freed_mm_hashes ::
  "encoder_decoder_cache_manager \<Rightarrow> string list \<times> encoder_decoder_cache_manager" where
  "ed_get_freed_mm_hashes m = (to_free m, m\<lparr>to_free := allocated m, allocated := []\<rparr>)"


section \<open>The invariant of the shared cache\<close>

definition key_set :: "('k, 'v) pydict \<Rightarrow> 'k set" where
  "key_set d = set (dict_keys d)"

lemma key_set_simps [simp]:
  "key_set [] = {}"
  "key_set ((k, v) # d) = insert k (key_set d)"
  "key_set (dict_set k v d) = insert k (key_set d)"
  "key_set (dict_del k d) = key_set d - {k}"
  by (auto simp: key_set_def dict_keys_set dict_keys_del) (auto simp: dict_keys_def)

lemma finite_key_set [simp, intro]: "finite (key_set d)"
  by (simp add: key_set_def)

lemma key_set_get: "k \<in> key_set d \<longleftrightarrow> dict_get d k \<noteq> None"
  using dict_get_None_iff [of d k] by (simp add: key_set_def)

definition enc_inv :: "(string \<Rightarrow> int) \<Rightarrow> encoder_cache_manager \<Rightarrow> bool" where
  "enc_inv size_of m \<longleftrightarrow>
     dict_ok (freeable m) \<and>
     (\<forall>h. dict_get (freeable m) h = (if dict_get (cached m) h = Some {} then Some (size_of h) else None)) \<and>
     num_free_slots m = cache_size m - sum size_of (key_set (cached m)) \<and>
     num_freeable_slots m = num_free_slots m + sum size_of (key_set (freeable m)) \<and>
     (\<forall>h\<in>key_set (cached m). 0 \<le> size_of h) \<and>
     0 \<le> num_free_slots m"

definition sized :: "(string \<Rightarrow> int) \<Rightarrow> request \<Rightarrow> bool" where
  "sized size_of r \<longleftrightarrow>
     (\<forall>i<length (mm_features r).
        get_num_encoder_embeds r i = Inr (size_of (mm_identifier (mm_features r ! i))) \<and>
        0 \<le> size_of (mm_identifier (mm_features r ! i)))"

text \<open>The references a request holds, and the entries somebody references.\<close>

definition holds :: "encoder_cache_manager \<Rightarrow> string \<Rightarrow> string \<Rightarrow> bool" where
  "holds m rid h \<longleftrightarrow> (\<exists>refs. dict_get (cached m) h = Some refs \<and> rid \<in> refs)"

lemma enc_inv_init: "0 \<le> size0 \<Longrightarrow> enc_inv size_of (EncoderCacheManager size0)"
  by (simp add: enc_inv_def EncoderCacheManager_def)

lemma enc_inv_cached_subset: "enc_inv size_of m \<Longrightarrow> key_set (freeable m) \<subseteq> key_set (cached m)"
  by (metis enc_inv_def key_set_get option.distinct(1) subsetI)

lemma enc_inv_bounds:
  assumes "enc_inv size_of m"
  shows "0 \<le> num_free_slots m \<and> num_free_slots m \<le> num_freeable_slots m \<and> num_freeable_slots m \<le> cache_size m"
proof -
  have pos: "\<forall>h\<in>key_set (cached m). 0 \<le> size_of h" using assms by (simp add: enc_inv_def)
  have sub: "key_set (freeable m) \<subseteq> key_set (cached m)" by (rule enc_inv_cached_subset [OF assms])
  have "sum size_of (key_set (freeable m)) \<le> sum size_of (key_set (cached m))"
    by (rule sum_mono2) (use pos sub in auto)
  moreover have "0 \<le> sum size_of (key_set (freeable m))"
    by (rule sum_nonneg) (use pos sub in auto)
  ultimately show ?thesis using assms by (auto simp: enc_inv_def)
qed

lemma input_hash_ok: "i < length (mm_features r) \<Longrightarrow> input_hash r i = Inr (mm_identifier (mm_features r ! i))"
  by (simp add: input_hash_def)

lemma sizedD:
  "sized size_of r \<Longrightarrow> i < length (mm_features r) \<Longrightarrow>
   get_num_encoder_embeds r i = Inr (size_of (mm_identifier (mm_features r ! i))) \<and>
   0 \<le> size_of (mm_identifier (mm_features r ! i))"
  by (simp add: sized_def)

lemma check_and_update_cache_spec:
  assumes inv: "enc_inv size_of m" and i: "i < length (mm_features r)"
  defines "h \<equiv> mm_identifier (mm_features r ! i)"
  shows "\<exists>b m'. check_and_update_cache r i m = Inr (b, m') \<and> enc_inv size_of m' \<and>
    (b \<longleftrightarrow> dict_get (cached m) h \<noteq> None) \<and> (\<not> b \<longrightarrow> m' = m) \<and>
    cache_size m' = cache_size m \<and> num_free_slots m' = num_free_slots m \<and> freed m' = freed m \<and>
    key_set (cached m') = key_set (cached m) \<and>
    (\<forall>rid h'. holds m' rid h' \<longleftrightarrow> holds m rid h' \<or> (b \<and> rid = request_id r \<and> h' = h))"
proof (cases "dict_get (cached m) h")
  case None
  then show ?thesis using inv i by (auto simp: check_and_update_cache_def input_hash_ok h_def)
next
  case (Some refs)
  define m1 where "m1 = (if refs = {} then m\<lparr>freeable := dict_del h (freeable m),
      num_freeable_slots := num_freeable_slots m - size_of h\<rparr> else m)"
  define m' where "m' = m1\<lparr>cached := dict_set h (insert (request_id r) refs) (cached m)\<rparr>"
  have fr: "refs = {} \<Longrightarrow> dict_get (freeable m) h = Some (size_of h)"
    using inv Some by (simp add: enc_inv_def)
  have run: "check_and_update_cache r i m = Inr (True, m')"
    using Some fr i by (auto simp: check_and_update_cache_def input_hash_ok h_def m'_def m1_def)
  have h: "h \<in> key_set (cached m)" using Some by (simp add: key_set_get)
  have "enc_inv size_of m'"
  proof (cases "refs = {}")
    case True
    have hf: "h \<in> key_set (freeable m)" using fr [OF True] by (simp add: key_set_get)
    have "sum size_of (key_set (freeable m)) = size_of h + sum size_of (key_set (freeable m) - {h})"
      by (rule sum.remove) (use hf in auto)
    then show ?thesis using inv True h
      by (auto simp: enc_inv_def m'_def m1_def dict_simps insert_absorb)
  next
    case False
    then show ?thesis using inv Some h
      by (auto simp: enc_inv_def m'_def m1_def dict_simps insert_absorb)
  qed
  then show ?thesis unfolding run using Some h
    by (auto simp: m'_def m1_def holds_def dict_simps insert_absorb)
qed

text \<open>
  The eviction loop removes a prefix of the unreferenced entries, oldest first, and no more
  of them than it needs.
\<close>

definition prefix_size :: "nat \<Rightarrow> encoder_cache_manager \<Rightarrow> int" where
  "prefix_size k m = sum_list (map snd (take k (freeable m)))"

definition evict_prefix :: "nat \<Rightarrow> encoder_cache_manager \<Rightarrow> encoder_cache_manager" where
  "evict_prefix k m =
     m\<lparr>freeable := drop k (freeable m),
       cached := filter (\<lambda>(h, _). h \<notin> set (take k (dict_keys (freeable m)))) (cached m),
       freed := freed m @ take k (dict_keys (freeable m)),
       num_free_slots := num_free_slots m + prefix_size k m\<rparr>"

lemma evict_prefix_0 [simp]: "evict_prefix 0 m = m"
  by (simp add: evict_prefix_def prefix_size_def)

lemma enc_inv_evict_one:
  assumes inv: "enc_inv size_of m" and fr: "freeable m = (h, n) # rest"
  shows "enc_inv size_of (m\<lparr>freeable := rest, cached := dict_del h (cached m), freed := freed m @ [h],
           num_free_slots := num_free_slots m + n\<rparr>) \<and> n = size_of h \<and> 0 \<le> n \<and>
         dict_get (cached m) h = Some {}"
proof -
  have fg: "\<And>x. dict_get (freeable m) x = (if dict_get (cached m) x = Some {} then Some (size_of x) else None)"
    using inv by (simp add: enc_inv_def)
  have "dict_get (freeable m) h = Some n" using fr by (simp add: dict_get_Cons)
  with fg [of h] have h: "dict_get (cached m) h = Some {}" "n = size_of h" by (auto split: if_splits)
  have hc: "h \<in> key_set (cached m)" using h by (simp add: key_set_get)
  have hr: "h \<notin> key_set rest" "dict_ok rest" using inv fr
    by (auto simp: enc_inv_def dict_ok_def dict_keys_def key_set_def)
  have get: "dict_get rest x = (if x = h then None else dict_get (freeable m) x)" for x
    using fr hr(1) by (auto simp: dict_get_Cons key_set_get)
  have "sum size_of (key_set (cached m)) = size_of h + sum size_of (key_set (cached m) - {h})"
    by (rule sum.remove) (use hc in auto)
  then show ?thesis using inv h hc hr fr
    by (auto simp: enc_inv_def dict_simps get)
qed

lemma evict_prefix_Suc:
  assumes "freeable m = (h, n) # rest"
  defines "m1 \<equiv> m\<lparr>freeable := rest, cached := dict_del h (cached m), freed := freed m @ [h],
           num_free_slots := num_free_slots m + n\<rparr>"
  shows "evict_prefix (Suc k) m = evict_prefix k m1" "prefix_size (Suc k) m = n + prefix_size k m1"
  using assms by (simp_all add: evict_prefix_def prefix_size_def dict_del_def dict_keys_def
      case_prod_unfold algebra_simps)

lemma evict_entries_spec:
  assumes "enc_inv size_of m" and "num_embeds \<le> num_freeable_slots m"
  shows "\<exists>k\<le>length (freeable m). evict_entries num_embeds m = Inr (evict_prefix k m) \<and>
    enc_inv size_of (evict_prefix k m) \<and> num_embeds \<le> num_free_slots m + prefix_size k m \<and>
    (\<forall>j<k. num_free_slots m + prefix_size j m < num_embeds)"
  using assms
proof (induction "length (freeable m)" arbitrary: m)
  case (0 m)
  then have "num_freeable_slots m = num_free_slots m" by (simp add: enc_inv_def)
  with 0 show ?case by (intro exI [of _ 0]) (simp add: evict_entries.simps prefix_size_def)
next
  case (Suc l m)
  show ?case
  proof (cases "num_embeds > num_free_slots m")
    case False
    then show ?thesis using Suc.prems
      by (intro exI [of _ 0]) (simp add: evict_entries.simps prefix_size_def)
  next
    case True
    obtain h n rest where fr: "freeable m = (h, n) # rest" using Suc.hyps(2) by (cases "freeable m") auto
    let ?m1 = "m\<lparr>freeable := rest, cached := dict_del h (cached m), freed := freed m @ [h],
           num_free_slots := num_free_slots m + n\<rparr>"
    note one = enc_inv_evict_one [OF Suc.prems(1) fr]
    from Suc.hyps(1) [of ?m1] Suc.hyps(2) one Suc.prems(2) fr obtain k where
      k: "k \<le> length (freeable ?m1)" "evict_entries num_embeds ?m1 = Inr (evict_prefix k ?m1)"
        "enc_inv size_of (evict_prefix k ?m1)" "num_embeds \<le> num_free_slots ?m1 + prefix_size k ?m1"
        "\<forall>j<k. num_free_slots ?m1 + prefix_size j ?m1 < num_embeds"
      by auto
    have run: "evict_entries num_embeds m = evict_entries num_embeds ?m1"
      using True fr one by (subst evict_entries.simps) simp
    have "\<forall>j<Suc k. num_free_slots m + prefix_size j m < num_embeds"
    proof (intro allI impI)
      fix j assume "j < Suc k"
      then show "num_free_slots m + prefix_size j m < num_embeds"
        using True k(5) evict_prefix_Suc(2) [OF fr] by (cases j) (auto simp: prefix_size_def)
    qed
    then show ?thesis using k run evict_prefix_Suc [OF fr] fr by (intro exI [of _ "Suc k"]) auto
  qed
qed

lemma evict_prefix_get:
  "dict_get (cached (evict_prefix k m)) h =
     (if h \<in> set (take k (dict_keys (freeable m))) then None else dict_get (cached m) h)"
proof -
  have "dict_get (filter (\<lambda>(h, _). h \<notin> S) d) h = (if h \<in> S then None else dict_get d h)"
    for S and d :: "(string, string set) pydict"
    by (induction d) (auto simp: dict_get_Cons split: if_splits)
  then show ?thesis by (simp add: evict_prefix_def)
qed

lemma holds_evict_prefix:
  assumes "enc_inv size_of m"
  shows "holds (evict_prefix k m) rid h \<longleftrightarrow> holds m rid h"
proof -
  have "h \<in> set (take k (dict_keys (freeable m))) \<Longrightarrow> dict_get (cached m) h = Some {}"
    using assms in_set_takeD [of h k] unfolding enc_inv_def
    by (metis key_set_def key_set_get option.distinct(1))
  then show ?thesis by (auto simp: holds_def evict_prefix_get)
qed

lemma evict_prefix_slots:
  assumes "enc_inv size_of m"
  shows "num_free_slots m \<le> num_free_slots (evict_prefix k m)"
proof -
  have "0 \<le> n" if "(h, n) \<in> set (freeable m)" for h n
  proof -
    have "dict_ok (freeable m)" using assms by (simp add: enc_inv_def)
    from dict_get_mem [OF this that] have get: "dict_get (freeable m) h = Some n" .
    have "dict_get (freeable m) h = (if dict_get (cached m) h = Some {} then Some (size_of h) else None)"
      using assms by (simp add: enc_inv_def)
    with get have "dict_get (cached m) h = Some {}" "n = size_of h" by (simp_all split: if_splits)
    then show ?thesis using assms by (auto simp: enc_inv_def key_set_get)
  qed
  then have "0 \<le> prefix_size k m"
    unfolding prefix_size_def by (intro sum_list_nonneg) (auto dest: in_set_takeD)
  then show ?thesis by (simp add: evict_prefix_def)
qed

text \<open>
  \<^verbatim>\<open>can_allocate\<close> never raises; it says yes exactly when budget and freeable slots
  suffice, and then there are free slots for the input and everything approved before it.
\<close>

lemma can_allocate_spec:
  assumes inv: "enc_inv size_of m" and sz: "sized size_of r" and i: "i < length (mm_features r)"
  defines "n \<equiv> size_of (mm_identifier (mm_features r ! i))"
  shows "\<exists>k\<le>length (freeable m).
    can_allocate r i budget scheduled m =
      Inr (n \<le> budget \<and> n + scheduled \<le> num_freeable_slots m, evict_prefix k m) \<and>
    enc_inv size_of (evict_prefix k m) \<and>
    (n \<le> budget \<and> n + scheduled \<le> num_freeable_slots m \<longrightarrow>
       n + scheduled \<le> num_free_slots (evict_prefix k m)) \<and>
    (\<forall>j<k. num_free_slots m + prefix_size j m < n + scheduled)"
proof -
  have n: "get_num_encoder_embeds r i = Inr n" using sizedD [OF sz i] by (simp add: n_def)
  have le: "num_free_slots m \<le> num_freeable_slots m" using enc_inv_bounds [OF inv] by simp
  show ?thesis
  proof (cases "n \<le> budget \<and> n + scheduled \<le> num_freeable_slots m \<and> num_free_slots m < n + scheduled")
    case True
    then obtain k where "k \<le> length (freeable m)" "evict_entries (n + scheduled) m = Inr (evict_prefix k m)"
      "enc_inv size_of (evict_prefix k m)" "n + scheduled \<le> num_free_slots m + prefix_size k m"
      "\<forall>j<k. num_free_slots m + prefix_size j m < n + scheduled"
      using evict_entries_spec [OF inv, of "n + scheduled"] by auto
    with True show ?thesis
      by (intro exI [of _ k]) (simp add: can_allocate_def n evict_prefix_def)
  next
    case False
    then show ?thesis using inv le
      by (intro exI [of _ 0]) (auto simp: can_allocate_def n)
  qed
qed

lemma allocate_spec:
  assumes inv: "enc_inv size_of m" and sz: "sized size_of r" and i: "i < length (mm_features r)"
  defines "h \<equiv> mm_identifier (mm_features r ! i)"
  assumes fresh: "dict_get (cached m) h = None" and room: "size_of h \<le> num_free_slots m"
  shows "\<exists>m'. allocate r i m = Inr m' \<and> enc_inv size_of m' \<and> cache_size m' = cache_size m \<and>
    num_free_slots m' = num_free_slots m - size_of h \<and> freed m' = freed m \<and>
    dict_get (cached m') h = Some {request_id r} \<and>
    (\<forall>h'. h' \<noteq> h \<longrightarrow> dict_get (cached m') h' = dict_get (cached m) h')"
proof -
  have n: "get_num_encoder_embeds r i = Inr (size_of h)" "0 \<le> size_of h"
    using sizedD [OF sz i] by (simp_all add: h_def)
  have nk: "h \<notin> key_set (cached m)" using fresh by (simp add: key_set_get)
  define m' where "m' = m\<lparr>cached := dict_set h {request_id r} (cached m),
    num_free_slots := num_free_slots m - size_of h, num_freeable_slots := num_freeable_slots m - size_of h\<rparr>"
  have "allocate r i m = Inr m'"
    using n room fresh enc_inv_bounds [OF inv] i
    by (simp add: allocate_def input_hash_ok h_def [symmetric] m'_def)
  moreover have "enc_inv size_of m'"
    using inv n room nk fresh by (auto simp: enc_inv_def m'_def dict_simps)
  ultimately show ?thesis by (auto simp: m'_def dict_simps)
qed

lemma free_encoder_input_spec:
  assumes inv: "enc_inv size_of m" and sz: "sized size_of r" and i: "i < length (mm_features r)"
  defines "h \<equiv> mm_identifier (mm_features r ! i)"
  shows "\<exists>m'. free_encoder_input r i m = Inr m' \<and> enc_inv size_of m' \<and>
    cache_size m' = cache_size m \<and> num_free_slots m' = num_free_slots m \<and> freed m' = freed m \<and>
    key_set (cached m') = key_set (cached m) \<and>
    (\<forall>rid h'. holds m' rid h' \<longleftrightarrow> holds m rid h' \<and> \<not> (rid = request_id r \<and> h' = h))"
proof -
  have n: "get_num_encoder_embeds r i = Inr (size_of h)" using sizedD [OF sz i] by (simp add: h_def)
  consider "dict_get (cached m) h = None \<or> dict_get (cached m) h = Some {}"
    | refs where "dict_get (cached m) h = Some refs" "refs \<noteq> {}" by (cases "dict_get (cached m) h") auto
  then show ?thesis
  proof cases
    case 1
    then show ?thesis using inv i
      by (auto simp: free_encoder_input_def input_hash_ok h_def holds_def)
  next
    case (2 refs)
    have h: "h \<in> key_set (cached m)" using 2 by (simp add: key_set_get)
    have nf: "h \<notin> key_set (freeable m)" using 2 inv by (simp add: enc_inv_def key_set_get)
    define refs' where "refs' = refs - {request_id r}"
    define m1 where "m1 = m\<lparr>cached := dict_set h refs' (cached m)\<rparr>"
    define m' where "m' = (if refs' = {} then m1\<lparr>freeable := dict_set h (size_of h) (freeable m1),
        num_freeable_slots := num_freeable_slots m1 + size_of h\<rparr> else m1)"
    have "free_encoder_input r i m = Inr m'"
      using 2 n i by (simp add: free_encoder_input_def input_hash_ok h_def [symmetric] m'_def m1_def refs'_def Let_def)
    moreover have "enc_inv size_of m'"
      using inv 2 h nf by (auto simp: enc_inv_def m'_def m1_def dict_simps insert_absorb)
    moreover have "holds m' rid h' \<longleftrightarrow> holds m rid h' \<and> \<not> (rid = request_id r \<and> h' = h)" for rid h'
      using 2 by (auto simp: holds_def m'_def m1_def dict_simps refs'_def)
    ultimately show ?thesis using h by (simp add: m'_def m1_def insert_absorb)
  qed
qed

lemma free_inputs_spec:
  assumes "enc_inv size_of m" and sz: "sized size_of r" and "set ids \<subseteq> {..<length (mm_features r)}"
  shows "\<exists>m'. fold_res (free_encoder_input r) ids m = Inr m' \<and> enc_inv size_of m' \<and>
    cache_size m' = cache_size m \<and> num_free_slots m' = num_free_slots m \<and> freed m' = freed m \<and>
    key_set (cached m') = key_set (cached m) \<and>
    (\<forall>rid h. holds m' rid h \<longleftrightarrow> holds m rid h \<and>
       \<not> (rid = request_id r \<and> h \<in> (\<lambda>i. mm_identifier (mm_features r ! i)) ` set ids))"
  using assms(1,3)
proof (induction ids arbitrary: m)
  case (Cons i ids)
  from free_encoder_input_spec [OF Cons.prems(1) sz, of i] Cons.prems(2) obtain m1 where
    m1: "free_encoder_input r i m = Inr m1" "enc_inv size_of m1" "cache_size m1 = cache_size m"
      "num_free_slots m1 = num_free_slots m" "freed m1 = freed m" "key_set (cached m1) = key_set (cached m)"
      "\<And>rid h. holds m1 rid h \<longleftrightarrow> holds m rid h \<and> \<not> (rid = request_id r \<and> h = mm_identifier (mm_features r ! i))"
    by auto
  from Cons.IH [OF m1(2)] Cons.prems(2) obtain m' where
    m': "fold_res (free_encoder_input r) ids m1 = Inr m'" "enc_inv size_of m'" "cache_size m' = cache_size m1"
      "num_free_slots m' = num_free_slots m1" "freed m' = freed m1" "key_set (cached m') = key_set (cached m1)"
      "\<And>rid h. holds m' rid h \<longleftrightarrow> holds m1 rid h \<and>
        \<not> (rid = request_id r \<and> h \<in> (\<lambda>i. mm_identifier (mm_features r ! i)) ` set ids)"
    by auto
  show ?case using m1 m' by auto
qed simp

lemma ecm_free_spec:
  assumes inv: "enc_inv size_of m" and sz: "sized size_of r"
  shows "\<exists>m'. ecm_free r m = Inr m' \<and> enc_inv size_of m' \<and> cache_size m' = cache_size m \<and>
    num_free_slots m' = num_free_slots m \<and> freed m' = freed m \<and> key_set (cached m') = key_set (cached m) \<and>
    (\<forall>rid h. holds m' rid h \<longleftrightarrow>
       holds m rid h \<and> \<not> (rid = request_id r \<and> h \<in> mm_identifier ` set (mm_features r)))"
proof -
  let ?f = "\<lambda>i. mm_identifier (mm_features r ! i)"
  have cov: "h \<in> ?f ` set (get_cached_input_ids r m) \<longleftrightarrow> h \<in> mm_identifier ` set (mm_features r)"
    if "holds m rid h" for rid h
    using that by (auto simp: get_cached_input_ids_def holds_def in_set_conv_nth image_iff) (metis nth_mem)+
  have "set (get_cached_input_ids r m) \<subseteq> {..<length (mm_features r)}"
    by (auto simp: get_cached_input_ids_def)
  from free_inputs_spec [OF inv sz this] show ?thesis using cov unfolding ecm_free_def by metis
qed


section \<open>Reachable states\<close>

text \<open>
  The operations in any order. An input is allocated only when its hash is not cached, as the
  scheduler does; the requests' embedding counts agree with the size of their hashes.
\<close>

inductive enc_step :: "(string \<Rightarrow> int) \<Rightarrow> encoder_cache_manager \<Rightarrow> encoder_cache_manager \<Rightarrow> bool" for size_of where
  check: "sized size_of r \<Longrightarrow> check_and_update_cache r i m = Inr (b, m') \<Longrightarrow> enc_step size_of m m'"
| can: "sized size_of r \<Longrightarrow> can_allocate r i budget scheduled m = Inr (b, m') \<Longrightarrow> enc_step size_of m m'"
| alloc: "sized size_of r \<Longrightarrow> input_hash r i = Inr h \<Longrightarrow> dict_get (cached m) h = None \<Longrightarrow>
    allocate r i m = Inr m' \<Longrightarrow> enc_step size_of m m'"
| free_input: "sized size_of r \<Longrightarrow> free_encoder_input r i m = Inr m' \<Longrightarrow> enc_step size_of m m'"
| free_all: "sized size_of r \<Longrightarrow> ecm_free r m = Inr m' \<Longrightarrow> enc_step size_of m m'"
| take_freed: "get_freed_mm_hashes m = (hs, m') \<Longrightarrow> enc_step size_of m m'"
| reset_all: "enc_step size_of m (ecm_reset m)"

lemma input_hash_eq_Inr: "input_hash r i = Inr h \<longleftrightarrow> i < length (mm_features r) \<and> h = mm_identifier (mm_features r ! i)"
  by (auto simp: input_hash_def)

lemma num_encoder_embeds_bound: "get_num_encoder_embeds r i = Inr n \<Longrightarrow> i < length (mm_features r)"
  by (simp add: get_num_encoder_embeds_def split: if_splits)

lemma enc_step_inv:
  assumes "enc_step size_of m m'" and "enc_inv size_of m"
  shows "enc_inv size_of m' \<and> cache_size m' = cache_size m"
  using assms
proof cases
  case (check r i b)
  then have "i < length (mm_features r)" by (auto simp: check_and_update_cache_def res_simps input_hash_eq_Inr)
  from check_and_update_cache_spec [OF assms(2) this] check show ?thesis by auto
next
  case (can r i budget scheduled b)
  then have "i < length (mm_features r)" by (auto simp: can_allocate_def res_simps dest: num_encoder_embeds_bound)
  from can_allocate_spec [OF assms(2) can(1) this, of budget scheduled] can show ?thesis
    by (auto simp: evict_prefix_def)
next
  case (alloc r i h)
  then have i: "i < length (mm_features r)" and h: "h = mm_identifier (mm_features r ! i)"
    by (simp_all add: input_hash_eq_Inr)
  then have "size_of h \<le> num_free_slots m"
    using alloc sizedD [OF alloc(1) i] by (auto simp: allocate_def res_simps Let_def split: if_splits)
  with allocate_spec [OF assms(2) alloc(1) i] alloc h show ?thesis by auto
next
  case (free_input r i)
  then have "i < length (mm_features r)" by (auto simp: free_encoder_input_def res_simps input_hash_eq_Inr)
  from free_encoder_input_spec [OF assms(2) free_input(1) this] free_input show ?thesis by auto
next
  case (free_all r)
  from ecm_free_spec [OF assms(2) free_all(1)] free_all show ?thesis by auto
next
  case (take_freed hs)
  then show ?thesis using assms(2) by (auto simp: get_freed_mm_hashes_def enc_inv_def)
next
  case reset_all
  have "0 \<le> cache_size m" using enc_inv_bounds [OF assms(2)] by simp
  then show ?thesis using reset_all by (simp add: ecm_reset_def enc_inv_def)
qed

inductive enc_reach :: "(string \<Rightarrow> int) \<Rightarrow> int \<Rightarrow> encoder_cache_manager \<Rightarrow> bool" for size_of size0 where
  init: "enc_reach size_of size0 (EncoderCacheManager size0)"
| step: "enc_reach size_of size0 m \<Longrightarrow> enc_step size_of m m' \<Longrightarrow> enc_reach size_of size0 m'"

lemma enc_reach_inv: "enc_reach size_of size0 m \<Longrightarrow> 0 \<le> size0 \<Longrightarrow> enc_inv size_of m \<and> cache_size m = size0"
proof (induction rule: enc_reach.induct)
  case init
  then show ?case by (simp add: enc_inv_init) (simp add: EncoderCacheManager_def)
next
  case (step m m')
  then show ?case using enc_step_inv [OF step.hyps(2)] by simp
qed

definition image :: "string \<Rightarrow> int \<Rightarrow> int \<Rightarrow> mm_feature" where
  "image h pos len = \<lparr>mm_identifier = h, mm_position = \<lparr>offset = pos, plength = len, is_embed = None\<rparr>\<rparr>"

lemma image_simps [simp]:
  "mm_identifier (image h pos len) = h" "offset (mm_position (image h pos len)) = pos"
  "plength (mm_position (image h pos len)) = len" "is_embed (mm_position (image h pos len)) = None"
  by (simp_all add: image_def)

lemma sized_image: "0 \<le> len \<Longrightarrow> sized (\<lambda>_. len) (mm_request rid [image h pos len])"
  by (simp add: sized_def get_num_encoder_embeds_def get_num_embeds_def)

text \<open>
  C16. The slot counters of the encoder cache are exact in every reachable state: the free
  slots are the capacity less the embeddings of all cached entries, the freeable slots are
  the capacity less the embeddings of the entries that some request still references, so they count the free
  slots as well as those that eviction can reclaim, and
  both stay between zero and the capacity. The entries queued for eviction are the
  unreferenced ones, so an entry in use is never evicted.
\<close>

theorem encoder_cache_accounting:
  assumes "enc_reach size_of size0 m" and "0 \<le> size0"
  shows "num_free_slots m = size0 - sum size_of (key_set (cached m)) \<and>
    num_freeable_slots m = size0 - sum size_of {h. \<exists>rid. holds m rid h} \<and>
    num_freeable_slots m = num_free_slots m + sum size_of (key_set (freeable m)) \<and>
    0 \<le> num_free_slots m \<and> num_free_slots m \<le> num_freeable_slots m \<and> num_freeable_slots m \<le> size0 \<and>
    (\<forall>h rid. h \<in> key_set (freeable m) \<longrightarrow> h \<in> key_set (cached m) \<and> \<not> holds m rid h)"
proof -
  have inv: "enc_inv size_of m" and size0: "cache_size m = size0"
    using enc_reach_inv [OF assms] by simp_all
  have fg: "dict_get (freeable m) h = (if dict_get (cached m) h = Some {} then Some (size_of h) else None)" for h
    using inv by (simp add: enc_inv_def)
  have held: "{h. \<exists>rid. holds m rid h} = key_set (cached m) - key_set (freeable m)"
  proof (rule set_eqI)
    fix h
    show "h \<in> {h. \<exists>rid. holds m rid h} \<longleftrightarrow> h \<in> key_set (cached m) - key_set (freeable m)"
      using fg [of h] by (cases "dict_get (cached m) h") (auto simp: holds_def key_set_get)
  qed
  have "sum size_of (key_set (cached m) - key_set (freeable m)) =
        sum size_of (key_set (cached m)) - sum size_of (key_set (freeable m))"
    by (rule sum_diff) (use enc_inv_cached_subset [OF inv] in auto)
  then show ?thesis
    using enc_inv_bounds [OF inv] inv size0 held enc_inv_cached_subset [OF inv]
    by (auto simp: enc_inv_def)
qed

lemma allocated_example:
  "allocate (mm_request ''r'' [image ''h'' 0 4]) 0 (EncoderCacheManager 10) =
   Inr \<lparr>cache_size = 10, num_free_slots = 6, num_freeable_slots = 6, cached = [(''h'', {''r''})],
        freeable = [], freed = []\<rparr>"
  by (simp add: allocate_def input_hash_def EncoderCacheManager_def get_num_encoder_embeds_def
      get_num_embeds_def dict_set_def)

lemma reach_example:
  "enc_reach (\<lambda>_. 4) 10 \<lparr>cache_size = 10, num_free_slots = 6, num_freeable_slots = 6,
     cached = [(''h'', {''r''})], freeable = [], freed = []\<rparr>"
  by (rule enc_reach.step [OF enc_reach.init enc_step.alloc [OF sized_image _ _ allocated_example]])
    (simp_all add: input_hash_def EncoderCacheManager_def)

theorem encoder_cache_accounting_witness:
  "\<exists>m. allocate (mm_request ''r'' [image ''h'' 0 4]) 0 (EncoderCacheManager 10) = Inr m \<and>
     num_free_slots m = 10 - sum (\<lambda>_. 4) (key_set (cached m)) \<and> num_free_slots m = 6 \<and>
     num_freeable_slots m = 10 - sum (\<lambda>_. 4) {h. \<exists>rid. holds m rid h} \<and>
     num_freeable_slots m = num_free_slots m + sum (\<lambda>_. 4) (key_set (freeable m)) \<and> num_freeable_slots m \<le> 10"
  using encoder_cache_accounting [OF reach_example] allocated_example by auto

text \<open>
  C28. In a reachable state \<^verbatim>\<open>can_allocate\<close> never raises. It answers yes exactly when the
  input fits the compute budget and, with what is already promised, the freeable slots; so it also answers no
  when only the compute budget is exceeded. To
  make room it evicts the oldest unreferenced entries and no more of them than needed; it
  reports exactly these as freed, keeps every reference, and after a yes the input and what
  was promised before fit in the free slots.
\<close>

theorem can_allocate_evicts_oldest:
  assumes "enc_reach size_of size0 m" and "0 \<le> size0"
    and "sized size_of r" and "i < length (mm_features r)"
  defines "n \<equiv> size_of (mm_identifier (mm_features r ! i))"
  shows "\<exists>k m'. can_allocate r i budget scheduled m =
      Inr (n \<le> budget \<and> n + scheduled \<le> num_freeable_slots m, m') \<and>
    k \<le> length (freeable m) \<and> freeable m' = drop k (freeable m) \<and>
    freed m' = freed m @ take k (dict_keys (freeable m)) \<and>
    (\<forall>rid h. holds m' rid h \<longleftrightarrow> holds m rid h) \<and>
    (n \<le> budget \<and> n + scheduled \<le> num_freeable_slots m \<longrightarrow> n + scheduled \<le> num_free_slots m') \<and>
    (\<forall>j<k. num_free_slots m + sum_list (map snd (take j (freeable m))) < n + scheduled)"
proof -
  have inv: "enc_inv size_of m" using enc_reach_inv [OF assms(1,2)] by simp
  from can_allocate_spec [OF inv assms(3,4), of budget scheduled] obtain k where
    "k \<le> length (freeable m)"
    "can_allocate r i budget scheduled m = Inr (n \<le> budget \<and> n + scheduled \<le> num_freeable_slots m, evict_prefix k m)"
    "n \<le> budget \<and> n + scheduled \<le> num_freeable_slots m \<longrightarrow> n + scheduled \<le> num_free_slots (evict_prefix k m)"
    "\<forall>j<k. num_free_slots m + prefix_size j m < n + scheduled"
    unfolding n_def by blast
  then show ?thesis using holds_evict_prefix [OF inv, of k]
    by (intro exI [of _ k] exI [of _ "evict_prefix k m"]) (simp add: evict_prefix_def prefix_size_def)
qed

theorem can_allocate_evicts_oldest_witness:
  "\<exists>m'. can_allocate (mm_request ''r2'' [image ''g'' 0 4]) 0 8 0
     \<lparr>cache_size = 10, num_free_slots = 6, num_freeable_slots = 6, cached = [(''h'', {''r''})],
      freeable = [], freed = []\<rparr> = Inr (True, m') \<and> 4 \<le> num_free_slots m'"
  using can_allocate_evicts_oldest [OF reach_example _ sized_image [of 4 "''r2''" "''g''" 0], of 0 8 0] by auto

text \<open>
  C29. Start-up of a multi-modal model fails with \<^verbatim>\<open>ValueError\<close> exactly when inputs may not
  be split and the largest item exceeds the batch. Otherwise the two budgets are large
  enough that no item waits forever: whenever no request holds an entry, an item of at most
  the advertised size passes \<^verbatim>\<open>can_allocate\<close> against the full compute budget.
\<close>

theorem encoder_budget_admits_every_item:
  assumes "items \<noteq> []"
  shows "(\<forall>e. compute_mm_encoder_budget cfg items = Inl e \<longleftrightarrow>
      e = ValueError \<and> disable_chunked_mm_input cfg \<and>
      (\<exists>(k, n) \<in> set items. max_num_batched_tokens cfg < n)) \<and>
    (\<forall>budget size0 size_of m r i k n n'.
       compute_mm_encoder_budget cfg items = Inr (budget, size0) \<and> 0 \<le> size0 \<and>
       enc_reach size_of size0 m \<and> (\<forall>rid h. \<not> holds m rid h) \<and> sized size_of r \<and>
       i < length (mm_features r) \<and> (k, n) \<in> set items \<and> get_num_encoder_embeds r i = Inr n' \<and> n' \<le> n \<longrightarrow>
       (\<exists>m'. can_allocate r i budget 0 m = Inr (True, m') \<and> n' \<le> num_free_slots m'))"
proof (intro conjI allI impI, goal_cases)
  case (1 e)
  have "Max (snd ` set items) > b \<longleftrightarrow> (\<exists>(k, n) \<in> set items. b < n)" for b
    using assms by (subst Max_gr_iff) force+
  then show ?case using assms by (auto simp: compute_mm_encoder_budget_def Let_def)
next
  case (2 budget size0 size_of m r i k n n')
  have inv: "enc_inv size_of m" and sz: "cache_size m = size0" using enc_reach_inv 2 by blast+
  have "key_set (cached m) \<subseteq> key_set (freeable m)"
  proof
    fix h assume h: "h \<in> key_set (cached m)"
    then obtain refs where "dict_get (cached m) h = Some refs" by (auto simp: key_set_get)
    moreover have "refs = {}" using 2 calculation by (auto simp: holds_def)
    ultimately show "h \<in> key_set (freeable m)" using inv by (simp add: enc_inv_def key_set_get)
  qed
  then have "key_set (cached m) = key_set (freeable m)" using enc_inv_cached_subset [OF inv] by blast
  then have full: "num_freeable_slots m = size0" using inv sz by (simp add: enc_inv_def)
  have "n \<le> Max (snd ` set items)" using 2 by (intro Max_ge) force+
  then have "n' \<le> budget" "n' \<le> size0"
    using 2 assms by (auto simp: compute_mm_encoder_budget_def Let_def split: if_splits)
  moreover have "size_of (mm_identifier (mm_features r ! i)) = n'" using sizedD [of size_of r i] 2 by simp
  ultimately show ?case
    using can_allocate_spec [OF inv, of r i budget 0] 2 full by auto
qed

theorem encoder_budget_admits_every_item_witness:
  "compute_mm_encoder_budget \<lparr>disable_chunked_mm_input = True, max_num_batched_tokens = 3,
       max_num_encoder_input_tokens = 8, encoder_cache_size = 10\<rparr> [(''image'', 4)] = Inl ValueError \<and>
   (\<exists>m'. can_allocate (mm_request ''r'' [image ''h'' 0 4]) 0 8 0 (EncoderCacheManager 10) = Inr (True, m') \<and>
      4 \<le> num_free_slots m')"
proof
  show "compute_mm_encoder_budget \<lparr>disable_chunked_mm_input = True, max_num_batched_tokens = 3,
       max_num_encoder_input_tokens = 8, encoder_cache_size = 10\<rparr> [(''image'', 4)] = Inl ValueError"
    using encoder_budget_admits_every_item [of "[(''image'', 4)]"] by simp
  have budget: "compute_mm_encoder_budget \<lparr>disable_chunked_mm_input = False, max_num_batched_tokens = 3,
       max_num_encoder_input_tokens = 8, encoder_cache_size = 10\<rparr> [(''image'', 4)] = Inr (8, 10)"
    by (simp add: compute_mm_encoder_budget_def)
  have "\<And>rid h. \<not> holds (EncoderCacheManager 10) rid h" by (simp add: holds_def EncoderCacheManager_def)
  moreover have "get_num_encoder_embeds (mm_request ''r'' [image ''h'' 0 4]) 0 = Inr 4"
    by (simp add: get_num_encoder_embeds_def get_num_embeds_def)
  ultimately show "\<exists>m'. can_allocate (mm_request ''r'' [image ''h'' 0 4]) 0 8 0 (EncoderCacheManager 10) = Inr (True, m') \<and>
      4 \<le> num_free_slots m'"
    using budget enc_reach.init [of "\<lambda>_. 4" 10] sized_image [of 4 "''r''" "''h''" 0]
    by (intro encoder_budget_admits_every_item [THEN conjunct2, THEN spec, THEN spec, THEN spec, THEN spec,
          THEN spec, THEN spec, THEN spec, THEN spec, THEN spec, THEN mp,
          of "[(''image'', 4)]" _ 8 10 "\<lambda>_. 4" "EncoderCacheManager 10" "mm_request ''r'' [image ''h'' 0 4]"
            0 "''image''" 4 4]) auto
qed

end
