(* ===== verification/Encoder_Sched.thy ===== *)
theory Encoder_Sched
  imports Encoder_Cache
begin

text \<open>
  The scheduler's use of the encoder cache (\<^verbatim>\<open>vllm/v1/core/sched/scheduler.py\<close>):
  which encoder inputs of a request run in this step, how many decoder tokens may run with
  them, and when the cache entries are released again; and the worker's side of the contract
  (\<^verbatim>\<open>gpu_model_runner.py\<close>), the encoder outputs it looks up for the scheduled tokens.

  The scheduler calls one of two cache classes. Their methods form a record of operations,
  which is what Python's dynamic dispatch amounts to; what the scheduler relies on is the
  locale \<open>encoder_cache_contract\<close>, interpreted on both classes.
\<close>

section \<open>Embeddings inside a placeholder range\<close>

definition embeds_cumsum :: "bool list \<Rightarrow> int list" where
  "embeds_cumsum bits = map (\<lambda>k. int (length (filter id (take (Suc k) bits)))) [0..<length bits]"

text \<open>Indexing a tensor: negative indices count from the end.\<close>

definition tensor_get :: "int list \<Rightarrow> int \<Rightarrow> int res" where
  "tensor_get xs j =
     (if 0 \<le> j \<and> j < int (length xs) then Inr (xs ! nat j)
      else if j < 0 \<and> - int (length xs) \<le> j then Inr (xs ! nat (int (length xs) + j))
      else Inl IndexError)"

definition get_embeds_indices_in_range :: "placeholder_range \<Rightarrow> int \<Rightarrow> int \<Rightarrow> (int \<times> int) res" where
  "get_embeds_indices_in_range p start_idx end_idx =
     (case is_embed p of
        None \<Rightarrow> Inr (start_idx, end_idx)
      | Some bits \<Rightarrow>
          rbind (if start_idx > 0 then tensor_get (embeds_cumsum bits) (start_idx - 1) else Inr 0)
            (\<lambda>a. rbind (tensor_get (embeds_cumsum bits) (end_idx - 1)) (\<lambda>b. Inr (a, b))))"


section \<open>Scheduling encoder inputs\<close>

record 'm encoder_ops =
  op_check_and_update_cache :: "request \<Rightarrow> nat \<Rightarrow> 'm \<Rightarrow> (bool \<times> 'm) res"
  op_can_allocate :: "request \<Rightarrow> nat \<Rightarrow> int \<Rightarrow> int \<Rightarrow> 'm \<Rightarrow> (bool \<times> 'm) res"
  op_allocate :: "request \<Rightarrow> nat \<Rightarrow> 'm \<Rightarrow> 'm res"
  op_get_cached_input_ids :: "request \<Rightarrow> 'm \<Rightarrow> nat list"
  op_free_encoder_input :: "request \<Rightarrow> nat \<Rightarrow> 'm \<Rightarrow> 'm res"
  op_free :: "request \<Rightarrow> 'm \<Rightarrow> 'm res"

definition shared_ops :: "encoder_cache_manager encoder_ops" where
  "shared_ops =
     \<lparr>op_check_and_update_cache = check_and_update_cache, op_can_allocate = can_allocate,
      op_allocate = allocate, op_get_cached_input_ids = get_cached_input_ids,
      op_free_encoder_input = free_encoder_input, op_free = ecm_free\<rparr>"

definition encdec_ops :: "encoder_decoder_cache_manager encoder_ops" where
  "encdec_ops =
     \<lparr>op_check_and_update_cache = ed_check_and_update_cache, op_can_allocate = ed_can_allocate,
      op_allocate = ed_allocate, op_get_cached_input_ids = ed_get_cached_input_ids,
      op_free_encoder_input = ed_free_encoder_input, op_free = ed_free\<rparr>"

text \<open>
  What the pass reads of the scheduler. The remote encoder cache is optional; of it only
  \<^verbatim>\<open>has_cache_item\<close> is asked.
\<close>

record encoder_scheduler =
  is_encoder_decoder :: bool
  scheduler_config :: encoder_scheduler_config
  ec_connector :: "(string \<Rightarrow> bool) option"

record 'm encoder_pass =
  encoder_inputs_to_schedule :: "nat list"
  external_load_encoder_input :: "nat list"
  num_new_tokens :: int
  encoder_compute_budget :: int
  mm_hashes_to_schedule :: "string set"
  num_embeds_to_schedule :: int
  encoder_cache :: 'm

text \<open>The end of an iteration, once the cache has room: skip, load remotely or compute.\<close>

definition place_encoder_input ::
  "encoder_scheduler \<Rightarrow> mm_feature \<Rightarrow> nat \<Rightarrow> int \<Rightarrow> int \<Rightarrow> 'm encoder_pass \<Rightarrow> 'm encoder_pass res" where
  "place_encoder_input sched f i nct num_encoder_embeds s =
     (let start_pos = offset (mm_position f);
          start_idx_rel = max 0 (nct - start_pos);
          end_idx_rel = min (plength (mm_position f)) (nct + num_new_tokens s - start_pos)
      in rbind (get_embeds_indices_in_range (mm_position f) start_idx_rel end_idx_rel)
           (\<lambda>(curr_embeds_start, curr_embeds_end).
              if curr_embeds_end - curr_embeds_start = 0 then Inr s
              else if (case ec_connector sched of None \<Rightarrow> False | Some has_cache_item \<Rightarrow> has_cache_item (mm_identifier f))
              then Inr (s\<lparr>mm_hashes_to_schedule := insert (mm_identifier f) (mm_hashes_to_schedule s),
                          external_load_encoder_input := external_load_encoder_input s @ [i],
                          num_embeds_to_schedule := num_embeds_to_schedule s + num_encoder_embeds\<rparr>)
              else Inr (s\<lparr>num_embeds_to_schedule := num_embeds_to_schedule s + num_encoder_embeds,
                          encoder_compute_budget := encoder_compute_budget s - num_encoder_embeds,
                          mm_hashes_to_schedule := insert (mm_identifier f) (mm_hashes_to_schedule s),
                          encoder_inputs_to_schedule := encoder_inputs_to_schedule s @ [i]\<rparr>)))"

text \<open>
  The middle of an iteration, for an input that is needed and not cached: roll the tokens
  back to before the item if it may not be split or the cache has no room. The flag says
  that the loop is left.
\<close>

definition admit_encoder_input ::
  "'m encoder_ops \<Rightarrow> encoder_scheduler \<Rightarrow> request \<Rightarrow> int \<Rightarrow> int \<Rightarrow> nat \<Rightarrow> int \<Rightarrow> 'm encoder_pass \<Rightarrow>
   (bool \<times> 'm encoder_pass) res" where
  "admit_encoder_input ops sched r nct shift i num_encoder_embeds s =
     (let f = mm_features r ! i;
          start_pos = offset (mm_position f);
          num_encoder_tokens = plength (mm_position f)
      in if disable_chunked_mm_input (scheduler_config sched) \<and> nct < start_pos \<and>
            nct + num_new_tokens s < start_pos + num_encoder_tokens
         then Inr (True, s\<lparr>num_new_tokens := max 0 (start_pos - (nct + shift))\<rparr>)
         else rbind (op_can_allocate ops r i (encoder_compute_budget s) (num_embeds_to_schedule s) (encoder_cache s))
           (\<lambda>(fits, m). let s' = s\<lparr>encoder_cache := m\<rparr> in
             if \<not> fits
             then Inr (True, s'\<lparr>num_new_tokens :=
                    (if nct + shift < start_pos then start_pos - (nct + shift) else 0)\<rparr>)
             else rbind (place_encoder_input sched f i nct num_encoder_embeds s')
                    (\<lambda>s''. Inr (False, s''))))"

text \<open>One iteration: the guards, then the check of the cache.\<close>

definition encoder_input_step ::
  "'m encoder_ops \<Rightarrow> encoder_scheduler \<Rightarrow> request \<Rightarrow> int \<Rightarrow> int \<Rightarrow> nat \<Rightarrow> 'm encoder_pass \<Rightarrow>
   (bool \<times> 'm encoder_pass) res" where
  "encoder_input_step ops sched r nct shift i s =
     (let f = mm_features r ! i;
          start_pos = offset (mm_position f);
          num_encoder_tokens = plength (mm_position f)
      in rbind (get_num_embeds (mm_position f)) (\<lambda>num_encoder_embeds.
        if start_pos \<ge> nct + num_new_tokens s + shift then Inr (True, s)
        else if is_encoder_decoder sched \<and> nct > 0
        then (if start_pos \<noteq> 0 then Inl AssertionError else Inr (False, s))
        else if start_pos + num_encoder_tokens \<le> nct then Inr (False, s)
        else if \<not> is_encoder_decoder sched \<and> mm_identifier f \<in> mm_hashes_to_schedule s then Inr (False, s)
        else rbind (if is_encoder_decoder sched then Inr (False, encoder_cache s)
                    else op_check_and_update_cache ops r i (encoder_cache s))
          (\<lambda>(hit, m).
            if hit then Inr (False, s\<lparr>encoder_cache := m\<rparr>)
            else admit_encoder_input ops sched r nct shift i num_encoder_embeds (s\<lparr>encoder_cache := m\<rparr>))))"

fun encoder_inputs_loop ::
  "'m encoder_ops \<Rightarrow> encoder_scheduler \<Rightarrow> request \<Rightarrow> int \<Rightarrow> int \<Rightarrow> nat list \<Rightarrow> 'm encoder_pass \<Rightarrow> 'm encoder_pass res" where
  "encoder_inputs_loop ops sched r nct shift [] s = Inr s"
| "encoder_inputs_loop ops sched r nct shift (i # is) s =
     rbind (encoder_input_step ops sched r nct shift i s)
       (\<lambda>(stop, s'). if stop then Inr s' else encoder_inputs_loop ops sched r nct shift is s')"

definition try_schedule_encoder_inputs ::
  "'m encoder_ops \<Rightarrow> encoder_scheduler \<Rightarrow> request \<Rightarrow> int \<Rightarrow> int \<Rightarrow> int \<Rightarrow> int \<Rightarrow> 'm \<Rightarrow>
   ((nat list \<times> int \<times> int \<times> nat list) \<times> 'm) res" where
  "try_schedule_encoder_inputs ops sched r nct new_tokens budget shift m =
     (if new_tokens = 0 \<or> \<not> has_encoder_inputs r then Inr (([], new_tokens, budget, []), m)
      else rbind (encoder_inputs_loop ops sched r nct shift [0..<length (mm_features r)]
             \<lparr>encoder_inputs_to_schedule = [], external_load_encoder_input = [], num_new_tokens = new_tokens,
              encoder_compute_budget = budget, mm_hashes_to_schedule = {}, num_embeds_to_schedule = 0,
              encoder_cache = m\<rparr>)
           (\<lambda>s. Inr ((encoder_inputs_to_schedule s, num_new_tokens s, encoder_compute_budget s,
                      external_load_encoder_input s), encoder_cache s)))"

text \<open>Once the request is scheduled, its inputs are entered in the cache.\<close>

definition allocate_encoder_inputs :: "'m encoder_ops \<Rightarrow> request \<Rightarrow> nat list \<Rightarrow> nat list \<Rightarrow> 'm \<Rightarrow> 'm res" where
  "allocate_encoder_inputs ops r to_schedule external m =
     rbind (fold_res (op_allocate ops r) to_schedule m) (fold_res (op_allocate ops r) external)"

text \<open>After the step, the inputs whose tokens are all computed are released.\<close>

definition free_encoder_inputs :: "'m encoder_ops \<Rightarrow> encoder_scheduler \<Rightarrow> request \<Rightarrow> 'm \<Rightarrow> 'm res" where
  "free_encoder_inputs ops sched r m =
     fold_res (\<lambda>i m.
         let p = mm_position (mm_features r ! i)
         in if is_encoder_decoder sched \<and> num_computed_tokens r > 0 then op_free_encoder_input ops r i m
            else if offset p + plength p \<le> num_computed_tokens r then op_free_encoder_input ops r i m
            else Inr m)
       (op_get_cached_input_ids ops r m) m"


section \<open>What the worker looks up\<close>

text \<open>
  The loop of \<^verbatim>\<open>_gather_mm_embeddings\<close> over one request's inputs: the hashes it asks
  the worker's encoder cache for. Each of them has to be there.
\<close>

fun gather_mm_hashes :: "mm_feature list \<Rightarrow> int \<Rightarrow> int \<Rightarrow> string list res" where
  "gather_mm_hashes [] nct n = Inr []"
| "gather_mm_hashes (f # fs) nct n =
     (let p = mm_position f
      in if offset p \<ge> nct + n then Inr []
         else if offset p + plength p \<le> nct then gather_mm_hashes fs nct n
         else let start_idx = max (nct - offset p) 0;
                  end_idx = min (nct - offset p + n) (plength p)
              in if \<not> start_idx < end_idx then Inl AssertionError
                 else rbind (get_embeds_indices_in_range p start_idx end_idx) (\<lambda>(a, b).
                        if a = b then gather_mm_hashes fs nct n
                        else rbind (gather_mm_hashes fs nct n) (\<lambda>hs. Inr (mm_identifier f # hs))))"


section \<open>Ranges\<close>

definition embeds_upto :: "placeholder_range \<Rightarrow> int \<Rightarrow> int" where
  "embeds_upto p j = (case is_embed p of None \<Rightarrow> j | Some bits \<Rightarrow> int (length (filter id (take (nat j) bits))))"

text \<open>A range is not empty, and a mask has one bit per token.\<close>

definition range_ok :: "placeholder_range \<Rightarrow> bool" where
  "range_ok p \<longleftrightarrow> 0 < plength p \<and> (\<forall>bits. is_embed p = Some bits \<longrightarrow> int (length bits) = plength p)"

lemma embeds_cumsum_get:
  assumes "0 < j" and "j \<le> int (length bits)"
  shows "tensor_get (embeds_cumsum bits) (j - 1) = Inr (int (length (filter id (take (nat j) bits))))"
proof -
  have "nat (j - 1) < length bits" "Suc (nat (j - 1)) = nat j" using assms by auto
  with assms show ?thesis by (simp add: tensor_get_def embeds_cumsum_def)
qed

lemma embeds_indices_eq:
  assumes "range_ok p" and "0 \<le> a" and "a < b" and "b \<le> plength p"
  shows "get_embeds_indices_in_range p a b = Inr (embeds_upto p a, embeds_upto p b)"
proof (cases "is_embed p")
  case (Some bits)
  then have "int (length bits) = plength p" using assms(1) by (simp add: range_ok_def)
  then show ?thesis using Some assms embeds_cumsum_get [of a bits] embeds_cumsum_get [of b bits]
    by (auto simp: get_embeds_indices_in_range_def embeds_upto_def)
qed (simp add: get_embeds_indices_in_range_def embeds_upto_def)

lemma embeds_upto_mono: "a \<le> b \<Longrightarrow> embeds_upto p a \<le> embeds_upto p b"
proof (cases "is_embed p")
  case (Some bits)
  assume "a \<le> b"
  then have "take (nat a) bits = take (nat a) (take (nat b) bits)" by (simp add: min_absorb1 nat_mono)
  then have "length (filter id (take (nat a) bits)) \<le> length (filter id (take (nat b) bits))"
    by (metis append_take_drop_id filter_append le_add1 length_append)
  with Some show ?thesis by (simp add: embeds_upto_def)
qed (simp add: embeds_upto_def)

text \<open>
  The indices never raise where the scheduler reads them, even when the shift for EAGLE lets
  the range end before the item begins.
\<close>

lemma embeds_indices_total:
  assumes ok: "range_ok p" and "0 \<le> a" "a < plength p" "0 \<le> b" "b \<le> plength p"
  shows "\<exists>x y. get_embeds_indices_in_range p a b = Inr (x, y)"
proof (cases "is_embed p")
  case (Some bits)
  then have len: "int (length bits) = plength p" using ok by (simp add: range_ok_def)
  have idx: "\<exists>y. tensor_get (embeds_cumsum bits) j = Inr y" if "- 1 \<le> j" "j < plength p" for j
    using that len ok by (auto simp: tensor_get_def embeds_cumsum_def range_ok_def)
  from idx [of "a - 1"] idx [of "b - 1"] assms(2-5) show ?thesis
    by (auto simp: get_embeds_indices_in_range_def Some)
qed (simp add: get_embeds_indices_in_range_def)

text \<open>The worker needs the output of an item for tokens \<open>nct\<close> to \<open>nct + n\<close>.\<close>

definition needs :: "mm_feature \<Rightarrow> int \<Rightarrow> int \<Rightarrow> bool" where
  "needs f nct n \<longleftrightarrow>
     (let p = mm_position f in
      offset p < nct + n \<and> nct < offset p + plength p \<and>
      embeds_upto p (max (nct - offset p) 0) \<noteq> embeds_upto p (min (nct - offset p + n) (plength p)))"

lemma needs_mono:
  assumes "needs f nct n" and "0 < n" and "n \<le> n'" and "0 < plength (mm_position f)"
  shows "needs f nct n'"
proof -
  let ?p = "mm_position f"
  define a e e' where "a = max (nct - offset ?p) 0" and "e = min (nct - offset ?p + n) (plength ?p)"
    and "e' = min (nct - offset ?p + n') (plength ?p)"
  have ne: "embeds_upto ?p a \<noteq> embeds_upto ?p e" "offset ?p < nct + n" "nct < offset ?p + plength ?p"
    using assms(1) by (simp_all add: needs_def a_def e_def Let_def)
  have "a \<le> e" "e \<le> e'" using assms(2-4) ne(2,3) by (auto simp: a_def e_def e'_def)
  then have "embeds_upto ?p a \<noteq> embeds_upto ?p e'"
    using embeds_upto_mono [of a e ?p] embeds_upto_mono [of e e' ?p] ne(1) by simp
  then show ?thesis using ne assms(3) by (simp add: needs_def a_def e'_def Let_def)
qed

text \<open>Items are listed by position, as the processor emits them.\<close>

definition items_ok :: "mm_feature list \<Rightarrow> bool" where
  "items_ok fs \<longleftrightarrow> sorted (map (\<lambda>f. offset (mm_position f)) fs) \<and> (\<forall>f\<in>set fs. range_ok (mm_position f))"

lemma gather_mm_hashes_spec:
  assumes "items_ok fs" and n: "0 < n"
  shows "\<exists>hs. gather_mm_hashes fs nct n = Inr hs \<and> set hs = mm_identifier ` {f \<in> set fs. needs f nct n}"
  using assms(1)
proof (induction fs)
  case (Cons f fs)
  let ?p = "mm_position f"
  have f: "range_ok ?p" "0 < plength ?p" and fs: "items_ok fs"
    and after: "\<And>g. g \<in> set fs \<Longrightarrow> offset ?p \<le> offset (mm_position g)"
    using Cons.prems by (auto simp: items_ok_def range_ok_def)
  from Cons.IH [OF fs] obtain hs where
    hs: "gather_mm_hashes fs nct n = Inr hs" "set hs = mm_identifier ` {g \<in> set fs. needs g nct n}" by auto
  consider "nct + n \<le> offset ?p" | "offset ?p + plength ?p \<le> nct" "offset ?p < nct + n"
    | "offset ?p < nct + n" "nct < offset ?p + plength ?p" by linarith
  then show ?case
  proof cases
    case 1
    then have "{g \<in> set (f # fs). needs g nct n} = {}" using after by (fastforce simp: needs_def Let_def)
    with 1 show ?thesis by (auto simp: Let_def)
  next
    case 2
    then have "\<not> needs f nct n" by (simp add: needs_def Let_def)
    with 2 hs show ?thesis by (auto simp: Let_def)
  next
    case 3
    define a e where "a = max (nct - offset ?p) 0" and "e = min (nct - offset ?p + n) (plength ?p)"
    have ae: "0 \<le> a" "a < e" "e \<le> plength ?p" using 3 n f(2) by (auto simp: a_def e_def)
    note idx = embeds_indices_eq [OF f(1) ae]
    have "needs f nct n \<longleftrightarrow> embeds_upto ?p a \<noteq> embeds_upto ?p e"
      using 3 by (simp add: needs_def Let_def a_def e_def)
    with 3 hs idx ae show ?thesis
      by (auto simp: Let_def a_def [symmetric] e_def [symmetric])
  qed
qed simp


section \<open>What the scheduler relies on\<close>

abbreviation hash_at :: "request \<Rightarrow> nat \<Rightarrow> string" where
  "hash_at r i \<equiv> mm_identifier (mm_features r ! i)"

text \<open>
  \<open>fresh m h\<close>: an input with hash \<open>h\<close> may be entered; \<open>has m rid h\<close>: the entry is there and
  reserved for the request. A cache for encoder-decoder models does not share entries.
\<close>

locale encoder_cache_contract =
  fixes ops :: "'m encoder_ops" and encdec :: bool and size_of :: "string \<Rightarrow> int"
    and ok :: "'m \<Rightarrow> bool" and free_slots :: "'m \<Rightarrow> int" and fresh :: "'m \<Rightarrow> string \<Rightarrow> bool"
    and has :: "'m \<Rightarrow> string \<Rightarrow> string \<Rightarrow> bool"
  assumes slots_nonneg: "ok m \<Longrightarrow> 0 \<le> free_slots m"
    and always_fresh: "encdec \<Longrightarrow> fresh m h"
    and check_law: "ok m \<Longrightarrow> sized size_of r \<Longrightarrow> i < length (mm_features r) \<Longrightarrow>
      \<exists>b m'. op_check_and_update_cache ops r i m = Inr (b, m') \<and> ok m' \<and> free_slots m' = free_slots m \<and>
        (\<forall>h. fresh m h \<longrightarrow> fresh m' h) \<and> (\<forall>rid h. has m rid h \<longrightarrow> has m' rid h) \<and>
        (if b then has m' (request_id r) (hash_at r i) else fresh m' (hash_at r i))"
    and can_law: "ok m \<Longrightarrow> sized size_of r \<Longrightarrow> i < length (mm_features r) \<Longrightarrow>
      \<exists>b m'. op_can_allocate ops r i budget scheduled m = Inr (b, m') \<and> ok m' \<and> free_slots m \<le> free_slots m' \<and>
        (\<forall>h. fresh m h \<longrightarrow> fresh m' h) \<and> (\<forall>rid h. has m rid h \<longrightarrow> has m' rid h) \<and>
        (b \<longrightarrow> size_of (hash_at r i) \<le> budget \<and> size_of (hash_at r i) + scheduled \<le> free_slots m')"
    and allocate_law: "ok m \<Longrightarrow> sized size_of r \<Longrightarrow> i < length (mm_features r) \<Longrightarrow>
      fresh m (hash_at r i) \<Longrightarrow> size_of (hash_at r i) \<le> free_slots m \<Longrightarrow>
      \<exists>m'. op_allocate ops r i m = Inr m' \<and> ok m' \<and> free_slots m' = free_slots m - size_of (hash_at r i) \<and>
        has m' (request_id r) (hash_at r i) \<and> (\<forall>rid h. has m rid h \<longrightarrow> has m' rid h) \<and>
        (\<forall>h. fresh m h \<and> h \<noteq> hash_at r i \<longrightarrow> fresh m' h)"
    and free_law: "ok m \<Longrightarrow> sized size_of r \<Longrightarrow>
      \<exists>m'. op_free ops r m = Inr m' \<and> ok m' \<and> free_slots m \<le> free_slots m' \<and>
        (\<forall>h. fresh m h \<longrightarrow> fresh m' h) \<and> (\<forall>rid h. has m rid h \<and> rid \<noteq> request_id r \<longrightarrow> has m' rid h)"
begin

definition embeds_of :: "request \<Rightarrow> nat list \<Rightarrow> int" where
  "embeds_of r js = sum_list (map (\<lambda>j. size_of (hash_at r j)) js)"

definition approved :: "'m encoder_pass \<Rightarrow> nat list" where
  "approved s = encoder_inputs_to_schedule s @ external_load_encoder_input s"

definition promises_kept :: "request \<Rightarrow> nat \<Rightarrow> 'm encoder_pass \<Rightarrow> bool" where
  "promises_kept r i s \<longleftrightarrow>
     ok (encoder_cache s) \<and> set (approved s) \<subseteq> {..<i} \<and>
     mm_hashes_to_schedule s = hash_at r ` set (approved s) \<and>
     (\<forall>j\<in>set (approved s). fresh (encoder_cache s) (hash_at r j)) \<and>
     (\<not> encdec \<longrightarrow> distinct (map (hash_at r) (approved s))) \<and>
     num_embeds_to_schedule s = embeds_of r (approved s) \<and>
     num_embeds_to_schedule s \<le> free_slots (encoder_cache s)"

definition within_budget :: "request \<Rightarrow> int \<Rightarrow> int \<Rightarrow> 'm encoder_pass \<Rightarrow> bool" where
  "within_budget r n0 budget0 s \<longleftrightarrow>
     encoder_compute_budget s + embeds_of r (encoder_inputs_to_schedule s) = budget0 \<and>
     0 \<le> encoder_compute_budget s \<and> 0 \<le> num_new_tokens s \<and> num_new_tokens s \<le> n0"

definition covered :: "request \<Rightarrow> int \<Rightarrow> nat \<Rightarrow> 'm encoder_pass \<Rightarrow> bool" where
  "covered r nct i s \<longleftrightarrow>
     (\<not> encdec \<and> 0 < num_new_tokens s \<longrightarrow>
      (\<forall>j<i. needs (mm_features r ! j) nct (num_new_tokens s) \<longrightarrow>
         has (encoder_cache s) (request_id r) (hash_at r j) \<or> hash_at r j \<in> mm_hashes_to_schedule s))"

text \<open>No reference of any request is lost since the pass began in state \<open>m0\<close>.\<close>

definition refs_kept :: "'m \<Rightarrow> 'm \<Rightarrow> bool" where
  "refs_kept m0 m \<longleftrightarrow> (\<forall>rid h. has m0 rid h \<longrightarrow> has m rid h)"

definition pass_inv :: "'m \<Rightarrow> request \<Rightarrow> int \<Rightarrow> int \<Rightarrow> int \<Rightarrow> nat \<Rightarrow> 'm encoder_pass \<Rightarrow> bool" where
  "pass_inv m0 r nct n0 budget0 i s \<longleftrightarrow>
     promises_kept r i s \<and> within_budget r n0 budget0 s \<and> covered r nct i s \<and> refs_kept m0 (encoder_cache s)"

lemma pass_inv_skip:
  assumes "pass_inv m0 r nct n0 budget0 i s"
    and "\<not> encdec \<Longrightarrow> 0 < num_new_tokens s \<Longrightarrow> needs (mm_features r ! i) nct (num_new_tokens s) \<Longrightarrow>
      has (encoder_cache s) (request_id r) (hash_at r i) \<or> hash_at r i \<in> mm_hashes_to_schedule s"
  shows "pass_inv m0 r nct n0 budget0 (Suc i) s"
  using assms by (auto simp: pass_inv_def promises_kept_def covered_def less_Suc_eq)

lemma pass_inv_cache:
  assumes "pass_inv m0 r nct n0 budget0 i s" and "ok m" and "free_slots (encoder_cache s) \<le> free_slots m"
    and "\<And>h. fresh (encoder_cache s) h \<Longrightarrow> fresh m h"
    and "\<And>rid h. has (encoder_cache s) rid h \<Longrightarrow> has m rid h"
  shows "pass_inv m0 r nct n0 budget0 i (s\<lparr>encoder_cache := m\<rparr>)"
  using assms by (auto simp: pass_inv_def promises_kept_def covered_def within_budget_def approved_def refs_kept_def)

lemma pass_inv_stop:
  assumes inv: "pass_inv m0 r nct n0 budget0 i s" and items: "items_ok (mm_features r)"
    and i: "i < length (mm_features r)" and n: "0 \<le> n" "n \<le> num_new_tokens s"
    and past: "0 < n \<Longrightarrow> nct + n \<le> offset (mm_position (mm_features r ! i))"
  shows "pass_inv m0 r nct n0 budget0 (length (mm_features r)) (s\<lparr>num_new_tokens := n\<rparr>)"
proof -
  have cov: "covered r nct i s" using inv unfolding pass_inv_def by blast
  have "covered r nct (length (mm_features r)) (s\<lparr>num_new_tokens := n\<rparr>)"
    unfolding covered_def
  proof (intro impI allI)
    fix j assume pos: "\<not> encdec \<and> 0 < num_new_tokens (s\<lparr>num_new_tokens := n\<rparr>)" and j: "j < length (mm_features r)"
      and nd: "needs (mm_features r ! j) nct (num_new_tokens (s\<lparr>num_new_tokens := n\<rparr>))"
    have "mm_features r ! j \<in> set (mm_features r)" using j by simp
    then have len: "0 < plength (mm_position (mm_features r ! j))"
      using items by (auto simp: items_ok_def range_ok_def)
    have "j < i"
    proof (rule ccontr)
      assume "\<not> j < i"
      then have "offset (mm_position (mm_features r ! i)) \<le> offset (mm_position (mm_features r ! j))"
        using items j sorted_nth_mono [of "map (\<lambda>f. offset (mm_position f)) (mm_features r)" i j]
        by (simp add: items_ok_def)
      with past nd pos show False by (simp add: needs_def Let_def)
    qed
    moreover have "needs (mm_features r ! j) nct (num_new_tokens s)"
      using needs_mono [OF _ _ n(2) len] nd pos by simp
    ultimately show "has (encoder_cache (s\<lparr>num_new_tokens := n\<rparr>)) (request_id r) (hash_at r j) \<or>
        hash_at r j \<in> mm_hashes_to_schedule (s\<lparr>num_new_tokens := n\<rparr>)"
      using cov pos n unfolding covered_def by auto
  qed
  then show ?thesis using inv i n by (auto simp: pass_inv_def promises_kept_def within_budget_def approved_def)
qed

lemma embeds_of_simps [simp]:
  "embeds_of r [] = 0" "embeds_of r (j # js) = size_of (hash_at r j) + embeds_of r js"
  by (simp_all add: embeds_of_def)

lemma embeds_of_append [simp]: "embeds_of r (js @ ks) = embeds_of r js + embeds_of r ks"
  by (simp add: embeds_of_def)

lemma place_encoder_input_inv:
  assumes inv: "pass_inv m0 r nct n0 budget0 i s" and items: "items_ok (mm_features r)"
    and i: "i < length (mm_features r)" and n: "n = size_of (hash_at r i)"
    and room: "n \<le> encoder_compute_budget s" "n + num_embeds_to_schedule s \<le> free_slots (encoder_cache s)"
    and new: "\<not> encdec \<Longrightarrow> fresh (encoder_cache s) (hash_at r i) \<and> hash_at r i \<notin> mm_hashes_to_schedule s"
    and overlap: "offset (mm_position (mm_features r ! i)) < nct + num_new_tokens s + shift" "shift \<le> 1"
      "nct < offset (mm_position (mm_features r ! i)) + plength (mm_position (mm_features r ! i))"
  shows "\<exists>s'. place_encoder_input sched (mm_features r ! i) i nct n s = Inr s' \<and> pass_inv m0 r nct n0 budget0 (Suc i) s'"
proof -
  let ?f = "mm_features r ! i"
  let ?p = "mm_position ?f"
  define a e where "a = max 0 (nct - offset ?p)" and "e = min (plength ?p) (nct + num_new_tokens s - offset ?p)"
  have ok: "range_ok ?p" "0 < plength ?p" using items i by (auto simp: items_ok_def range_ok_def)
  have ae: "0 \<le> a" "a < plength ?p" "0 \<le> e" "e \<le> plength ?p" using overlap ok(2) by (auto simp: a_def e_def)
  obtain x y where idx: "get_embeds_indices_in_range ?p a e = Inr (x, y)"
    using embeds_indices_total [OF ok(1) ae] by auto
  show ?thesis
  proof (cases "y - x = 0")
    case True
    have "\<not> needs ?f nct (num_new_tokens s)" if "0 < num_new_tokens s"
    proof
      assume nd: "needs ?f nct (num_new_tokens s)"
      then have "a < e" using that overlap(3) ok(2) by (auto simp: needs_def Let_def a_def e_def)
      then show False using embeds_indices_eq [OF ok(1) ae(1) _ ae(4)] idx nd True
        by (simp add: needs_def Let_def a_def e_def max.commute min.commute algebra_simps)
    qed
    then have "pass_inv m0 r nct n0 budget0 (Suc i) s" by (intro pass_inv_skip [OF inv]) auto
    then show ?thesis using idx True by (simp add: place_encoder_input_def a_def [symmetric] e_def [symmetric])
  next
    case False
    have fr: "fresh (encoder_cache s) (hash_at r i)" using new always_fresh by blast
    have nothash: "\<not> encdec \<Longrightarrow> hash_at r i \<notin> hash_at r ` set (approved s)"
      using new inv unfolding pass_inv_def promises_kept_def by metis
    have pk: "promises_kept r i s" "within_budget r n0 budget0 s" "covered r nct i s" "refs_kept m0 (encoder_cache s)"
      using inv unfolding pass_inv_def by blast+
    have distinct: "\<not> encdec \<Longrightarrow> distinct (map (hash_at r) (approved s))"
      using pk(1) unfolding promises_kept_def by blast
    define s' where "s' = (if (case ec_connector sched of None \<Rightarrow> False | Some g \<Rightarrow> g (hash_at r i))
      then s\<lparr>mm_hashes_to_schedule := insert (hash_at r i) (mm_hashes_to_schedule s),
             external_load_encoder_input := external_load_encoder_input s @ [i],
             num_embeds_to_schedule := num_embeds_to_schedule s + n\<rparr>
      else s\<lparr>num_embeds_to_schedule := num_embeds_to_schedule s + n,
             encoder_compute_budget := encoder_compute_budget s - n,
             mm_hashes_to_schedule := insert (hash_at r i) (mm_hashes_to_schedule s),
             encoder_inputs_to_schedule := encoder_inputs_to_schedule s @ [i]\<rparr>)"
    have run: "place_encoder_input sched ?f i nct n s = Inr s'"
      using idx False by (simp add: place_encoder_input_def a_def [symmetric] e_def [symmetric] s'_def)
    have "set (approved s') = insert i (set (approved s))" "embeds_of r (approved s') = embeds_of r (approved s) + n"
      "encoder_cache s' = encoder_cache s"
      "mm_hashes_to_schedule s' = insert (hash_at r i) (mm_hashes_to_schedule s)"
      "num_embeds_to_schedule s' = num_embeds_to_schedule s + n" "num_new_tokens s' = num_new_tokens s"
      by (auto simp: s'_def approved_def n)
    moreover have "\<not> encdec \<Longrightarrow> distinct (map (hash_at r) (approved s'))"
      using distinct nothash by (auto simp: s'_def approved_def)
    ultimately have "promises_kept r (Suc i) s'" using pk(1) fr room
      unfolding promises_kept_def by auto
    moreover have "within_budget r n0 budget0 s'" using pk(2) room
      by (auto simp: within_budget_def s'_def n)
    moreover have "covered r nct (Suc i) s'" using pk(3)
      by (auto simp: covered_def s'_def less_Suc_eq)
    moreover have "refs_kept m0 (encoder_cache s')" using pk(4) by (simp add: s'_def)
    ultimately show ?thesis using run by (simp add: pass_inv_def)
  qed
qed

lemma admit_encoder_input_inv:
  assumes inv: "pass_inv m0 r nct n0 budget0 i s" and items: "items_ok (mm_features r)"
    and sz: "sized size_of r" and i: "i < length (mm_features r)" and n: "n = size_of (hash_at r i)"
    and shift: "0 \<le> shift" "shift \<le> 1"
    and new: "\<not> encdec \<Longrightarrow> fresh (encoder_cache s) (hash_at r i) \<and> hash_at r i \<notin> mm_hashes_to_schedule s"
    and overlap: "offset (mm_position (mm_features r ! i)) < nct + num_new_tokens s + shift"
      "nct < offset (mm_position (mm_features r ! i)) + plength (mm_position (mm_features r ! i))"
  shows "\<exists>stop s'. admit_encoder_input ops sched r nct shift i n s = Inr (stop, s') \<and>
    pass_inv m0 r nct n0 budget0 (if stop then length (mm_features r) else Suc i) s'"
proof -
  let ?p = "mm_position (mm_features r ! i)"
  have new0: "0 \<le> num_new_tokens s" using inv by (simp add: pass_inv_def within_budget_def)
  have stop: "pass_inv m0 r nct n0 budget0 (length (mm_features r)) (s'\<lparr>num_new_tokens := k\<rparr>)"
    if "pass_inv m0 r nct n0 budget0 i s'" "num_new_tokens s' = num_new_tokens s"
      "k = max 0 (offset ?p - (nct + shift))" for s' k
    by (rule pass_inv_stop [OF that(1) items i]) (use that overlap shift new0 in auto)
  show ?thesis
  proof (cases "disable_chunked_mm_input (scheduler_config sched) \<and> nct < offset ?p \<and>
            nct + num_new_tokens s < offset ?p + plength ?p")
    case True
    then show ?thesis using stop [OF inv refl refl] by (auto simp: admit_encoder_input_def)
  next
    case False
    have "ok (encoder_cache s)" using inv by (simp add: pass_inv_def promises_kept_def)
    from can_law [OF this sz i, of "encoder_compute_budget s" "num_embeds_to_schedule s"] obtain b m where
      can: "op_can_allocate ops r i (encoder_compute_budget s) (num_embeds_to_schedule s) (encoder_cache s) = Inr (b, m)"
      and m: "ok m" "free_slots (encoder_cache s) \<le> free_slots m" "\<forall>h. fresh (encoder_cache s) h \<longrightarrow> fresh m h"
        "\<forall>rid h. has (encoder_cache s) rid h \<longrightarrow> has m rid h"
        "b \<longrightarrow> n \<le> encoder_compute_budget s \<and> n + num_embeds_to_schedule s \<le> free_slots m"
      unfolding n by blast
    let ?s = "s\<lparr>encoder_cache := m\<rparr>"
    have inv': "pass_inv m0 r nct n0 budget0 i ?s"
      by (rule pass_inv_cache [OF inv m(1,2)]) (use m(3,4) in blast)+
    have admit: "admit_encoder_input ops sched r nct shift i n s =
        (if \<not> b then Inr (True, ?s\<lparr>num_new_tokens := (if nct + shift < offset ?p then offset ?p - (nct + shift) else 0)\<rparr>)
         else rbind (place_encoder_input sched (mm_features r ! i) i nct n ?s) (\<lambda>s''. Inr (False, s'')))"
      unfolding admit_encoder_input_def Let_def if_not_P [OF False] can by simp
    show ?thesis
    proof (cases b)
      case True
      have "\<exists>s'. place_encoder_input sched (mm_features r ! i) i nct n ?s = Inr s' \<and> pass_inv m0 r nct n0 budget0 (Suc i) s'"
        by (rule place_encoder_input_inv [OF inv' items i n, where shift = shift])
          (use True m new overlap shift in auto)
      then show ?thesis unfolding admit using True by auto
    next
      case no: False
      have "pass_inv m0 r nct n0 budget0 (length (mm_features r)) (?s\<lparr>num_new_tokens :=
          (if nct + shift < offset ?p then offset ?p - (nct + shift) else 0)\<rparr>)"
        by (rule stop [OF inv']) auto
      then show ?thesis unfolding admit using no by (intro exI conjI, simp) simp
    qed
  qed
qed

lemma encoder_input_step_inv:
  assumes inv: "pass_inv m0 r nct n0 budget0 i s" and items: "items_ok (mm_features r)"
    and sz: "sized size_of r" and i: "i < length (mm_features r)"
    and kind: "is_encoder_decoder sched = encdec" and shift: "0 \<le> shift" "shift \<le> 1"
    and origin: "encdec \<Longrightarrow> offset (mm_position (mm_features r ! i)) = 0"
  shows "\<exists>stop s'. encoder_input_step ops sched r nct shift i s = Inr (stop, s') \<and>
    pass_inv m0 r nct n0 budget0 (if stop then length (mm_features r) else Suc i) s'"
proof -
  let ?f = "mm_features r ! i"
  let ?p = "mm_position ?f"
  define h where "h = hash_at r i"
  define n where "n = size_of h"
  have n: "get_num_embeds ?p = Inr n" "0 \<le> n"
    using sizedD [OF sz i] i by (simp_all add: get_num_encoder_embeds_def n_def h_def)
  have new0: "0 \<le> num_new_tokens s" using inv by (simp add: pass_inv_def within_budget_def)
  note run = encoder_input_step_def Let_def n(1) rbind_Inr kind
  consider (far) "nct + num_new_tokens s + shift \<le> offset ?p"
    | (ed) "offset ?p < nct + num_new_tokens s + shift" "encdec" "0 < nct"
    | (past) "offset ?p < nct + num_new_tokens s + shift" "\<not> (encdec \<and> 0 < nct)" "offset ?p + plength ?p \<le> nct"
    | (dup) "offset ?p < nct + num_new_tokens s + shift" "\<not> encdec" "nct < offset ?p + plength ?p"
        "h \<in> mm_hashes_to_schedule s"
    | (work) "offset ?p < nct + num_new_tokens s + shift" "\<not> (encdec \<and> 0 < nct)" "nct < offset ?p + plength ?p"
        "\<not> encdec \<longrightarrow> h \<notin> mm_hashes_to_schedule s"
    by linarith
  then show ?thesis
  proof cases
    case far
    have "pass_inv m0 r nct n0 budget0 (length (mm_features r)) (s\<lparr>num_new_tokens := num_new_tokens s\<rparr>)"
      by (rule pass_inv_stop [OF inv items i new0]) (use far shift in auto)
    then show ?thesis using far by (auto simp: run)
  next
    case ed
    have "pass_inv m0 r nct n0 budget0 (Suc i) s" by (rule pass_inv_skip [OF inv]) (use ed in simp)
    then show ?thesis using origin ed by (auto simp: run)
  next
    case past
    then have "\<not> needs ?f nct (num_new_tokens s)" by (simp add: needs_def Let_def)
    then have "pass_inv m0 r nct n0 budget0 (Suc i) s" by (intro pass_inv_skip [OF inv]) simp
    then show ?thesis using past by (auto simp: run)
  next
    case dup
    then have "pass_inv m0 r nct n0 budget0 (Suc i) s" using pass_inv_skip [OF inv] h_def by blast
    then show ?thesis using dup by (auto simp: run h_def)
  next
    case work
    define checked where "checked = (if encdec then Inr (False, encoder_cache s)
        else op_check_and_update_cache ops r i (encoder_cache s))"
    have "\<exists>b m1. checked = Inr (b, m1) \<and> pass_inv m0 r nct n0 budget0 i (s\<lparr>encoder_cache := m1\<rparr>) \<and>
        (if b then has m1 (request_id r) h else fresh m1 h)"
    proof (cases encdec)
      case True
      show ?thesis by (rule exI [of _ False], rule exI [of _ "encoder_cache s"])
          (use True inv always_fresh [OF True] in \<open>simp add: checked_def\<close>)
    next
      case False
      have "ok (encoder_cache s)" using inv by (simp add: pass_inv_def promises_kept_def)
      from check_law [OF this sz i] False show ?thesis
        using pass_inv_cache [OF inv] unfolding checked_def h_def by fastforce
    qed
    then obtain b m1 where c: "checked = Inr (b, m1)"
      and inv1: "pass_inv m0 r nct n0 budget0 i (s\<lparr>encoder_cache := m1\<rparr>)"
      and got: "if b then has m1 (request_id r) h else fresh m1 h" by blast
    have "encoder_input_step ops sched r nct shift i s =
        rbind checked (\<lambda>(hit, m). if hit then Inr (False, s\<lparr>encoder_cache := m\<rparr>)
            else admit_encoder_input ops sched r nct shift i n (s\<lparr>encoder_cache := m\<rparr>))"
      using work unfolding encoder_input_step_def Let_def n(1) rbind_Inr kind checked_def h_def by (cases encdec) simp_all
    then have step: "encoder_input_step ops sched r nct shift i s =
        (if b then Inr (False, s\<lparr>encoder_cache := m1\<rparr>)
         else admit_encoder_input ops sched r nct shift i n (s\<lparr>encoder_cache := m1\<rparr>))"
      unfolding c by simp
    show ?thesis
    proof (cases b)
      case True
      have "pass_inv m0 r nct n0 budget0 (Suc i) (s\<lparr>encoder_cache := m1\<rparr>)"
        by (rule pass_inv_skip [OF inv1]) (use True got h_def in auto)
      then show ?thesis using True unfolding step by auto
    next
      case False
      have "\<exists>stop s'. admit_encoder_input ops sched r nct shift i n (s\<lparr>encoder_cache := m1\<rparr>) = Inr (stop, s') \<and>
          pass_inv m0 r nct n0 budget0 (if stop then length (mm_features r) else Suc i) s'"
        by (rule admit_encoder_input_inv [OF inv1 items sz i _ shift]) (use False got work in \<open>auto simp: n_def h_def\<close>)
      then show ?thesis using False unfolding step by simp
    qed
  qed
qed

lemma encoder_inputs_loop_inv:
  assumes "pass_inv m0 r nct n0 budget0 i s" and items: "items_ok (mm_features r)"
    and sz: "sized size_of r" and "i \<le> length (mm_features r)"
    and kind: "is_encoder_decoder sched = encdec" and shift: "0 \<le> shift" "shift \<le> 1"
    and origin: "\<And>j. encdec \<Longrightarrow> j < length (mm_features r) \<Longrightarrow> offset (mm_position (mm_features r ! j)) = 0"
  shows "\<exists>s'. encoder_inputs_loop ops sched r nct shift [i..<length (mm_features r)] s = Inr s' \<and>
    pass_inv m0 r nct n0 budget0 (length (mm_features r)) s'"
  using assms(1,4)
proof (induction "length (mm_features r) - i" arbitrary: i s)
  case 0
  then show ?case by simp
next
  case (Suc l)
  then have i: "i < length (mm_features r)" by simp
  obtain stop s' where s': "encoder_input_step ops sched r nct shift i s = Inr (stop, s')"
      "pass_inv m0 r nct n0 budget0 (if stop then length (mm_features r) else Suc i) s'"
    using encoder_input_step_inv [OF Suc.prems(1) items sz i kind shift] origin [OF _ i] by blast
  show ?case
  proof (cases stop)
    case True
    then show ?thesis using s' i by (simp add: upt_conv_Cons)
  next
    case False
    have "\<exists>s''. encoder_inputs_loop ops sched r nct shift [Suc i..<length (mm_features r)] s' = Inr s'' \<and>
        pass_inv m0 r nct n0 budget0 (length (mm_features r)) s''"
      by (rule Suc.hyps(1)) (use Suc.hyps(2) s' False i in auto)
    then show ?thesis using s' i False by (simp add: upt_conv_Cons)
  qed
qed

lemma allocate_batch:
  assumes "ok m" and sz: "sized size_of r" and "set js \<subseteq> {..<length (mm_features r)}"
    and "\<forall>j\<in>set js. fresh m (hash_at r j)" and "\<not> encdec \<longrightarrow> distinct (map (hash_at r) js)"
    and "embeds_of r js \<le> free_slots m"
  shows "\<exists>m'. fold_res (op_allocate ops r) js m = Inr m' \<and> ok m' \<and>
    free_slots m' = free_slots m - embeds_of r js \<and>
    refs_kept m m' \<and> (\<forall>h\<in>hash_at r ` set js. has m' (request_id r) h)"
  using assms(1,3-6)
proof (induction js arbitrary: m)
  case (Cons j js)
  have j: "j < length (mm_features r)" and js: "set js \<subseteq> {..<length (mm_features r)}" using Cons.prems(2) by auto
  have pos: "0 \<le> embeds_of r js"
    unfolding embeds_of_def using js sizedD [OF sz] by (intro sum_list_nonneg) auto
  have "size_of (hash_at r j) \<le> free_slots m" using Cons.prems(5) pos by simp
  with allocate_law [OF Cons.prems(1) sz j] Cons.prems(3) obtain m1 where
    m1: "op_allocate ops r j m = Inr m1" "ok m1" "free_slots m1 = free_slots m - size_of (hash_at r j)"
      "has m1 (request_id r) (hash_at r j)" "refs_kept m m1"
      "\<forall>h. fresh m h \<and> h \<noteq> hash_at r j \<longrightarrow> fresh m1 h"
    by (auto simp: refs_kept_def)
  have nj: "\<not> encdec \<Longrightarrow> hash_at r j \<notin> hash_at r ` set js \<and> distinct (map (hash_at r) js)"
    using Cons.prems(4) by auto
  have "\<exists>m'. fold_res (op_allocate ops r) js m1 = Inr m' \<and> ok m' \<and>
      free_slots m' = free_slots m1 - embeds_of r js \<and>
      refs_kept m1 m' \<and> (\<forall>h\<in>hash_at r ` set js. has m' (request_id r) h)"
  proof (rule Cons.IH [OF m1(2) js])
    show "\<forall>j\<in>set js. fresh m1 (hash_at r j)"
    proof
      fix k assume k: "k \<in> set js"
      show "fresh m1 (hash_at r k)"
        using m1(6) Cons.prems(3) nj always_fresh k by (cases encdec) (auto, metis image_eqI)
    qed
  qed (use nj Cons.prems(5) m1(3) in auto)
  then show ?case using m1 by (auto simp: refs_kept_def)
qed (simp add: refs_kept_def)

text \<open>
  What the pass promises about the inputs it picked. Releasing another request keeps it, so it
  still holds after preemptions.
\<close>

definition promised :: "request \<Rightarrow> nat list \<Rightarrow> nat list \<Rightarrow> 'm \<Rightarrow> bool" where
  "promised r ins ext m \<longleftrightarrow>
     ok m \<and> set (ins @ ext) \<subseteq> {..<length (mm_features r)} \<and> (\<forall>j\<in>set (ins @ ext). fresh m (hash_at r j)) \<and>
     (\<not> encdec \<longrightarrow> distinct (map (hash_at r) (ins @ ext))) \<and> embeds_of r (ins @ ext) \<le> free_slots m"

lemma promised_free:
  assumes "promised r ins ext m" and "sized size_of r'"
  shows "\<exists>m'. op_free ops r' m = Inr m' \<and> promised r ins ext m' \<and>
    (\<forall>rid h. has m rid h \<and> rid \<noteq> request_id r' \<longrightarrow> has m' rid h)"
  using free_law [OF _ assms(2), of m] assms(1) unfolding promised_def by fastforce

lemma promised_allocate:
  assumes "promised r ins ext m" and sz: "sized size_of r"
  shows "\<exists>m'. allocate_encoder_inputs ops r ins ext m = Inr m' \<and> ok m' \<and> refs_kept m m' \<and>
    (\<forall>h\<in>hash_at r ` set (ins @ ext). has m' (request_id r) h)"
  using allocate_batch [OF _ sz, of m "ins @ ext"] assms(1)
  unfolding promised_def allocate_encoder_inputs_def fold_res_append [symmetric] by blast

lemma try_schedule_promises:
  assumes m: "ok m" and items: "items_ok (mm_features r)" and sz: "sized size_of r"
    and kind: "is_encoder_decoder sched = encdec" and shift: "0 \<le> shift" "shift \<le> 1"
    and origin: "\<And>j. encdec \<Longrightarrow> j < length (mm_features r) \<Longrightarrow> offset (mm_position (mm_features r ! j)) = 0"
    and n0: "0 \<le> n0" and b0: "0 \<le> budget0"
  shows "\<exists>ins n budget ext m1.
    try_schedule_encoder_inputs ops sched r nct n0 budget0 shift m = Inr ((ins, n, budget, ext), m1) \<and>
    promised r ins ext m1 \<and> refs_kept m m1 \<and>
    0 \<le> n \<and> n \<le> n0 \<and> 0 \<le> budget \<and> budget + embeds_of r ins = budget0 \<and>
    (\<not> encdec \<and> 0 < n \<longrightarrow> (\<forall>f\<in>set (mm_features r). needs f nct n \<longrightarrow>
       has m1 (request_id r) (mm_identifier f) \<or> mm_identifier f \<in> hash_at r ` set (ins @ ext)))"
proof (cases "n0 = 0 \<or> \<not> has_encoder_inputs r")
  case True
  then have "n0 = 0 \<or> mm_features r = []" by (simp add: has_encoder_inputs_def num_encoder_inputs_def)
  then show ?thesis using m n0 b0 True slots_nonneg [OF m]
    by (auto simp: try_schedule_encoder_inputs_def promised_def refs_kept_def)
next
  case False
  let ?N = "length (mm_features r)"
  let ?s0 = "\<lparr>encoder_inputs_to_schedule = [], external_load_encoder_input = [], num_new_tokens = n0,
    encoder_compute_budget = budget0, mm_hashes_to_schedule = {}, num_embeds_to_schedule = 0, encoder_cache = m\<rparr>"
  have "pass_inv m r nct n0 budget0 0 ?s0" using m n0 b0 slots_nonneg [OF m]
    by (simp add: pass_inv_def promises_kept_def within_budget_def covered_def approved_def refs_kept_def)
  from encoder_inputs_loop_inv [OF this items sz _ kind shift origin] obtain s where
    s: "encoder_inputs_loop ops sched r nct shift [0..<?N] ?s0 = Inr s" "pass_inv m r nct n0 budget0 ?N s"
    by auto
  have pk: "promises_kept r ?N s" "within_budget r n0 budget0 s" "covered r nct ?N s" "refs_kept m (encoder_cache s)"
    using s(2) unfolding pass_inv_def by blast+
  have prom: "promised r (encoder_inputs_to_schedule s) (external_load_encoder_input s) (encoder_cache s)"
    using pk(1) unfolding promised_def promises_kept_def approved_def by metis
  have "has (encoder_cache s) (request_id r) (mm_identifier f) \<or> mm_identifier f \<in> hash_at r ` set (approved s)"
    if "\<not> encdec" "0 < num_new_tokens s" "f \<in> set (mm_features r)" "needs f nct (num_new_tokens s)" for f
  proof -
    from that(3) obtain j where "j < ?N" "f = mm_features r ! j" by (auto simp: in_set_conv_nth)
    with pk(3) that pk(1) show ?thesis unfolding covered_def promises_kept_def by metis
  qed
  then show ?thesis using False s(1) prom pk(2,4)
    by (auto simp: try_schedule_encoder_inputs_def approved_def within_budget_def)
qed

text \<open>The pass and the allocation that follows it.\<close>

lemma schedule_then_allocate:
  assumes m: "ok m" and items: "items_ok (mm_features r)" and sz: "sized size_of r"
    and kind: "is_encoder_decoder sched = encdec" and shift: "0 \<le> shift" "shift \<le> 1"
    and origin: "\<And>j. encdec \<Longrightarrow> j < length (mm_features r) \<Longrightarrow> offset (mm_position (mm_features r ! j)) = 0"
    and n0: "0 \<le> n0" and b0: "0 \<le> budget0"
  shows "\<exists>ins n budget ext m1 m2.
    try_schedule_encoder_inputs ops sched r nct n0 budget0 shift m = Inr ((ins, n, budget, ext), m1) \<and>
    allocate_encoder_inputs ops r ins ext m1 = Inr m2 \<and> ok m2 \<and>
    0 \<le> n \<and> n \<le> n0 \<and> 0 \<le> budget \<and> budget + embeds_of r ins = budget0 \<and>
    (\<not> encdec \<and> 0 < n \<longrightarrow> (\<forall>f\<in>set (mm_features r). needs f nct n \<longrightarrow> has m2 (request_id r) (mm_identifier f)))"
proof -
  from try_schedule_promises [OF m items sz kind shift origin n0 b0, of nct] obtain ins n budget ext m1 where
    tried: "try_schedule_encoder_inputs ops sched r nct n0 budget0 shift m = Inr ((ins, n, budget, ext), m1)"
      "promised r ins ext m1" "0 \<le> n" "n \<le> n0" "0 \<le> budget" "budget + embeds_of r ins = budget0"
      "\<not> encdec \<and> 0 < n \<longrightarrow> (\<forall>f\<in>set (mm_features r). needs f nct n \<longrightarrow>
         has m1 (request_id r) (mm_identifier f) \<or> mm_identifier f \<in> hash_at r ` set (ins @ ext))"
    by blast
  from promised_allocate [OF tried(2) sz] obtain m2 where
    m2: "allocate_encoder_inputs ops r ins ext m1 = Inr m2" "ok m2" "refs_kept m1 m2"
      "\<forall>h\<in>hash_at r ` set (ins @ ext). has m2 (request_id r) h" by blast
  have "\<not> encdec \<and> 0 < n \<longrightarrow> (\<forall>f\<in>set (mm_features r). needs f nct n \<longrightarrow> has m2 (request_id r) (mm_identifier f))"
    using tried(7) m2(3,4) unfolding refs_kept_def by metis
  with tried(1,3-6) m2(1,2) show ?thesis by blast
qed

end


section \<open>The two caches\<close>

interpretation shared_cache: encoder_cache_contract shared_ops False size_of "enc_inv size_of" num_free_slots
  "\<lambda>m h. dict_get (cached m) h = None" holds for size_of
proof (unfold_locales, goal_cases)
  case (1 m)
  then show ?case by (simp add: enc_inv_def)
next
  case (3 m r i)
  from check_and_update_cache_spec [OF 3(1,3)] obtain b m' where
    c: "check_and_update_cache r i m = Inr (b, m')" "enc_inv size_of m'" "num_free_slots m' = num_free_slots m"
      "b \<longleftrightarrow> dict_get (cached m) (hash_at r i) \<noteq> None" "key_set (cached m') = key_set (cached m)"
      "\<forall>rid h. holds m' rid h \<longleftrightarrow> holds m rid h \<or> (b \<and> rid = request_id r \<and> h = hash_at r i)"
    by blast
  have "dict_get (cached m') h = None \<longleftrightarrow> dict_get (cached m) h = None" for h
    using c(5) by (metis key_set_get)
  with c show ?case by (auto simp: shared_ops_def)
next
  case (4 m r i budget scheduled)
  from can_allocate_spec [OF 4, of budget scheduled] obtain k where
    k: "can_allocate r i budget scheduled m =
        Inr (size_of (hash_at r i) \<le> budget \<and> size_of (hash_at r i) + scheduled \<le> num_freeable_slots m, evict_prefix k m)"
      "enc_inv size_of (evict_prefix k m)"
      "size_of (hash_at r i) \<le> budget \<and> size_of (hash_at r i) + scheduled \<le> num_freeable_slots m \<longrightarrow>
        size_of (hash_at r i) + scheduled \<le> num_free_slots (evict_prefix k m)" by blast
  have "num_free_slots m \<le> num_free_slots (evict_prefix k m)" by (rule evict_prefix_slots [OF 4(1)])
  with k show ?case by (auto simp: shared_ops_def evict_prefix_get holds_evict_prefix [OF 4(1)])
next
  case (5 m r i)
  from allocate_spec [OF 5(1-3)] 5(4,5) obtain m' where
    m': "allocate r i m = Inr m'" "enc_inv size_of m'" "num_free_slots m' = num_free_slots m - size_of (hash_at r i)"
      "dict_get (cached m') (hash_at r i) = Some {request_id r}"
      "\<forall>h. h \<noteq> hash_at r i \<longrightarrow> dict_get (cached m') h = dict_get (cached m) h" by auto
  have "holds m' rid h" if "holds m rid h" for rid h
    using that m'(4,5) 5(4) by (cases "h = hash_at r i") (auto simp: holds_def)
  with m' 5(4) show ?case by (auto simp: shared_ops_def holds_def)
next
  case (6 m r)
  from ecm_free_spec [OF 6] obtain m' where
    m': "ecm_free r m = Inr m'" "enc_inv size_of m'" "num_free_slots m' = num_free_slots m"
      "key_set (cached m') = key_set (cached m)"
      "\<forall>rid h. holds m' rid h \<longleftrightarrow> holds m rid h \<and> \<not> (rid = request_id r \<and> h \<in> mm_identifier ` set (mm_features r))"
    by blast
  have "dict_get (cached m') h = None \<longleftrightarrow> dict_get (cached m) h = None" for h
    using m'(4) by (metis key_set_get)
  with m' show ?case by (auto simp: shared_ops_def)
qed simp

interpretation counting_cache: encoder_cache_contract encdec_ops True size_of "\<lambda>m. 0 \<le> ed_num_free_slots m"
  ed_num_free_slots "\<lambda>_ _. True" "\<lambda>m _ h. h \<in> set (allocated m)" for size_of
proof (unfold_locales, goal_cases)
  case (6 m r)
  have "\<exists>m'. fold_res (ed_free_encoder_input r) is m = Inr m' \<and> ed_num_free_slots m \<le> ed_num_free_slots m' \<and>
      allocated m' = allocated m" if "set is \<subseteq> {..<length (mm_features r)}" for "is" m
    using that
  proof (induction "is" arbitrary: m)
    case (Cons i "is")
    let ?n = "size_of (hash_at r i)"
    have n: "get_num_encoder_embeds r i = Inr ?n" "0 \<le> ?n" using sizedD [OF 6(2), of i] Cons.prems by auto
    have "set is \<subseteq> {..<length (mm_features r)}" using Cons.prems by simp
    from Cons.IH [OF this, of "m\<lparr>ed_num_free_slots := ed_num_free_slots m + ?n\<rparr>"] n show ?case
      by (auto simp: ed_free_encoder_input_def)
  qed simp
  from this [of "[0..<length (mm_features r)]" m] 6 show ?case by (fastforce simp: encdec_ops_def ed_free_def)
qed (auto simp: encdec_ops_def ed_check_and_update_cache_def ed_can_allocate_def ed_allocate_def
      input_hash_ok dest!: sizedD)


section \<open>Properties\<close>

text \<open>
  C15. No encoder cache miss. Take a state of the shared cache that the manager can reach and
  a request whose items are listed by position. The pass that picks the encoder inputs does
  not raise, and when the request is then scheduled, entering the picked inputs does not
  raise either: the slots that \<^verbatim>\<open>can_allocate\<close> promised one input at a time are there for
  all of them together. The worker, which runs the model on the granted tokens, does not
  raise while it collects embeddings, and every entry it asks for is in the cache and
  reserved for this request. This holds also when EAGLE shifts the look-ahead by one.
\<close>

theorem no_encoder_cache_miss:
  assumes "enc_reach size_of size0 m" and "0 \<le> size0"
    and "items_ok (mm_features r)" and "sized size_of r"
    and "\<not> is_encoder_decoder sched" and "shift = 0 \<or> shift = 1" and "0 \<le> n0" and "0 \<le> budget0"
  shows "\<exists>ins n budget ext m1 m2.
    try_schedule_encoder_inputs shared_ops sched r nct n0 budget0 shift m = Inr ((ins, n, budget, ext), m1) \<and>
    allocate_encoder_inputs shared_ops r ins ext m1 = Inr m2 \<and> enc_inv size_of m2 \<and>
    (0 < n \<longrightarrow> (\<exists>hs. gather_mm_hashes (mm_features r) nct n = Inr hs \<and>
       (\<forall>h\<in>set hs. holds m2 (request_id r) h)))"
proof -
  have inv: "enc_inv size_of m" using enc_reach_inv [OF assms(1,2)] by simp
  from shared_cache.schedule_then_allocate [OF inv assms(3,4), of sched shift n0 budget0 nct] assms(5-8)
  obtain ins n budget ext m1 m2 where
    run: "try_schedule_encoder_inputs shared_ops sched r nct n0 budget0 shift m = Inr ((ins, n, budget, ext), m1)"
      "allocate_encoder_inputs shared_ops r ins ext m1 = Inr m2" "enc_inv size_of m2"
    and cov: "0 < n \<longrightarrow> (\<forall>f\<in>set (mm_features r). needs f nct n \<longrightarrow> holds m2 (request_id r) (mm_identifier f))"
    by auto
  have "\<exists>hs. gather_mm_hashes (mm_features r) nct n = Inr hs \<and> (\<forall>h\<in>set hs. holds m2 (request_id r) h)" if "0 < n"
    using gather_mm_hashes_spec [OF assms(3) that, of nct] cov that by auto
  with run show ?thesis by blast
qed

lemma items_ok_image: "0 < len \<Longrightarrow> items_ok [image h pos len]"
  by (simp add: items_ok_def range_ok_def)

definition chunked_scheduler :: encoder_scheduler where
  "chunked_scheduler =
     \<lparr>is_encoder_decoder = False,
      scheduler_config = \<lparr>disable_chunked_mm_input = False, max_num_batched_tokens = 8,
        max_num_encoder_input_tokens = 8, encoder_cache_size = 10\<rparr>,
      ec_connector = None\<rparr>"

theorem no_encoder_cache_miss_witness:
  "\<exists>ins n budget ext m1 m2.
    try_schedule_encoder_inputs shared_ops chunked_scheduler (mm_request ''r'' [image ''h'' 2 4]) 0 5 8 0
      (EncoderCacheManager 10) = Inr ((ins, n, budget, ext), m1) \<and>
    allocate_encoder_inputs shared_ops (mm_request ''r'' [image ''h'' 2 4]) ins ext m1 = Inr m2"
  using no_encoder_cache_miss [OF enc_reach.init [of "\<lambda>_. 4" 10], of "mm_request ''r'' [image ''h'' 2 4]"
      chunked_scheduler 0 5 8 0] items_ok_image [of 4 "''h''" 2] sized_image [of 4 "''r''" "''h''" 2]
  by (auto simp: chunked_scheduler_def)

text \<open>
  C30. The pass respects its budgets: it grants at most the tokens it was given and never a
  negative number, and the embeddings of the inputs it picked for computation plus the
  compute budget it returns are the budget it got, which does not become negative.
\<close>

theorem encoder_budget_respected:
  assumes "enc_reach size_of size0 m" and "0 \<le> size0"
    and "items_ok (mm_features r)" and "sized size_of r"
    and "\<not> is_encoder_decoder sched" and "shift = 0 \<or> shift = 1" and "0 \<le> n0" and "0 \<le> budget0"
    and "try_schedule_encoder_inputs shared_ops sched r nct n0 budget0 shift m = Inr ((ins, n, budget, ext), m1)"
  shows "0 \<le> n \<and> n \<le> n0 \<and> 0 \<le> budget \<and>
    budget + sum_list (map (\<lambda>i. size_of (mm_identifier (mm_features r ! i))) ins) = budget0"
proof -
  have inv: "enc_inv size_of m" using enc_reach_inv [OF assms(1,2)] by simp
  from shared_cache.schedule_then_allocate [OF inv assms(3,4), of sched shift n0 budget0 nct] assms(5-9)
  show ?thesis by (auto simp: shared_cache.embeds_of_def)
qed

lemma eagle_pass_skips:
  assumes "0 < len" and "0 < n" and "len \<le> budget" and "len \<le> size0"
    and "\<not> is_encoder_decoder sched" and "\<not> disable_chunked_mm_input (scheduler_config sched)"
  shows "try_schedule_encoder_inputs shared_ops sched (mm_request rid [image h n len]) 0 n budget 1
      (EncoderCacheManager size0) = Inr (([], n, budget, []), EncoderCacheManager size0)"
  using assms by (simp add: try_schedule_encoder_inputs_def has_encoder_inputs_def num_encoder_inputs_def
      encoder_input_step_def admit_encoder_input_def place_encoder_input_def Let_def shared_ops_def
      check_and_update_cache_def can_allocate_def get_num_encoder_embeds_def get_num_embeds_def input_hash_def
      EncoderCacheManager_def get_embeds_indices_in_range_def)

theorem encoder_budget_respected_witness:
  "try_schedule_encoder_inputs shared_ops chunked_scheduler (mm_request ''r'' [image ''h'' 5 4]) 0 5 8 1
      (EncoderCacheManager 10) = Inr (([], 5, 8, []), EncoderCacheManager 10) \<and>
   (8::int) + sum_list (map (\<lambda>_. 4) ([] :: nat list)) = 8"
  using encoder_budget_respected [OF enc_reach.init [of "\<lambda>_. 4" 10] _ _ _ _ _ _ _
      eagle_pass_skips [of 4 5 8 10 chunked_scheduler "''r''" "''h''"]]
    eagle_pass_skips [of 4 5 8 10 chunked_scheduler "''r''" "''h''"]
    items_ok_image [of 4 "''h''" 5] sized_image [of 4 "''r''" "''h''" 5]
  by (simp add: chunked_scheduler_def)

text \<open>
  C32. With EAGLE the drafter reads one token further. An item that begins exactly after the
  granted tokens is looked at because of that token, but the test whether any of its
  embeddings is needed leaves the shift out and finds an empty range, so the item is not
  scheduled; the drafter then asks for it, and it is in no cache. The item fits both budgets.
\<close>

theorem eagle_item_skipped:
  assumes "0 < len" and "0 < n" and "len \<le> budget" and "len \<le> size0"
    and "\<not> is_encoder_decoder sched" and "\<not> disable_chunked_mm_input (scheduler_config sched)"
  shows "try_schedule_encoder_inputs shared_ops sched (mm_request rid [image h n len]) 0 n budget 1
      (EncoderCacheManager size0) = Inr (([], n, budget, []), EncoderCacheManager size0) \<and>
    gather_mm_hashes [image h n len] (0 + 1) n = Inr [h] \<and>
    dict_get (cached (EncoderCacheManager size0)) h = None"
proof -
  have "gather_mm_hashes [image h n len] (0 + 1) n = Inr [h]"
    using assms by (auto simp: get_embeds_indices_in_range_def Let_def min_def max_def)
  with eagle_pass_skips [OF assms] show ?thesis by (simp add: EncoderCacheManager_def)
qed

theorem eagle_item_skipped_witness:
  "gather_mm_hashes [image ''h'' 5 4] (0 + 1) 5 = Inr [''h'']"
  using eagle_item_skipped [of 4 5 8 10 chunked_scheduler] by (simp add: chunked_scheduler_def)

text \<open>
  C31. For encoder-decoder models, whose inputs all start at position 0, the pass and the
  allocation after it do not raise, whatever was computed before, and the counter of free
  slots does not become negative.
\<close>

theorem encoder_decoder_pass_safe:
  assumes "0 \<le> ed_num_free_slots m" and "is_encoder_decoder sched"
    and "\<forall>f\<in>set (mm_features r). offset (mm_position f) = 0 \<and> range_ok (mm_position f)"
    and "sized size_of r" and "shift = 0 \<or> shift = 1" and "0 \<le> n0" and "0 \<le> budget0"
  shows "\<exists>ins n budget ext m1 m2.
    try_schedule_encoder_inputs encdec_ops sched r nct n0 budget0 shift m = Inr ((ins, n, budget, ext), m1) \<and>
    allocate_encoder_inputs encdec_ops r ins ext m1 = Inr m2 \<and> 0 \<le> ed_num_free_slots m2 \<and>
    0 \<le> n \<and> n \<le> n0 \<and> 0 \<le> budget"
proof -
  have "sorted (map (\<lambda>f. offset (mm_position f)) fs)"
    if "\<forall>f\<in>set fs. offset (mm_position f) = 0 \<and> range_ok (mm_position f)" for fs
    using that by (induction fs) auto
  then have "items_ok (mm_features r)" using assms(3) by (auto simp: items_ok_def)
  from counting_cache.schedule_then_allocate [OF assms(1) this assms(4), of sched shift n0 budget0 nct] assms
  show ?thesis by fastforce
qed

theorem encoder_decoder_pass_safe_witness:
  "\<exists>ins n budget ext m1 m2.
    try_schedule_encoder_inputs encdec_ops (chunked_scheduler\<lparr>is_encoder_decoder := True\<rparr>)
      (mm_request ''r'' [image ''h'' 0 4]) 0 5 8 0 (EncoderDecoderCacheManager 10) =
      Inr ((ins, n, budget, ext), m1) \<and>
    allocate_encoder_inputs encdec_ops (mm_request ''r'' [image ''h'' 0 4]) ins ext m1 = Inr m2"
proof -
  have "range_ok (mm_position (image ''h'' 0 4))" by (simp add: range_ok_def)
  then show ?thesis
    using encoder_decoder_pass_safe [of "EncoderDecoderCacheManager 10" "chunked_scheduler\<lparr>is_encoder_decoder := True\<rparr>"
        "mm_request ''r'' [image ''h'' 0 4]" "\<lambda>_. 4" 0 5 8 0] sized_image [of 4 "''r''" "''h''" 0]
    by (fastforce simp: EncoderDecoderCacheManager_def)
qed

text \<open>
  C33. The cache of encoder-decoder models releases an input again in every step: the scheduler
  frees the inputs of a request each time it is scheduled after its first token, and this
  class reports every input as cached and adds the embeddings without checking. After \<open>k\<close>
  steps the free slots have grown by \<open>k\<close> times the size of the input, beyond the capacity.
\<close>

theorem encoder_decoder_slots_grow:
  assumes "is_encoder_decoder sched" and "0 < computed" and "0 < len"
    and r_def: "r = (mm_request rid [image h 0 len])\<lparr>num_computed_tokens := computed\<rparr>"
  shows "\<exists>m. ed_allocate r 0 (EncoderDecoderCacheManager size0) = Inr m \<and>
    (\<exists>m'. fold_res (\<lambda>_. free_encoder_inputs encdec_ops sched r) [0..<k] m = Inr m' \<and>
       ed_num_free_slots m' = size0 - len + int k * len \<and>
       (2 \<le> k \<longrightarrow> ed_cache_size m' < ed_num_free_slots m'))"
proof -
  define m where "m = \<lparr>ed_cache_size = size0, ed_num_free_slots = size0 - len, allocated = [h], to_free = []\<rparr>"
  have alloc: "ed_allocate r 0 (EncoderDecoderCacheManager size0) = Inr m"
    by (simp add: r_def ed_allocate_def input_hash_def get_num_encoder_embeds_def get_num_embeds_def
        EncoderDecoderCacheManager_def m_def)
  have one: "free_encoder_inputs encdec_ops sched r x = Inr (x\<lparr>ed_num_free_slots := ed_num_free_slots x + len\<rparr>)" for x
    using assms by (simp add: r_def free_encoder_inputs_def encdec_ops_def ed_get_cached_input_ids_def
        ed_free_encoder_input_def get_num_encoder_embeds_def get_num_embeds_def)
  have run: "fold_res (\<lambda>_. free_encoder_inputs encdec_ops sched r) [0..<k] m =
      Inr (m\<lparr>ed_num_free_slots := size0 - len + int k * len\<rparr>)"
  proof (induction k)
    case 0
    show ?case by (simp add: m_def)
  next
    case (Suc k)
    then show ?case by (simp add: fold_res_append one algebra_simps m_def)
  qed
  have "size0 < size0 - len + int k * len" if "2 \<le> k"
  proof -
    have "2 * len \<le> int k * len" by (rule mult_right_mono) (use that assms(3) in auto)
    then show ?thesis using assms(3) by linarith
  qed
  with alloc run show ?thesis by (auto simp: m_def)
qed

theorem encoder_decoder_slots_grow_witness:
  "\<exists>m m'. ed_allocate ((mm_request ''r'' [image ''h'' 0 4])\<lparr>num_computed_tokens := 1\<rparr>) 0
      (EncoderDecoderCacheManager 10) = Inr m \<and> ed_num_free_slots m' = 14 \<and>
    fold_res (\<lambda>_. free_encoder_inputs encdec_ops (chunked_scheduler\<lparr>is_encoder_decoder := True\<rparr>)
        ((mm_request ''r'' [image ''h'' 0 4])\<lparr>num_computed_tokens := 1\<rparr>)) [0..<2] m = Inr m'"
  using encoder_decoder_slots_grow [of "chunked_scheduler\<lparr>is_encoder_decoder := True\<rparr>" 1 4 _ "''r''" "''h''" 10 2]
  by auto

end
