(* ===== verification/Heapq.thy ===== *)
theory Heapq
  imports Prelude
begin

text \<open>
  Python's \<^verbatim>\<open>heapq\<close>, which priority scheduling uses on lists of requests: a binary heap in an
  array, where \<^verbatim>\<open>heappop\<close> lets the hole sink to a leaf before the last element rises to its
  place. The functions take the order \<^verbatim>\<open><\<close> as their first argument. The lemmas show for any
  order given by a key in a linear order that the operations keep the heap property and
  the multiset of elements, so that the first element is a least one.
\<close>

section \<open>The module\<close>

definition parent :: "nat \<Rightarrow> nat" where
  "parent i = (i - 1) div 2"

function rise :: "('a \<Rightarrow> 'a \<Rightarrow> bool) \<Rightarrow> 'a \<Rightarrow> nat \<Rightarrow> nat \<Rightarrow> 'a list \<Rightarrow> 'a list" where
  "rise lt newitem startpos pos heap =
     (if startpos < pos \<and> lt newitem (heap ! parent pos)
      then rise lt newitem startpos (parent pos) (heap[pos := heap ! parent pos])
      else heap[pos := newitem])"
  by pat_completeness auto

termination
  by (relation "measure (\<lambda>(_, _, _, pos, _). pos)") (auto simp: parent_def)

definition siftdown :: "('a \<Rightarrow> 'a \<Rightarrow> bool) \<Rightarrow> nat \<Rightarrow> nat \<Rightarrow> 'a list \<Rightarrow> 'a list" where
  "siftdown lt startpos pos heap = rise lt (heap ! pos) startpos pos heap"

definition smaller_child :: "('a \<Rightarrow> 'a \<Rightarrow> bool) \<Rightarrow> nat \<Rightarrow> 'a list \<Rightarrow> nat" where
  "smaller_child lt pos heap =
     (let childpos = 2 * pos + 1; rightpos = childpos + 1
      in if rightpos < length heap \<and> \<not> lt (heap ! childpos) (heap ! rightpos) then rightpos else childpos)"

text \<open>The hole sinks to a leaf; the new item is put there.\<close>

function sink :: "('a \<Rightarrow> 'a \<Rightarrow> bool) \<Rightarrow> nat \<Rightarrow> 'a list \<Rightarrow> nat \<times> 'a list" where
  "sink lt pos heap =
     (if 2 * pos + 1 < length heap
      then sink lt (smaller_child lt pos heap) (heap[pos := heap ! smaller_child lt pos heap])
      else (pos, heap))"
  by pat_completeness auto

termination
  by (relation "measure (\<lambda>(_, pos, heap). length heap - pos)") (auto simp: smaller_child_def Let_def)

definition siftup :: "('a \<Rightarrow> 'a \<Rightarrow> bool) \<Rightarrow> nat \<Rightarrow> 'a list \<Rightarrow> 'a list" where
  "siftup lt pos heap =
     (let newitem = heap ! pos; (leaf, heap') = sink lt pos heap
      in siftdown lt pos leaf (heap'[leaf := newitem]))"

definition heappush :: "('a \<Rightarrow> 'a \<Rightarrow> bool) \<Rightarrow> 'a \<Rightarrow> 'a list \<Rightarrow> 'a list" where
  "heappush lt item heap = siftdown lt 0 (length heap) (heap @ [item])"

definition heappop :: "('a \<Rightarrow> 'a \<Rightarrow> bool) \<Rightarrow> 'a list \<Rightarrow> ('a \<times> 'a list) res" where
  "heappop lt heap =
     (if heap = [] then Inl IndexError
      else let lastelt = last heap; rest = butlast heap
           in if rest = [] then Inr (lastelt, [])
              else Inr (hd rest, siftup lt 0 (rest[0 := lastelt])))"

definition heapify :: "('a \<Rightarrow> 'a \<Rightarrow> bool) \<Rightarrow> 'a list \<Rightarrow> 'a list" where
  "heapify lt heap = fold (siftup lt) (rev [0..<length heap div 2]) heap"

declare rise.simps [simp del] sink.simps [simp del]


section \<open>Paths in the tree\<close>

lemma parent_less: "0 < i \<Longrightarrow> parent i < i"
  by (auto simp: parent_def)

lemma parent_child: "0 < i \<Longrightarrow> (parent i = p \<longleftrightarrow> i = 2 * p + 1 \<or> i = 2 * p + 2)"
  by (auto simp: parent_def)

text \<open>\<open>below s i\<close>: node \<open>i\<close> is in the subtree of node \<open>s\<close>.\<close>

inductive below :: "nat \<Rightarrow> nat \<Rightarrow> bool" for s where
  below_self [simp, intro]: "below s s"
| below_child: "below s (parent i) \<Longrightarrow> 0 < i \<Longrightarrow> below s i"

inductive_cases belowE: "below s i"

lemma below_ge: "below s i \<Longrightarrow> s \<le> i"
proof (induction rule: below.induct)
  case (below_child i)
  then show ?case using parent_less [of i] by simp
qed simp

lemma below_parent: "below s i \<Longrightarrow> s < i \<Longrightarrow> below s (parent i)"
  by (auto elim: belowE)

lemma below_zero: "below 0 i"
proof (induction i rule: less_induct)
  case (less i)
  then show ?case using parent_less [of i] by (cases "i = 0") (auto intro: below_child)
qed


section \<open>Heaps with a hole\<close>

locale keyed_order =
  fixes lt :: "'a \<Rightarrow> 'a \<Rightarrow> bool" and key :: "'a \<Rightarrow> 'k::linorder"
  assumes lt_key: "lt a b \<longleftrightarrow> key a < key b"
begin

text \<open>Every edge from a node at or after \<open>s\<close> is in order.\<close>

definition heap_from :: "nat \<Rightarrow> 'a list \<Rightarrow> bool" where
  "heap_from s h \<longleftrightarrow> (\<forall>i<length h. 0 < i \<and> s \<le> parent i \<longrightarrow> key (h ! parent i) \<le> key (h ! i))"

text \<open>
  The edges that avoid the hole are in order, and so are the edges that appear when the hole
  is cut out.
\<close>

definition holed :: "nat \<Rightarrow> nat \<Rightarrow> 'a list \<Rightarrow> bool" where
  "holed s pos h \<longleftrightarrow>
     pos < length h \<and> below s pos \<and>
     (\<forall>i<length h. 0 < i \<and> s \<le> parent i \<and> i \<noteq> pos \<and> parent i \<noteq> pos \<longrightarrow> key (h ! parent i) \<le> key (h ! i)) \<and>
     (\<forall>i<length h. 0 < i \<and> parent i = pos \<and> s < pos \<longrightarrow> key (h ! parent pos) \<le> key (h ! i))"

lemma holed_fill:
  assumes "holed s pos h" and "s < pos \<Longrightarrow> key (h ! parent pos) \<le> key x"
    and "\<And>i. i < length h \<Longrightarrow> 0 < i \<Longrightarrow> parent i = pos \<Longrightarrow> key x \<le> key (h ! i)"
  shows "heap_from s (h[pos := x])"
  unfolding heap_from_def
proof (intro allI impI)
  fix i assume i: "i < length (h[pos := x])" "0 < i \<and> s \<le> parent i"
  have "parent i < i" using i parent_less by blast
  then show "key (h[pos := x] ! parent i) \<le> key (h[pos := x] ! i)"
    using assms i by (cases "i = pos"; cases "parent i = pos") (auto simp: holed_def)
qed

lemma mset_hole_move:
  assumes "pos < length h" and "q < length h" and "pos \<noteq> q"
  shows "mset (h[pos := h ! q, q := x]) = mset (h[pos := x])"
proof -
  let ?g = "h[pos := x]"
  have "h[pos := h ! q, q := x] = ?g[pos := ?g ! q, q := ?g ! pos]" using assms by simp
  then show ?thesis using assms mset_swap [of q ?g pos] by (simp only: length_list_update)
qed

lemma rise_step:
  assumes hole: "holed s pos h" and up: "s < pos" "key x < key (h ! parent pos)"
  shows "holed s (parent pos) (h[pos := h ! parent pos]) \<and>
    (\<forall>i<length h. 0 < i \<and> parent i = parent pos \<longrightarrow> key x \<le> key (h[pos := h ! parent pos] ! i))"
proof -
  let ?pp = "parent pos"
  let ?h = "h[pos := h ! ?pp]"
  have pos: "pos < length h" "below s pos" "0 < pos" using hole up by (auto simp: holed_def)
  have pp: "?pp < pos" "s \<le> ?pp" "below s ?pp"
    using parent_less [OF pos(3)] below_parent [OF pos(2) up(1)] below_ge by auto
  have edge: "key (h ! parent i) \<le> key (h ! i)"
    if "i < length h" "0 < i" "s \<le> parent i" "i \<noteq> pos" "parent i \<noteq> pos" for i
    using hole that by (simp add: holed_def)
  have cut: "key (h ! ?pp) \<le> key (h ! i)" if "i < length h" "0 < i" "parent i = pos" for i
    using hole that up by (simp add: holed_def)
  have sib: "key (h ! ?pp) \<le> key (?h ! i)" if "i < length h" "0 < i" "parent i = ?pp" for i
    using edge [of i] that pp pos by (cases "i = pos") auto
  have "key (?h ! parent i) \<le> key (?h ! i)"
    if "i < length h" "0 < i" "s \<le> parent i" "i \<noteq> ?pp" "parent i \<noteq> ?pp" for i
    using edge [of i] cut [of i] that pos parent_less [of i] by (cases "parent i = pos"; cases "i = pos") auto
  moreover have "key (?h ! parent ?pp) \<le> key (?h ! i)"
    if "i < length h" "0 < i" "parent i = ?pp" "s < ?pp" for i
  proof -
    have "s \<le> parent ?pp" "parent ?pp < ?pp" using below_ge [OF below_parent [OF pp(3) that(4)]] parent_less [of ?pp] that(4) by auto
    then have "key (h ! parent ?pp) \<le> key (h ! ?pp)" using edge [of ?pp] pp pos that(4) by auto
    with sib [OF that(1-3)] show ?thesis using pp \<open>parent ?pp < ?pp\<close> by auto
  qed
  ultimately have "holed s ?pp ?h" using pos pp by (simp add: holed_def)
  moreover have "key x \<le> key (?h ! i)" if "i < length h" "0 < i" "parent i = ?pp" for i
    using sib [OF that] up(2) by simp
  ultimately show ?thesis by blast
qed

lemma rise_correct:
  assumes "holed s pos h"
    and "\<And>i. i < length h \<Longrightarrow> 0 < i \<Longrightarrow> parent i = pos \<Longrightarrow> key x \<le> key (h ! i)"
  shows "heap_from s (rise lt x s pos h) \<and> mset (rise lt x s pos h) = mset (h[pos := x])"
  using assms
proof (induction pos arbitrary: h rule: less_induct)
  case (less pos)
  have pos: "pos < length h" using less.prems(1) by (simp add: holed_def)
  show ?case
  proof (cases "s < pos \<and> lt x (h ! parent pos)")
    case True
    then have up: "s < pos" "key x < key (h ! parent pos)" by (auto simp: lt_key)
    let ?h = "h[pos := h ! parent pos]"
    have pp: "parent pos < pos" using parent_less up(1) by simp
    have "heap_from s (rise lt x s (parent pos) ?h) \<and> mset (rise lt x s (parent pos) ?h) = mset (?h[parent pos := x])"
      using less.IH [OF pp, of ?h] rise_step [OF less.prems(1) up] by auto
    moreover have "mset (?h[parent pos := x]) = mset (h[pos := x])"
      by (rule mset_hole_move) (use pos pp in auto)
    ultimately show ?thesis using True by (subst (1 2) rise.simps) simp
  next
    case False
    then have "heap_from s (h[pos := x])"
      by (intro holed_fill [OF less.prems(1)] less.prems(2)) (auto simp: lt_key)
    with False show ?thesis by (subst (1 2) rise.simps) auto
  qed
qed

lemma smaller_child:
  assumes "2 * pos + 1 < length h"
  defines "c \<equiv> smaller_child lt pos h"
  shows "c < length h" "parent c = pos" "pos < c"
    "\<And>i. i < length h \<Longrightarrow> 0 < i \<Longrightarrow> parent i = pos \<Longrightarrow> key (h ! c) \<le> key (h ! i)"
proof -
  have c: "c = 2 * pos + 1 \<or> c = 2 * pos + 2 \<and> 2 * pos + 2 < length h"
    by (auto simp: c_def smaller_child_def Let_def)
  then show "c < length h" "parent c = pos" "pos < c" using assms by (auto simp: parent_def)
  fix i assume "i < length h" "0 < i" "parent i = pos"
  then show "key (h ! c) \<le> key (h ! i)"
    using parent_child [of i pos] by (auto simp: c_def smaller_child_def Let_def lt_key not_less)
qed

lemma sink_step:
  assumes hole: "holed s pos h" and more: "2 * pos + 1 < length h"
  shows "holed s (smaller_child lt pos h) (h[pos := h ! smaller_child lt pos h])"
proof -
  define c where "c = smaller_child lt pos h"
  let ?h = "h[pos := h ! c]"
  note c = smaller_child [OF more, folded c_def]
  have pos: "pos < length h" "below s pos" using hole by (auto simp: holed_def)
  have edge: "key (h ! parent i) \<le> key (h ! i)"
    if "i < length h" "0 < i" "s \<le> parent i" "i \<noteq> pos" "parent i \<noteq> pos" for i
    using hole that by (simp add: holed_def)
  have cut: "key (h ! parent pos) \<le> key (h ! i)" if "i < length h" "0 < i" "parent i = pos" "s < pos" for i
    using hole that by (simp add: holed_def)
  have "key (?h ! parent i) \<le> key (?h ! i)"
    if "i < length h" "0 < i" "s \<le> parent i" "i \<noteq> c" "parent i \<noteq> c" for i
  proof -
    have "parent i < i" using that parent_less by blast
    moreover have "s < pos" if "i = pos" using below_ge [OF pos(2)] \<open>parent i < i\<close> \<open>s \<le> parent i\<close> that by simp
    ultimately show ?thesis
      using edge [of i] cut [of c] c that pos by (cases "i = pos"; cases "parent i = pos") auto
  qed
  moreover have "key (?h ! parent c) \<le> key (?h ! i)" if "i < length h" "0 < i" "parent i = c" for i
    using edge [of i] c that pos below_ge [OF pos(2)] parent_less [of i] by auto
  ultimately have "holed s c ?h" using c pos below_child [of s c] by (simp add: holed_def)
  then show ?thesis by (simp add: c_def)
qed

lemma sink_correct:
  assumes "holed s pos h" and "sink lt pos h = (leaf, h')"
  shows "holed s leaf h' \<and> length h' \<le> 2 * leaf + 1 \<and> length h' = length h \<and> mset (h'[leaf := x]) = mset (h[pos := x])"
  using assms
proof (induction "length h - pos" arbitrary: pos h rule: less_induct)
  case less
  show ?case
  proof (cases "2 * pos + 1 < length h")
    case True
    define c where "c = smaller_child lt pos h"
    note c = smaller_child [OF True, folded c_def]
    have pos: "pos < length h" using True by simp
    have run: "sink lt c (h[pos := h ! c]) = (leaf, h')"
      using less.prems(2) True by (subst (asm) sink.simps) (simp add: c_def)
    have "holed s leaf h' \<and> length h' \<le> 2 * leaf + 1 \<and> length h' = length (h[pos := h ! c]) \<and>
        mset (h'[leaf := x]) = mset (h[pos := h ! c, c := x])"
      by (rule less.hyps [OF _ _ run]) (use c pos sink_step [OF less.prems(1) True, folded c_def] in auto)
    moreover have "mset (h[pos := h ! c, c := x]) = mset (h[pos := x])"
      by (rule mset_hole_move) (use c pos in auto)
    ultimately show ?thesis by simp
  next
    case False
    then have "leaf = pos \<and> h' = h" using less.prems(2) by (subst (asm) sink.simps) simp
    with False less.prems(1) show ?thesis by simp
  qed
qed

lemma heap_from_holed:
  assumes "heap_from (Suc s) h" and "s < length h"
  shows "holed s s h"
  using assms by (auto simp: heap_from_def holed_def Suc_le_eq order.order_iff_strict)

lemma siftup_correct:
  assumes "heap_from (Suc s) h" and "s < length h"
  shows "heap_from s (siftup lt s h) \<and> mset (siftup lt s h) = mset h"
proof -
  obtain leaf h' where run: "sink lt s h = (leaf, h')" by (cases "sink lt s h")
  let ?x = "h ! s"
  have s: "holed s leaf h'" "length h' \<le> 2 * leaf + 1" "mset (h'[leaf := ?x]) = mset h"
    using sink_correct [OF heap_from_holed [OF assms] run, of ?x] by simp_all
  have leaf: "leaf < length h'" using s(1) by (simp add: holed_def)
  have childless: "parent i \<noteq> leaf" if "i < length h'" "0 < i" for i
    using s(2) that parent_child [of i leaf] by auto
  have hole: "holed s leaf (h'[leaf := ?x])"
    unfolding holed_def
  proof (intro conjI allI impI)
    fix i assume "i < length (h'[leaf := ?x])" "0 < i \<and> parent i = leaf \<and> s < leaf"
    then show "key (h'[leaf := ?x] ! parent leaf) \<le> key (h'[leaf := ?x] ! i)" using childless [of i] by simp
  qed (use s(1) in \<open>simp_all add: holed_def\<close>)
  have "heap_from s (rise lt ?x s leaf (h'[leaf := ?x])) \<and>
      mset (rise lt ?x s leaf (h'[leaf := ?x])) = mset (h'[leaf := ?x, leaf := ?x])"
    by (rule rise_correct [OF hole]) (use childless in simp)
  moreover have "siftup lt s h = rise lt ?x s leaf (h'[leaf := ?x])"
    using leaf by (simp add: siftup_def run siftdown_def Let_def)
  ultimately show ?thesis by (simp only: s(3) list_update_overwrite)
qed

definition is_heap :: "'a list \<Rightarrow> bool" where
  "is_heap h \<longleftrightarrow> heap_from 0 h"

lemma is_heap_Nil [simp, intro]: "is_heap []"
  by (simp add: is_heap_def heap_from_def)

lemma heap_min:
  assumes "is_heap h" and "x \<in> set h"
  shows "key (hd h) \<le> key x"
proof -
  have ne: "h \<noteq> []" using assms(2) by auto
  have "i < length h \<Longrightarrow> key (h ! 0) \<le> key (h ! i)" for i
  proof (induction i rule: less_induct)
    case (less i)
    show ?case
    proof (cases "i = 0")
      case False
      then have "parent i < i" using parent_less by simp
      then have "key (h ! 0) \<le> key (h ! parent i)" using less by simp
      also have "\<dots> \<le> key (h ! i)" using assms(1) False less.prems by (simp add: is_heap_def heap_from_def)
      finally show ?thesis .
    qed simp
  qed
  with assms(2) ne show ?thesis by (auto simp: in_set_conv_nth hd_conv_nth)
qed

lemma heappush_correct:
  assumes "is_heap h"
  shows "is_heap (heappush lt x h) \<and> mset (heappush lt x h) = add_mset x (mset h)"
proof -
  let ?h = "h @ [x]"
  have "holed 0 (length h) ?h"
    using assms unfolding holed_def is_heap_def heap_from_def
    by (auto simp: nth_append below_zero less_Suc_eq dest: parent_less)
  moreover have "key x \<le> key (?h ! i)" if "i < length ?h" "0 < i" "parent i = length h" for i
    using that parent_less [of i] by simp
  ultimately show ?thesis using rise_correct [of 0 "length h" ?h x]
    by (simp add: heappush_def siftdown_def is_heap_def)
qed

lemma heappop_correct:
  assumes "is_heap h" and "h \<noteq> []"
  shows "\<exists>h'. heappop lt h = Inr (hd h, h') \<and> is_heap h' \<and> add_mset (hd h) (mset h') = mset h"
proof (cases "butlast h = []")
  case True
  then obtain x where "h = [x]" using assms(2) by (metis append_butlast_last_id append_Nil)
  then show ?thesis by (simp add: heappop_def)
next
  case False
  then obtain y ys where h: "h = y # ys @ [last h]" "butlast h = y # ys"
    using assms(2) by (metis append_butlast_last_id append_Cons neq_Nil_conv)
  let ?g = "last h # ys"
  have same: "?g ! j = h ! j" if "0 < j" "j < length ?g" for j
    using that by (subst (2) h(1)) (cases j; simp add: nth_append)
  have len: "length h = Suc (length ?g)" by (subst h(1)) simp
  have "key (?g ! parent i) \<le> key (?g ! i)" if "i < length ?g" "0 < i" "Suc 0 \<le> parent i" for i
    using assms(1) that same [of i] same [of "parent i"] parent_less [of i] len
    by (simp add: is_heap_def heap_from_def)
  then have "heap_from (Suc 0) ?g" by (simp add: heap_from_def)
  then have "heap_from 0 (siftup lt 0 ?g) \<and> mset (siftup lt 0 ?g) = mset ?g"
    by (intro siftup_correct) simp_all
  moreover have "mset h = add_mset y (mset ?g)" by (subst h(1)) simp
  moreover have "hd h = y" by (subst h(1)) simp
  ultimately show ?thesis using h(2) assms(2) by (simp add: heappop_def is_heap_def)
qed

lemma heapify_correct: "is_heap (heapify lt h) \<and> mset (heapify lt h) = mset h"
proof -
  have "heap_from 0 (fold (siftup lt) (rev [0..<k]) g) \<and> mset (fold (siftup lt) (rev [0..<k]) g) = mset g"
    if "heap_from k g" "k \<le> length g" for k g
    using that
  proof (induction k arbitrary: g)
    case (Suc k)
    have up: "heap_from k (siftup lt k g) \<and> mset (siftup lt k g) = mset g"
      using Suc.prems by (intro siftup_correct) simp_all
    then have "length (siftup lt k g) = length g" by (metis size_mset)
    with Suc.IH [of "siftup lt k g"] up Suc.prems(2) show ?case by simp
  qed simp
  moreover have "heap_from (length h div 2) h" by (auto simp: heap_from_def parent_def)
  ultimately show ?thesis by (simp add: heapify_def is_heap_def)
qed

end

end
