(* ===== verification/Request_Queue.thy ===== *)
theory Request_Queue
  imports Request Heapq
begin

text \<open>
  \<^verbatim>\<open>vllm/v1/core/sched/request_queue.py\<close>: the waiting queues, first-come-first-served on a
  deque and by priority on a heap, and the scheduler's choice between its two queues.

  Requests are Python objects without an \<^verbatim>\<open>__eq__\<close>, so the removals compare identities.
  What a queue promises is the order in which it hands the requests out: the locale
  \<open>request_queue_contract\<close>, interpreted on both policies.
\<close>

section \<open>The queues\<close>

datatype scheduling_policy = FCFS | PRIORITY

datatype request_queue =
    FCFSRequestQueue "request list"
  | PriorityRequestQueue "request list"

definition create_request_queue :: "scheduling_policy \<Rightarrow> request_queue" where
  "create_request_queue policy =
     (case policy of PRIORITY \<Rightarrow> PriorityRequestQueue [] | FCFS \<Rightarrow> FCFSRequestQueue [])"

lemma length_rise [simp]: "length (rise lt x s pos h) = length h"
proof (induction lt x s pos h rule: rise.induct)
  case (1 lt x s pos h)
  then show ?case by (subst rise.simps) auto
qed

lemma length_sink [simp]: "length (snd (sink lt pos h)) = length h"
proof (induction lt pos h rule: sink.induct)
  case (1 lt pos h)
  then show ?case by (subst sink.simps) auto
qed

lemma length_siftup [simp]: "length (siftup lt pos h) = length h"
  using length_sink [of lt pos h]
  by (cases "sink lt pos h") (simp add: siftup_def siftdown_def Let_def)

text \<open>The generator of \<^verbatim>\<open>__iter__\<close>, which pops a copy of the heap until it is empty.\<close>

function heap_iter :: "('a \<Rightarrow> 'a \<Rightarrow> bool) \<Rightarrow> 'a list \<Rightarrow> 'a list" where
  "heap_iter lt h = (case heappop lt h of Inl _ \<Rightarrow> [] | Inr (x, h') \<Rightarrow> x # heap_iter lt h')"
  by pat_completeness auto

termination
  by (relation "measure (\<lambda>(_, h). length h)") (auto simp: heappop_def Let_def split: if_splits)

declare heap_iter.simps [simp del]

fun iter_requests :: "request_queue \<Rightarrow> request list" where
  "iter_requests (FCFSRequestQueue q) = q"
| "iter_requests (PriorityRequestQueue h) = heap_iter request_lt h"

fun add_request :: "request \<Rightarrow> request_queue \<Rightarrow> request_queue" where
  "add_request r (FCFSRequestQueue q) = FCFSRequestQueue (q @ [r])"
| "add_request r (PriorityRequestQueue h) = PriorityRequestQueue (heappush request_lt r h)"

fun pop_request :: "request_queue \<Rightarrow> (request \<times> request_queue) res" where
  "pop_request (FCFSRequestQueue q) =
     (case q of [] \<Rightarrow> Inl IndexError | r # rs \<Rightarrow> Inr (r, FCFSRequestQueue rs))"
| "pop_request (PriorityRequestQueue h) =
     (if h = [] then Inl IndexError
      else rbind (heappop request_lt h) (\<lambda>(r, h'). Inr (r, PriorityRequestQueue h')))"

fun peek_request :: "request_queue \<Rightarrow> request res" where
  "peek_request (FCFSRequestQueue q) = (if q = [] then Inl IndexError else Inr (hd q))"
| "peek_request (PriorityRequestQueue h) = (if h = [] then Inl IndexError else Inr (hd h))"

fun prepend_request :: "request \<Rightarrow> request_queue \<Rightarrow> request_queue" where
  "prepend_request r (FCFSRequestQueue q) = FCFSRequestQueue (r # q)"
| "prepend_request r (PriorityRequestQueue h) = add_request r (PriorityRequestQueue h)"

text \<open>\<^verbatim>\<open>extendleft\<close> enters the elements one by one at the left end.\<close>

fun prepend_requests :: "request_queue \<Rightarrow> request_queue \<Rightarrow> request_queue" where
  "prepend_requests other (FCFSRequestQueue q) =
     FCFSRequestQueue (fold (\<lambda>r q. r # q) (iter_requests other) q)"
| "prepend_requests other (PriorityRequestQueue h) = fold add_request (iter_requests other) (PriorityRequestQueue h)"

fun remove_object :: "request \<Rightarrow> request list \<Rightarrow> request list res" where
  "remove_object r [] = Inl ValueError"
| "remove_object r (x # xs) =
     (if object_id x = object_id r then Inr xs else rbind (remove_object r xs) (\<lambda>ys. Inr (x # ys)))"

fun remove_request :: "request \<Rightarrow> request_queue \<Rightarrow> request_queue res" where
  "remove_request r (FCFSRequestQueue q) = rbind (remove_object r q) (\<lambda>q'. Inr (FCFSRequestQueue q'))"
| "remove_request r (PriorityRequestQueue h) =
     rbind (remove_object r h) (\<lambda>h'. Inr (PriorityRequestQueue (heapify request_lt h')))"

fun remove_requests :: "request list \<Rightarrow> request_queue \<Rightarrow> request_queue" where
  "remove_requests rs (FCFSRequestQueue q) =
     FCFSRequestQueue (filter (\<lambda>r. object_id r \<notin> object_id ` set rs) q)"
| "remove_requests rs (PriorityRequestQueue h) =
     PriorityRequestQueue (heapify request_lt (filter (\<lambda>r. object_id r \<notin> object_id ` set rs) h))"

fun queue_len :: "request_queue \<Rightarrow> nat" where
  "queue_len (FCFSRequestQueue q) = length q"
| "queue_len (PriorityRequestQueue h) = length h"

definition queue_bool :: "request_queue \<Rightarrow> bool" where
  "queue_bool q \<longleftrightarrow> 0 < queue_len q"


section \<open>The scheduler's two waiting queues\<close>

record waiting_queues =
  policy :: scheduling_policy
  waiting :: request_queue
  skipped_waiting :: request_queue

definition is_blocked_waiting_status :: "request_status \<Rightarrow> bool" where
  "is_blocked_waiting_status s \<longleftrightarrow>
     s \<in> {WAITING_FOR_STRUCTURED_OUTPUT_GRAMMAR, WAITING_FOR_REMOTE_KVS, WAITING_FOR_STREAMING_REQ}"

definition enqueue_waiting_request :: "request \<Rightarrow> waiting_queues \<Rightarrow> waiting_queues" where
  "enqueue_waiting_request r w =
     (if is_blocked_waiting_status (status r) then w\<lparr>skipped_waiting := add_request r (skipped_waiting w)\<rparr>
      else w\<lparr>waiting := add_request r (waiting w)\<rparr>)"

text \<open>The result of the choice: which of the two queues, or none.\<close>

datatype waiting_choice = Waiting | Skipped

definition select_waiting_queue_for_scheduling :: "waiting_queues \<Rightarrow> waiting_choice option res" where
  "select_waiting_queue_for_scheduling w =
     (if policy w = FCFS
      then Inr (if queue_bool (skipped_waiting w) then Some Skipped
                else if queue_bool (waiting w) then Some Waiting else None)
      else if queue_bool (waiting w) \<and> queue_bool (skipped_waiting w)
      then rbind (peek_request (waiting w)) (\<lambda>waiting_req.
             rbind (peek_request (skipped_waiting w)) (\<lambda>skipped_req.
               Inr (Some (if request_lt waiting_req skipped_req then Waiting else Skipped))))
      else Inr (if queue_bool (waiting w) then Some Waiting
                else if queue_bool (skipped_waiting w) then Some Skipped else None))"


section \<open>What a queue promises\<close>

definition distinct_objects :: "request list \<Rightarrow> bool" where
  "distinct_objects rs \<longleftrightarrow> distinct (map object_id rs)"

definition without :: "request list \<Rightarrow> request list \<Rightarrow> request list" where
  "without rs xs = filter (\<lambda>r. object_id r \<notin> object_id ` set rs) xs"

fun pop_requests :: "nat \<Rightarrow> request_queue \<Rightarrow> (request list \<times> request_queue) res" where
  "pop_requests 0 q = Inr ([], q)"
| "pop_requests (Suc n) q =
     rbind (pop_request q) (\<lambda>(r, q'). rbind (pop_requests n q') (\<lambda>(rs, q''). Inr (r # rs, q'')))"

locale request_queue_contract =
  fixes ok :: "request_queue \<Rightarrow> bool" and order :: "request_queue \<Rightarrow> request list"
    and enter :: "request \<Rightarrow> request list \<Rightarrow> request list"
    and front :: "request \<Rightarrow> request list \<Rightarrow> request list"
  assumes ok_distinct: "ok q \<Longrightarrow> distinct_objects (order q)"
    and enter_set: "set (enter r rs) = insert r (set rs)"
    and front_set: "set (front r rs) = insert r (set rs)"
    and add_law: "ok q \<Longrightarrow> object_id r \<notin> object_id ` set (order q) \<Longrightarrow>
      ok (add_request r q) \<and> order (add_request r q) = enter r (order q)"
    and prepend_law: "ok q \<Longrightarrow> object_id r \<notin> object_id ` set (order q) \<Longrightarrow>
      ok (prepend_request r q) \<and> order (prepend_request r q) = front r (order q)"
    and pop_law: "ok q \<Longrightarrow>
      (case order q of [] \<Rightarrow> pop_request q = Inl IndexError
       | r # rs \<Rightarrow> \<exists>q'. pop_request q = Inr (r, q') \<and> ok q' \<and> order q' = rs)"
    and peek_law: "ok q \<Longrightarrow>
      peek_request q = (case order q of [] \<Rightarrow> Inl IndexError | r # rs \<Rightarrow> Inr r)"
    and remove_law: "ok q \<Longrightarrow> ok (remove_requests rs q) \<and> order (remove_requests rs q) = without rs (order q)"
    and remove_one_law: "ok q \<Longrightarrow>
      (if object_id r \<in> object_id ` set (order q)
       then \<exists>q'. remove_request r q = Inr q' \<and> ok q' \<and> order q' = without [r] (order q)
       else remove_request r q = Inl ValueError)"
    and iter_law: "ok q \<Longrightarrow> iter_requests q = order q"
    and len_law: "ok q \<Longrightarrow> queue_len q = length (order q)"
begin

lemma pop_requests_spec:
  assumes "ok q" and "n \<le> length (order q)"
  shows "\<exists>q'. pop_requests n q = Inr (take n (order q), q') \<and> ok q' \<and> order q' = drop n (order q)"
  using assms
proof (induction n arbitrary: q)
  case (Suc n)
  then obtain r rs where o: "order q = r # rs" by (cases "order q") auto
  with pop_law [OF Suc.prems(1)] obtain q' where q': "pop_request q = Inr (r, q')" "ok q'" "order q' = rs" by auto
  have "n \<le> length (order q')" using Suc.prems(2) o q'(3) by simp
  from Suc.IH [OF q'(2) this] show ?case using q' o by auto
qed simp

lemma add_all_spec:
  assumes "ok q" and "distinct_objects rs" and "object_id ` set rs \<inter> object_id ` set (order q) = {}"
  shows "ok (fold add_request rs q) \<and> order (fold add_request rs q) = fold enter rs (order q)"
  using assms
proof (induction rs arbitrary: q)
  case (Cons r rs)
  have "ok (add_request r q)" "order (add_request r q) = enter r (order q)"
    using add_law [OF Cons.prems(1)] Cons.prems(3) by auto
  with Cons show ?case by (auto simp: distinct_objects_def enter_set)
qed simp

lemma prepend_all_spec:
  assumes "ok q" and "distinct_objects rs" and "object_id ` set rs \<inter> object_id ` set (order q) = {}"
  shows "ok (fold prepend_request rs q) \<and> order (fold prepend_request rs q) = fold front rs (order q)"
  using assms
proof (induction rs arbitrary: q)
  case (Cons r rs)
  have "ok (prepend_request r q)" "order (prepend_request r q) = front r (order q)"
    using prepend_law [OF Cons.prems(1)] Cons.prems(3) by auto
  with Cons show ?case by (auto simp: distinct_objects_def front_set)
qed simp

end

interpretation request_heap: keyed_order request_lt request_key
  by unfold_locales (rule request_lt_key)

definition fcfs_ok :: "request_queue \<Rightarrow> bool" where
  "fcfs_ok q \<longleftrightarrow> (case q of FCFSRequestQueue xs \<Rightarrow> distinct_objects xs | PriorityRequestQueue _ \<Rightarrow> False)"

definition priority_ok :: "request_queue \<Rightarrow> bool" where
  "priority_ok q \<longleftrightarrow>
     (case q of FCFSRequestQueue _ \<Rightarrow> False
      | PriorityRequestQueue h \<Rightarrow> request_heap.is_heap h \<and> distinct_objects h)"

definition queue_order :: "request_queue \<Rightarrow> request list" where
  "queue_order q = (case q of FCFSRequestQueue xs \<Rightarrow> xs | PriorityRequestQueue h \<Rightarrow> sort_key request_key h)"

lemma remove_object_spec:
  "distinct_objects xs \<Longrightarrow>
   remove_object r xs = (if object_id r \<in> object_id ` set xs then Inr (without [r] xs) else Inl ValueError)"
proof (induction xs)
  case (Cons x xs)
  have "object_id x = object_id r \<Longrightarrow> without [r] xs = xs"
    using Cons.prems by (auto simp: without_def distinct_objects_def filter_id_conv) (metis image_eqI)
  then show ?case using Cons by (auto simp: distinct_objects_def without_def)
qed simp

lemma distinct_objects_without: "distinct_objects xs \<Longrightarrow> distinct_objects (without rs xs)"
  by (simp add: distinct_objects_def without_def distinct_map_filter)

interpretation fcfs_queue: request_queue_contract fcfs_ok queue_order "\<lambda>r rs. rs @ [r]" "\<lambda>r rs. r # rs"
proof (unfold_locales, goal_cases)
  case (6 q)
  then show ?case
    by (cases q) (auto simp: fcfs_ok_def queue_order_def distinct_objects_def split: list.splits)
next
  case (9 q r)
  then show ?case
    by (cases q) (auto simp: fcfs_ok_def queue_order_def remove_object_spec distinct_objects_without)
qed (auto simp: fcfs_ok_def queue_order_def distinct_objects_def without_def distinct_map_filter
    split: request_queue.splits list.splits)

text \<open>Distinct objects have distinct keys, so a sorted list is determined by its elements.\<close>

lemma sorted_unique:
  assumes "distinct_objects xs" and "sorted (map request_key ys)" and "mset ys = mset xs"
  shows "sort_key request_key xs = ys"
proof -
  have inj: "inj_on request_key (set xs)" and dist: "distinct xs"
    using assms(1) by (auto simp: distinct_objects_def distinct_map inj_on_def request_key_def)
  have set_eq: "set ys = set xs" and dist_ys: "distinct ys"
    using assms(3) dist mset_eq_setD mset_eq_imp_distinct_iff by blast+
  show ?thesis
    by (rule map_sorted_distinct_set_unique [of request_key])
      (use inj dist dist_ys set_eq assms(2) in \<open>auto simp: distinct_map\<close>)
qed

lemma sorted_key_sort: "sorted (map request_key (sort_key request_key xs))"
  by (rule sorted_sort_key)

lemma distinct_objects_mset: "mset xs = mset ys \<Longrightarrow> distinct_objects xs = distinct_objects ys"
  by (metis distinct_objects_def mset_eq_imp_distinct_iff mset_map)

lemma priority_pop:
  assumes heap: "request_heap.is_heap h" and d: "distinct_objects h" and ne: "h \<noteq> []"
  shows "\<exists>h'. heappop request_lt h = Inr (hd h, h') \<and> request_heap.is_heap h' \<and> distinct_objects h' \<and>
    sort_key request_key h = hd h # sort_key request_key h'"
proof -
  from request_heap.heappop_correct [OF heap ne] obtain h' where
    h': "heappop request_lt h = Inr (hd h, h')" "request_heap.is_heap h'" "add_mset (hd h) (mset h') = mset h"
    by blast
  have "mset (hd h # h') = mset h" using h'(3) by simp
  then have dh: "distinct_objects (hd h # h')" using d distinct_objects_mset by blast
  have "sorted (map request_key (hd h # sort_key request_key h'))"
    using request_heap.heap_min [OF heap] h'(3) sorted_key_sort [of h']
    by (auto simp del: sorted_sort_key) (metis insertI2 set_mset_add_mset_insert set_mset_mset)
  then have "sort_key request_key h = hd h # sort_key request_key h'"
    by (rule sorted_unique [OF d]) (simp add: h'(3))
  with h' dh show ?thesis by (auto simp: distinct_objects_def)
qed

lemma heap_iter_sorted:
  "request_heap.is_heap h \<Longrightarrow> distinct_objects h \<Longrightarrow> heap_iter request_lt h = sort_key request_key h"
proof (induction "length h" arbitrary: h)
  case 0
  then show ?case by (simp add: heap_iter.simps heappop_def)
next
  case (Suc n)
  then have "h \<noteq> []" by auto
  from priority_pop [OF Suc.prems this] obtain h' where
    h': "heappop request_lt h = Inr (hd h, h')" "request_heap.is_heap h'" "distinct_objects h'"
      "sort_key request_key h = hd h # sort_key request_key h'" by blast
  have "n = length h'" using Suc.hyps(2) h'(4) by (metis length_Cons length_sort nat.inject)
  from Suc.hyps(1) [OF this h'(2,3)] h' show ?case by (subst heap_iter.simps) simp
qed

lemma priority_filter:
  assumes "distinct_objects h"
  shows "request_heap.is_heap (heapify request_lt (without rs h)) \<and>
    distinct_objects (heapify request_lt (without rs h)) \<and>
    sort_key request_key (heapify request_lt (without rs h)) = without rs (sort_key request_key h)"
proof -
  have hp: "request_heap.is_heap (heapify request_lt (without rs h))"
    "mset (heapify request_lt (without rs h)) = mset (without rs h)"
    using request_heap.heapify_correct by blast+
  have d: "distinct_objects (heapify request_lt (without rs h))"
    using distinct_objects_mset [OF hp(2)] distinct_objects_without [OF assms] by simp
  have "sort_key request_key (heapify request_lt (without rs h)) = without rs (sort_key request_key h)"
    by (rule sorted_unique [OF d]) (use hp(2) sorted_key_sort in \<open>auto simp: without_def sorted_filter\<close>)
  with hp d show ?thesis by blast
qed

interpretation priority_queue: request_queue_contract priority_ok queue_order
  "insort_key request_key" "insort_key request_key"
proof -
  have add: "request_heap.is_heap h \<and> distinct_objects h \<and> object_id r \<notin> object_id ` set h \<Longrightarrow>
      request_heap.is_heap (heappush request_lt r h) \<and> distinct_objects (heappush request_lt r h) \<and>
      sort_key request_key (heappush request_lt r h) = insort_key request_key r (sort_key request_key h)" for r h
  proof -
    assume a: "request_heap.is_heap h \<and> distinct_objects h \<and> object_id r \<notin> object_id ` set h"
    have hp: "request_heap.is_heap (heappush request_lt r h)" "mset (heappush request_lt r h) = mset (r # h)"
      using request_heap.heappush_correct a by auto
    have d: "distinct_objects (heappush request_lt r h)"
      using distinct_objects_mset [OF hp(2)] a by (simp add: distinct_objects_def)
    have "sort_key request_key (heappush request_lt r h) = insort_key request_key r (sort_key request_key h)"
      by (rule sorted_unique [OF d]) (use hp(2) sorted_key_sort in \<open>auto simp: sorted_insort_key\<close>)
    with hp d show ?thesis by blast
  qed
  show "request_queue_contract priority_ok queue_order (insort_key request_key) (insort_key request_key)"
  proof (unfold_locales, goal_cases)
    case (1 q)
    then show ?case by (cases q) (auto simp: priority_ok_def queue_order_def distinct_objects_mset [of "sort_key request_key _"])
  next
    case (3 q r)
    then show ?case using add by (cases q) (auto simp: priority_ok_def queue_order_def)
  next
    case (4 q r)
    then show ?case using add by (cases q) (auto simp: priority_ok_def queue_order_def)
  next
    case (5 q)
    then obtain h where q: "q = PriorityRequestQueue h" "request_heap.is_heap h" "distinct_objects h"
      by (cases q) (auto simp: priority_ok_def)
    then show ?case using priority_pop [OF q(2,3)]
      by (cases "h = []") (auto simp: queue_order_def priority_ok_def)
  next
    case (6 q)
    then obtain h where q: "q = PriorityRequestQueue h" "request_heap.is_heap h" "distinct_objects h"
      by (cases q) (auto simp: priority_ok_def)
    then show ?case using priority_pop [OF q(2,3)] by (cases "h = []") (auto simp: queue_order_def)
  next
    case (7 q rs)
    then show ?case using priority_filter [of _ rs]
      by (cases q) (auto simp: priority_ok_def queue_order_def without_def)
  next
    case (8 q r)
    then show ?case using priority_filter [of _ "[r]"]
      by (cases q) (auto simp: priority_ok_def queue_order_def remove_object_spec)
  next
    case (9 q)
    then show ?case by (cases q) (auto simp: priority_ok_def queue_order_def heap_iter_sorted)
  next
    case (10 q)
    then show ?case by (cases q) (auto simp: priority_ok_def queue_order_def)
  qed (simp_all add: set_insort_key)
qed


section \<open>Properties\<close>

definition queue_ok :: "scheduling_policy \<Rightarrow> request_queue \<Rightarrow> bool" where
  "queue_ok p q = (case p of FCFS \<Rightarrow> fcfs_ok q | PRIORITY \<Rightarrow> priority_ok q)"

definition enter_by :: "scheduling_policy \<Rightarrow> request \<Rightarrow> request list \<Rightarrow> request list" where
  "enter_by p r rs = (case p of FCFS \<Rightarrow> rs @ [r] | PRIORITY \<Rightarrow> insort_key request_key r rs)"

definition front_by :: "scheduling_policy \<Rightarrow> request \<Rightarrow> request list \<Rightarrow> request list" where
  "front_by p r rs = (case p of FCFS \<Rightarrow> r # rs | PRIORITY \<Rightarrow> insort_key request_key r rs)"

lemma queue_ok_create: "queue_ok p (create_request_queue p) \<and> queue_order (create_request_queue p) = []"
  by (cases p) (simp_all add: queue_ok_def create_request_queue_def fcfs_ok_def priority_ok_def
      distinct_objects_def queue_order_def)

lemma insort_all: "distinct_objects rs \<Longrightarrow> fold (insort_key request_key) rs [] = sort_key request_key rs"
proof -
  assume d: "distinct_objects rs"
  have "sorted (map request_key (fold (insort_key request_key) rs xs)) \<and>
      mset (fold (insort_key request_key) rs xs) = mset rs + mset xs" if "sorted (map request_key xs)" for xs
    using that by (induction rs arbitrary: xs) (simp_all add: sorted_insort_key)
  from this [of "[]"] show ?thesis using sorted_unique [OF d, of "fold (insort_key request_key) rs []"] by simp
qed

text \<open>
  C34. A waiting queue is a list in the order of its policy: the arrival order for FCFS, the
  order of the keys (priority, arrival time, id, identity) for priority scheduling. Every
  operation of both classes refines the operation on that list: adding and prepending,
  popping and peeking at the first request, removing some requests or one (which raises if
  it is absent), iterating and counting. The heap never loses or duplicates a request.
\<close>

theorem request_queue_refines_order:
  assumes "queue_ok p q"
  shows "(object_id r \<notin> object_id ` set (queue_order q) \<longrightarrow>
      queue_ok p (add_request r q) \<and> queue_order (add_request r q) = enter_by p r (queue_order q) \<and>
      queue_ok p (prepend_request r q) \<and> queue_order (prepend_request r q) = front_by p r (queue_order q)) \<and>
    (case queue_order q of [] \<Rightarrow> pop_request q = Inl IndexError \<and> peek_request q = Inl IndexError
     | x # xs \<Rightarrow> peek_request q = Inr x \<and> (\<exists>q'. pop_request q = Inr (x, q') \<and> queue_ok p q' \<and> queue_order q' = xs)) \<and>
    queue_ok p (remove_requests rs q) \<and> queue_order (remove_requests rs q) = without rs (queue_order q) \<and>
    (if object_id r \<in> object_id ` set (queue_order q)
     then \<exists>q'. remove_request r q = Inr q' \<and> queue_ok p q' \<and> queue_order q' = without [r] (queue_order q)
     else remove_request r q = Inl ValueError) \<and>
    iter_requests q = queue_order q \<and> queue_len q = length (queue_order q)"
proof (cases p)
  case FCFS
  then have q: "fcfs_ok q" using assms by (simp add: queue_ok_def)
  show ?thesis
    using fcfs_queue.add_law [OF q, of r] fcfs_queue.prepend_law [OF q, of r] fcfs_queue.pop_law [OF q]
      fcfs_queue.peek_law [OF q] fcfs_queue.remove_law [OF q, of rs] fcfs_queue.remove_one_law [OF q, of r]
      fcfs_queue.iter_law [OF q] fcfs_queue.len_law [OF q]
    by (simp add: queue_ok_def enter_by_def front_by_def FCFS split: list.splits)
next
  case PRIORITY
  then have q: "priority_ok q" using assms by (simp add: queue_ok_def)
  show ?thesis
    using priority_queue.add_law [OF q, of r] priority_queue.prepend_law [OF q, of r] priority_queue.pop_law [OF q]
      priority_queue.peek_law [OF q] priority_queue.remove_law [OF q, of rs] priority_queue.remove_one_law [OF q, of r]
      priority_queue.iter_law [OF q] priority_queue.len_law [OF q]
    by (simp add: queue_ok_def enter_by_def front_by_def PRIORITY split: list.splits)
qed

definition low :: request where
  "low = (mm_request ''low'' [])\<lparr>priority := 5, object_id := 1\<rparr>"

definition high :: request where
  "high = (mm_request ''high'' [])\<lparr>priority := 1, object_id := 2\<rparr>"

lemma example_requests:
  "object_id low = 1" "object_id high = 2" "\<not> request_key low \<le> request_key high"
  by (simp_all add: low_def high_def request_key_def less_eq_prod_def)

lemma example_queue: "queue_ok PRIORITY (PriorityRequestQueue [low]) \<and> queue_order (PriorityRequestQueue [low]) = [low]"
  by (simp add: queue_ok_def priority_ok_def distinct_objects_def request_heap.is_heap_def
      request_heap.heap_from_def queue_order_def)

theorem request_queue_refines_order_witness:
  "queue_order (add_request high (PriorityRequestQueue [low])) = [high, low] \<and>
   remove_request high (PriorityRequestQueue [low]) = Inl ValueError"
proof -
  have "enter_by PRIORITY high [low] = [high, low]"
    by (simp add: enter_by_def low_def high_def request_key_def less_eq_prod_def)
  then show ?thesis
    using request_queue_refines_order [OF conjunct1 [OF example_queue], of high] example_queue
    by (simp add: example_requests)
qed

text \<open>
  C35. Requests that are added to an empty queue come out exactly once, in the order they were
  added under FCFS and in the order of their keys under priority scheduling; then the queue
  is empty.
\<close>

theorem request_queue_serves_everyone:
  assumes "distinct (map object_id rs)"
  shows "\<exists>q. pop_requests (length rs) (fold add_request rs (create_request_queue p)) =
      Inr (case p of FCFS \<Rightarrow> rs | PRIORITY \<Rightarrow> sort_key request_key rs, q) \<and> queue_len q = 0"
proof (cases p)
  case FCFS
  have c: "fcfs_ok (create_request_queue FCFS)" "queue_order (create_request_queue FCFS) = []"
    using queue_ok_create [of FCFS] by (simp_all add: queue_ok_def)
  have "fold (\<lambda>r rs. rs @ [r]) rs xs = xs @ rs" for xs by (induction rs arbitrary: xs) simp_all
  then have o: "fcfs_ok (fold add_request rs (create_request_queue FCFS))"
    "queue_order (fold add_request rs (create_request_queue FCFS)) = rs"
    using fcfs_queue.add_all_spec [OF c(1), of rs] assms c(2) by (simp_all add: distinct_objects_def)
  from fcfs_queue.pop_requests_spec [OF o(1), of "length rs"] o(2) FCFS fcfs_queue.len_law show ?thesis by auto
next
  case PRIORITY
  have c: "priority_ok (create_request_queue PRIORITY)" "queue_order (create_request_queue PRIORITY) = []"
    using queue_ok_create [of PRIORITY] by (simp_all add: queue_ok_def)
  have o: "priority_ok (fold add_request rs (create_request_queue PRIORITY))"
    "queue_order (fold add_request rs (create_request_queue PRIORITY)) = sort_key request_key rs"
    using priority_queue.add_all_spec [OF c(1), of rs] assms c(2) insort_all [of rs]
    by (simp_all add: distinct_objects_def)
  from priority_queue.pop_requests_spec [OF o(1), of "length rs"] o(2) PRIORITY priority_queue.len_law
  show ?thesis by auto
qed

theorem request_queue_serves_everyone_witness:
  "\<exists>q. pop_requests 2 (fold add_request [low, high] (create_request_queue PRIORITY)) = Inr ([high, low], q)"
  using request_queue_serves_everyone [of "[low, high]" PRIORITY]
  by (auto simp: example_requests numeral_2_eq_2)

text \<open>
  The scheduler's choice between its two waiting queues never raises, is none exactly
  when both are empty, and under priority scheduling the head of the chosen queue precedes
  every other waiting request in both queues.
\<close>

lemma waiting_choice_is_least:
  assumes "policy w = PRIORITY" and "queue_ok PRIORITY (waiting w)" and "queue_ok PRIORITY (skipped_waiting w)"
  shows "\<exists>c. select_waiting_queue_for_scheduling w = Inr c \<and>
    (c = None \<longleftrightarrow> queue_order (waiting w) = [] \<and> queue_order (skipped_waiting w) = []) \<and>
    (\<forall>side. c = Some side \<longrightarrow>
      (\<exists>r. peek_request (case side of Waiting \<Rightarrow> waiting w | Skipped \<Rightarrow> skipped_waiting w) = Inr r \<and>
         (\<forall>r'\<in>set (queue_order (waiting w)) \<union> set (queue_order (skipped_waiting w)).
            request_key r \<le> request_key r')))"
proof -
  have ok: "priority_ok (waiting w)" "priority_ok (skipped_waiting w)" using assms(2,3) by (simp_all add: queue_ok_def)
  have least: "request_key (hd (queue_order q)) \<le> request_key r"
    if "priority_ok q" "r \<in> set (queue_order q)" for q r
  proof -
    have "sorted (map request_key (queue_order q))" using that sorted_key_sort
      by (cases q) (auto simp: priority_ok_def queue_order_def simp del: sorted_sort_key)
    then show ?thesis using that(2) by (cases "queue_order q") auto
  qed
  have bool: "queue_bool q \<longleftrightarrow> queue_order q \<noteq> []" if "priority_ok q" for q
    using priority_queue.len_law [OF that] by (simp add: queue_bool_def)
  have peek: "peek_request q = Inr (hd (queue_order q))" if "priority_ok q" "queue_order q \<noteq> []" for q
    using priority_queue.peek_law [OF that(1)] that(2) by (simp split: list.splits)
  have le: "request_key (hd (queue_order (waiting w))) \<le> request_key (hd (queue_order (skipped_waiting w)))"
    if "request_lt (hd (queue_order (waiting w))) (hd (queue_order (skipped_waiting w)))"
    using that by (simp add: request_lt_key)
  have ge: "request_key (hd (queue_order (skipped_waiting w))) \<le> request_key (hd (queue_order (waiting w)))"
    if "\<not> request_lt (hd (queue_order (waiting w))) (hd (queue_order (skipped_waiting w)))"
    using that by (simp add: request_lt_key)
  show ?thesis
    using assms(1) ok bool peek least [OF ok(1)] least [OF ok(2)] le ge
    by (auto simp: select_waiting_queue_for_scheduling_def split: waiting_choice.splits intro: order_trans)
qed

text \<open>
  C36. Requests that a scheduling pass skips are moved to a fresh queue by prepending and then
  prepended as a whole to the queue of skipped requests. Under FCFS the two reversals cancel:
  the skipped requests stand before the older ones, in their original order. Under priority
  scheduling the result is the merge by key.
\<close>

theorem skipped_requests_keep_order:
  assumes "queue_ok p q" and "distinct (map object_id (rs @ queue_order q))"
  shows "queue_ok p (prepend_requests (fold prepend_request rs (create_request_queue p)) q) \<and>
    queue_order (prepend_requests (fold prepend_request rs (create_request_queue p)) q) =
      (case p of FCFS \<Rightarrow> rs @ queue_order q | PRIORITY \<Rightarrow> sort_key request_key (rs @ queue_order q))"
proof (cases p)
  case FCFS
  then obtain xs where q: "q = FCFSRequestQueue xs" using assms(1)
    by (cases q) (auto simp: queue_ok_def fcfs_ok_def)
  have "fold prepend_request rs (FCFSRequestQueue ys) = FCFSRequestQueue (rev rs @ ys)" for ys
    by (induction rs arbitrary: ys) simp_all
  moreover have "fold (#) ys zs = rev ys @ zs" for ys zs :: "request list"
    by (induction ys arbitrary: zs) simp_all
  ultimately show ?thesis using FCFS q assms
    by (simp add: create_request_queue_def queue_ok_def fcfs_ok_def queue_order_def distinct_objects_def)
next
  case PRIORITY
  then have ok: "priority_ok q" using assms(1) by (simp add: queue_ok_def)
  have c: "priority_ok (create_request_queue PRIORITY)" "queue_order (create_request_queue PRIORITY) = []"
    using queue_ok_create [of PRIORITY] by (simp_all add: queue_ok_def)
  define q0 where "q0 = fold prepend_request rs (create_request_queue PRIORITY)"
  have d: "distinct_objects rs" using assms(2) by (simp add: distinct_objects_def)
  have q0: "priority_ok q0" "queue_order q0 = sort_key request_key rs"
    using priority_queue.prepend_all_spec [OF c(1) d] c(2) insort_all [OF d] by (simp_all add: q0_def)
  define ys where "ys = sort_key request_key rs"
  have ys: "distinct_objects ys" "set ys = set rs" "mset ys = mset rs"
    using distinct_objects_mset [of ys rs] d by (simp_all add: ys_def)
  have "prepend_requests q0 q = fold add_request ys q"
    using ok priority_queue.iter_law [OF q0(1)] q0(2) by (cases q) (simp_all add: priority_ok_def ys_def)
  moreover have "priority_ok (fold add_request ys q) \<and>
      queue_order (fold add_request ys q) = fold (insort_key request_key) ys (queue_order q)"
    using assms(2) ys by (intro priority_queue.add_all_spec [OF ok]) auto
  moreover have "fold (insort_key request_key) ys (queue_order q) = sort_key request_key (rs @ queue_order q)"
  proof -
    have "sorted (map request_key (fold (insort_key request_key) ys zs)) \<and>
        mset (fold (insort_key request_key) ys zs) = mset ys + mset zs" if "sorted (map request_key zs)" for zs
      using that by (induction ys arbitrary: zs) (simp_all add: sorted_insort_key)
    moreover have "sorted (map request_key (queue_order q))" using ok sorted_key_sort
      by (cases q) (auto simp: priority_ok_def queue_order_def simp del: sorted_sort_key)
    ultimately show ?thesis using ys(3) assms(2)
      by (intro sorted_unique [symmetric]) (auto simp: distinct_objects_def)
  qed
  ultimately show ?thesis using PRIORITY by (simp add: q0_def queue_ok_def)
qed

theorem skipped_requests_keep_order_witness:
  "queue_order (prepend_requests (fold prepend_request [high] (create_request_queue PRIORITY))
     (PriorityRequestQueue [low])) = sort_key request_key [high, low]"
  using skipped_requests_keep_order [of PRIORITY "PriorityRequestQueue [low]" "[high]"] example_queue
  by (simp add: example_requests)

end
