(* ===== verification/Sched_Utils.thy ===== *)
theory Sched_Utils
  imports Request
begin

text \<open>
  \<^verbatim>\<open>vllm/v1/core/sched/utils.py\<close> and \<^verbatim>\<open>Scheduler._update_request_with_output\<close>: when a
  request stops, and how the tokens a step returns are appended up to the stopping one.

  The tail comparison of the repetition detector is related to the obvious reference: the
  output ends in a number of copies of one block.
\<close>

section \<open>The functions\<close>

text \<open>\<^verbatim>\<open>token_ids[-k]\<close> for a positive \<open>k\<close>\<close>

definition from_end :: "int list \<Rightarrow> nat \<Rightarrow> int res" where
  "from_end xs k = (if 0 < k \<and> k \<le> length xs then Inr (xs ! (length xs - k)) else Inl IndexError)"

text \<open>A loop that returns False at the first element whose test fails.\<close>

fun all_res :: "('a \<Rightarrow> bool res) \<Rightarrow> 'a list \<Rightarrow> bool res" where
  "all_res f [] = Inr True"
| "all_res f (x # xs) = rbind (f x) (\<lambda>b. if b then all_res f xs else Inr False)"

definition has_repeating_pattern :: "int list \<Rightarrow> nat \<Rightarrow> nat \<Rightarrow> bool res" where
  "has_repeating_pattern token_ids pattern_len repetition_min_count =
     all_res (\<lambda>n. rbind (from_end token_ids n) (\<lambda>target_token.
         all_res (\<lambda>m. rbind (from_end token_ids (pattern_len * m + n)) (\<lambda>t. Inr (t = target_token)))
           [1..<repetition_min_count]))
       [1..<Suc pattern_len]"

fun repetition_loop :: "int list \<Rightarrow> nat \<Rightarrow> nat list \<Rightarrow> bool res" where
  "repetition_loop token_ids min_cnt [] = Inr False"
| "repetition_loop token_ids min_cnt (pattern_len # ps) =
     (if pattern_len * min_cnt > length token_ids then Inr False
      else rbind (has_repeating_pattern token_ids pattern_len min_cnt)
             (\<lambda>b. if b then Inr True else repetition_loop token_ids min_cnt ps))"

definition check_sequence_repetition :: "int list \<Rightarrow> repetition_detection_params \<Rightarrow> bool res" where
  "check_sequence_repetition token_ids params =
     (let min_size = (if min_pattern_size params \<le> 0 then 1 else min_pattern_size params)
      in if max_pattern_size params \<le> 0 \<or> min_count params < 2 \<or> min_size > max_pattern_size params
         then Inr False
         else repetition_loop token_ids (nat (min_count params))
                [nat min_size..<nat (max_pattern_size params) + 1])"

text \<open>\<^verbatim>\<open>lst.remove(item)\<close> removes the first occurrence; its error is suppressed.\<close>

definition remove_all :: "'a list \<Rightarrow> 'a set \<Rightarrow> 'a list" where
  "remove_all lst items_to_remove =
     (if items_to_remove = {} then lst
      else if card items_to_remove = 1 then remove1 (the_elem items_to_remove) lst
      else filter (\<lambda>item. item \<notin> items_to_remove) lst)"

text \<open>\<^verbatim>\<open>sampling_params.stop_token_ids or ()\<close>\<close>

definition stop_ids :: "sampling_params_rec \<Rightarrow> int list" where
  "stop_ids sp = (case stop_token_ids sp of None \<Rightarrow> [] | Some ids \<Rightarrow> ids)"

definition check_stop :: "request \<Rightarrow> int \<Rightarrow> (bool \<times> request) res" where
  "check_stop r max_model_len =
     (if pooling_params r \<noteq> None then Inl AssertionError
      else case sampling_params r of
        None \<Rightarrow> Inl AssertionError
      | Some sp \<Rightarrow>
          if int (num_output_tokens r) < min_tokens sp then Inr (False, r)
          else rbind (from_end (output_token_ids r) 1) (\<lambda>last_token_id.
            if eos_token_id sp = Some last_token_id then Inr (True, r\<lparr>status := FINISHED_STOPPED\<rparr>)
            else if last_token_id \<in> set (stop_ids sp)
            then Inr (True, r\<lparr>status := FINISHED_STOPPED, stop_reason := Some (StopToken last_token_id)\<rparr>)
            else if int (num_tokens r) \<ge> max_model_len \<or> int (num_output_tokens r) \<ge> max_tokens r
            then Inr (True, r\<lparr>status := FINISHED_LENGTH_CAPPED\<rparr>)
            else (case repetition_detection sp of
                    None \<Rightarrow> Inr (False, r)
                  | Some params \<Rightarrow>
                      rbind (check_sequence_repetition (output_token_ids r) params) (\<lambda>b.
                        if b then Inr (True, r\<lparr>status := FINISHED_REPETITION,
                                               stop_reason := Some (StopString ''repetition_detected'')\<rparr>)
                        else Inr (False, r)))))"

text \<open>
  The loop over the tokens of one step. The result is the number of tokens kept: the list is
  trimmed in place behind the stopping token.
\<close>

fun append_until_stop :: "block_hasher option \<Rightarrow> int \<Rightarrow> int list \<Rightarrow> request \<Rightarrow> (int list \<times> bool \<times> request) res" where
  "append_until_stop hasher max_model_len [] r = Inr ([], False, r)"
| "append_until_stop hasher max_model_len (t # ts) r =
     rbind (append_output_token_ids hasher [t] r) (\<lambda>r1.
       rbind (check_stop r1 max_model_len) (\<lambda>(stopped, r2).
         if stopped then Inr ([t], True, r2)
         else rbind (append_until_stop hasher max_model_len ts r2) (\<lambda>(kept, b, r3). Inr (t # kept, b, r3))))"

definition update_request_with_output ::
  "block_hasher option \<Rightarrow> int \<Rightarrow> request \<Rightarrow> int list \<Rightarrow> (int list \<times> bool \<times> request) res" where
  "update_request_with_output hasher max_model_len r new_token_ids =
     append_until_stop hasher max_model_len new_token_ids r"


section \<open>Repetition\<close>

text \<open>The sequence ends in \<open>k\<close> copies of its last \<open>p\<close> tokens.\<close>

definition ends_in_copies :: "int list \<Rightarrow> nat \<Rightarrow> nat \<Rightarrow> bool" where
  "ends_in_copies xs p k \<longleftrightarrow>
     p * k \<le> length xs \<and> drop (length xs - p * k) xs = concat (replicate k (drop (length xs - p) xs))"

lemma all_res_Inr: "(\<And>x. x \<in> set xs \<Longrightarrow> f x = Inr (P x)) \<Longrightarrow> all_res f xs = Inr (\<forall>x\<in>set xs. P x)"
  by (induction xs) auto

lemma nth_concat_replicate:
  "length ys = p \<Longrightarrow> i < p * k \<Longrightarrow> concat (replicate k ys) ! i = ys ! (i mod p)"
proof (induction k arbitrary: i)
  case (Suc k)
  show ?case
  proof (cases "i < p")
    case False
    then show ?thesis using Suc by (simp add: nth_append le_mod_geq)
  qed (use Suc in \<open>simp add: nth_append\<close>)
qed simp

lemma copies_index:
  fixes p k m n L :: nat
  assumes "1 \<le> n" and "n \<le> p" and "m < k" and "p * k \<le> L"
  defines "j \<equiv> p * (k - 1 - m) + (p - n)"
  shows "j < p * k" "j mod p = p - n" "L - p * k + j = L - (p * m + n)" "L - p + (p - n) = L - n"
    "p * m + n \<le> L"
proof -
  obtain d where k: "k = m + 1 + d" using assms(3) by (metis less_iff_Suc_add add.commute add_Suc_right plus_1_eq_Suc)
  have j: "j = p * d + (p - n)" by (simp add: j_def k)
  have L: "p * m + p + p * d \<le> L" using assms(4) by (simp add: k algebra_simps)
  show "j < p * k" using assms(1,2) by (simp add: j k algebra_simps)
  define s where "s = p - n"
  have "s < p" using assms(1,2) by (simp add: s_def)
  then have "(p * d + s) mod p = s" by simp
  then show "j mod p = p - n" by (simp only: j s_def)
  show "L - p * k + j = L - (p * m + n)" using L assms(1,2) by (simp add: j k algebra_simps)
  show "L - p + (p - n) = L - n" "p * m + n \<le> L" using L assms(1,2) by simp_all
qed

lemma ends_in_copies_nth:
  assumes len: "p * k \<le> length xs" and k: "0 < k"
  shows "ends_in_copies xs p k \<longleftrightarrow>
    (\<forall>n m. 1 \<le> n \<and> n \<le> p \<and> m < k \<longrightarrow> xs ! (length xs - (p * m + n)) = xs ! (length xs - n))"
proof -
  let ?L = "length xs"
  have p: "p \<le> ?L" using len k by (cases k) auto
  have nth: "concat (replicate k (drop (?L - p) xs)) ! j = xs ! (?L - p + j mod p)" if "j < p * k" for j
    using nth_concat_replicate [of "drop (?L - p) xs" p j k] that p by (cases "p = 0") auto
  have "length (concat (replicate k (drop (?L - p) xs))) = p * k"
    using p by (simp add: length_concat sum_list_replicate)
  then have "ends_in_copies xs p k \<longleftrightarrow> (\<forall>j<p * k. xs ! (?L - p * k + j) = xs ! (?L - p + j mod p))"
    using len nth by (auto simp: ends_in_copies_def list_eq_iff_nth_eq)
  also have "\<dots> \<longleftrightarrow> (\<forall>n m. 1 \<le> n \<and> n \<le> p \<and> m < k \<longrightarrow> xs ! (?L - (p * m + n)) = xs ! (?L - n))"
  proof (intro iffI allI impI)
    fix n m assume all: "\<forall>j<p * k. xs ! (?L - p * k + j) = xs ! (?L - p + j mod p)" and nm: "1 \<le> n \<and> n \<le> p \<and> m < k"
    then show "xs ! (?L - (p * m + n)) = xs ! (?L - n)"
      using copies_index [of n p m k ?L] len by metis
  next
    fix j assume all: "\<forall>n m. 1 \<le> n \<and> n \<le> p \<and> m < k \<longrightarrow> xs ! (?L - (p * m + n)) = xs ! (?L - n)" and j: "j < p * k"
    define n m where "n = p - j mod p" and "m = k - 1 - j div p"
    have p0: "0 < p" using j by (cases p) auto
    have q: "j div p < k" using j by (simp add: less_mult_imp_div_less mult.commute)
    have nm: "1 \<le> n" "n \<le> p" "m < k" using p0 k by (auto simp: n_def m_def Suc_le_eq)
    have "p - n = j mod p" using p0 by (simp add: n_def mod_less_divisor order_less_imp_le)
    moreover have "k - 1 - m = j div p" using q by (simp add: m_def)
    ultimately have "j = p * (k - 1 - m) + (p - n)" by simp
    then show "xs ! (?L - p * k + j) = xs ! (?L - p + j mod p)"
      using copies_index [OF nm len] all nm by metis
  qed
  finally show ?thesis .
qed

lemma has_repeating_pattern_eq:
  assumes "p * k \<le> length xs" and "0 < k"
  shows "has_repeating_pattern xs p k = Inr (ends_in_copies xs p k)"
proof -
  let ?L = "length xs"
  have at: "from_end xs (p * m + n) = Inr (xs ! (?L - (p * m + n)))" if "1 \<le> n" "n \<le> p" "m < k" for n m
    using copies_index(5) [OF that assms(1)] that by (simp add: from_end_def)
  have inner: "all_res (\<lambda>m. rbind (from_end xs (p * m + n)) (\<lambda>t. Inr (t = xs ! (?L - n)))) [1..<k] =
      Inr (\<forall>m\<in>set [1..<k]. xs ! (?L - (p * m + n)) = xs ! (?L - n))" if "1 \<le> n" "n \<le> p" for n
    by (rule all_res_Inr) (use at that in simp)
  have "has_repeating_pattern xs p k =
      Inr (\<forall>n\<in>set [1..<Suc p]. \<forall>m\<in>set [1..<k]. xs ! (?L - (p * m + n)) = xs ! (?L - n))"
    unfolding has_repeating_pattern_def
    by (rule all_res_Inr) (use at [of _ 0] inner assms(2) in auto)
  moreover have "(\<forall>n\<in>set [1..<Suc p]. \<forall>m\<in>set [1..<k]. xs ! (?L - (p * m + n)) = xs ! (?L - n)) \<longleftrightarrow>
      ends_in_copies xs p k" (is "?A \<longleftrightarrow> _")
  proof -
    have sets: "n \<in> set [1..<Suc p] \<longleftrightarrow> 1 \<le> n \<and> n \<le> p" "m \<in> set [1..<k] \<longleftrightarrow> 1 \<le> m \<and> m < k" for n m
      by auto
    have "xs ! (?L - (p * m + n)) = xs ! (?L - n)" if ?A "1 \<le> n" "n \<le> p" "m < k" for n m
    proof (cases "m = 0")
      case False
      with that(2-4) show ?thesis by (intro that(1) [THEN bspec, THEN bspec]) (auto simp only: sets)
    qed simp
    then have "?A \<Longrightarrow> ends_in_copies xs p k" unfolding ends_in_copies_nth [OF assms] by blast
    moreover have "ends_in_copies xs p k \<Longrightarrow> ?A" unfolding ends_in_copies_nth [OF assms] sets Ball_def by blast
    ultimately show ?thesis by blast
  qed
  ultimately show ?thesis by simp
qed

lemma repetition_loop_eq:
  assumes "0 < k" and "sorted ps"
  shows "repetition_loop xs k ps = Inr (\<exists>p\<in>set ps. ends_in_copies xs p k)"
  using assms(2)
proof (induction ps)
  case (Cons p ps)
  show ?case
  proof (cases "p * k > length xs")
    case True
    have "length xs < q * k" if "q \<in> set (p # ps)" for q
      using that Cons.prems True by (auto intro: less_le_trans)
    then have "\<not> (\<exists>q\<in>set (p # ps). ends_in_copies xs q k)" by (fastforce simp: ends_in_copies_def)
    then show ?thesis using True by simp
  next
    case False
    with Cons assms(1) show ?thesis by (simp add: has_repeating_pattern_eq)
  qed
qed simp

lemma repetition_loop_total:
  assumes "0 < k" and "sorted ps"
  shows "\<exists>b. repetition_loop xs k ps = Inr b"
  using repetition_loop_eq [OF assms] by blast

lemma repetition_detector_total: "\<exists>b. check_sequence_repetition xs params = Inr b"
  by (auto simp: check_sequence_repetition_def Let_def simp del: upt_Suc intro!: repetition_loop_total)

text \<open>
  C37. The repetition detector never raises and is equivalent to the reference: some pattern
  size in the configured range, taken as at least 1, is such that the output ends in the
  configured number of copies, at least two, of its last block of that size. Leaving the
  loop at the first size that no longer fits loses nothing.
\<close>

theorem repetition_detector_correct:
  "check_sequence_repetition xs params = Inr
     (2 \<le> min_count params \<and>
      (\<exists>p. max 1 (min_pattern_size params) \<le> int p \<and> int p \<le> max_pattern_size params \<and>
           ends_in_copies xs p (nat (min_count params))))"
proof (cases "2 \<le> min_count params")
  case True
  let ?lo = "if min_pattern_size params \<le> 0 then 1 else min_pattern_size params"
  have loop: "repetition_loop xs (nat (min_count params)) [nat ?lo..<nat (max_pattern_size params) + 1] =
      Inr (\<exists>p\<in>set [nat ?lo..<nat (max_pattern_size params) + 1]. ends_in_copies xs p (nat (min_count params)))"
    by (rule repetition_loop_eq) (use True in simp, rule sorted_upt)
  have mem: "p \<in> set [nat ?lo..<nat (max_pattern_size params) + 1] \<longleftrightarrow>
      max 1 (min_pattern_size params) \<le> int p \<and> int p \<le> max_pattern_size params"
    if "\<not> (max_pattern_size params \<le> 0)" for p
    using that by auto
  have "\<not> (max_pattern_size params \<le> 0) \<Longrightarrow>
      repetition_loop xs (nat (min_count params)) [nat ?lo..<nat (max_pattern_size params) + 1] =
      Inr (\<exists>p. (max 1 (min_pattern_size params) \<le> int p \<and> int p \<le> max_pattern_size params) \<and>
           ends_in_copies xs p (nat (min_count params)))"
    by (simp only: loop Bex_def mem not_False_eq_True)
  moreover have "\<not> (max 1 (min_pattern_size params) \<le> int p \<and> int p \<le> max_pattern_size params)"
    if "max_pattern_size params \<le> 0 \<or> ?lo > max_pattern_size params" for p
    using that by (auto split: if_splits)
  ultimately show ?thesis using True unfolding check_sequence_repetition_def Let_def by (auto split: if_splits)
qed (simp add: check_sequence_repetition_def Let_def)

lemma remove_all_eq_filter:
  assumes "distinct lst"
  shows "remove_all lst S = filter (\<lambda>x. x \<notin> S) lst"
proof (cases "card S = 1")
  case True
  then obtain x where "S = {x}" by (auto simp: card_1_singleton_iff)
  then show ?thesis using assms by (simp add: remove_all_def distinct_remove1_removeAll removeAll_filter_not_eq eq_commute)
qed (simp add: remove_all_def)


section \<open>Stopping\<close>

text \<open>The condition under which a request with the given output stops.\<close>

definition stops :: "sampling_params_rec \<Rightarrow> int \<Rightarrow> int \<Rightarrow> int list \<Rightarrow> nat \<Rightarrow> bool" where
  "stops sp max_toks max_model_len out n_all \<longleftrightarrow>
     min_tokens sp \<le> int (length out) \<and>
     (eos_token_id sp = Some (last out) \<or>
      last out \<in> set (stop_ids sp) \<or>
      max_model_len \<le> int n_all \<or> max_toks \<le> int (length out) \<or>
      (\<exists>params. repetition_detection sp = Some params \<and> check_sequence_repetition out params = Inr True))"

text \<open>Generation: only the status and the stop reason of the request may change.\<close>

definition same_output :: "request \<Rightarrow> request \<Rightarrow> bool" where
  "same_output r r' \<longleftrightarrow>
     output_token_ids r' = output_token_ids r \<and> all_token_ids r' = all_token_ids r \<and>
     sampling_params r' = sampling_params r \<and> pooling_params r' = pooling_params r \<and> max_tokens r' = max_tokens r"

lemma check_stop_spec:
  assumes "pooling_params r = None" and "sampling_params r = Some sp" and "output_token_ids r \<noteq> []"
  shows "\<exists>r'. check_stop r max_model_len =
      Inr (stops sp (max_tokens r) max_model_len (output_token_ids r) (length (all_token_ids r)), r') \<and>
    same_output r r' \<and>
    (if stops sp (max_tokens r) max_model_len (output_token_ids r) (length (all_token_ids r))
     then is_finished_status (status r') else r' = r)"
proof -
  let ?out = "output_token_ids r"
  have last: "from_end ?out 1 = Inr (last ?out)" using assms(3) by (simp add: from_end_def last_conv_nth Suc_le_eq)
  have rep: "\<exists>b. check_sequence_repetition ?out params = Inr b" for params
    by (rule repetition_detector_total)
  consider (min) "int (length ?out) < min_tokens sp"
    | (eos) "\<not> int (length ?out) < min_tokens sp" "eos_token_id sp = Some (last ?out)"
    | (ids) "\<not> int (length ?out) < min_tokens sp" "eos_token_id sp \<noteq> Some (last ?out)"
        "last ?out \<in> set (stop_ids sp)"
    | (len) "\<not> int (length ?out) < min_tokens sp" "eos_token_id sp \<noteq> Some (last ?out)"
        "last ?out \<notin> set (stop_ids sp)"
        "max_model_len \<le> int (length (all_token_ids r)) \<or> max_tokens r \<le> int (length ?out)"
    | (rep) "\<not> int (length ?out) < min_tokens sp" "eos_token_id sp \<noteq> Some (last ?out)"
        "last ?out \<notin> set (stop_ids sp)"
        "\<not> (max_model_len \<le> int (length (all_token_ids r)) \<or> max_tokens r \<le> int (length ?out))"
    by blast
  then show ?thesis
  proof cases
    case min
    then show ?thesis using assms by (simp add: check_stop_def stops_def num_output_tokens_def same_output_def)
  next
    case eos
    then show ?thesis using assms last
      by (simp add: check_stop_def stops_def num_output_tokens_def same_output_def is_finished_status_def)
  next
    case ids
    then show ?thesis using assms last
      by (simp add: check_stop_def stops_def num_output_tokens_def same_output_def is_finished_status_def)
  next
    case len
    then show ?thesis using assms last
      by (auto simp: check_stop_def stops_def num_output_tokens_def num_tokens_def same_output_def is_finished_status_def)
  next
    case rep
    show ?thesis
    proof (cases "repetition_detection sp")
      case None
      then show ?thesis using rep assms last
        by (simp add: check_stop_def stops_def num_output_tokens_def num_tokens_def same_output_def)
    next
      case (Some params)
      obtain b where b: "check_sequence_repetition ?out params = Inr b"
        using \<open>\<And>params. \<exists>b. check_sequence_repetition ?out params = Inr b\<close> by blast
      show ?thesis using rep Some b assms last
        by (cases b) (simp_all add: check_stop_def stops_def num_output_tokens_def num_tokens_def
            same_output_def is_finished_status_def)
    qed
  qed
qed

definition stops_after :: "sampling_params_rec \<Rightarrow> int \<Rightarrow> request \<Rightarrow> int list \<Rightarrow> bool" where
  "stops_after sp max_model_len r ts =
     stops sp (max_tokens r) max_model_len (output_token_ids r @ ts) (length (all_token_ids r @ ts))"

text \<open>
  The hasher that the engine attaches to a request does not raise and touches only its memo.
\<close>

definition hasher_ok :: "block_hasher option \<Rightarrow> bool" where
  "hasher_ok hasher \<longleftrightarrow>
     (\<forall>f. hasher = Some f \<longrightarrow> (\<forall>r. \<exists>hs memo. f r = Inr (hs, r\<lparr>prompt_embeds_per_block_hashes := memo\<rparr>)))"

lemma append_output_spec:
  assumes "hasher_ok hasher"
  shows "\<exists>r'. append_output_token_ids hasher ts r = Inr r' \<and>
    output_token_ids r' = output_token_ids r @ ts \<and> all_token_ids r' = all_token_ids r @ ts \<and>
    sampling_params r' = sampling_params r \<and> pooling_params r' = pooling_params r \<and>
    max_tokens r' = max_tokens r \<and> status r' = status r"
proof (cases hasher)
  case (Some f)
  let ?r = "r\<lparr>output_token_ids := output_token_ids r @ ts, all_token_ids := all_token_ids r @ ts\<rparr>"
  have "\<forall>r. \<exists>hs memo. f r = Inr (hs, r\<lparr>prompt_embeds_per_block_hashes := memo\<rparr>)"
    using assms Some by (simp add: hasher_ok_def)
  from this [rule_format, of ?r] obtain hs memo where
    "f ?r = Inr (hs, ?r\<lparr>prompt_embeds_per_block_hashes := memo\<rparr>)" by blast
  with Some show ?thesis by (simp add: append_output_token_ids_def update_block_hashes_def)
qed (simp add: append_output_token_ids_def update_block_hashes_def)

text \<open>
  C38. The tokens of a step are appended one by one up to the first one at which the request
  stops. The update does not raise; what it keeps is a prefix of the step's tokens, and the
  request's output and token lists grow by exactly that prefix. No shorter prefix meets the
  stop condition; if the kept prefix meets it the request is finished, and otherwise all
  tokens are kept and the status is unchanged.
\<close>

theorem update_stops_at_first_stop:
  assumes "hasher_ok hasher" and "pooling_params r = None" and "sampling_params r = Some sp"
  shows "\<exists>kept stopped r'. update_request_with_output hasher max_model_len r new_tokens = Inr (kept, stopped, r') \<and>
    kept = take (length kept) new_tokens \<and>
    output_token_ids r' = output_token_ids r @ kept \<and> all_token_ids r' = all_token_ids r @ kept \<and>
    (\<forall>k. 0 < k \<and> k < length kept \<longrightarrow> \<not> stops_after sp max_model_len r (take k new_tokens)) \<and>
    (if stopped then stops_after sp max_model_len r kept \<and> kept \<noteq> [] \<and> is_finished_status (status r')
     else kept = new_tokens \<and> status r' = status r \<and> (kept \<noteq> [] \<longrightarrow> \<not> stops_after sp max_model_len r kept))"
  unfolding stops_after_def update_request_with_output_def
  using assms(2,3)
proof (induction new_tokens arbitrary: r)
  case (Cons t ts)
  obtain r1 where r1: "append_output_token_ids hasher [t] r = Inr r1"
      "output_token_ids r1 = output_token_ids r @ [t]" "all_token_ids r1 = all_token_ids r @ [t]"
      "sampling_params r1 = Some sp" "pooling_params r1 = None" "max_tokens r1 = max_tokens r" "status r1 = status r"
    using append_output_spec [OF assms(1), of "[t]" r] Cons.prems by auto
  let ?s = "stops sp (max_tokens r) max_model_len (output_token_ids r @ [t]) (length (all_token_ids r @ [t]))"
  obtain r2 where r2: "check_stop r1 max_model_len = Inr (?s, r2)" "same_output r1 r2"
      "if ?s then is_finished_status (status r2) else r2 = r1"
    using check_stop_spec [OF r1(5,4), of max_model_len] r1 by auto
  show ?case
  proof (cases ?s)
    case True
    then show ?thesis using r1 r2 by (auto simp: same_output_def)
  next
    case False
    then have "r2 = r1" using r2(3) by simp
    from Cons.IH [OF r1(5,4)] obtain kept stopped r' where
      run: "append_until_stop hasher max_model_len ts r1 = Inr (kept, stopped, r')"
      and pre: "kept = take (length kept) ts" "output_token_ids r' = output_token_ids r1 @ kept"
        "all_token_ids r' = all_token_ids r1 @ kept"
      and short: "\<forall>k. 0 < k \<and> k < length kept \<longrightarrow> \<not> stops sp (max_tokens r1) max_model_len
          (output_token_ids r1 @ take k ts) (length (all_token_ids r1 @ take k ts))"
      and stop: "if stopped then stops sp (max_tokens r1) max_model_len (output_token_ids r1 @ kept)
            (length (all_token_ids r1 @ kept)) \<and> kept \<noteq> [] \<and> is_finished_status (status r')
          else kept = ts \<and> status r' = status r1 \<and> (kept \<noteq> [] \<longrightarrow> \<not> stops sp (max_tokens r1) max_model_len
            (output_token_ids r1 @ kept) (length (all_token_ids r1 @ kept)))"
      by blast
    have "\<not> stops sp (max_tokens r) max_model_len (output_token_ids r @ take k (t # ts))
        (length (all_token_ids r @ take k (t # ts)))" if "0 < k" "k < length (t # kept)" for k
    proof -
      obtain j where j: "k = Suc j" "j < length kept" using \<open>0 < k\<close> \<open>k < length (t # kept)\<close> by (cases k) auto
      show ?thesis using False short [rule_format, of j] j r1(2,3,6) by (cases "j = 0") simp_all
    qed
    moreover have "append_until_stop hasher max_model_len (t # ts) r = Inr (t # kept, stopped, r')"
      using r1(1) r2(1) False \<open>r2 = r1\<close> run by simp
    moreover have "t # kept = take (length (t # kept)) (t # ts)" using pre(1) by simp
    moreover have "output_token_ids r' = output_token_ids r @ t # kept" "all_token_ids r' = all_token_ids r @ t # kept"
      using pre r1 by simp_all
    moreover have "if stopped then stops sp (max_tokens r) max_model_len (output_token_ids r @ t # kept)
          (length (all_token_ids r @ t # kept)) \<and> t # kept \<noteq> [] \<and> is_finished_status (status r')
        else t # kept = t # ts \<and> status r' = status r \<and> (t # kept \<noteq> [] \<longrightarrow> \<not> stops sp (max_tokens r) max_model_len
          (output_token_ids r @ t # kept) (length (all_token_ids r @ t # kept)))"
      using stop r1 False by (cases stopped; cases "kept = []") auto
    ultimately show ?thesis by blast
  qed
qed auto

definition eos_params :: sampling_params_rec where
  "eos_params = \<lparr>sp_max_tokens = Some 16, min_tokens = 0, eos_token_id = Some 7, stop_token_ids = None,
     repetition_detection = None, sp_skip_reading_prefix_cache = None, structured_outputs = False,
     sp_kv_transfer_params = None\<rparr>"

theorem update_stops_at_first_stop_witness:
  "\<exists>kept stopped r'. update_request_with_output None 100
     ((mm_request ''r'' [])\<lparr>sampling_params := Some eos_params\<rparr>) [5, 7, 9] = Inr (kept, stopped, r') \<and>
     kept = take (length kept) [5, 7, 9] \<and> output_token_ids r' = kept"
  using update_stops_at_first_stop [of None "(mm_request ''r'' [])\<lparr>sampling_params := Some eos_params\<rparr>" eos_params
      100 "[5, 7, 9]"]
  by (auto simp: hasher_ok_def mm_request_def)

end
