(* ===== verification/Scheduler.thy ===== *)
theory Scheduler
  imports KV_Manager Encoder_Sched Request_Queue Sched_Utils
begin

text \<open>
  \<^verbatim>\<open>vllm/v1/core/sched/scheduler.py\<close>: the first half of \<^verbatim>\<open>schedule\<close>, which gives tokens,
  cache blocks and encoder outputs to the running requests and preempts some of them when
  blocks run out, with \<^verbatim>\<open>_preempt_request\<close> and \<^verbatim>\<open>_mamba_block_aligned_split\<close>.

  A request object is in one place at a time, the list of running requests or a queue, so the
  lists hold the requests themselves; the local list of scheduled requests holds identities.
  The scheduler's local variables are the fields that \<open>running_pass\<close> adds to its state.
\<close>

section \<open>State\<close>

record scheduler_params =
  max_num_scheduled_tokens :: int
  sched_max_model_len :: int
  long_prefill_token_threshold :: int
  num_lookahead_tokens :: int
  sched_use_eagle :: bool
  need_mamba_block_aligned_split :: bool
  cache_block_size :: int
  sched_block_size :: nat
  max_encoder_input_tokens :: int
  encoder_side :: encoder_scheduler

record 'm scheduler =
  running :: "request list"
  queues :: waiting_queues
  kv_cache_manager :: kv_manager
  enc_manager :: 'm

record 'm running_pass = "'m scheduler" +
  req_index :: nat
  token_budget :: int
  encoder_budget :: int
  scheduled_running_reqs :: "nat list"
  preempted_reqs :: "request list"
  num_scheduled_tokens :: "(string, int) pydict"
  req_to_new_blocks :: "(string, kv_cache_blocks) pydict"
  scheduled_spec_decode_tokens :: "(string, int list) pydict"
  scheduled_encoder_inputs :: "(string, nat list) pydict"

section \<open>How many tokens\<close>

text \<open>With asynchronous scheduling, a request whose last step is already in flight is passed over.\<close>

definition last_step_in_flight :: "request \<Rightarrow> bool" where
  "last_step_in_flight r \<longleftrightarrow>
     num_output_placeholders r > 0 \<and>
     num_computed_tokens r + 2 - num_output_placeholders r \<ge> int (num_prompt_tokens r) + max_tokens r"

definition running_num_new_tokens :: "scheduler_params \<Rightarrow> int \<Rightarrow> request \<Rightarrow> int" where
  "running_num_new_tokens ps budget r =
     (let n = int (num_tokens_with_spec r) + num_output_placeholders r - num_computed_tokens r;
          n = (if 0 < long_prefill_token_threshold ps \<and> long_prefill_token_threshold ps < n
               then long_prefill_token_threshold ps else n);
          n = min n budget
      in min n (sched_max_model_len ps - 1 - num_computed_tokens r))"

definition mamba_block_aligned_split :: "scheduler_params \<Rightarrow> request \<Rightarrow> int \<Rightarrow> int \<Rightarrow> int \<Rightarrow> int res" where
  "mamba_block_aligned_split ps r new_tokens num_new_local num_external =
     (if num_external \<noteq> 0 then Inl AssertionError
      else
        let computed = num_computed_tokens r + num_new_local + num_external
        in if computed < max (int (num_prompt_tokens r)) (int (num_tokens r) - 1)
           then let bs = cache_block_size ps;
                    last0 = int (num_tokens r) - int (num_tokens r) mod bs;
                    last_cache_position = (if sched_use_eagle ps then max (last0 - bs) 0 else last0);
                    after_sched = computed + new_tokens
                in if after_sched < last_cache_position then Inr (new_tokens div bs * bs)
                   else if computed < last_cache_position \<and> last_cache_position < after_sched
                   then Inr (last_cache_position - computed)
                   else Inr new_tokens
           else Inr new_tokens)"

section \<open>Preemption\<close>

definition set_request :: "request \<Rightarrow> request list \<Rightarrow> request list" where
  "set_request r rs = map (\<lambda>x. if object_id x = object_id r then r else x) rs"

definition preempt_request ::
  "'m encoder_ops \<Rightarrow> request \<Rightarrow> ('m, 'z) scheduler_scheme \<Rightarrow> (request \<times> ('m, 'z) scheduler_scheme) res" where
  "preempt_request ops r s =
     (if status r \<noteq> RUNNING then Inl AssertionError
      else
        rbind (kv_free r (kv_cache_manager s)) (\<lambda>kv.
        rbind (op_free ops r (enc_manager s)) (\<lambda>enc.
          let r' = r\<lparr>status := PREEMPTED, num_computed_tokens := 0, spec_token_ids := [],
                     num_preemptions := num_preemptions r + 1\<rparr>
          in Inr (r', s\<lparr>kv_cache_manager := kv, enc_manager := enc,
                        queues := (queues s)\<lparr>waiting := prepend_request r' (waiting (queues s))\<rparr>\<rparr>))))"

text \<open>\<^verbatim>\<open>max(self.running, key=lambda r: (r.priority, r.arrival_time))\<close> is the first greatest element.\<close>

definition preempt_key :: "request \<Rightarrow> int \<times> real" where
  "preempt_key r = (priority r, arrival_time r)"

definition lowest_priority :: "request list \<Rightarrow> request" where
  "lowest_priority rs = foldl (\<lambda>best x. if preempt_key best < preempt_key x then x else best) (hd rs) (tl rs)"

definition sum_encoder_embeds :: "request \<Rightarrow> nat list \<Rightarrow> int res" where
  "sum_encoder_embeds r ins =
     fold_res (\<lambda>i acc. rbind (get_num_encoder_embeds r i) (\<lambda>n. Inr (acc + n))) ins 0"

text \<open>A request that was already scheduled in this step gives back what it got.\<close>

definition unschedule :: "request \<Rightarrow> 'm running_pass \<Rightarrow> 'm running_pass res" where
  "unschedule v p =
     (let rid = request_id v in
      case dict_get (num_scheduled_tokens p) rid of
        None \<Rightarrow> Inl KeyError
      | Some n \<Rightarrow>
          if dict_get (req_to_new_blocks p) rid = None then Inl KeyError
          else rbind (case dict_get (scheduled_encoder_inputs p) rid of
                        None \<Rightarrow> Inr 0 | Some ins \<Rightarrow> sum_encoder_embeds v ins) (\<lambda>e.
            Inr (p\<lparr>scheduled_running_reqs := remove1 (object_id v) (scheduled_running_reqs p),
                   token_budget := token_budget p + n,
                   num_scheduled_tokens := dict_del rid (num_scheduled_tokens p),
                   req_to_new_blocks := dict_del rid (req_to_new_blocks p),
                   scheduled_spec_decode_tokens := dict_del rid (scheduled_spec_decode_tokens p),
                   scheduled_encoder_inputs := dict_del rid (scheduled_encoder_inputs p),
                   encoder_budget := encoder_budget p + e,
                   req_index := req_index p - 1\<rparr>)))"

definition pop_victim :: "'m running_pass \<Rightarrow> (request \<times> 'm running_pass) res" where
  "pop_victim p =
     (if policy (queues p) = PRIORITY
      then (if running p = [] then Inl ValueError
            else let v = lowest_priority (running p)
                 in rbind (remove_object v (running p)) (\<lambda>rs.
                      rbind (if object_id v \<in> set (scheduled_running_reqs p)
                             then unschedule v (p\<lparr>running := rs\<rparr>) else Inr (p\<lparr>running := rs\<rparr>))
                        (\<lambda>p'. Inr (v, p'))))
      else (if running p = [] then Inl IndexError
            else Inr (last (running p), p\<lparr>running := butlast (running p)\<rparr>)))"

definition preempt_one :: "'m encoder_ops \<Rightarrow> 'm running_pass \<Rightarrow> (request \<times> 'm running_pass) res" where
  "preempt_one ops p =
     rbind (pop_victim p) (\<lambda>(v, p1).
       rbind (preempt_request ops v p1) (\<lambda>(v', p2).
         Inr (v, p2\<lparr>preempted_reqs := preempted_reqs p2 @ [v']\<rparr>)))"

definition store_slots :: "kv_manager \<Rightarrow> request \<Rightarrow> 'm running_pass \<Rightarrow> 'm running_pass" where
  "store_slots kv r p = p\<lparr>kv_cache_manager := kv, running := set_request r (running p)\<rparr>"

lemma length_set_request [simp]: "length (set_request r rs) = length rs"
  by (simp add: set_request_def)

lemma remove_object_length: "remove_object r xs = Inr ys \<Longrightarrow> Suc (length ys) = length xs"
  by (induction xs arbitrary: ys) (auto simp: res_simps split: if_splits)

lemma unschedule_running: "unschedule v p = Inr p' \<Longrightarrow> running p' = running p \<and> req_index p' = req_index p - 1"
  by (auto simp: unschedule_def Let_def res_simps split: option.splits if_splits)

lemma pop_victim_running:
  "pop_victim p = Inr (v, p') \<Longrightarrow>
   Suc (length (running p')) = length (running p) \<and> (req_index p' = req_index p \<or> req_index p' = req_index p - 1)"
  by (auto simp: pop_victim_def Let_def res_simps dest!: remove_object_length unschedule_running split: if_splits)

lemma preempt_request_running:
  fixes p :: "'m running_pass"
  shows "preempt_request ops v p = Inr (v', p') \<Longrightarrow> running p' = running p \<and> req_index p' = req_index p"
  by (auto simp: preempt_request_def Let_def res_simps split: if_splits)

lemma preempt_one_running:
  "preempt_one ops p = Inr (v, p') \<Longrightarrow>
   Suc (length (running p')) = length (running p) \<and> (req_index p' = req_index p \<or> req_index p' = req_index p - 1)"
  by (auto simp: preempt_one_def res_simps dest!: pop_victim_running preempt_request_running)

section \<open>The loop over the running requests\<close>

text \<open>
  \<^verbatim>\<open>while True: allocate_slots ... preempt\<close>. The result is empty when the request itself was
  preempted.
\<close>

function alloc_or_preempt ::
  "(bytes \<Rightarrow> bytes) \<Rightarrow> 'm encoder_ops \<Rightarrow> scheduler_params \<Rightarrow> request \<Rightarrow> int \<Rightarrow> 'm running_pass \<Rightarrow>
   ((kv_cache_blocks \<times> request) option \<times> 'm running_pass) res" where
  "alloc_or_preempt sha256 ops ps r n p =
     (case allocate_slots sha256 r n 0 None (num_lookahead_tokens ps) 0 False 0 (kv_cache_manager p) of
        Inl e \<Rightarrow> Inl e
      | Inr (out, kv, r') \<Rightarrow>
          (case out of
             Some b \<Rightarrow> Inr (Some (b, r'), store_slots kv r' p)
           | None \<Rightarrow>
               (case preempt_one ops (store_slots kv r' p) of
                  Inl e \<Rightarrow> Inl e
                | Inr (v, p') \<Rightarrow>
                    if object_id v = object_id r then Inr (None, p')
                    else alloc_or_preempt sha256 ops ps r' n p')))"
  by pat_completeness auto

termination
  by (relation "measure (\<lambda>(_, _, _, _, _, p). length (running p))")
    (auto simp: store_slots_def dest!: preempt_one_running)

declare alloc_or_preempt.simps [simp del]

text \<open>Drafted tokens that are scheduled; the request starts the next step without drafts.\<close>

definition schedule_spec_tokens :: "request \<Rightarrow> int \<Rightarrow> 'm running_pass \<Rightarrow> 'm running_pass" where
  "schedule_spec_tokens r n p =
     (if spec_token_ids r = [] then p
      else let k = n + num_computed_tokens r - int (num_tokens r) - num_output_placeholders r;
               p' = (if k > 0 then p\<lparr>scheduled_spec_decode_tokens :=
                        dict_set (request_id r) (take (nat k) (spec_token_ids r)) (scheduled_spec_decode_tokens p)\<rparr>
                     else p)
           in p'\<lparr>running := set_request (r\<lparr>spec_token_ids := []\<rparr>) (running p')\<rparr>)"

definition schedule_request ::
  "'m encoder_ops \<Rightarrow> request \<Rightarrow> kv_cache_blocks \<Rightarrow> int \<Rightarrow> nat list \<Rightarrow> int \<Rightarrow> nat list \<Rightarrow> 'm running_pass \<Rightarrow>
   'm running_pass res" where
  "schedule_request ops r new_blocks n ins new_encoder_budget ext p =
     (let rid = request_id r;
          p1 = p\<lparr>scheduled_running_reqs := scheduled_running_reqs p @ [object_id r],
                 req_to_new_blocks := dict_set rid new_blocks (req_to_new_blocks p),
                 num_scheduled_tokens := dict_set rid n (num_scheduled_tokens p),
                 token_budget := token_budget p - n,
                 req_index := req_index p + 1\<rparr>;
          p2 = schedule_spec_tokens r n p1
      in rbind (allocate_encoder_inputs ops r ins ext (enc_manager p2)) (\<lambda>enc.
           Inr (if ins = [] then p2\<lparr>enc_manager := enc\<rparr>
                else p2\<lparr>enc_manager := enc, scheduled_encoder_inputs := dict_set rid ins (scheduled_encoder_inputs p2),
                        encoder_budget := new_encoder_budget\<rparr>)))"

text \<open>
  What a running request gets in this step before blocks are looked for: its encoder inputs,
  its tokens, the encoder budget left and the inputs to load.
\<close>

definition plan_request ::
  "'m encoder_ops \<Rightarrow> scheduler_params \<Rightarrow> request \<Rightarrow> 'm running_pass \<Rightarrow>
   ((nat list \<times> int \<times> int \<times> nat list) \<times> 'm) res" where
  "plan_request ops ps r p =
     rbind (if has_encoder_inputs r
            then try_schedule_encoder_inputs ops (encoder_side ps) r (num_computed_tokens r)
                   (running_num_new_tokens ps (token_budget p) r) (encoder_budget p)
                   (if sched_use_eagle ps then 1 else 0) (enc_manager p)
            else Inr (([], running_num_new_tokens ps (token_budget p) r, encoder_budget p, []), enc_manager p))
       (\<lambda>((ins, n1, new_budget, ext), enc).
         rbind (if need_mamba_block_aligned_split ps then mamba_block_aligned_split ps r n1 0 0 else Inr n1)
           (\<lambda>n. Inr ((ins, n, new_budget, ext), enc)))"

text \<open>Blocks for the request, possibly after preemptions; the flag says that the loop is left.\<close>

definition grant_request ::
  "(bytes \<Rightarrow> bytes) \<Rightarrow> 'm encoder_ops \<Rightarrow> scheduler_params \<Rightarrow> request \<Rightarrow> nat list \<Rightarrow> int \<Rightarrow> int \<Rightarrow> nat list \<Rightarrow>
   'm running_pass \<Rightarrow> (bool \<times> 'm running_pass) res" where
  "grant_request sha256 ops ps r ins n new_budget ext p =
     rbind (alloc_or_preempt sha256 ops ps r n p)
       (\<lambda>(out, p'). case out of
           None \<Rightarrow> Inr (True, p')
         | Some (b, r') \<Rightarrow> rbind (schedule_request ops r' b n ins new_budget ext p') (\<lambda>p''. Inr (False, p'')))"

definition running_step ::
  "(bytes \<Rightarrow> bytes) \<Rightarrow> 'm encoder_ops \<Rightarrow> scheduler_params \<Rightarrow> 'm running_pass \<Rightarrow> (bool \<times> 'm running_pass) res" where
  "running_step sha256 ops ps p =
     (let r = running p ! req_index p
      in if last_step_in_flight r then Inr (False, p\<lparr>req_index := req_index p + 1\<rparr>)
         else
           rbind (plan_request ops ps r p)
             (\<lambda>((ins, n, new_budget, ext), enc).
               if n = 0 then Inr (False, p\<lparr>enc_manager := enc, req_index := req_index p + 1\<rparr>)
               else grant_request sha256 ops ps r ins n new_budget ext (p\<lparr>enc_manager := enc\<rparr>)))"

lemma alloc_or_preempt_running:
  "alloc_or_preempt sha256 ops ps r n p = Inr (out, p') \<Longrightarrow>
   length (running p') - req_index p' \<le> length (running p) - req_index p"
proof (induction sha256 ops ps r n p rule: alloc_or_preempt.induct)
  case (1 sha256 ops ps r n p)
  note step = 1(2) [unfolded alloc_or_preempt.simps [of sha256 ops ps r n p]]
  show ?case
  proof (cases "allocate_slots sha256 r n 0 None (num_lookahead_tokens ps) 0 False 0 (kv_cache_manager p)")
    case (Inr w)
    obtain o' kv r' where w: "w = (o', kv, r')" by (cases w)
    show ?thesis
    proof (cases o')
      case None
      show ?thesis
      proof (cases "preempt_one ops (store_slots kv r' p)")
        case one: (Inr vp)
        obtain v q where vp: "vp = (v, q)" by (cases vp)
        have m: "length (running q) - req_index q \<le> length (running p) - req_index p"
          using preempt_one_running [of ops "store_slots kv r' p" v q] one vp by (auto simp: store_slots_def)
        show ?thesis
        proof (cases "object_id v = object_id r")
          case True
          then show ?thesis using step Inr w None one vp m by simp
        next
          case False
          then show ?thesis using 1(1) [OF Inr w [symmetric] refl None one vp [symmetric] False] step Inr w None one vp m by simp
        qed
      qed (use step Inr w None in simp)
    next
      case (Some b)
      then show ?thesis using step Inr w by (auto simp: store_slots_def)
    qed
  qed (use step in simp)
qed

lemma schedule_spec_running [simp]:
  "length (running (schedule_spec_tokens r n p)) = length (running p)"
  "req_index (schedule_spec_tokens r n p) = req_index p"
  by (simp_all add: schedule_spec_tokens_def Let_def)

lemma schedule_request_running:
  "schedule_request ops r b n ins nb ext p = Inr p' \<Longrightarrow>
   length (running p') = length (running p) \<and> req_index p' = req_index p + 1"
  by (auto simp: schedule_request_def Let_def res_simps)

lemma running_step_measure:
  assumes "running_step sha256 ops ps p = Inr (False, p')" and "req_index p < length (running p)"
  shows "length (running p') - req_index p' < length (running p) - req_index p"
proof -
  let ?r = "running p ! req_index p"
  show ?thesis
  proof (cases "last_step_in_flight ?r")
    case True
    then show ?thesis using assms by (auto simp: running_step_def Let_def)
  next
    case False
    then obtain ins n nb ext enc where plan: "plan_request ops ps ?r p = Inr ((ins, n, nb, ext), enc)"
      using assms(1) by (auto simp: running_step_def Let_def res_simps)
    show ?thesis
    proof (cases "n = 0")
      case True
      then show ?thesis using False plan assms by (auto simp: running_step_def Let_def)
    next
      case n: False
      then have "grant_request sha256 ops ps ?r ins n nb ext (p\<lparr>enc_manager := enc\<rparr>) = Inr (False, p')"
        using False plan assms(1) by (simp add: running_step_def Let_def)
      then obtain b r' q where
        q: "alloc_or_preempt sha256 ops ps ?r n (p\<lparr>enc_manager := enc\<rparr>) = Inr (Some (b, r'), q)"
          "schedule_request ops r' b n ins nb ext q = Inr p'"
        by (auto simp: grant_request_def res_simps split: option.splits)
      from alloc_or_preempt_running [OF q(1)] schedule_request_running [OF q(2)] assms(2) show ?thesis by simp
    qed
  qed
qed

function running_loop ::
  "(bytes \<Rightarrow> bytes) \<Rightarrow> 'm encoder_ops \<Rightarrow> scheduler_params \<Rightarrow> 'm running_pass \<Rightarrow> 'm running_pass res" where
  "running_loop sha256 ops ps p =
     (if req_index p < length (running p) \<and> 0 < token_budget p
      then (case running_step sha256 ops ps p of
              Inl e \<Rightarrow> Inl e
            | Inr (stop, p') \<Rightarrow> if stop then Inr p' else running_loop sha256 ops ps p')
      else Inr p)"
  by pat_completeness auto

termination
  by (relation "measure (\<lambda>(_, _, _, p). length (running p) - req_index p)")
    (auto intro: running_step_measure)

declare running_loop.simps [simp del]

text \<open>The first half of \<^verbatim>\<open>schedule\<close>; nothing is scheduled while the scheduler is paused.\<close>

definition start_pass :: "scheduler_params \<Rightarrow> bool \<Rightarrow> 'm scheduler \<Rightarrow> 'm running_pass" where
  "start_pass ps paused_all s =
     \<lparr>running = running s, queues = queues s, kv_cache_manager = kv_cache_manager s, enc_manager = enc_manager s,
      req_index = 0, token_budget = (if paused_all then 0 else max_num_scheduled_tokens ps),
      encoder_budget = max_encoder_input_tokens ps, scheduled_running_reqs = [], preempted_reqs = [],
      num_scheduled_tokens = [], req_to_new_blocks = [], scheduled_spec_decode_tokens = [],
      scheduled_encoder_inputs = []\<rparr>"

definition schedule_running ::
  "(bytes \<Rightarrow> bytes) \<Rightarrow> 'm encoder_ops \<Rightarrow> scheduler_params \<Rightarrow> bool \<Rightarrow> 'm scheduler \<Rightarrow> 'm running_pass res" where
  "schedule_running sha256 ops ps paused_all s = running_loop sha256 ops ps (start_pass ps paused_all s)"

end
