(* ===== verification/Waiting.thy ===== *)
theory Waiting
  imports Scheduler
begin

text \<open>
  \<^verbatim>\<open>vllm/v1/core/sched/scheduler.py\<close>: the second half of \<^verbatim>\<open>schedule\<close>, which admits waiting
  requests: blocked requests are promoted or skipped, cached tokens are looked up locally and
  with the KV connector, blocks and encoder outputs are taken, and the request starts running.

  The KV connector, the state of compiled grammars and the presence of streamed input are
  arguments. Of the connector the pass uses the answer to \<^verbatim>\<open>get_num_new_matched_tokens\<close>, which
  each request asks for at most once in a pass; the calls that only notify the connector and
  its statistics are left out.
\<close>

section \<open>State\<close>

record waiting_params =
  max_num_running_reqs :: nat
  max_loras :: "int option"
  enable_chunked_prefill :: bool
  scheduler_reserve_full_isl :: bool
  kv_connector :: "(request \<Rightarrow> int \<Rightarrow> int option \<times> bool) option"
  grammar_ready :: "request \<Rightarrow> bool"
  streaming_input :: "request \<Rightarrow> bool"

record 'm waiting_pass = "'m running_pass" +
  scheduled_new_reqs :: "nat list"
  scheduled_resumed_reqs :: "nat list"
  scheduled_loras :: "int set"
  step_skipped_waiting :: request_queue
  finished_recving_kv_req_ids :: "string set"
  failed_recving_kv_req_ids :: "string set"

fun queue_of :: "waiting_choice \<Rightarrow> waiting_queues \<Rightarrow> request_queue" where
  "queue_of Waiting w = waiting w"
| "queue_of Skipped w = skipped_waiting w"

fun set_queue_of :: "waiting_choice \<Rightarrow> request_queue \<Rightarrow> waiting_queues \<Rightarrow> waiting_queues" where
  "set_queue_of Waiting q w = w\<lparr>waiting := q\<rparr>"
| "set_queue_of Skipped q w = w\<lparr>skipped_waiting := q\<rparr>"

section \<open>Blocked requests\<close>

text \<open>After an asynchronous transfer, the loaded blocks are cached, or freed if nothing was loaded.\<close>

definition update_waiting_for_remote_kv ::
  "(bytes \<Rightarrow> bytes) \<Rightarrow> waiting_params \<Rightarrow> request \<Rightarrow> 'm waiting_pass \<Rightarrow> (request \<times> 'm waiting_pass) res" where
  "update_waiting_for_remote_kv sha256 wp r p =
     (if kv_connector wp = None then Inl AssertionError
      else
        rbind (if request_id r \<in> failed_recving_kv_req_ids p
               then if num_computed_tokens r \<noteq> 0
                    then rbind (kv_cache_blocks_op sha256 r (num_computed_tokens r) (kv_cache_manager p)) (\<lambda>(kv, r'). Inr (r', kv))
                    else rbind (kv_free r (kv_cache_manager p)) (\<lambda>kv. Inr (r, kv))
               else rbind (kv_cache_blocks_op sha256 r (num_computed_tokens r) (kv_cache_manager p)) (\<lambda>(kv, r1).
                 let r2 = (if num_computed_tokens r1 = int (num_tokens r1)
                           then r1\<lparr>num_computed_tokens := int (num_tokens r1) - 1\<rparr> else r1);
                     r3 = (if num_cached_tokens r2 < 0 then r2\<lparr>num_cached_tokens := num_computed_tokens r2\<rparr> else r2)
                 in Inr (r3, kv)))
          (\<lambda>(r', kv).
            if request_id r \<notin> finished_recving_kv_req_ids p then Inl KeyError
            else Inr (r', p\<lparr>kv_cache_manager := kv,
                            failed_recving_kv_req_ids := failed_recving_kv_req_ids p - {request_id r},
                            finished_recving_kv_req_ids := finished_recving_kv_req_ids p - {request_id r}\<rparr>)))"

definition try_promote_blocked_waiting_request ::
  "(bytes \<Rightarrow> bytes) \<Rightarrow> waiting_params \<Rightarrow> request \<Rightarrow> 'm waiting_pass \<Rightarrow> (bool \<times> request \<times> 'm waiting_pass) res" where
  "try_promote_blocked_waiting_request sha256 wp r p =
     (if status r = WAITING_FOR_REMOTE_KVS
      then if request_id r \<notin> finished_recving_kv_req_ids p then Inr (False, r, p)
           else rbind (update_waiting_for_remote_kv sha256 wp r p) (\<lambda>(r', p').
                  Inr (True, r'\<lparr>status := (if num_preemptions r' \<noteq> 0 then PREEMPTED else WAITING)\<rparr>, p'))
      else if status r = WAITING_FOR_STRUCTURED_OUTPUT_GRAMMAR
      then if \<not> (use_structured_output r \<and> grammar_ready wp r) then Inr (False, r, p)
           else Inr (True, r\<lparr>status := WAITING\<rparr>, p)
      else if status r = WAITING_FOR_STREAMING_REQ
      then if streaming_input wp r then Inl AssertionError else Inr (False, r, p)
      else Inl AssertionError)"

text \<open>A skipped request leaves its queue for this pass.\<close>

definition skip_request :: "waiting_choice \<Rightarrow> request \<Rightarrow> 'm waiting_pass \<Rightarrow> 'm waiting_pass res" where
  "skip_request c r p =
     rbind (pop_request (queue_of c (queues p))) (\<lambda>(_, q).
       Inr (p\<lparr>queues := set_queue_of c q (queues p),
              step_skipped_waiting := prepend_request r (step_skipped_waiting p)\<rparr>))"

definition lora_blocked :: "waiting_params \<Rightarrow> request \<Rightarrow> 'm waiting_pass \<Rightarrow> bool" where
  "lora_blocked wp r p \<longleftrightarrow>
     (case (max_loras wp, lora_request r) of
        (Some n, Some l) \<Rightarrow> int (card (scheduled_loras p)) = n \<and> lora_int_id l \<notin> scheduled_loras p
      | _ \<Rightarrow> False)"

section \<open>How much is cached and how many tokens are new\<close>

text \<open>
  The hit: blocks, local and external tokens, whether external tokens are loaded asynchronously,
  and all computed tokens. The inner option is empty when the connector has no answer yet.
\<close>

type_synonym hit = "kv_cache_blocks \<times> int \<times> int \<times> bool \<times> int"

definition cached_tokens ::
  "waiting_params \<Rightarrow> request \<Rightarrow> kv_manager \<Rightarrow> ((hit \<times> request) option \<times> kv_manager) res option" where
  "cached_tokens wp r kv =
     (if num_computed_tokens r = 0
      then case get_computed_blocks r kv of
             None \<Rightarrow> None
           | Some (Inl e) \<Rightarrow> Some (Inl e)
           | Some (Inr (b, n, kv')) \<Rightarrow>
               Some (case kv_connector wp of
                 None \<Rightarrow> if n > int (num_tokens r) then Inl AssertionError else Inr (Some ((b, n, 0, False, n), r), kv')
               | Some get_num_new_matched_tokens \<Rightarrow>
                   (case get_num_new_matched_tokens r n of
                      (None, _) \<Rightarrow> Inr (None, kv')
                    | (Some ext, load_async) \<Rightarrow>
                        if n + ext > int (num_tokens r) then Inl AssertionError
                        else Inr (Some ((b, n, ext, load_async, n + ext), r\<lparr>num_external_computed_tokens := ext\<rparr>), kv')))
      else Some (Inr (Some ((empty_kv_cache_blocks kv, 0, 0, False, num_computed_tokens r), r), kv)))"

definition waiting_num_new_tokens :: "scheduler_params \<Rightarrow> waiting_params \<Rightarrow> int \<Rightarrow> request \<Rightarrow> int \<Rightarrow> int option res" where
  "waiting_num_new_tokens ps wp budget r num_computed =
     (let n = int (num_tokens r) - num_computed;
          n = (if 0 < long_prefill_token_threshold ps \<and> long_prefill_token_threshold ps < n
               then long_prefill_token_threshold ps else n)
      in if \<not> enable_chunked_prefill wp \<and> n > budget then Inr None
         else if min n budget > 0 then Inr (Some (min n budget)) else Inl AssertionError)"

text \<open>
  Encoder inputs and tokens of an admission; the inner option is empty when nothing can be
  scheduled, which ends the loop.
\<close>

type_synonym plan = "nat list \<times> int \<times> int \<times> nat list"

definition encoder_plan ::
  "'m encoder_ops \<Rightarrow> scheduler_params \<Rightarrow> waiting_params \<Rightarrow> request \<Rightarrow> hit \<Rightarrow> 'm waiting_pass \<Rightarrow> (plan option \<times> 'm) res" where
  "encoder_plan ops ps wp r = (\<lambda>(_, _, ext, load_async, num_computed) p.
     if load_async
     then if ext > 0 then Inr (Some ([], 0, encoder_budget p, []), enc_manager p) else Inl AssertionError
     else rbind (waiting_num_new_tokens ps wp (token_budget p) r num_computed) (\<lambda>out.
       case out of
         None \<Rightarrow> Inr (None, enc_manager p)
       | Some n \<Rightarrow>
           if has_encoder_inputs r
           then rbind (try_schedule_encoder_inputs ops (encoder_side ps) r num_computed n (encoder_budget p)
                         (if sched_use_eagle ps then 1 else 0) (enc_manager p)) (\<lambda>((ins, n', nb, ex), enc).
                  Inr (if n' = 0 then None else Some (ins, n', nb, ex), enc))
           else Inr (Some ([], n, encoder_budget p, []), enc_manager p)))"

definition waiting_plan ::
  "'m encoder_ops \<Rightarrow> scheduler_params \<Rightarrow> waiting_params \<Rightarrow> request \<Rightarrow> hit \<Rightarrow> 'm waiting_pass \<Rightarrow> (plan option \<times> 'm) res" where
  "waiting_plan ops ps wp r hit p =
     rbind (encoder_plan ops ps wp r hit p) (\<lambda>(out, enc).
       case out of
         None \<Rightarrow> Inr (None, enc)
       | Some (ins, n, nb, ex) \<Rightarrow>
           if need_mamba_block_aligned_split ps
           then (case hit of (_, n_local, ext, _, _) \<Rightarrow>
                   rbind (mamba_block_aligned_split ps r n n_local ext) (\<lambda>n'.
                     Inr (if n' = 0 then None else Some (ins, n', nb, ex), enc)))
           else Inr (Some (ins, n, nb, ex), enc))"

section \<open>Blocks\<close>

definition cross_attention_tokens :: "scheduler_params \<Rightarrow> request \<Rightarrow> nat list \<Rightarrow> int res" where
  "cross_attention_tokens ps r ins =
     (if is_encoder_decoder (encoder_side ps) \<and> has_encoder_inputs r \<and> ins \<noteq> [] then sum_encoder_embeds r ins else Inr 0)"

text \<open>Without blocks, the references that the encoder pass took are given back and the loop ends.\<close>

definition give_up :: "'m encoder_ops \<Rightarrow> request \<Rightarrow> 'm waiting_pass \<Rightarrow> 'm waiting_pass res" where
  "give_up ops r p =
     (if has_encoder_inputs r then rbind (op_free ops r (enc_manager p)) (\<lambda>enc. Inr (p\<lparr>enc_manager := enc\<rparr>)) else Inr p)"

definition take_slots ::
  "(bytes \<Rightarrow> bytes) \<Rightarrow> 'm encoder_ops \<Rightarrow> scheduler_params \<Rightarrow> waiting_params \<Rightarrow> request \<Rightarrow> hit \<Rightarrow> plan \<Rightarrow> 'm waiting_pass \<Rightarrow>
   (request option \<times> 'm waiting_pass) res" where
  "take_slots sha256 ops ps wp r = (\<lambda>(b, n_local, ext, load_async, _) (ins, n, _, _) p.
     rbind (cross_attention_tokens ps r ins) (\<lambda>enc_tokens.
     rbind (if scheduler_reserve_full_isl wp
            then can_fit_full_sequence r n_local (Some b) ext enc_tokens (kv_cache_manager p) else Inr True) (\<lambda>fits.
     if \<not> fits then rbind (give_up ops r p) (\<lambda>p'. Inr (None, p'))
     else
       rbind (allocate_slots sha256 r n n_local (Some b) (if num_computed_tokens r = 0 then 0 else num_lookahead_tokens ps)
                ext load_async enc_tokens (kv_cache_manager p)) (\<lambda>(out, kv, r').
         let p1 = p\<lparr>kv_cache_manager := kv\<rparr>
         in if out = None then rbind (give_up ops r p1) (\<lambda>p'. Inr (None, p')) else Inr (Some r', p1)))))"

section \<open>Admission\<close>

definition start_request ::
  "'m encoder_ops \<Rightarrow> waiting_params \<Rightarrow> request \<Rightarrow> int \<Rightarrow> plan \<Rightarrow> 'm waiting_pass \<Rightarrow> 'm waiting_pass res" where
  "start_request ops wp r num_computed = (\<lambda>(ins, n, nb, ex) p.
     let rid = request_id r;
         r' = r\<lparr>status := RUNNING, num_computed_tokens := num_computed,
                num_cached_tokens := (if num_cached_tokens r < 0 then num_computed else num_cached_tokens r)\<rparr>;
         p1 = p\<lparr>running := running p @ [r'],
                scheduled_loras := (case (max_loras wp, lora_request r) of
                    (Some _, Some l) \<Rightarrow> insert (lora_int_id l) (scheduled_loras p) | _ \<Rightarrow> scheduled_loras p),
                req_to_new_blocks := dict_set rid (kv_get_blocks rid (kv_cache_manager p)) (req_to_new_blocks p),
                num_scheduled_tokens := dict_set rid n (num_scheduled_tokens p),
                token_budget := token_budget p - n\<rparr>
     in rbind (if status r = WAITING then Inr (p1\<lparr>scheduled_new_reqs := scheduled_new_reqs p1 @ [object_id r]\<rparr>)
               else if status r = PREEMPTED then Inr (p1\<lparr>scheduled_resumed_reqs := scheduled_resumed_reqs p1 @ [object_id r]\<rparr>)
               else Inl RuntimeError) (\<lambda>p2.
        rbind (allocate_encoder_inputs ops r' ins ex (enc_manager p2)) (\<lambda>enc.
          Inr (if ins = [] then p2\<lparr>enc_manager := enc\<rparr>
               else p2\<lparr>enc_manager := enc, scheduled_encoder_inputs := dict_set rid ins (scheduled_encoder_inputs p2),
                       encoder_budget := nb\<rparr>))))"

definition admit_request ::
  "'m encoder_ops \<Rightarrow> waiting_params \<Rightarrow> waiting_choice \<Rightarrow> request \<Rightarrow> hit \<Rightarrow> plan \<Rightarrow> 'm waiting_pass \<Rightarrow> 'm waiting_pass res" where
  "admit_request ops wp c r = (\<lambda>(_, _, _, load_async, num_computed) plan p.
     rbind (pop_request (queue_of c (queues p))) (\<lambda>(_, q).
       let p1 = p\<lparr>queues := set_queue_of c q (queues p)\<rparr>
       in if load_async
          then Inr (p1\<lparr>step_skipped_waiting := prepend_request
                 (r\<lparr>status := WAITING_FOR_REMOTE_KVS, num_computed_tokens := num_computed\<rparr>) (step_skipped_waiting p1)\<rparr>)
          else start_request ops wp r num_computed plan p1))"

text \<open>The request at the head is changed in place; this does not touch its key in a priority queue.\<close>

fun update_in_queue :: "request \<Rightarrow> request_queue \<Rightarrow> request_queue" where
  "update_in_queue r (FCFSRequestQueue q) = FCFSRequestQueue (set_request r q)"
| "update_in_queue r (PriorityRequestQueue h) = PriorityRequestQueue (set_request r h)"

definition store_waiting :: "waiting_choice \<Rightarrow> request \<Rightarrow> 'm waiting_pass \<Rightarrow> 'm waiting_pass" where
  "store_waiting c r p = p\<lparr>queues := set_queue_of c (update_in_queue r (queue_of c (queues p))) (queues p)\<rparr>"

section \<open>The loop over the waiting requests\<close>

text \<open>After the promotion: look up, plan, take slots, admit. The flag says that the loop is left.\<close>

definition schedule_waiting_request ::
  "(bytes \<Rightarrow> bytes) \<Rightarrow> 'm encoder_ops \<Rightarrow> scheduler_params \<Rightarrow> waiting_params \<Rightarrow> waiting_choice \<Rightarrow> request \<Rightarrow> 'm waiting_pass \<Rightarrow>
   (bool \<times> 'm waiting_pass) res option" where
  "schedule_waiting_request sha256 ops ps wp c r p =
     (case cached_tokens wp r (kv_cache_manager p) of
        None \<Rightarrow> None
      | Some found \<Rightarrow> Some (rbind found (\<lambda>(out, kv).
          let p1 = p\<lparr>kv_cache_manager := kv\<rparr>
          in case out of
               None \<Rightarrow> rbind (skip_request c r p1) (\<lambda>p'. Inr (False, p'))
             | Some (hit, r1) \<Rightarrow>
                 rbind (waiting_plan ops ps wp r1 hit p1) (\<lambda>(plan, enc).
                   let p2 = store_waiting c r1 (p1\<lparr>enc_manager := enc\<rparr>)
                   in case plan of
                        None \<Rightarrow> Inr (True, p2)
                      | Some pl \<Rightarrow>
                          rbind (take_slots sha256 ops ps wp r1 hit pl p2) (\<lambda>(got, p3).
                            case got of
                              None \<Rightarrow> Inr (True, p3)
                            | Some r2 \<Rightarrow> rbind (admit_request ops wp c r2 hit pl p3) (\<lambda>p4. Inr (False, p4)))))))"

definition waiting_step ::
  "(bytes \<Rightarrow> bytes) \<Rightarrow> 'm encoder_ops \<Rightarrow> scheduler_params \<Rightarrow> waiting_params \<Rightarrow> 'm waiting_pass \<Rightarrow>
   (bool \<times> 'm waiting_pass) res option" where
  "waiting_step sha256 ops ps wp p =
     (if length (running p) = max_num_running_reqs wp then Some (Inr (True, p))
      else
        case rbind (select_waiting_queue_for_scheduling (queues p)) (\<lambda>choice.
               case choice of
                 None \<Rightarrow> Inl AssertionError
               | Some c \<Rightarrow> rbind (peek_request (queue_of c (queues p))) (\<lambda>r.
                   if is_blocked_waiting_status (status r)
                   then rbind (try_promote_blocked_waiting_request sha256 wp r p) (\<lambda>(ready, r', p').
                          Inr (c, ready, r', store_waiting c r' p'))
                   else Inr (c, True, r, p))) of
          Inl e \<Rightarrow> Some (Inl e)
        | Inr (c, ready, r, p1) \<Rightarrow>
            if \<not> ready \<or> lora_blocked wp r p1 then Some (rbind (skip_request c r p1) (\<lambda>p'. Inr (False, p')))
            else schedule_waiting_request sha256 ops ps wp c r p1)"

text \<open>Every iteration that does not leave the loop takes one request from one of the queues.\<close>

definition queued :: "waiting_queues \<Rightarrow> nat" where
  "queued w = queue_len (waiting w) + queue_len (skipped_waiting w)"

lemma heappop_len: "heappop lt h = Inr (x, h') \<Longrightarrow> Suc (length h') = length h"
  by (cases h rule: rev_cases) (auto simp: heappop_def Let_def split: if_splits)

lemma pop_request_len: "pop_request q = Inr (r, q') \<Longrightarrow> Suc (queue_len q') = queue_len q"
  by (cases q) (auto simp: res_simps dest: heappop_len split: list.splits if_splits)

lemma queue_len_update [simp]: "queue_len (update_in_queue r q) = queue_len q"
  by (cases q) simp_all

lemma queued_set: "queue_len q' = queue_len (queue_of c w) \<Longrightarrow> queued (set_queue_of c q' w) = queued w"
  by (cases c) (simp_all add: queued_def)

lemma queued_pop: "Suc (queue_len q') = queue_len (queue_of c w) \<Longrightarrow> queued (set_queue_of c q' w) < queued w"
  by (cases c) (simp_all add: queued_def)

lemma queued_store [simp]: "queued (queues (store_waiting c r p)) = queued (queues p)"
  by (simp add: store_waiting_def queued_set)

lemma skip_request_queued: "skip_request c r p = Inr p' \<Longrightarrow> queued (queues p') < queued (queues p)"
  by (auto simp: skip_request_def res_simps intro!: queued_pop dest!: pop_request_len)

lemma give_up_queues: "give_up ops r p = Inr p' \<Longrightarrow> queues p' = queues p \<and> running p' = running p"
  by (auto simp: give_up_def res_simps split: if_splits)

lemma take_slots_queues:
  assumes "take_slots sha256 ops ps wp r hit pl p = Inr (got, p')"
  shows "queues p' = queues p \<and> running p' = running p"
proof -
  obtain b n_local ext load total_computed ins n nb ex where
    hp: "hit = (b, n_local, ext, load, total_computed)" "pl = (ins, n, nb, ex)" by (metis prod_cases5 prod_cases4)
  from assms obtain e fits where e: "cross_attention_tokens ps r ins = Inr e"
    "(if scheduler_reserve_full_isl wp then can_fit_full_sequence r n_local (Some b) ext e (kv_cache_manager p) else Inr True) = Inr fits"
    by (auto simp: take_slots_def hp res_simps)
  show ?thesis
  proof (cases fits)
    case False
    then show ?thesis using assms e by (auto simp: take_slots_def hp res_simps dest!: give_up_queues)
  next
    case True
    then obtain out kv r' where "allocate_slots sha256 r n n_local (Some b) (if num_computed_tokens r = 0 then 0 else num_lookahead_tokens ps)
        ext load e (kv_cache_manager p) = Inr (out, kv, r')"
      using assms e by (auto simp: take_slots_def hp res_simps)
    then show ?thesis using assms e True
      by (cases out) (auto simp: take_slots_def hp res_simps Let_def dest!: give_up_queues)
  qed
qed

lemma start_request_queues: "start_request ops wp r nc pl p = Inr p' \<Longrightarrow> queues p' = queues p"
  by (cases pl) (auto simp: start_request_def Let_def res_simps split: if_splits)

lemma admit_request_queued:
  assumes "admit_request ops wp c r hit pl p = Inr p'"
  shows "queued (queues p') < queued (queues p)"
proof -
  obtain b n_local ext load nc where hit: "hit = (b, n_local, ext, load, nc)" by (metis prod_cases5)
  from assms obtain r0 q where q: "pop_request (queue_of c (queues p)) = Inr (r0, q)"
    by (auto simp: admit_request_def hit res_simps)
  have "queues p' = set_queue_of c q (queues p)"
    using assms q by (cases load) (auto simp: admit_request_def hit Let_def dest!: start_request_queues)
  then show ?thesis using queued_pop pop_request_len [OF q] by simp
qed

lemma remote_kv_queues:
  assumes "update_waiting_for_remote_kv sha256 wp r p = Inr (r', p')"
  shows "queues p' = queues p \<and> running p' = running p"
proof -
  have "\<exists>y. p' = f y" if "rbind X (\<lambda>(r', y). if c then Inl e else Inr (r', f y)) = Inr (r', p')"
    for X :: "(request \<times> kv_manager) res" and c e and f :: "kv_manager \<Rightarrow> 'a waiting_pass"
    using that by (cases X) (auto split: if_splits)
  note shape = this
  have ne: "kv_connector wp \<noteq> None"
  proof
    assume "kv_connector wp = None"
    then show False using assms by (simp add: update_waiting_for_remote_kv_def)
  qed
  from shape [OF assms [unfolded update_waiting_for_remote_kv_def if_not_P [OF ne]]] show ?thesis by auto
qed

lemma promote_queues:
  "try_promote_blocked_waiting_request sha256 wp r p = Inr (b, r', p') \<Longrightarrow> queues p' = queues p \<and> running p' = running p"
  by (auto simp: try_promote_blocked_waiting_request_def res_simps dest: remote_kv_queues split: if_split_asm)

lemma schedule_waiting_request_queued:
  assumes "schedule_waiting_request sha256 ops ps wp c r p = Some (Inr (False, p'))"
  shows "queued (queues p') < queued (queues p)"
proof -
  from assms obtain out kv where found: "cached_tokens wp r (kv_cache_manager p) = Some (Inr (out, kv))"
    by (auto simp: schedule_waiting_request_def res_simps split: option.splits)
  show ?thesis
  proof (cases out)
    case None
    then show ?thesis using assms found
      by (auto simp: schedule_waiting_request_def Let_def res_simps dest!: skip_request_queued)
  next
    case (Some hr)
    obtain hit r1 where hr: "hr = (hit, r1)" by (cases hr)
    with assms found Some obtain pl enc r2 p3 where
      a: "take_slots sha256 ops ps wp r1 hit pl (store_waiting c r1 (p\<lparr>kv_cache_manager := kv, enc_manager := enc\<rparr>)) = Inr (Some r2, p3)"
        "admit_request ops wp c r2 hit pl p3 = Inr p'"
      by (auto simp: schedule_waiting_request_def Let_def res_simps split: option.splits)
    have "queued (queues p3) = queued (queues p)" using take_slots_queues [OF a(1)] by simp
    then show ?thesis using admit_request_queued [OF a(2)] by simp
  qed
qed

lemma waiting_step_queued:
  assumes "waiting_step sha256 ops ps wp p = Some (Inr (False, p'))"
  shows "queued (queues p') < queued (queues p)"
proof -
  let ?pick = "rbind (select_waiting_queue_for_scheduling (queues p)) (\<lambda>choice.
     case choice of
       None \<Rightarrow> Inl AssertionError
     | Some c \<Rightarrow> rbind (peek_request (queue_of c (queues p))) (\<lambda>r.
         if is_blocked_waiting_status (status r)
         then rbind (try_promote_blocked_waiting_request sha256 wp r p) (\<lambda>(ready, r', p').
                Inr (c, ready, r', store_waiting c r' p'))
         else Inr (c, True, r, p)))"
  have run: "length (running p) \<noteq> max_num_running_reqs wp" using assms by (auto simp: waiting_step_def)
  with assms obtain c ready r p1 where pick: "?pick = Inr (c, ready, r, p1)"
    unfolding waiting_step_def by (auto split: sum.splits)
  then have q: "queued (queues p1) = queued (queues p)"
    by (auto simp: res_simps dest!: promote_queues split: option.splits if_splits)
  note step = assms [unfolded waiting_step_def pick if_not_P [OF run]]
  show ?thesis
  proof (cases "\<not> ready \<or> lora_blocked wp r p1")
    case True
    then show ?thesis using step q by (auto simp: res_simps dest!: skip_request_queued)
  next
    case False
    then show ?thesis using step q schedule_waiting_request_queued [of sha256 ops ps wp c r p1 p'] by simp
  qed
qed

function waiting_loop ::
  "(bytes \<Rightarrow> bytes) \<Rightarrow> 'm encoder_ops \<Rightarrow> scheduler_params \<Rightarrow> waiting_params \<Rightarrow> 'm waiting_pass \<Rightarrow> 'm waiting_pass res option" where
  "waiting_loop sha256 ops ps wp p =
     (if (queue_bool (waiting (queues p)) \<or> queue_bool (skipped_waiting (queues p))) \<and> 0 < token_budget p
      then (case waiting_step sha256 ops ps wp p of
              None \<Rightarrow> None
            | Some (Inl e) \<Rightarrow> Some (Inl e)
            | Some (Inr (stop, p')) \<Rightarrow> if stop then Some (Inr p') else waiting_loop sha256 ops ps wp p')
      else Some (Inr p))"
  by pat_completeness auto

termination
  by (relation "measure (\<lambda>(_, _, _, _, p). queued (queues p))") (auto intro: waiting_step_queued)

declare waiting_loop.simps [simp del]

end
