(* ===== verification/KV_View.thy ===== *)
theory KV_View
  imports Admission
begin

text \<open>
  The block manager as the scheduler sees it: what is fixed, when a request has slots for its
  tokens, and that an operation for one request leaves all others alone. Everything the
  scheduler proofs use of the block manager is stated here.
\<close>

section \<open>What an operation for one request changes\<close>

text \<open>
  A manager remembers in \<^verbatim>\<open>num_cached_block\<close> which requests it knows. An operation for one
  request does not change the mark of another, and of the coordinator it only changes the
  managers and the pool.
\<close>

definition marks_kept :: "string \<Rightarrow> cache_manager \<Rightarrow> cache_manager \<Rightarrow> bool" where
  "marks_kept rid m m' \<longleftrightarrow> (\<forall>r. r \<noteq> rid \<longrightarrow> is_running r m' = is_running r m)"

definition only_for :: "string \<Rightarrow> coordinator \<Rightarrow> coordinator \<Rightarrow> bool" where
  "only_for rid c c' \<longleftrightarrow>
     (\<exists>p. c' = with_state (single_type_managers c') p c) \<and>
     list_all2 (marks_kept rid) (single_type_managers c) (single_type_managers c')"

lemma marks_kept_refl [simp]: "marks_kept rid m m"
  by (simp add: marks_kept_def)

lemma only_for_refl [simp]: "only_for rid c c"
  by (auto simp: only_for_def with_state_def list_all2_refl intro!: exI [of _ "coord_pool c"])

lemma only_for_trans:
  assumes "only_for rid c c'" and "only_for rid c' c''"
  shows "only_for rid c c''"
proof -
  have trans: "marks_kept rid m m1 \<Longrightarrow> marks_kept rid m1 m2 \<Longrightarrow> marks_kept rid m m2" for m m1 m2
    by (simp add: marks_kept_def)
  have "list_all2 (marks_kept rid) (single_type_managers c) (single_type_managers c'')"
    using assms trans unfolding only_for_def list_all2_conv_all_nth by metis
  moreover obtain p p' where
    p: "c' = with_state (single_type_managers c') p c" "c'' = with_state (single_type_managers c'') p' c'"
    using assms unfolding only_for_def by blast
  have "c'' = with_state (single_type_managers c'') p' c"
    by (subst p(2), subst p(1)) (simp add: with_state_def)
  ultimately show ?thesis unfolding only_for_def by blast
qed

lemma each_manager_all2:
  assumes "each_manager f ms s = Inr (ms', s')" and "Q s"
    and step: "\<And>i m s m' s'. Q s \<Longrightarrow> f i m s = Inr (m', s') \<Longrightarrow> Q s' \<and> K m m'"
  shows "Q s' \<and> list_all2 K ms ms'"
proof -
  have "\<forall>ms1 s1. fold_res (call_manager f) [0..<n] (ms, s) = Inr (ms1, s1) \<longrightarrow>
      Q s1 \<and> length ms1 = length ms \<and> (\<forall>j<n. K (ms ! j) (ms1 ! j)) \<and> (\<forall>j. n \<le> j \<longrightarrow> ms1 ! j = ms ! j)"
    if "n \<le> length ms" for n using that
  proof (induction n)
    case (Suc n)
    show ?case
    proof (intro allI impI)
      fix ms1 s1
      assume "fold_res (call_manager f) [0..<Suc n] (ms, s) = Inr (ms1, s1)"
      then obtain ms0 s0 m' where
        a: "fold_res (call_manager f) [0..<n] (ms, s) = Inr (ms0, s0)" "f n (ms0 ! n) s0 = Inr (m', s1)" "ms1 = ms0[n := m']"
        by (auto simp: fold_res_append res_simps call_manager_def)
      have IH: "Q s0" "length ms0 = length ms" "\<forall>j<n. K (ms ! j) (ms0 ! j)" "\<forall>j. n \<le> j \<longrightarrow> ms0 ! j = ms ! j"
        using Suc a(1) by auto
      from step [OF IH(1) a(2)] IH(4) have "Q s1" "K (ms ! n) m'" by auto
      then show "Q s1 \<and> length ms1 = length ms \<and> (\<forall>j<Suc n. K (ms ! j) (ms1 ! j)) \<and> (\<forall>j. Suc n \<le> j \<longrightarrow> ms1 ! j = ms ! j)"
        using IH Suc.prems unfolding a(3) by (auto simp: less_Suc_eq nth_list_update)
    qed
  qed (use assms(2) in simp)
  note run = this [of "length ms", OF order_refl, rule_format, OF assms(1) [unfolded each_manager_def]]
  then show ?thesis by (simp add: list_all2_conv_all_nth)
qed

lemma marks_set_table [simp]:
  "is_running r (set_req_blocks rid bs m) = is_running r m" "is_running r (note_new_ids bs p m) = is_running r m"
  "is_running r (ensure_req rid m) = is_running r m"
  by (simp_all add: is_running_def ensure_req_def)

lemma marks_adopt:
  assumes "allocate_new_computed_blocks rid row nl ne m p = Inr (m', p')"
  shows "marks_kept rid m m'"
proof (cases "is_cross (kv_cache_spec m) \<or> is_running rid m \<or> req_blocks rid m \<noteq> []")
  case True
  then have "m' = m" using assms by (auto simp: allocate_new_computed_blocks_def split: if_splits)
  then show ?thesis by simp
next
  case False
  let ?sk = "get_num_skipped_tokens (kv_cache_spec m) (nl + ne)"
  define s where "s = ?sk div int (block_size m)"
  define nc where "nc = (if 0 < s then drop (nat s) row else row)"
  define x where "x = (if 0 < s then min (nl + ne - ?sk) ne else ne)"
  let ?bs = "replicate (nat s) (mgr_null_block m) @ nc"
  let ?m1 = "(set_req_blocks rid ?bs m)\<lparr>num_cached_block := dict_set rid (length ?bs) (num_cached_block m)\<rparr>"
  have "m' = ?m1 \<or> (\<exists>new p2. m' = note_new_ids new p2 (set_req_blocks rid (?bs @ new) ?m1))"
    using assms False unfolding allocate_new_computed_blocks_def Let_def s_def [symmetric] nc_def [symmetric] x_def [symmetric]
    by (cases "0 < x") (auto simp: res_simps)
  then show ?thesis by (auto simp: marks_kept_def) (auto simp: is_running_def dict_get_set)
qed

lemma marks_new_blocks: "allocate_new_blocks rid n m p = Inr (new, m', p') \<Longrightarrow> marks_kept rid m m'"
  by (auto simp: allocate_new_blocks_def Let_def res_simps marks_kept_def split: if_splits)

lemma marks_free: "free_request rid m p = Inr (m', p') \<Longrightarrow> marks_kept rid m m'"
  by (auto simp: free_request_def res_simps marks_kept_def is_running_def dict_get_del)

lemma marks_remove_skipped: "remove_skipped_blocks rid n m p = Inr (m', p') \<Longrightarrow> marks_kept rid m m'"
  by (auto simp: remove_skipped_blocks_def Let_def res_simps marks_kept_def split: if_splits prod.splits)

text \<open>Caching changes a request in its memo of embedding hashes only.\<close>

definition only_memo :: "request \<Rightarrow> request \<Rightarrow> bool" where
  "only_memo r r' \<longleftrightarrow> (\<exists>memo. r' = r\<lparr>prompt_embeds_per_block_hashes := memo\<rparr>)"

lemma only_memo_refl [simp]: "only_memo r r"
  unfolding only_memo_def by (rule exI [of _ "prompt_embeds_per_block_hashes r"]) simp

lemma only_memo_trans: "only_memo r r1 \<Longrightarrow> only_memo r1 r' \<Longrightarrow> only_memo r r'"
  by (auto simp: only_memo_def)

lemma only_memo_id: "only_memo r r' \<Longrightarrow> request_id r' = request_id r"
  by (auto simp: only_memo_def)

lemma event_keys_memo: "event_keys_loop sha256 p bs n is i acc r = Inr (ks, r') \<Longrightarrow> only_memo r r'"
proof (induction "is" arbitrary: i acc r)
  case (Cons x xs)
  show ?case
  proof (cases "length bs \<le> x \<or> is_null (blk p (bs ! x))")
    case True
    then show ?thesis using Cons by (simp split: if_splits)
  next
    case False
    with Cons.prems obtain ks' j r1 where
      "generate_block_hash_extra_keys sha256 r (int (x * n)) (int (x * n + n)) i = Inr (ks', j, r1)"
      "event_keys_loop sha256 p bs n xs j (acc @ [ks']) r1 = Inr (ks, r')" by (auto simp: res_simps)
    then show ?thesis using Cons.IH extra_keys_memo only_memo_trans unfolding only_memo_def by metis
  qed
qed simp

lemma cache_full_memo:
  assumes "cache_full_blocks sha256 r bs a b n g p = Inr (p', r')"
  shows "only_memo r r'"
proof (cases "r' = r")
  case False
  then show ?thesis using assms unfolding cache_full_blocks_def rbind_def
    by (auto split: if_splits sum.splits prod.splits dest: event_keys_memo)
qed simp

lemma marks_cache:
  assumes "cache_blocks sha256 r n m p = Inr (m', p', r')"
  shows "marks_kept (request_id r) m m' \<and> only_memo r r'"
proof (cases "nat (n div int (block_size m)) \<le> ncached (request_id r) m")
  case True
  then show ?thesis using assms by (simp add: cache_blocks_def Let_def split: if_splits)
next
  case False
  with assms obtain q where
    "cache_full_blocks sha256 r (req_blocks (request_id r) m) (ncached (request_id r) m) (nat (n div int (block_size m)))
       (block_size m) (kv_cache_group_id m) p = Inr (q, r')"
    "m' = (ensure_req (request_id r) m)\<lparr>num_cached_block := dict_set (request_id r) (nat (n div int (block_size m))) (num_cached_block m)\<rparr>"
    by (auto simp: cache_blocks_def Let_def res_simps split: if_splits)
  then show ?thesis using cache_full_memo by (auto simp: marks_kept_def is_running_def dict_get_set)
qed

lemma only_for_with_state: "list_all2 (marks_kept rid) (single_type_managers c) ms \<Longrightarrow> only_for rid c (with_state ms p c)"
  by (auto simp: only_for_def with_state_def)

lemma coord_cache_memo:
  assumes "coord_cache_blocks sha256 r n c = Inr (c', r')"
  shows "only_for (request_id r) c c' \<and> only_memo r r'"
proof -
  from assms obtain ms p where e: "each_manager (\<lambda>i m (p, r). rbind (cache_blocks sha256 r n m p) (\<lambda>(m', p', r'). Inr (m', (p', r'))))
      (single_type_managers c) (coord_pool c, r) = Inr (ms, (p, r'))" "c' = with_state ms p c"
    by (auto simp: coord_cache_blocks_def res_simps)
  have "(case (p, r') of (_, r') \<Rightarrow> only_memo r r') \<and> list_all2 (marks_kept (request_id r)) (single_type_managers c) ms"
  proof (rule each_manager_all2 [OF e(1)])
    fix i m s m' s'
    assume "case s of (_, r') \<Rightarrow> only_memo r r'"
      and "(case s of (p, r) \<Rightarrow> rbind (cache_blocks sha256 r n m p) (\<lambda>(m', p', r'). Inr (m', (p', r')))) = Inr (m', s')"
    then show "(case s' of (_, r') \<Rightarrow> only_memo r r') \<and> marks_kept (request_id r) m m'"
      by (cases s) (auto simp: res_simps only_memo_id dest!: marks_cache intro: only_memo_trans)
  qed simp
  then show ?thesis using e(2) by (auto intro: only_for_with_state)
qed

lemma allocate_slots_memo:
  "allocate_slots sha256 r n nc computed look ext delay enc k = Inr (out, k', r') \<Longrightarrow> only_memo r r'"
  unfolding allocate_slots_def Let_def by (auto simp: res_simps dest: coord_cache_memo split: if_splits)

lemma only_for_ops:
  "coord_free rid c = Inr c' \<Longrightarrow> only_for rid c c'"
  "coord_remove_skipped_blocks rid n c = Inr c' \<Longrightarrow> only_for rid c c'"
  "coord_allocate_new_computed_blocks rid rows nl ne c = Inr c' \<Longrightarrow> only_for rid c c'"
  "coord_allocate_new_blocks rid n enc c = Inr (new, c') \<Longrightarrow> only_for rid c c'"
  "coord_cache_blocks sha256 r n c = Inr (c', r') \<Longrightarrow> only_for (request_id r) c c'"
proof -
  show "coord_free rid c = Inr c' \<Longrightarrow> only_for rid c c'"
    by (auto simp: coord_free_def res_simps intro!: only_for_with_state
        dest!: each_manager_all2 [where Q = "\<lambda>_. True" and K = "marks_kept rid"] marks_free)
  show "coord_remove_skipped_blocks rid n c = Inr c' \<Longrightarrow> only_for rid c c'"
    by (auto simp: coord_remove_skipped_blocks_def res_simps intro!: only_for_with_state
        dest!: each_manager_all2 [where Q = "\<lambda>_. True" and K = "marks_kept rid"] marks_remove_skipped)
  show "coord_allocate_new_computed_blocks rid rows nl ne c = Inr c' \<Longrightarrow> only_for rid c c'"
    by (auto simp: coord_allocate_new_computed_blocks_def res_simps intro!: only_for_with_state
        dest!: each_manager_all2 [where Q = "\<lambda>_. True" and K = "marks_kept rid"] marks_adopt)
  show "coord_allocate_new_blocks rid n enc c = Inr (new, c') \<Longrightarrow> only_for rid c c'"
    by (auto simp: coord_allocate_new_blocks_def res_simps intro!: only_for_with_state
        dest!: each_manager_all2 [where Q = "\<lambda>_. True" and K = "marks_kept rid"] marks_new_blocks)
  show "coord_cache_blocks sha256 r n c = Inr (c', r') \<Longrightarrow> only_for (request_id r) c c'"
    using coord_cache_memo by blast
qed


section \<open>The view of the scheduler\<close>

text \<open>What is fixed about the manager: its limits and, with prefix caching, what its constructor sets up.\<close>

definition kv_static :: "int \<Rightarrow> nat \<Rightarrow> kv_manager \<Rightarrow> bool" where
  "kv_static max_len bs k \<longleftrightarrow>
     max_model_len k = max_len \<and> hash_block_size (coord_pool (coordinator k)) = bs \<and> num_kv_cache_groups k = length (single_type_managers (coordinator k)) \<and>
     (log_stats k \<longrightarrow> kv_stats k \<noteq> None) \<and>
     (\<forall>m \<in> set (single_type_managers (coordinator k)). is_cross (kv_cache_spec m) \<or> spec_ok (kv_cache_spec m)) \<and>
     (kv_enable_caching k \<longrightarrow>
        enable_caching (coord_pool (coordinator k)) \<and> coordinator_ok (coordinator k) \<and>
        (\<forall>m \<in> set (single_type_managers (coordinator k)). hash_block_size (coord_pool (coordinator k)) dvd block_size m))"

text \<open>Slots for the first tokens of a request in every group; hashes for its full blocks.\<close>

definition slots_upto :: "string \<Rightarrow> int \<Rightarrow> kv_manager \<Rightarrow> bool" where
  "slots_upto rid n k \<longleftrightarrow> (\<forall>m \<in> set (single_type_managers (coordinator k)). computed_have_slots rid n m)"

definition hashed :: "request \<Rightarrow> kv_manager \<Rightarrow> bool" where
  "hashed r k \<longleftrightarrow>
     (kv_enable_caching k \<longrightarrow>
        length (block_hashes r) = num_tokens r div hash_block_size (coord_pool (coordinator k)) \<and>
        hashes_distinct (block_hashes r) (coordinator k))"

text \<open>The manager knows nothing of a request.\<close>

definition unknown :: "string \<Rightarrow> kv_manager \<Rightarrow> bool" where
  "unknown rid k \<longleftrightarrow> new_request rid (coordinator k)"

definition kv_frame :: "string \<Rightarrow> kv_manager \<Rightarrow> kv_manager \<Rightarrow> bool" where
  "kv_frame rid k k' \<longleftrightarrow>
     k' = k\<lparr>coordinator := coordinator k', kv_stats := kv_stats k'\<rparr> \<and> (kv_stats k \<noteq> None \<longrightarrow> kv_stats k' \<noteq> None) \<and>
     same_pool (coord_pool (coordinator k)) (coord_pool (coordinator k')) \<and>
     same_managers rid (single_type_managers (coordinator k)) (single_type_managers (coordinator k')) \<and>
     only_for rid (coordinator k) (coordinator k')"

lemma slots_upto_mono: "slots_upto rid b k \<Longrightarrow> a \<le> b \<Longrightarrow> slots_upto rid a k"
  by (fastforce simp: slots_upto_def computed_have_slots_def)

lemma kv_frame_refl [simp]: "kv_frame rid k k"
  by (simp add: kv_frame_def same_pool_def same_managers_def same_static_def)

lemma kv_frame_trans:
  assumes "kv_frame rid k k'" and "kv_frame rid k' k''"
  shows "kv_frame rid k k''"
proof -
  have "k'' = k\<lparr>coordinator := coordinator k'', kv_stats := kv_stats k''\<rparr>"
    using assms unfolding kv_frame_def by (cases k; cases k'; cases k'') simp
  with assms show ?thesis unfolding kv_frame_def
    using same_pool_trans same_managers_trans only_for_trans by meson
qed

lemma kv_frame_fields:
  assumes "kv_frame rid k k'"
  shows "max_model_len k' = max_model_len k" "kv_enable_caching k' = kv_enable_caching k"
    "num_kv_cache_groups k' = num_kv_cache_groups k" "log_stats k' = log_stats k"
  using assms unfolding kv_frame_def by (cases k; cases k'; simp)+

lemma same_managers_all:
  assumes "same_managers rid ms ms'"
    and "\<And>m m'. same_static m m' \<Longrightarrow> (\<forall>r. r \<noteq> rid \<longrightarrow> req_blocks r m' = req_blocks r m) \<Longrightarrow> P m \<Longrightarrow> Q m'"
    and "\<forall>m \<in> set ms. P m"
  shows "\<forall>m \<in> set ms'. Q m"
  using assms unfolding same_managers_def by (auto simp: all_set_conv_all_nth)

lemma coordinator_ok_frame:
  assumes "only_for rid c c'" and "same_pool (coord_pool c) (coord_pool c')"
    and "same_managers rid (single_type_managers c) (single_type_managers c')" and "coordinator_ok c"
  shows "coordinator_ok c'"
proof -
  obtain p where c': "c' = with_state (single_type_managers c') p c" using assms(1) unfolding only_for_def by blast
  have same: "coord_class c' = coord_class c" "unitary_spec c' = unitary_spec c" "unitary_block_size c' = unitary_block_size c"
    "coord_dcp c' = coord_dcp c" "coord_pcp c' = coord_pcp c" "coord_use_eagle c' = coord_use_eagle c"
    "attention_groups c' = attention_groups c" "lcm_block_size c' = lcm_block_size c"
    by (subst c', simp add: with_state_def)+
  have pool: "hash_block_size (coord_pool c') = hash_block_size (coord_pool c)" using assms(2) by (simp add: same_pool_def)
  have len: "length (single_type_managers c') = length (single_type_managers c)"
    and st: "\<And>i. i < length (single_type_managers c) \<Longrightarrow> same_static (single_type_managers c ! i) (single_type_managers c' ! i)"
    using assms(3) by (auto simp: same_managers_def)
  have mgr: "kv_cache_group_id (single_type_managers c' ! i) = kv_cache_group_id (single_type_managers c ! i)"
    "mgr_enable_caching (single_type_managers c' ! i) = mgr_enable_caching (single_type_managers c ! i)"
    "kv_cache_spec (single_type_managers c' ! i) = kv_cache_spec (single_type_managers c ! i)"
    "block_size (single_type_managers c' ! i) = block_size (single_type_managers c ! i)" if "i < length (single_type_managers c)" for i
    using st [OF that] by (auto simp: same_static_def)
  have grp: "group_ok c' = group_ok c" by (simp add: group_ok_def fun_eq_iff same pool len)
  have "hybrid_ok c' = hybrid_ok c" by (simp add: hybrid_ok_def same pool grp)
  moreover have "length (single_type_managers c) = 1 \<Longrightarrow> 0 < length (single_type_managers c)" by simp
  ultimately show ?thesis using assms(4) unfolding coordinator_ok_def same pool len
    by (cases "coord_class c") (auto simp: mgr Let_def)
qed

lemma kv_frame_static:
  assumes f: "kv_frame rid k k'" and s: "kv_static n bs k"
  shows "kv_static n bs k'"
proof -
  let ?ms = "single_type_managers (coordinator k)" and ?ms' = "single_type_managers (coordinator k')"
  have pool: "enable_caching (coord_pool (coordinator k')) = enable_caching (coord_pool (coordinator k))"
    "hash_block_size (coord_pool (coordinator k')) = hash_block_size (coord_pool (coordinator k))"
    using f by (auto simp: kv_frame_def same_pool_def)
  have sm: "same_managers rid ?ms ?ms'" using f by (simp add: kv_frame_def)
  then have len: "length ?ms' = length ?ms" by (simp add: same_managers_def)
  have "\<forall>m \<in> set ?ms'. is_cross (kv_cache_spec m) \<or> spec_ok (kv_cache_spec m)"
    by (rule same_managers_all [OF sm]) (use s in \<open>auto simp: kv_static_def same_static_def\<close>)
  moreover have "\<forall>m \<in> set ?ms'. hash_block_size (coord_pool (coordinator k)) dvd block_size m" if "kv_enable_caching k"
    by (rule same_managers_all [OF sm]) (use s that in \<open>auto simp: kv_static_def same_static_def\<close>)
  moreover have "coordinator_ok (coordinator k')" if "kv_enable_caching k"
    using f s that coordinator_ok_frame unfolding kv_frame_def kv_static_def by blast
  moreover have "kv_stats k \<noteq> None \<longrightarrow> kv_stats k' \<noteq> None" using f by (simp add: kv_frame_def)
  ultimately show ?thesis using s pool len kv_frame_fields [OF f] by (simp add: kv_static_def)
qed

lemma kv_frame_other:
  assumes "kv_frame rid k k'" and "rid' \<noteq> rid"
  shows "slots_upto rid' n k \<Longrightarrow> slots_upto rid' n k'" "unknown rid' k \<Longrightarrow> unknown rid' k'"
proof -
  let ?ms = "single_type_managers (coordinator k)" and ?ms' = "single_type_managers (coordinator k')"
  have sm: "same_managers rid ?ms ?ms'" and mk: "list_all2 (marks_kept rid) ?ms ?ms'"
    using assms(1) by (simp_all add: kv_frame_def only_for_def)
  show "slots_upto rid' n k \<Longrightarrow> slots_upto rid' n k'" unfolding slots_upto_def
    by (rule same_managers_all [OF sm]) (use assms(2) in \<open>auto simp: computed_have_slots_def same_static_def\<close>)
  show "unknown rid' k'" if "unknown rid' k"
  proof -
    have "req_blocks rid' (?ms' ! i) = []" "\<not> is_running rid' (?ms' ! i)" if i: "i < length ?ms'" for i
      using \<open>unknown rid' k\<close> assms(2) sm mk i
      by (auto simp: unknown_def new_request_def same_managers_def list_all2_conv_all_nth marks_kept_def)
    then show ?thesis by (auto simp: unknown_def new_request_def all_set_conv_all_nth)
  qed
qed

lemma kv_frame_hashed:
  assumes f: "kv_frame rid k k'" and h: "hashed r k"
  shows "hashed r k'"
proof -
  have sm: "same_managers rid (single_type_managers (coordinator k)) (single_type_managers (coordinator k'))"
    and pool: "hash_block_size (coord_pool (coordinator k')) = hash_block_size (coord_pool (coordinator k))"
    using f by (auto simp: kv_frame_def same_pool_def)
  have "hashes_distinct (block_hashes r) (coordinator k')" if "kv_enable_caching k"
    unfolding hashes_distinct_def pool
    by (rule same_managers_all [OF sm]) (use h that in \<open>auto simp: hashed_def hashes_distinct_def same_static_def\<close>)
  then show ?thesis using h pool kv_frame_fields [OF f] by (auto simp: hashed_def)
qed

lemma kv_free_step:
  assumes "coord_inv (coordinator k)"
  shows "\<exists>k'. kv_free r k = Inr k' \<and> coord_inv (coordinator k') \<and> kv_frame (request_id r) k k' \<and> unknown (request_id r) k'"
proof -
  from assms obtain xs where rep: "pool_rep (coord_pool (coordinator k)) xs"
    by (auto simp: coord_inv_def mgrs_inv_def pool_inv_def)
  from coord_free_spec [OF assms rep, of "request_id r"] obtain ms p freed where
    f: "coord_free (request_id r) (coordinator k) = Inr (with_state ms p (coordinator k))" "mgrs_inv ms p"
      "same_pool (coord_pool (coordinator k)) p" "length ms = length (single_type_managers (coordinator k))"
      "\<forall>i < length ms. same_static (single_type_managers (coordinator k) ! i) (ms ! i) \<and> req_blocks (request_id r) (ms ! i) = [] \<and>
         \<not> is_running (request_id r) (ms ! i) \<and>
         (\<forall>r'. r' \<noteq> request_id r \<longrightarrow> req_blocks r' (ms ! i) = req_blocks r' (single_type_managers (coordinator k) ! i))" by blast
  note only = only_for_ops(1) [OF f(1)]
  show ?thesis using f only
    by (auto simp: kv_free_def kv_frame_def same_managers_def unknown_def new_request_def all_set_conv_all_nth)
qed

lemma allocate_only_for:
  assumes run: "allocate_slots sha256 r n nc new look ext delay enc k = Inr (out, k', r')"
  shows "only_for (request_id r) (coordinator k) (coordinator k')"
proof -
  let ?rid = "request_id r"
  define computed where "computed = (case new of Some b \<Rightarrow> b | None \<Rightarrow> empty_kv_cache_blocks k)"
  define nl where "nl = num_computed_tokens r + nc"
  define tc where "tc = min (nl + ext) (max_model_len k)"
  define need where "need = min (tc + n + look) (max_model_len k)"
  define adopt where "adopt c = (if \<not> shared_empty computed \<or> 0 < ext
      then coord_allocate_new_computed_blocks ?rid (kv_rows computed) nl ext c else Inr c)" for c
  have "\<not> (n = 0 \<and> ext = 0)" using run by (auto simp: allocate_slots_def)
  note def = run [unfolded allocate_slots_def if_not_P [OF this] Let_def, folded computed_def, folded nl_def, folded tc_def, folded need_def]
  obtain c1 x where c1: "coord_remove_skipped_blocks ?rid tc (coordinator k) = Inr c1"
    "coord_get_num_blocks_to_allocate ?rid need (kv_rows computed) enc (nl + ext) c1 = Inr x"
    using def by (auto simp: res_simps)
  have o1: "only_for ?rid (coordinator k) c1" by (rule only_for_ops(2) [OF c1(1)])
  show ?thesis
  proof (cases "get_num_free_blocks (coord_pool c1) < x")
    case True
    then show ?thesis using def c1 o1 by auto
  next
    case False
    then obtain c2 new_blocks c3 where
      c: "adopt c1 = Inr c2" "coord_allocate_new_blocks ?rid need enc c2 = Inr (new_blocks, c3)"
      and tail: "(if \<not> kv_enable_caching k \<or> delay
          then Inr (Some (create_kv_cache_blocks new_blocks k), k\<lparr>coordinator := c3\<rparr>, r)
          else rbind (coord_cache_blocks sha256 r (min (tc + n) (int (num_tokens r))) c3) (\<lambda>(c4, r').
            Inr (Some (create_kv_cache_blocks new_blocks k), k\<lparr>coordinator := c4\<rparr>, r'))) = Inr (out, k', r')"
      using def c1 unfolding adopt_def by (auto simp: res_simps)
    have "only_for ?rid c1 c2" using c(1) only_for_ops(3) unfolding adopt_def by (auto split: if_splits)
    then have o3: "only_for ?rid (coordinator k) c3"
      using o1 only_for_ops(4) [OF c(2)] only_for_trans by blast
    show ?thesis
    proof (cases "\<not> kv_enable_caching k \<or> delay")
      case True
      then show ?thesis using tail o3 by auto
    next
      case False
      with tail obtain c4 where "coord_cache_blocks sha256 r (min (tc + n) (int (num_tokens r))) c3 = Inr (c4, r')"
        "k' = k\<lparr>coordinator := c4\<rparr>" by (auto simp: res_simps)
      then show ?thesis using only_for_trans [OF o3 only_for_ops(5)] by simp
    qed
  qed
qed

text \<open>The call for slots: what it leaves, and what a granted request has.\<close>

lemma allocate_call:
  assumes inv: "coord_inv (coordinator k)" and pre: "slots_pre r n nc computed look 0 delay k"
    and comp: "computed = (case new of Some b \<Rightarrow> b | None \<Rightarrow> empty_kv_cache_blocks k)" and st: "kv_static max_len bs k"
  shows "\<exists>out k' memo. allocate_slots sha256 r n nc new look 0 delay enc k =
      Inr (out, k', r\<lparr>prompt_embeds_per_block_hashes := memo\<rparr>) \<and> coord_inv (coordinator k') \<and> kv_frame (request_id r) k k' \<and>
    (out = None \<longrightarrow> slots_pre r n nc computed look 0 delay k') \<and>
    (out \<noteq> None \<longrightarrow> slots_upto (request_id r) (num_computed_tokens r + nc + n) k')"
proof -
  let ?rid = "request_id r" and ?c = "num_computed_tokens r + nc"
  define need where "need = min (?c + 0 + n + look) (max_model_len k)"
  obtain out k' r' memo where
    a: "allocate_slots sha256 r n nc new look 0 delay enc k = Inr (out, k', r')"
      "coord_inv (coordinator k')" "r' = r\<lparr>prompt_embeds_per_block_hashes := memo\<rparr>"
      "same_managers ?rid (single_type_managers (coordinator k)) (single_type_managers (coordinator k'))"
      "k' = k\<lparr>coordinator := coordinator k'\<rparr>" "same_pool (coord_pool (coordinator k)) (coord_pool (coordinator k'))"
      "out = None \<longrightarrow> slots_pre r n nc computed look 0 delay k'"
    and got: "case out of
       None \<Rightarrow> \<exists>n'. coord_get_num_blocks_to_allocate ?rid need (kv_rows computed) enc (?c + 0) (coordinator k') = Inr n' \<and>
           get_num_free_blocks (coord_pool (coordinator k')) < n'
     | Some _ \<Rightarrow> \<forall>m \<in> set (single_type_managers (coordinator k')). slots_for need enc m \<le> int (length (req_blocks ?rid m))"
    using allocate_slots_spec [OF inv comp pre need_def, of sha256 enc] by blast
  have stats: "kv_stats k' = kv_stats k" by (subst a(5)) simp
  have "k' = k\<lparr>coordinator := coordinator k', kv_stats := kv_stats k'\<rparr>" unfolding stats by (subst a(5)) simp
  then have frame: "kv_frame ?rid k k'" unfolding kv_frame_def using a(4,6) stats allocate_only_for [OF a(1)] by simp
  have "slots_upto ?rid (?c + n) k'" if "out \<noteq> None"
  proof -
    have spec: "\<forall>m \<in> set (single_type_managers (coordinator k')). is_cross (kv_cache_spec m) \<or> spec_ok (kv_cache_spec m)"
      using kv_frame_static [OF frame st] by (simp add: kv_static_def)
    have bs: "0 < block_size m" if "m \<in> set (single_type_managers (coordinator k'))" for m
      using a(2) that mgr_invD(4) unfolding coord_inv_def mgrs_inv_def by (metis in_set_conv_nth)
    have le: "?c + n \<le> need" using pre by (simp add: need_def slots_pre_def Let_def)
    have "?c + n \<le> int (length (req_blocks ?rid m)) * int (block_size m)"
      if "m \<in> set (single_type_managers (coordinator k'))" "\<not> is_cross (kv_cache_spec m)" for m
    proof -
      have "\<forall>m \<in> set (single_type_managers (coordinator k')). slots_for need enc m \<le> int (length (req_blocks ?rid m))"
        using got \<open>out \<noteq> None\<close> by auto
      from bspec [OF this that(1)] that(2) have "cdiv need (int (block_size m)) \<le> int (length (req_blocks ?rid m))"
        by (simp add: slots_for_def)
      then show ?thesis using bs [OF that(1)] le by (simp add: cdiv_le_iff)
    qed
    with spec show ?thesis by (auto simp: slots_upto_def computed_have_slots_def)
  qed
  with a frame show ?thesis by blast
qed

text \<open>A request that gets no slots stays unknown to the manager.\<close>

lemma allocate_none_unknown:
  assumes inv: "coord_inv (coordinator k)" and un: "unknown (request_id r) k"
    and run: "allocate_slots sha256 r n nc new look ext delay enc k = Inr (None, k', r')"
  shows "unknown (request_id r) k'"
proof -
  let ?rid = "request_id r" and ?tc = "min (num_computed_tokens r + nc + ext) (max_model_len k)"
  have "\<not> (n = 0 \<and> ext = 0)" using run by (auto simp: allocate_slots_def)
  note def = run [unfolded allocate_slots_def if_not_P [OF this] Let_def]
  have "coord_remove_skipped_blocks ?rid ?tc (coordinator k) = Inr (coordinator k')"
    using def by (auto simp: res_simps split: if_splits)
  note c1 = this
  from inv obtain xs where rep: "pool_rep (coord_pool (coordinator k)) xs"
    by (auto simp: coord_inv_def mgrs_inv_def pool_inv_def)
  from coord_remove_skipped_spec [OF inv rep, of ?rid ?tc] obtain ms p where
    ms: "coord_remove_skipped_blocks ?rid ?tc (coordinator k) = Inr (with_state ms p (coordinator k))"
    "length ms = length (single_type_managers (coordinator k))"
    "\<forall>i < length ms. num_cached_block (ms ! i) = num_cached_block (single_type_managers (coordinator k) ! i) \<and>
       length (req_blocks ?rid (ms ! i)) = length (req_blocks ?rid (single_type_managers (coordinator k) ! i))" by blast
  have "single_type_managers (coordinator k') = ms" using c1 ms(1) by (metis sum.inject(2) with_state_sel(1))
  then show ?thesis using un ms(2,3) by (auto simp: unknown_def new_request_def is_running_def all_set_conv_all_nth)
qed

lemma lookup_call:
  assumes inv: "coord_inv (coordinator k)" and st: "kv_static max_len bs k" and un: "unknown (request_id r) k"
    and h: "hashed r k" and r: "0 < num_tokens r" "num_computed_tokens r = 0"
  shows "\<exists>b n k'. get_computed_blocks r k = Some (Inr (b, n, k')) \<and> 0 \<le> n \<and> n < int (num_tokens r) \<and>
    coord_inv (coordinator k') \<and> kv_frame (request_id r) k k' \<and> unknown (request_id r) k' \<and>
    (\<forall>num_new look. 0 < num_new \<longrightarrow> 0 \<le> look \<longrightarrow> n + num_new \<le> max_len \<longrightarrow> slots_pre r num_new n b look 0 False k')"
proof -
  have st': "max_model_len k = max_len" "num_kv_cache_groups k = length (single_type_managers (coordinator k))"
    "log_stats k \<longrightarrow> kv_stats k \<noteq> None"
    "\<forall>m \<in> set (single_type_managers (coordinator k)). is_cross (kv_cache_spec m) \<or> spec_ok (kv_cache_spec m)"
    using st by (auto simp: kv_static_def)
  show ?thesis
  proof (cases "kv_enable_caching k \<and> \<not> skip_reading_prefix_cache r")
    case True
    then have c: "kv_enable_caching k" "\<not> skip_reading_prefix_cache r" "coordinator_ok (coordinator k)"
      "enable_caching (coord_pool (coordinator k))"
      "\<forall>m \<in> set (single_type_managers (coordinator k)). hash_block_size (coord_pool (coordinator k)) dvd block_size m"
      "length (block_hashes r) = num_tokens r div hash_block_size (coord_pool (coordinator k))"
      "hashes_distinct (block_hashes r) (coordinator k)"
      using st h by (auto simp: kv_static_def hashed_def)
    from lookup_meets_slots_pre [OF inv c(3,1,2) r un [unfolded unknown_def] c(6,7,4) st'(2) c(5) st'(3)] obtain b n k' where
      l: "get_computed_blocks r k = Some (Inr (b, n, k'))" "0 \<le> n" "n < int (num_tokens r)" "coordinator k' = coordinator k"
        "\<forall>num_new look delay. 0 < num_new \<longrightarrow> 0 \<le> look \<longrightarrow> n + num_new \<le> max_model_len k \<longrightarrow> slots_pre r num_new n b look 0 delay k'" by blast
    have "k' = k\<lparr>coordinator := coordinator k', kv_stats := kv_stats k'\<rparr> \<and> (kv_stats k \<noteq> None \<longrightarrow> kv_stats k' \<noteq> None)"
      using l(1) by (auto simp: get_computed_blocks_def split: if_splits option.splits sum.splits prod.splits)
    then have "kv_frame (request_id r) k k'"
      by (simp add: kv_frame_def l(4) same_pool_def same_managers_def same_static_def)
    with l inv un st'(1) show ?thesis by (intro exI [of _ b] exI [of _ n] exI [of _ k']) (simp add: unknown_def)
  next
    case False
    then have run: "get_computed_blocks r k = Some (Inr (empty_kv_cache_blocks k, 0, k))"
      by (auto simp: get_computed_blocks_def)
    have slots: "\<forall>m \<in> set (single_type_managers (coordinator k)). computed_have_slots (request_id r) 0 m"
      using st'(4) by (auto simp: computed_have_slots_def)
    have cache: "enable_caching (coord_pool (coordinator k)) \<and> 0 < hash_block_size (coord_pool (coordinator k)) \<and>
        length (block_hashes r) = num_tokens r div hash_block_size (coord_pool (coordinator k)) \<and>
        (\<forall>m \<in> set (single_type_managers (coordinator k)). \<not> is_cross (kv_cache_spec m) \<and>
           hash_block_size (coord_pool (coordinator k)) dvd block_size m \<and> 0 \<le> kv_cache_group_id m \<and> kv_cache_group_id m < 2 ^ 32)"
      if "kv_enable_caching k"
      using that st h unfolding kv_static_def hashed_def coordinator_ok_def all_set_conv_all_nth by auto
    have "slots_pre r num_new 0 (empty_kv_cache_blocks k) look 0 False k"
      if "0 < num_new" "0 \<le> look" "0 + num_new \<le> max_len" for num_new look
      unfolding slots_pre_def Let_def using that r(2) st'(1,2) slots cache by (simp add: empty_kv_cache_blocks_def)
    then show ?thesis using run r(1) inv un by (intro exI [of _ "empty_kv_cache_blocks k"] exI [of _ 0] exI [of _ k]) simp
  qed
qed

lemma can_fit_call:
  assumes inv: "coord_inv (coordinator k)" and pre: "slots_pre r num_new n b look 0 delay k"
    and r: "num_computed_tokens r = 0" "n \<le> int (num_tokens r)"
  shows "\<exists>x. can_fit_full_sequence r n (Some b) 0 enc k = Inr x"
proof -
  from inv obtain xs where rep: "pool_rep (coord_pool (coordinator k)) xs"
    by (auto simp: coord_inv_def mgrs_inv_def pool_inv_def)
  have basic: "0 \<le> n" "n \<le> max_model_len k" "length (kv_rows b) = length (single_type_managers (coordinator k))"
    using pre r(1) by (auto simp: slots_pre_def Let_def)
  let ?plain = "shared_empty b"
  have kinds: "if ?plain then (0::int) = 0 \<and> (\<forall>row \<in> set (kv_rows b). row = []) \<and>
        (\<forall>m \<in> set (single_type_managers (coordinator k)). computed_have_slots (request_id r) n m)
      else (\<forall>i < length (single_type_managers (coordinator k)).
          admissible (request_id r) n (kv_rows b ! i) (single_type_managers (coordinator k) ! i) (coord_pool (coordinator k))) \<and>
        rows_disjoint (null_block (coord_pool (coordinator k))) (kv_rows b) \<and> ((0::int) = 0 \<or> length (single_type_managers (coordinator k)) \<le> 1)"
    using pre r(1) by (simp add: slots_pre_def Let_def split: if_splits)
  have "n + 0 \<le> min (int (num_tokens r)) (max_model_len k)" using basic(2) r(2) by simp
  from grant_slots [OF inv rep basic(3,1) order_refl this kinds, of enc] obtain x where
    "coord_get_num_blocks_to_allocate (request_id r) (min (int (num_tokens r)) (max_model_len k)) (kv_rows b) enc (n + 0) (coordinator k) = Inr x"
    by blast
  then show ?thesis using r(1) basic(2) by (simp add: can_fit_full_sequence_def Let_def)
qed

end
