(* ===== verification/Running_Phase.thy ===== *)
theory Running_Phase
  imports Scheduler KV_View
begin

text \<open>
  The running half of a scheduling step is safe: it composes the block manager, the encoder
  cache, the waiting queue and the token budget. The invariant of the loop says that every
  running request can be scheduled, that what was handed out in this step adds up, and that
  preempted requests hold nothing.
\<close>

section \<open>Slots for the next tokens\<close>

definition in_range :: "scheduler_params \<Rightarrow> request \<Rightarrow> bool" where
  "in_range ps r \<longleftrightarrow>
     0 \<le> num_computed_tokens r \<and> num_computed_tokens r \<le> sched_max_model_len ps - 1 \<and>
     num_computed_tokens r \<le> int (num_tokens r) + num_output_placeholders r"

lemma allocate_step:
  assumes inv: "coord_inv (coordinator k)" and st: "kv_static (sched_max_model_len ps) (sched_block_size ps) k" and r: "in_range ps r"
    and slots: "slots_upto (request_id r) (num_computed_tokens r) k" and hash: "hashed r k"
    and n: "0 < n" "num_computed_tokens r + n \<le> sched_max_model_len ps - 1" and look: "0 \<le> num_lookahead_tokens ps"
  shows "\<exists>out k' memo. allocate_slots sha256 r n 0 None (num_lookahead_tokens ps) 0 False 0 k =
      Inr (out, k', r\<lparr>prompt_embeds_per_block_hashes := memo\<rparr>) \<and>
    coord_inv (coordinator k') \<and> kv_frame (request_id r) k k' \<and>
    slots_upto (request_id r) (num_computed_tokens r + (if out = None then 0 else n)) k'"
proof -
  let ?e = "empty_kv_cache_blocks k"
  have cache: "enable_caching (coord_pool (coordinator k)) \<and> 0 < hash_block_size (coord_pool (coordinator k)) \<and>
      (\<forall>m \<in> set (single_type_managers (coordinator k)). \<not> is_cross (kv_cache_spec m) \<and>
         hash_block_size (coord_pool (coordinator k)) dvd block_size m \<and> 0 \<le> kv_cache_group_id m \<and> kv_cache_group_id m < 2 ^ 32)"
    if "kv_enable_caching k"
    using that st unfolding kv_static_def coordinator_ok_def all_set_conv_all_nth by auto
  have pre: "slots_pre r n 0 ?e (num_lookahead_tokens ps) 0 False k"
    using st r slots hash n look cache
    by (simp add: slots_pre_def Let_def kv_static_def in_range_def slots_upto_def hashed_def empty_kv_cache_blocks_def)
  have comp: "?e = (case None of Some b \<Rightarrow> b | None \<Rightarrow> ?e)" by simp
  from allocate_call [OF inv pre comp st, of sha256 0] obtain out k' memo where
    a: "allocate_slots sha256 r n 0 None (num_lookahead_tokens ps) 0 False 0 k =
        Inr (out, k', r\<lparr>prompt_embeds_per_block_hashes := memo\<rparr>)" "coord_inv (coordinator k')" "kv_frame (request_id r) k k'"
      "out = None \<longrightarrow> slots_pre r n 0 ?e (num_lookahead_tokens ps) 0 False k'"
      "out \<noteq> None \<longrightarrow> slots_upto (request_id r) (num_computed_tokens r + 0 + n) k'" by blast
  have "slots_upto (request_id r) (num_computed_tokens r + (if out = None then 0 else n)) k'"
    using a(4,5) by (cases out) (simp_all add: slots_pre_def Let_def slots_upto_def empty_kv_cache_blocks_def)
  with a(1-3) show ?thesis by blast
qed

section \<open>The invariant of the loop\<close>

definition params_ok :: "scheduler_params \<Rightarrow> bool" where
  "params_ok ps \<longleftrightarrow>
     0 \<le> num_lookahead_tokens ps \<and> 0 \<le> max_num_scheduled_tokens ps \<and> 0 \<le> max_encoder_input_tokens ps \<and>
     (need_mamba_block_aligned_split ps \<longrightarrow> 0 < cache_block_size ps)"

text \<open>
  A request as it enters the scheduler, of a length below the model's, and a running request
  that the loop can serve.
\<close>

definition well_formed :: "(string \<Rightarrow> int) \<Rightarrow> scheduler_params \<Rightarrow> kv_manager \<Rightarrow> request \<Rightarrow> bool" where
  "well_formed size_of ps k r \<longleftrightarrow>
     sized size_of r \<and> items_ok (mm_features r) \<and>
     (is_encoder_decoder (encoder_side ps) \<longrightarrow> (\<forall>f \<in> set (mm_features r). offset (mm_position f) = 0)) \<and>
     hashed r k \<and> 0 \<le> num_output_placeholders r \<and> 0 < num_tokens r \<and> int (num_tokens r) < sched_max_model_len ps"

definition ready :: "(string \<Rightarrow> int) \<Rightarrow> scheduler_params \<Rightarrow> kv_manager \<Rightarrow> request \<Rightarrow> bool" where
  "ready size_of ps k r \<longleftrightarrow>
     status r = RUNNING \<and> well_formed size_of ps k r \<and> in_range ps r \<and> slots_upto (request_id r) (num_computed_tokens r) k"

lemma well_formed_frame: "kv_frame rid k k' \<Longrightarrow> well_formed size_of ps k r \<Longrightarrow> well_formed size_of ps k' r"
  using kv_frame_hashed by (auto simp: well_formed_def)

lemma ready_frame:
  assumes "kv_frame rid k k'" and "ready size_of ps k r" and "request_id r \<noteq> rid"
  shows "ready size_of ps k' r"
  using assms well_formed_frame [OF assms(1)] kv_frame_other(1) [OF assms(1)] by (simp add: ready_def)

definition served :: "(string \<Rightarrow> int) \<Rightarrow> ('m \<Rightarrow> bool) \<Rightarrow> scheduler_params \<Rightarrow> ('m, 'z) scheduler_scheme \<Rightarrow> bool" where
  "served size_of ok ps s \<longleftrightarrow>
     coord_inv (coordinator (kv_cache_manager s)) \<and> kv_static (sched_max_model_len ps) (sched_block_size ps) (kv_cache_manager s) \<and> ok (enc_manager s) \<and>
     (\<forall>r \<in> set (running s). ready size_of ps (kv_cache_manager s) r)"

definition drafted :: "('m, 'z) running_pass_scheme \<Rightarrow> string \<Rightarrow> int list" where
  "drafted p rid = (case dict_get (scheduled_spec_decode_tokens p) rid of None \<Rightarrow> [] | Some ts \<Rightarrow> ts)"

text \<open>Positions up to here are tokens the request has, or just the drafts after them.\<close>

definition token_bound :: "int \<Rightarrow> request \<Rightarrow> int list \<Rightarrow> bool" where
  "token_bound c r ts \<longleftrightarrow>
     c \<le> int (num_tokens r) + num_output_placeholders r + int (length ts) \<and>
     (ts \<noteq> [] \<longrightarrow> c = int (num_tokens r) + num_output_placeholders r + int (length ts))"

text \<open>
  What a scheduled request got: a positive number of tokens within the model's length, no more than
  the tokens it has and the drafts that were scheduled with it, the slots for them in every
  cache group, and the encoder outputs these tokens read.
\<close>

definition granted ::
  "('m \<Rightarrow> string \<Rightarrow> string \<Rightarrow> bool) \<Rightarrow> scheduler_params \<Rightarrow> ('m, 'z) running_pass_scheme \<Rightarrow> request \<Rightarrow> bool" where
  "granted has ps p r \<longleftrightarrow>
     (\<exists>n b. dict_get (num_scheduled_tokens p) (request_id r) = Some n \<and>
        dict_get (req_to_new_blocks p) (request_id r) = Some b \<and>
        0 < n \<and> num_computed_tokens r + n \<le> sched_max_model_len ps - 1 \<and>
        token_bound (num_computed_tokens r + n) r (drafted p (request_id r)) \<and>
        slots_upto (request_id r) (num_computed_tokens r + n) (kv_cache_manager p) \<and>
        (\<not> is_encoder_decoder (encoder_side ps) \<longrightarrow>
           (\<forall>f \<in> set (mm_features r). needs f (num_computed_tokens r) n \<longrightarrow>
              has (enc_manager p) (request_id r) (mm_identifier f))) \<and>
        (\<forall>ins. dict_get (scheduled_encoder_inputs p) (request_id r) = Some ins \<longrightarrow>
           set ins \<subseteq> {..<length (mm_features r)}))"

definition scheduled_part :: "'m running_pass \<Rightarrow> request list" where
  "scheduled_part p = filter (\<lambda>r. object_id r \<in> set (scheduled_running_reqs p)) (running p)"

definition token_sum :: "(string, int) pydict \<Rightarrow> int" where
  "token_sum d = sum_list (map snd d)"

text \<open>The step's books: who is scheduled, and that the tokens handed out and left add up.\<close>

definition books :: "('m \<Rightarrow> string \<Rightarrow> string \<Rightarrow> bool) \<Rightarrow> scheduler_params \<Rightarrow> int \<Rightarrow> 'm running_pass \<Rightarrow> bool" where
  "books has ps budget p \<longleftrightarrow>
     distinct (scheduled_running_reqs p) \<and> set (scheduled_running_reqs p) \<subseteq> object_id ` set (running p) \<and>
     (\<forall>r \<in> set (scheduled_part p). granted has ps p r) \<and>
     dict_ok (num_scheduled_tokens p) \<and>
     set (dict_keys (num_scheduled_tokens p)) = request_id ` set (scheduled_part p) \<and>
     set (dict_keys (scheduled_encoder_inputs p)) \<subseteq> request_id ` set (scheduled_part p) \<and>
     set (dict_keys (scheduled_spec_decode_tokens p)) \<subseteq> request_id ` set (scheduled_part p) \<and>
     token_sum (num_scheduled_tokens p) + token_budget p = budget \<and> 0 \<le> token_budget p \<and> 0 \<le> encoder_budget p"

text \<open>What identifies a request, and the request without the fields that a scheduling step may change.\<close>

type_synonym person = "nat \<times> string \<times> request"

definition essence :: "request \<Rightarrow> request" where
  "essence r = r\<lparr>status := WAITING, prompt_embeds_per_block_hashes := [], spec_token_ids := [], num_computed_tokens := 0,
     num_cached_tokens := 0, num_preemptions := 0, num_external_computed_tokens := 0, is_prefill_chunk := False\<rparr>"

definition who :: "request \<Rightarrow> person" where
  "who r = (object_id r, request_id r, essence r)"

lemma who_same [simp]:
  "who (r\<lparr>status := st\<rparr>) = who r" "who (r\<lparr>prompt_embeds_per_block_hashes := memo\<rparr>) = who r"
  "who (r\<lparr>spec_token_ids := ts\<rparr>) = who r" "who (r\<lparr>num_computed_tokens := n\<rparr>) = who r"
  "who (r\<lparr>num_cached_tokens := n\<rparr>) = who r" "who (r\<lparr>num_preemptions := n\<rparr>) = who r"
  "who (r\<lparr>num_external_computed_tokens := n\<rparr>) = who r" "who (r\<lparr>is_prefill_chunk := b\<rparr>) = who r"
  by (simp_all add: who_def essence_def)

definition identified :: "request set \<Rightarrow> person multiset \<Rightarrow> 'm running_pass \<Rightarrow> bool" where
  "identified idle people p \<longleftrightarrow>
     mset (map who (running p @ preempted_reqs p)) = people \<and>
     distinct (map object_id (running p @ preempted_reqs p)) \<and> distinct (map request_id (running p @ preempted_reqs p)) \<and>
     request_id ` idle \<inter> request_id ` set (running p @ preempted_reqs p) = {}"

definition freed :: "(string \<Rightarrow> int) \<Rightarrow> scheduler_params \<Rightarrow> request set \<Rightarrow> waiting_queues \<Rightarrow> 'm running_pass \<Rightarrow> bool" where
  "freed size_of ps idle w p \<longleftrightarrow>
     (\<forall>v \<in> set (preempted_reqs p). status v = PREEMPTED \<and> num_computed_tokens v = 0) \<and>
     (\<forall>r \<in> idle \<union> set (preempted_reqs p). unknown (request_id r) (kv_cache_manager p) \<and> well_formed size_of ps (kv_cache_manager p) r) \<and>
     queues p = w\<lparr>waiting := fold prepend_request (preempted_reqs p) (waiting w)\<rparr>"

lemma token_sum_del:
  "dict_ok d \<Longrightarrow> dict_get d k = Some v \<Longrightarrow> token_sum (dict_del k d) = token_sum d - v"
proof (induction d)
  case (Cons a d)
  obtain k' v' where a: "a = (k', v')" by (cases a)
  have ok: "dict_ok d" "k' \<notin> set (dict_keys d)" using Cons.prems a by (auto simp: dict_ok_def dict_keys_def)
  show ?case
  proof (cases "k' = k")
    case True
    with Cons.prems ok dict_del_absent [of k d] a show ?thesis
      by (simp add: dict_del_def token_sum_def dict_get_Cons)
  next
    case False
    with Cons.IH [OF ok(1)] Cons.prems a show ?thesis by (simp add: dict_del_def token_sum_def dict_get_Cons)
  qed
qed simp

lemma token_sum_set: "k \<notin> set (dict_keys d) \<Longrightarrow> token_sum (dict_set k v d) = token_sum d + v"
  by (simp add: dict_set_absent token_sum_def)

lemma sum_encoder_embeds_nonneg:
  assumes "sized size_of r" and "set ins \<subseteq> {..<length (mm_features r)}"
  shows "\<exists>e. sum_encoder_embeds r ins = Inr e \<and> 0 \<le> e"
proof -
  have "\<exists>e. fold_res (\<lambda>i acc. rbind (get_num_encoder_embeds r i) (\<lambda>n. Inr (acc + n))) ins a = Inr e \<and> 0 \<le> e"
    if "0 \<le> a" for a using assms(2) that
  proof (induction ins arbitrary: a)
    case (Cons i ins)
    then show ?case using sizedD [OF assms(1), of i] by simp
  qed simp
  then show ?thesis by (simp add: sum_encoder_embeds_def)
qed

section \<open>Preemption\<close>

lemma lowest_priority_in:
  assumes "rs \<noteq> []"
  shows "lowest_priority rs \<in> set rs"
proof -
  let ?f = "\<lambda>best x. if preempt_key best < preempt_key x then x else best"
  have "foldl ?f b xs \<in> insert b (set xs)" for b xs
  proof (induction xs arbitrary: b)
    case (Cons x xs)
    from Cons.IH [of "?f b x"] show ?case by (cases "preempt_key b < preempt_key x") (simp, simp, blast)
  qed simp
  then have "lowest_priority rs \<in> insert (hd rs) (set (tl rs))" unfolding lowest_priority_def .
  moreover have "insert (hd rs) (set (tl rs)) = set rs" using assms by (cases rs) simp_all
  ultimately show ?thesis by simp
qed

lemma without_absent: "object_id v \<notin> object_id ` set rs \<Longrightarrow> without [v] rs = rs"
  by (auto simp: without_def intro!: filter_True) (metis image_eqI)

lemma butlast_without:
  assumes "distinct_objects rs" and "rs \<noteq> []"
  shows "butlast rs = without [last rs] rs"
proof (cases rs rule: rev_cases)
  case (snoc ys y)
  then have "object_id y \<notin> object_id ` set ys" using assms(1) by (simp add: distinct_objects_def)
  then have "without [y] ys = ys" by (rule without_absent)
  then show ?thesis using snoc by (simp add: without_def)
qed (use assms(2) in simp)

lemma set_without [simp]: "set (without [v] rs) = {r \<in> set rs. object_id r \<noteq> object_id v}"
  by (auto simp: without_def)

lemma granted_running [simp]: "granted has ps (p\<lparr>running := rs\<rparr>) r = granted has ps p r"
  by (simp add: granted_def drafted_def)

lemma set_scheduled_part: "set (scheduled_part p) = {r \<in> set (running p). object_id r \<in> set (scheduled_running_reqs p)}"
  by (simp add: scheduled_part_def)

lemma books_without:
  assumes "books has ps budget p" and "object_id v \<notin> set (scheduled_running_reqs p)"
  shows "books has ps budget (p\<lparr>running := without [v] (running p)\<rparr>)"
proof -
  have part: "set (scheduled_part (p\<lparr>running := without [v] (running p)\<rparr>)) = set (scheduled_part p)"
    using assms(2) by (auto simp: set_scheduled_part)
  have "set (scheduled_running_reqs p) \<subseteq> object_id ` {r \<in> set (running p). object_id r \<noteq> object_id v}"
    using assms by (fastforce simp: books_def)
  then show ?thesis using assms(1) unfolding books_def part by simp
qed

lemma unschedule_books:
  assumes b: "books has ps budget p" and v: "v \<in> set (running p)" "object_id v \<in> set (scheduled_running_reqs p)"
    and d: "distinct_objects (running p)" "distinct (map request_id (running p))" and sz: "sized size_of v"
  shows "\<exists>q. unschedule v (p\<lparr>running := without [v] (running p)\<rparr>) = Inr q \<and> books has ps budget q \<and>
    running q = without [v] (running p) \<and> token_budget p \<le> token_budget q \<and> req_index q = req_index p - 1 \<and>
    scheduled_running_reqs q = remove1 (object_id v) (scheduled_running_reqs p) \<and> queues q = queues p \<and>
    kv_cache_manager q = kv_cache_manager p \<and> enc_manager q = enc_manager p \<and> preempted_reqs q = preempted_reqs p"
proof -
  let ?rid = "request_id v"
  have "v \<in> set (scheduled_part p)" using v by (simp add: set_scheduled_part)
  then have g: "granted has ps p v" using b by (simp add: books_def)
  then obtain n nb where n: "dict_get (num_scheduled_tokens p) ?rid = Some n" "0 < n"
      and nb: "dict_get (req_to_new_blocks p) ?rid = Some nb" by (auto simp: granted_def)
  obtain e where e: "(case dict_get (scheduled_encoder_inputs p) ?rid of None \<Rightarrow> Inr 0 | Some ins \<Rightarrow> sum_encoder_embeds v ins) = Inr e"
      "0 \<le> e"
  proof (cases "dict_get (scheduled_encoder_inputs p) ?rid")
    case (Some ins)
    then have "set ins \<subseteq> {..<length (mm_features v)}" using g by (auto simp: granted_def)
    from sum_encoder_embeds_nonneg [OF sz this] Some that show ?thesis by auto
  qed (use that in simp)
  define q where "q = p\<lparr>running := without [v] (running p),
    scheduled_running_reqs := remove1 (object_id v) (scheduled_running_reqs p),
    token_budget := token_budget p + n,
    num_scheduled_tokens := dict_del ?rid (num_scheduled_tokens p),
    req_to_new_blocks := dict_del ?rid (req_to_new_blocks p),
    scheduled_spec_decode_tokens := dict_del ?rid (scheduled_spec_decode_tokens p),
    scheduled_encoder_inputs := dict_del ?rid (scheduled_encoder_inputs p),
    encoder_budget := encoder_budget p + e, req_index := req_index p - 1\<rparr>"
  have run: "unschedule v (p\<lparr>running := without [v] (running p)\<rparr>) = Inr q"
    using n nb e by (simp add: unschedule_def Let_def q_def)
  have rid: "request_id r \<noteq> ?rid" if "r \<in> set (running p)" "object_id r \<noteq> object_id v" for r
    using d(2) v(1) that by (metis distinct_map inj_on_eq_iff)
  have same: "r = v" if "r \<in> set (running p)" "object_id r = object_id v" for r
    using d(1) v(1) that by (metis distinct_objects_def distinct_map inj_on_eq_iff)
  have dist: "distinct (scheduled_running_reqs p)" and sub: "set (scheduled_running_reqs p) \<subseteq> object_id ` set (running p)"
    using b by (auto simp: books_def)
  have part: "set (scheduled_part q) = set (scheduled_part p) - {v}"
    using same dist by (auto simp: set_scheduled_part q_def)
  have "granted has ps q r" if "r \<in> set (scheduled_part q)" for r
  proof -
    have "granted has ps p r" "request_id r \<noteq> ?rid"
      using that part b rid same by (auto simp: books_def set_scheduled_part)
    then show ?thesis by (simp add: granted_def drafted_def q_def dict_get_del)
  qed
  moreover have ids: "request_id ` set (scheduled_part p) - {?rid} = request_id ` set (scheduled_part q)"
    unfolding part using rid same by (auto simp: set_scheduled_part)
  have "set (dict_keys (num_scheduled_tokens q)) = request_id ` set (scheduled_part q)"
    using b unfolding ids [symmetric] by (auto simp: books_def q_def dict_keys_del)
  moreover have "set (dict_keys (scheduled_encoder_inputs q)) \<subseteq> request_id ` set (scheduled_part q)"
    "set (dict_keys (scheduled_spec_decode_tokens q)) \<subseteq> request_id ` set (scheduled_part q)"
    using b unfolding ids [symmetric] by (auto simp: books_def q_def dict_keys_del)
  moreover have "set (scheduled_running_reqs q) \<subseteq> object_id ` set (running q)"
    using sub dist by (auto simp: q_def)
  moreover have "token_sum (num_scheduled_tokens q) + token_budget q = budget"
    using b n token_sum_del by (simp add: books_def q_def)
  ultimately have "books has ps budget q"
    using b dist n e by (simp add: books_def q_def)
  then show ?thesis using run n by (auto simp: q_def)
qed

lemma pop_victim_books:
  assumes b: "books has ps budget p" and ne: "running p \<noteq> []"
    and d: "distinct_objects (running p)" "distinct (map request_id (running p))"
    and sz: "\<forall>r \<in> set (running p). sized size_of r"
    and fcfs: "policy (queues p) \<noteq> PRIORITY \<Longrightarrow> object_id (last (running p)) \<notin> set (scheduled_running_reqs p)"
  shows "\<exists>v q. pop_victim p = Inr (v, q) \<and> v \<in> set (running p) \<and> books has ps budget q \<and>
    running q = without [v] (running p) \<and> token_budget p \<le> token_budget q \<and>
    req_index q = (if object_id v \<in> set (scheduled_running_reqs p) then req_index p - 1 else req_index p) \<and>
    set (scheduled_running_reqs q) \<subseteq> set (scheduled_running_reqs p) - {object_id v} \<and> queues q = queues p \<and>
    kv_cache_manager q = kv_cache_manager p \<and> enc_manager q = enc_manager p \<and> preempted_reqs q = preempted_reqs p"
proof (cases "policy (queues p) = PRIORITY")
  case True
  let ?v = "lowest_priority (running p)"
  have v: "?v \<in> set (running p)" by (rule lowest_priority_in [OF ne])
  then have rm: "remove_object ?v (running p) = Inr (without [?v] (running p))"
    by (simp add: remove_object_spec [OF d(1)])
  have dist: "distinct (scheduled_running_reqs p)" using b by (simp add: books_def)
  show ?thesis
  proof (cases "object_id ?v \<in> set (scheduled_running_reqs p)")
    case s: True
    from unschedule_books [OF b v s d] sz v obtain q where
      "unschedule ?v (p\<lparr>running := without [?v] (running p)\<rparr>) = Inr q" "books has ps budget q"
      "running q = without [?v] (running p)" "token_budget p \<le> token_budget q" "req_index q = req_index p - 1"
      "scheduled_running_reqs q = remove1 (object_id ?v) (scheduled_running_reqs p)" "queues q = queues p"
      "kv_cache_manager q = kv_cache_manager p" "enc_manager q = enc_manager p" "preempted_reqs q = preempted_reqs p"
      by blast
    then show ?thesis using True ne rm v s dist by (simp add: pop_victim_def Let_def)
  next
    case False
    then show ?thesis using True ne rm v books_without [OF b False] by (simp add: pop_victim_def Let_def)
  qed
next
  case False
  then have u: "object_id (last (running p)) \<notin> set (scheduled_running_reqs p)" by (rule fcfs)
  show ?thesis using False ne u books_without [OF b u] butlast_without [OF d(1) ne]
    by (simp add: pop_victim_def)
qed

definition loop_inv ::
  "(string \<Rightarrow> int) \<Rightarrow> ('m \<Rightarrow> bool) \<Rightarrow> ('m \<Rightarrow> string \<Rightarrow> string \<Rightarrow> bool) \<Rightarrow> scheduler_params \<Rightarrow>
   request set \<Rightarrow> person multiset \<Rightarrow> waiting_queues \<Rightarrow> int \<Rightarrow> 'm running_pass \<Rightarrow> bool" where
  "loop_inv size_of ok has ps idle people w budget p \<longleftrightarrow>
     served size_of ok ps p \<and> identified idle people p \<and> books has ps budget p \<and> freed size_of ps idle w p"

lemma loop_invD:
  assumes "loop_inv size_of ok has ps idle people w budget p"
  shows "served size_of ok ps p" "identified idle people p" "books has ps budget p" "freed size_of ps idle w p"
    "distinct_objects (running p)" "distinct (map request_id (running p))"
  using assms by (simp_all add: loop_inv_def identified_def distinct_objects_def)

lemma without_split: "distinct_objects (xs @ v # ys) \<Longrightarrow> without [v] (xs @ v # ys) = xs @ ys"
  using without_absent [of v xs] without_absent [of v ys] by (auto simp: distinct_objects_def without_def)

lemma mset_without: "distinct_objects rs \<Longrightarrow> v \<in> set rs \<Longrightarrow> mset rs = add_mset v (mset (without [v] rs))"
  by (auto dest!: split_list simp: without_split)

lemma identified_preempt:
  assumes "identified idle people p" and "v \<in> set (running p)" and "running q = without [v] (running p)"
    and "preempted_reqs q = preempted_reqs p @ [v']" and "who v' = who v"
  shows "identified idle people q"
proof -
  have d: "distinct_objects (running p)" using assms(1) by (simp add: identified_def distinct_objects_def)
  have eq: "mset (map f (running q @ preempted_reqs q)) = mset (map f (running p @ preempted_reqs p))"
    if "f v' = f v" for f :: "request \<Rightarrow> 'x"
    using that assms(3,4) mset_without [OF d assms(2)] by simp
  have "object_id v' = object_id v" "request_id v' = request_id v" using assms(5) by (simp_all add: who_def)
  moreover have "request_id ` set (running q @ preempted_reqs q) = request_id ` set (running p @ preempted_reqs p)"
    using mset_eq_setD [OF eq [of request_id]] calculation by (simp only: set_map)
  ultimately show ?thesis using assms(1,5) eq [of who] mset_eq_imp_distinct_iff [OF eq [of object_id]]
      mset_eq_imp_distinct_iff [OF eq [of request_id]] unfolding identified_def by simp
qed

lemma other_request:
  assumes "identified idle people p" and "r \<in> set (running p @ preempted_reqs p)" and "v \<in> set (running p @ preempted_reqs p)"
    and "object_id r \<noteq> object_id v"
  shows "request_id r \<noteq> request_id v"
  using assms unfolding identified_def by (metis distinct_map inj_on_eq_iff)

text \<open>The loop stores a new version of the request it works on; only two fields differ.\<close>

definition at_turn :: "request \<Rightarrow> 'm running_pass \<Rightarrow> bool" where
  "at_turn r p \<longleftrightarrow>
     (\<exists>xs ys. running p = xs @ r # ys \<and> set (scheduled_running_reqs p) \<subseteq> object_id ` set xs \<and> length xs \<le> req_index p)"

lemma set_request_split:
  assumes "distinct_objects (xs @ r # ys)" and "object_id r' = object_id r"
  shows "set_request r' (xs @ r # ys) = xs @ r' # ys"
proof -
  have "\<forall>x \<in> set xs \<union> set ys. object_id x \<noteq> object_id r"
    using assms(1) by (auto simp: distinct_objects_def) (metis image_eqI)+
  then show ?thesis using assms(2) by (auto simp: set_request_def intro!: map_idI)
qed

lemma at_turn_unscheduled:
  assumes "distinct_objects (running p)" and "at_turn r p"
  shows "r \<in> set (running p)" "object_id r \<notin> set (scheduled_running_reqs p)"
    "object_id (last (running p)) \<notin> set (scheduled_running_reqs p)"
proof -
  from assms(2) obtain xs ys where
    r: "running p = xs @ r # ys" "set (scheduled_running_reqs p) \<subseteq> object_id ` set xs" by (auto simp: at_turn_def)
  have "object_id z \<notin> object_id ` set xs" if "z \<in> set (r # ys)" for z
    using assms(1) that r(1) by (auto simp: distinct_objects_def)
  from this [of r] this [of "last (r # ys)"] r show "r \<in> set (running p)" "object_id r \<notin> set (scheduled_running_reqs p)"
    "object_id (last (running p)) \<notin> set (scheduled_running_reqs p)" by auto
qed

lemma ready_alike:
  "ready size_of ps k (r\<lparr>prompt_embeds_per_block_hashes := memo, spec_token_ids := spec\<rparr>) = ready size_of ps k r"
  by (simp add: ready_def well_formed_def sized_def get_num_encoder_embeds_def in_range_def hashed_def num_tokens_def)

lemma replace_inv:
  assumes inv: "loop_inv size_of ok has ps idle people w budget p" and run: "running p = xs @ r # ys"
    and un: "object_id r \<notin> set (scheduled_running_reqs p)" and frame: "kv_frame (request_id r) (kv_cache_manager p) k"
    and k: "coord_inv (coordinator k)" "slots_upto (request_id r) (num_computed_tokens r) k"
    and r': "r' = r\<lparr>prompt_embeds_per_block_hashes := memo, spec_token_ids := spec\<rparr>"
  shows "loop_inv size_of ok has ps idle people w budget (p\<lparr>kv_cache_manager := k, running := xs @ r' # ys\<rparr>)"
proof -
  note I = loop_invD [OF inv]
  let ?q = "p\<lparr>kv_cache_manager := k, running := xs @ r' # ys\<rparr>"
  have same: "who r' = who r" "object_id r' = object_id r" "request_id r' = request_id r" by (simp_all add: r')
  have "request_id r \<notin> request_id ` (set xs \<union> set ys \<union> set (preempted_reqs p))"
    using I(2) run by (simp add: identified_def image_Un)
  then have other: "request_id z \<noteq> request_id r" if "z \<in> set xs \<union> set ys \<union> set (preempted_reqs p)" for z
    using that by (metis image_eqI)
  have rdy: "ready size_of ps k z" if "z \<in> set xs \<union> set ys" for z
  proof -
    have "ready size_of ps (kv_cache_manager p) z" using that I(1) run by (auto simp: served_def)
    then show ?thesis using ready_frame [OF frame] other that by blast
  qed
  have "ready size_of ps (kv_cache_manager p) r" using I(1) run by (simp add: served_def)
  then have "ready size_of ps k r" using k(2) well_formed_frame [OF frame] by (simp add: ready_def)
  then have "ready size_of ps k r'" unfolding r' ready_alike .
  then have "served size_of ok ps ?q"
    using I(1) k(1) kv_frame_static [OF frame] rdy by (auto simp: served_def)
  moreover have "identified idle people ?q" using I(2) run same by (simp add: identified_def)
  moreover have "books has ps budget ?q"
  proof -
    have part: "set (scheduled_part ?q) = set (scheduled_part p)"
      using un run same(2) by (auto simp: set_scheduled_part)
    have "granted has ps ?q z" if z: "z \<in> set (scheduled_part p)" for z
    proof -
      have "z \<in> set xs \<union> set ys" using z un run by (auto simp: set_scheduled_part)
      then have "granted has ps p z" "request_id z \<noteq> request_id r" using z I(3) other by (auto simp: books_def)
      then show ?thesis using kv_frame_other(1) [OF frame] by (auto simp: granted_def drafted_def)
    qed
    then show ?thesis using I(3) run same(2) unfolding books_def part by simp
  qed
  moreover have "freed size_of ps idle w ?q"
  proof -
    have "request_id z \<noteq> request_id r" if "z \<in> idle \<union> set (preempted_reqs p)" for z
      using that other I(2) run by (auto simp: identified_def) (metis image_eqI)
    then show ?thesis using I(4) kv_frame_other(2) [OF frame] well_formed_frame [OF frame] by (simp add: freed_def)
  qed
  ultimately show ?thesis by (simp add: loop_inv_def)
qed

lemma at_turn_without:
  assumes at: "at_turn r p" and d: "object_id v \<noteq> object_id r"
    and q: "running q = without [v] (running p)" "set (scheduled_running_reqs q) \<subseteq> set (scheduled_running_reqs p) - {object_id v}"
      "req_index q = (if object_id v \<in> set (scheduled_running_reqs p) then req_index p - 1 else req_index p)"
  shows "at_turn r q"
proof -
  from at obtain xs ys where
    r: "running p = xs @ r # ys" "set (scheduled_running_reqs p) \<subseteq> object_id ` set xs" "length xs \<le> req_index p"
    by (auto simp: at_turn_def)
  have "running q = without [v] xs @ r # without [v] ys" using q(1) r(1) d by (simp add: without_def)
  moreover have "set (scheduled_running_reqs q) \<subseteq> object_id ` set (without [v] xs)" using q(2) r(2) by auto
  moreover have "length (without [v] xs) \<le> req_index q"
  proof (cases "object_id v \<in> set (scheduled_running_reqs p)")
    case True
    then obtain z where "z \<in> set xs" "object_id z = object_id v" using r(2) by force
    then have "length (without [v] xs) < length xs" unfolding without_def by (intro length_filter_less [of z]) simp_all
    then show ?thesis using True q(3) r(3) by simp
  next
    case False
    then show ?thesis using q(3) r(3) length_filter_le [of _ xs] unfolding without_def by (metis le_trans)
  qed
  ultimately show ?thesis unfolding at_turn_def by blast
qed

lemma mamba_block_aligned_split_bounds:
  assumes "0 < cache_block_size ps" and "0 \<le> n"
  shows "\<exists>n'. mamba_block_aligned_split ps r n nl 0 = Inr n' \<and> 0 \<le> n' \<and> n' \<le> n"
proof -
  let ?b = "cache_block_size ps"
  have "n div ?b * ?b = n - n mod ?b" "0 \<le> n div ?b" "0 \<le> n mod ?b"
    using assms by (simp_all add: minus_mod_eq_div_mult pos_imp_zdiv_nonneg_iff)
  then have "0 \<le> n div ?b * ?b" "n div ?b * ?b \<le> n" using zmod_le_nonneg_dividend [OF assms(2)] by simp_all
  then show ?thesis using assms(2) by (auto simp: mamba_block_aligned_split_def Let_def)
qed

lemma running_num_new_tokens_bounds:
  assumes "in_range ps r" and "0 \<le> budget"
  shows "0 \<le> running_num_new_tokens ps budget r" "running_num_new_tokens ps budget r \<le> budget"
    "num_computed_tokens r + running_num_new_tokens ps budget r \<le> sched_max_model_len ps - 1"
    "num_computed_tokens r + running_num_new_tokens ps budget r \<le> int (num_tokens_with_spec r) + num_output_placeholders r"
  using assms by (auto simp: running_num_new_tokens_def Let_def in_range_def num_tokens_with_spec_def num_tokens_def)

definition sched_before :: "'m running_pass \<Rightarrow> bool" where
  "sched_before p \<longleftrightarrow> set (scheduled_running_reqs p) \<subseteq> object_id ` set (take (req_index p) (running p))"

lemma sched_before_turn:
  assumes "sched_before p" and "req_index p < length (running p)"
  shows "at_turn (running p ! req_index p) p"
  using assms id_take_nth_drop [OF assms(2)] unfolding sched_before_def at_turn_def
  by (intro exI [of _ "take (req_index p) (running p)"] exI [of _ "drop (Suc (req_index p)) (running p)"]) simp

lemma sched_before_next: "sched_before p \<Longrightarrow> sched_before (p\<lparr>req_index := req_index p + 1\<rparr>)"
  using set_take_subset_set_take [of "req_index p" "Suc (req_index p)" "running p"] by (force simp: sched_before_def)

lemma schedule_spec_tokens_eq:
  assumes "distinct_objects (xs @ r # ys)" and "running p = xs @ r # ys"
    and n: "num_computed_tokens r + n \<le> int (num_tokens_with_spec r) + num_output_placeholders r"
    and new: "dict_get (scheduled_spec_decode_tokens p) (request_id r) = None"
  shows "\<exists>d. schedule_spec_tokens r n p = p\<lparr>scheduled_spec_decode_tokens := d, running := xs @ r\<lparr>spec_token_ids := []\<rparr> # ys\<rparr> \<and>
    (\<forall>rid. rid \<noteq> request_id r \<longrightarrow> dict_get d rid = dict_get (scheduled_spec_decode_tokens p) rid) \<and>
    token_bound (num_computed_tokens r + n) r (case dict_get d (request_id r) of None \<Rightarrow> [] | Some ts \<Rightarrow> ts)"
proof (cases "spec_token_ids r = []")
  case True
  then have "r\<lparr>spec_token_ids := []\<rparr> = r" by (cases r) simp
  then show ?thesis using True assms(2) n new
    by (intro exI [of _ "scheduled_spec_decode_tokens p"])
      (simp add: schedule_spec_tokens_def token_bound_def num_tokens_with_spec_def num_tokens_def)
next
  case False
  define d where "d = scheduled_spec_decode_tokens (schedule_spec_tokens r n p)"
  from False have "schedule_spec_tokens r n p =
      p\<lparr>scheduled_spec_decode_tokens := d, running := xs @ r\<lparr>spec_token_ids := []\<rparr> # ys\<rparr>"
    using assms set_request_split [OF assms(1), of "r\<lparr>spec_token_ids := []\<rparr>"]
    unfolding d_def by (simp add: schedule_spec_tokens_def Let_def)
  moreover have "\<forall>rid. rid \<noteq> request_id r \<longrightarrow> dict_get d rid = dict_get (scheduled_spec_decode_tokens p) rid"
    using False by (simp add: d_def schedule_spec_tokens_def Let_def dict_get_set)
  moreover have "token_bound (num_computed_tokens r + n) r (case dict_get d (request_id r) of None \<Rightarrow> [] | Some ts \<Rightarrow> ts)"
    using False n new
    by (auto simp: token_bound_def d_def schedule_spec_tokens_def Let_def dict_get_set num_tokens_with_spec_def num_tokens_def min_def)
  ultimately show ?thesis by blast
qed

lemma loop_inv_index [simp]:
  "loop_inv size_of ok has ps idle people w budget (p\<lparr>req_index := j\<rparr>) =
   loop_inv size_of ok has ps idle people w budget p"
  by (simp add: loop_inv_def served_def identified_def books_def freed_def scheduled_part_def granted_def drafted_def)

context encoder_cache_contract
begin

text \<open>Releasing a request that was just taken off the running list.\<close>

lemma preempt_request_spec:
  assumes inv: "loop_inv size_of ok has ps idle people w budget p" and v: "v \<in> set (running p)"
    and q: "running q = without [v] (running p)" "books has ps budget q" "queues q = queues p"
      "kv_cache_manager q = kv_cache_manager p" "enc_manager q = enc_manager p" "preempted_reqs q = preempted_reqs p"
  shows "\<exists>v' q'. preempt_request ops v q = Inr (v', q') \<and>
    loop_inv size_of ok has ps idle people w budget (q'\<lparr>preempted_reqs := preempted_reqs q' @ [v']\<rparr>) \<and>
    running q' = running q \<and> token_budget q' = token_budget q \<and> req_index q' = req_index q \<and>
    scheduled_running_reqs q' = scheduled_running_reqs q \<and> policy (queues q') = policy (queues q) \<and>
    (\<forall>r ins ext. promised r ins ext (enc_manager q) \<longrightarrow> promised r ins ext (enc_manager q')) \<and>
    (\<forall>rid h. has (enc_manager q) rid h \<and> rid \<noteq> request_id v \<longrightarrow> has (enc_manager q') rid h)"
proof -
  note I = loop_invD [OF inv]
  let ?rid = "request_id v" and ?k = "kv_cache_manager p"
  have rv: "ready size_of ps ?k v" and ci: "coord_inv (coordinator ?k)" and ke: "kv_static (sched_max_model_len ps) (sched_block_size ps) ?k" "ok (enc_manager p)"
    using I(1) v by (auto simp: served_def)
  then have st: "status v = RUNNING" and wf: "well_formed size_of ps ?k v" and sz: "sized size_of v"
    by (auto simp: ready_def well_formed_def)
  from kv_free_step [OF ci, of v] obtain k' where
    k': "kv_free v ?k = Inr k'" "coord_inv (coordinator k')" "kv_frame ?rid ?k k'" "unknown ?rid k'" by blast
  from free_law [OF ke(2) sz] obtain e' where
    e': "op_free ops v (enc_manager p) = Inr e'" "ok e'" "free_slots (enc_manager p) \<le> free_slots e'"
      "\<forall>h. fresh (enc_manager p) h \<longrightarrow> fresh e' h" "\<forall>rid h. has (enc_manager p) rid h \<and> rid \<noteq> ?rid \<longrightarrow> has e' rid h" by blast
  define v' where "v' = v\<lparr>status := PREEMPTED, num_computed_tokens := 0, spec_token_ids := [],
    num_preemptions := num_preemptions v + 1\<rparr>"
  define q' where "q' = q\<lparr>kv_cache_manager := k', enc_manager := e',
    queues := (queues q)\<lparr>waiting := prepend_request v' (waiting (queues q))\<rparr>\<rparr>"
  let ?q = "q'\<lparr>preempted_reqs := preempted_reqs q' @ [v']\<rparr>"
  have run: "preempt_request ops v q = Inr (v', q')"
    using st k'(1) e'(1) q(4,5) by (simp add: preempt_request_def Let_def v'_def q'_def)
  have other: "request_id r \<noteq> ?rid" if "r \<in> set (running q) \<union> set (preempted_reqs p)" for r
  proof (rule other_request [OF I(2)])
    show "object_id r \<noteq> object_id v" using that I(2) v q(1) by (auto simp: identified_def)
  qed (use that v q(1) in auto)
  have "ready size_of ps k' r" if "r \<in> set (running q)" for r
  proof -
    have "ready size_of ps ?k r" using that I(1) q(1) by (auto simp: served_def)
    then show ?thesis using ready_frame [OF k'(3)] other that by blast
  qed
  then have "served size_of ok ps ?q"
    using k'(2) kv_frame_static [OF k'(3) ke(1)] e'(2) by (simp add: served_def q'_def)
  moreover have "identified idle people ?q"
    by (rule identified_preempt [OF I(2) v, where v' = v']) (simp_all add: q'_def q v'_def)
  moreover have "books has ps budget ?q"
  proof -
    have part: "scheduled_part ?q = scheduled_part q" by (simp add: scheduled_part_def q'_def)
    have "granted has ps ?q r" if "r \<in> set (scheduled_part q)" for r
    proof -
      have "granted has ps q r" "request_id r \<noteq> ?rid"
        using that q(2) other by (auto simp: books_def set_scheduled_part)
      then show ?thesis using kv_frame_other(1) [OF k'(3)] e'(5) q(4,5) by (auto simp: granted_def drafted_def q'_def)
    qed
    then show ?thesis using q(2) unfolding books_def part by (simp add: q'_def)
  qed
  moreover have "freed size_of ps idle w ?q"
  proof -
    have "request_id z \<noteq> ?rid" if "z \<in> idle \<union> set (preempted_reqs p)" for z
      using that other I(2) v by (auto simp: identified_def)
    moreover have "well_formed size_of ps k' v'" using well_formed_frame [OF k'(3) wf]
      by (simp add: well_formed_def v'_def sized_def get_num_encoder_embeds_def hashed_def num_tokens_def)
    ultimately show ?thesis using I(4) kv_frame_other(2) [OF k'(3)] well_formed_frame [OF k'(3)] k'(4) q(3,6)
      by (auto simp: freed_def q'_def v'_def)
  qed
  ultimately have "loop_inv size_of ok has ps idle people w budget ?q" by (simp add: loop_inv_def)
  moreover have "promised r ins ext e'" if "promised r ins ext (enc_manager p)" for r ins ext
    using that e'(2-4) unfolding promised_def by force
  ultimately show ?thesis using run e'(5) q(5) by (auto simp: q'_def)
qed

lemma preempt_one_spec:
  assumes inv: "loop_inv size_of ok has ps idle people w budget p" and ne: "running p \<noteq> []"
    and fcfs: "policy (queues p) \<noteq> PRIORITY \<Longrightarrow> object_id (last (running p)) \<notin> set (scheduled_running_reqs p)"
  shows "\<exists>v q. preempt_one ops p = Inr (v, q) \<and> v \<in> set (running p) \<and> loop_inv size_of ok has ps idle people w budget q \<and>
    running q = without [v] (running p) \<and> token_budget p \<le> token_budget q \<and>
    req_index q = (if object_id v \<in> set (scheduled_running_reqs p) then req_index p - 1 else req_index p) \<and>
    set (scheduled_running_reqs q) \<subseteq> set (scheduled_running_reqs p) - {object_id v} \<and>
    (\<forall>r ins ext. promised r ins ext (enc_manager p) \<longrightarrow> promised r ins ext (enc_manager q)) \<and>
    (\<forall>rid h. has (enc_manager p) rid h \<and> rid \<noteq> request_id v \<longrightarrow> has (enc_manager q) rid h)"
proof -
  note I = loop_invD [OF inv]
  have "\<forall>r \<in> set (running p). sized size_of r" using I(1) by (auto simp: served_def ready_def well_formed_def)
  from pop_victim_books [OF I(3) ne I(5,6) this fcfs] obtain v q where
    q: "pop_victim p = Inr (v, q)" "v \<in> set (running p)" "books has ps budget q"
      "running q = without [v] (running p)" "token_budget p \<le> token_budget q"
      "req_index q = (if object_id v \<in> set (scheduled_running_reqs p) then req_index p - 1 else req_index p)"
      "set (scheduled_running_reqs q) \<subseteq> set (scheduled_running_reqs p) - {object_id v}" "queues q = queues p"
      "kv_cache_manager q = kv_cache_manager p" "enc_manager q = enc_manager p" "preempted_reqs q = preempted_reqs p"
    by blast
  from preempt_request_spec [OF inv q(2,4,3,8-11)] obtain v' q' where
    q': "preempt_request ops v q = Inr (v', q')"
      "loop_inv size_of ok has ps idle people w budget (q'\<lparr>preempted_reqs := preempted_reqs q' @ [v']\<rparr>)"
      "running q' = running q" "token_budget q' = token_budget q" "req_index q' = req_index q"
      "scheduled_running_reqs q' = scheduled_running_reqs q"
      "\<forall>r ins ext. promised r ins ext (enc_manager q) \<longrightarrow> promised r ins ext (enc_manager q')"
      "\<forall>rid h. has (enc_manager q) rid h \<and> rid \<noteq> request_id v \<longrightarrow> has (enc_manager q') rid h" by blast
  have run: "preempt_one ops p = Inr (v, q'\<lparr>preempted_reqs := preempted_reqs q' @ [v']\<rparr>)"
    using q(1) q'(1) by (simp add: preempt_one_def)
  show ?thesis
    by (rule exI [of _ v], rule exI [of _ "q'\<lparr>preempted_reqs := preempted_reqs q' @ [v']\<rparr>"])
      (use run q(2,4-7,10) q'(2-8) in simp)
qed

section \<open>Slots for a request\<close>

lemma promised_alike [simp]:
  "promised (r\<lparr>prompt_embeds_per_block_hashes := memo\<rparr>) ins ext m = promised r ins ext m"
  by (simp add: promised_def embeds_of_def)

lemma alloc_or_preempt_spec:
  assumes "loop_inv size_of ok has ps idle people w budget p" and "at_turn r p" and "promised r ins ext (enc_manager p)"
    and n: "0 < n" "num_computed_tokens r + n \<le> sched_max_model_len ps - 1" and look: "0 \<le> num_lookahead_tokens ps"
  shows "\<exists>out q. alloc_or_preempt sha256 ops ps r n p = Inr (out, q) \<and> loop_inv size_of ok has ps idle people w budget q \<and>
    token_budget p \<le> token_budget q \<and>
    (\<forall>b r'. out = Some (b, r') \<longrightarrow>
       (\<exists>memo. r' = r\<lparr>prompt_embeds_per_block_hashes := memo\<rparr>) \<and> at_turn r' q \<and>
       slots_upto (request_id r) (num_computed_tokens r + n) (kv_cache_manager q) \<and>
       promised r ins ext (enc_manager q) \<and>
       (\<forall>h. has (enc_manager p) (request_id r) h \<longrightarrow> has (enc_manager q) (request_id r) h))"
  using assms(1-3) n(2)
proof (induction "length (running p)" arbitrary: r p rule: less_induct)
  case less
  note I = loop_invD [OF less.prems(1)] and un = at_turn_unscheduled [OF loop_invD(5) [OF less.prems(1)] less.prems(2)]
  from less.prems(2) obtain xs ys where
    xs: "running p = xs @ r # ys" "set (scheduled_running_reqs p) \<subseteq> object_id ` set xs" "length xs \<le> req_index p"
    by (auto simp: at_turn_def)
  have rdy: "ready size_of ps (kv_cache_manager p) r" and ci: "coord_inv (coordinator (kv_cache_manager p))"
    and ks: "kv_static (sched_max_model_len ps) (sched_block_size ps) (kv_cache_manager p)" using I(1) un(1) by (auto simp: served_def)
  then have rr: "in_range ps r" "slots_upto (request_id r) (num_computed_tokens r) (kv_cache_manager p)"
    "hashed r (kv_cache_manager p)" by (auto simp: ready_def well_formed_def)
  from allocate_step [OF ci ks rr n(1) less.prems(4) look, of sha256] obtain out k memo where
    a: "allocate_slots sha256 r n 0 None (num_lookahead_tokens ps) 0 False 0 (kv_cache_manager p) =
        Inr (out, k, r\<lparr>prompt_embeds_per_block_hashes := memo\<rparr>)" "coord_inv (coordinator k)"
      "kv_frame (request_id r) (kv_cache_manager p) k"
      "slots_upto (request_id r) (num_computed_tokens r + (if out = None then 0 else n)) k" by blast
  define r' where "r' = r\<lparr>prompt_embeds_per_block_hashes := memo\<rparr>"
  define p1 where "p1 = p\<lparr>kv_cache_manager := k, running := xs @ r' # ys\<rparr>"
  have r'_eq: "r' = r\<lparr>prompt_embeds_per_block_hashes := memo, spec_token_ids := spec_token_ids r\<rparr>"
    by (simp add: r'_def)
  have upto: "slots_upto (request_id r) (num_computed_tokens r) k"
    by (rule slots_upto_mono [OF a(4)]) (use n(1) in simp)
  have inv1: "loop_inv size_of ok has ps idle people w budget p1"
    unfolding p1_def by (rule replace_inv [OF less.prems(1) xs(1) un(2) a(3,2) upto r'_eq])
  have at1: "at_turn r' p1" using xs(2,3) unfolding at_turn_def p1_def by auto
  have store: "store_slots k r' p = p1"
    using I(5) xs(1) set_request_split [of xs r ys r'] by (simp add: store_slots_def p1_def r'_def)
  note step = alloc_or_preempt.simps [of sha256 ops ps r n p, unfolded a(1) r'_def [symmetric], simplified, unfolded store]
  show ?case
  proof (cases out)
    case (Some b)
    have "alloc_or_preempt sha256 ops ps r n p = Inr (Some (b, r'), p1)" unfolding step Some by simp
    moreover have "\<exists>memo. r' = r\<lparr>prompt_embeds_per_block_hashes := memo\<rparr>" unfolding r'_def by (rule exI, rule refl)
    moreover have "slots_upto (request_id r) (num_computed_tokens r + n) (kv_cache_manager p1)"
      using a(4) Some by (simp add: p1_def)
    ultimately show ?thesis using inv1 at1 less.prems(3)
      by (intro exI [of _ "Some (b, r')"] exI [of _ p1]) (simp add: p1_def)
  next
    case None
    have ne: "running p1 \<noteq> []" by (simp add: p1_def)
    obtain v q where
      q: "preempt_one ops p1 = Inr (v, q)" "v \<in> set (running p1)" "loop_inv size_of ok has ps idle people w budget q"
        "running q = without [v] (running p1)" "token_budget p1 \<le> token_budget q"
        "req_index q = (if object_id v \<in> set (scheduled_running_reqs p1) then req_index p1 - 1 else req_index p1)"
        "set (scheduled_running_reqs q) \<subseteq> set (scheduled_running_reqs p1) - {object_id v}"
        "\<forall>r ins ext. promised r ins ext (enc_manager p1) \<longrightarrow> promised r ins ext (enc_manager q)"
        "\<forall>rid h. has (enc_manager p1) rid h \<and> rid \<noteq> request_id v \<longrightarrow> has (enc_manager q) rid h"
      using preempt_one_spec [OF inv1 ne at_turn_unscheduled(3) [OF loop_invD(5) [OF inv1] at1]]
      by (elim exE conjE) (rule that)
    have tb: "token_budget p \<le> token_budget q" using q(5) by (simp add: p1_def)
    show ?thesis
    proof (cases "object_id v = object_id r")
      case True
      then show ?thesis using step None q(1,3) tb by simp
    next
      case False
      have vr: "object_id v \<noteq> object_id r'" using False by (simp add: r'_def)
      have atq: "at_turn r' q" by (rule at_turn_without [OF at1 vr q(4,7,6)])
      have "length (running q) < length (running p1)" using q(2,4) mset_without [OF loop_invD(5) [OF inv1] q(2)]
        by (metis lessI size_add_mset size_mset)
      then have len: "length (running q) < length (running p)" by (simp add: p1_def xs(1))
      have prq: "promised r' ins ext (enc_manager q)" using q(8) less.prems(3) by (simp add: r'_def p1_def)
      have nq: "num_computed_tokens r' + n \<le> sched_max_model_len ps - 1" using less.prems(4) by (simp add: r'_def)
      from less.hyps [OF len q(3) atq prq nq] obtain out' q' where
        q': "alloc_or_preempt sha256 ops ps r' n q = Inr (out', q')" "loop_inv size_of ok has ps idle people w budget q'"
          "token_budget q \<le> token_budget q'"
          "\<forall>b r''. out' = Some (b, r'') \<longrightarrow>
             (\<exists>memo. r'' = r'\<lparr>prompt_embeds_per_block_hashes := memo\<rparr>) \<and> at_turn r'' q' \<and>
             slots_upto (request_id r') (num_computed_tokens r' + n) (kv_cache_manager q') \<and>
             promised r' ins ext (enc_manager q') \<and>
             (\<forall>h. has (enc_manager q) (request_id r') h \<longrightarrow> has (enc_manager q') (request_id r') h)" by blast
      have "request_id v \<noteq> request_id r'"
        by (rule other_request [OF loop_invD(2) [OF inv1] _ _ vr]) (use q(2) in \<open>auto simp: p1_def\<close>)
      then have rid: "request_id v \<noteq> request_id r" by (simp add: r'_def)
      have "alloc_or_preempt sha256 ops ps r n p = Inr (out', q')" using step None q(1) False q'(1) by simp
      moreover have "token_budget p \<le> token_budget q'" using tb q'(3) by simp
      moreover have "\<forall>h. has (enc_manager p) (request_id r) h \<longrightarrow> has (enc_manager q) (request_id r) h"
        using q(9) rid by (simp add: p1_def)
      ultimately show ?thesis using q'(2,4) by (simp add: r'_def)
    qed
  qed
qed

section \<open>One iteration\<close>

lemma loop_inv_cache:
  assumes inv: "loop_inv size_of ok has ps idle people w budget p" and "ok m" and "refs_kept (enc_manager p) m"
  shows "loop_inv size_of ok has ps idle people w budget (p\<lparr>enc_manager := m\<rparr>)"
proof -
  let ?q = "p\<lparr>enc_manager := m\<rparr>"
  note I = loop_invD [OF inv]
  have part: "scheduled_part ?q = scheduled_part p" by (simp add: scheduled_part_def)
  have "granted has ps ?q r" if "granted has ps p r" for r
    using that assms(3) by (auto simp: granted_def drafted_def refs_kept_def)
  then have "books has ps budget ?q" using I(3) unfolding books_def part by simp
  then show ?thesis using I(1,2,4) assms(2) by (simp add: loop_inv_def served_def identified_def freed_def)
qed

lemma plan_request_spec:
  assumes kind: "is_encoder_decoder (encoder_side ps) = encdec" and ps: "params_ok ps"
    and m: "ok (enc_manager p)" and r: "ready size_of ps k r" and b: "0 \<le> token_budget p" "0 \<le> encoder_budget p"
  shows "\<exists>ins n nb ext m'. plan_request ops ps r p = Inr ((ins, n, nb, ext), m') \<and>
    promised r ins ext m' \<and> refs_kept (enc_manager p) m' \<and> 0 \<le> n \<and> n \<le> token_budget p \<and>
    num_computed_tokens r + n \<le> sched_max_model_len ps - 1 \<and>
    num_computed_tokens r + n \<le> int (num_tokens_with_spec r) + num_output_placeholders r \<and> 0 \<le> nb \<and>
    (\<not> encdec \<and> 0 < n \<longrightarrow> (\<forall>f \<in> set (mm_features r). needs f (num_computed_tokens r) n \<longrightarrow>
       has m' (request_id r) (mm_identifier f) \<or> mm_identifier f \<in> hash_at r ` set (ins @ ext)))"
proof -
  define n0 where "n0 = running_num_new_tokens ps (token_budget p) r"
  have rr: "in_range ps r" "items_ok (mm_features r)" "sized size_of r"
    "\<And>j. encdec \<Longrightarrow> j < length (mm_features r) \<Longrightarrow> offset (mm_position (mm_features r ! j)) = 0"
    using r kind by (auto simp: ready_def well_formed_def)
  have n0: "0 \<le> n0" "n0 \<le> token_budget p" "num_computed_tokens r + n0 \<le> sched_max_model_len ps - 1"
    "num_computed_tokens r + n0 \<le> int (num_tokens_with_spec r) + num_output_placeholders r"
    using running_num_new_tokens_bounds [OF rr(1) b(1)] by (simp_all add: n0_def)
  let ?shift = "if sched_use_eagle ps then 1 else (0 :: int)"
  have shift: "0 \<le> ?shift" "?shift \<le> 1" by simp_all
  obtain ins n1 nb ext m1 where
    t: "try_schedule_encoder_inputs ops (encoder_side ps) r (num_computed_tokens r) n0 (encoder_budget p) ?shift (enc_manager p)
        = Inr ((ins, n1, nb, ext), m1)" "promised r ins ext m1" "refs_kept (enc_manager p) m1" "0 \<le> n1" "n1 \<le> n0" "0 \<le> nb"
      "\<not> encdec \<and> 0 < n1 \<longrightarrow> (\<forall>f\<in>set (mm_features r). needs f (num_computed_tokens r) n1 \<longrightarrow>
         has m1 (request_id r) (mm_identifier f) \<or> mm_identifier f \<in> hash_at r ` set (ins @ ext))"
    using try_schedule_promises [OF m rr(2,3) kind shift rr(4) n0(1) b(2), of "num_computed_tokens r"] by blast
  have "\<not> has_encoder_inputs r \<Longrightarrow> Inr (([], n0, encoder_budget p, []), enc_manager p) = (Inr ((ins, n1, nb, ext), m1) :: _ res)"
    using t(1) by (simp add: try_schedule_encoder_inputs_def)
  then have first: "(if has_encoder_inputs r
        then try_schedule_encoder_inputs ops (encoder_side ps) r (num_computed_tokens r) n0 (encoder_budget p) ?shift (enc_manager p)
        else Inr (([], n0, encoder_budget p, []), enc_manager p)) = Inr ((ins, n1, nb, ext), m1)"
    using t(1) by simp
  have "\<exists>n. (if need_mamba_block_aligned_split ps then mamba_block_aligned_split ps r n1 0 0 else Inr n1) = Inr n \<and>
      0 \<le> n \<and> n \<le> n1"
    using mamba_block_aligned_split_bounds [OF _ t(4), of ps r 0] ps t(4) by (simp add: params_ok_def)
  then obtain n where n: "(if need_mamba_block_aligned_split ps then mamba_block_aligned_split ps r n1 0 0 else Inr n1) = Inr n"
      "0 \<le> n" "n \<le> n1" by blast
  have "needs f (num_computed_tokens r) n1" if "0 < n" "f \<in> set (mm_features r)" "needs f (num_computed_tokens r) n" for f
    using needs_mono [OF that(3,1) n(3)] rr(2) that(2) by (auto simp: items_ok_def range_ok_def)
  then have "\<not> encdec \<and> 0 < n \<longrightarrow> (\<forall>f \<in> set (mm_features r). needs f (num_computed_tokens r) n \<longrightarrow>
       has m1 (request_id r) (mm_identifier f) \<or> mm_identifier f \<in> hash_at r ` set (ins @ ext))"
    using t(7) n(3) by (meson less_le_trans)
  moreover have "plan_request ops ps r p = Inr ((ins, n, nb, ext), m1)"
    unfolding plan_request_def n0_def [symmetric] first using n(1) by simp
  moreover have "n \<le> token_budget p" "num_computed_tokens r + n \<le> sched_max_model_len ps - 1"
    "num_computed_tokens r + n \<le> int (num_tokens_with_spec r) + num_output_placeholders r" using n(3) t(5) n0(2-4) by auto
  ultimately show ?thesis using t(2,3,6) n(2) by blast
qed

text \<open>Entering a request in the books.\<close>

lemma books_add:
  assumes b: "books has ps budget p" and run: "running p = xs @ r # ys" and d: "distinct (map request_id (running p))"
    and un: "object_id r \<notin> set (scheduled_running_reqs p)" and n: "n \<le> token_budget p"
    and q: "running q = running p" "scheduled_running_reqs q = scheduled_running_reqs p @ [object_id r]"
      "req_to_new_blocks q = dict_set (request_id r) nb (req_to_new_blocks p)"
      "num_scheduled_tokens q = dict_set (request_id r) n (num_scheduled_tokens p)"
      "token_budget q = token_budget p - n" "kv_cache_manager q = kv_cache_manager p"
      "scheduled_encoder_inputs q = (if ins = [] then scheduled_encoder_inputs p
         else dict_set (request_id r) ins (scheduled_encoder_inputs p))" "0 \<le> encoder_budget q"
      "refs_kept (enc_manager p) (enc_manager q)"
      "\<forall>rid. rid \<noteq> request_id r \<longrightarrow> dict_get (scheduled_spec_decode_tokens q) rid = dict_get (scheduled_spec_decode_tokens p) rid"
    and uniq: "\<And>z. z \<in> set (running p) \<Longrightarrow> object_id z = object_id r \<Longrightarrow> z = r"
    and g: "granted has ps q r"
  shows "books has ps budget q"
proof -
  let ?rid = "request_id r"
  have part: "set (scheduled_part q) = insert r (set (scheduled_part p))"
    using q(1,2) run uniq by (auto simp: set_scheduled_part)
  have r_new: "?rid \<notin> request_id ` set (scheduled_part p)"
  proof
    assume "?rid \<in> request_id ` set (scheduled_part p)"
    then obtain z where z: "z \<in> set (scheduled_part p)" "request_id z = ?rid" by auto
    then have "z = r" using d run by (metis (no_types, lifting) distinct_map in_set_conv_decomp inj_on_eq_iff mem_Collect_eq set_scheduled_part)
    then show False using z un by (simp add: set_scheduled_part)
  qed
  then have absent: "?rid \<notin> set (dict_keys (num_scheduled_tokens p))" using b by (simp add: books_def)
  have "granted has ps q z" if "z \<in> set (scheduled_part p)" for z
  proof -
    have "granted has ps p z" using that b by (simp add: books_def)
    moreover have "request_id z \<noteq> ?rid" using that r_new by (metis image_eqI)
    ultimately show ?thesis using q(3,4,6,7,9,10) by (auto simp: granted_def drafted_def dict_get_set refs_kept_def)
  qed
  then have "\<forall>z \<in> set (scheduled_part q). granted has ps q z" using g part by auto
  moreover have "token_sum (num_scheduled_tokens q) + token_budget q = budget"
    using b token_sum_set [OF absent] q(4,5) by (simp add: books_def)
  moreover have "set (dict_keys (num_scheduled_tokens q)) = request_id ` set (scheduled_part q)"
    using b absent unfolding part q(4) by (auto simp: books_def dict_keys_set)
  moreover have "set (dict_keys (scheduled_encoder_inputs q)) \<subseteq> request_id ` set (scheduled_part q)"
    using b unfolding part q(7) by (auto simp: books_def dict_keys_set)
  moreover have "set (dict_keys (scheduled_spec_decode_tokens q)) \<subseteq> request_id ` set (scheduled_part q)"
  proof
    fix rid
    assume "rid \<in> set (dict_keys (scheduled_spec_decode_tokens q))"
    then have "rid = ?rid \<or> rid \<in> set (dict_keys (scheduled_spec_decode_tokens p))" using q(10) by (metis dict_get_None_iff)
    then show "rid \<in> request_id ` set (scheduled_part q)" using b unfolding part by (auto simp: books_def)
  qed
  ultimately show ?thesis using b un n q(1,2,4,5,8) run by (auto simp: books_def)
qed

lemma schedule_request_spec:
  assumes inv: "loop_inv size_of ok has ps idle people w budget p" and at: "at_turn r p"
    and kind: "is_encoder_decoder (encoder_side ps) = encdec"
    and slots: "slots_upto (request_id r) (num_computed_tokens r + n) (kv_cache_manager p)"
    and prom: "promised r ins ext (enc_manager p)" and n: "0 < n" "n \<le> token_budget p"
      "num_computed_tokens r + n \<le> sched_max_model_len ps - 1"
      "num_computed_tokens r + n \<le> int (num_tokens_with_spec r) + num_output_placeholders r" and nb: "0 \<le> new_budget"
    and cover: "\<not> encdec \<Longrightarrow> \<forall>f \<in> set (mm_features r). needs f (num_computed_tokens r) n \<longrightarrow>
       has (enc_manager p) (request_id r) (mm_identifier f) \<or> mm_identifier f \<in> hash_at r ` set (ins @ ext)"
  shows "\<exists>q. schedule_request ops r b n ins new_budget ext p = Inr q \<and>
    loop_inv size_of ok has ps idle people w budget q \<and> sched_before q"
proof -
  note I = loop_invD [OF inv] and un = at_turn_unscheduled [OF loop_invD(5) [OF inv] at]
  from at obtain xs ys where
    xs: "running p = xs @ r # ys" "set (scheduled_running_reqs p) \<subseteq> object_id ` set xs" "length xs \<le> req_index p"
    by (auto simp: at_turn_def)
  have rdy: "ready size_of ps (kv_cache_manager p) r" using I(1) un(1) by (auto simp: served_def)
  then have rr: "sized size_of r" "slots_upto (request_id r) (num_computed_tokens r) (kv_cache_manager p)"
    by (simp_all add: ready_def well_formed_def)
  define r' where "r' = r\<lparr>spec_token_ids := []\<rparr>"
  have r'_eq: "r' = r\<lparr>prompt_embeds_per_block_hashes := prompt_embeds_per_block_hashes r, spec_token_ids := []\<rparr>"
    by (simp add: r'_def)
  define p0 where "p0 = p\<lparr>running := xs @ r' # ys\<rparr>"
  have ci: "coord_inv (coordinator (kv_cache_manager p))" using I(1) by (simp add: served_def)
  have inv0: "loop_inv size_of ok has ps idle people w budget p0"
    using replace_inv [OF inv xs(1) un(2) kv_frame_refl ci rr(2) r'_eq] by (simp add: p0_def)
  note I0 = loop_invD [OF inv0]
  have at0: "at_turn r' p0" using xs unfolding at_turn_def p0_def by auto
  note un0 = at_turn_unscheduled [OF I0(5) at0]
  from promised_allocate [OF prom rr(1)] obtain m where
    m: "allocate_encoder_inputs ops r ins ext (enc_manager p) = Inr m" "ok m" "refs_kept (enc_manager p) m"
      "\<forall>h\<in>hash_at r ` set (ins @ ext). has m (request_id r) h" by blast
  define p1 where "p1 = p\<lparr>scheduled_running_reqs := scheduled_running_reqs p @ [object_id r],
    req_to_new_blocks := dict_set (request_id r) b (req_to_new_blocks p),
    num_scheduled_tokens := dict_set (request_id r) n (num_scheduled_tokens p),
    token_budget := token_budget p - n, req_index := req_index p + 1\<rparr>"
  have run1: "running p1 = xs @ r # ys" by (simp add: p1_def xs(1))
  have "distinct_objects (xs @ r # ys)" using I(5) xs(1) by simp
  note obj = this
  have fresh: "request_id r' \<notin> request_id ` set (scheduled_part p0)"
    using I0(6) un0(1,2) unfolding set_scheduled_part by (auto simp: distinct_map) (metis inj_on_eq_iff)
  then have "dict_get (scheduled_spec_decode_tokens p1) (request_id r) = None"
    using I0(3) by (auto simp: books_def dict_get_None_iff p0_def p1_def r'_def)
  from schedule_spec_tokens_eq [OF obj run1 n(4) this] obtain d where
    p2: "schedule_spec_tokens r n p1 = p1\<lparr>scheduled_spec_decode_tokens := d, running := xs @ r' # ys\<rparr>"
      "\<forall>rid. rid \<noteq> request_id r \<longrightarrow> dict_get d rid = dict_get (scheduled_spec_decode_tokens p) rid"
      "token_bound (num_computed_tokens r + n) r (case dict_get d (request_id r) of None \<Rightarrow> [] | Some ts \<Rightarrow> ts)"
    by (auto simp: r'_def p1_def)
  define q where "q = (let p2 = p1\<lparr>scheduled_spec_decode_tokens := d, running := xs @ r' # ys\<rparr> in
    if ins = [] then p2\<lparr>enc_manager := m\<rparr>
    else p2\<lparr>enc_manager := m, scheduled_encoder_inputs := dict_set (request_id r) ins (scheduled_encoder_inputs p2),
            encoder_budget := new_budget\<rparr>)"
  have run: "schedule_request ops r b n ins new_budget ext p = Inr q"
    unfolding schedule_request_def Let_def p1_def [symmetric] p2(1) using m(1) by (simp add: q_def p1_def)
  have qf: "running q = running p0" "scheduled_running_reqs q = scheduled_running_reqs p0 @ [object_id r']"
    "req_to_new_blocks q = dict_set (request_id r') b (req_to_new_blocks p0)"
    "num_scheduled_tokens q = dict_set (request_id r') n (num_scheduled_tokens p0)"
    "token_budget q = token_budget p0 - n" "kv_cache_manager q = kv_cache_manager p0"
    "scheduled_encoder_inputs q = (if ins = [] then scheduled_encoder_inputs p0
       else dict_set (request_id r') ins (scheduled_encoder_inputs p0))"
    "0 \<le> encoder_budget q" "enc_manager q = m" "preempted_reqs q = preempted_reqs p0" "queues q = queues p0"
    "req_index q = Suc (req_index p)" "scheduled_spec_decode_tokens q = d"
    using I(3) nb by (auto simp: q_def p1_def p0_def r'_def Let_def books_def)
  have kept: "refs_kept (enc_manager p0) (enc_manager q)" using m(3) by (simp add: qf(9) p0_def)
  have uniq: "z = r'" if "z \<in> set (running p0)" "object_id z = object_id r'" for z
    using I0(5) un0(1) that by (metis distinct_objects_def distinct_map inj_on_eq_iff)
  have "granted has ps q r'"
  proof -
    have "dict_get (scheduled_encoder_inputs p) (request_id r) = None"
      using fresh I0(3) by (auto simp: books_def dict_get_None_iff p0_def r'_def)
    moreover have "set ins \<subseteq> {..<length (mm_features r)}" using prom by (simp add: promised_def)
    moreover have "\<not> encdec \<longrightarrow> (\<forall>f \<in> set (mm_features r). needs f (num_computed_tokens r) n \<longrightarrow> has m (request_id r) (mm_identifier f))"
      using cover m(3,4) unfolding refs_kept_def by metis
    ultimately show ?thesis unfolding granted_def drafted_def kind qf using n(1,3) slots p2(3)
      by (auto simp: dict_get_set p0_def r'_def num_tokens_def token_bound_def)
  qed
  note g = this
  have run0: "running p0 = xs @ r' # ys" and n0: "n \<le> token_budget p0" using n(2) by (simp_all add: p0_def)
  have spec: "\<forall>rid. rid \<noteq> request_id r' \<longrightarrow> dict_get (scheduled_spec_decode_tokens q) rid = dict_get (scheduled_spec_decode_tokens p0) rid"
    using p2(2) by (simp add: qf(13) p0_def r'_def)
  have "books has ps budget q" by (rule books_add [OF I0(3) run0 I0(6) un0(2) n0 qf(1-8) kept spec uniq g])
  moreover have "served size_of ok ps q" using I0(1) m(2) by (simp add: served_def qf)
  moreover have "identified idle people q" "freed size_of ps idle w q" using I0(2,4) by (simp_all add: identified_def freed_def qf)
  ultimately have "loop_inv size_of ok has ps idle people w budget q" by (simp add: loop_inv_def)
  moreover have "sched_before q"
  proof -
    have "take (Suc (req_index p)) (xs @ r' # ys) = xs @ r' # take (req_index p - length xs) ys"
      using xs(3) by (simp add: Suc_diff_le)
    then show ?thesis using xs(2) by (auto simp: sched_before_def qf(1,2,12) p0_def)
  qed
  ultimately show ?thesis using run by blast
qed

lemma grant_request_spec:
  assumes inv: "loop_inv size_of ok has ps idle people w budget p" and at: "at_turn r p"
    and kind: "is_encoder_decoder (encoder_side ps) = encdec" and ps: "params_ok ps"
    and prom: "promised r ins ext (enc_manager p)" and n: "0 < n" "n \<le> token_budget p"
      "num_computed_tokens r + n \<le> sched_max_model_len ps - 1"
      "num_computed_tokens r + n \<le> int (num_tokens_with_spec r) + num_output_placeholders r" and nb: "0 \<le> new_budget"
    and cover: "\<not> encdec \<Longrightarrow> \<forall>f \<in> set (mm_features r). needs f (num_computed_tokens r) n \<longrightarrow>
       has (enc_manager p) (request_id r) (mm_identifier f) \<or> mm_identifier f \<in> hash_at r ` set (ins @ ext)"
  shows "\<exists>stop q. grant_request sha256 ops ps r ins n new_budget ext p = Inr (stop, q) \<and>
    loop_inv size_of ok has ps idle people w budget q \<and> (\<not> stop \<longrightarrow> sched_before q)"
proof -
  have look: "0 \<le> num_lookahead_tokens ps" using ps by (simp add: params_ok_def)
  from alloc_or_preempt_spec [OF inv at prom n(1,3) look, of sha256] obtain out q where
    q: "alloc_or_preempt sha256 ops ps r n p = Inr (out, q)" "loop_inv size_of ok has ps idle people w budget q"
      "token_budget p \<le> token_budget q"
    and got: "\<forall>b r'. out = Some (b, r') \<longrightarrow>
       (\<exists>memo. r' = r\<lparr>prompt_embeds_per_block_hashes := memo\<rparr>) \<and> at_turn r' q \<and>
       slots_upto (request_id r) (num_computed_tokens r + n) (kv_cache_manager q) \<and>
       promised r ins ext (enc_manager q) \<and>
       (\<forall>h. has (enc_manager p) (request_id r) h \<longrightarrow> has (enc_manager q) (request_id r) h)" by blast
  show ?thesis
  proof (cases out)
    case None
    then have "grant_request sha256 ops ps r ins n new_budget ext p = Inr (True, q)" using q(1) by (simp add: grant_request_def)
    then show ?thesis using q(2) by blast
  next
    case (Some br)
    obtain b r' where br: "br = (b, r')" by (cases br)
    with got Some obtain memo where
      r': "r' = r\<lparr>prompt_embeds_per_block_hashes := memo\<rparr>" "at_turn r' q"
        "slots_upto (request_id r) (num_computed_tokens r + n) (kv_cache_manager q)" "promised r ins ext (enc_manager q)"
        "\<forall>h. has (enc_manager p) (request_id r) h \<longrightarrow> has (enc_manager q) (request_id r) h" by blast
    have "\<exists>q'. schedule_request ops r' b n ins new_budget ext q = Inr q' \<and>
        loop_inv size_of ok has ps idle people w budget q' \<and> sched_before q'"
    proof (rule schedule_request_spec [OF q(2) r'(2) kind])
      assume "\<not> encdec"
      from cover [OF this] r'(5) show "\<forall>f \<in> set (mm_features r'). needs f (num_computed_tokens r') n \<longrightarrow>
          has (enc_manager q) (request_id r') (mm_identifier f) \<or> mm_identifier f \<in> hash_at r' ` set (ins @ ext)"
        unfolding r'(1) by auto
    qed (use r'(1,3,4) n nb q(3) in \<open>simp_all add: num_tokens_with_spec_def\<close>)
    then show ?thesis using q(1) Some br by (auto simp: grant_request_def)
  qed
qed

lemma running_step_spec:
  assumes inv: "loop_inv size_of ok has ps idle people w budget p" and before: "sched_before p"
    and kind: "is_encoder_decoder (encoder_side ps) = encdec" and ps: "params_ok ps"
    and i: "req_index p < length (running p)"
  shows "\<exists>stop q. running_step sha256 ops ps p = Inr (stop, q) \<and> loop_inv size_of ok has ps idle people w budget q \<and>
    (\<not> stop \<longrightarrow> sched_before q)"
proof -
  let ?r = "running p ! req_index p"
  note I = loop_invD [OF inv]
  have at: "at_turn ?r p" by (rule sched_before_turn [OF before i])
  have rdy: "ready size_of ps (kv_cache_manager p) ?r" and ok0: "ok (enc_manager p)" using I(1) i by (auto simp: served_def)
  have b0: "0 \<le> token_budget p" "0 \<le> encoder_budget p" using I(3) by (auto simp: books_def)
  show ?thesis
  proof (cases "last_step_in_flight ?r")
    case True
    then show ?thesis using inv sched_before_next [OF before] by (auto simp: running_step_def Let_def)
  next
    case False
    from plan_request_spec [OF kind ps ok0 rdy b0] obtain ins n nb ext m where
      m: "plan_request ops ps ?r p = Inr ((ins, n, nb, ext), m)" "promised ?r ins ext m" "refs_kept (enc_manager p) m"
        "0 \<le> n" "n \<le> token_budget p" "num_computed_tokens ?r + n \<le> sched_max_model_len ps - 1"
        "num_computed_tokens ?r + n \<le> int (num_tokens_with_spec ?r) + num_output_placeholders ?r" "0 \<le> nb"
      and cover: "\<not> encdec \<and> 0 < n \<longrightarrow> (\<forall>f \<in> set (mm_features ?r). needs f (num_computed_tokens ?r) n \<longrightarrow>
         has m (request_id ?r) (mm_identifier f) \<or> mm_identifier f \<in> hash_at ?r ` set (ins @ ext))" by blast
    let ?p = "p\<lparr>enc_manager := m\<rparr>"
    have okm: "ok m" using m(2) by (simp add: promised_def)
    have inv': "loop_inv size_of ok has ps idle people w budget ?p" by (rule loop_inv_cache [OF inv okm m(3)])
    have before': "sched_before ?p" using before by (simp add: sched_before_def)
    show ?thesis
    proof (cases "n = 0")
      case True
      then show ?thesis using False m(1) inv' sched_before_next [OF before']
        by (auto simp: running_step_def Let_def)
    next
      case n: False
      have at': "at_turn ?r ?p" using at by (simp add: at_turn_def)
      have "\<exists>stop q. grant_request sha256 ops ps ?r ins n nb ext ?p = Inr (stop, q) \<and>
          loop_inv size_of ok has ps idle people w budget q \<and> (\<not> stop \<longrightarrow> sched_before q)"
        by (rule grant_request_spec [OF inv' at' kind ps]) (use m n cover in auto)
      then show ?thesis using False m(1) n by (simp add: running_step_def Let_def)
    qed
  qed
qed

lemma running_loop_spec:
  assumes kind: "is_encoder_decoder (encoder_side ps) = encdec" and ps: "params_ok ps"
  shows "loop_inv size_of ok has ps idle people w budget p \<Longrightarrow> sched_before p \<Longrightarrow>
    \<exists>q. running_loop sha256 ops ps p = Inr q \<and> loop_inv size_of ok has ps idle people w budget q"
proof (induction "length (running p) - req_index p" arbitrary: p rule: less_induct)
  case less
  show ?case
  proof (cases "req_index p < length (running p) \<and> 0 < token_budget p")
    case True
    from running_step_spec [OF less.prems kind ps, of sha256] True obtain stop q where
      q: "running_step sha256 ops ps p = Inr (stop, q)" "loop_inv size_of ok has ps idle people w budget q"
        "\<not> stop \<longrightarrow> sched_before q" by blast
    show ?thesis
    proof (cases stop)
      case stop: True
      then show ?thesis using q True by (simp add: running_loop.simps [of sha256 ops ps p])
    next
      case False
      have "length (running q) - req_index q < length (running p) - req_index p"
        using running_step_measure [of sha256 ops ps p q] q(1) False True by simp
      from less.hyps [OF this q(2)] q(3) False obtain q' where
        "running_loop sha256 ops ps q = Inr q'" "loop_inv size_of ok has ps idle people w budget q'" by blast
      then show ?thesis using q(1) False True by (simp add: running_loop.simps [of sha256 ops ps p])
    qed
  next
    case False
    then show ?thesis using less.prems(1) by (auto simp: running_loop.simps [of sha256 ops ps p])
  qed
qed

lemma start_pass_inv:
  assumes "served size_of ok ps s" and "distinct (map object_id (running s))" and "distinct (map request_id (running s))"
    and "params_ok ps" and "request_id ` idle \<inter> request_id ` set (running s) = {}"
    and "\<forall>r \<in> idle. unknown (request_id r) (kv_cache_manager s) \<and> well_formed size_of ps (kv_cache_manager s) r"
  shows "loop_inv size_of ok has ps idle (mset (map who (running s))) (queues s)
      (if paused then 0 else max_num_scheduled_tokens ps) (start_pass ps paused s)"
    "sched_before (start_pass ps paused s)"
  using assms by (auto simp: loop_inv_def served_def identified_def books_def freed_def start_pass_def
      set_scheduled_part token_sum_def params_ok_def dict_keys_def sched_before_def)

end

section \<open>A small scheduler\<close>

text \<open>Three usable blocks of one token, two requests with an image each, two tokens a request.\<close>

definition small_params :: scheduler_params where
  "small_params =
     \<lparr>max_num_scheduled_tokens = 6, sched_max_model_len = 8, long_prefill_token_threshold = 2,
      num_lookahead_tokens = 0, sched_use_eagle = False, need_mamba_block_aligned_split = False,
      cache_block_size = 1, sched_block_size = 1, max_encoder_input_tokens = 8, encoder_side = chunked_scheduler\<rparr>"

definition image_request :: "string \<Rightarrow> nat \<Rightarrow> request" where
  "image_request rid obj =
     (mm_request rid [image ''h'' 1 4])\<lparr>status := RUNNING, object_id := obj, num_prompt_tokens := 6,
        prompt_token_ids := Some (replicate 6 0), all_token_ids := replicate 6 0, block_hashes := map (\<lambda>i. [of_nat i]) [0..<6]\<rparr>"

definition small_scheduler :: "kv_manager \<Rightarrow> encoder_cache_manager scheduler" where
  "small_scheduler k =
     \<lparr>running = [image_request ''a'' 0, image_request ''b'' 1],
      queues = \<lparr>policy = FCFS, waiting = FCFSRequestQueue [], skipped_waiting = FCFSRequestQueue []\<rparr>,
      kv_cache_manager = k, enc_manager = EncoderCacheManager 10\<rparr>"

lemma small_scheduler_served:
  "\<exists>k. KVCacheManager small_config 8 1 True False False False 1 1 False = Inr k \<and>
     served (\<lambda>_. 4) (enc_inv (\<lambda>_. 4)) small_params (small_scheduler k) \<and> (\<forall>rid. unknown rid k)"
proof -
  from small_manager obtain k p where k: "KVCacheManager small_config 8 1 True False False False 1 1 False = Inr k" "coord_inv (coordinator k)"
    "coord_pool (coordinator k) = p" "single_type_managers (coordinator k) = [SingleTypeKVCacheManager (FullAttentionSpec 1) p True 0 1 1]"
    "enable_caching p" "hash_block_size p = 1" "max_model_len k = 8" "kv_enable_caching k" "num_kv_cache_groups k = 1"
    "coord_class (coordinator k) = UnitaryCoordinator" "unitary_spec (coordinator k) = FullAttentionSpec 1"
    "unitary_block_size (coordinator k) = 1" "coord_dcp (coordinator k) = 1" "coord_pcp (coordinator k) = 1" "\<not> log_stats k" by blast
  have "coordinator_ok (coordinator k)"
    using k(3-6,10-14) by (simp add: coordinator_ok_def SingleTypeKVCacheManager_def world_block_size_def Let_def)
  then have static: "kv_static 8 1 k"
    using k by (simp add: kv_static_def) (simp add: SingleTypeKVCacheManager_def)
  have "distinct (map (\<lambda>i. [of_nat i :: 8 word]) [0..<6])" by (simp add: upt_rec)
  then have "hashes_distinct (map (\<lambda>i. [of_nat i]) [0..<6]) (coordinator k)"
    using k(3,4,6) by (simp add: hashes_distinct_def SingleTypeKVCacheManager_def block_hashes_for_def)
  then have "ready (\<lambda>_. 4) small_params k (image_request rid obj)" for rid obj
    using k items_ok_image [of 4 "''h''" 1]
    by (simp add: ready_def well_formed_def image_request_def in_range_def slots_upto_def hashed_def computed_have_slots_def
        sized_def get_num_encoder_embeds_def get_num_embeds_def small_params_def chunked_scheduler_def
        SingleTypeKVCacheManager_def num_tokens_def mm_request_def)
  then have "served (\<lambda>_. 4) (enc_inv (\<lambda>_. 4)) small_params (small_scheduler k)"
    using k(2) static enc_inv_init [of 10] by (simp add: served_def small_scheduler_def) (simp add: small_params_def)
  moreover have "unknown rid k" for rid
    using k(4) by (simp add: unknown_def new_request_def is_running_def req_blocks_def SingleTypeKVCacheManager_def dict_val_def)
  ultimately show ?thesis using k(1) by blast
qed

section \<open>Properties\<close>

text \<open>
  C3. The running half of a scheduling step is safe. Take a scheduler in a good state: the
  block manager and the shared encoder cache satisfy their invariants, no two running
  requests share an identity or an id, and every running request is shorter than the model's
  length, has slots for its computed tokens and items listed by position; \<open>idle\<close> are other requests that the block manager
  knows nothing of. The loop over the running requests ends and does not
  raise, whatever it has to preempt. Afterwards the managers are still in a good state; every
  scheduled request has a positive number of tokens within the model's length, slots for them in
  every cache group and the encoder outputs its tokens read; the tokens handed out and the
  budget left are the step's budget, which is not overdrawn; a preempted request holds no block and is
  forgotten by the block manager, as the idle ones still are, starts again from token 0 and stands in the waiting queue, put there in the order of the
  preemptions; and no running request got lost: each is still running or was preempted.
\<close>

theorem schedule_running_safe:
  fixes s :: "encoder_cache_manager scheduler"
  assumes "served size_of (enc_inv size_of) ps s" and "params_ok ps" and "\<not> is_encoder_decoder (encoder_side ps)"
    and "distinct (map object_id (running s))" and "distinct (map request_id (running s))"
    and "request_id ` idle \<inter> request_id ` set (running s) = {}"
    and "\<forall>r \<in> idle. unknown (request_id r) (kv_cache_manager s) \<and> well_formed size_of ps (kv_cache_manager s) r"
  shows "\<exists>p. schedule_running sha256 shared_ops ps paused s = Inr p \<and>
    served size_of (enc_inv size_of) ps p \<and>
    distinct (scheduled_running_reqs p) \<and> set (scheduled_running_reqs p) \<subseteq> object_id ` set (running p) \<and>
    (\<forall>r \<in> set (running p). object_id r \<in> set (scheduled_running_reqs p) \<longrightarrow> granted holds ps p r) \<and>
    token_sum (num_scheduled_tokens p) + token_budget p = (if paused then 0 else max_num_scheduled_tokens ps) \<and>
    0 \<le> token_budget p \<and>
    (\<forall>v \<in> set (preempted_reqs p). status v = PREEMPTED \<and> num_computed_tokens v = 0) \<and>
    (\<forall>r \<in> idle \<union> set (preempted_reqs p). unknown (request_id r) (kv_cache_manager p) \<and> well_formed size_of ps (kv_cache_manager p) r) \<and>
    queues p = (queues s)\<lparr>waiting := fold prepend_request (preempted_reqs p) (waiting (queues s))\<rparr> \<and>
    mset (map who (running p @ preempted_reqs p)) = mset (map who (running s))"
proof -
  let ?budget = "if paused then 0 else max_num_scheduled_tokens ps"
  note start = shared_cache.start_pass_inv [OF assms(1,4,5,2,6,7), of paused]
  from shared_cache.running_loop_spec [OF _ assms(2) start, of sha256] assms(3) obtain p where
    p: "running_loop sha256 shared_ops ps (start_pass ps paused s) = Inr p"
      "loop_inv size_of (enc_inv size_of) holds ps idle (mset (map who (running s))) (queues s) ?budget p" by auto
  from loop_invD [OF p(2)] p(1) show ?thesis
    by (simp add: schedule_running_def books_def freed_def identified_def set_scheduled_part)
qed

theorem schedule_running_safe_witness:
  "\<exists>k p. KVCacheManager small_config 8 1 True False False False 1 1 False = Inr k \<and>
     schedule_running id shared_ops small_params False (small_scheduler k) = Inr p \<and>
     token_sum (num_scheduled_tokens p) + token_budget p = 6 \<and>
     mset (map who (running p @ preempted_reqs p)) = {#who (image_request ''a'' 0), who (image_request ''b'' 1)#}"
proof -
  from small_scheduler_served obtain k where
    k: "KVCacheManager small_config 8 1 True False False False 1 1 False = Inr k"
      "served (\<lambda>_. 4) (enc_inv (\<lambda>_. 4)) small_params (small_scheduler k)" by blast
  have run: "running (small_scheduler k) = [image_request ''a'' 0, image_request ''b'' 1]"
    by (simp add: small_scheduler_def)
  have ids: "object_id (image_request rid n) = n" "request_id (image_request rid n) = rid" for rid n
    by (simp_all add: image_request_def mm_request_def)
  have "params_ok small_params" "\<not> is_encoder_decoder (encoder_side small_params)"
    by (simp_all add: params_ok_def small_params_def chunked_scheduler_def)
  from schedule_running_safe [OF k(2) this, of "{}" id False] k(1) show ?thesis
    by (auto simp: run ids small_params_def)
qed

text \<open>
  C39. A request with a minimum number of output tokens can get stuck at the length of the
  model. The stop check tests the minimum before the length, so a request that has reached
  the model's length with fewer output tokens than its minimum does not stop; the loop over
  the running requests limits the tokens to one position before that length, gives the request
  none and moves on. It stays in the list of running requests, holding its blocks.
\<close>

theorem min_tokens_request_stuck:
  assumes "sampling_params r = Some sp" and "pooling_params r = None" and "int (num_output_tokens r) < min_tokens sp"
    and "int (num_tokens r) = sched_max_model_len ps" and "num_computed_tokens r = int (num_tokens r) - 1"
    and "num_output_placeholders r = 0" and "mm_features r = []" and "\<not> need_mamba_block_aligned_split ps"
    and "r = running p ! req_index p" and "0 < token_budget p"
  shows "check_stop r (sched_max_model_len ps) = Inr (False, r) \<and>
    running_step sha256 ops ps p = Inr (False, p\<lparr>req_index := req_index p + 1\<rparr>)"
proof -
  have "running_num_new_tokens ps (token_budget p) r = 0"
    using assms(4-6,10) by (auto simp: running_num_new_tokens_def Let_def num_tokens_with_spec_def num_tokens_def)
  then have "plan_request ops ps r p = Inr (([], 0, encoder_budget p, []), enc_manager p)"
    using assms(7,8) by (simp add: plan_request_def has_encoder_inputs_def num_encoder_inputs_def)
  then show ?thesis using assms(1-3,6,9)
    by (simp add: running_step_def last_step_in_flight_def check_stop_def Let_def)
qed

definition stuck_request :: request where
  "stuck_request =
     (mm_request ''a'' [])\<lparr>status := RUNNING, num_computed_tokens := 11, num_prompt_tokens := 10, output_token_ids := [5, 6],
        sampling_params := Some \<lparr>sp_max_tokens = Some 9, min_tokens = 4, eos_token_id = Some 6, stop_token_ids = None,
          repetition_detection = None, sp_skip_reading_prefix_cache = None, structured_outputs = False,
          sp_kv_transfer_params = None\<rparr>\<rparr>"

theorem min_tokens_request_stuck_witness:
  "check_stop stuck_request 12 = Inr (False, stuck_request) \<and>
   (\<forall>k. running_step id shared_ops (small_params\<lparr>sched_max_model_len := 12\<rparr>)
      (start_pass small_params False ((small_scheduler k)\<lparr>running := [stuck_request]\<rparr>)) =
    Inr (False, (start_pass small_params False ((small_scheduler k)\<lparr>running := [stuck_request]\<rparr>))\<lparr>req_index := 1\<rparr>))"
proof -
  let ?ps = "small_params\<lparr>sched_max_model_len := 12\<rparr>"
  let ?p = "\<lambda>k. start_pass small_params False ((small_scheduler k)\<lparr>running := [stuck_request]\<rparr>)"
  have r: "stuck_request = running (?p k) ! req_index (?p k)" for k by (simp add: start_pass_def)
  have "check_stop stuck_request (sched_max_model_len ?ps) = Inr (False, stuck_request) \<and>
      running_step id shared_ops ?ps (?p k) = Inr (False, (?p k)\<lparr>req_index := req_index (?p k) + 1\<rparr>)" for k
    by (rule min_tokens_request_stuck [OF _ _ _ _ _ _ _ _ r, where sp = "the (sampling_params stuck_request)"])
      (simp_all add: stuck_request_def mm_request_def num_output_tokens_def num_tokens_def small_params_def start_pass_def)
  then show ?thesis by (simp add: start_pass_def)
qed

end
