(* ===== verification/Waiting_Phase.thy ===== *)
theory Waiting_Phase
  imports Waiting Running_Phase
begin

text \<open>
  The waiting half of a scheduling step is safe, for a scheduler without a KV connector: the
  queues, the block manager with its prefix cache, the encoder cache and the budgets together.
\<close>

section \<open>Queues of either policy\<close>

interpretation any_queue: request_queue_contract "queue_ok pol" queue_order "enter_by pol" "front_by pol" for pol
proof (cases pol)
  case FCFS
  have "queue_ok pol = fcfs_ok" "enter_by pol = (\<lambda>r rs. rs @ [r])" "front_by pol = (\<lambda>r rs. r # rs)"
    by (simp_all add: fun_eq_iff queue_ok_def enter_by_def front_by_def FCFS)
  then show "request_queue_contract (queue_ok pol) queue_order (enter_by pol) (front_by pol)"
    using fcfs_queue.request_queue_contract_axioms by simp
next
  case PRIORITY
  have "queue_ok pol = priority_ok" "enter_by pol = insort_key request_key" "front_by pol = insort_key request_key"
    by (simp_all add: fun_eq_iff queue_ok_def enter_by_def front_by_def PRIORITY)
  then show "request_queue_contract (queue_ok pol) queue_order (enter_by pol) (front_by pol)"
    using priority_queue.request_queue_contract_axioms by simp
qed

lemma mset_front_by: "mset (front_by pol r rs) = add_mset r (mset rs)"
  by (cases pol) (simp_all add: front_by_def)

lemma set_request_self:
  assumes "distinct_objects xs" and "r \<in> set xs"
  shows "set_request r xs = xs"
proof -
  have "x = r" if "x \<in> set xs" "object_id x = object_id r" for x
    using assms that unfolding distinct_objects_def by (metis distinct_map inj_on_eq_iff)
  then show ?thesis unfolding set_request_def by (intro map_idI) metis
qed

text \<open>A change in place that keeps the key keeps the order.\<close>

lemma queue_ok_update:
  assumes q: "queue_ok pol q" and r: "r \<in> set (queue_order q)" and key: "request_key r' = request_key r"
  shows "queue_ok pol (update_in_queue r' q) \<and> queue_order (update_in_queue r' q) = set_request r' (queue_order q)"
proof -
  let ?f = "\<lambda>x. if object_id x = object_id r' then r' else x"
  have d: "distinct_objects (queue_order q)" by (rule any_queue.ok_distinct [OF q])
  have id: "object_id r' = object_id r" using key by (simp add: request_key_def)
  have same: "request_key (?f x) = request_key x" if "x \<in> set (queue_order q)" for x
  proof -
    have "object_id x = object_id r \<Longrightarrow> x = r"
      using d r that unfolding distinct_objects_def by (metis distinct_map inj_on_eq_iff)
    then show ?thesis using key id by auto
  qed
  have ids: "map object_id (set_request r' xs) = map object_id xs" for xs by (simp add: set_request_def)
  show ?thesis
  proof (cases q)
    case (FCFSRequestQueue xs)
    then show ?thesis using q ids by (cases pol) (auto simp: queue_ok_def fcfs_ok_def priority_ok_def queue_order_def distinct_objects_def)
  next
    case (PriorityRequestQueue h)
    then have pol: "pol = PRIORITY" "request_heap.is_heap h" "distinct_objects h"
      using q by (cases pol; auto simp: queue_ok_def fcfs_ok_def priority_ok_def)+
    have keys: "request_key (set_request r' h ! i) = request_key (h ! i)" if "i < length h" for i
      using same [of "h ! i"] that PriorityRequestQueue by (simp add: set_request_def queue_order_def)
    have heap: "request_heap.is_heap (set_request r' h)"
      using pol(2) keys unfolding request_heap.is_heap_def request_heap.heap_from_def by (auto simp: parent_def)
    have d': "distinct_objects (set_request r' h)" using pol(3) ids by (simp add: distinct_objects_def)
    have "map request_key (set_request r' (sort_key request_key h)) = map request_key (sort_key request_key h)"
      using same PriorityRequestQueue by (simp add: set_request_def queue_order_def)
    then have "sorted (map request_key (set_request r' (sort_key request_key h)))" by (simp only: sorted_key_sort)
    moreover have "mset (set_request r' (sort_key request_key h)) = mset (set_request r' h)" by (simp add: set_request_def)
    ultimately have "sort_key request_key (set_request r' h) = set_request r' (sort_key request_key h)"
      by (rule sorted_unique [OF d'])
    then show ?thesis using PriorityRequestQueue pol(1) heap d' by (simp add: queue_ok_def priority_ok_def queue_order_def)
  qed
qed

lemma select_choice:
  assumes "queue_ok pol (waiting w)" and "queue_ok pol (skipped_waiting w)" and "policy w = pol"
    and "queue_bool (waiting w) \<or> queue_bool (skipped_waiting w)"
  shows "\<exists>c r rs. select_waiting_queue_for_scheduling w = Inr (Some c) \<and> queue_order (queue_of c w) = r # rs \<and>
    peek_request (queue_of c w) = Inr r"
proof -
  have peek: "peek_request q = Inr (hd (queue_order q))" "queue_order q = hd (queue_order q) # tl (queue_order q)"
    if "queue_ok pol q" "queue_bool q" for q
    using that any_queue.peek_law [OF that(1)] any_queue.len_law [OF that(1)]
    by (cases "queue_order q"; simp add: queue_bool_def)+
  have "\<exists>c. select_waiting_queue_for_scheduling w = Inr (Some c) \<and> queue_bool (queue_of c w)"
  proof (cases "queue_bool (waiting w) \<and> queue_bool (skipped_waiting w) \<and> policy w \<noteq> FCFS")
    case True
    then show ?thesis using peek(1) assms(1,2) by (auto simp: select_waiting_queue_for_scheduling_def)
  next
    case False
    then show ?thesis using assms(4) by (auto simp: select_waiting_queue_for_scheduling_def)
  qed
  then obtain c where c: "select_waiting_queue_for_scheduling w = Inr (Some c)" "queue_bool (queue_of c w)" by blast
  have "queue_ok pol (queue_of c w)" using assms(1,2) by (cases c) simp_all
  from peek [OF this c(2)] c(1) show ?thesis by metis
qed

section \<open>The invariant\<close>

text \<open>A request that waits: it can be admitted once it is not blocked, and the block manager does not know it.\<close>

definition awaiting :: "(string \<Rightarrow> int) \<Rightarrow> scheduler_params \<Rightarrow> waiting_params \<Rightarrow> kv_manager \<Rightarrow> request \<Rightarrow> bool" where
  "awaiting size_of ps wp k r \<longleftrightarrow>
     well_formed size_of ps k r \<and> unknown (request_id r) k \<and> num_computed_tokens r = 0 \<and>
     (status r \<in> {WAITING, PREEMPTED, WAITING_FOR_STRUCTURED_OUTPUT_GRAMMAR} \<or>
      status r = WAITING_FOR_STREAMING_REQ \<and> \<not> streaming_input wp r)"

definition in_queues :: "'m waiting_pass \<Rightarrow> request list" where
  "in_queues p = queue_order (waiting (queues p)) @ queue_order (skipped_waiting (queues p)) @ queue_order (step_skipped_waiting p)"

definition queues_fine :: "'m waiting_pass \<Rightarrow> bool" where
  "queues_fine p \<longleftrightarrow>
     (let pol = policy (queues p) in
      queue_ok pol (waiting (queues p)) \<and> queue_ok pol (skipped_waiting (queues p)) \<and> queue_ok pol (step_skipped_waiting p))"

definition scheduled_ids :: "'m waiting_pass \<Rightarrow> nat list" where
  "scheduled_ids p = scheduled_running_reqs p @ scheduled_new_reqs p @ scheduled_resumed_reqs p"

definition accounts :: "('m \<Rightarrow> string \<Rightarrow> string \<Rightarrow> bool) \<Rightarrow> scheduler_params \<Rightarrow> int \<Rightarrow> 'm waiting_pass \<Rightarrow> bool" where
  "accounts has ps budget p \<longleftrightarrow>
     distinct (scheduled_ids p) \<and> set (scheduled_ids p) \<subseteq> object_id ` set (running p) \<and>
     (\<forall>r \<in> set (running p). object_id r \<in> set (scheduled_ids p) \<longrightarrow> granted has ps p r) \<and>
     dict_ok (num_scheduled_tokens p) \<and>
     set (dict_keys (num_scheduled_tokens p)) = request_id ` {r \<in> set (running p). object_id r \<in> set (scheduled_ids p)} \<and>
     set (dict_keys (scheduled_encoder_inputs p)) \<subseteq> set (dict_keys (num_scheduled_tokens p)) \<and>
     set (dict_keys (scheduled_spec_decode_tokens p)) \<subseteq> set (dict_keys (num_scheduled_tokens p)) \<and>
     token_sum (num_scheduled_tokens p) + token_budget p = budget \<and> 0 \<le> token_budget p \<and> 0 \<le> encoder_budget p"

definition loras_ok :: "waiting_params \<Rightarrow> 'm waiting_pass \<Rightarrow> bool" where
  "loras_ok wp p \<longleftrightarrow> finite (scheduled_loras p) \<and> (\<forall>n. max_loras wp = Some n \<longrightarrow> int (card (scheduled_loras p)) \<le> n)"

definition everyone :: "'m waiting_pass \<Rightarrow> request list" where
  "everyone p = running p @ in_queues p"

definition distinct_people :: "person multiset \<Rightarrow> bool" where
  "distinct_people people \<longleftrightarrow> (\<exists>xs. people = mset xs \<and> distinct (map fst xs) \<and> distinct (map (fst \<circ> snd) xs))"

text \<open>A request is not resumed in a step after one in which it was scheduled.\<close>

definition not_resumed :: "string set \<Rightarrow> 'm waiting_pass \<Rightarrow> bool" where
  "not_resumed prev p \<longleftrightarrow>
     (\<forall>r \<in> set (in_queues p). status r = PREEMPTED \<longrightarrow> request_id r \<notin> prev) \<and>
     (\<forall>r \<in> set (running p). object_id r \<in> set (scheduled_resumed_reqs p) \<longrightarrow> request_id r \<notin> prev)"

definition waiting_inv ::
  "(string \<Rightarrow> int) \<Rightarrow> ('m \<Rightarrow> bool) \<Rightarrow> ('m \<Rightarrow> string \<Rightarrow> string \<Rightarrow> bool) \<Rightarrow> scheduler_params \<Rightarrow> waiting_params \<Rightarrow>
   string set \<Rightarrow> person multiset \<Rightarrow> int \<Rightarrow> 'm waiting_pass \<Rightarrow> bool" where
  "waiting_inv size_of ok has ps wp prev people budget p \<longleftrightarrow>
     served size_of ok ps p \<and> (\<forall>r \<in> set (in_queues p). awaiting size_of ps wp (kv_cache_manager p) r) \<and> queues_fine p \<and>
     mset (map who (everyone p)) = people \<and> accounts has ps budget p \<and>
     length (running p) \<le> max_num_running_reqs wp \<and> loras_ok wp p \<and> not_resumed prev p"

lemma people_distinct:
  assumes "distinct_people people" and "mset (map who rs) = people"
  shows "distinct (map object_id rs)" "distinct (map request_id rs)"
proof -
  from assms obtain xs where xs: "mset (map who rs) = mset xs" "distinct (map fst xs)" "distinct (map (fst \<circ> snd) xs)"
    unfolding distinct_people_def by metis
  have "mset (map fst (map who rs)) = mset (map fst xs)" "mset (map (fst \<circ> snd) (map who rs)) = mset (map (fst \<circ> snd) xs)"
    using xs(1) by (metis mset_map)+
  then have "distinct (map fst (map who rs))" "distinct (map (fst \<circ> snd) (map who rs))"
    using xs(2,3) mset_eq_imp_distinct_iff by blast+
  then show "distinct (map object_id rs)" "distinct (map request_id rs)" by (simp_all add: who_def comp_def)
qed

lemmas everyone_distinct = people_distinct [where rs = "everyone p" for p]

lemma waiting_invD:
  assumes "waiting_inv size_of ok has ps wp prev people budget p"
  shows "served size_of ok ps p" "\<And>r. r \<in> set (in_queues p) \<Longrightarrow> awaiting size_of ps wp (kv_cache_manager p) r" "queues_fine p"
    "mset (map who (everyone p)) = people" "accounts has ps budget p" "length (running p) \<le> max_num_running_reqs wp" "loras_ok wp p"
    "not_resumed prev p"
  using assms by (simp_all add: waiting_inv_def)

text \<open>The queues matter neither for the accounts nor for the running requests.\<close>

lemma accounts_queues [simp]:
  "accounts has ps budget (p\<lparr>queues := w\<rparr>) = accounts has ps budget p"
  "accounts has ps budget (p\<lparr>step_skipped_waiting := s\<rparr>) = accounts has ps budget p"
  by (simp_all add: accounts_def scheduled_ids_def granted_def drafted_def)

lemma served_queues [simp]:
  "served size_of ok ps (p\<lparr>queues := w\<rparr>) = served size_of ok ps p"
  "served size_of ok ps (p\<lparr>step_skipped_waiting := s\<rparr>) = served size_of ok ps p" for p :: "'m waiting_pass"
  by (simp_all add: served_def)

lemma policy_set_queue [simp]: "policy (set_queue_of c q w) = policy w"
  by (cases c) simp_all

lemma head_waits:
  assumes "queue_order (queue_of c (queues p)) = r # rs"
  shows "r \<in> set (in_queues p)"
  using assms by (cases c) (simp_all add: in_queues_def)

lemma pop_head:
  assumes "queues_fine p" and "queue_order (queue_of c (queues p)) = r # rs"
  shows "\<exists>q. pop_request (queue_of c (queues p)) = Inr (r, q) \<and> queues_fine (p\<lparr>queues := set_queue_of c q (queues p)\<rparr>) \<and>
    mset (in_queues p) = add_mset r (mset (in_queues (p\<lparr>queues := set_queue_of c q (queues p)\<rparr>)))"
proof -
  have "queue_ok (policy (queues p)) (queue_of c (queues p))" using assms(1) by (cases c) (simp_all add: queues_fine_def Let_def)
  from any_queue.pop_law [OF this] assms(2) obtain q where
    q: "pop_request (queue_of c (queues p)) = Inr (r, q)" "queue_ok (policy (queues p)) q" "queue_order q = rs" by auto
  then show ?thesis using assms
    by (intro exI [of _ q]) (cases c; simp add: queues_fine_def in_queues_def Let_def)
qed

lemma prepend_skipped:
  assumes "queues_fine p" and "object_id r \<notin> object_id ` set (in_queues p)"
  shows "queues_fine (p\<lparr>step_skipped_waiting := prepend_request r (step_skipped_waiting p)\<rparr>)"
    "mset (in_queues (p\<lparr>step_skipped_waiting := prepend_request r (step_skipped_waiting p)\<rparr>)) = add_mset r (mset (in_queues p))"
proof -
  have ok: "queue_ok (policy (queues p)) (step_skipped_waiting p)" using assms(1) by (simp add: queues_fine_def Let_def)
  have "object_id r \<notin> object_id ` set (queue_order (step_skipped_waiting p))" using assms(2) by (auto simp: in_queues_def)
  from any_queue.prepend_law [OF ok this] have
    pr: "queue_ok (policy (queues p)) (prepend_request r (step_skipped_waiting p))"
      "queue_order (prepend_request r (step_skipped_waiting p)) = front_by (policy (queues p)) r (queue_order (step_skipped_waiting p))" by auto
  show "queues_fine (p\<lparr>step_skipped_waiting := prepend_request r (step_skipped_waiting p)\<rparr>)"
    using assms(1) pr(1) by (simp add: queues_fine_def Let_def)
  show "mset (in_queues (p\<lparr>step_skipped_waiting := prepend_request r (step_skipped_waiting p)\<rparr>)) = add_mset r (mset (in_queues p))"
    by (simp add: in_queues_def pr(2) mset_front_by)
qed

lemma alone:
  assumes dp: "distinct_people people" and ppl: "mset (map who (everyone p)) = people"
    and m: "mset (in_queues p) = add_mset r (mset xs)" and z: "z \<in> set (running p) \<union> set xs"
  shows "object_id z \<noteq> object_id r" "request_id z \<noteq> request_id r"
proof -
  have eq: "mset (map f (r # running p @ xs)) = mset (map f (everyone p))" for f :: "request \<Rightarrow> 'x"
    using m by (simp add: everyone_def)
  have "distinct (map object_id (r # running p @ xs))" "distinct (map request_id (r # running p @ xs))"
    using everyone_distinct [OF dp ppl] mset_eq_imp_distinct_iff [OF eq] by blast+
  then have "object_id r \<notin> object_id ` (set (running p) \<union> set xs)" "request_id r \<notin> request_id ` (set (running p) \<union> set xs)"
    by (simp_all add: image_Un)
  then show "object_id z \<noteq> object_id r" "request_id z \<noteq> request_id r" using z by (metis image_eqI)+
qed

lemma skip_inv:
  assumes dp: "distinct_people people" and inv: "waiting_inv size_of ok has ps wp prev people budget p"
    and head: "queue_order (queue_of c (queues p)) = r # rs" and r': "who r' = who r" "awaiting size_of ps wp (kv_cache_manager p) r'" "status r' = PREEMPTED \<Longrightarrow> status r = PREEMPTED"
  shows "\<exists>q. skip_request c r' p = Inr q \<and> waiting_inv size_of ok has ps wp prev people budget q"
proof -
  note I = waiting_invD [OF inv]
  from pop_head [OF I(3) head] obtain q where
    q: "pop_request (queue_of c (queues p)) = Inr (r, q)" "queues_fine (p\<lparr>queues := set_queue_of c q (queues p)\<rparr>)"
      "mset (in_queues p) = add_mset r (mset (in_queues (p\<lparr>queues := set_queue_of c q (queues p)\<rparr>)))" by blast
  let ?p1 = "p\<lparr>queues := set_queue_of c q (queues p)\<rparr>"
  let ?p2 = "?p1\<lparr>step_skipped_waiting := prepend_request r' (step_skipped_waiting ?p1)\<rparr>"
  have id: "object_id r' = object_id r" using r'(1) by (simp add: who_def)
  have "object_id r' \<notin> object_id ` set (in_queues ?p1)"
    using alone(1) [OF dp I(4) q(3)] id by fastforce
  note pre = prepend_skipped [OF q(2) this]
  have "mset (map who (everyone ?p2)) = mset (map who (everyone p))"
    using pre(2) q(3) r'(1) by (simp add: everyone_def)
  moreover have "set (in_queues ?p2) = insert r' (set (in_queues ?p1))" "set (in_queues ?p1) \<subseteq> set (in_queues p)"
    using mset_eq_setD [OF q(3) [folded mset.simps(2)]] pre(2) by (auto dest: mset_eq_setD simp flip: mset.simps(2))
  moreover from this have nr: "not_resumed prev ?p2"
    using I(8) r'(1,3) head_waits [OF head] by (auto simp: not_resumed_def who_def)
  ultimately have "waiting_inv size_of ok has ps wp prev people budget ?p2"
    using I pre(1) r'(2) nr by (auto simp: waiting_inv_def loras_ok_def)
  then show ?thesis using q(1) by (simp add: skip_request_def)
qed

lemma store_inv:
  assumes dp: "distinct_people people" and inv: "waiting_inv size_of ok has ps wp prev people budget p"
    and head: "queue_order (queue_of c (queues p)) = r # rs"
    and r': "request_key r' = request_key r" "awaiting size_of ps wp (kv_cache_manager p) r'" "who r' = who r"
      "status r' = PREEMPTED \<Longrightarrow> status r = PREEMPTED"
  shows "waiting_inv size_of ok has ps wp prev people budget (store_waiting c r' p)"
    "queue_order (queue_of c (queues (store_waiting c r' p))) = r' # rs"
proof -
  note I = waiting_invD [OF inv]
  let ?q = "queue_of c (queues p)" and ?p = "store_waiting c r' p"
  have okq: "queue_ok (policy (queues p)) ?q" using I(3) by (cases c) (simp_all add: queues_fine_def Let_def)
  have id: "object_id r' = object_id r" "who r' = who r" using r'(1,3) by (simp_all add: request_key_def)
  have "set_request r' (r # rs) = r' # rs"
    using set_request_split [of "[]" r rs r'] any_queue.ok_distinct [OF okq] head id by simp
  with queue_ok_update [OF okq _ r'(1)] head have
    u: "queue_ok (policy (queues p)) (update_in_queue r' ?q)" "queue_order (update_in_queue r' ?q) = r' # rs" by auto
  show "queue_order (queue_of c (queues ?p)) = r' # rs" using u(2) by (cases c) (simp_all add: store_waiting_def)
  have "queues_fine ?p" using I(3) u(1) by (cases c) (simp_all add: store_waiting_def queues_fine_def Let_def)
  moreover have "mset (map who (everyone ?p)) = mset (map who (everyone p))"
    using u(2) head id(2) by (cases c) (simp_all add: store_waiting_def everyone_def in_queues_def)
  moreover have "set (in_queues ?p) \<subseteq> insert r' (set (in_queues p))"
    using u(2) head by (cases c) (auto simp: store_waiting_def in_queues_def)
  moreover from this have "not_resumed prev ?p"
    using I(8) id(2) r'(4) head_waits [OF head] by (auto simp: not_resumed_def who_def store_waiting_def)
  ultimately show "waiting_inv size_of ok has ps wp prev people budget ?p"
    using I r'(2) by (auto simp: waiting_inv_def loras_ok_def store_waiting_def)
qed


section \<open>What a request keeps and gives back\<close>

text \<open>Work for one waiting request on the encoder cache or on the block manager leaves the invariant alone.\<close>

lemma waits_alone:
  assumes dp: "distinct_people people" and inv: "waiting_inv size_of ok has ps wp prev people budget p" and r: "r \<in> set (in_queues p)"
  shows "\<And>z. z \<in> set (running p) \<Longrightarrow> object_id z \<noteq> object_id r \<and> request_id z \<noteq> request_id r"
    "\<And>z. z \<in> set (in_queues p) \<Longrightarrow> z \<noteq> r \<Longrightarrow> request_id z \<noteq> request_id r"
proof -
  note d = everyone_distinct [OF dp waiting_invD(4) [OF inv]]
  have "object_id r \<notin> object_id ` set (running p)" "request_id r \<notin> request_id ` set (running p)"
    using d r by (auto simp: everyone_def)
  then show "object_id z \<noteq> object_id r \<and> request_id z \<noteq> request_id r" if "z \<in> set (running p)" for z
    using that by (metis image_eqI)
  show "request_id z \<noteq> request_id r" if "z \<in> set (in_queues p)" "z \<noteq> r" for z
    using d(2) r that by (auto simp: everyone_def distinct_map dest: inj_onD)
qed

lemma accounts_same:
  assumes "accounts has ps budget p" and "running q = running p" and "scheduled_ids q = scheduled_ids p"
    and "num_scheduled_tokens q = num_scheduled_tokens p" and "scheduled_encoder_inputs q = scheduled_encoder_inputs p"
    and "token_budget q = token_budget p" and "encoder_budget q = encoder_budget p"
    and "scheduled_spec_decode_tokens q = scheduled_spec_decode_tokens p"
    and "\<And>z. granted has ps p z \<Longrightarrow> z \<in> set (running p) \<Longrightarrow> granted has ps q z"
  shows "accounts has ps budget q"
  using assms(1,9) unfolding accounts_def assms(2-8) by blast

lemma waiting_inv_cache:
  assumes dp: "distinct_people people" and inv: "waiting_inv size_of ok has ps wp prev people budget p" and r: "r \<in> set (in_queues p)"
    and m: "ok m" "\<forall>rid h. has (enc_manager p) rid h \<and> rid \<noteq> request_id r \<longrightarrow> has m rid h"
  shows "waiting_inv size_of ok has ps wp prev people budget (p\<lparr>enc_manager := m\<rparr>)"
proof -
  let ?q = "p\<lparr>enc_manager := m\<rparr>"
  note I = waiting_invD [OF inv]
  have "granted has ps ?q z" if "granted has ps p z" "z \<in> set (running p)" for z
    using that m(2) waits_alone(1) [OF dp inv r that(2)] by (auto simp: granted_def drafted_def)
  then have "accounts has ps budget ?q" by (intro accounts_same [OF I(5)]) (simp_all add: scheduled_ids_def)
  then show ?thesis using I m(1)
    by (simp add: waiting_inv_def served_def in_queues_def queues_fine_def everyone_def loras_ok_def not_resumed_def)
qed

lemma awaiting_frame:
  assumes "kv_frame rid k k'" and "awaiting size_of ps wp k z" and "unknown (request_id z) k'"
  shows "awaiting size_of ps wp k' z"
  using assms(2,3) well_formed_frame [OF assms(1)] by (simp add: awaiting_def)

lemma waiting_inv_kv:
  assumes dp: "distinct_people people" and inv: "waiting_inv size_of ok has ps wp prev people budget p" and r: "r \<in> set (in_queues p)"
    and k: "coord_inv (coordinator k)" "kv_frame (request_id r) (kv_cache_manager p) k" "unknown (request_id r) k"
  shows "waiting_inv size_of ok has ps wp prev people budget (p\<lparr>kv_cache_manager := k\<rparr>)"
proof -
  let ?q = "p\<lparr>kv_cache_manager := k\<rparr>"
  note I = waiting_invD [OF inv]
  have "granted has ps ?q z" if "granted has ps p z" "z \<in> set (running p)" for z
    using that kv_frame_other(1) [OF k(2)] waits_alone(1) [OF dp inv r that(2)] by (auto simp: granted_def drafted_def)
  then have "accounts has ps budget ?q" by (intro accounts_same [OF I(5)]) (simp_all add: scheduled_ids_def)
  moreover have "ready size_of ps k z" if "z \<in> set (running p)" for z
    using that I(1) waits_alone(1) [OF dp inv r that] by (intro ready_frame [OF k(2)]) (auto simp: served_def)
  moreover have "awaiting size_of ps wp k z" if z: "z \<in> set (in_queues p)" for z
  proof (rule awaiting_frame [OF k(2) I(2) [OF z]])
    have "unknown (request_id z) (kv_cache_manager p)" using I(2) [OF z] by (simp add: awaiting_def)
    then show "unknown (request_id z) k"
      using kv_frame_other(2) [OF k(2)] waits_alone(2) [OF dp inv r z] k(3) by (cases "z = r") auto
  qed
  ultimately show ?thesis using I k(1) kv_frame_static [OF k(2)]
    by (simp add: waiting_inv_def served_def in_queues_def queues_fine_def everyone_def loras_ok_def not_resumed_def)
qed

lemma accounts_add:
  assumes a: "accounts has ps budget p" and run: "running q = running p @ [r]"
    and ids: "mset (scheduled_ids q) = add_mset (object_id r) (mset (scheduled_ids p))"
    and alone: "\<And>z. z \<in> set (running p) \<Longrightarrow> object_id z \<noteq> object_id r \<and> request_id z \<noteq> request_id r"
    and q: "req_to_new_blocks q = dict_set (request_id r) nb (req_to_new_blocks p)"
      "num_scheduled_tokens q = dict_set (request_id r) n (num_scheduled_tokens p)"
      "token_budget q = token_budget p - n" "n \<le> token_budget p"
      "scheduled_encoder_inputs q = (if ins = [] then scheduled_encoder_inputs p
         else dict_set (request_id r) ins (scheduled_encoder_inputs p))" "0 \<le> encoder_budget q"
      "scheduled_spec_decode_tokens q = scheduled_spec_decode_tokens p"
    and frame: "kv_frame (request_id r) (kv_cache_manager p) (kv_cache_manager q)"
    and kept: "\<forall>rid h. has (enc_manager p) rid h \<longrightarrow> has (enc_manager q) rid h"
    and g: "granted has ps q r"
  shows "accounts has ps budget q"
proof -
  let ?rid = "request_id r" and ?S = "\<lambda>p. {z \<in> set (running p). object_id z \<in> set (scheduled_ids p)}"
  have sub: "set (scheduled_ids p) \<subseteq> object_id ` set (running p)" using a by (simp add: accounts_def)
  have new: "object_id r \<notin> set (scheduled_ids p)"
  proof
    assume "object_id r \<in> set (scheduled_ids p)"
    then obtain z where "z \<in> set (running p)" "object_id z = object_id r" using sub by force
    then show False using alone by blast
  qed
  have set_ids: "set (scheduled_ids q) = insert (object_id r) (set (scheduled_ids p))"
    using mset_eq_setD [OF ids [folded mset.simps(2)]] by simp
  have dist: "distinct (scheduled_ids q)"
    using mset_eq_imp_distinct_iff [OF ids [folded mset.simps(2)]] a new by (simp add: accounts_def)
  have part: "?S q = insert r (?S p)" using run set_ids alone by auto
  have absent: "?rid \<notin> set (dict_keys (num_scheduled_tokens p))"
  proof -
    have "?rid \<notin> request_id ` set (running p)" using alone by (metis imageE)
    then have "?rid \<notin> request_id ` ?S p" by blast
    then show ?thesis using a by (simp add: accounts_def)
  qed
  have "granted has ps q z" if z: "z \<in> ?S p" for z
  proof -
    have "granted has ps p z" "request_id z \<noteq> ?rid" using z a alone by (auto simp: accounts_def)
    then show ?thesis using q(1,2,5,7) kept kv_frame_other(1) [OF frame] by (auto simp: granted_def drafted_def dict_get_set)
  qed
  then have "\<forall>z \<in> ?S q. granted has ps q z" using g part by auto
  moreover have "token_sum (num_scheduled_tokens q) + token_budget q = budget"
    using a token_sum_set [OF absent] q(2,3) by (simp add: accounts_def)
  moreover have "set (dict_keys (num_scheduled_tokens q)) = request_id ` ?S q"
    using a absent unfolding part q(2) by (auto simp: accounts_def dict_keys_set)
  moreover have "set (dict_keys (scheduled_encoder_inputs q)) \<subseteq> set (dict_keys (num_scheduled_tokens q))"
    "set (dict_keys (scheduled_spec_decode_tokens q)) \<subseteq> set (dict_keys (num_scheduled_tokens q))"
    using a unfolding q(2,5,7) by (auto simp: accounts_def dict_keys_set)
  moreover have "set (scheduled_ids q) \<subseteq> object_id ` set (running q)" using sub run set_ids by auto
  moreover have "dict_ok (num_scheduled_tokens q)" using a unfolding q(2) by (simp add: accounts_def)
  ultimately show ?thesis using dist q(3,4,6) by (simp add: accounts_def)
qed

section \<open>What a waiting request is offered\<close>

lemma waiting_num_new_tokens_spec:
  assumes "0 < budget" and "0 \<le> nc" and "nc < int (num_tokens r)"
  shows "\<exists>out. waiting_num_new_tokens ps wp budget r nc = Inr out \<and>
    (\<forall>n. out = Some n \<longrightarrow> 0 < n \<and> n \<le> budget \<and> nc + n \<le> int (num_tokens r))"
  using assms by (auto simp: waiting_num_new_tokens_def Let_def)

context encoder_cache_contract
begin

text \<open>A plan that can be carried out: encoder inputs that fit, tokens within the budget and the request.\<close>

definition feasible :: "request \<Rightarrow> int \<Rightarrow> int \<Rightarrow> plan \<Rightarrow> 'm \<Rightarrow> bool" where
  "feasible r nc budget = (\<lambda>(ins, n, nb, ext) m.
     promised r ins ext m \<and> 0 < n \<and> n \<le> budget \<and> nc + n \<le> int (num_tokens r) \<and> 0 \<le> nb \<and>
     (\<not> encdec \<longrightarrow> (\<forall>f \<in> set (mm_features r). needs f nc n \<longrightarrow>
        has m (request_id r) (mm_identifier f) \<or> mm_identifier f \<in> hash_at r ` set (ins @ ext))))"

lemma encoder_plan_spec:
  assumes kind: "is_encoder_decoder (encoder_side ps) = encdec"
    and m: "ok (enc_manager p)" and r: "awaiting size_of ps wp k r" and nc: "0 \<le> nc" "nc < int (num_tokens r)"
    and b: "0 < token_budget p" "0 \<le> encoder_budget p"
  shows "\<exists>out m'. encoder_plan ops ps wp r (b', nc, 0, False, nc) p = Inr (out, m') \<and> ok m' \<and>
    refs_kept (enc_manager p) m' \<and> (\<forall>pl. out = Some pl \<longrightarrow> feasible r nc (token_budget p) pl m')"
proof -
  have rr: "items_ok (mm_features r)" "sized size_of r"
    "\<And>j. encdec \<Longrightarrow> j < length (mm_features r) \<Longrightarrow> offset (mm_position (mm_features r ! j)) = 0"
    using r kind by (auto simp: awaiting_def well_formed_def)
  from waiting_num_new_tokens_spec [OF b(1) nc, of ps wp] obtain out where
    out: "waiting_num_new_tokens ps wp (token_budget p) r nc = Inr out"
      "\<forall>n. out = Some n \<longrightarrow> 0 < n \<and> n \<le> token_budget p \<and> nc + n \<le> int (num_tokens r)" by blast
  show ?thesis
  proof (cases out)
    case None
    then show ?thesis using out(1) m by (simp add: encoder_plan_def refs_kept_def)
  next
    case (Some n0)
    then have n0: "0 < n0" "n0 \<le> token_budget p" "nc + n0 \<le> int (num_tokens r)" using out(2) by auto
    let ?shift = "if sched_use_eagle ps then 1 else (0 :: int)"
    have shift: "0 \<le> ?shift" "?shift \<le> 1" by simp_all
    have "0 \<le> n0" using n0(1) by simp
    from try_schedule_promises [OF m rr(1,2) kind shift rr(3) this b(2), of nc] obtain ins n1 nb ext m1 where
      t: "try_schedule_encoder_inputs ops (encoder_side ps) r nc n0 (encoder_budget p) ?shift (enc_manager p)
          = Inr ((ins, n1, nb, ext), m1)" "promised r ins ext m1" "refs_kept (enc_manager p) m1" "0 \<le> n1" "n1 \<le> n0" "0 \<le> nb"
        "\<not> encdec \<and> 0 < n1 \<longrightarrow> (\<forall>f\<in>set (mm_features r). needs f nc n1 \<longrightarrow>
           has m1 (request_id r) (mm_identifier f) \<or> mm_identifier f \<in> hash_at r ` set (ins @ ext))" by blast
    have "\<not> has_encoder_inputs r \<Longrightarrow> ins = [] \<and> n1 = n0 \<and> nb = encoder_budget p \<and> ext = [] \<and> m1 = enc_manager p"
      using t(1) by (simp add: try_schedule_encoder_inputs_def)
    then have "encoder_plan ops ps wp r (b', nc, 0, False, nc) p = Inr (if n1 = 0 then None else Some (ins, n1, nb, ext), m1)"
      using out(1) Some t(1) n0(1) by (auto simp: encoder_plan_def)
    moreover have "feasible r nc (token_budget p) (ins, n1, nb, ext) m1" if "n1 \<noteq> 0"
      using t(2,4-7) n0(2,3) that by (simp add: feasible_def)
    moreover have "ok m1" using t(2) by (simp add: promised_def)
    ultimately show ?thesis using t(3) by simp
  qed
qed

lemma waiting_plan_spec:
  assumes kind: "is_encoder_decoder (encoder_side ps) = encdec" and ps: "params_ok ps"
    and m: "ok (enc_manager p)" and r: "awaiting size_of ps wp k r" and nc: "0 \<le> nc" "nc < int (num_tokens r)"
    and b: "0 < token_budget p" "0 \<le> encoder_budget p"
  shows "\<exists>out m'. waiting_plan ops ps wp r (b', nc, 0, False, nc) p = Inr (out, m') \<and> ok m' \<and>
    refs_kept (enc_manager p) m' \<and> (\<forall>pl. out = Some pl \<longrightarrow> feasible r nc (token_budget p) pl m')"
proof -
  from encoder_plan_spec [OF kind m r nc b, of b'] obtain out m1 where
    e: "encoder_plan ops ps wp r (b', nc, 0, False, nc) p = Inr (out, m1)" "ok m1" "refs_kept (enc_manager p) m1"
      "\<forall>pl. out = Some pl \<longrightarrow> feasible r nc (token_budget p) pl m1" by blast
  show ?thesis
  proof (cases out)
    case None
    then show ?thesis using e by (simp add: waiting_plan_def)
  next
    case (Some pl)
    obtain ins n nb ext where pl: "pl = (ins, n, nb, ext)" by (cases pl)
    have f: "feasible r nc (token_budget p) (ins, n, nb, ext) m1" using e(4) Some pl by simp
    then have n: "0 \<le> n" by (simp add: feasible_def)
    show ?thesis
    proof (cases "need_mamba_block_aligned_split ps")
      case True
      then have "0 < cache_block_size ps" using ps by (simp add: params_ok_def)
      from mamba_block_aligned_split_bounds [OF this n, of r nc] obtain n' where
        n': "mamba_block_aligned_split ps r n nc 0 = Inr n'" "0 \<le> n'" "n' \<le> n" by blast
      have "needs f nc n" if "0 < n'" "f \<in> set (mm_features r)" "needs f nc n'" for f
        using needs_mono [OF that(3,1) n'(3)] r that(2) by (auto simp: awaiting_def well_formed_def items_ok_def range_ok_def)
      then have "feasible r nc (token_budget p) (ins, n', nb, ext) m1" if "n' \<noteq> 0"
        using f n'(2,3) that by (auto simp: feasible_def)
      then show ?thesis using e Some pl True n'(1) by (simp add: waiting_plan_def)
    next
      case False
      then show ?thesis using e Some pl by (simp add: waiting_plan_def)
    qed
  qed
qed

section \<open>Slots for a waiting request\<close>

lemma give_up_inv:
  assumes dp: "distinct_people people" and inv: "waiting_inv size_of ok has ps wp prev people budget p" and r: "r \<in> set (in_queues p)"
  shows "\<exists>q. give_up ops r p = Inr q \<and> waiting_inv size_of ok has ps wp prev people budget q"
proof (cases "has_encoder_inputs r")
  case True
  have "ok (enc_manager p)" "sized size_of r" using waiting_invD(1,2) [OF inv] r by (auto simp: served_def awaiting_def well_formed_def)
  from free_law [OF this] obtain m where
    m: "op_free ops r (enc_manager p) = Inr m" "ok m" "\<forall>rid h. has (enc_manager p) rid h \<and> rid \<noteq> request_id r \<longrightarrow> has m rid h"
    by blast
  then show ?thesis using True waiting_inv_cache [OF dp inv r m(2,3)] by (simp add: give_up_def)
qed (use inv in \<open>simp add: give_up_def\<close>)

lemma cross_attention_tokens_spec:
  assumes "sized size_of r" and "set ins \<subseteq> {..<length (mm_features r)}"
  shows "\<exists>e. cross_attention_tokens ps r ins = Inr e"
  using sum_encoder_embeds_nonneg [OF assms] by (auto simp: cross_attention_tokens_def)

lemma take_slots_spec:
  assumes dp: "distinct_people people" and inv: "waiting_inv size_of ok has ps wp prev people budget p" and r: "r \<in> set (in_queues p)"
    and nc: "0 \<le> nc" and pre: "\<forall>num_new look. 0 < num_new \<longrightarrow> 0 \<le> look \<longrightarrow> nc + num_new \<le> sched_max_model_len ps \<longrightarrow>
      slots_pre r num_new nc b look 0 False (kv_cache_manager p)"
    and f: "feasible r nc (token_budget p) (ins, n, nb, ext) (enc_manager p)"
  shows "\<exists>got q. take_slots sha256 ops ps wp r (b, nc, 0, False, nc) (ins, n, nb, ext) p = Inr (got, q) \<and>
    (got = None \<longrightarrow> waiting_inv size_of ok has ps wp prev people budget q) \<and>
    (\<forall>r'. got = Some r' \<longrightarrow> (\<exists>memo k. r' = r\<lparr>prompt_embeds_per_block_hashes := memo\<rparr> \<and> q = p\<lparr>kv_cache_manager := k\<rparr> \<and>
       coord_inv (coordinator k) \<and> kv_frame (request_id r) (kv_cache_manager p) k \<and> slots_upto (request_id r) (nc + n) k))"
proof -
  note I = waiting_invD [OF inv]
  have aw: "awaiting size_of ps wp (kv_cache_manager p) r" by (rule I(2) [OF r])
  then have r0: "num_computed_tokens r = 0" "int (num_tokens r) < sched_max_model_len ps" "sized size_of r"
    "unknown (request_id r) (kv_cache_manager p)" by (auto simp: awaiting_def well_formed_def)
  have ci: "coord_inv (coordinator (kv_cache_manager p))" and st: "kv_static (sched_max_model_len ps) (sched_block_size ps) (kv_cache_manager p)"
    using I(1) by (auto simp: served_def)
  have n: "0 < n" "nc + n \<le> int (num_tokens r)" "set ins \<subseteq> {..<length (mm_features r)}"
    using f by (auto simp: feasible_def promised_def)
  have sp: "slots_pre r n nc b 0 0 False (kv_cache_manager p)" using pre n(1,2) r0(2) by simp
  from cross_attention_tokens_spec [OF r0(3) n(3), of ps] obtain e where e: "cross_attention_tokens ps r ins = Inr e" by blast
  have "nc \<le> int (num_tokens r)" using n(1,2) by simp
  from can_fit_call [OF ci sp r0(1) this, of e] obtain x where
    "can_fit_full_sequence r nc (Some b) 0 e (kv_cache_manager p) = Inr x" by blast
  then obtain fits where
    fits: "(if scheduler_reserve_full_isl wp then can_fit_full_sequence r nc (Some b) 0 e (kv_cache_manager p) else Inr True) = Inr fits"
    by (cases "scheduler_reserve_full_isl wp") simp_all
  note def = take_slots_def [of sha256 ops ps wp r] e fits
  show ?thesis
  proof (cases fits)
    case False
    then show ?thesis using give_up_inv [OF dp inv r] def by auto
  next
    case True
    have "b = (case Some b of Some b \<Rightarrow> b | None \<Rightarrow> empty_kv_cache_blocks (kv_cache_manager p))" by simp
    from allocate_call [OF ci sp this st, of sha256 e] r0(1) obtain out k memo where
      a: "allocate_slots sha256 r n nc (Some b) 0 0 False e (kv_cache_manager p) =
          Inr (out, k, r\<lparr>prompt_embeds_per_block_hashes := memo\<rparr>)" "coord_inv (coordinator k)"
        "kv_frame (request_id r) (kv_cache_manager p) k" "out \<noteq> None \<longrightarrow> slots_upto (request_id r) (nc + n) k" by auto
    show ?thesis
    proof (cases out)
      case None
      have un: "unknown (request_id r) k" by (rule allocate_none_unknown [OF ci r0(4) a(1) [unfolded None]])
      have inv1: "waiting_inv size_of ok has ps wp prev people budget (p\<lparr>kv_cache_manager := k\<rparr>)"
        by (rule waiting_inv_kv [OF dp inv r a(2,3) un])
      have "r \<in> set (in_queues (p\<lparr>kv_cache_manager := k\<rparr>))" using r by (simp add: in_queues_def)
      from give_up_inv [OF dp inv1 this] show ?thesis using def True None a(1) r0(1) by auto
    next
      case (Some nb')
      then show ?thesis using def True a r0(1) by auto
    qed
  qed
qed

section \<open>Admission\<close>

lemma loras_add:
  assumes "loras_ok wp p" and "\<not> lora_blocked wp r p"
    and "scheduled_loras q = (case (max_loras wp, lora_request r) of
      (Some _, Some l) \<Rightarrow> insert (lora_int_id l) (scheduled_loras p) | _ \<Rightarrow> scheduled_loras p)"
  shows "loras_ok wp q"
  using assms by (auto simp: loras_ok_def lora_blocked_def card_insert_if split: option.splits)

lemma start_request_spec:
  assumes kind: "is_encoder_decoder (encoder_side ps) = encdec" and dp: "distinct_people people"
    and inv: "waiting_inv size_of ok has ps wp prev people budget p" and head: "queue_order (queue_of c (queues p)) = r # rs"
    and len: "length (running p) < max_num_running_reqs wp" and lora: "\<not> lora_blocked wp r p"
    and st: "status r \<in> {WAITING, PREEMPTED}" and nc: "0 \<le> nc"
    and k: "coord_inv (coordinator k)" "kv_frame (request_id r) (kv_cache_manager p) k" "slots_upto (request_id r) (nc + n) k"
    and f: "feasible r nc (token_budget p) (ins, n, nb, ext) (enc_manager p)"
    and q0: "queues_fine (p\<lparr>queues := w\<rparr>)" "mset (in_queues p) = add_mset r (mset (in_queues (p\<lparr>queues := w\<rparr>)))"
    and r': "r' = r\<lparr>prompt_embeds_per_block_hashes := memo\<rparr>"
  shows "\<exists>q. start_request ops wp r' nc (ins, n, nb, ext) (p\<lparr>kv_cache_manager := k, queues := w\<rparr>) = Inr q \<and>
    waiting_inv size_of ok has ps wp prev people budget q"
proof -
  note I = waiting_invD [OF inv]
  have rq: "r \<in> set (in_queues p)" by (rule head_waits [OF head])
  note aw = I(2) [OF rq, unfolded awaiting_def well_formed_def]
  let ?rid = "request_id r"
  define r2 where "r2 = r'\<lparr>status := RUNNING, num_computed_tokens := nc,
    num_cached_tokens := (if num_cached_tokens r' < 0 then nc else num_cached_tokens r')\<rparr>"
  have r2: "request_id r2 = ?rid" "object_id r2 = object_id r" "mm_features r2 = mm_features r" "num_computed_tokens r2 = nc"
    "who r2 = who r" by (simp_all add: r2_def r')
  have n: "0 < n" "n \<le> token_budget p" "nc + n \<le> int (num_tokens r)" "0 \<le> nb" "promised r2 ins ext (enc_manager p)"
    "set ins \<subseteq> {..<length (mm_features r)}"
    using f by (auto simp: feasible_def promised_def embeds_of_def r2_def r')
  have "sized size_of r2" using aw by (simp add: sized_def get_num_encoder_embeds_def r2_def r')
  from promised_allocate [OF n(5) this] obtain m where
    m: "allocate_encoder_inputs ops r2 ins ext (enc_manager p) = Inr m" "ok m" "refs_kept (enc_manager p) m"
      "\<forall>h\<in>hash_at r2 ` set (ins @ ext). has m ?rid h" unfolding r2(1) by blast
  define p1 where "p1 = p\<lparr>kv_cache_manager := k, queues := w, running := running p @ [r2],
    scheduled_loras := (case (max_loras wp, lora_request r) of
      (Some _, Some l) \<Rightarrow> insert (lora_int_id l) (scheduled_loras p) | _ \<Rightarrow> scheduled_loras p),
    req_to_new_blocks := dict_set ?rid (kv_get_blocks ?rid k) (req_to_new_blocks p),
    num_scheduled_tokens := dict_set ?rid n (num_scheduled_tokens p), token_budget := token_budget p - n\<rparr>"
  define p2 where "p2 = (if status r = WAITING then p1\<lparr>scheduled_new_reqs := scheduled_new_reqs p1 @ [object_id r]\<rparr>
    else p1\<lparr>scheduled_resumed_reqs := scheduled_resumed_reqs p1 @ [object_id r]\<rparr>)"
  define q where "q = (if ins = [] then p2\<lparr>enc_manager := m\<rparr>
    else p2\<lparr>enc_manager := m, scheduled_encoder_inputs := dict_set ?rid ins (scheduled_encoder_inputs p2), encoder_budget := nb\<rparr>)"
  have run: "start_request ops wp r' nc (ins, n, nb, ext) (p\<lparr>kv_cache_manager := k, queues := w\<rparr>) = Inr q"
  proof -
    have same: "request_id r' = ?rid" "object_id r' = object_id r" "status r' = status r" "lora_request r' = lora_request r"
      by (simp_all add: r')
    show ?thesis
    proof (cases "status r = WAITING")
      case True
      then show ?thesis using m(1) unfolding start_request_def Let_def r2_def [symmetric] same prod.case
        by (simp add: p1_def p2_def q_def cong: option.case_cong)
    next
      case False
      then have "status r = PREEMPTED" using st by simp
      then show ?thesis using m(1) unfolding start_request_def Let_def r2_def [symmetric] same prod.case
        by (simp add: p1_def p2_def q_def cong: option.case_cong)
    qed
  qed
  have qf: "running q = running p @ [r2]" "kv_cache_manager q = k" "enc_manager q = m" "in_queues q = in_queues (p\<lparr>queues := w\<rparr>)"
    "scheduled_loras q = scheduled_loras p1" "queues q = w" "step_skipped_waiting q = step_skipped_waiting p"
    "mset (scheduled_ids q) = add_mset (object_id r2) (mset (scheduled_ids p))"
    "req_to_new_blocks q = dict_set (request_id r2) (kv_get_blocks ?rid k) (req_to_new_blocks p)"
    "num_scheduled_tokens q = dict_set (request_id r2) n (num_scheduled_tokens p)" "token_budget q = token_budget p - n"
    "scheduled_encoder_inputs q = (if ins = [] then scheduled_encoder_inputs p else dict_set (request_id r2) ins (scheduled_encoder_inputs p))"
    "0 \<le> encoder_budget q" "scheduled_spec_decode_tokens q = scheduled_spec_decode_tokens p"
    using I(5) n(4) by (auto simp: q_def p2_def p1_def r2 in_queues_def scheduled_ids_def accounts_def)
  have others: "object_id z \<noteq> object_id r \<and> request_id z \<noteq> ?rid" if "z \<in> set (running p) \<union> set (in_queues q)" for z
    using alone [OF dp I(4) q0(2)] that unfolding qf(4) by blast
  have slots: "slots_upto ?rid nc k" by (rule slots_upto_mono [OF k(3)]) (use n(1) in simp)
  have "ready size_of ps k z" if "z \<in> set (running p)" for z
    using that I(1) others by (intro ready_frame [OF k(2)]) (auto simp: served_def)
  moreover have "hashed r k" using kv_frame_hashed [OF k(2)] aw by simp
  then have "ready size_of ps k r2" using aw slots nc n(1,3)
    by (simp add: ready_def well_formed_def r2_def r' in_range_def hashed_def num_tokens_def sized_def get_num_encoder_embeds_def)
  ultimately have "served size_of ok ps q"
    using I(1) k(1) m(2) kv_frame_static [OF k(2)] by (auto simp: served_def qf)
  moreover have "awaiting size_of ps wp k z" if z: "z \<in> set (in_queues q)" for z
  proof -
    have zp: "z \<in> set (in_queues p)" using z mset_eq_setD [OF q0(2) [folded mset.simps(2)]] by (auto simp: qf(4))
    from awaiting_frame [OF k(2) I(2) [OF zp]] show ?thesis
      using I(2) [OF zp] kv_frame_other(2) [OF k(2)] others z by (auto simp: awaiting_def)
  qed
  moreover have "queues_fine q" using q0(1) by (simp add: queues_fine_def qf)
  moreover have "mset (map who (everyone q)) = people"
    using I(4) q0(2) by (simp add: everyone_def qf(1,4) r2(5))
  moreover have "accounts has ps budget q"
  proof (rule accounts_add [OF I(5) qf(1,8) _ qf(9-11) n(2) qf(12-14)])
    show "object_id z \<noteq> object_id r2 \<and> request_id z \<noteq> request_id r2" if "z \<in> set (running p)" for z
      using others that by (simp add: r2)
    show "kv_frame (request_id r2) (kv_cache_manager p) (kv_cache_manager q)" using k(2) by (simp add: r2 qf)
    show "\<forall>rid h. has (enc_manager p) rid h \<longrightarrow> has (enc_manager q) rid h" using m(3) by (simp add: refs_kept_def qf)
    have "?rid \<notin> set (dict_keys (scheduled_encoder_inputs p))" "?rid \<notin> set (dict_keys (scheduled_spec_decode_tokens p))"
    proof -
      have "?rid \<notin> request_id ` set (running p)" using others by (metis Un_iff imageE)
      then show "?rid \<notin> set (dict_keys (scheduled_encoder_inputs p))" "?rid \<notin> set (dict_keys (scheduled_spec_decode_tokens p))"
        using I(5) by (auto simp: accounts_def)
    qed
    moreover have "\<not> encdec \<longrightarrow> (\<forall>f \<in> set (mm_features r). needs f nc n \<longrightarrow> has m ?rid (mm_identifier f))"
      using f m(3,4) unfolding feasible_def refs_kept_def r2_def r' by force
    ultimately show "granted has ps q r2" unfolding granted_def drafted_def kind qf r2
      using n k(3) aw by (auto simp: token_bound_def r2_def r' num_tokens_def dict_get_set dict_get_None_iff [symmetric] split: if_splits)
  qed
  moreover have "not_resumed prev q"
  proof -
    have "set (in_queues q) \<subseteq> set (in_queues p)" using mset_eq_setD [OF q0(2) [folded mset.simps(2)]] by (auto simp: qf(4))
    moreover have "set (scheduled_resumed_reqs q) \<subseteq> (if status r = PREEMPTED then {object_id r} else {}) \<union> set (scheduled_resumed_reqs p)"
      using st by (auto simp: q_def p2_def p1_def)
    moreover have "status r = PREEMPTED \<Longrightarrow> ?rid \<notin> prev" using I(8) rq by (simp add: not_resumed_def)
    moreover have "object_id r \<notin> set (scheduled_resumed_reqs p)"
    proof
      assume "object_id r \<in> set (scheduled_resumed_reqs p)"
      then obtain z where "z \<in> set (running p)" "object_id z = object_id r"
        using I(5) by (force simp: accounts_def scheduled_ids_def)
      then show False using others by blast
    qed
    ultimately show ?thesis using I(8) others r2 unfolding not_resumed_def qf(1)
      by (auto split: if_splits)
  qed
  moreover have "loras_ok wp q"
    by (rule loras_add [OF I(7) lora]) (simp add: qf p1_def)
  ultimately have "waiting_inv size_of ok has ps wp prev people budget q"
    using len by (simp add: waiting_inv_def qf(1,2))
  then show ?thesis using run by blast
qed

lemma admit_request_spec:
  assumes kind: "is_encoder_decoder (encoder_side ps) = encdec" and dp: "distinct_people people"
    and inv: "waiting_inv size_of ok has ps wp prev people budget p" and head: "queue_order (queue_of c (queues p)) = r # rs"
    and len: "length (running p) < max_num_running_reqs wp" and lora: "\<not> lora_blocked wp r p"
    and st: "status r \<in> {WAITING, PREEMPTED}" and nc: "0 \<le> nc"
    and k: "coord_inv (coordinator k)" "kv_frame (request_id r) (kv_cache_manager p) k" "slots_upto (request_id r) (nc + n) k"
    and f: "feasible r nc (token_budget p) (ins, n, nb, ext) (enc_manager p)"
    and r': "r' = r\<lparr>prompt_embeds_per_block_hashes := memo\<rparr>"
  shows "\<exists>q. admit_request ops wp c r' (b, nc, 0, False, nc) (ins, n, nb, ext) (p\<lparr>kv_cache_manager := k\<rparr>) = Inr q \<and>
    waiting_inv size_of ok has ps wp prev people budget q"
proof -
  from pop_head [OF waiting_invD(3) [OF inv] head] obtain x where
    x: "pop_request (queue_of c (queues p)) = Inr (r, x)" "queues_fine (p\<lparr>queues := set_queue_of c x (queues p)\<rparr>)"
      "mset (in_queues p) = add_mset r (mset (in_queues (p\<lparr>queues := set_queue_of c x (queues p)\<rparr>)))" by blast
  from start_request_spec [OF kind dp inv head len lora st nc k f x(2,3) r'] x(1) show ?thesis
    by (simp add: admit_request_def)
qed

section \<open>One iteration\<close>

lemma schedule_waiting_request_spec:
  assumes kind: "is_encoder_decoder (encoder_side ps) = encdec" and ps: "params_ok ps" and dp: "distinct_people people"
    and conn: "kv_connector wp = None"
    and inv: "waiting_inv size_of ok has ps wp prev people budget p" and head: "queue_order (queue_of c (queues p)) = r # rs"
    and len: "length (running p) < max_num_running_reqs wp" and lora: "\<not> lora_blocked wp r p"
    and st: "status r \<in> {WAITING, PREEMPTED}" and b: "0 < token_budget p"
  shows "\<exists>stop q. schedule_waiting_request sha256 ops ps wp c r p = Some (Inr (stop, q)) \<and>
    waiting_inv size_of ok has ps wp prev people budget q"
proof -
  note I = waiting_invD [OF inv]
  have rq: "r \<in> set (in_queues p)" by (rule head_waits [OF head])
  note aw = I(2) [OF rq, unfolded awaiting_def well_formed_def]
  have ci: "coord_inv (coordinator (kv_cache_manager p))" "kv_static (sched_max_model_len ps) (sched_block_size ps) (kv_cache_manager p)"
    using I(1) by (auto simp: served_def)
  have rr: "unknown (request_id r) (kv_cache_manager p)" "hashed r (kv_cache_manager p)" "0 < num_tokens r" "num_computed_tokens r = 0"
    using aw by auto
  from lookup_call [OF ci rr] obtain bl nc k where
    l: "get_computed_blocks r (kv_cache_manager p) = Some (Inr (bl, nc, k))" "0 \<le> nc" "nc < int (num_tokens r)"
      "coord_inv (coordinator k)" "kv_frame (request_id r) (kv_cache_manager p) k" "unknown (request_id r) k"
    and pre: "\<forall>num_new look. 0 < num_new \<longrightarrow> 0 \<le> look \<longrightarrow> nc + num_new \<le> sched_max_model_len ps \<longrightarrow> slots_pre r num_new nc bl look 0 False k"
    by blast
  let ?hit = "(bl, nc, 0, False, nc)" and ?p1 = "p\<lparr>kv_cache_manager := k\<rparr>"
  have found: "cached_tokens wp r (kv_cache_manager p) = Some (Inr (Some (?hit, r), k))"
    using l(1,3) rr(4) conn by (simp add: cached_tokens_def)
  have inv1: "waiting_inv size_of ok has ps wp prev people budget ?p1" by (rule waiting_inv_kv [OF dp inv rq l(4-6)])
  note I1 = waiting_invD [OF inv1]
  have rq1: "r \<in> set (in_queues ?p1)" using rq by (simp add: in_queues_def)
  have ok1: "ok (enc_manager ?p1)" and b1: "0 < token_budget ?p1" "0 \<le> encoder_budget ?p1"
    using I1(1,5) b by (auto simp: served_def accounts_def)
  from waiting_plan_spec [OF kind ps ok1 I1(2) [OF rq1] l(2,3) b1, of bl] obtain out m where
    pl: "waiting_plan ops ps wp r ?hit ?p1 = Inr (out, m)" "ok m" "refs_kept (enc_manager ?p1) m"
      "\<forall>pl. out = Some pl \<longrightarrow> feasible r nc (token_budget ?p1) pl m" by blast
  let ?p2 = "?p1\<lparr>enc_manager := m\<rparr>" and ?p3 = "store_waiting c r (?p1\<lparr>enc_manager := m\<rparr>)"
  have inv2: "waiting_inv size_of ok has ps wp prev people budget ?p2"
    by (rule waiting_inv_cache [OF dp inv1 rq1 pl(2)]) (use pl(3) in \<open>simp add: refs_kept_def\<close>)
  have head2: "queue_order (queue_of c (queues ?p2)) = r # rs" using head by simp
  have aw2: "awaiting size_of ps wp (kv_cache_manager ?p2) r" using I1(2) [OF rq1] by simp
  note st3 = store_inv [OF dp inv2 head2 refl aw2 refl]
  have p3: "kv_cache_manager ?p3 = k" "enc_manager ?p3 = m" "token_budget ?p3 = token_budget p" "running ?p3 = running p"
    "scheduled_loras ?p3 = scheduled_loras p"
    by (simp_all add: store_waiting_def)
  have def: "schedule_waiting_request sha256 ops ps wp c r p = Some (case out of None \<Rightarrow> Inr (True, ?p3)
      | Some pl \<Rightarrow> rbind (take_slots sha256 ops ps wp r ?hit pl ?p3) (\<lambda>(got, p3).
          case got of None \<Rightarrow> Inr (True, p3) | Some r2 \<Rightarrow> rbind (admit_request ops wp c r2 ?hit pl p3) (\<lambda>p4. Inr (False, p4))))"
    by (simp add: schedule_waiting_request_def found pl(1) Let_def)
  show ?thesis
  proof (cases out)
    case None
    then show ?thesis using def st3(1) by auto
  next
    case (Some plan)
    obtain ins n nb ext where plan: "plan = (ins, n, nb, ext)" by (cases plan)
    have f: "feasible r nc (token_budget ?p3) (ins, n, nb, ext) (enc_manager ?p3)" using pl(4) Some plan p3 by simp
    have pre3: "\<forall>num_new look. 0 < num_new \<longrightarrow> 0 \<le> look \<longrightarrow> nc + num_new \<le> sched_max_model_len ps \<longrightarrow>
        slots_pre r num_new nc bl look 0 False (kv_cache_manager ?p3)" using pre p3(1) by simp
    from take_slots_spec [OF dp st3(1) head_waits [OF st3(2)] l(2) pre3 f, of sha256] obtain got q where
      t: "take_slots sha256 ops ps wp r ?hit (ins, n, nb, ext) ?p3 = Inr (got, q)"
        "got = None \<longrightarrow> waiting_inv size_of ok has ps wp prev people budget q"
        "\<forall>r'. got = Some r' \<longrightarrow> (\<exists>memo k'. r' = r\<lparr>prompt_embeds_per_block_hashes := memo\<rparr> \<and> q = ?p3\<lparr>kv_cache_manager := k'\<rparr> \<and>
           coord_inv (coordinator k') \<and> kv_frame (request_id r) (kv_cache_manager ?p3) k' \<and> slots_upto (request_id r) (nc + n) k')"
      by blast
    show ?thesis
    proof (cases got)
      case None
      then show ?thesis using def Some plan t(1,2) by auto
    next
      case got: (Some r')
      with t(3) obtain memo k' where
        a: "r' = r\<lparr>prompt_embeds_per_block_hashes := memo\<rparr>" "q = ?p3\<lparr>kv_cache_manager := k'\<rparr>" "coord_inv (coordinator k')"
          "kv_frame (request_id r) (kv_cache_manager ?p3) k'" "slots_upto (request_id r) (nc + n) k'" by blast
      have "length (running ?p3) < max_num_running_reqs wp" "\<not> lora_blocked wp r ?p3"
        using len lora p3 by (simp_all add: lora_blocked_def cong: option.case_cong)
      from admit_request_spec [OF kind dp st3 this st l(2) a(3-5) f a(1), of bl] show ?thesis
        using def Some plan t(1) got a(2) by auto
    qed
  qed
qed

lemma promote_spec:
  assumes "awaiting size_of ps wp (kv_cache_manager p) r" and "is_blocked_waiting_status (status r)"
  shows "\<exists>ready r'. try_promote_blocked_waiting_request sha256 wp r p = Inr (ready, r', p) \<and> request_key r' = request_key r \<and>
    awaiting size_of ps wp (kv_cache_manager p) r' \<and> who r' = who r \<and> status r' \<noteq> PREEMPTED \<and>
    (ready \<longrightarrow> status r' = WAITING)"
proof (cases "status r = WAITING_FOR_STRUCTURED_OUTPUT_GRAMMAR")
  case True
  let ?r = "r\<lparr>status := WAITING\<rparr>"
  have "request_key ?r = request_key r" "awaiting size_of ps wp (kv_cache_manager p) ?r"
    using assms(1) by (simp_all add: request_key_def awaiting_def well_formed_def sized_def get_num_encoder_embeds_def hashed_def num_tokens_def)
  then show ?thesis using True assms(1) by (auto simp: try_promote_blocked_waiting_request_def)
next
  case False
  then have "status r = WAITING_FOR_STREAMING_REQ \<and> \<not> streaming_input wp r"
    using assms by (auto simp: awaiting_def is_blocked_waiting_status_def)
  then show ?thesis using assms(1) by (auto simp: try_promote_blocked_waiting_request_def)
qed

lemma waiting_step_spec:
  assumes kind: "is_encoder_decoder (encoder_side ps) = encdec" and ps: "params_ok ps" and dp: "distinct_people people"
    and conn: "kv_connector wp = None" and inv: "waiting_inv size_of ok has ps wp prev people budget p"
    and go: "queue_bool (waiting (queues p)) \<or> queue_bool (skipped_waiting (queues p))" "0 < token_budget p"
  shows "\<exists>stop q. waiting_step sha256 ops ps wp p = Some (Inr (stop, q)) \<and> waiting_inv size_of ok has ps wp prev people budget q"
proof (cases "length (running p) = max_num_running_reqs wp")
  case True
  then show ?thesis using inv by (auto simp: waiting_step_def)
next
  case False
  note I = waiting_invD [OF inv]
  have qok: "queue_ok (policy (queues p)) (waiting (queues p))" "queue_ok (policy (queues p)) (skipped_waiting (queues p))"
    using I(3) by (simp_all add: queues_fine_def Let_def)
  from select_choice [OF qok refl go(1)] obtain c r rs where
    c: "select_waiting_queue_for_scheduling (queues p) = Inr (Some c)" "queue_order (queue_of c (queues p)) = r # rs"
      "peek_request (queue_of c (queues p)) = Inr r" by blast
  have aw: "awaiting size_of ps wp (kv_cache_manager p) r" by (rule I(2) [OF head_waits [OF c(2)]])
  obtain ready r' p' where
    p': "(if is_blocked_waiting_status (status r)
        then rbind (try_promote_blocked_waiting_request sha256 wp r p) (\<lambda>(ready, r', p'). Inr (c, ready, r', store_waiting c r' p'))
        else Inr (c, True, r, p)) = Inr (c, ready, r', p')" "waiting_inv size_of ok has ps wp prev people budget p'"
      "queue_order (queue_of c (queues p')) = r' # rs" "ready \<longrightarrow> status r' \<in> {WAITING, PREEMPTED}"
      "running p' = running p" "token_budget p' = token_budget p"
  proof (cases "is_blocked_waiting_status (status r)")
    case True
    from promote_spec [OF aw True, of sha256] obtain ready r' where
      t: "try_promote_blocked_waiting_request sha256 wp r p = Inr (ready, r', p)" "request_key r' = request_key r"
        "awaiting size_of ps wp (kv_cache_manager p) r'" "who r' = who r" "status r' \<noteq> PREEMPTED"
        "ready \<longrightarrow> status r' = WAITING" by blast
    from that [of ready r' "store_waiting c r' p"] True t store_inv [OF dp inv c(2) t(2-4)] show ?thesis
      by (simp add: store_waiting_def)
  next
    case unblocked: False
    then have "status r \<in> {WAITING, PREEMPTED}" using aw by (auto simp: awaiting_def is_blocked_waiting_status_def)
    then show ?thesis using that [of True r p] unblocked inv c(2) by simp
  qed
  have step: "waiting_step sha256 ops ps wp p =
      (if \<not> ready \<or> lora_blocked wp r' p' then Some (rbind (skip_request c r' p') (\<lambda>p'. Inr (False, p')))
       else schedule_waiting_request sha256 ops ps wp c r' p')"
    using False c(1,3) p'(1) by (simp add: waiting_step_def)
  have len: "length (running p') < max_num_running_reqs wp" using False I(6) p'(5) by simp
  show ?thesis
  proof (cases "\<not> ready \<or> lora_blocked wp r' p'")
    case True
    have "awaiting size_of ps wp (kv_cache_manager p') r'" by (rule waiting_invD(2) [OF p'(2) head_waits [OF p'(3)]])
    from skip_inv [OF dp p'(2,3) refl this] True step show ?thesis by auto
  next
    case go': False
    then have "status r' \<in> {WAITING, PREEMPTED}" "0 < token_budget p'" using p'(4,6) go(2) by auto
    from schedule_waiting_request_spec [OF kind ps dp conn p'(2,3) len _ this, of sha256] go' step show ?thesis by simp
  qed
qed

lemma waiting_loop_spec:
  assumes kind: "is_encoder_decoder (encoder_side ps) = encdec" and ps: "params_ok ps" and dp: "distinct_people people"
    and conn: "kv_connector wp = None"
  shows "waiting_inv size_of ok has ps wp prev people budget p \<Longrightarrow>
    \<exists>q. waiting_loop sha256 ops ps wp p = Some (Inr q) \<and> waiting_inv size_of ok has ps wp prev people budget q"
proof (induction "queued (queues p)" arbitrary: p rule: less_induct)
  case less
  show ?case
  proof (cases "(queue_bool (waiting (queues p)) \<or> queue_bool (skipped_waiting (queues p))) \<and> 0 < token_budget p")
    case True
    with waiting_step_spec [OF kind ps dp conn less.prems, of sha256] obtain stop q where
      q: "waiting_step sha256 ops ps wp p = Some (Inr (stop, q))" "waiting_inv size_of ok has ps wp prev people budget q" by blast
    show ?thesis
    proof (cases stop)
      case stop: True
      then show ?thesis using q True by (simp add: waiting_loop.simps [of sha256 ops ps wp p])
    next
      case False
      then have "queued (queues q) < queued (queues p)" using waiting_step_queued [of sha256 ops ps wp p q] q(1) by simp
      from less.hyps [OF this q(2)] q(1) False True show ?thesis by (simp add: waiting_loop.simps [of sha256 ops ps wp p])
    qed
  next
    case False
    then show ?thesis using less.prems by (auto simp: waiting_loop.simps [of sha256 ops ps wp p])
  qed
qed

end

end
