(* ===== verification/Schedule.thy ===== *)
theory Schedule
  imports Waiting
begin

text \<open>
  \<^verbatim>\<open>vllm/v1/core/sched/scheduler.py\<close>: \<^verbatim>\<open>schedule\<close> as a whole, around the two loops: the LoRA
  check between them, putting back what was skipped, the checks of the scheduling constraints,
  the scheduler output (\<^verbatim>\<open>vllm/v1/core/sched/output.py\<close>) and \<^verbatim>\<open>_update_after_schedule\<close>.

  Without a KV connector a request is in \<^verbatim>\<open>self.requests\<close> exactly while it is in the list of running
  requests or in one of the two queues, so the dictionary is a search in these lists. The
  metadata that connectors add to the output is left out.
\<close>

section \<open>State and output\<close>

datatype pause_state = UNPAUSED | PAUSED_NEW | PAUSED_ALL

record 'm sched_state = "'m scheduler" +
  finished_req_ids :: "string set"
  prev_step_scheduled_req_ids :: "string set"
  pause :: pause_state
  recv_finished :: "string set"
  recv_failed :: "string set"

record 'm output_params =
  use_v2_model_runner :: bool
  use_pp :: bool
  async_scheduling :: bool
  needs_kv_cache_zeroing :: bool
  kv_cache_group_count :: nat
  op_get_freed_mm_hashes :: "'m \<Rightarrow> string list \<times> 'm"

record new_request_data =
  nr_req_id :: string
  nr_prompt_token_ids :: "int list option"
  nr_mm_features :: "mm_feature list"
  nr_sampling_params :: "sampling_params_rec option"
  nr_pooling_params :: "pooling_params_rec option"
  nr_block_ids :: "int list list option"
  nr_num_computed_tokens :: int
  nr_lora_request :: "lora_request_rec option"
  nr_prompt_embeds :: "bytes list option"
  prefill_token_ids :: "int list option"

record cached_request_data =
  cr_req_ids :: "string list"
  resumed_req_ids :: "string set"
  cr_new_token_ids :: "int list list"
  cr_all_token_ids :: "(string, int list) pydict"
  cr_new_block_ids :: "int list list option list"
  cr_num_computed_tokens :: "int list"
  cr_num_output_tokens :: "int list"

record scheduler_output =
  out_new_reqs :: "new_request_data list"
  out_cached_reqs :: cached_request_data
  out_num_scheduled_tokens :: "(string, int) pydict"
  total_num_scheduled_tokens :: int
  out_spec_decode_tokens :: "(string, int list) pydict"
  out_encoder_inputs :: "(string, nat list) pydict"
  num_common_prefix_blocks :: "int list"
  preempted_req_ids :: "string set"
  out_finished_req_ids :: "string set"
  free_encoder_mm_hashes :: "string list"
  new_block_ids_to_zero :: "int list option"
  has_structured_output_requests :: bool

section \<open>Finding requests\<close>

fun queue_items :: "request_queue \<Rightarrow> request list" where
  "queue_items (FCFSRequestQueue q) = q"
| "queue_items (PriorityRequestQueue h) = h"

text \<open>\<^verbatim>\<open>self.requests\<close>, and a change of one of its objects\<close>

definition all_requests :: "('m, 'z) scheduler_scheme \<Rightarrow> request list" where
  "all_requests s = running s @ queue_items (waiting (queues s)) @ queue_items (skipped_waiting (queues s))"

definition get_request :: "string \<Rightarrow> ('m, 'z) scheduler_scheme \<Rightarrow> request option" where
  "get_request rid s = find (\<lambda>r. request_id r = rid) (all_requests s)"

definition put_request :: "request \<Rightarrow> ('m, 'z) scheduler_scheme \<Rightarrow> ('m, 'z) scheduler_scheme" where
  "put_request r s =
     s\<lparr>running := set_request r (running s),
       queues := (queues s)\<lparr>waiting := update_in_queue r (waiting (queues s)),
                           skipped_waiting := update_in_queue r (skipped_waiting (queues s))\<rparr>\<rparr>"

text \<open>The objects of a list of scheduled requests.\<close>

definition objects :: "request list \<Rightarrow> nat list \<Rightarrow> request list" where
  "objects rs ids = List.map_filter (\<lambda>i. find (\<lambda>r. object_id r = i) rs) ids"

section \<open>Between the loops\<close>

definition running_loras :: "waiting_params \<Rightarrow> 'm running_pass \<Rightarrow> int set" where
  "running_loras wp p =
     (if max_loras wp = None then {}
      else set (filter (\<lambda>i. 0 < i) (List.map_filter (\<lambda>r. map_option lora_int_id (lora_request r))
             (objects (running p) (scheduled_running_reqs p)))))"

definition start_waiting :: "waiting_params \<Rightarrow> string set \<Rightarrow> string set \<Rightarrow> 'm running_pass \<Rightarrow> 'm waiting_pass res" where
  "start_waiting wp recv failed p =
     (if (case max_loras wp of None \<Rightarrow> False | Some n \<Rightarrow> n < int (card (running_loras wp p))) then Inl AssertionError
      else Inr (running_pass.extend p
             \<lparr>scheduled_new_reqs = [], scheduled_resumed_reqs = [], scheduled_loras = running_loras wp p,
              step_skipped_waiting = create_request_queue (policy (queues p)),
              finished_recving_kv_req_ids = recv, failed_recving_kv_req_ids = failed\<rparr>))"

text \<open>What was skipped goes back before the older skipped requests.\<close>

definition requeue_skipped :: "'m waiting_pass \<Rightarrow> 'm waiting_pass" where
  "requeue_skipped p =
     (if queue_bool (step_skipped_waiting p)
      then p\<lparr>queues := (queues p)\<lparr>skipped_waiting := prepend_requests (step_skipped_waiting p) (skipped_waiting (queues p))\<rparr>\<rparr>
      else p)"

definition schedule_waiting ::
  "(bytes \<Rightarrow> bytes) \<Rightarrow> 'm encoder_ops \<Rightarrow> scheduler_params \<Rightarrow> waiting_params \<Rightarrow> pause_state \<Rightarrow> 'm waiting_pass \<Rightarrow>
   'm waiting_pass res option" where
  "schedule_waiting sha256 ops ps wp pst p =
     (if preempted_reqs p = [] \<and> pst = UNPAUSED
      then map_option (\<lambda>out. rbind out (\<lambda>p'. Inr (requeue_skipped p'))) (waiting_loop sha256 ops ps wp p)
      else Some (Inr p))"

definition constraints_hold :: "scheduler_params \<Rightarrow> waiting_params \<Rightarrow> 'm waiting_pass \<Rightarrow> bool" where
  "constraints_hold ps wp p \<longleftrightarrow>
     sum_list (map snd (num_scheduled_tokens p)) \<le> max_num_scheduled_tokens ps \<and>
     0 \<le> token_budget p \<and> length (running p) \<le> max_num_running_reqs wp \<and>
     length (scheduled_new_reqs p) + length (scheduled_resumed_reqs p) + length (scheduled_running_reqs p) \<le> length (running p)"

section \<open>The output\<close>

definition from_request :: "request \<Rightarrow> int list list option \<Rightarrow> int list option \<Rightarrow> new_request_data" where
  "from_request r block_ids prefill =
     \<lparr>nr_req_id = request_id r, nr_prompt_token_ids = prompt_token_ids r, nr_mm_features = mm_features r,
      nr_sampling_params = sampling_params r, nr_pooling_params = pooling_params r, nr_block_ids = block_ids,
      nr_num_computed_tokens = num_computed_tokens r, nr_lora_request = lora_request r,
      nr_prompt_embeds = prompt_embeds r, prefill_token_ids = prefill\<rparr>"

text \<open>\<^verbatim>\<open>req_to_new_blocks[req_id].get_block_ids()\<close>\<close>

definition new_block_ids_of :: "bool \<Rightarrow> 'm waiting_pass \<Rightarrow> string \<Rightarrow> int list list option res" where
  "new_block_ids_of allow_none p rid =
     (case dict_get (req_to_new_blocks p) rid of
        None \<Rightarrow> Inl KeyError
      | Some b \<Rightarrow> Inr (get_block_ids allow_none (coord_pool (coordinator (kv_cache_manager p))) b))"

fun map_res :: "('a \<Rightarrow> 'b res) \<Rightarrow> 'a list \<Rightarrow> 'b list res" where
  "map_res f [] = Inr []"
| "map_res f (x # xs) = rbind (f x) (\<lambda>y. rbind (map_res f xs) (\<lambda>ys. Inr (y # ys)))"

definition new_requests_data :: "bool \<Rightarrow> 'm waiting_pass \<Rightarrow> request list \<Rightarrow> new_request_data list res" where
  "new_requests_data v2 p reqs =
     map_res (\<lambda>r. rbind (new_block_ids_of False p (request_id r)) (\<lambda>ids.
        Inr (from_request r ids (if v2 then Some (all_token_ids r) else None)))) reqs"

text \<open>
  The tokens sent with pipeline parallelism: \<^verbatim>\<open>all_token_ids[n : n + num_tokens]\<close> behind the
  computed tokens, where both bounds are positions in the list or behind it.
\<close>

definition tokens_to_send :: "'m waiting_pass \<Rightarrow> request \<Rightarrow> int list res" where
  "tokens_to_send p r =
     (case dict_get (num_scheduled_tokens p) (request_id r) of
        None \<Rightarrow> Inl KeyError
      | Some n \<Rightarrow>
          let drafts = (case dict_get (scheduled_spec_decode_tokens p) (request_id r) of None \<Rightarrow> [] | Some ts \<Rightarrow> ts)
          in Inr (py_slice (nat (num_computed_tokens r)) (nat (num_computed_tokens r + (n - int (length drafts)))) (all_token_ids r)))"

definition cached_entry ::
  "'m output_params \<Rightarrow> string set \<Rightarrow> 'm waiting_pass \<Rightarrow> bool \<Rightarrow> request \<Rightarrow> cached_request_data \<Rightarrow> cached_request_data res" where
  "cached_entry op prev p resumed r d =
     (let rid = request_id r; before = rid \<in> prev in
      rbind (if use_pp op \<and> \<not> async_scheduling op then rbind (tokens_to_send p r) (\<lambda>ts. Inr (cr_new_token_ids d @ [ts]))
             else Inr (cr_new_token_ids d)) (\<lambda>new_tokens.
      if resumed \<and> before then Inl AssertionError
      else rbind (new_block_ids_of True p rid) (\<lambda>ids.
        Inr \<lparr>cr_req_ids = cr_req_ids d @ [rid],
             resumed_req_ids = (if resumed then insert rid (resumed_req_ids d) else resumed_req_ids d),
             cr_new_token_ids = new_tokens,
             cr_all_token_ids = (if before then cr_all_token_ids d else dict_set rid (all_token_ids r) (cr_all_token_ids d)),
             cr_new_block_ids = cr_new_block_ids d @ [ids],
             cr_num_computed_tokens = cr_num_computed_tokens d @ [num_computed_tokens r],
             cr_num_output_tokens = cr_num_output_tokens d @ [int (num_output_tokens r) + num_output_placeholders r]\<rparr>)))"

definition make_cached_request_data ::
  "'m output_params \<Rightarrow> string set \<Rightarrow> 'm waiting_pass \<Rightarrow> request list \<Rightarrow> request list \<Rightarrow> cached_request_data res" where
  "make_cached_request_data op prev p running_reqs resumed_reqs =
     rbind (fold_res (cached_entry op prev p False) running_reqs
              \<lparr>cr_req_ids = [], resumed_req_ids = {}, cr_new_token_ids = [], cr_all_token_ids = [], cr_new_block_ids = [],
               cr_num_computed_tokens = [], cr_num_output_tokens = []\<rparr>)
       (fold_res (cached_entry op prev p True) resumed_reqs)"

text \<open>The common prefix of the running requests, which asks for the blocks of the first one.\<close>

definition common_prefix :: "'m output_params \<Rightarrow> 'm waiting_pass \<Rightarrow> int list \<times> kv_manager" where
  "common_prefix op p =
     (case running p of
        [] \<Rightarrow> (replicate (kv_cache_group_count op) 0, kv_cache_manager p)
      | r # _ \<Rightarrow> kv_get_num_common_prefix_blocks (request_id r) (kv_cache_manager p))"

definition make_output ::
  "'m output_params \<Rightarrow> string set \<Rightarrow> string set \<Rightarrow> 'm waiting_pass \<Rightarrow> (scheduler_output \<times> 'm waiting_pass) res" where
  "make_output op finished prev p =
     (let (prefix, kv) = common_prefix op p;
          p1 = p\<lparr>kv_cache_manager := kv\<rparr>;
          new = objects (running p) (scheduled_new_reqs p);
          resumed = objects (running p) (scheduled_resumed_reqs p);
          (new', resumed') = (if use_v2_model_runner op then (new @ resumed, []) else (new, resumed))
      in rbind (new_requests_data (use_v2_model_runner op) p1 new') (\<lambda>new_data.
         rbind (make_cached_request_data op prev p1 (objects (running p) (scheduled_running_reqs p)) resumed') (\<lambda>cached.
           let (zero, kv') = (if needs_kv_cache_zeroing op
                              then let (ids, k) = kv_take_new_block_ids kv in (if ids = [] then None else Some ids, k)
                              else (None, kv));
               (freed, enc) = op_get_freed_mm_hashes op (enc_manager p)
           in Inr (\<lparr>out_new_reqs = new_data, out_cached_reqs = cached, out_num_scheduled_tokens = num_scheduled_tokens p,
                    total_num_scheduled_tokens = sum_list (map snd (num_scheduled_tokens p)),
                    out_spec_decode_tokens = scheduled_spec_decode_tokens p,
                    out_encoder_inputs = scheduled_encoder_inputs p, num_common_prefix_blocks = prefix,
                    preempted_req_ids = request_id ` set (preempted_reqs p), out_finished_req_ids = finished,
                    free_encoder_mm_hashes = freed, new_block_ids_to_zero = zero,
                    has_structured_output_requests = False\<rparr>,
                   p\<lparr>kv_cache_manager := kv', enc_manager := enc\<rparr>))))"

section \<open>After the step\<close>

text \<open>Every scheduled request advances by its tokens and releases the encoder outputs behind them.\<close>

definition advance_request ::
  "'m encoder_ops \<Rightarrow> encoder_scheduler \<Rightarrow> string \<times> int \<Rightarrow> bool \<times> ('m, 'z) scheduler_scheme \<Rightarrow>
   (bool \<times> ('m, 'z) scheduler_scheme) res" where
  "advance_request ops sched = (\<lambda>(rid, n) (structured, s).
     case get_request rid s of
       None \<Rightarrow> Inl KeyError
     | Some r \<Rightarrow>
         let computed = num_computed_tokens r + n;
             chunk = computed < int (num_tokens r) + num_output_placeholders r;
             r' = r\<lparr>num_computed_tokens := computed, is_prefill_chunk := chunk\<rparr>;
             s' = put_request r' s
         in rbind (if has_encoder_inputs r' then free_encoder_inputs ops sched r' (enc_manager s') else Inr (enc_manager s'))
              (\<lambda>enc. Inr (structured \<or> use_structured_output r \<and> \<not> chunk, s'\<lparr>enc_manager := enc\<rparr>)))"

definition update_after_schedule ::
  "'m encoder_ops \<Rightarrow> encoder_scheduler \<Rightarrow> (string, int) pydict \<Rightarrow> ('m, 'z) scheduler_scheme \<Rightarrow>
   (bool \<times> ('m, 'z) scheduler_scheme) res" where
  "update_after_schedule ops sched scheduled s = fold_res (advance_request ops sched) scheduled (False, s)"

definition finish_pass ::
  "'m encoder_ops \<Rightarrow> scheduler_params \<Rightarrow> waiting_params \<Rightarrow> 'm output_params \<Rightarrow> 'm sched_state \<Rightarrow> 'm waiting_pass \<Rightarrow>
   (scheduler_output \<times> 'm sched_state) res" where
  "finish_pass ops ps wp op s p =
     (if \<not> constraints_hold ps wp p then Inl AssertionError
      else rbind (make_output op (finished_req_ids s) (prev_step_scheduled_req_ids s) p) (\<lambda>(out, p1).
           rbind (update_after_schedule ops (encoder_side ps) (out_num_scheduled_tokens out) (scheduler.truncate p1)) (\<lambda>(structured, s').
             Inr (out\<lparr>has_structured_output_requests := structured\<rparr>,
                  scheduler.extend s'
                    \<lparr>finished_req_ids = {}, prev_step_scheduled_req_ids = set (dict_keys (num_scheduled_tokens p)), pause = pause s,
                     recv_finished = finished_recving_kv_req_ids p, recv_failed = failed_recving_kv_req_ids p\<rparr>))))"

text \<open>\<^verbatim>\<open>Scheduler.schedule\<close>; the option is empty only if the lookup of a hybrid prefix hit does not end.\<close>

definition schedule ::
  "(bytes \<Rightarrow> bytes) \<Rightarrow> 'm encoder_ops \<Rightarrow> scheduler_params \<Rightarrow> waiting_params \<Rightarrow> 'm output_params \<Rightarrow> 'm sched_state \<Rightarrow>
   (scheduler_output \<times> 'm sched_state) res option" where
  "schedule sha256 ops ps wp op s =
     (case schedule_running sha256 ops ps (pause s = PAUSED_ALL) (scheduler.truncate s) of
        Inl e \<Rightarrow> Some (Inl e)
      | Inr p \<Rightarrow>
          (case start_waiting wp (recv_finished s) (recv_failed s) p of
             Inl e \<Rightarrow> Some (Inl e)
           | Inr p1 \<Rightarrow>
               map_option (\<lambda>out. rbind out (finish_pass ops ps wp op s))
                 (schedule_waiting sha256 ops ps wp (pause s) p1)))"

end
