(* ===== verification/Step_Frame.thy ===== *)
theory Step_Frame
  imports KV_View Schedule
begin

text \<open>
  What the two loops of \<open>schedule\<close> leave alone: the counts of computed tokens of the requests that stay in the list of
  running requests, and the requests that were running before the waiting ones are considered.
\<close>

section \<open>The loop over the running requests\<close>

definition tally :: "request \<Rightarrow> nat \<times> int" where
  "tally r = (object_id r, num_computed_tokens r)"

lemma tally_memo: "only_memo r r' \<Longrightarrow> tally r' = tally r"
  by (auto simp: only_memo_def tally_def)

lemma tally_set_request: "tally r \<in> T \<Longrightarrow> tally ` set rs \<subseteq> T \<Longrightarrow> tally ` set (set_request r rs) \<subseteq> T"
  by (auto simp: set_request_def)

lemma remove_object_subset: "remove_object r xs = Inr ys \<Longrightarrow> set ys \<subseteq> set xs"
  by (induction xs arbitrary: ys) (fastforce simp: res_simps split: if_splits)+

lemma pop_victim_subset: "pop_victim p = Inr (v, p') \<Longrightarrow> set (running p') \<subseteq> set (running p)"
  by (auto simp: pop_victim_def Let_def res_simps dest!: remove_object_subset unschedule_running in_set_butlastD split: if_splits)

lemma preempt_one_subset: "preempt_one ops p = Inr (v, p') \<Longrightarrow> set (running p') \<subseteq> set (running p)"
  by (auto simp: preempt_one_def res_simps dest!: pop_victim_subset preempt_request_running)

lemma alloc_or_preempt_tally:
  assumes "alloc_or_preempt sha256 ops ps r n p = Inr (out, p')" and "tally r \<in> T" and "tally ` set (running p) \<subseteq> T"
  shows "tally ` set (running p') \<subseteq> T \<and> (\<forall>b r'. out = Some (b, r') \<longrightarrow> tally r' \<in> T)"
  using assms
proof (induction sha256 ops ps r n p rule: alloc_or_preempt.induct)
  case (1 sha256 ops ps r n p)
  note step = "1.prems"(1) [unfolded alloc_or_preempt.simps [of sha256 ops ps r n p]]
  from step obtain got kv r1 where
    a: "allocate_slots sha256 r n 0 None (num_lookahead_tokens ps) 0 False 0 (kv_cache_manager p) = Inr (got, kv, r1)"
    by (auto split: sum.splits)
  have r1: "tally r1 \<in> T" using tally_memo [OF allocate_slots_memo [OF a]] "1.prems"(2) by simp
  then have stored: "tally ` set (running (store_slots kv r1 p)) \<subseteq> T"
    using tally_set_request "1.prems"(3) by (simp add: store_slots_def)
  show ?case
  proof (cases got)
    case (Some b)
    then show ?thesis using step a stored r1 by auto
  next
    case None
    with step a obtain v q where v: "preempt_one ops (store_slots kv r1 p) = Inr (v, q)" by (auto split: sum.splits)
    then have q: "tally ` set (running q) \<subseteq> T" using preempt_one_subset [OF v] stored by blast
    show ?thesis
    proof (cases "object_id v = object_id r")
      case True
      then show ?thesis using step a None v q by simp
    next
      case False
      then show ?thesis using "1.IH" [OF a refl refl None v refl False _ r1 q] step a None v by simp
    qed
  qed
qed

lemma schedule_request_tally:
  assumes "schedule_request ops r b n ins nb ext p = Inr p'" and "tally r \<in> T" and "tally ` set (running p) \<subseteq> T"
  shows "tally ` set (running p') \<subseteq> T"
proof -
  have "tally (r\<lparr>spec_token_ids := []\<rparr>) \<in> T" using assms(2) by (simp add: tally_def)
  from tally_set_request [OF this assms(3)] assms show ?thesis
    by (auto simp: schedule_request_def schedule_spec_tokens_def Let_def res_simps split: if_splits)
qed

lemma running_step_tally:
  assumes "running_step sha256 ops ps p = Inr (stop, p')" and "req_index p < length (running p)" and "tally ` set (running p) \<subseteq> T"
  shows "tally ` set (running p') \<subseteq> T"
proof -
  let ?r = "running p ! req_index p"
  have r: "tally ?r \<in> T" using assms(2,3) nth_mem by blast
  show ?thesis
  proof (cases "last_step_in_flight ?r")
    case True
    then show ?thesis using assms(1,3) by (auto simp: running_step_def Let_def)
  next
    case False
    then obtain ins n nb ext enc where plan: "plan_request ops ps ?r p = Inr ((ins, n, nb, ext), enc)"
      using assms(1) by (auto simp: running_step_def Let_def res_simps)
    show ?thesis
    proof (cases "n = 0")
      case True
      then show ?thesis using False plan assms(1,3) by (auto simp: running_step_def Let_def)
    next
      case n: False
      then have "grant_request sha256 ops ps ?r ins n nb ext (p\<lparr>enc_manager := enc\<rparr>) = Inr (stop, p')"
        using False plan assms(1) by (simp add: running_step_def Let_def)
      then obtain out q where q: "alloc_or_preempt sha256 ops ps ?r n (p\<lparr>enc_manager := enc\<rparr>) = Inr (out, q)"
        "(case out of None \<Rightarrow> Inr (True, q) | Some (b, r') \<Rightarrow> rbind (schedule_request ops r' b n ins nb ext q) (\<lambda>p''. Inr (False, p''))) = Inr (stop, p')"
        by (auto simp: grant_request_def rbind_eq_Inr)
      from alloc_or_preempt_tally [OF q(1) r] assms(3) have
        t: "tally ` set (running q) \<subseteq> T" "\<forall>b r'. out = Some (b, r') \<longrightarrow> tally r' \<in> T" by simp_all
      show ?thesis
      proof (cases out)
        case None
        then show ?thesis using q(2) t(1) by simp
      next
        case (Some br)
        obtain b r' where br: "br = (b, r')" by (cases br)
        with q(2) Some have s: "schedule_request ops r' b n ins nb ext q = Inr p'" by (auto simp: rbind_eq_Inr)
        show ?thesis by (rule schedule_request_tally [OF s _ t(1)]) (use t(2) Some br in simp)
      qed
    qed
  qed
qed

lemma running_loop_tally:
  assumes "running_loop sha256 ops ps p = Inr p'" and "tally ` set (running p) \<subseteq> T"
  shows "tally ` set (running p') \<subseteq> T"
  using assms
proof (induction sha256 ops ps p rule: running_loop.induct)
  case (1 sha256 ops ps p)
  show ?case
  proof (cases "req_index p < length (running p) \<and> 0 < token_budget p")
    case False
    then show ?thesis using "1.prems" by (simp add: running_loop.simps [of sha256 ops ps p] if_not_P split: if_splits)
  next
    case True
    with "1.prems"(1) obtain stop q where s: "running_step sha256 ops ps p = Inr (stop, q)"
      "if stop then p' = q else running_loop sha256 ops ps q = Inr p'"
      by (subst (asm) running_loop.simps) (auto split: sum.splits if_splits)
    from running_step_tally [OF s(1) _ "1.prems"(2)] True have q: "tally ` set (running q) \<subseteq> T" by blast
    show ?thesis using "1.IH" [OF True s(1) refl _ _ q] s(2) q by (cases stop) simp_all
  qed
qed

text \<open>No request that stays in the list gets another count of computed tokens.\<close>

lemma schedule_running_counts:
  assumes "schedule_running sha256 ops ps paused s = Inr p" and "distinct (map object_id (running s))"
    and "r \<in> set (running p)" and "r0 \<in> set (running s)" and "object_id r = object_id r0"
  shows "num_computed_tokens r = num_computed_tokens r0"
proof -
  have "tally ` set (running p) \<subseteq> tally ` set (running s)"
    using running_loop_tally [OF assms(1) [unfolded schedule_running_def]] by (simp add: start_pass_def)
  then obtain z where z: "z \<in> set (running s)" "tally r = tally z" using assms(3) by blast
  then have "z = r0" using assms(2,4,5) by (metis (no_types, lifting) distinct_map inj_onD prod.inject tally_def)
  then show ?thesis using z(2) by (simp add: tally_def)
qed

section \<open>The loop over the waiting requests\<close>

lemma skip_request_running: "skip_request c r p = Inr p' \<Longrightarrow> running p' = running p"
  by (auto simp: skip_request_def res_simps)

lemma store_waiting_running [simp]: "running (store_waiting c r p) = running p"
  by (simp add: store_waiting_def)

lemma start_request_running: "start_request ops wp r nc pl p = Inr p' \<Longrightarrow> \<exists>new. running p' = running p @ new"
  by (cases pl) (auto simp: start_request_def Let_def res_simps split: if_splits)

lemma admit_request_running:
  assumes "admit_request ops wp c r hit pl p = Inr p'"
  shows "\<exists>new. running p' = running p @ new"
proof -
  obtain b n_local ext load nc where hit: "hit = (b, n_local, ext, load, nc)" by (metis prod_cases5)
  show ?thesis using assms
    by (cases load) (auto simp: admit_request_def hit Let_def res_simps dest!: start_request_running)
qed

lemma schedule_waiting_request_running:
  assumes "schedule_waiting_request sha256 ops ps wp c r p = Some (Inr (stop, p'))"
  shows "\<exists>new. running p' = running p @ new"
proof -
  from assms obtain out kv where found: "cached_tokens wp r (kv_cache_manager p) = Some (Inr (out, kv))"
    by (auto simp: schedule_waiting_request_def res_simps split: option.splits)
  show ?thesis
  proof (cases out)
    case None
    then show ?thesis using assms found
      by (auto simp: schedule_waiting_request_def Let_def res_simps dest!: skip_request_running)
  next
    case (Some hr)
    obtain hit r1 where hr: "hr = (hit, r1)" by (cases hr)
    with assms found Some show ?thesis
      by (auto simp: schedule_waiting_request_def Let_def res_simps dest!: take_slots_queues admit_request_running split: option.splits)
  qed
qed

lemma waiting_step_running:
  assumes "waiting_step sha256 ops ps wp p = Some (Inr (stop, p'))"
  shows "\<exists>new. running p' = running p @ new"
proof (cases "length (running p) = max_num_running_reqs wp")
  case True
  then show ?thesis using assms by (auto simp: waiting_step_def)
next
  case False
  let ?pick = "rbind (select_waiting_queue_for_scheduling (queues p)) (\<lambda>choice.
     case choice of
       None \<Rightarrow> Inl AssertionError
     | Some c \<Rightarrow> rbind (peek_request (queue_of c (queues p))) (\<lambda>r.
         if is_blocked_waiting_status (status r)
         then rbind (try_promote_blocked_waiting_request sha256 wp r p) (\<lambda>(ready, r', p').
                Inr (c, ready, r', store_waiting c r' p'))
         else Inr (c, True, r, p)))"
  from assms False obtain c ready r p1 where pick: "?pick = Inr (c, ready, r, p1)"
    unfolding waiting_step_def by (auto split: sum.splits)
  then have same: "running p1 = running p"
    by (auto simp: res_simps dest!: promote_queues split: option.splits if_splits)
  note step = assms [unfolded waiting_step_def pick if_not_P [OF False]]
  show ?thesis
  proof (cases "\<not> ready \<or> lora_blocked wp r p1")
    case True
    then show ?thesis using step same by (auto simp: res_simps dest!: skip_request_running)
  next
    case False
    then show ?thesis using step same schedule_waiting_request_running [of sha256 ops ps wp c r p1 stop p'] by simp
  qed
qed

lemma waiting_loop_running:
  assumes "waiting_loop sha256 ops ps wp p = Some (Inr p')"
  shows "\<exists>new. running p' = running p @ new"
  using assms
proof (induction sha256 ops ps wp p rule: waiting_loop.induct)
  case (1 sha256 ops ps wp p)
  show ?case
  proof (cases "(queue_bool (waiting (queues p)) \<or> queue_bool (skipped_waiting (queues p))) \<and> 0 < token_budget p")
    case False
    then show ?thesis using "1.prems" by (subst (asm) waiting_loop.simps) auto
  next
    case True
    with "1.prems" obtain stop q where s: "waiting_step sha256 ops ps wp p = Some (Inr (stop, q))"
      "if stop then p' = q else waiting_loop sha256 ops ps wp q = Some (Inr p')"
      by (subst (asm) waiting_loop.simps) (auto split: option.splits sum.splits if_splits)
    from waiting_step_running [OF s(1)] obtain new where new: "running q = running p @ new" by blast
    show ?thesis
    proof (cases stop)
      case True
      then show ?thesis using s(2) new by simp
    next
      case go: False
      from "1.IH" [OF True s(1) refl refl go] s(2) go new show ?thesis by auto
    qed
  qed
qed

lemma schedule_waiting_running:
  assumes "schedule_waiting sha256 ops ps wp pst p = Some (Inr p')"
  shows "\<exists>new. running p' = running p @ new \<and> (preempted_reqs p \<noteq> [] \<longrightarrow> new = [])"
proof (cases "preempted_reqs p = [] \<and> pst = UNPAUSED")
  case True
  with assms obtain q where "waiting_loop sha256 ops ps wp p = Some (Inr q)" "p' = requeue_skipped q"
    by (auto simp: schedule_waiting_def res_simps)
  then show ?thesis using waiting_loop_running [of sha256 ops ps wp p q] True by (auto simp: requeue_skipped_def)
next
  case False
  then show ?thesis using assms by (auto simp: schedule_waiting_def)
qed

end
