(* ===== verification/Step_Safe.thy ===== *)
theory Step_Safe
  imports Waiting_Phase Step_Frame
begin

text \<open>
  A whole scheduling step is safe, for a scheduler without a KV connector: from a state in
  which every request is in order, \<open>schedule\<close> returns, its own checks hold, and the state it
  leaves is in order again up to the drafts it scheduled.
\<close>

section \<open>Calls to the block manager that change no request\<close>

lemma view_frame:
  assumes "\<And>m. same_static m (f m) \<and> (\<forall>r. req_blocks r (f m) = req_blocks r m) \<and> (\<forall>r. is_running r (f m) = is_running r m)"
    and "k' = k\<lparr>coordinator := (coordinator k)\<lparr>single_type_managers := map f (single_type_managers (coordinator k))\<rparr>\<rparr>"
  shows "kv_frame rid k k'"
proof -
  let ?ms = "single_type_managers (coordinator k)"
  have "coordinator k' = with_state (map f ?ms) (coord_pool (coordinator k)) (coordinator k)"
    by (simp add: assms(2) with_state_def)
  moreover have "list_all2 (marks_kept rid) ?ms (map f ?ms)"
    using assms(1) by (simp add: list_all2_conv_all_nth marks_kept_def)
  ultimately have "only_for rid (coordinator k) (coordinator k')" by (simp add: only_for_with_state)
  then show ?thesis using assms by (simp add: kv_frame_def same_pool_def same_managers_def)
qed

text \<open>Such a call also keeps what is known of every single request.\<close>

lemma view_all:
  assumes "\<And>rid. kv_frame rid k k'"
  shows "slots_upto rid n k \<Longrightarrow> slots_upto rid n k'" "unknown rid k \<Longrightarrow> unknown rid k'"
    "ready size_of ps k r \<Longrightarrow> ready size_of ps k' r" "awaiting size_of ps wp k r \<Longrightarrow> awaiting size_of ps wp k' r"
    "kv_static x bs k \<Longrightarrow> kv_static x bs k'"
proof -
  have ne: "rid \<noteq> CHR ''x'' # rid" for rid by simp
  note o = kv_frame_other [OF assms ne]
  show u: "slots_upto rid n k \<Longrightarrow> slots_upto rid n k'" "unknown rid k \<Longrightarrow> unknown rid k'" by (fact o)+
  show "ready size_of ps k r \<Longrightarrow> ready size_of ps k' r" by (rule ready_frame [OF assms _ ne])
  show "awaiting size_of ps wp k r \<Longrightarrow> awaiting size_of ps wp k' r"
    by (rule awaiting_frame [OF assms]) (auto simp: awaiting_def intro: o)
  show "kv_static x bs k \<Longrightarrow> kv_static x bs k'" by (rule kv_frame_static [OF assms])
qed

lemma common_prefix_view:
  assumes "coord_inv (coordinator k)" and "kv_get_num_common_prefix_blocks rid k = (ns, k')"
  shows "coord_inv (coordinator k')" "kv_frame rid' k k'"
proof -
  show "coord_inv (coordinator k')" using kv_step_inv [OF kv_common [OF assms(2)] assms(1)] .
  let ?f = "\<lambda>m. snd (get_num_common_prefix_blocks rid m (coord_pool (coordinator k)))"
  have f: "same_static m (?f m) \<and> (\<forall>r. req_blocks r (?f m) = req_blocks r m) \<and> (\<forall>r. is_running r (?f m) = is_running r m)" for m
    by (auto simp: get_num_common_prefix_blocks_def Let_def ensure_req_def same_static_def
        split: kv_cache_spec.splits option.splits)
  have "k' = k \<or> k' = k\<lparr>coordinator := (coordinator k)\<lparr>single_type_managers := map ?f (single_type_managers (coordinator k))\<rparr>\<rparr>"
    using assms(2) by (auto simp: kv_get_num_common_prefix_blocks_def coord_get_num_common_prefix_blocks_def Let_def comp_def split: if_splits)
  then show "kv_frame rid' k k'" using view_frame [of ?f, OF f] by auto
qed

lemma new_ids_view:
  assumes "coord_inv (coordinator k)" and "kv_take_new_block_ids k = (ids, k')"
  shows "coord_inv (coordinator k')" "kv_frame rid' k k'"
proof -
  show "coord_inv (coordinator k')" using kv_step_inv [OF kv_new_ids [OF assms(2)] assms(1)] .
  have f: "same_static m (snd (take_new_block_ids m)) \<and> (\<forall>r. req_blocks r (snd (take_new_block_ids m)) = req_blocks r m) \<and>
      (\<forall>r. is_running r (snd (take_new_block_ids m)) = is_running r m)" for m
    by (simp add: take_new_block_ids_def same_static_def req_blocks_def is_running_def)
  have "k' = k\<lparr>coordinator := (coordinator k)\<lparr>single_type_managers := map (\<lambda>m. snd (take_new_block_ids m)) (single_type_managers (coordinator k))\<rparr>\<rparr>"
    using assms(2) by (auto simp: kv_take_new_block_ids_def Let_def comp_def)
  then show "kv_frame rid' k k'" by (rule view_frame [OF f])
qed

section \<open>Releasing encoder outputs\<close>

locale encoder_release = encoder_cache_contract +
  assumes release_law: "ok m \<Longrightarrow> sized size_of r \<Longrightarrow> i < length (mm_features r) \<Longrightarrow>
      \<exists>m'. op_free_encoder_input ops r i m = Inr m' \<and> ok m'"
    and cached_ids_law: "set (op_get_cached_input_ids ops r m) \<subseteq> {..<length (mm_features r)}"
begin

lemma free_encoder_inputs_spec:
  assumes "ok m" and "sized size_of r"
  shows "\<exists>m'. free_encoder_inputs ops sched r m = Inr m' \<and> ok m'"
proof -
  let ?f = "\<lambda>i m. let p = mm_position (mm_features r ! i)
    in if is_encoder_decoder sched \<and> num_computed_tokens r > 0 then op_free_encoder_input ops r i m
       else if offset p + plength p \<le> num_computed_tokens r then op_free_encoder_input ops r i m else Inr m"
  let ?I = "\<lambda>is m. set is \<subseteq> {..<length (mm_features r)} \<and> ok m"
  have "\<exists>m'. fold_res ?f (op_get_cached_input_ids ops r m) m = Inr m' \<and> ?I [] m'"
  proof (rule fold_res_rule)
    show "?I (op_get_cached_input_ids ops r m) m" using cached_ids_law assms(1) by simp
  next
    fix i "is" m
    assume "?I (i # is) m"
    then show "\<exists>m'. ?f i m = Inr m' \<and> ?I is m'" using release_law [OF _ assms(2), of m i] by (auto simp: Let_def)
  qed
  then show ?thesis by (simp add: free_encoder_inputs_def)
qed

end

interpretation shared_release: encoder_release shared_ops False size_of "enc_inv size_of" num_free_slots
  "\<lambda>m h. dict_get (cached m) h = None" holds for size_of
proof (unfold_locales, goal_cases)
  case (1 m r i)
  then show ?case using free_encoder_input_spec [of size_of m r i] by (auto simp: shared_ops_def)
next
  case (2 r m)
  show ?case by (auto simp: shared_ops_def get_cached_input_ids_def)
qed


section \<open>A scheduler in order\<close>

definition waiting_requests :: "('m, 'z) scheduler_scheme \<Rightarrow> request list" where
  "waiting_requests s = queue_order (waiting (queues s)) @ queue_order (skipped_waiting (queues s))"

definition members :: "('m, 'z) scheduler_scheme \<Rightarrow> request list" where
  "members s = running s @ waiting_requests s"

text \<open>
  The waiting side of a state in order: every waiting request can be admitted and holds no
  block, the queues are in order, no two requests share an identity or an id, and a preempted
  request was not scheduled in the last step.
\<close>

definition in_order :: "(string \<Rightarrow> int) \<Rightarrow> scheduler_params \<Rightarrow> waiting_params \<Rightarrow> ('m, 'z) sched_state_scheme \<Rightarrow> bool" where
  "in_order size_of ps wp s \<longleftrightarrow>
     (\<forall>r \<in> set (waiting_requests s). awaiting size_of ps wp (kv_cache_manager s) r) \<and>
     queue_ok (policy (queues s)) (waiting (queues s)) \<and> queue_ok (policy (queues s)) (skipped_waiting (queues s)) \<and>
     distinct (map object_id (members s)) \<and> distinct (map request_id (members s)) \<and>
     length (running s) \<le> max_num_running_reqs wp \<and>
     (\<forall>r \<in> set (waiting_requests s). status r = PREEMPTED \<longrightarrow> request_id r \<notin> prev_step_scheduled_req_ids s)"

text \<open>
  Before a step every running request has slots for its computed tokens, which are tokens it
  has; after a step the drafts that were scheduled with it may be computed too.
\<close>

definition state_ok ::
  "(string \<Rightarrow> int) \<Rightarrow> ('m \<Rightarrow> bool) \<Rightarrow> scheduler_params \<Rightarrow> waiting_params \<Rightarrow> ('m, 'z) sched_state_scheme \<Rightarrow> bool" where
  "state_ok size_of ok ps wp s \<longleftrightarrow> served size_of ok ps s \<and> in_order size_of ps wp s"

definition drafts_of :: "(string, int list) pydict \<Rightarrow> string \<Rightarrow> int list" where
  "drafts_of d rid = (case dict_get d rid of None \<Rightarrow> [] | Some ts \<Rightarrow> ts)"

definition stepped :: "(string \<Rightarrow> int) \<Rightarrow> scheduler_params \<Rightarrow> kv_manager \<Rightarrow> (string, int list) pydict \<Rightarrow> request \<Rightarrow> bool" where
  "stepped size_of ps k d r \<longleftrightarrow>
     status r = RUNNING \<and> well_formed size_of ps k r \<and> 0 \<le> num_computed_tokens r \<and>
     num_computed_tokens r \<le> sched_max_model_len ps - 1 \<and>
     token_bound (num_computed_tokens r) r (drafts_of d (request_id r)) \<and>
     slots_upto (request_id r) (num_computed_tokens r) k"

definition after_step ::
  "(string \<Rightarrow> int) \<Rightarrow> ('m \<Rightarrow> bool) \<Rightarrow> scheduler_params \<Rightarrow> waiting_params \<Rightarrow> (string, int list) pydict \<Rightarrow> ('m, 'z) sched_state_scheme \<Rightarrow> bool" where
  "after_step size_of ok ps wp d s \<longleftrightarrow>
     coord_inv (coordinator (kv_cache_manager s)) \<and> kv_static (sched_max_model_len ps) (sched_block_size ps) (kv_cache_manager s) \<and> ok (enc_manager s) \<and>
     (\<forall>r \<in> set (running s). stepped size_of ps (kv_cache_manager s) d r) \<and> in_order size_of ps wp s"

lemma after_step_no_drafts: "after_step size_of ok ps wp [] s = state_ok size_of ok ps wp s"
  by (simp add: after_step_def state_ok_def served_def stepped_def ready_def in_range_def drafts_of_def token_bound_def conj_ac cong: conj_cong)

text \<open>The LoRA adapters of the running requests fit.\<close>

definition lora_ids :: "request list \<Rightarrow> int set" where
  "lora_ids rs = {lora_int_id l | l. \<exists>r \<in> set rs. lora_request r = Some l}"

definition loras_fit :: "waiting_params \<Rightarrow> request list \<Rightarrow> bool" where
  "loras_fit wp rs \<longleftrightarrow> (\<forall>n. max_loras wp = Some n \<longrightarrow> int (card (lora_ids rs)) \<le> n)"

lemma state_okD:
  assumes "state_ok size_of ok ps wp s"
  shows "served size_of ok ps s" "\<And>r. r \<in> set (waiting_requests s) \<Longrightarrow> awaiting size_of ps wp (kv_cache_manager s) r"
    "queue_ok (policy (queues s)) (waiting (queues s))" "queue_ok (policy (queues s)) (skipped_waiting (queues s))"
    "distinct (map object_id (members s))" "distinct (map request_id (members s))"
    "length (running s) \<le> max_num_running_reqs wp"
    "\<And>r. r \<in> set (waiting_requests s) \<Longrightarrow> status r = PREEMPTED \<Longrightarrow> request_id r \<notin> prev_step_scheduled_req_ids s"
  using assms by (simp_all add: state_ok_def in_order_def)

lemma finite_lora_ids [simp]: "finite (lora_ids rs)"
proof -
  have "lora_ids rs = (\<lambda>r. lora_int_id (the (lora_request r))) ` {r \<in> set rs. lora_request r \<noteq> None}"
    by (auto simp: lora_ids_def image_iff) (metis option.sel)
  then show ?thesis by simp
qed

lemma lora_ids_who: "lora_ids rs = {lora_int_id l | l. Some l \<in> (lora_request \<circ> snd \<circ> snd) ` who ` set rs}"
  by (auto simp: lora_ids_def who_def essence_def image_iff) metis+

lemma set_map_filter: "set (List.map_filter f xs) = {y. \<exists>x \<in> set xs. f x = Some y}"
  by (force simp: List.map_filter_def)

lemma find_in: "find P xs = Some x \<Longrightarrow> x \<in> set xs \<and> P x"
  by (auto simp: find_Some_iff)

lemma set_objects: "set (objects rs ids) \<subseteq> set rs"
  by (auto simp: objects_def set_map_filter dest: find_in)

lemma running_loras_sub: "running_loras wp p \<subseteq> lora_ids (running p)"
proof
  fix i
  assume "i \<in> running_loras wp p"
  then obtain r l where "r \<in> set (objects (running p) (scheduled_running_reqs p))" "lora_request r = Some l" "lora_int_id l = i"
    by (auto simp: running_loras_def set_map_filter split: if_splits)
  moreover have "set (objects (running p) (scheduled_running_reqs p)) \<subseteq> set (running p)" by (rule set_objects)
  ultimately show "i \<in> lora_ids (running p)" by (auto simp: lora_ids_def)
qed

section \<open>From the running to the waiting requests\<close>

lemma mset_fold_front: "mset (fold (front_by pol) rs xs) = mset rs + mset xs"
  by (induction rs arbitrary: xs) (simp_all add: mset_front_by)

lemma start_waiting_spec:
  assumes ok: "state_ok size_of ok ps wp s" and lora: "loras_fit wp (running s)"
    and inv: "loop_inv size_of ok has ps (set (waiting_requests s)) (mset (map who (running s))) (queues s) budget p"
  shows "\<exists>q. start_waiting wp recv failed p = Inr q \<and> preempted_reqs q = preempted_reqs p \<and> scheduled_resumed_reqs q = [] \<and>
    step_skipped_waiting q = create_request_queue (policy (queues q)) \<and>
    waiting_inv size_of ok has ps wp (if preempted_reqs p = [] then prev_step_scheduled_req_ids s else {})
      (mset (map who (members s))) budget q"
proof -
  note S = state_okD [OF ok] and I = loop_invD [OF inv]
  let ?pol = "policy (queues s)" and ?pre = "preempted_reqs p"
  define q where "q = running_pass.extend p
    \<lparr>scheduled_new_reqs = [], scheduled_resumed_reqs = [], scheduled_loras = running_loras wp p,
     step_skipped_waiting = create_request_queue (policy (queues p)),
     finished_recving_kv_req_ids = recv, failed_recving_kv_req_ids = failed\<rparr>"
  have qf: "running q = running p" "queues q = queues p" "kv_cache_manager q = kv_cache_manager p" "enc_manager q = enc_manager p"
    "token_budget q = token_budget p" "encoder_budget q = encoder_budget p" "scheduled_running_reqs q = scheduled_running_reqs p"
    "preempted_reqs q = ?pre" "num_scheduled_tokens q = num_scheduled_tokens p" "req_to_new_blocks q = req_to_new_blocks p"
    "scheduled_spec_decode_tokens q = scheduled_spec_decode_tokens p" "scheduled_encoder_inputs q = scheduled_encoder_inputs p"
    "scheduled_new_reqs q = []" "scheduled_resumed_reqs q = []" "scheduled_loras q = running_loras wp p"
    "step_skipped_waiting q = create_request_queue (policy (queues p))"
    by (simp_all add: q_def running_pass.defs)
  have w: "queues p = (queues s)\<lparr>waiting := fold prepend_request ?pre (waiting (queues s))\<rparr>"
    and people: "mset (map who (running p @ ?pre)) = mset (map who (running s))"
    using I(2,4) by (simp_all add: freed_def identified_def)
  have obj: "object_id ` set (running p @ ?pre) = object_id ` set (running s)"
  proof -
    have "mset (map fst (map who (running p @ ?pre))) = mset (map fst (map who (running s)))" using people by (metis mset_map)
    then have "mset (map object_id (running p @ ?pre)) = mset (map object_id (running s))" by (simp add: who_def comp_def)
    then show ?thesis by (metis mset_eq_setD set_map)
  qed
  have dpre: "distinct_objects ?pre" using I(2) by (simp add: identified_def distinct_objects_def)
  have dis: "object_id ` set ?pre \<inter> object_id ` set (queue_order (waiting (queues s))) = {}"
  proof -
    have "object_id ` set ?pre \<subseteq> object_id ` set (running s)" using obj by (simp add: image_Un) blast
    moreover have "object_id ` set (running s) \<inter> object_id ` set (queue_order (waiting (queues s))) = {}"
      using S(5) by (simp add: members_def waiting_requests_def) blast
    ultimately show ?thesis by blast
  qed
  from any_queue.prepend_all_spec [OF S(3) dpre dis] have
    wq: "queue_ok ?pol (waiting (queues p))" "queue_order (waiting (queues p)) = fold (front_by ?pol) ?pre (queue_order (waiting (queues s)))"
    by (simp_all add: w)
  have iq: "mset (in_queues q) = mset ?pre + mset (waiting_requests s)"
    using queue_ok_create [of ?pol]
    using mset_fold_front [of ?pol ?pre "queue_order (waiting (queues s))"] wq(2)
    by (simp add: in_queues_def qf waiting_requests_def w)
  then have iqs: "set (in_queues q) = set ?pre \<union> set (waiting_requests s)" by (metis set_mset_mset set_mset_union)
  have "queues_fine q" using wq(1) S(4) queue_ok_create [of ?pol] by (simp add: queues_fine_def qf w)
  moreover have "served size_of ok ps q" using I(1) by (simp add: served_def qf)
  moreover have "awaiting size_of ps wp (kv_cache_manager q) r" if "r \<in> set (in_queues q)" for r
    using that I(4) S(2) unfolding iqs qf(3) freed_def awaiting_def by blast
  moreover have "mset (map who (everyone q)) = mset (map who (members s))"
    using people by (simp add: everyone_def members_def iq qf(1) algebra_simps)
  moreover have "accounts has ps budget q"
  proof -
    have "scheduled_ids q = scheduled_running_reqs p" by (simp add: scheduled_ids_def qf)
    moreover have "granted has ps q r = granted has ps p r" for r by (simp add: granted_def drafted_def qf)
    ultimately show ?thesis using I(3) by (auto simp: accounts_def books_def set_scheduled_part qf)
  qed
  moreover have "length (running q) \<le> max_num_running_reqs wp"
  proof -
    have "length (running p) \<le> length (running s)" using arg_cong [OF people, of size] by simp
    then show ?thesis using S(7) by (simp add: qf)
  qed
  moreover have fit: "finite (running_loras wp p)" "\<And>n. max_loras wp = Some n \<Longrightarrow> int (card (running_loras wp p)) \<le> n"
  proof -
    have "who ` set (running p) \<subseteq> who ` set (running s)"
      using mset_eq_setD [OF people] by (simp only: set_map set_append image_Un) blast
    then have "lora_ids (running p) \<subseteq> lora_ids (running s)" unfolding lora_ids_who by blast
    then have sub: "running_loras wp p \<subseteq> lora_ids (running s)" using running_loras_sub by blast
    then show "finite (running_loras wp p)" by (rule finite_subset) simp
    from card_mono [OF finite_lora_ids sub] lora show "max_loras wp = Some n \<Longrightarrow> int (card (running_loras wp p)) \<le> n" for n
      by (force simp: loras_fit_def)
  qed
  moreover have "not_resumed (if ?pre = [] then prev_step_scheduled_req_ids s else {}) q"
    using S(8) by (simp add: not_resumed_def iqs qf)
  ultimately have "waiting_inv size_of ok has ps wp (if ?pre = [] then prev_step_scheduled_req_ids s else {})
      (mset (map who (members s))) budget q"
    by (simp add: waiting_inv_def loras_ok_def qf(15))
  moreover have "start_waiting wp recv failed p = Inr q"
    using fit(2) by (auto simp: start_waiting_def q_def split: option.splits)
  ultimately show ?thesis using qf(2,8,14,16) by metis
qed

section \<open>Putting back what was skipped\<close>

lemma prepend_requests_spec:
  assumes "queue_ok pol other" and "queue_ok pol q"
    and "object_id ` set (queue_order other) \<inter> object_id ` set (queue_order q) = {}"
  shows "queue_ok pol (prepend_requests other q) \<and> mset (queue_order (prepend_requests other q)) = mset (queue_order other) + mset (queue_order q)"
proof -
  have it: "iter_requests other = queue_order other" by (rule any_queue.iter_law [OF assms(1)])
  have d: "distinct_objects (queue_order other)" by (rule any_queue.ok_distinct [OF assms(1)])
  show ?thesis
  proof (cases pol)
    case FCFS
    then obtain xs where q: "q = FCFSRequestQueue xs" using assms(2) by (cases q) (auto simp: queue_ok_def fcfs_ok_def)
    have rev: "fold (#) ys zs = rev ys @ zs" for ys zs :: "request list" by (induction ys arbitrary: zs) simp_all
    have "distinct_objects (rev (queue_order other) @ xs)"
    proof -
      have "queue_order q = xs" "distinct_objects xs" using assms(2) FCFS q by (simp_all add: queue_ok_def fcfs_ok_def queue_order_def)
      then show ?thesis using d assms(3) by (simp add: distinct_objects_def flip: rev_map)
    qed
    then show ?thesis using FCFS q by (simp add: it rev queue_ok_def fcfs_ok_def queue_order_def)
  next
    case PRIORITY
    then obtain h where q: "q = PriorityRequestQueue h" using assms(2) by (cases q) (auto simp: queue_ok_def priority_ok_def)
    have "mset (fold (enter_by pol) ys zs) = mset ys + mset zs" for ys zs
      by (induction ys arbitrary: zs) (simp_all add: enter_by_def PRIORITY)
    with any_queue.add_all_spec [OF assms(2) d assms(3)] show ?thesis by (simp add: q it)
  qed
qed

text \<open>The state after both loops.\<close>

definition pass_done ::
  "(string \<Rightarrow> int) \<Rightarrow> ('m \<Rightarrow> bool) \<Rightarrow> ('m \<Rightarrow> string \<Rightarrow> string \<Rightarrow> bool) \<Rightarrow> scheduler_params \<Rightarrow> waiting_params \<Rightarrow>
   string set \<Rightarrow> person multiset \<Rightarrow> int \<Rightarrow> 'm waiting_pass \<Rightarrow> bool" where
  "pass_done size_of ok has ps wp prev people budget p \<longleftrightarrow>
     served size_of ok ps p \<and> (\<forall>r \<in> set (waiting_requests p). awaiting size_of ps wp (kv_cache_manager p) r) \<and>
     queue_ok (policy (queues p)) (waiting (queues p)) \<and> queue_ok (policy (queues p)) (skipped_waiting (queues p)) \<and>
     mset (map who (members p)) = people \<and> accounts has ps budget p \<and> length (running p) \<le> max_num_running_reqs wp \<and>
     (\<forall>r \<in> set (running p). object_id r \<in> set (scheduled_resumed_reqs p) \<longrightarrow> request_id r \<notin> prev)"

lemma pass_doneD:
  assumes "pass_done size_of ok has ps wp prev people budget p"
  shows "served size_of ok ps p" "\<And>r. r \<in> set (waiting_requests p) \<Longrightarrow> awaiting size_of ps wp (kv_cache_manager p) r"
    "queue_ok (policy (queues p)) (waiting (queues p))" "queue_ok (policy (queues p)) (skipped_waiting (queues p))"
    "mset (map who (members p)) = people" "accounts has ps budget p" "length (running p) \<le> max_num_running_reqs wp"
    "\<And>r. r \<in> set (running p) \<Longrightarrow> object_id r \<in> set (scheduled_resumed_reqs p) \<Longrightarrow> request_id r \<notin> prev"
  using assms by (simp_all add: pass_done_def)

lemma requeue_fields [simp]:
  "running (requeue_skipped p) = running p" "kv_cache_manager (requeue_skipped p) = kv_cache_manager p"
  "enc_manager (requeue_skipped p) = enc_manager p" "policy (queues (requeue_skipped p)) = policy (queues p)"
  "waiting (queues (requeue_skipped p)) = waiting (queues p)" "scheduled_resumed_reqs (requeue_skipped p) = scheduled_resumed_reqs p"
  "accounts has ps budget (requeue_skipped p) = accounts has ps budget p"
  by (simp_all add: requeue_skipped_def)

lemma requeue_done:
  assumes dp: "distinct_people people" and inv: "waiting_inv size_of ok has ps wp prev people budget p"
  shows "pass_done size_of ok has ps wp prev people budget (requeue_skipped p)"
proof -
  note I = waiting_invD [OF inv]
  let ?pol = "policy (queues p)" and ?q = "requeue_skipped p"
  have ok: "queue_ok ?pol (waiting (queues p))" "queue_ok ?pol (skipped_waiting (queues p))" "queue_ok ?pol (step_skipped_waiting p)"
    using I(3) by (simp_all add: queues_fine_def Let_def)
  have dis: "object_id ` set (queue_order (step_skipped_waiting p)) \<inter> object_id ` set (queue_order (skipped_waiting (queues p))) = {}"
    using everyone_distinct(1) [OF dp I(4)] by (simp add: everyone_def in_queues_def) blast
  have sk: "queue_ok ?pol (skipped_waiting (queues ?q)) \<and>
      mset (queue_order (skipped_waiting (queues ?q))) = mset (queue_order (step_skipped_waiting p)) + mset (queue_order (skipped_waiting (queues p)))"
  proof (cases "queue_bool (step_skipped_waiting p)")
    case True
    then show ?thesis using prepend_requests_spec [OF ok(3,2) dis] by (simp add: requeue_skipped_def)
  next
    case False
    then have "queue_order (step_skipped_waiting p) = []" using any_queue.len_law [OF ok(3)] by (simp add: queue_bool_def)
    then show ?thesis using False ok(2) by (simp add: requeue_skipped_def)
  qed
  then have w: "mset (waiting_requests ?q) = mset (in_queues p)" by (simp add: waiting_requests_def in_queues_def)
  then have ws: "set (waiting_requests ?q) = set (in_queues p)" by (rule mset_eq_setD)
  have "served size_of ok ps ?q" using I(1) by (simp add: served_def)
  moreover have "mset (map who (members ?q)) = people" using I(4) w by (simp add: members_def everyone_def)
  ultimately show ?thesis using I ok(1) sk by (simp add: pass_done_def ws not_resumed_def)
qed

lemma idle_done:
  assumes inv: "waiting_inv size_of ok has ps wp prev people budget p" and new: "step_skipped_waiting p = create_request_queue (policy (queues p))"
    and res: "scheduled_resumed_reqs p = []"
  shows "pass_done size_of ok has ps wp prev' people budget p"
proof -
  note I = waiting_invD [OF inv]
  have "waiting_requests p = in_queues p"
    using queue_ok_create [of "policy (queues p)"] by (simp add: waiting_requests_def in_queues_def new)
  then show ?thesis using I res by (simp add: pass_done_def members_def everyone_def queues_fine_def Let_def)
qed

context encoder_cache_contract
begin

lemma schedule_waiting_spec:
  assumes kind: "is_encoder_decoder (encoder_side ps) = encdec" and ps: "params_ok ps" and dp: "distinct_people people"
    and conn: "kv_connector wp = None"
    and inv: "waiting_inv size_of ok has ps wp (if preempted_reqs q = [] then prev else {}) people budget q"
    and q: "scheduled_resumed_reqs q = []" "step_skipped_waiting q = create_request_queue (policy (queues q))"
  shows "\<exists>p. schedule_waiting sha256 ops ps wp pst q = Some (Inr p) \<and> pass_done size_of ok has ps wp prev people budget p"
proof (cases "preempted_reqs q = [] \<and> pst = UNPAUSED")
  case True
  with waiting_loop_spec [OF kind ps dp conn inv, of sha256] obtain p where
    "waiting_loop sha256 ops ps wp q = Some (Inr p)" "waiting_inv size_of ok has ps wp prev people budget p" by auto
  then show ?thesis using True requeue_done [OF dp] by (simp add: schedule_waiting_def)
next
  case False
  then have "schedule_waiting sha256 ops ps wp pst q = Some (Inr q)" by (auto simp: schedule_waiting_def)
  then show ?thesis using idle_done [OF inv q(2,1)] by blast
qed

end

section \<open>The checks and the output\<close>

lemma constraints_done:
  assumes "pass_done size_of ok has ps wp prev people budget p" and "budget \<le> max_num_scheduled_tokens ps"
    and "distinct (map object_id (running p))"
  shows "constraints_hold ps wp p"
proof -
  note D = pass_doneD [OF assms(1)]
  have a: "distinct (scheduled_ids p)" "set (scheduled_ids p) \<subseteq> set (map object_id (running p))"
    "token_sum (num_scheduled_tokens p) + token_budget p = budget" "0 \<le> token_budget p"
    using D(6) by (simp_all add: accounts_def)
  have "length (scheduled_ids p) = card (set (scheduled_ids p))" using a(1) by (simp add: distinct_card)
  also have "\<dots> \<le> card (set (map object_id (running p)))" by (rule card_mono) (use a(2) in simp_all)
  also have "\<dots> \<le> length (running p)" using card_length [of "map object_id (running p)"] by simp
  finally show ?thesis using a(3,4) assms(2) D(7) by (simp add: constraints_hold_def scheduled_ids_def token_sum_def)
qed

lemma map_res_total: "(\<And>x. x \<in> set xs \<Longrightarrow> \<exists>y. f x = Inr y) \<Longrightarrow> \<exists>ys. map_res f xs = Inr ys"
  by (induction xs) (simp, fastforce)

lemma objects_mem: "r \<in> set (objects rs ids) \<Longrightarrow> r \<in> set rs \<and> object_id r \<in> set ids"
  by (auto simp: objects_def set_map_filter dest: find_in)


text \<open>The counts of computed tokens that the output reports to the workers, by request id.\<close>

definition reported :: "scheduler_output \<Rightarrow> (string \<times> int) list" where
  "reported out = map (\<lambda>d. (nr_req_id d, nr_num_computed_tokens d)) (out_new_reqs out) @
     zip (cr_req_ids (out_cached_reqs out)) (cr_num_computed_tokens (out_cached_reqs out))"

definition count_of :: "request \<Rightarrow> string \<times> int" where
  "count_of r = (request_id r, num_computed_tokens r)"

definition out_of :: "'m waiting_pass \<Rightarrow> scheduler_output \<Rightarrow> bool" where
  "out_of p out \<longleftrightarrow>
     out_num_scheduled_tokens out = num_scheduled_tokens p \<and> out_spec_decode_tokens out = scheduled_spec_decode_tokens p \<and>
     total_num_scheduled_tokens out = token_sum (num_scheduled_tokens p) \<and>
     out_encoder_inputs out = scheduled_encoder_inputs p \<and> preempted_req_ids out = request_id ` set (preempted_reqs p) \<and>
     set (reported out) = count_of ` {r \<in> set (running p). object_id r \<in> set (scheduled_ids p)}"

lemma new_data_counts:
  "new_requests_data v2 p rs = Inr ds \<Longrightarrow> map (\<lambda>d. (nr_req_id d, nr_num_computed_tokens d)) ds = map count_of rs"
  unfolding new_requests_data_def
  by (induction rs arbitrary: ds) (auto simp: rbind_eq_Inr from_request_def count_of_def)

lemma cached_entries_counts:
  assumes "fold_res (cached_entry op prev p b) rs d = Inr d'" and "length (cr_req_ids d) = length (cr_num_computed_tokens d)"
  shows "length (cr_req_ids d') = length (cr_num_computed_tokens d') \<and>
    zip (cr_req_ids d') (cr_num_computed_tokens d') = zip (cr_req_ids d) (cr_num_computed_tokens d) @ map count_of rs"
  using assms
proof (induction rs arbitrary: d)
  case (Cons r rs)
  from Cons.prems(1) obtain d1 where d1: "cached_entry op prev p b r d = Inr d1" "fold_res (cached_entry op prev p b) rs d1 = Inr d'"
    by (auto simp: rbind_eq_Inr)
  then have "cr_req_ids d1 = cr_req_ids d @ [request_id r]" "cr_num_computed_tokens d1 = cr_num_computed_tokens d @ [num_computed_tokens r]"
    by (auto simp: cached_entry_def Let_def rbind_eq_Inr split: if_splits)
  with Cons.IH [OF d1(2)] Cons.prems(2) show ?case by (simp add: count_of_def)
qed simp

lemma cached_data_counts:
  "make_cached_request_data op prev p rs rs' = Inr c \<Longrightarrow>
   zip (cr_req_ids c) (cr_num_computed_tokens c) = map count_of rs @ map count_of rs'"
  by (auto simp: make_cached_request_data_def rbind_eq_Inr dest!: cached_entries_counts)

lemma objects_set:
  assumes "distinct (map object_id rs)"
  shows "set (objects rs ids) = {r \<in> set rs. object_id r \<in> set ids}"
proof -
  have "find (\<lambda>z. object_id z = object_id r) rs = Some r" if "r \<in> set rs" for r
  proof -
    have "find (\<lambda>z. object_id z = object_id r) rs \<noteq> None" using that by (auto simp: find_None_iff)
    then obtain z where z: "find (\<lambda>z. object_id z = object_id r) rs = Some z" by blast
    then have "z = r" using find_in [OF z] assms that by (metis distinct_map inj_on_eq_iff)
    then show ?thesis using z by simp
  qed
  then show ?thesis by (auto simp: objects_def set_map_filter dest: find_in)
qed

lemma make_output_spec:
  assumes fin: "pass_done size_of ok has ps wp prev people budget p"
    and freed: "\<And>m. ok m \<Longrightarrow> ok (snd (op_get_freed_mm_hashes op m))" and dist: "distinct (map object_id (running p))"
  shows "\<exists>out k m. make_output op finished prev p = Inr (out, p\<lparr>kv_cache_manager := k, enc_manager := m\<rparr>) \<and> out_of p out \<and>
    coord_inv (coordinator k) \<and> (\<forall>rid. kv_frame rid (kv_cache_manager p) k) \<and> ok m"
proof -
  note D = pass_doneD [OF fin]
  have ci: "coord_inv (coordinator (kv_cache_manager p))" "ok (enc_manager p)" using D(1) by (auto simp: served_def)
  obtain prefix k where k: "common_prefix op p = (prefix, k)" by fastforce
  have kf: "coord_inv (coordinator k)" "kv_frame rid (kv_cache_manager p) k" for rid
    using k ci(1) common_prefix_view [OF ci(1)] by (auto simp: common_prefix_def split: list.splits)
  obtain zero k' where z: "(if needs_kv_cache_zeroing op
      then let (ids, k) = kv_take_new_block_ids k in (if ids = [] then None else Some ids, k) else (None, k)) = (zero, k')" by fastforce
  have kf': "coord_inv (coordinator k')" "kv_frame rid k k'" for rid
    using z kf(1) new_ids_view [OF kf(1)] by (auto split: if_splits prod.splits)
  obtain hs m where m: "op_get_freed_mm_hashes op (enc_manager p) = (hs, m)" by fastforce
  let ?p = "p\<lparr>kv_cache_manager := k\<rparr>"
  have got: "\<exists>b n. dict_get (req_to_new_blocks p) (request_id r) = Some b \<and> dict_get (num_scheduled_tokens p) (request_id r) = Some n"
    if "r \<in> set (running p)" "object_id r \<in> set (scheduled_ids p)" for r
    using D(6) that by (auto simp: accounts_def granted_def)
  let ?new = "objects (running p) (scheduled_new_reqs p)" and ?res = "objects (running p) (scheduled_resumed_reqs p)"
  obtain new' resumed' where nr: "(if use_v2_model_runner op then (?new @ ?res, []) else (?new, ?res)) = (new', resumed')" by fastforce
  have mem: "r \<in> set (running p)" "object_id r \<in> set (scheduled_ids p)" if "r \<in> set new' \<union> set resumed'" for r
    using nr that objects_mem by (auto simp: scheduled_ids_def split: if_splits)
  have "\<exists>ds. new_requests_data (use_v2_model_runner op) ?p new' = Inr ds"
    unfolding new_requests_data_def by (rule map_res_total) (use got mem in \<open>fastforce simp: new_block_ids_of_def\<close>)
  then obtain ds where ds: "new_requests_data (use_v2_model_runner op) ?p new' = Inr ds" by blast
  have entry: "\<exists>d'. cached_entry op prev ?p b r d = Inr d'"
    if "r \<in> set (running p)" "object_id r \<in> set (scheduled_ids p)" "b \<longrightarrow> request_id r \<notin> prev" for b r d
    using got [OF that(1,2)] that(3) by (auto simp: cached_entry_def tokens_to_send_def new_block_ids_of_def Let_def)
  have run: "\<exists>d'. fold_res (cached_entry op prev ?p b) rs d = Inr d'"
    if "\<And>r. r \<in> set rs \<Longrightarrow> r \<in> set (running p) \<and> object_id r \<in> set (scheduled_ids p) \<and> (b \<longrightarrow> request_id r \<notin> prev)" for b rs d
    using that
  proof (induction rs arbitrary: d)
    case (Cons r rs)
    from entry [of r b d] Cons.prems [of r] obtain d' where "cached_entry op prev ?p b r d = Inr d'" by auto
    then show ?case using Cons.IH [of d'] Cons.prems by auto
  qed simp
  have "\<exists>c. make_cached_request_data op prev ?p (objects (running p) (scheduled_running_reqs p)) resumed' = Inr c"
  proof -
    from run [of "objects (running p) (scheduled_running_reqs p)" False] obtain d where
      d: "fold_res (cached_entry op prev ?p False) (objects (running p) (scheduled_running_reqs p))
        \<lparr>cr_req_ids = [], resumed_req_ids = {}, cr_new_token_ids = [], cr_all_token_ids = [], cr_new_block_ids = [],
         cr_num_computed_tokens = [], cr_num_output_tokens = []\<rparr> = Inr d"
      by (auto dest: objects_mem simp: scheduled_ids_def)
    have "r \<in> set (running p) \<and> object_id r \<in> set (scheduled_ids p) \<and> request_id r \<notin> prev" if "r \<in> set resumed'" for r
      using nr that D(8) by (auto dest!: objects_mem simp: scheduled_ids_def split: if_splits)
    with run [of resumed' True d] d show ?thesis by (auto simp: make_cached_request_data_def)
  qed
  then obtain c where c: "make_cached_request_data op prev ?p (objects (running p) (scheduled_running_reqs p)) resumed' = Inr c" by blast
  have nd: "(\<lambda>d. (nr_req_id d, nr_num_computed_tokens d)) ` set ds = count_of ` set new'"
    using arg_cong [OF new_data_counts [OF ds], of set] by simp
  have "set new' \<union> set resumed' = set ?new \<union> set ?res" using nr by (auto split: if_splits)
  then have counts: "count_of ` set new' \<union> (count_of ` set (objects (running p) (scheduled_running_reqs p)) \<union> count_of ` set resumed') =
      count_of ` {r \<in> set (running p). object_id r \<in> set (scheduled_ids p)}"
    unfolding image_Un [symmetric] by (intro arg_cong [where f = "(`) count_of"]) (auto simp: scheduled_ids_def objects_set [OF dist])
  have "\<exists>out. make_output op finished prev p = Inr (out, p\<lparr>kv_cache_manager := k', enc_manager := m\<rparr>) \<and> out_of p out"
    unfolding make_output_def k Let_def prod.case nr ds c rbind_Inr z [unfolded Let_def] m
    by (simp add: out_of_def token_sum_def reported_def nd cached_data_counts [OF c] counts)
  moreover have "kv_frame rid (kv_cache_manager p) k'" for rid using kf(2) kf'(2) kv_frame_trans by blast
  ultimately show ?thesis using kf'(1) freed [OF ci(2)] m by fastforce
qed


section \<open>After the step\<close>

definition advanced_by :: "(string, int) pydict \<Rightarrow> request \<Rightarrow> request" where
  "advanced_by d r =
     (case dict_get d (request_id r) of
        None \<Rightarrow> r
      | Some n \<Rightarrow> r\<lparr>num_computed_tokens := num_computed_tokens r + n,
                    is_prefill_chunk := num_computed_tokens r + n < int (num_tokens r) + num_output_placeholders r\<rparr>)"

lemma advanced_same [simp]:
  "request_id (advanced_by d r) = request_id r" "object_id (advanced_by d r) = object_id r" "who (advanced_by d r) = who r"
  "mm_features (advanced_by d r) = mm_features r" "sized size_of (advanced_by d r) = sized size_of r"
  "status (advanced_by d r) = status r" "lora_request (advanced_by d r) = lora_request r"
  by (simp_all add: advanced_by_def sized_def get_num_encoder_embeds_def split: option.splits)

lemma advanced_absent: "dict_get d (request_id r) = None \<Longrightarrow> advanced_by d r = r"
  by (simp add: advanced_by_def)

lemma set_queue_items: "set (queue_items q) = set (queue_order q)"
  by (cases q) (simp_all add: queue_order_def)

lemma set_all_requests: "set (all_requests s) = set (members s)"
  by (auto simp: all_requests_def members_def waiting_requests_def set_queue_items)

lemma get_request_member:
  assumes "distinct (map request_id (members s))" and "r \<in> set (members s)"
  shows "get_request (request_id r) s = Some r"
proof -
  have uniq: "z = r" if "z \<in> set (all_requests s)" "request_id z = request_id r" for z
    using assms that unfolding set_all_requests by (metis distinct_map inj_on_eq_iff)
  have "find (\<lambda>z. request_id z = request_id r) (all_requests s) \<noteq> None"
    using assms(2) by (auto simp: find_None_iff set_all_requests)
  then show ?thesis using uniq by (auto simp: get_request_def dest: find_in)
qed

lemma get_request_in: "get_request rid s = Some r \<Longrightarrow> r \<in> set (members s) \<and> request_id r = rid"
  unfolding get_request_def set_all_requests [symmetric] by (rule find_in)

lemma set_request_absent: "object_id r \<notin> object_id ` set xs \<Longrightarrow> set_request r xs = xs"
  by (auto simp: set_request_def image_iff intro!: map_idI)

lemma put_running:
  assumes "object_id r \<notin> object_id ` set (waiting_requests s)"
  shows "put_request r s = s\<lparr>running := set_request r (running s)\<rparr>"
proof -
  have "update_in_queue r q = q" if "object_id r \<notin> object_id ` set (queue_order q)" for q
    using that set_request_absent [of r "queue_items q"] unfolding set_queue_items [symmetric] by (cases q) simp_all
  then show ?thesis using assms by (simp add: put_request_def waiting_requests_def image_Un)
qed

lemma set_request_advanced:
  assumes "distinct (map object_id rs)" and "distinct (map request_id rs)" and "r \<in> set rs"
  shows "set_request (advanced_by [(request_id r, n)] r) rs = map (advanced_by [(request_id r, n)]) rs"
  unfolding set_request_def
proof (rule map_cong [OF refl])
  fix z
  assume z: "z \<in> set rs"
  have eq: "object_id z = object_id r \<Longrightarrow> z = r" "request_id z = request_id r \<Longrightarrow> z = r"
    using assms z by (metis distinct_map inj_on_eq_iff)+
  show "(if object_id z = object_id (advanced_by [(request_id r, n)] r) then advanced_by [(request_id r, n)] r else z) =
      advanced_by [(request_id r, n)] z"
  proof (cases "z = r")
    case False
    then have "advanced_by [(request_id r, n)] z = z" using eq(2) by (intro advanced_absent) (auto simp: dict_get_Cons)
    then show ?thesis using False eq(1) by auto
  qed simp
qed

lemma advanced_Cons:
  assumes "rid \<notin> set (dict_keys d)"
  shows "advanced_by d (advanced_by [(rid, n)] r) = advanced_by ((rid, n) # d) r"
proof (cases "request_id r = rid")
  case True
  then have "advanced_by d (advanced_by [(rid, n)] r) = advanced_by [(rid, n)] r"
    using assms by (intro advanced_absent) (simp add: dict_get_None_iff)
  then show ?thesis using True by (simp add: advanced_by_def dict_get_Cons)
next
  case False
  then have "advanced_by [(rid, n)] r = r" by (intro advanced_absent) (simp add: dict_get_Cons)
  then show ?thesis using False by (simp add: advanced_by_def dict_get_Cons)
qed

context encoder_release
begin

lemma update_after_schedule_spec:
  fixes s :: "'a scheduler"
  assumes "dict_ok d" and "set (dict_keys d) \<subseteq> request_id ` set (running s)"
    and "distinct (map object_id (members s))" and "distinct (map request_id (members s))"
    and "\<And>r. r \<in> set (running s) \<Longrightarrow> sized size_of r" and "ok (enc_manager s)"
  shows "\<exists>b' m. fold_res (advance_request ops sched) d (b, s) =
      Inr (b', s\<lparr>running := map (advanced_by d) (running s), enc_manager := m\<rparr>) \<and> ok m"
  using assms
proof (induction d arbitrary: b s)
  case Nil
  have "map (advanced_by []) (running s) = running s" by (intro map_idI advanced_absent) simp
  then show ?case using Nil.prems(6) by (intro exI [of _ b] exI [of _ "enc_manager s"]) simp
next
  case (Cons x d)
  obtain rid n where x: "x = (rid, n)" by (cases x)
  have rid: "rid \<notin> set (dict_keys d)" "dict_ok d" using Cons.prems(1) by (auto simp: x dict_ok_def dict_keys_def)
  obtain r where r: "r \<in> set (running s)" "request_id r = rid" using Cons.prems(2) by (auto simp: x dict_keys_def)
  let ?r = "advanced_by [(rid, n)] r" and ?s = "s\<lparr>running := map (advanced_by [(rid, n)]) (running s)\<rparr>"
  have rm: "r \<in> set (members s)" using r(1) by (simp add: members_def)
  have get: "get_request rid s = Some r" using get_request_member [OF Cons.prems(4) rm] r(2) by simp
  have r': "?r = r\<lparr>num_computed_tokens := num_computed_tokens r + n,
      is_prefill_chunk := num_computed_tokens r + n < int (num_tokens r) + num_output_placeholders r\<rparr>"
    using r(2) by (simp add: advanced_by_def dict_get_Cons)
  have drun: "distinct (map object_id (running s))" "distinct (map request_id (running s))"
    using Cons.prems(3,4) by (simp_all add: members_def)
  have "object_id ?r \<notin> object_id ` set (waiting_requests s)" using Cons.prems(3) r(1) by (auto simp: members_def)
  from put_running [OF this] set_request_advanced [OF drun r(1)] r(2) have put: "put_request ?r s = ?s" by simp
  have "sized size_of ?r" using Cons.prems(5) [OF r(1)] by simp
  then obtain m where m: "(if has_encoder_inputs ?r then free_encoder_inputs ops sched ?r (enc_manager ?s) else Inr (enc_manager ?s)) = Inr m"
    "ok m"
    using free_encoder_inputs_spec [of "enc_manager ?s" ?r sched] Cons.prems(6) by (cases "has_encoder_inputs ?r") auto
  let ?s1 = "?s\<lparr>enc_manager := m\<rparr>"
  have step: "\<exists>b1. advance_request ops sched (rid, n) (b, s) = Inr (b1, ?s1)"
    unfolding advance_request_def prod.case get option.case Let_def r' [symmetric] put m(1) rbind_Inr by blast
  then obtain b1 where b1: "advance_request ops sched (rid, n) (b, s) = Inr (b1, ?s1)" by blast
  have mem: "map object_id (members ?s1) = map object_id (members s)" "map request_id (members ?s1) = map request_id (members s)"
    by (simp_all add: members_def waiting_requests_def comp_def)
  have "\<exists>b' m'. fold_res (advance_request ops sched) d (b1, ?s1) =
      Inr (b', ?s1\<lparr>running := map (advanced_by d) (running ?s1), enc_manager := m'\<rparr>) \<and> ok m'"
  proof (rule Cons.IH [OF rid(2)])
    show "set (dict_keys d) \<subseteq> request_id ` set (running ?s1)" using Cons.prems(2) by (auto simp: x dict_keys_def image_image)
    show "\<And>r. r \<in> set (running ?s1) \<Longrightarrow> sized size_of r" using Cons.prems(5) by auto
  qed (use mem Cons.prems(3,4) m(2) in simp_all)
  moreover have "?s1\<lparr>running := map (advanced_by d) (running ?s1), enc_manager := m'\<rparr> =
      s\<lparr>running := map (advanced_by (x # d)) (running s), enc_manager := m'\<rparr>" for m'
    by (simp add: x comp_def advanced_Cons [OF rid(1)])
  ultimately show ?case using b1 unfolding x by simp
qed

end


section \<open>The whole step\<close>

text \<open>The waiting half leaves the list of running requests as it is and adds only requests that were not in it before the step.\<close>

lemma schedule_rest:
  assumes "start_waiting wp recv failed p = Inr q" and "schedule_waiting sha256 ops ps wp pst q = Some (Inr p')"
    and "mset (map who (running p @ preempted_reqs p)) = mset (map who rs)" and "distinct (map object_id (running p'))"
    and "r \<in> set (running p')" "r0 \<in> set rs" "object_id r = object_id r0"
  shows "r \<in> set (running p)"
proof -
  have q: "running q = running p" "preempted_reqs q = preempted_reqs p"
    using assms(1) by (auto simp: start_waiting_def running_pass.defs split: if_splits)
  from schedule_waiting_running [OF assms(2)] obtain new where
    new: "running p' = running p @ new" "preempted_reqs p \<noteq> [] \<longrightarrow> new = []" by (auto simp: q)
  show ?thesis
  proof (cases "preempted_reqs p = []")
    case True
    then have "who ` set (running p) = who ` set rs" using assms(3) by (metis append_Nil2 image_set mset_eq_setD)
    then have "object_id r \<in> object_id ` set (running p)" using assms(6,7) by (force simp: who_def)
    then show ?thesis using assms(4,5) new(1) by auto
  qed (use assms(5) new in auto)
qed

context encoder_release
begin

lemma finish_pass_spec:
  assumes pd: "pass_done size_of ok has ps wp prev people budget p" and dp: "distinct_people people"
    and b: "budget \<le> max_num_scheduled_tokens ps" and prev: "prev = prev_step_scheduled_req_ids s"
    and freed: "\<And>m. ok m \<Longrightarrow> ok (snd (op_get_freed_mm_hashes op m))"
  shows "\<exists>out s'. finish_pass ops ps wp op s p = Inr (out, s') \<and> after_step size_of ok ps wp (out_spec_decode_tokens out) s' \<and>
    mset (map who (members s')) = people \<and> running s' = map (advanced_by (num_scheduled_tokens p)) (running p) \<and>
    out_of p out \<and> pause s' = pause s"
proof -
  note D = pass_doneD [OF pd]
  note dist = people_distinct [OF dp D(5)]
  let ?d = "num_scheduled_tokens p"
  have drun: "distinct (map object_id (running p))" "distinct (map request_id (running p))" using dist by (simp_all add: members_def)
  have ch: "constraints_hold ps wp p" by (rule constraints_done [OF pd b drun(1)])
  from make_output_spec [OF pd freed drun(1), where finished = "finished_req_ids s"] obtain out k m where
    o: "make_output op (finished_req_ids s) prev p = Inr (out, p\<lparr>kv_cache_manager := k, enc_manager := m\<rparr>)" "out_of p out"
      "coord_inv (coordinator k)" "\<And>rid. kv_frame rid (kv_cache_manager p) k" "ok m" by blast
  define s0 where "s0 = scheduler.truncate (p\<lparr>kv_cache_manager := k, enc_manager := m\<rparr>)"
  have s0: "running s0 = running p" "queues s0 = queues p" "kv_cache_manager s0 = k" "enc_manager s0 = m"
    by (simp_all add: s0_def scheduler.defs)
  have mem: "members s0 = members p" by (simp add: members_def waiting_requests_def s0)
  have ac: "dict_ok ?d" "set (dict_keys ?d) = request_id ` {r \<in> set (running p). object_id r \<in> set (scheduled_ids p)}"
    using D(6) by (simp_all add: accounts_def)
  have sz: "sized size_of r" if "r \<in> set (running s0)" for r
    using that D(1) by (auto simp: s0 served_def ready_def well_formed_def)
  have keys: "set (dict_keys ?d) \<subseteq> request_id ` set (running s0)" using ac(2) by (auto simp: s0)
  have "\<exists>b' m'. fold_res (advance_request ops (encoder_side ps)) ?d (False, s0) =
      Inr (b', s0\<lparr>running := map (advanced_by ?d) (running s0), enc_manager := m'\<rparr>) \<and> ok m'"
    by (rule update_after_schedule_spec [OF ac(1) keys]) (use dist o(5) sz in \<open>simp_all add: mem s0\<close>)
  then obtain b' m' where
    u: "update_after_schedule ops (encoder_side ps) ?d s0 = Inr (b', s0\<lparr>running := map (advanced_by ?d) (running s0), enc_manager := m'\<rparr>)" "ok m'"
    by (auto simp: update_after_schedule_def)
  define s' where "s' = scheduler.extend (s0\<lparr>running := map (advanced_by ?d) (running s0), enc_manager := m'\<rparr>)
    \<lparr>finished_req_ids = {}, prev_step_scheduled_req_ids = set (dict_keys ?d), pause = pause s,
     recv_finished = finished_recving_kv_req_ids p, recv_failed = failed_recving_kv_req_ids p\<rparr>"
  define out' where "out' = out\<lparr>has_structured_output_requests := b'\<rparr>"
  have run: "finish_pass ops ps wp op s p = Inr (out', s')"
    using ch o(1,2) u(1) by (simp add: finish_pass_def prev [symmetric] s0_def [symmetric] s'_def out'_def out_of_def)
  have s': "running s' = map (advanced_by ?d) (running p)" "queues s' = queues p" "kv_cache_manager s' = k" "enc_manager s' = m'"
    "prev_step_scheduled_req_ids s' = set (dict_keys ?d)" "pause s' = pause s"
    by (simp_all add: s'_def scheduler.defs s0)
  have w: "waiting_requests s' = waiting_requests p" by (simp add: waiting_requests_def s')
  have who: "map who (members s') = map who (members p)" "map object_id (members s') = map object_id (members p)"
    "map request_id (members s') = map request_id (members p)" by (simp_all add: members_def w s'(1))
  have "stepped size_of ps k (out_spec_decode_tokens out) (advanced_by ?d r)" if r: "r \<in> set (running p)" for r
  proof -
    have rdy: "ready size_of ps k r" using view_all(3) [OF o(4)] D(1) r by (auto simp: served_def)
    show ?thesis
    proof (cases "dict_get ?d (request_id r)")
      case None
      moreover have "drafts_of (scheduled_spec_decode_tokens p) (request_id r) = []"
      proof -
        have "request_id r \<notin> set (dict_keys (scheduled_spec_decode_tokens p))"
          using None D(6) by (auto simp: accounts_def dict_get_None_iff)
        then show ?thesis by (simp add: drafts_of_def flip: dict_get_None_iff)
      qed
      ultimately show ?thesis using rdy o(2) by (simp add: advanced_absent stepped_def ready_def in_range_def token_bound_def out_of_def)
    next
      case (Some n)
      then have "request_id r \<in> request_id ` {r \<in> set (running p). object_id r \<in> set (scheduled_ids p)}"
        using ac(2) dict_get_Some_keys by fast
      then obtain z where z: "z \<in> set (running p)" "object_id z \<in> set (scheduled_ids p)" "request_id z = request_id r" by auto
      have "z = r" using drun(2) z(1,3) r by (metis distinct_map inj_on_eq_iff)
      then have "granted has ps p r" using D(6) z(1,2) by (auto simp: accounts_def)
      then have g: "0 < n" "num_computed_tokens r + n \<le> sched_max_model_len ps - 1"
        "token_bound (num_computed_tokens r + n) r (drafts_of (scheduled_spec_decode_tokens p) (request_id r))"
        "slots_upto (request_id r) (num_computed_tokens r + n) (kv_cache_manager p)"
        using Some by (auto simp: granted_def drafted_def drafts_of_def)
      have "slots_upto (request_id r) (num_computed_tokens r + n) k" by (rule view_all(1) [OF o(4) g(4)])
      then show ?thesis using rdy g(1-3) o(2) Some
        by (simp add: stepped_def advanced_by_def ready_def in_range_def out_of_def well_formed_def sized_def token_bound_def
            get_num_encoder_embeds_def hashed_def num_tokens_def)
    qed
  qed
  moreover have "request_id r \<notin> set (dict_keys ?d)" if "r \<in> set (waiting_requests p)" for r
  proof -
    have "request_id r \<notin> request_id ` set (running p)" using dist(2) that by (auto simp: members_def)
    then show ?thesis using ac(2) by blast
  qed
  moreover have "awaiting size_of ps wp k r" if "r \<in> set (waiting_requests p)" for r using view_all(4) [OF o(4) D(2) [OF that]] .
  moreover have "kv_static (sched_max_model_len ps) (sched_block_size ps) k" using view_all(5) [OF o(4)] D(1) by (auto simp: served_def)
  moreover have "length (running s') = length (running p)" by (simp add: s')
  ultimately have "after_step size_of ok ps wp (out_spec_decode_tokens out) s'"
    using D(3,4,7) dist o(3) u(2) unfolding after_step_def in_order_def by (simp add: w who) (simp add: s')
  then show ?thesis using run who(1) D(5) o(2) s'(1,6)
    by (intro exI [of _ out'] exI [of _ s']) (simp add: out'_def out_of_def reported_def)
qed

lemma schedule_spec:
  fixes s :: "'a sched_state"
  assumes ok: "state_ok size_of ok ps wp s" and kind: "is_encoder_decoder (encoder_side ps) = encdec" and ps: "params_ok ps"
    and conn: "kv_connector wp = None" and lora: "loras_fit wp (running s)"
    and freed: "\<And>m. ok m \<Longrightarrow> ok (snd (op_get_freed_mm_hashes op m))"
  shows "\<exists>p out s'. schedule sha256 ops ps wp op s = Some (Inr (out, s')) \<and>
    pass_done size_of ok has ps wp (prev_step_scheduled_req_ids s) (mset (map who (members s)))
      (if pause s = PAUSED_ALL then 0 else max_num_scheduled_tokens ps) p \<and>
    after_step size_of ok ps wp (out_spec_decode_tokens out) s' \<and> mset (map who (members s')) = mset (map who (members s)) \<and>
    running s' = map (advanced_by (num_scheduled_tokens p)) (running p) \<and> out_of p out \<and> pause s' = pause s \<and>
    (\<forall>r \<in> set (running p). \<forall>r0 \<in> set (running s). object_id r = object_id r0 \<longrightarrow> num_computed_tokens r = num_computed_tokens r0)"
proof -
  note S = state_okD [OF ok]
  let ?t = "scheduler.truncate s" and ?idle = "set (waiting_requests s)" and ?people = "mset (map who (members s))"
    and ?budget = "if pause s = PAUSED_ALL then 0 else max_num_scheduled_tokens ps"
  have t: "running ?t = running s" "queues ?t = queues s" "kv_cache_manager ?t = kv_cache_manager s" "enc_manager ?t = enc_manager s"
    by (simp_all add: scheduler.defs)
  have dp: "distinct_people ?people"
    unfolding distinct_people_def using S(5,6)
    by (intro exI [of _ "map who (members s)"]) (simp add: comp_def who_def)
  have "served size_of ok ps ?t" using S(1) by (simp add: served_def t)
  moreover have "request_id ` ?idle \<inter> request_id ` set (running ?t) = {}" using S(6) by (auto simp: t members_def)
  moreover have "\<forall>r \<in> ?idle. unknown (request_id r) (kv_cache_manager ?t) \<and> well_formed size_of ps (kv_cache_manager ?t) r"
    using S(2) by (simp add: t awaiting_def)
  moreover have "distinct (map object_id (running ?t))" "distinct (map request_id (running ?t))"
    using S(5,6) by (simp_all add: t members_def)
  ultimately have start: "loop_inv size_of ok has ps ?idle (mset (map who (running s))) (queues s) ?budget (start_pass ps (pause s = PAUSED_ALL) ?t)"
    "sched_before (start_pass ps (pause s = PAUSED_ALL) ?t)"
    using start_pass_inv [of ps ?t ?idle "pause s = PAUSED_ALL"] ps by (simp_all add: t)
  from running_loop_spec [OF kind ps start, of sha256] obtain p where
    p: "schedule_running sha256 ops ps (pause s = PAUSED_ALL) ?t = Inr p"
      "loop_inv size_of ok has ps ?idle (mset (map who (running s))) (queues s) ?budget p"
    by (auto simp: schedule_running_def)
  from start_waiting_spec [OF ok lora p(2), of "recv_finished s" "recv_failed s"] obtain q where
    q: "start_waiting wp (recv_finished s) (recv_failed s) p = Inr q" "preempted_reqs q = preempted_reqs p"
      "scheduled_resumed_reqs q = []" "step_skipped_waiting q = create_request_queue (policy (queues q))"
      "waiting_inv size_of ok has ps wp (if preempted_reqs q = [] then prev_step_scheduled_req_ids s else {}) ?people ?budget q"
    by auto
  from schedule_waiting_spec [OF kind ps dp conn q(5,3,4), of sha256 "pause s"] obtain p' where
    p': "schedule_waiting sha256 ops ps wp (pause s) q = Some (Inr p')"
      "pass_done size_of ok has ps wp (prev_step_scheduled_req_ids s) ?people ?budget p'" by blast
  have "?budget \<le> max_num_scheduled_tokens ps" using ps by (simp add: params_ok_def)
  from finish_pass_spec [OF p'(2) dp this refl, of op] freed obtain out s' where
    f: "finish_pass ops ps wp op s p' = Inr (out, s')" "after_step size_of ok ps wp (out_spec_decode_tokens out) s'"
      "mset (map who (members s')) = ?people" "running s' = map (advanced_by (num_scheduled_tokens p')) (running p')"
      "out_of p' out" "pause s' = pause s" by blast
  have "schedule sha256 ops ps wp op s = Some (Inr (out, s'))"
    using p(1) q(1) p'(1) f(1) by (simp add: schedule_def)
  moreover have "num_computed_tokens r = num_computed_tokens r0"
    if r: "r \<in> set (running p')" "r0 \<in> set (running s)" "object_id r = object_id r0" for r r0
  proof -
    have "mset (map who (running p @ preempted_reqs p)) = mset (map who (running s))"
      using loop_invD(2) [OF p(2)] by (simp add: identified_def)
    moreover have "distinct (map object_id (running p'))"
      using people_distinct(1) [OF dp pass_doneD(5) [OF p'(2)]] by (simp add: members_def)
    ultimately have "r \<in> set (running p)" using schedule_rest [OF q(1) p'(1)] r by blast
    with schedule_running_counts [OF p(1) _ this] r(2,3) S(5) show ?thesis by (simp add: t members_def)
  qed
  ultimately show ?thesis using p'(2) f(2-6) by blast
qed

end

section \<open>Properties\<close>

text \<open>
  C2. A whole scheduling step is safe, for a scheduler with the shared encoder cache and
  without a KV connector. Take a state in order: the managers satisfy their invariants, every
  running request is shorter than the model's length and has slots for its computed tokens, every
  waiting request is unknown to the block manager and can be admitted, the queues are in order, no
  two requests share an identity or an id, the LoRA adapters of the running requests fit, and no preempted
  request was scheduled in the last step. Then \<open>schedule\<close> returns: no lookup, allocation,
  preemption or admission raises and all of its own assertions hold, whatever it preempts, skips or admits.
  The tokens handed out are positive, their sum is reported and within the budget (none when
  everything is paused). A request that was running before the step and still is has advanced by exactly the tokens it was
  given, by none if it was given none. For every scheduled request, also one that was just admitted, the output
  reports a count of computed tokens, and the request, which is running, is ahead of this count by exactly the tokens it was
  given; nothing else is reported. No request is lost or duplicated, and the state is in order again: slots for every computed
  token, at most the drafts of this step ahead of the request's own tokens.
\<close>

theorem schedule_safe:
  fixes s :: "encoder_cache_manager sched_state"
  assumes "state_ok size_of (enc_inv size_of) ps wp s" and "params_ok ps" and "\<not> is_encoder_decoder (encoder_side ps)"
    and "kv_connector wp = None" and "loras_fit wp (running s)" and "op_get_freed_mm_hashes op = get_freed_mm_hashes"
  shows "\<exists>out s'. schedule sha256 shared_ops ps wp op s = Some (Inr (out, s')) \<and>
    after_step size_of (enc_inv size_of) ps wp (out_spec_decode_tokens out) s' \<and>
    mset (map who (members s')) = mset (map who (members s)) \<and>
    total_num_scheduled_tokens out = sum_list (map snd (out_num_scheduled_tokens out)) \<and>
    total_num_scheduled_tokens out \<le> (if pause s = PAUSED_ALL then 0 else max_num_scheduled_tokens ps) \<and>
    (\<forall>r0 \<in> set (running s). \<forall>r \<in> set (running s'). object_id r = object_id r0 \<longrightarrow>
       num_computed_tokens r = num_computed_tokens r0 +
         (case dict_get (out_num_scheduled_tokens out) (request_id r) of None \<Rightarrow> 0 | Some n \<Rightarrow> n)) \<and>
    (\<forall>rid n. dict_get (out_num_scheduled_tokens out) rid = Some n \<longrightarrow>
       0 < n \<and> (\<exists>r \<in> set (running s'). \<exists>c \<ge> 0. request_id r = rid \<and> (rid, c) \<in> set (reported out) \<and> num_computed_tokens r = c + n)) \<and>
    (\<forall>(rid, c) \<in> set (reported out). \<exists>n. dict_get (out_num_scheduled_tokens out) rid = Some n \<and>
       (\<exists>r \<in> set (running s'). request_id r = rid \<and> num_computed_tokens r = c + n))"
proof -
  have keeps: "enc_inv size_of m \<Longrightarrow> enc_inv size_of (snd (op_get_freed_mm_hashes op m))" for m
    using assms(6) by (simp add: get_freed_mm_hashes_def enc_inv_def)
  have "is_encoder_decoder (encoder_side ps) = False" using assms(3) by simp
  from shared_release.schedule_spec [OF assms(1) this assms(2,4,5) keeps, of sha256] obtain p out s' where
    p: "schedule sha256 shared_ops ps wp op s = Some (Inr (out, s'))"
      "pass_done size_of (enc_inv size_of) holds ps wp (prev_step_scheduled_req_ids s) (mset (map who (members s)))
        (if pause s = PAUSED_ALL then 0 else max_num_scheduled_tokens ps) p"
      "after_step size_of (enc_inv size_of) ps wp (out_spec_decode_tokens out) s'" "mset (map who (members s')) = mset (map who (members s))"
      "running s' = map (advanced_by (num_scheduled_tokens p)) (running p)" "out_of p out"
      "\<forall>r \<in> set (running p). \<forall>r0 \<in> set (running s). object_id r = object_id r0 \<longrightarrow> num_computed_tokens r = num_computed_tokens r0" by blast
  let ?d = "num_scheduled_tokens p"
  have a: "accounts holds ps (if pause s = PAUSED_ALL then 0 else max_num_scheduled_tokens ps) p" and sv: "served size_of (enc_inv size_of) ps p"
    using pass_doneD(1,6) [OF p(2)] by simp_all
  have out: "out_num_scheduled_tokens out = ?d"
    "set (reported out) = count_of ` {r \<in> set (running p). object_id r \<in> set (scheduled_ids p)}" using p(6) by (simp_all add: out_of_def)
  have step: "num_computed_tokens (advanced_by ?d r) = num_computed_tokens r + (case dict_get ?d (request_id r) of None \<Rightarrow> 0 | Some n \<Rightarrow> n)" for r
    by (simp add: advanced_by_def split: option.splits)
  have got: "\<exists>n. dict_get ?d (request_id r) = Some n \<and> 0 < n"
    if "r \<in> set (running p)" "object_id r \<in> set (scheduled_ids p)" for r
    using a that by (auto simp: accounts_def granted_def)
  have "0 < n \<and> (\<exists>r \<in> set (running s'). \<exists>c \<ge> 0. request_id r = rid \<and> (rid, c) \<in> set (reported out) \<and> num_computed_tokens r = c + n)"
    if n: "dict_get (out_num_scheduled_tokens out) rid = Some n" for rid n
  proof -
    have n': "dict_get ?d rid = Some n" using n out(1) by simp
    then obtain r where r: "r \<in> set (running p)" "object_id r \<in> set (scheduled_ids p)" "request_id r = rid"
      using a dict_get_Some_keys [OF n'] by (auto simp: accounts_def)
    then have "0 < n" using got n' by fastforce
    moreover have "0 \<le> num_computed_tokens r" using sv r(1) by (auto simp: served_def ready_def in_range_def)
    moreover have "(rid, num_computed_tokens r) \<in> set (reported out)" using out(2) r by (auto simp: count_of_def)
    ultimately show ?thesis using r(1,3) p(5) step [of r] n'
      by (intro conjI bexI [of _ "advanced_by ?d r"] exI [of _ "num_computed_tokens r"]) auto
  qed
  moreover have "\<exists>n. dict_get (out_num_scheduled_tokens out) rid = Some n \<and>
      (\<exists>r \<in> set (running s'). request_id r = rid \<and> num_computed_tokens r = c + n)" if "(rid, c) \<in> set (reported out)" for rid c
    using that out p(5) got step by (force simp: count_of_def)
  moreover have "num_computed_tokens r = num_computed_tokens r0 +
      (case dict_get (out_num_scheduled_tokens out) (request_id r) of None \<Rightarrow> 0 | Some n \<Rightarrow> n)"
    if "r0 \<in> set (running s)" "r \<in> set (running s')" "object_id r = object_id r0" for r r0
    using that p(5,7) step out(1) by auto
  moreover have "total_num_scheduled_tokens out = sum_list (map snd (out_num_scheduled_tokens out))"
    "total_num_scheduled_tokens out \<le> (if pause s = PAUSED_ALL then 0 else max_num_scheduled_tokens ps)"
    using p(6) a by (simp_all add: out_of_def accounts_def token_sum_def)
  ultimately show ?thesis using p(1,3,4) by (intro exI [of _ out] exI [of _ s']) blast
qed


text \<open>One request runs, another waits; there are three usable blocks and up to two running requests.\<close>

definition small_waiting :: waiting_params where
  "small_waiting =
     \<lparr>max_num_running_reqs = 2, max_loras = None, enable_chunked_prefill = True, scheduler_reserve_full_isl = False,
      kv_connector = None, grammar_ready = (\<lambda>_. False), streaming_input = (\<lambda>_. False)\<rparr>"

definition small_output :: "encoder_cache_manager output_params" where
  "small_output =
     \<lparr>use_v2_model_runner = False, use_pp = False, async_scheduling = False, needs_kv_cache_zeroing = False,
      kv_cache_group_count = 1, op_get_freed_mm_hashes = get_freed_mm_hashes\<rparr>"

definition small_state :: "kv_manager \<Rightarrow> encoder_cache_manager sched_state" where
  "small_state k =
     \<lparr>running = [image_request ''a'' 0],
      queues = \<lparr>policy = FCFS, waiting = FCFSRequestQueue [(image_request ''b'' 1)\<lparr>status := WAITING\<rparr>],
                skipped_waiting = FCFSRequestQueue []\<rparr>,
      kv_cache_manager = k, enc_manager = EncoderCacheManager 10, finished_req_ids = {}, prev_step_scheduled_req_ids = {},
      pause = UNPAUSED, recv_finished = {}, recv_failed = {}\<rparr>"

lemma small_state_ok:
  "\<exists>k. KVCacheManager small_config 8 1 True False False False 1 1 False = Inr k \<and>
     state_ok (\<lambda>_. 4) (enc_inv (\<lambda>_. 4)) small_params small_waiting (small_state k)"
proof -
  from small_scheduler_served obtain k where
    k: "KVCacheManager small_config 8 1 True False False False 1 1 False = Inr k"
      "served (\<lambda>_. 4) (enc_inv (\<lambda>_. 4)) small_params (small_scheduler k)" "\<And>rid. unknown rid k" by blast
  have kv: "coord_inv (coordinator k)" "kv_static (sched_max_model_len small_params) (sched_block_size small_params) k" "enc_inv (\<lambda>_. 4) (EncoderCacheManager 10)"
    and rdy: "ready (\<lambda>_. 4) small_params k (image_request ''a'' 0)" "ready (\<lambda>_. 4) small_params k (image_request ''b'' 1)"
    using k(2) by (simp_all add: served_def small_scheduler_def)
  have "well_formed (\<lambda>_. 4) small_params k ((image_request ''b'' 1)\<lparr>status := WAITING\<rparr>)"
    using rdy(2) by (simp add: ready_def well_formed_def sized_def get_num_encoder_embeds_def hashed_def num_tokens_def)
  moreover have "num_computed_tokens (image_request ''b'' 1) = 0" by (simp add: image_request_def mm_request_def)
  ultimately have "awaiting (\<lambda>_. 4) small_params small_waiting k ((image_request ''b'' 1)\<lparr>status := WAITING\<rparr>)"
    using k(3) by (simp add: awaiting_def)
  moreover have "object_id (image_request rid n) = n" "request_id (image_request rid n) = rid" for rid n
    by (simp_all add: image_request_def)
  ultimately have "state_ok (\<lambda>_. 4) (enc_inv (\<lambda>_. 4)) small_params small_waiting (small_state k)"
    using kv rdy(1) by (simp add: state_ok_def in_order_def served_def small_state_def waiting_requests_def members_def queue_order_def
        queue_ok_def fcfs_ok_def distinct_objects_def small_waiting_def)
  then show ?thesis using k(1) by blast
qed

lemma small_params_ok: "params_ok small_params" "\<not> is_encoder_decoder (encoder_side small_params)"
  by (simp_all add: params_ok_def small_params_def chunked_scheduler_def)

theorem schedule_safe_witness:
  "\<exists>k out s'. KVCacheManager small_config 8 1 True False False False 1 1 False = Inr k \<and>
     schedule id shared_ops small_params small_waiting small_output (small_state k) = Some (Inr (out, s')) \<and>
     total_num_scheduled_tokens out \<le> 6 \<and> mset (map who (members s')) = {#who (image_request ''a'' 0), who (image_request ''b'' 1)#} \<and>
     (\<forall>r \<in> set (running s'). object_id r = 0 \<longrightarrow>
        num_computed_tokens r = (case dict_get (out_num_scheduled_tokens out) (request_id r) of None \<Rightarrow> 0 | Some n \<Rightarrow> n))"
proof -
  from small_state_ok obtain k where
    k: "KVCacheManager small_config 8 1 True False False False 1 1 False = Inr k"
      "state_ok (\<lambda>_. 4) (enc_inv (\<lambda>_. 4)) small_params small_waiting (small_state k)" by blast
  have c: "kv_connector small_waiting = None" "loras_fit small_waiting (running (small_state k))"
    "op_get_freed_mm_hashes small_output = get_freed_mm_hashes"
    by (simp_all add: small_waiting_def small_output_def loras_fit_def)
  from schedule_safe [OF k(2) small_params_ok c, of id] obtain out s' where
    o: "schedule id shared_ops small_params small_waiting small_output (small_state k) = Some (Inr (out, s'))"
      "mset (map who (members s')) = mset (map who (members (small_state k)))"
      "total_num_scheduled_tokens out \<le> (if pause (small_state k) = PAUSED_ALL then 0 else max_num_scheduled_tokens small_params)"
      "\<forall>r0 \<in> set (running (small_state k)). \<forall>r \<in> set (running s'). object_id r = object_id r0 \<longrightarrow> num_computed_tokens r =
         num_computed_tokens r0 + (case dict_get (out_num_scheduled_tokens out) (request_id r) of None \<Rightarrow> 0 | Some n \<Rightarrow> n)" by blast
  have "image_request ''a'' 0 \<in> set (running (small_state k))" "object_id (image_request ''a'' 0) = 0" "num_computed_tokens (image_request ''a'' 0) = 0"
    by (simp_all add: small_state_def image_request_def mm_request_def)
  with o(4) have "\<forall>r \<in> set (running s'). object_id r = 0 \<longrightarrow>
      num_computed_tokens r = (case dict_get (out_num_scheduled_tokens out) (request_id r) of None \<Rightarrow> 0 | Some n \<Rightarrow> n)" by auto
  moreover have "mset (map who (members (small_state k))) = {#who (image_request ''a'' 0), who (image_request ''b'' 1)#}"
    by (simp add: small_state_def members_def waiting_requests_def queue_order_def)
  moreover have "total_num_scheduled_tokens out \<le> 6" using o(3) by (simp add: small_state_def small_params_def)
  ultimately show ?thesis using k(1) o(1,2) by auto
qed

end
