(* ===== verification/Lifecycle.thy ===== *)
theory Lifecycle
  imports Schedule
begin

text \<open>
  \<^verbatim>\<open>vllm/v1/core/sched/scheduler.py\<close>: the life of a request around the scheduling steps, for a
  scheduler without a KV connector: \<^verbatim>\<open>add_request\<close>, \<^verbatim>\<open>update_from_output\<close>, \<^verbatim>\<open>finish_requests\<close>,
  draft tokens, streaming sessions, resets and the counters, and the two methods that
  \<^verbatim>\<open>AsyncScheduler\<close> overrides.

  The streaming queue of a request is kept by its id. A request that was freed inside
  \<^verbatim>\<open>update_from_output\<close> stays in the list of running requests, with its finished status, until the
  end of that call; the code has then deleted it from \<^verbatim>\<open>self.requests\<close>, and both make the loop pass
  it over. The grammar of a request is an argument, and its state, log probabilities and
  statistics, which only leave the scheduler, are left out.
\<close>

section \<open>State\<close>

record streaming_update =
  su_mm_features :: "mm_feature list"
  su_prompt_token_ids :: "int list option"
  su_max_tokens :: int
  su_arrival_time :: real
  su_sampling_params :: "sampling_params_rec option"

record 'm engine = "'m sched_state" +
  streaming_queues :: "(string, streaming_update option list) pydict"
  num_waiting_for_streaming_input :: int
  finished_req_ids_dict :: "(int, string set) pydict option"

record model_runner_output =
  sampled_token_ids :: "int list list"
  req_id_to_index :: "(string, nat) pydict"
  pooler_outputs :: "bytes option list"
  runner_nans :: "(string, int) pydict option"
  prompt_logprobs :: "string set"

record engine_core_output =
  eco_request_id :: string
  eco_new_token_ids :: "int list"
  eco_finish_reason :: "finish_reason option"
  eco_pooling_output :: "bytes option"
  eco_stop_reason :: "stop_reason option"
  eco_num_cached_tokens :: int
  eco_num_external_computed_tokens :: int
  eco_num_nans_in_logits :: int

record grammar_ops =
  should_advance :: "request \<Rightarrow> bool"
  has_grammar :: "request \<Rightarrow> bool"
  validate_tokens :: "request \<Rightarrow> int list \<Rightarrow> int list"

section \<open>Streaming sessions\<close>

definition streaming_update_from_request :: "request \<Rightarrow> streaming_update option" where
  "streaming_update_from_request r =
     (if \<not> resumable r then None
      else Some \<lparr>su_mm_features = mm_features r, su_prompt_token_ids = prompt_token_ids r, su_max_tokens = max_tokens r,
                 su_arrival_time = arrival_time r, su_sampling_params = sampling_params r\<rparr>)"

text \<open>The next input of a session: computed output becomes prompt, the last sampled token is dropped.\<close>

definition update_request_as_session :: "block_hasher option \<Rightarrow> request \<Rightarrow> streaming_update \<Rightarrow> request res" where
  "update_request_as_session hasher r u =
     (let n = nat (num_computed_tokens r);
          kept = py_slice (num_prompt_tokens r) n (all_token_ids r);
          base = int (length (take n (all_token_ids r)));
          ids = (case su_prompt_token_ids u of None \<Rightarrow> [] | Some ts \<Rightarrow> ts);
          feats = map (\<lambda>f. f\<lparr>mm_position := (mm_position f)\<lparr>offset := offset (mm_position f) + base\<rparr>\<rparr>) (su_mm_features u)
      in case prompt_token_ids r of
           None \<Rightarrow> Inl AssertionError
         | Some prompt \<Rightarrow>
             rbind (update_block_hashes hasher
                      (r\<lparr>all_token_ids := take n (all_token_ids r) @ ids, output_token_ids := [],
                         prompt_token_ids := Some (prompt @ kept @ ids), mm_features := mm_features r @ feats\<rparr>)) (\<lambda>r'.
               Inr (r'\<lparr>num_prompt_tokens := length (prompt @ kept @ ids), arrival_time := su_arrival_time u,
                       sampling_params := su_sampling_params u, status := WAITING\<rparr>)))"

definition leave_streaming :: "request \<Rightarrow> 'm engine \<Rightarrow> 'm engine" where
  "leave_streaming r e =
     (if status r = WAITING_FOR_STREAMING_REQ
      then e\<lparr>num_waiting_for_streaming_input := num_waiting_for_streaming_input e - 1\<rparr> else e)"

section \<open>The end of a request\<close>

definition handle_stopped_request ::
  "block_hasher option \<Rightarrow> request \<Rightarrow> 'm engine \<Rightarrow> (bool \<times> request \<times> 'm engine) res" where
  "handle_stopped_request hasher r e =
     (if \<not> resumable r then Inr (True, r, e)
      else case dict_get (streaming_queues e) (request_id r) of
        Some (u # us) \<Rightarrow>
          (let e1 = e\<lparr>streaming_queues := dict_set (request_id r) us (streaming_queues e)\<rparr>
           in case u of
                None \<Rightarrow> Inr (True, r, e1)
              | Some upd \<Rightarrow> rbind (update_request_as_session hasher r upd) (\<lambda>r'.
                  Inr (False, r', (leave_streaming r e1)\<lparr>queues := enqueue_waiting_request r' (queues e1)\<rparr>)))
      | _ \<Rightarrow>
          let r' = r\<lparr>status := WAITING_FOR_STREAMING_REQ\<rparr>
          in Inr (False, r', e\<lparr>num_waiting_for_streaming_input := num_waiting_for_streaming_input e + 1,
                              queues := enqueue_waiting_request r' (queues e)\<rparr>))"

definition free_blocks_of :: "request \<Rightarrow> 'm engine \<Rightarrow> 'm engine res" where
  "free_blocks_of r e =
     (if \<not> is_finished r then Inl AssertionError
      else rbind (kv_free r (kv_cache_manager e)) (\<lambda>kv.
        Inr (e\<lparr>kv_cache_manager := kv, streaming_queues := dict_del (request_id r) (streaming_queues e)\<rparr>)))"

definition free_finished_request :: "'m encoder_ops \<Rightarrow> bool \<Rightarrow> request \<Rightarrow> 'm engine \<Rightarrow> 'm engine res" where
  "free_finished_request ops delay_free_blocks r e =
     (if \<not> is_finished r then Inl AssertionError
      else rbind (op_free ops r (enc_manager e)) (\<lambda>enc.
        let rid = request_id r;
            e1 = e\<lparr>enc_manager := enc, finished_req_ids := insert rid (finished_req_ids e),
                   finished_req_ids_dict := map_option (\<lambda>d.
                     dict_set (client_index r) (insert rid (case dict_get d (client_index r) of None \<Rightarrow> {} | Some x \<Rightarrow> x)) d)
                     (finished_req_ids_dict e)\<rparr>
        in if delay_free_blocks then Inr e1 else free_blocks_of r e1))"

text \<open>Removal from a list by identity.\<close>

definition remove_objects :: "nat set \<Rightarrow> request list \<Rightarrow> request list" where
  "remove_objects ids rs = (let keep = remove_all (map object_id rs) ids in filter (\<lambda>r. object_id r \<in> set keep) rs)"

section \<open>The tokens of a step\<close>

text \<open>The method that appends tokens, in the base class and in the asynchronous scheduler.\<close>

type_synonym output_method = "request \<Rightarrow> int list \<Rightarrow> kv_manager \<Rightarrow> (int list \<times> bool \<times> request \<times> kv_manager) res"

definition sync_update_output :: "block_hasher option \<Rightarrow> int \<Rightarrow> output_method" where
  "sync_update_output hasher max_len r ts kv =
     rbind (update_request_with_output hasher max_len r ts) (\<lambda>(ts', stopped, r'). Inr (ts', stopped, r', kv))"

definition async_update_output :: "(bytes \<Rightarrow> bytes) \<Rightarrow> block_hasher option \<Rightarrow> int \<Rightarrow> output_method" where
  "async_update_output sha256 hasher max_len r ts kv =
     (if discard_latest_async_tokens r then Inr ([], False, r\<lparr>discard_latest_async_tokens := False\<rparr>, kv)
      else rbind (update_request_with_output hasher max_len r ts) (\<lambda>(ts', stopped, r').
        let r2 = r'\<lparr>num_output_placeholders := num_output_placeholders r' - int (length ts')\<rparr>
        in if num_output_placeholders r2 < 0 then Inl AssertionError
           else if status r = RUNNING
           then rbind (kv_cache_blocks_op sha256 r2 (num_computed_tokens r2 - num_output_placeholders r2) kv) (\<lambda>(kv', r3).
                  Inr (ts', stopped, r3, kv'))
           else Inr (ts', stopped, r2, kv)))"

text \<open>After a step of the asynchronous scheduler, a token and its drafts are expected of every decoding request.\<close>

definition expect_output :: "int list \<Rightarrow> (string, int list) pydict \<Rightarrow> string \<Rightarrow> bool \<times> ('m, 'z) scheduler_scheme \<Rightarrow>
   (bool \<times> ('m, 'z) scheduler_scheme) res" where
  "expect_output spec_token_placeholders drafts rid = (\<lambda>(pending, s).
     case get_request rid s of
       None \<Rightarrow> Inl KeyError
     | Some r \<Rightarrow>
         if is_prefill_chunk r then Inr (pending, s)
         else let k = length (case dict_get drafts rid of None \<Rightarrow> [] | Some ts \<Rightarrow> ts)
              in Inr (pending \<or> use_structured_output r \<and> num_output_placeholders r > 0,
                      put_request (r\<lparr>num_output_placeholders := num_output_placeholders r + 1 + int k,
                                     spec_token_ids := spec_token_placeholders\<rparr>) s))"

definition async_update_after_schedule ::
  "'m encoder_ops \<Rightarrow> encoder_scheduler \<Rightarrow> int list \<Rightarrow> (string, int list) pydict \<Rightarrow> (string, int) pydict \<Rightarrow> ('m, 'z) scheduler_scheme \<Rightarrow>
   (bool \<times> bool \<times> ('m, 'z) scheduler_scheme) res" where
  "async_update_after_schedule ops sched placeholders drafts scheduled s =
     rbind (update_after_schedule ops sched scheduled s) (\<lambda>(structured, s1).
       rbind (fold_res (expect_output placeholders drafts) (dict_keys scheduled) (False, s1)) (\<lambda>(pending, s2).
         Inr (structured, pending, s2)))"

text \<open>Rejected drafts were not computed after all.\<close>

definition reject_drafts :: "int list \<Rightarrow> int list \<Rightarrow> request \<Rightarrow> request" where
  "reject_drafts drafts generated r =
     (if drafts = [] \<or> generated = [] then r
      else let num_rejected = int (length drafts) - (int (length generated) - 1);
               r1 = (if num_computed_tokens r > 0 then r\<lparr>num_computed_tokens := num_computed_tokens r - num_rejected\<rparr> else r)
           in if num_output_placeholders r1 > 0
              then r1\<lparr>num_output_placeholders := num_output_placeholders r1 - num_rejected\<rparr> else r1)"

definition take_output ::
  "output_method \<Rightarrow> int list \<Rightarrow> bytes option \<Rightarrow> request \<Rightarrow> kv_manager \<Rightarrow> (int list \<times> bool \<times> request \<times> kv_manager) res" where
  "take_output upd generated pooled r kv =
     (if generated \<noteq> [] then upd r generated kv
      else if pooling_params r \<noteq> None \<and> pooled \<noteq> None then Inr ([], True, r\<lparr>status := FINISHED_STOPPED\<rparr>, kv)
      else Inr ([], False, r, kv))"

record 'm update_loop =
  loop_engine :: "'m engine"
  stopped_running :: "nat set"
  stopped_preempted :: "request list"
  outputs :: "(int, engine_core_output list) pydict"

text \<open>A stopped request is freed, or waits for the next input of its session.\<close>

definition stop_request ::
  "'m encoder_ops \<Rightarrow> block_hasher option \<Rightarrow> request_status \<Rightarrow> request \<Rightarrow> 'm update_loop \<Rightarrow> (request \<times> 'm update_loop) res" where
  "stop_request ops hasher status_before r u =
     rbind (handle_stopped_request hasher r (loop_engine u)) (\<lambda>(finished, r', e).
     rbind (if finished then free_finished_request ops False r' e else Inr e) (\<lambda>e'.
       Inr (r', if status_before = RUNNING
                then u\<lparr>loop_engine := e', stopped_running := insert (object_id r') (stopped_running u)\<rparr>
                else u\<lparr>loop_engine := e', stopped_preempted := stopped_preempted u @ [r']\<rparr>)))"

definition emit_output ::
  "grammar_ops \<Rightarrow> model_runner_output \<Rightarrow> int list \<Rightarrow> bool \<Rightarrow> finish_reason option \<Rightarrow> bytes option \<Rightarrow> request \<Rightarrow> 'm update_loop \<Rightarrow>
   'm update_loop res" where
  "emit_output g out ts stopped reason pooled r u =
     (if ts \<noteq> [] \<and> should_advance g r \<and> \<not> (use_structured_output r \<and> has_grammar g r) then Inl AssertionError
      else
        let rid = request_id r;
            r' = (case Option.bind (runner_nans out) (\<lambda>d. dict_get d rid) of None \<Rightarrow> r | Some n \<Rightarrow> r\<lparr>num_nans_in_logits := n\<rparr>);
            u1 = u\<lparr>loop_engine := put_request r' (loop_engine u)\<rparr>
        in if ts \<noteq> [] \<or> pooled \<noteq> None \<or> stopped
           then Inr (u1\<lparr>outputs := dict_set (client_index r)
                  ((case dict_get (outputs u) (client_index r) of None \<Rightarrow> [] | Some xs \<Rightarrow> xs) @
                   [\<lparr>eco_request_id = rid, eco_new_token_ids = ts, eco_finish_reason = reason, eco_pooling_output = pooled,
                     eco_stop_reason = stop_reason r', eco_num_cached_tokens = num_cached_tokens r',
                     eco_num_external_computed_tokens = num_external_computed_tokens r',
                     eco_num_nans_in_logits = num_nans_in_logits r'\<rparr>]) (outputs u)\<rparr>)
           else if rid \<in> prompt_logprobs out then Inl AssertionError else Inr u1)"

definition py_index :: "'a list \<Rightarrow> nat \<Rightarrow> 'a res" where
  "py_index xs i = (if i < length xs then Inr (xs ! i) else Inl IndexError)"

definition process_request ::
  "'m encoder_ops \<Rightarrow> block_hasher option \<Rightarrow> output_method \<Rightarrow> grammar_ops \<Rightarrow> (string, int list) pydict \<Rightarrow> model_runner_output \<Rightarrow>
   string \<times> int \<Rightarrow> 'm update_loop \<Rightarrow> 'm update_loop res" where
  "process_request ops hasher upd g drafts out = (\<lambda>(rid, n) u.
     if n \<le> 0 then Inl AssertionError
     else case get_request rid (loop_engine u) of
       None \<Rightarrow> Inr u
     | Some r \<Rightarrow>
         if is_finished r then Inr u
         else case dict_get (req_id_to_index out) rid of
           None \<Rightarrow> Inl KeyError
         | Some i \<Rightarrow>
             rbind (if sampled_token_ids out = [] then Inr [] else py_index (sampled_token_ids out) i) (\<lambda>generated.
             rbind (if pooler_outputs out = [] then Inr None else py_index (pooler_outputs out) i) (\<lambda>pooled.
               let r1 = reject_drafts (case dict_get drafts rid of None \<Rightarrow> [] | Some ts \<Rightarrow> ts) generated r
               in rbind (take_output upd generated pooled r1 (kv_cache_manager (loop_engine u))) (\<lambda>(ts, stopped, r2, kv).
                    let u1 = u\<lparr>loop_engine := (loop_engine u)\<lparr>kv_cache_manager := kv\<rparr>\<rparr>
                    in rbind (if stopped then stop_request ops hasher (status r1) r2 u1 else Inr (r2, u1)) (\<lambda>(r3, u2).
                         emit_output g out ts stopped (if stopped then get_finished_reason r2 else None) pooled r3 u2)))))"

section \<open>update_from_output\<close>

text \<open>The outputs by client, and with them the ids of the requests that finished.\<close>

type_synonym client_outputs = "(int, engine_core_output list \<times> string set option) pydict"

definition collect_outputs ::
  "bool \<Rightarrow> (int, engine_core_output list) pydict \<Rightarrow> (int, string set) pydict option \<Rightarrow> client_outputs" where
  "collect_outputs stats outs finished =
     (let d1 = map (\<lambda>(c, xs). (c, (xs, None))) outs;
          d2 = (case finished of
                  None \<Rightarrow> d1
                | Some f \<Rightarrow> fold (\<lambda>(c, ids) d. dict_set c
                    (case dict_get d c of None \<Rightarrow> ([], Some ids) | Some (xs, _) \<Rightarrow> (xs, Some ids)) d) f d1)
      in if stats \<and> d2 = [] then [(0, ([], None))] else d2)"

definition update_from_output ::
  "'m encoder_ops \<Rightarrow> block_hasher option \<Rightarrow> output_method \<Rightarrow> grammar_ops \<Rightarrow> bool \<Rightarrow> scheduler_output \<Rightarrow> model_runner_output \<Rightarrow>
   'm engine \<Rightarrow> (client_outputs \<times> kv_cache_event list \<times> 'm engine) res" where
  "update_from_output ops hasher upd g stats sched_out out e =
     rbind (fold_res (process_request ops hasher upd g (out_spec_decode_tokens sched_out) out) (out_num_scheduled_tokens sched_out)
              \<lparr>loop_engine = e, stopped_running = {}, stopped_preempted = [], outputs = []\<rparr>) (\<lambda>u.
       let e1 = loop_engine u;
           e2 = e1\<lparr>running := (if stopped_running u = {} then running e1 else remove_objects (stopped_running u) (running e1)),
                   queues := (if stopped_preempted u = [] then queues e1
                              else (queues e1)\<lparr>waiting := remove_requests (stopped_preempted u) (waiting (queues e1))\<rparr>)\<rparr>;
           (evs, kv) = kv_take_events (kv_cache_manager e2)
       in Inr (collect_outputs stats (outputs u) (finished_req_ids_dict e2), evs,
               e2\<lparr>kv_cache_manager := kv, finished_req_ids_dict := map_option (\<lambda>_. []) (finished_req_ids_dict e2)\<rparr>))"

section \<open>Requests from outside\<close>

definition add_new_request :: "request \<Rightarrow> 'm engine \<Rightarrow> 'm engine" where
  "add_new_request r e =
     (let e1 = (if resumable r then e\<lparr>streaming_queues := dict_set (request_id r) [] (streaming_queues e)\<rparr> else e)
      in e1\<lparr>queues := enqueue_waiting_request r (queues e1)\<rparr>)"

definition finish_one :: "'m encoder_ops \<Rightarrow> request_status \<Rightarrow> request \<Rightarrow> 'm engine \<Rightarrow> 'm engine res" where
  "finish_one ops st r e =
     (let rid = request_id r; remote = (status r = WAITING_FOR_REMOTE_KVS);
          delay = (remote \<and> rid \<notin> recv_finished e);
          e1 = (if remote then e\<lparr>recv_finished := recv_finished e - {rid}, recv_failed := recv_failed e - {rid}\<rparr> else e)
      in free_finished_request ops delay (r\<lparr>status := st\<rparr>) e1)"

definition finish_requests ::
  "'m encoder_ops \<Rightarrow> string list option \<Rightarrow> request_status \<Rightarrow> 'm engine \<Rightarrow> ((string \<times> int) list \<times> 'm engine) res" where
  "finish_requests ops request_ids st e =
     (if \<not> is_finished_status st then Inl AssertionError
      else
        let ids = (case request_ids of None \<Rightarrow> map request_id (all_requests e) | Some xs \<Rightarrow> remdups xs);
            valid = filter (\<lambda>r. \<not> is_finished r) (List.map_filter (\<lambda>rid. get_request rid e) ids);
            run = filter (\<lambda>r. status r = RUNNING) valid;
            wait = filter (\<lambda>r. status r \<noteq> RUNNING) valid;
            e1 = fold leave_streaming wait e;
            e2 = (if run = [] then e1 else e1\<lparr>running := remove_objects (object_id ` set run) (running e1)\<rparr>);
            e3 = (if wait = [] then e2
                  else e2\<lparr>queues := (queues e2)\<lparr>waiting := remove_requests wait (waiting (queues e2)),
                                             skipped_waiting := remove_requests wait (skipped_waiting (queues e2))\<rparr>\<rparr>)
        in rbind (fold_res (finish_one ops st) valid e3) (\<lambda>e4. Inr (map (\<lambda>r. (request_id r, client_index r)) valid, e4)))"

definition engine_add_request :: "'m encoder_ops \<Rightarrow> block_hasher option \<Rightarrow> request \<Rightarrow> 'm engine \<Rightarrow> 'm engine res" where
  "engine_add_request ops hasher r e =
     (case get_request (request_id r) e of
        None \<Rightarrow> Inr (add_new_request r e)
      | Some old \<Rightarrow>
          (let upd = streaming_update_from_request r
           in if status old \<noteq> WAITING_FOR_STREAMING_REQ
              then case dict_get (streaming_queues e) (request_id old) of
                     None \<Rightarrow> Inl AssertionError
                   | Some us \<Rightarrow> Inr (e\<lparr>streaming_queues := dict_set (request_id old) (us @ [upd]) (streaming_queues e)\<rparr>)
              else case upd of
                     Some u \<Rightarrow> rbind (update_request_as_session hasher old u) (\<lambda>r'. Inr (put_request r' (leave_streaming old e)))
                   | None \<Rightarrow> rbind (finish_requests ops (Some [request_id r]) FINISHED_ABORTED e) (\<lambda>(_, e'). Inr e')))"

section \<open>Draft tokens\<close>

definition set_drafts :: "grammar_ops \<Rightarrow> string \<times> int list \<Rightarrow> ('m, 'z) scheduler_scheme \<Rightarrow> ('m, 'z) scheduler_scheme" where
  "set_drafts g = (\<lambda>(rid, ts) s.
     case get_request rid s of
       None \<Rightarrow> s
     | Some r \<Rightarrow>
         if is_finished r then s
         else if is_prefill_chunk r then put_request (r\<lparr>spec_token_ids := []\<rparr>) s
         else put_request (r\<lparr>spec_token_ids := (if should_advance g r then validate_tokens g r ts else ts)\<rparr>) s)"

definition update_draft_token_ids ::
  "grammar_ops \<Rightarrow> string list \<Rightarrow> int list list \<Rightarrow> ('m, 'z) scheduler_scheme \<Rightarrow> ('m, 'z) scheduler_scheme" where
  "update_draft_token_ids g req_ids draft_token_ids s = fold (set_drafts g) (zip req_ids draft_token_ids) s"

text \<open>Drafts that arrive after the step was scheduled replace its placeholders, trimmed, validated and padded.\<close>

definition fill_drafts ::
  "grammar_ops \<Rightarrow> ('m, 'z) scheduler_scheme \<Rightarrow> string \<times> int list \<Rightarrow>
   (string, int list) pydict \<times> (string, int) pydict \<Rightarrow> ((string, int list) pydict \<times> (string, int) pydict) res" where
  "fill_drafts g s = (\<lambda>(rid, ts) (sched, invalid).
     case get_request rid s of
       None \<Rightarrow> Inr (sched, invalid)
     | Some r \<Rightarrow>
         if is_finished r then Inr (sched, invalid)
         else case dict_get sched rid of
           None \<Rightarrow> Inr (sched, invalid)
         | Some [] \<Rightarrow> Inr (sched, invalid)
         | Some placeholders \<Rightarrow>
             if should_advance g r \<and> \<not> (use_structured_output r \<and> has_grammar g r) then Inl AssertionError
             else let n = length placeholders; ts1 = take n ts;
                      ts2 = (if should_advance g r then validate_tokens g r ts1 else ts1);
                      missing = n - length ts2
                  in Inr (dict_set rid (ts2 @ replicate missing (-1)) sched,
                          if n = length ts2 then invalid else dict_set rid (int n - int (length ts2)) invalid))"

definition update_draft_token_ids_in_output ::
  "grammar_ops \<Rightarrow> string list \<Rightarrow> int list list \<Rightarrow> (string, int list) pydict \<Rightarrow> ('m, 'z) scheduler_scheme \<Rightarrow>
   ((string, int list) pydict \<times> (string, int) pydict) res" where
  "update_draft_token_ids_in_output g req_ids draft_token_ids sched s =
     fold_res (fill_drafts g s) (zip req_ids draft_token_ids) (sched, [])"

definition grammar_request_ids :: "scheduler_output \<Rightarrow> ('m, 'z) scheduler_scheme \<Rightarrow> string list option" where
  "grammar_request_ids out s =
     (if \<not> has_structured_output_requests out then None
      else let ids = filter (\<lambda>rid. case get_request rid s of None \<Rightarrow> False
                        | Some r \<Rightarrow> use_structured_output r \<and> \<not> is_prefill_chunk r) (dict_keys (out_num_scheduled_tokens out))
           in if ids = [] then None else Some ids)"

section \<open>Resets and counters\<close>

text \<open>Preempting everything, last request first.\<close>

definition force_preempt :: "'m encoder_ops \<Rightarrow> request \<Rightarrow> 'm engine \<Rightarrow> 'm engine res" where
  "force_preempt ops r e =
     rbind (preempt_request ops r (e\<lparr>running := butlast (running e)\<rparr>)) (\<lambda>(r', e').
       Inr (put_request (r'\<lparr>num_output_placeholders := 0, discard_latest_async_tokens := True\<rparr>) e'))"

definition engine_reset_prefix_cache :: "'m encoder_ops \<Rightarrow> bool \<Rightarrow> bool \<Rightarrow> 'm engine \<Rightarrow> (bool \<times> 'm engine) res" where
  "engine_reset_prefix_cache ops reset_running reset_connector e =
     rbind (if reset_running
            then rbind (fold_res (force_preempt ops) (rev (running e)) e) (\<lambda>e'. Inr (e'\<lparr>prev_step_scheduled_req_ids := {}\<rparr>))
            else Inr e) (\<lambda>e1.
     rbind (kv_reset_prefix_cache (kv_cache_manager e1)) (\<lambda>(ok, kv).
       let e2 = e1\<lparr>kv_cache_manager := kv\<rparr>
       in if reset_running \<and> \<not> ok then Inl RuntimeError
          else Inr (ok \<and> \<not> reset_connector, e2)))"

definition engine_reset_encoder_cache :: "('m \<Rightarrow> 'm) \<Rightarrow> 'm engine \<Rightarrow> 'm engine" where
  "engine_reset_encoder_cache reset e = e\<lparr>enc_manager := reset (enc_manager e)\<rparr>"

definition get_request_counts :: "('m, 'z) scheduler_scheme \<Rightarrow> nat \<times> nat" where
  "get_request_counts s = (length (running s), queue_len (waiting (queues s)) + queue_len (skipped_waiting (queues s)))"

definition set_pause_state :: "pause_state \<Rightarrow> 'm engine \<Rightarrow> 'm engine" where
  "set_pause_state p e = e\<lparr>pause := p\<rparr>"

definition get_num_unfinished_requests :: "'m engine \<Rightarrow> int" where
  "get_num_unfinished_requests e =
     (case pause e of
        PAUSED_ALL \<Rightarrow> 0
      | PAUSED_NEW \<Rightarrow> int (length (running e))
      | UNPAUSED \<Rightarrow> int (queue_len (waiting (queues e)) + queue_len (skipped_waiting (queues e)))
                   - num_waiting_for_streaming_input e + int (length (running e)))"

definition has_finished_requests :: "'m engine \<Rightarrow> bool" where
  "has_finished_requests e \<longleftrightarrow> finished_req_ids e \<noteq> {}"

section \<open>A step of the engine\<close>

text \<open>\<^verbatim>\<open>EngineCore.step\<close> of the synchronous scheduler: schedule, run the model, update.\<close>

definition engine_schedule ::
  "(bytes \<Rightarrow> bytes) \<Rightarrow> 'm encoder_ops \<Rightarrow> scheduler_params \<Rightarrow> waiting_params \<Rightarrow> 'm output_params \<Rightarrow> 'm engine \<Rightarrow>
   (scheduler_output \<times> 'm engine) res option" where
  "engine_schedule sha256 ops ps wp op e =
     map_option (\<lambda>out. rbind out (\<lambda>(so, s). Inr (so, sched_state.extend s
         \<lparr>streaming_queues = streaming_queues e, num_waiting_for_streaming_input = num_waiting_for_streaming_input e,
          finished_req_ids_dict = finished_req_ids_dict e\<rparr>)))
       (schedule sha256 ops ps wp op (sched_state.truncate e))"

end
