(* ===== verification/Engine_Safe.thy ===== *)
theory Engine_Safe
  imports Step_Safe Lifecycle
begin

text \<open>
  The synchronous engine, without a KV connector: a scheduling step followed by
  \<open>update_from_output\<close> on what the model runner returned keeps the state in order, so the two can
  alternate forever without raising.
\<close>

section \<open>Hashing the blocks of a request\<close>

text \<open>Requests whose hashes depend on the same tokens and keys.\<close>

definition same_content :: "request \<Rightarrow> request \<Rightarrow> bool" where
  "same_content r r' \<longleftrightarrow>
     all_token_ids r' = all_token_ids r \<and> block_hashes r' = block_hashes r \<and> mm_features r' = mm_features r \<and>
     lora_request r' = lora_request r \<and> cache_salt r' = cache_salt r \<and> prompt_embeds r' = prompt_embeds r"

definition with_token :: "int \<Rightarrow> (int \<times> int, bytes) pydict \<Rightarrow> bytes list \<Rightarrow> request \<Rightarrow> request" where
  "with_token t memo hs r = r\<lparr>output_token_ids := output_token_ids r @ [t], all_token_ids := all_token_ids r @ [t],
     prompt_embeds_per_block_hashes := memo, block_hashes := hs\<rparr>"

text \<open>
  The hasher of the engine: on a request in a fine state it appends a token without raising, changes
  only the hashes and their memo and leaves the request fine; and a fine request has the
  hashes that a block manager of the same hash block size expects.
\<close>

locale request_hashing =
  fixes hasher :: "block_hasher option" and fine :: "request \<Rightarrow> bool" and hash_size :: nat
  assumes append_law: "fine r \<Longrightarrow> \<exists>memo hs. append_output_token_ids hasher [t] r = Inr (with_token t memo hs r) \<and>
      fine (with_token t memo hs r)"
    and content_law: "fine r \<Longrightarrow> same_content r r' \<Longrightarrow> fine r'"
    and hashed_law: "fine r \<Longrightarrow> hash_block_size (coord_pool (coordinator k)) = hash_size \<Longrightarrow> hashed r k"

text \<open>The hash function has no collisions: no chain of blocks has the same hash twice, whatever the block sizes.\<close>

definition collision_free :: "(hash_input \<Rightarrow> bytes) \<Rightarrow> bytes \<Rightarrow> nat \<Rightarrow> bool" where
  "collision_free hash_fn none_hash bs \<longleftrightarrow>
     (\<forall>cs c. hash_block_size (coord_pool c) = bs \<longrightarrow> hashes_distinct (hash_chain hash_fn none_hash None cs) c)"

text \<open>A token prompt whose hashes are those of its full blocks, with its items within the blocks hashed.\<close>

definition hash_fine :: "(bytes \<Rightarrow> bytes) \<Rightarrow> (hash_input \<Rightarrow> bytes) \<Rightarrow> bytes \<Rightarrow> nat \<Rightarrow> request \<Rightarrow> bool" where
  "hash_fine sha256 hash_fn none_hash bs r \<longleftrightarrow>
     0 < bs \<and> collision_free hash_fn none_hash bs \<and> prompt_embeds r = None \<and> mm_sorted (mm_features r) \<and> mm_passed bs r \<and>
     hashes_ok sha256 hash_fn none_hash bs r"

lemma hash_fine_content:
  assumes "hash_fine sha256 hash_fn none_hash bs r" and "same_content r r'"
  shows "hash_fine sha256 hash_fn none_hash bs r'"
proof -
  have "block_content sha256 bs r' = block_content sha256 bs r" "num_tokens r' = num_tokens r"
    using assms(2) by (simp_all add: same_content_def fun_eq_iff block_content_def block_extra_keys_def gen_lora_extra_hash_keys_def
        cache_salt_keys_def num_tokens_def)
  then show ?thesis using assms by (simp add: hash_fine_def same_content_def hashes_ok_def mm_passed_def)
qed

lemma hash_fine_append:
  assumes "hash_fine sha256 hash_fn none_hash bs r"
  shows "\<exists>memo hs. append_output_token_ids (Some (request_block_hasher sha256 hash_fn none_hash bs)) [t] r = Inr (with_token t memo hs r) \<and>
    hash_fine sha256 hash_fn none_hash bs (with_token t memo hs r)"
proof -
  note f = assms [unfolded hash_fine_def]
  have "memo_ok sha256 r" using f by (simp add: memo_ok_def)
  with append_output_token_ids_spec [of bs r sha256 hash_fn none_hash "[t]"] f obtain r' where
    r': "append_output_token_ids (Some (request_block_hasher sha256 hash_fn none_hash bs)) [t] r = Inr r'"
      "hashes_ok sha256 hash_fn none_hash bs r'" "mm_passed bs r'" "mm_features r' = mm_features r" by blast
  let ?r = "r\<lparr>output_token_ids := output_token_ids r @ [t], all_token_ids := all_token_ids r @ [t]\<rparr>"
  have mono: "num_tokens r div bs \<le> num_tokens ?r div bs" by (simp add: num_tokens_def div_le_mono)
  have "block_extra_keys sha256 ?r = block_extra_keys sha256 r"
    by (simp add: block_extra_keys_def gen_lora_extra_hash_keys_def cache_salt_keys_def fun_eq_iff)
  then have content: "map (block_content sha256 bs ?r) [0..<num_tokens r div bs] = map (block_content sha256 bs r) [0..<num_tokens r div bs]"
    by (intro map_cong refl block_content_append) auto
  have "block_hashes ?r = hash_chain hash_fn none_hash None (map (block_content sha256 bs ?r) [0..<num_tokens r div bs])"
    unfolding content using f by (simp add: hashes_ok_def)
  moreover have "memo_ok sha256 ?r" "mm_sorted (mm_features ?r)" "0 < bs" using f by (simp_all add: memo_ok_def)
  moreover have "num_tokens r div bs = 0 \<or> (\<forall>f\<in>set (butlast (mm_features ?r)). mm_end f \<le> int (num_tokens r div bs * bs))"
    using f by (simp add: mm_passed_def)
  ultimately obtain hs m where
    "update_block_hashes (Some (request_block_hasher sha256 hash_fn none_hash bs)) ?r = Inr (?r\<lparr>prompt_embeds_per_block_hashes := m, block_hashes := hs\<rparr>)"
    using update_block_hashes_spec [of bs ?r sha256 "num_tokens r div bs" hash_fn none_hash] mono by blast
  then have "r' = with_token t m hs r" using r'(1) by (simp add: append_output_token_ids_def with_token_def)
  moreover have "prompt_embeds (with_token t m hs r) = None" "mm_sorted (mm_features (with_token t m hs r))" "0 < bs" "collision_free hash_fn none_hash bs"
    using f by (simp_all add: with_token_def)
  ultimately show ?thesis using r'(1-3) unfolding hash_fine_def by blast
qed

interpretation chained: request_hashing "Some (request_block_hasher sha256 hash_fn none_hash bs)" "hash_fine sha256 hash_fn none_hash bs"
  bs for sha256 hash_fn none_hash bs
proof (unfold_locales, goal_cases)
  case (1 r t)
  then show ?case by (rule hash_fine_append)
next
  case (2 r r')
  then show ?case by (rule hash_fine_content)
next
  case (3 r k)
  then show ?case by (simp add: hash_fine_def collision_free_def hashes_ok_def hashed_def)
qed

section \<open>Appending the tokens of a step\<close>

text \<open>
  A generating request of the synchronous scheduler, not a session: its minimum of output
  tokens can be reached within the model's length.
\<close>

definition plain :: "(request \<Rightarrow> bool) \<Rightarrow> int \<Rightarrow> request \<Rightarrow> bool" where
  "plain fine max_len r \<longleftrightarrow>
     fine r \<and> num_output_placeholders r = 0 \<and> \<not> resumable r \<and> pooling_params r = None \<and> num_output_tokens r \<le> num_tokens r \<and>
     (\<exists>sp. sampling_params r = Some sp \<and> int (num_tokens r) - int (num_output_tokens r) + min_tokens sp \<le> max_len)"

definition grown :: "int list \<Rightarrow> request \<Rightarrow> request \<Rightarrow> bool" where
  "grown ts r r' \<longleftrightarrow> (\<exists>memo hs st reason.
     r' = r\<lparr>output_token_ids := output_token_ids r @ ts, all_token_ids := all_token_ids r @ ts,
            prompt_embeds_per_block_hashes := memo, block_hashes := hs, status := st, stop_reason := reason\<rparr>)"

lemma grown_fields:
  assumes "grown ts r r'"
  shows "request_id r' = request_id r" "object_id r' = object_id r" "mm_features r' = mm_features r"
    "num_computed_tokens r' = num_computed_tokens r" "resumable r' = resumable r" "client_index r' = client_index r"
    "num_output_placeholders r' = num_output_placeholders r" "pooling_params r' = pooling_params r"
    "sampling_params r' = sampling_params r" "max_tokens r' = max_tokens r" "num_tokens r' = num_tokens r + length ts"
    "num_output_tokens r' = num_output_tokens r + length ts" "use_structured_output r' = use_structured_output r"
  using assms by (auto simp: grown_def num_tokens_def num_output_tokens_def)

lemma grown_refl: "grown [] r r"
  unfolding grown_def
  by (intro exI [of _ "prompt_embeds_per_block_hashes r"] exI [of _ "block_hashes r"] exI [of _ "status r"] exI [of _ "stop_reason r"]) simp

lemma grown_trans:
  assumes "grown ts r r'" and "grown us r' r''"
  shows "grown (ts @ us) r r''"
  using assms unfolding grown_def by (elim exE) (auto simp: exI)

lemma grown_plain: "grown ts r r' \<Longrightarrow> plain fine n r \<Longrightarrow> fine r' \<Longrightarrow> plain fine n r'"
  by (auto simp: plain_def grown_fields)

lemma check_stop_frame:
  assumes "check_stop r n = Inr (b, r')"
  shows "\<exists>st reason. r' = r\<lparr>status := st, stop_reason := reason\<rparr>"
proof -
  have *: "\<exists>st reason. r = r\<lparr>status := st, stop_reason := reason\<rparr>" "\<exists>st reason. r\<lparr>status := st'\<rparr> = r\<lparr>status := st, stop_reason := reason\<rparr>" for st'
    by (intro exI [of _ "status r"] exI [of _ "stop_reason r"], simp)
      (intro exI [of _ st'] exI [of _ "stop_reason r"], simp)
  show ?thesis using assms * by (auto simp: check_stop_def rbind_eq_Inr split: if_splits option.splits)
qed

context request_hashing
begin

lemma append_until_stop_spec:
  assumes "plain fine n r" and "sampling_params r = Some sp"
  shows "\<exists>kept stopped r'. append_until_stop hasher n ts r = Inr (kept, stopped, r') \<and> grown kept r r' \<and> fine r' \<and>
    (if stopped then is_finished r'
     else kept = ts \<and> status r' = status r \<and>
       (ts \<noteq> [] \<longrightarrow> \<not> stops sp (max_tokens r) n (output_token_ids r') (length (all_token_ids r'))))"
  using assms
proof (induction ts arbitrary: r)
  case Nil
  then show ?case using grown_refl by (auto simp: plain_def)
next
  case (Cons t ts)
  from append_law [of r t] Cons.prems(1) obtain memo hs where
    a: "append_output_token_ids hasher [t] r = Inr (with_token t memo hs r)" "fine (with_token t memo hs r)"
    by (auto simp: plain_def)
  let ?r = "with_token t memo hs r"
  have g: "grown [t] r ?r" unfolding grown_def with_token_def
    by (intro exI [of _ memo] exI [of _ hs] exI [of _ "status r"] exI [of _ "stop_reason r"]) simp
  have pl: "plain fine n ?r" by (rule grown_plain [OF g Cons.prems(1) a(2)])
  have sp: "sampling_params ?r = Some sp" "max_tokens ?r = max_tokens r" "pooling_params ?r = None" "output_token_ids ?r \<noteq> []"
    using Cons.prems by (simp_all add: with_token_def plain_def)
  let ?s = "stops sp (max_tokens r) n (output_token_ids ?r) (length (all_token_ids ?r))"
  from check_stop_spec [OF sp(3,1,4), of n] obtain r2 where
    c: "check_stop ?r n = Inr (?s, r2)" "if ?s then is_finished_status (status r2) else r2 = ?r" unfolding sp(2) by blast
  show ?case
  proof (cases ?s)
    case True
    from check_stop_frame [OF c(1)] obtain st reason where r2: "r2 = ?r\<lparr>status := st, stop_reason := reason\<rparr>" by blast
    have "grown [] ?r r2" unfolding grown_def r2
      by (intro exI [of _ "prompt_embeds_per_block_hashes ?r"] exI [of _ "block_hashes ?r"] exI [of _ st] exI [of _ reason]) simp
    from grown_trans [OF g this] have "grown [t] r r2" by simp
    moreover have "fine r2" by (rule content_law [OF a(2)]) (simp add: r2 same_content_def)
    moreover have "append_until_stop hasher n (t # ts) r = Inr ([t], True, r2)" using a(1) c(1) True by simp
    moreover have "is_finished r2" using c(2) True by (simp add: is_finished_def)
    ultimately show ?thesis by (intro exI [of _ "[t]"] exI [of _ True] exI [of _ r2]) simp
  next
    case False
    then have "r2 = ?r" using c(2) by simp
    from Cons.IH [OF pl sp(1)] obtain kept stopped r' where
      r': "append_until_stop hasher n ts ?r = Inr (kept, stopped, r')" "grown kept ?r r'" "fine r'"
        "if stopped then is_finished r' else kept = ts \<and> status r' = status ?r \<and>
          (ts \<noteq> [] \<longrightarrow> \<not> stops sp (max_tokens ?r) n (output_token_ids r') (length (all_token_ids r')))" by blast
    have "append_until_stop hasher n (t # ts) r = Inr (t # kept, stopped, r')" using a(1) c(1) False \<open>r2 = ?r\<close> r'(1) by simp
    moreover have "grown (t # kept) r r'" using grown_trans [OF g r'(2)] by simp
    moreover have "ts = [] \<Longrightarrow> r' = ?r" using r'(1) by simp
    moreover have "status ?r = status r" by (simp add: with_token_def)
    ultimately show ?thesis using r'(3,4) False sp(2)
      by (intro exI [of _ "t # kept"] exI [of _ stopped] exI [of _ r']) (cases ts; auto split: if_splits)
  qed
qed

lemma not_stopped_short:
  assumes "plain fine n r'" and "sampling_params r' = Some sp" and "\<not> stops sp mt n (output_token_ids r') (length (all_token_ids r'))"
  shows "int (num_tokens r') < n"
  using assms by (auto simp: plain_def stops_def num_tokens_def num_output_tokens_def)

end

lemma sized_features: "mm_features r' = mm_features r \<Longrightarrow> sized size_of r' = sized size_of r"
  by (simp add: sized_def get_num_encoder_embeds_def)

text \<open>The tokens a runner may return for a request after a step.\<close>

definition sampled_ok :: "int list \<Rightarrow> int list \<Rightarrow> request \<Rightarrow> bool" where
  "sampled_ok drafts ts r \<longleftrightarrow>
     (if num_computed_tokens r < int (num_tokens r) then ts = [] else ts \<noteq> [] \<and> length ts \<le> Suc (length drafts))"

lemma rejected:
  assumes st: "stepped size_of ps k d r" and ph: "num_output_placeholders r = 0" and ok: "sampled_ok (drafts_of d (request_id r)) ts r"
  shows "reject_drafts (drafts_of d (request_id r)) ts r =
    (if ts = [] then r else r\<lparr>num_computed_tokens := int (num_tokens r) + int (length ts) - 1\<rparr>)"
    "ts \<noteq> [] \<Longrightarrow> int (num_tokens r) + int (length ts) - 1 \<le> num_computed_tokens r"
proof -
  let ?ds = "drafts_of d (request_id r)"
  have c: "num_computed_tokens r = int (num_tokens r) + int (length ?ds)" if "ts \<noteq> []"
    using st ph ok that by (auto simp: stepped_def token_bound_def sampled_ok_def split: if_splits)
  then show "ts \<noteq> [] \<Longrightarrow> int (num_tokens r) + int (length ts) - 1 \<le> num_computed_tokens r"
    using ok by (auto simp: sampled_ok_def split: if_splits)
  have len: "ts \<noteq> [] \<Longrightarrow> ?ds = [] \<Longrightarrow> length ts = 1" using ok by (cases ts) (auto simp: sampled_ok_def split: if_splits)
  have pos: "0 < num_tokens r" using st by (simp add: stepped_def well_formed_def)
  show "reject_drafts ?ds ts r = (if ts = [] then r else r\<lparr>num_computed_tokens := int (num_tokens r) + int (length ts) - 1\<rparr>)"
  proof (cases "ts = [] \<or> ?ds = []")
    case True
    then show ?thesis using c len by (auto simp: reject_drafts_def)
  next
    case False
    then have "0 < num_computed_tokens r" using c pos by simp
    then show ?thesis using False c ph by (simp add: reject_drafts_def Let_def)
  qed
qed

context request_hashing
begin

text \<open>A scheduled request takes the tokens of the step: it is ready for the next one, or finished.\<close>

lemma take_output_spec:
  assumes st: "stepped size_of ps k d r" and pl: "plain fine (sched_max_model_len ps) r" and su: "hash_block_size (coord_pool (coordinator k)) = hash_size"
    and ok: "sampled_ok (drafts_of d (request_id r)) ts r"
  shows "\<exists>kept stopped r'. take_output (sync_update_output hasher (sched_max_model_len ps)) ts None
      (reject_drafts (drafts_of d (request_id r)) ts r) kv = Inr (kept, stopped, r', kv) \<and>
    request_id r' = request_id r \<and> object_id r' = object_id r \<and> sized size_of r' \<and> \<not> resumable r' \<and>
    use_structured_output r' = use_structured_output r \<and> (kept = [] \<and> \<not> stopped \<longrightarrow> ts = []) \<and>
    (if stopped then is_finished r' else ready size_of ps k r' \<and> plain fine (sched_max_model_len ps) r')"
proof (cases "ts = []")
  case True
  note s = st [unfolded stepped_def well_formed_def]
  have "num_computed_tokens r \<le> int (num_tokens r)" using ok True by (auto simp: sampled_ok_def split: if_splits)
  then have "ready size_of ps k r" using s by (auto simp: ready_def well_formed_def in_range_def)
  moreover have "reject_drafts (drafts_of d (request_id r)) ts r = r" by (simp add: reject_drafts_def True)
  ultimately show ?thesis using True pl s
    by (intro exI [of _ "[]"] exI [of _ False] exI [of _ r]) (simp add: take_output_def plain_def)
next
  case False
  let ?n = "sched_max_model_len ps" and ?r = "r\<lparr>num_computed_tokens := int (num_tokens r) + int (length ts) - 1\<rparr>"
  note s = st [unfolded stepped_def well_formed_def]
  have ph: "num_output_placeholders r = 0" using pl by (simp add: plain_def)
  note rj = rejected [OF st ph ok]
  have "fine ?r" by (rule content_law [of r]) (use pl in \<open>simp_all add: plain_def same_content_def\<close>)
  then have plr: "plain fine ?n ?r" using pl by (simp add: plain_def num_tokens_def num_output_tokens_def)
  obtain sp where sp: "sampling_params ?r = Some sp" using pl by (auto simp: plain_def)
  from append_until_stop_spec [OF plr sp, of ts] obtain kept stopped r' where
    r': "append_until_stop hasher ?n ts ?r = Inr (kept, stopped, r')" "grown kept ?r r'" "fine r'"
      "if stopped then is_finished r' else kept = ts \<and> status r' = status ?r \<and>
        (ts \<noteq> [] \<longrightarrow> \<not> stops sp (max_tokens ?r) ?n (output_token_ids r') (length (all_token_ids r')))" by blast
  note g = grown_fields [OF r'(2)]
  have run: "take_output (sync_update_output hasher ?n) ts None (reject_drafts (drafts_of d (request_id r)) ts r) kv =
      Inr (kept, stopped, r', kv)"
    using rj(1) False r'(1) by (simp add: take_output_def sync_update_output_def update_request_with_output_def)
  have plr': "plain fine ?n r'" by (rule grown_plain [OF r'(2) plr r'(3)])
  have sz: "sized size_of r'" using s sized_features [of r' r] g(3) by simp
  have "ready size_of ps k r'" if ns: "\<not> stopped"
  proof -
    have kept: "kept = ts" "status r' = RUNNING" using r'(4) ns s by simp_all
    have "\<not> stops sp (max_tokens ?r) ?n (output_token_ids r') (length (all_token_ids r'))" using r'(4) ns False by simp
    then have short: "int (num_tokens r') < ?n" using not_stopped_short [OF plr'] g(9) sp by simp
    have nt: "num_tokens r' = num_tokens r + length ts" "num_computed_tokens r' = int (num_tokens r) + int (length ts) - 1"
      using g(4,11) kept(1) by (simp_all add: num_tokens_def)
    have "slots_upto (request_id r) (num_computed_tokens r') k"
      by (rule slots_upto_mono [of _ "num_computed_tokens r"]) (use s rj(2) [OF False] nt in simp_all)
    moreover have "hashed r' k" by (rule hashed_law [OF r'(3) su])
    moreover have "1 \<le> length ts" using False by (cases ts) simp_all
    ultimately show ?thesis using s kept(2) short nt sz g(1,3,7) rj(2) [OF False] False ph
      by (simp add: ready_def well_formed_def in_range_def)
  qed
  moreover have "kept = [] \<and> \<not> stopped \<longrightarrow> ts = []" using r'(4) by auto
  ultimately show ?thesis using run g(1,2,5,13) sz plr' r'(4) pl
    by (intro exI [of _ kept] exI [of _ stopped] exI [of _ r']) (cases stopped; simp add: plain_def)
qed

end

section \<open>One request of the loop\<close>

lemma mem_set_request:
  "z \<in> set (set_request r xs) \<longleftrightarrow> z = r \<and> object_id r \<in> object_id ` set xs \<or> z \<in> set xs \<and> object_id z \<noteq> object_id r"
  by (auto simp: set_request_def image_iff split: if_splits) (metis, metis)

lemma ids_set_request:
  assumes "distinct (map object_id xs)" and "r \<in> set xs" and "object_id r' = object_id r" and "request_id r' = request_id r"
  shows "map object_id (set_request r' xs) = map object_id xs" "map request_id (set_request r' xs) = map request_id xs"
proof -
  have "z = r" if "z \<in> set xs" "object_id z = object_id r'" for z using assms(1-3) that by (metis distinct_map inj_on_eq_iff)
  then show "map object_id (set_request r' xs) = map object_id xs" "map request_id (set_request r' xs) = map request_id xs"
    using assms(4) by (auto simp: set_request_def)
qed

definition grammar_sound :: "grammar_ops \<Rightarrow> bool" where
  "grammar_sound g \<longleftrightarrow> (\<forall>r. should_advance g r \<longrightarrow> use_structured_output r \<and> has_grammar g r)"

definition nans_noted :: "request \<Rightarrow> request \<Rightarrow> bool" where
  "nans_noted r r' \<longleftrightarrow> r' = r \<or> (\<exists>n. r' = r\<lparr>num_nans_in_logits := n\<rparr>)"

lemma nans_noted_ready: "nans_noted r r' \<Longrightarrow> ready size_of ps k r \<Longrightarrow> ready size_of ps k r'"
  by (auto simp: nans_noted_def ready_def well_formed_def in_range_def hashed_def num_tokens_def sized_def get_num_encoder_embeds_def)

lemma nans_noted_ids: "nans_noted r r' \<Longrightarrow> request_id r' = request_id r \<and> object_id r' = object_id r"
  by (auto simp: nans_noted_def)

lemma emit_output_spec:
  assumes "grammar_sound g" and "ts = [] \<and> \<not> stopped \<longrightarrow> request_id r \<notin> prompt_logprobs out"
  shows "\<exists>r' outs. emit_output g out ts stopped reason None r u = Inr (u\<lparr>loop_engine := put_request r' (loop_engine u), outputs := outs\<rparr>) \<and>
    nans_noted r r'"
proof -
  define r' where "r' = (case Option.bind (runner_nans out) (\<lambda>d. dict_get d (request_id r)) of None \<Rightarrow> r | Some n \<Rightarrow> r\<lparr>num_nans_in_logits := n\<rparr>)"
  have "nans_noted r r'" by (auto simp: r'_def nans_noted_def split: option.splits)
  moreover have "\<exists>outs. emit_output g out ts stopped reason None r u = Inr (u\<lparr>loop_engine := put_request r' (loop_engine u), outputs := outs\<rparr>)"
  proof -
    have g: "\<not> (ts \<noteq> [] \<and> should_advance g r \<and> \<not> (use_structured_output r \<and> has_grammar g r))"
      using assms(1) by (auto simp: grammar_sound_def)
    show ?thesis
    proof (cases "ts \<noteq> [] \<or> stopped")
      case True
      then show ?thesis unfolding emit_output_def Let_def r'_def [symmetric] if_not_P [OF g] by auto
    next
      case False
      then have "emit_output g out ts stopped reason None r u = Inr (u\<lparr>loop_engine := put_request r' (loop_engine u), outputs := outputs u\<rparr>)"
        using assms(2) unfolding emit_output_def Let_def r'_def [symmetric] if_not_P [OF g] by simp
      then show ?thesis by blast
    qed
  qed
  ultimately show ?thesis by blast
qed

context encoder_release
begin

lemma stop_request_spec:
  assumes "is_finished r" and "\<not> resumable r" and "sized size_of r"
    and "coord_inv (coordinator (kv_cache_manager (loop_engine u)))" and "ok (enc_manager (loop_engine u))"
  shows "\<exists>u'. stop_request ops hasher RUNNING r u = Inr (r, u') \<and>
    running (loop_engine u') = running (loop_engine u) \<and> queues (loop_engine u') = queues (loop_engine u) \<and>
    prev_step_scheduled_req_ids (loop_engine u') = prev_step_scheduled_req_ids (loop_engine u) \<and>
    finished_req_ids (loop_engine u') = insert (request_id r) (finished_req_ids (loop_engine u)) \<and> pause (loop_engine u') = pause (loop_engine u) \<and>
    stopped_running u' = insert (object_id r) (stopped_running u) \<and> stopped_preempted u' = stopped_preempted u \<and>
    coord_inv (coordinator (kv_cache_manager (loop_engine u'))) \<and>
    kv_frame (request_id r) (kv_cache_manager (loop_engine u)) (kv_cache_manager (loop_engine u')) \<and>
    unknown (request_id r) (kv_cache_manager (loop_engine u')) \<and> ok (enc_manager (loop_engine u'))"
proof -
  from kv_free_step [OF assms(4), of r] obtain k where
    k: "kv_free r (kv_cache_manager (loop_engine u)) = Inr k" "coord_inv (coordinator k)"
      "kv_frame (request_id r) (kv_cache_manager (loop_engine u)) k" "unknown (request_id r) k" by blast
  from free_law [OF assms(5,3)] obtain m where m: "op_free ops r (enc_manager (loop_engine u)) = Inr m" "ok m" by blast
  from k m show ?thesis using assms(1,2)
    by (simp add: stop_request_def handle_stopped_request_def free_finished_request_def free_blocks_of_def Let_def)
qed

end

section \<open>The loop over the scheduled requests\<close>

text \<open>
  A running request during the loop: its turn is still to come, it has stopped and holds
  nothing, or it is ready for the next step.
\<close>

definition settled ::
  "(string \<Rightarrow> int) \<Rightarrow> (request \<Rightarrow> bool) \<Rightarrow> scheduler_params \<Rightarrow> (string, int list) pydict \<Rightarrow> 'm engine \<Rightarrow> string set \<Rightarrow> 'm update_loop \<Rightarrow>
   request \<Rightarrow> bool" where
  "settled size_of fine ps d e0 todo u r \<longleftrightarrow>
     (let k = kv_cache_manager (loop_engine u) in
      if request_id r \<in> todo
      then r \<in> set (running e0) \<and> object_id r \<notin> stopped_running u \<and> stepped size_of ps k d r \<and> plain fine (sched_max_model_len ps) r
      else if object_id r \<in> stopped_running u
      then request_id r \<in> finished_req_ids (loop_engine u) \<and> unknown (request_id r) k
      else ready size_of ps k r \<and> plain fine (sched_max_model_len ps) r)"

definition update_inv ::
  "(string \<Rightarrow> int) \<Rightarrow> ('m \<Rightarrow> bool) \<Rightarrow> (request \<Rightarrow> bool) \<Rightarrow> scheduler_params \<Rightarrow> waiting_params \<Rightarrow>
   (string, int list) pydict \<Rightarrow> 'm engine \<Rightarrow> (string \<times> int) list \<Rightarrow> 'm update_loop \<Rightarrow> bool" where
  "update_inv size_of ok fine ps wp d e0 xs u \<longleftrightarrow>
     (let e = loop_engine u; k = kv_cache_manager e in
      queues e = queues e0 \<and> stopped_preempted u = [] \<and> prev_step_scheduled_req_ids e = prev_step_scheduled_req_ids e0 \<and>
      map object_id (running e) = map object_id (running e0) \<and> map request_id (running e) = map request_id (running e0) \<and>
      coord_inv (coordinator k) \<and> kv_static (sched_max_model_len ps) (sched_block_size ps) k \<and> ok (enc_manager e) \<and>
      (\<forall>r \<in> set (waiting_requests e0). awaiting size_of ps wp k r) \<and>
      (\<forall>r \<in> set (running e). settled size_of fine ps d e0 (fst ` set xs) u r) \<and>
      distinct (map fst xs) \<and> fst ` set xs \<subseteq> request_id ` set (running e0) \<and> (\<forall>x \<in> set xs. 0 < snd x))"

lemma update_invD:
  assumes "update_inv size_of ok fine ps wp d e0 xs u"
  shows "queues (loop_engine u) = queues e0" "stopped_preempted u = []"
    "prev_step_scheduled_req_ids (loop_engine u) = prev_step_scheduled_req_ids e0"
    "map object_id (running (loop_engine u)) = map object_id (running e0)" "map request_id (running (loop_engine u)) = map request_id (running e0)"
    "coord_inv (coordinator (kv_cache_manager (loop_engine u)))" "kv_static (sched_max_model_len ps) (sched_block_size ps) (kv_cache_manager (loop_engine u))"
    "ok (enc_manager (loop_engine u))"
    "\<And>r. r \<in> set (waiting_requests e0) \<Longrightarrow> awaiting size_of ps wp (kv_cache_manager (loop_engine u)) r"
    "\<And>r. r \<in> set (running (loop_engine u)) \<Longrightarrow> settled size_of fine ps d e0 (fst ` set xs) u r"
    "distinct (map fst xs)" "fst ` set xs \<subseteq> request_id ` set (running e0)" "\<And>x. x \<in> set xs \<Longrightarrow> 0 < snd x"
  using assms by (simp_all add: update_inv_def Let_def)

lemma stepped_frame:
  "kv_frame rid k k' \<Longrightarrow> request_id r \<noteq> rid \<Longrightarrow> stepped size_of ps k d r \<Longrightarrow> stepped size_of ps k' d r"
  using well_formed_frame kv_frame_other(1) by (simp add: stepped_def)

text \<open>The turn of one request: what the others know does not change.\<close>

lemma update_inv_turn:
  assumes inv: "update_inv size_of ok fine ps wp d e0 ((rid, n) # xs) u"
    and mem: "distinct (map object_id (members e0))" "distinct (map request_id (members e0))"
    and r: "r \<in> set (running (loop_engine u))" "request_id r = rid"
    and r': "request_id r' = rid" "object_id r' = object_id r"
    and u': "loop_engine u' = put_request r' e'" "stopped_preempted u' = []"
      "stopped_running u' = (if fin then insert (object_id r) (stopped_running u) else stopped_running u)"
    and e': "running e' = running (loop_engine u)" "queues e' = queues e0" "prev_step_scheduled_req_ids e' = prev_step_scheduled_req_ids e0"
      "finished_req_ids (loop_engine u) \<subseteq> finished_req_ids e'"
    and k: "kv_frame rid (kv_cache_manager (loop_engine u)) (kv_cache_manager e')" "coord_inv (coordinator (kv_cache_manager e'))"
    and m: "ok (enc_manager e')"
    and out: "if fin then rid \<in> finished_req_ids e' \<and> unknown rid (kv_cache_manager e')
      else ready size_of ps (kv_cache_manager e') r' \<and> plain fine (sched_max_model_len ps) r'"
  shows "update_inv size_of ok fine ps wp d e0 xs u'"
proof -
  note I = update_invD [OF inv]
  let ?e = "loop_engine u" and ?k = "kv_cache_manager (loop_engine u)" and ?k' = "kv_cache_manager e'"
  have drun: "distinct (map object_id (running ?e))" "distinct (map request_id (running ?e))"
    using mem I(4,5) by (simp_all add: members_def)
  have "object_id r \<in> object_id ` set (running e0)" "rid \<in> request_id ` set (running e0)"
    using r I(4,5) by (metis image_eqI set_map)+
  then have away: "object_id r \<notin> object_id ` set (waiting_requests e0)" "rid \<notin> request_id ` set (waiting_requests e0)"
    using mem by (auto simp: members_def)
  have w: "waiting_requests e' = waiting_requests e0" by (simp add: waiting_requests_def e'(2))
  have run: "loop_engine u' = e'\<lparr>running := set_request r' (running ?e)\<rparr>"
    using put_running [of r' e'] away(1) r'(2) by (simp add: u'(1) w e'(1))
  have ids: "map object_id (running (loop_engine u')) = map object_id (running e0)" "map request_id (running (loop_engine u')) = map request_id (running e0)"
    using ids_set_request [OF drun(1) r(1) r'(2)] r'(1) r(2) I(4,5) by (simp_all add: run)
  have new: "settled size_of fine ps d e0 (fst ` set xs) u' z" if z: "z \<in> set (running (loop_engine u'))" for z
  proof (cases "z = r'")
    case True
    have "object_id r \<notin> stopped_running u" using I(10) [OF r(1)] r(2) by (simp add: settled_def Let_def)
    moreover have "rid \<notin> fst ` set xs" using I(11) by simp
    ultimately show ?thesis using True r' out u'(3) by (cases fin) (simp_all add: settled_def run)
  next
    case False
    then have z': "z \<in> set (running ?e)" "object_id z \<noteq> object_id r" using z r'(2) by (auto simp: run mem_set_request)
    then have ne: "request_id z \<noteq> rid" using drun(2) r by (metis distinct_map inj_on_eq_iff)
    show ?thesis using I(10) [OF z'(1)] ne z'(2) u'(3) e'(4) stepped_frame [OF k(1) ne] kv_frame_other(2) [OF k(1) ne] ready_frame [OF k(1) _ ne]
      by (auto simp: settled_def Let_def run split: if_splits)
  qed
  have aw: "awaiting size_of ps wp ?k' z" if z: "z \<in> set (waiting_requests e0)" for z
  proof (rule awaiting_frame [OF k(1) I(9) [OF z]])
    have "request_id z \<noteq> rid" using z away(2) by blast
    then show "unknown (request_id z) ?k'" using kv_frame_other(2) [OF k(1)] I(9) [OF z] by (simp add: awaiting_def)
  qed
  show ?thesis
    unfolding update_inv_def Let_def using ids new aw u'(2) e'(2,3) k(2) kv_frame_static [OF k(1) I(7)] m I(11-13)
    by (simp add: run)
qed

text \<open>
  What the model runner returns: a row for every scheduled request, without tokens while its prompt is
  being computed, and otherwise with one token and at most one for every draft.
\<close>

definition sampled_at :: "model_runner_output \<Rightarrow> nat \<Rightarrow> int list" where
  "sampled_at out i = (if sampled_token_ids out = [] then [] else sampled_token_ids out ! i)"

definition runner_ok :: "scheduler_output \<Rightarrow> model_runner_output \<Rightarrow> ('m, 'z) scheduler_scheme \<Rightarrow> bool" where
  "runner_ok so out e \<longleftrightarrow>
     pooler_outputs out = [] \<and>
     (\<forall>r \<in> set (running e). request_id r \<in> fst ` set (out_num_scheduled_tokens so) \<longrightarrow>
        (\<exists>i. dict_get (req_id_to_index out) (request_id r) = Some i \<and> (sampled_token_ids out = [] \<or> i < length (sampled_token_ids out)) \<and>
             sampled_ok (drafts_of (out_spec_decode_tokens so) (request_id r)) (sampled_at out i) r \<and>
             (sampled_at out i = [] \<longrightarrow> request_id r \<notin> prompt_logprobs out)))"

locale engine_parts = encoder_release + request_hashing
begin

lemma process_request_spec:
  assumes inv: "update_inv size_of ok fine ps wp (out_spec_decode_tokens so) e0 ((rid, n) # xs) u"
    and mem: "distinct (map object_id (members e0))" "distinct (map request_id (members e0))"
    and g: "grammar_sound g" and out: "runner_ok so out e0" and sub: "rid \<in> fst ` set (out_num_scheduled_tokens so)"
    and bs: "sched_block_size ps = hash_size"
  shows "\<exists>u'. process_request ops hasher (sync_update_output hasher (sched_max_model_len ps)) g (out_spec_decode_tokens so) out (rid, n) u = Inr u' \<and>
    update_inv size_of ok fine ps wp (out_spec_decode_tokens so) e0 xs u'"
proof -
  note I = update_invD [OF inv]
  let ?e = "loop_engine u" and ?d = "out_spec_decode_tokens so" and ?n = "sched_max_model_len ps"
  let ?k = "kv_cache_manager ?e"
  have "rid \<in> set (map request_id (running ?e))" using I(12) unfolding I(5) by auto
  then obtain r where r: "r \<in> set (running ?e)" "request_id r = rid" by auto
  have s: "r \<in> set (running e0)" "stepped size_of ps ?k ?d r" "plain fine ?n r" "object_id r \<notin> stopped_running u"
    using I(10) [OF r(1)] r(2) by (simp_all add: settled_def Let_def)
  from out s(1) r(2) sub obtain i where
    i: "dict_get (req_id_to_index out) rid = Some i" "sampled_token_ids out = [] \<or> i < length (sampled_token_ids out)"
      "sampled_ok (drafts_of ?d rid) (sampled_at out i) r" "sampled_at out i = [] \<longrightarrow> rid \<notin> prompt_logprobs out" "pooler_outputs out = []"
    by (auto simp: runner_ok_def)
  have "map object_id (members ?e) = map object_id (members e0)" "map request_id (members ?e) = map request_id (members e0)"
    using I(1,4,5) by (simp_all add: members_def waiting_requests_def)
  then have get: "get_request rid ?e = Some r" using get_request_member [of ?e r] mem(2) r by (simp add: members_def)
  have run: "status r = RUNNING" "\<not> is_finished r" using s(2) by (simp_all add: stepped_def is_finished_def is_finished_status_def)
  let ?ts = "sampled_at out i"
  define r1 where "r1 = reject_drafts (drafts_of ?d rid) ?ts r"
  have st1: "status r1 = RUNNING" using run(1) by (auto simp: r1_def reject_drafts_def Let_def)
  have hs: "hash_block_size (coord_pool (coordinator ?k)) = hash_size" using I(7) bs by (simp add: kv_static_def)
  from take_output_spec [OF s(2,3) hs, of ?ts ?k] i(3) obtain kept stopped r2 where
    t: "take_output (sync_update_output hasher ?n) ?ts None r1 ?k = Inr (kept, stopped, r2, ?k)"
      "request_id r2 = rid" "object_id r2 = object_id r" "sized size_of r2" "\<not> resumable r2" "kept = [] \<and> \<not> stopped \<longrightarrow> ?ts = []"
      "if stopped then is_finished r2 else ready size_of ps ?k r2 \<and> plain fine ?n r2"
    unfolding r(2) r1_def [symmetric] by blast
  have row: "(if sampled_token_ids out = [] then Inr [] else py_index (sampled_token_ids out) i) = Inr ?ts"
    using i(2) by (auto simp: sampled_at_def py_index_def)
  have kv: "u\<lparr>loop_engine := ?e\<lparr>kv_cache_manager := ?k\<rparr>\<rparr> = u" by simp
  have step: "process_request ops hasher (sync_update_output hasher ?n) g ?d out (rid, n) u =
      rbind (if stopped then stop_request ops hasher RUNNING r2 u else Inr (r2, u)) (\<lambda>(r3, u2).
        emit_output g out kept stopped (if stopped then get_finished_reason r2 else None) None r3 u2)"
    using I(13) [of "(rid, n)"] get run(2) i(1,5) t(1) row
    by (simp add: process_request_def Let_def st1 drafts_of_def [symmetric] r1_def [symmetric] kv)
  have quiet: "kept = [] \<and> \<not> stopped \<longrightarrow> request_id r2 \<notin> prompt_logprobs out" using t(2,6) i(4) by auto
  show ?thesis
  proof (cases stopped)
    case True
    from stop_request_spec [of r2 u hasher] True t(4,5,7) I(6,8) obtain u2 where
      u2: "stop_request ops hasher RUNNING r2 u = Inr (r2, u2)" "running (loop_engine u2) = running ?e" "queues (loop_engine u2) = queues ?e"
        "prev_step_scheduled_req_ids (loop_engine u2) = prev_step_scheduled_req_ids ?e"
        "finished_req_ids (loop_engine u2) = insert rid (finished_req_ids ?e)" "stopped_running u2 = insert (object_id r2) (stopped_running u)"
        "stopped_preempted u2 = stopped_preempted u" "coord_inv (coordinator (kv_cache_manager (loop_engine u2)))"
        "kv_frame rid ?k (kv_cache_manager (loop_engine u2))" "unknown rid (kv_cache_manager (loop_engine u2))" "ok (enc_manager (loop_engine u2))"
      by (auto simp: t(2))
    from emit_output_spec [OF g quiet, of "get_finished_reason r2" u2] True obtain r3 outs where
      o: "emit_output g out kept True (get_finished_reason r2) None r2 u2 =
          Inr (u2\<lparr>loop_engine := put_request r3 (loop_engine u2), outputs := outs\<rparr>)" "nans_noted r2 r3" by auto
    let ?u' = "u2\<lparr>loop_engine := put_request r3 (loop_engine u2), outputs := outs\<rparr>"
    have "update_inv size_of ok fine ps wp ?d e0 xs ?u'"
      by (rule update_inv_turn [OF inv mem r, where r' = r3 and e' = "loop_engine u2" and fin = True])
        (use nans_noted_ids [OF o(2)] t(2,3) u2 I(1-3) in auto)
    then show ?thesis using step True u2(1) o(1) by simp
  next
    case False
    from emit_output_spec [OF g quiet, of None u] False obtain r3 outs where
      o: "emit_output g out kept False None None r2 u = Inr (u\<lparr>loop_engine := put_request r3 ?e, outputs := outs\<rparr>)" "nans_noted r2 r3" by auto
    let ?u' = "u\<lparr>loop_engine := put_request r3 ?e, outputs := outs\<rparr>"
    have pl: "plain fine ?n r3"
      using o(2) t(7) False content_law [of r2 r3]
      by (auto simp: nans_noted_def plain_def num_tokens_def num_output_tokens_def same_content_def)
    have "ready size_of ps ?k r3" using nans_noted_ready [OF o(2)] t(7) False by simp
    then have "update_inv size_of ok fine ps wp ?d e0 xs ?u'"
      by (intro update_inv_turn [OF inv mem r, where r' = r3 and e' = ?e and fin = False])
        (use nans_noted_ids [OF o(2)] t(2,3) I pl in auto)
    then show ?thesis using step False o(1) by simp
  qed
qed

end

section \<open>The whole update\<close>

lemma events_view:
  assumes "coord_inv (coordinator k)" and "kv_take_events k = (evs, k')"
  shows "coord_inv (coordinator k')" "kv_frame rid k k'"
proof -
  show "coord_inv (coordinator k')" using kv_step_inv [OF kv_events [OF assms(2)] assms(1)] .
  obtain p where p: "take_events (coord_pool (coordinator k)) = (evs, p)" "k' = k\<lparr>coordinator := (coordinator k)\<lparr>coord_pool := p\<rparr>\<rparr>"
    using assms(2) by (auto simp: kv_take_events_def split: prod.splits)
  have "same_pool (coord_pool (coordinator k)) p"
    using p(1) by (auto simp: take_events_def same_pool_def split: if_splits)
  moreover have "only_for rid (coordinator k) (coordinator k')"
    by (auto simp: p(2) only_for_def with_state_def list_all2_refl intro!: exI [of _ p])
  ultimately show "kv_frame rid k k'" by (simp add: kv_frame_def p(2) same_managers_def same_static_def)
qed

lemma remove_objects_filter:
  assumes "distinct (map object_id rs)"
  shows "remove_objects ids rs = filter (\<lambda>r. object_id r \<notin> ids) rs"
  by (auto simp: remove_objects_def remove_all_eq_filter [OF assms] intro!: filter_cong)

text \<open>The state of the engine in order: what a scheduling step needs, with generating requests only.\<close>

definition engine_ok ::
  "(string \<Rightarrow> int) \<Rightarrow> ('m \<Rightarrow> bool) \<Rightarrow> (request \<Rightarrow> bool) \<Rightarrow> scheduler_params \<Rightarrow> waiting_params \<Rightarrow> ('m, 'z) sched_state_scheme \<Rightarrow> bool" where
  "engine_ok size_of ok fine ps wp e \<longleftrightarrow>
     state_ok size_of ok ps wp e \<and> (\<forall>r \<in> set (members e). plain fine (sched_max_model_len ps) r)"

text \<open>What a scheduling step leaves for the update.\<close>

definition step_pending ::
  "(string \<Rightarrow> int) \<Rightarrow> ('m \<Rightarrow> bool) \<Rightarrow> (request \<Rightarrow> bool) \<Rightarrow> scheduler_params \<Rightarrow> waiting_params \<Rightarrow> scheduler_output \<Rightarrow> ('m, 'z) sched_state_scheme \<Rightarrow> bool" where
  "step_pending size_of ok fine ps wp so e \<longleftrightarrow>
     after_step size_of ok ps wp (out_spec_decode_tokens so) e \<and> (\<forall>r \<in> set (members e). plain fine (sched_max_model_len ps) r) \<and>
     distinct (map fst (out_num_scheduled_tokens so)) \<and> fst ` set (out_num_scheduled_tokens so) \<subseteq> request_id ` set (running e) \<and>
     (\<forall>x \<in> set (out_num_scheduled_tokens so). 0 < snd x) \<and>
     fst ` set (out_spec_decode_tokens so) \<subseteq> fst ` set (out_num_scheduled_tokens so)"

lemma update_inv_start:
  assumes "step_pending size_of ok fine ps wp so e"
  shows "update_inv size_of ok fine ps wp (out_spec_decode_tokens so) e (out_num_scheduled_tokens so)
    \<lparr>loop_engine = e, stopped_running = {}, stopped_preempted = [], outputs = []\<rparr>"
proof -
  have "ready size_of ps (kv_cache_manager e) r"
    if "r \<in> set (running e)" "request_id r \<notin> fst ` set (out_num_scheduled_tokens so)" for r
  proof -
    have "dict_get (out_spec_decode_tokens so) (request_id r) = None"
      using assms that(2) by (auto simp: step_pending_def dict_get_None_iff dict_keys_def)
    then have "drafts_of (out_spec_decode_tokens so) (request_id r) = []" by (simp add: drafts_of_def)
    then show ?thesis using assms that(1) by (auto simp: step_pending_def after_step_def stepped_def token_bound_def ready_def in_range_def)
  qed
  then show ?thesis using assms
    by (auto simp: update_inv_def settled_def step_pending_def after_step_def in_order_def members_def)
qed

lemma update_inv_end:
  assumes inv: "update_inv size_of ok fine ps wp d e0 [] u" and io: "in_order size_of ps wp e0"
    and pl: "\<forall>r \<in> set (waiting_requests e0). plain fine (sched_max_model_len ps) r"
    and e: "running e = filter (\<lambda>r. object_id r \<notin> stopped_running u) (running (loop_engine u))" "queues e = queues e0"
      "prev_step_scheduled_req_ids e = prev_step_scheduled_req_ids e0" "enc_manager e = enc_manager (loop_engine u)"
    and k: "coord_inv (coordinator (kv_cache_manager e))" "\<And>rid. kv_frame rid (kv_cache_manager (loop_engine u)) (kv_cache_manager e)"
  shows "engine_ok size_of ok fine ps wp e" "waiting_requests e = waiting_requests e0"
    "r \<in> set (running e0) \<Longrightarrow> request_id r \<notin> request_id ` set (running e) \<Longrightarrow>
      request_id r \<in> finished_req_ids (loop_engine u) \<and> unknown (request_id r) (kv_cache_manager e)"
proof -
  note I = update_invD [OF inv] and v = view_all [OF k(2)]
  show w: "waiting_requests e = waiting_requests e0" by (simp add: waiting_requests_def e(2))
  have keep: "ready size_of ps (kv_cache_manager e) z \<and> plain fine (sched_max_model_len ps) z" if "z \<in> set (running e)" for z
    using I(10) [of z] that v(3) by (auto simp: e(1) settled_def Let_def)
  have dist: "distinct (map f (members e))" if f: "distinct (map f (running (loop_engine u) @ waiting_requests e0))" for f :: "request \<Rightarrow> 'x"
    using f by (auto simp: members_def w e(1) distinct_map_filter)
  have "map object_id (running (loop_engine u) @ waiting_requests e0) = map object_id (members e0)"
    "map request_id (running (loop_engine u) @ waiting_requests e0) = map request_id (members e0)"
    using I(4,5) by (simp_all add: members_def)
  then have d: "distinct (map object_id (members e))" "distinct (map request_id (members e))"
    using io dist [of object_id] dist [of request_id] by (simp_all add: in_order_def)
  have len: "length (running e) \<le> length (running e0)"
    using I(4) by (metis e(1) length_filter_le length_map)
  have "in_order size_of ps wp e"
    using io d len v(4) [OF I(9)] unfolding in_order_def w e(2,3) by auto
  moreover have "served size_of ok ps e" using keep k(1) v(5) [OF I(7)] I(8) by (simp add: served_def e(4))
  moreover have "plain fine (sched_max_model_len ps) z" if "z \<in> set (members e)" for z using that keep pl by (auto simp: members_def w)
  ultimately show "engine_ok size_of ok fine ps wp e" by (simp add: engine_ok_def state_ok_def)
  show "request_id r \<in> finished_req_ids (loop_engine u) \<and> unknown (request_id r) (kv_cache_manager e)"
    if r: "r \<in> set (running e0)" "request_id r \<notin> request_id ` set (running e)"
  proof -
    have "request_id r \<in> set (map request_id (running (loop_engine u)))" using r(1) unfolding I(5) by simp
    then obtain z where z: "z \<in> set (running (loop_engine u))" "request_id z = request_id r" by auto
    have "object_id z \<in> stopped_running u"
    proof (rule ccontr)
      assume "object_id z \<notin> stopped_running u"
      then have "z \<in> set (running e)" using z(1) by (simp add: e(1))
      then show False using r(2) z(2) by (metis image_eqI)
    qed
    then show ?thesis using I(10) [OF z(1)] z(2) v(2) by (auto simp: settled_def Let_def)
  qed
qed

context engine_parts
begin

lemma update_from_output_spec:
  assumes sp: "step_pending size_of ok fine ps wp so e" and bs: "sched_block_size ps = hash_size"
    and g: "grammar_sound g" and out: "runner_ok so out e"
  shows "\<exists>outs evs e'. update_from_output ops hasher (sync_update_output hasher (sched_max_model_len ps)) g stats so out e = Inr (outs, evs, e') \<and>
    engine_ok size_of ok fine ps wp e' \<and> waiting_requests e' = waiting_requests e \<and>
    request_id ` set (running e') \<subseteq> request_id ` set (running e) \<and>
    (\<forall>r \<in> set (running e). request_id r \<notin> request_id ` set (running e') \<longrightarrow>
       request_id r \<in> finished_req_ids e' \<and> unknown (request_id r) (kv_cache_manager e'))"
proof -
  let ?d = "out_spec_decode_tokens so" and ?xs = "out_num_scheduled_tokens so"
  let ?f = "process_request ops hasher (sync_update_output hasher (sched_max_model_len ps)) g ?d out"
  let ?I = "\<lambda>xs u. set xs \<subseteq> set ?xs \<and> update_inv size_of ok fine ps wp ?d e xs u"
  have io: "in_order size_of ps wp e" and pl: "\<forall>r \<in> set (waiting_requests e). plain fine (sched_max_model_len ps) r"
    using sp by (simp_all add: step_pending_def after_step_def members_def)
  have mem: "distinct (map object_id (members e))" "distinct (map request_id (members e))" using io by (simp_all add: in_order_def)
  have "\<exists>u. fold_res ?f ?xs \<lparr>loop_engine = e, stopped_running = {}, stopped_preempted = [], outputs = []\<rparr> = Inr u \<and> ?I [] u"
  proof (rule fold_res_rule [where I = ?I])
    show "?I ?xs \<lparr>loop_engine = e, stopped_running = {}, stopped_preempted = [], outputs = []\<rparr>" using update_inv_start [OF sp] by simp
  next
    fix x xs u
    assume x: "?I (x # xs) u"
    then show "\<exists>u'. ?f x u = Inr u' \<and> ?I xs u'"
      using process_request_spec [of ps wp so e "fst x" "snd x" xs u, OF _ mem g out _ bs] by auto
  qed
  then obtain u where u: "fold_res ?f ?xs \<lparr>loop_engine = e, stopped_running = {}, stopped_preempted = [], outputs = []\<rparr> = Inr u"
    "update_inv size_of ok fine ps wp ?d e [] u" by blast
  note I = update_invD [OF u(2)]
  have "distinct (map object_id (running (loop_engine u)))" using I(4) mem(1) by (simp add: members_def)
  then have run: "(if stopped_running u = {} then running (loop_engine u) else remove_objects (stopped_running u) (running (loop_engine u))) =
      filter (\<lambda>r. object_id r \<notin> stopped_running u) (running (loop_engine u))" by (simp add: remove_objects_filter)
  obtain evs kv where kv: "kv_take_events (kv_cache_manager (loop_engine u)) = (evs, kv)" by fastforce
  define e' where "e' = (loop_engine u)\<lparr>running := filter (\<lambda>r. object_id r \<notin> stopped_running u) (running (loop_engine u)),
    queues := queues e, kv_cache_manager := kv, finished_req_ids_dict := map_option (\<lambda>_. []) (finished_req_ids_dict (loop_engine u))\<rparr>"
  have "\<exists>outs. update_from_output ops hasher (sync_update_output hasher (sched_max_model_len ps)) g stats so out e = Inr (outs, evs, e')"
    using u(1) kv I(1,2) by (simp add: update_from_output_def run e'_def Let_def)
  then obtain outs where
    r: "update_from_output ops hasher (sync_update_output hasher (sched_max_model_len ps)) g stats so out e = Inr (outs, evs, e')" by blast
  have f: "running e' = filter (\<lambda>r. object_id r \<notin> stopped_running u) (running (loop_engine u))" "queues e' = queues e"
    "prev_step_scheduled_req_ids e' = prev_step_scheduled_req_ids e" "enc_manager e' = enc_manager (loop_engine u)" "kv_cache_manager e' = kv"
    "finished_req_ids e' = finished_req_ids (loop_engine u)" using I(3) by (simp_all add: e'_def)
  have "request_id ` set (running e') \<subseteq> request_id ` set (running e)"
    using arg_cong [OF I(5), of set] by (auto simp: f(1))
  moreover have "coord_inv (coordinator (kv_cache_manager e'))" "kv_frame rid (kv_cache_manager (loop_engine u)) (kv_cache_manager e')" for rid
    using events_view [OF I(6) kv] by (simp_all add: f(5))
  note done' = update_inv_end [OF u(2) io pl f(1-4) this]
  ultimately show ?thesis using r done' f(6) by (intro exI [of _ outs] exI [of _ evs] exI [of _ e']) simp
qed

end

section \<open>A step of the engine\<close>

lemma who_content:
  assumes "who r' = who r"
  shows "same_content r r'" "num_output_placeholders r' = num_output_placeholders r" "resumable r' = resumable r"
    "pooling_params r' = pooling_params r" "sampling_params r' = sampling_params r" "output_token_ids r' = output_token_ids r"
proof -
  have e: "essence r' = essence r" using assms by (simp add: who_def)
  note a = arg_cong [OF e]
  show "same_content r r'" "num_output_placeholders r' = num_output_placeholders r" "resumable r' = resumable r"
    "pooling_params r' = pooling_params r" "sampling_params r' = sampling_params r" "output_token_ids r' = output_token_ids r"
    using a [of all_token_ids] a [of block_hashes] a [of mm_features] a [of lora_request] a [of cache_salt] a [of prompt_embeds]
      a [of num_output_placeholders] a [of resumable] a [of pooling_params] a [of sampling_params] a [of output_token_ids]
    by (simp_all add: essence_def same_content_def)
qed

context request_hashing
begin

lemma plain_who: "who r' = who r \<Longrightarrow> plain fine n r \<Longrightarrow> plain fine n r'"
  using who_content [of r' r] content_law [of r r'] by (simp add: plain_def num_tokens_def num_output_tokens_def same_content_def)

end

text \<open>The scheduler inside the engine.\<close>

lemma engine_truncate:
  "state_ok size_of ok ps wp (sched_state.truncate e) = state_ok size_of ok ps wp e" "members (sched_state.truncate e) = members e"
  by (simp_all add: state_ok_def served_def in_order_def members_def waiting_requests_def sched_state.defs)

lemma engine_extend:
  "after_step size_of ok ps wp d (sched_state.extend s x) = after_step size_of ok ps wp d s" "members (sched_state.extend s x) = members s"
  "running (sched_state.extend s x) = running s"
  by (simp_all add: after_step_def in_order_def members_def waiting_requests_def sched_state.defs)

context engine_parts
begin

lemma engine_schedule_spec:
  assumes ok: "engine_ok size_of ok fine ps wp e" and kind: "is_encoder_decoder (encoder_side ps) = encdec" and ps: "params_ok ps"
    and wp: "kv_connector wp = None" "max_loras wp = None" and freed: "\<And>m. ok m \<Longrightarrow> ok (snd (op_get_freed_mm_hashes op m))"
  shows "\<exists>so e'. engine_schedule sha256 ops ps wp op e = Some (Inr (so, e')) \<and> step_pending size_of ok fine ps wp so e' \<and>
    mset (map who (members e')) = mset (map who (members e))"
proof -
  let ?s = "sched_state.truncate e"
  have s: "state_ok size_of ok ps wp ?s" using ok by (simp add: engine_ok_def engine_truncate)
  have "loras_fit wp (running ?s)" by (simp add: loras_fit_def wp(2))
  from schedule_spec [OF s kind ps wp(1) this freed, of sha256] obtain p so s' where
    r: "schedule sha256 ops ps wp op ?s = Some (Inr (so, s'))" "pass_done size_of ok has ps wp (prev_step_scheduled_req_ids ?s)
        (mset (map who (members ?s))) (if pause ?s = PAUSED_ALL then 0 else max_num_scheduled_tokens ps) p"
      "after_step size_of ok ps wp (out_spec_decode_tokens so) s'" "mset (map who (members s')) = mset (map who (members ?s))"
      "running s' = map (advanced_by (num_scheduled_tokens p)) (running p)" "out_of p so" by blast
  define e' where "e' = sched_state.extend s' \<lparr>streaming_queues = streaming_queues e,
    num_waiting_for_streaming_input = num_waiting_for_streaming_input e, finished_req_ids_dict = finished_req_ids_dict e\<rparr>"
  have run: "engine_schedule sha256 ops ps wp op e = Some (Inr (so, e'))" by (simp add: engine_schedule_def r(1) e'_def)
  have a: "accounts has ps (if pause ?s = PAUSED_ALL then 0 else max_num_scheduled_tokens ps) p" using pass_doneD(6) [OF r(2)] .
  let ?d = "num_scheduled_tokens p"
  have nd: "out_num_scheduled_tokens so = ?d" "out_spec_decode_tokens so = scheduled_spec_decode_tokens p" using r(6) by (simp_all add: out_of_def)
  have keys: "set (map fst ?d) = request_id ` {r \<in> set (running p). object_id r \<in> set (scheduled_ids p)}"
    using a by (simp add: accounts_def dict_keys_def)
  then have ks: "fst ` set ?d \<subseteq> request_id ` set (running e')" by (auto simp: e'_def engine_extend r(5) image_image)
  have pos: "0 < snd x" if x: "x \<in> set ?d" for x
  proof -
    have "fst x \<in> set (map fst ?d)" using x by simp
    then obtain z where z: "z \<in> set (running p)" "object_id z \<in> set (scheduled_ids p)" "request_id z = fst x" unfolding keys by auto
    then obtain n where n: "dict_get ?d (fst x) = Some n" "0 < n" using a by (auto simp: accounts_def granted_def)
    have "dict_get ?d (fst x) = Some (snd x)" using a x by (intro dict_get_mem) (simp_all add: accounts_def)
    then show ?thesis using n by simp
  qed
  have who: "mset (map who (members e')) = mset (map who (members e))" using r(4) by (simp add: e'_def engine_extend engine_truncate)
  have pl: "plain fine (sched_max_model_len ps) z" if z: "z \<in> set (members e')" for z
  proof -
    have "who z \<in> who ` set (members e)" using z mset_eq_setD [OF who] by auto
    then obtain y where y: "y \<in> set (members e)" "who z = who y" by auto
    then show ?thesis using plain_who ok by (simp add: engine_ok_def)
  qed
  have spec: "fst ` set (scheduled_spec_decode_tokens p) \<subseteq> fst ` set ?d" "distinct (map fst ?d)"
    using a unfolding accounts_def dict_keys_def dict_ok_def set_map by blast+
  have "after_step size_of ok ps wp (scheduled_spec_decode_tokens p) e'" using r(3) by (simp add: e'_def engine_extend nd)
  then have "step_pending size_of ok fine ps wp so e'" using pl ks pos spec unfolding step_pending_def nd by blast
  then show ?thesis using run who by blast
qed

end

section \<open>Requests from outside\<close>

text \<open>A request as it arrives: new to the scheduler and the block manager, nothing computed.\<close>

definition arriving :: "(string \<Rightarrow> int) \<Rightarrow> (request \<Rightarrow> bool) \<Rightarrow> scheduler_params \<Rightarrow> request \<Rightarrow> 'm engine \<Rightarrow> bool" where
  "arriving size_of fine ps r e \<longleftrightarrow>
     status r \<in> {WAITING, WAITING_FOR_STRUCTURED_OUTPUT_GRAMMAR} \<and> num_computed_tokens r = 0 \<and>
     well_formed size_of ps (kv_cache_manager e) r \<and> plain fine (sched_max_model_len ps) r \<and> unknown (request_id r) (kv_cache_manager e) \<and>
     object_id r \<notin> object_id ` set (members e) \<and> request_id r \<notin> request_id ` set (members e)"

lemma add_request_ok:
  assumes ok: "engine_ok size_of ok fine ps wp e" and r: "arriving size_of fine ps r e"
  shows "\<exists>e'. engine_add_request ops hasher r e = Inr e' \<and> engine_ok size_of ok fine ps wp e' \<and>
    mset (members e') = add_mset r (mset (members e))"
proof -
  note S = state_okD [OF conjunct1 [OF ok [unfolded engine_ok_def]]]
  note A = r [unfolded arriving_def]
  have "\<not> resumable r" using A by (simp add: plain_def)
  moreover have "get_request (request_id r) e = None" using A get_request_in by (metis image_eqI not_None_eq)
  ultimately have run: "engine_add_request ops hasher r e = Inr (e\<lparr>queues := enqueue_waiting_request r (queues e)\<rparr>)"
    by (simp add: engine_add_request_def add_new_request_def)
  let ?e = "e\<lparr>queues := enqueue_waiting_request r (queues e)\<rparr>" and ?pol = "policy (queues e)"
  have fresh: "object_id r \<notin> object_id ` set (queue_order (waiting (queues e)))" "object_id r \<notin> object_id ` set (queue_order (skipped_waiting (queues e)))"
    using A by (auto simp: members_def waiting_requests_def)
  have enter: "mset (enter_by pol r xs) = add_mset r (mset xs)" for pol xs by (cases pol) (simp_all add: enter_by_def)
  have q: "queue_ok ?pol (waiting (queues ?e))" "queue_ok ?pol (skipped_waiting (queues ?e))" "policy (queues ?e) = ?pol"
    and w: "mset (waiting_requests ?e) = add_mset r (mset (waiting_requests e))"
    using any_queue.add_law [OF S(3) fresh(1)] any_queue.add_law [OF S(4) fresh(2)] S(3,4)
    by (simp_all add: enqueue_waiting_request_def waiting_requests_def enter)
  have ws: "set (waiting_requests ?e) = insert r (set (waiting_requests e))" using mset_eq_setD [OF w [folded mset.simps(2)]] by simp
  have mm: "mset (members ?e) = add_mset r (mset (members e))" using w by (simp add: members_def)
  then have ms: "set (members ?e) = insert r (set (members e))" by (metis set_mset_add_mset_insert set_mset_mset)
  have d: "distinct (map f (members ?e))" if "distinct (map f (members e))" "f r \<notin> f ` set (members e)" for f :: "request \<Rightarrow> 'x"
  proof -
    have "mset (map f (members ?e)) = mset (map f (r # members e))" using mm by simp
    then show ?thesis using that mset_eq_imp_distinct_iff by fastforce
  qed
  have "awaiting size_of ps wp (kv_cache_manager e) r" using A by (auto simp: awaiting_def)
  moreover have "status r \<noteq> PREEMPTED" using A by auto
  ultimately have "in_order size_of ps wp ?e"
    using S(2,7,8) q d [of object_id] d [of request_id] S(5,6) A unfolding in_order_def ws by simp
  moreover have "served size_of ok ps ?e" using S(1) by (simp add: served_def)
  ultimately have "engine_ok size_of ok fine ps wp ?e" using ok A by (auto simp: engine_ok_def state_ok_def ms)
  then show ?thesis using run mm by blast
qed

text \<open>Aborting: the requests leave their lists first and are freed one by one.\<close>

definition aborting ::
  "(string \<Rightarrow> int) \<Rightarrow> ('m \<Rightarrow> bool) \<Rightarrow> scheduler_params \<Rightarrow> waiting_params \<Rightarrow> request list \<Rightarrow> request list \<Rightarrow> 'm engine \<Rightarrow> bool" where
  "aborting size_of ok ps wp valid rs e \<longleftrightarrow>
     (let k = kv_cache_manager e in
      coord_inv (coordinator k) \<and> kv_static (sched_max_model_len ps) (sched_block_size ps) k \<and> ok (enc_manager e) \<and>
      (\<forall>z \<in> set (running e). ready size_of ps k z) \<and> (\<forall>z \<in> set (waiting_requests e). awaiting size_of ps wp k z) \<and>
      (\<forall>v \<in> set valid. sized size_of v \<and> status v \<noteq> WAITING_FOR_REMOTE_KVS \<and> request_id v \<notin> request_id ` set (members e)) \<and>
      set rs \<subseteq> set valid \<and>
      (\<forall>v \<in> set valid. v \<in> set rs \<or> request_id v \<in> finished_req_ids e \<and> unknown (request_id v) k))"

context encoder_release
begin

lemma finish_one_spec:
  assumes inv: "aborting size_of ok ps wp valid (r # rs) e" and st: "is_finished_status st"
  shows "\<exists>e'. finish_one ops st r e = Inr e' \<and> aborting size_of ok ps wp valid rs e' \<and> running e' = running e \<and> queues e' = queues e \<and>
    prev_step_scheduled_req_ids e' = prev_step_scheduled_req_ids e"
proof -
  note I = inv [unfolded aborting_def Let_def]
  let ?r = "r\<lparr>status := st\<rparr>" and ?k = "kv_cache_manager e"
  have v: "sized size_of ?r" "status r \<noteq> WAITING_FOR_REMOTE_KVS" "request_id r \<notin> request_id ` set (members e)"
    using I sized_features [of ?r r] by auto
  from kv_free_step [of ?k ?r] I obtain k where
    k: "kv_free ?r ?k = Inr k" "coord_inv (coordinator k)" "kv_frame (request_id r) ?k k" "unknown (request_id r) k" by auto
  from free_law [OF _ v(1), of "enc_manager e"] I obtain m where m: "op_free ops ?r (enc_manager e) = Inr m" "ok m" by blast
  define e' where "e' = e\<lparr>enc_manager := m, finished_req_ids := insert (request_id r) (finished_req_ids e),
    finished_req_ids_dict := map_option (\<lambda>d. dict_set (client_index r)
      (insert (request_id r) (case dict_get d (client_index r) of None \<Rightarrow> {} | Some x \<Rightarrow> x)) d) (finished_req_ids_dict e),
    kv_cache_manager := k, streaming_queues := dict_del (request_id r) (streaming_queues e)\<rparr>"
  have f: "running e' = running e" "queues e' = queues e" "prev_step_scheduled_req_ids e' = prev_step_scheduled_req_ids e"
    "kv_cache_manager e' = k" "enc_manager e' = m" "finished_req_ids e' = insert (request_id r) (finished_req_ids e)"
    by (simp_all add: e'_def)
  have run: "finish_one ops st r e = Inr e'"
    using v(2) st k(1) m(1) by (simp add: finish_one_def free_finished_request_def free_blocks_of_def is_finished_def Let_def e'_def)
  have w: "waiting_requests e' = waiting_requests e" "members e' = members e" by (simp_all add: waiting_requests_def members_def f)
  have away: "request_id z \<noteq> request_id r" if "z \<in> set (running e) \<union> set (waiting_requests e)" for z
    using v(3) that unfolding members_def set_append by (metis image_eqI)
  have "ready size_of ps k z" if "z \<in> set (running e)" for z
    by (rule ready_frame [OF k(3)]) (use I that away in auto)
  moreover have "awaiting size_of ps wp k z" if "z \<in> set (waiting_requests e)" for z
    by (rule awaiting_frame [OF k(3)]) (use I that away [of z] kv_frame_other(2) [OF k(3), of "request_id z"] in \<open>auto simp: awaiting_def\<close>)
  moreover have "kv_static (sched_max_model_len ps) (sched_block_size ps) k" using I kv_frame_static [OF k(3)] by blast
  moreover have "v \<in> set rs \<or> request_id v \<in> insert (request_id r) (finished_req_ids e) \<and> unknown (request_id v) k" if "v \<in> set valid" for v
    using I that k(4) kv_frame_other(2) [OF k(3), of "request_id v"] by (cases "request_id v = request_id r") auto
  ultimately have "aborting size_of ok ps wp valid rs e'"
    using I k(2) m(2) unfolding aborting_def Let_def w f by simp
  then show ?thesis using run f(1-3) by blast
qed

lemma finish_fold_spec:
  assumes "aborting size_of ok ps wp valid rs e" and st: "is_finished_status st"
  shows "\<exists>e'. fold_res (finish_one ops st) rs e = Inr e' \<and> aborting size_of ok ps wp valid [] e' \<and> running e' = running e \<and> queues e' = queues e \<and>
    prev_step_scheduled_req_ids e' = prev_step_scheduled_req_ids e"
  using assms(1)
proof (induction rs arbitrary: e)
  case (Cons r rs)
  from finish_one_spec [OF Cons.prems st] obtain e1 where
    e1: "finish_one ops st r e = Inr e1" "aborting size_of ok ps wp valid rs e1" "running e1 = running e" "queues e1 = queues e"
      "prev_step_scheduled_req_ids e1 = prev_step_scheduled_req_ids e" by blast
  from Cons.IH [OF e1(2)] e1 show ?case by auto
qed simp

lemma finish_requests_ok:
  assumes ok: "engine_ok size_of ok fine ps wp e" and st: "is_finished_status st"
  shows "\<exists>ids e'. finish_requests ops request_ids st e = Inr (ids, e') \<and> engine_ok size_of ok fine ps wp e' \<and>
    set (members e') \<subseteq> set (members e) \<and>
    (\<forall>r \<in> set (members e). r \<notin> set (members e') \<longrightarrow> request_id r \<in> finished_req_ids e' \<and> unknown (request_id r) (kv_cache_manager e')) \<and>
    (\<forall>r \<in> set (members e'). \<forall>rs. request_ids = Some rs \<longrightarrow> request_id r \<notin> set rs)"
proof -
  note S = state_okD [OF conjunct1 [OF ok [unfolded engine_ok_def]]]
  define ids where "ids = (case request_ids of None \<Rightarrow> map request_id (all_requests e) | Some xs \<Rightarrow> remdups xs)"
  define valid where "valid = filter (\<lambda>r. \<not> is_finished r) (List.map_filter (\<lambda>rid. get_request rid e) ids)"
  define run where "run = filter (\<lambda>r. status r = RUNNING) valid"
  define wait where "wait = filter (\<lambda>r. status r \<noteq> RUNNING) valid"
  have status: "status r = RUNNING" if "r \<in> set (running e)" for r using S(1) that by (auto simp: served_def ready_def)
  have waits: "status r \<noteq> RUNNING \<and> status r \<noteq> WAITING_FOR_REMOTE_KVS \<and> \<not> is_finished r" if "r \<in> set (waiting_requests e)" for r
    using S(2) [OF that] by (auto simp: awaiting_def is_finished_def is_finished_status_def)
  have uniq: "y = z" if "y \<in> set (members e)" "z \<in> set (members e)" "object_id y = object_id z \<or> request_id y = request_id z" for y z
    using S(5,6) that by (metis distinct_map inj_on_eq_iff)
  have sub: "set valid \<subseteq> set (members e)" by (auto simp: valid_def set_map_filter dest: get_request_in)
  define e1 where "e1 = fold leave_streaming wait e"
  have e1: "running e1 = running e" "queues e1 = queues e" "kv_cache_manager e1 = kv_cache_manager e" "enc_manager e1 = enc_manager e"
    "prev_step_scheduled_req_ids e1 = prev_step_scheduled_req_ids e" "finished_req_ids e1 = finished_req_ids e"
  proof -
    have "running (fold leave_streaming rs e) = running e \<and> queues (fold leave_streaming rs e) = queues e \<and>
      kv_cache_manager (fold leave_streaming rs e) = kv_cache_manager e \<and> enc_manager (fold leave_streaming rs e) = enc_manager e \<and>
      prev_step_scheduled_req_ids (fold leave_streaming rs e) = prev_step_scheduled_req_ids e \<and>
      finished_req_ids (fold leave_streaming rs e) = finished_req_ids e" for rs
      by (induction rs arbitrary: e) (simp_all add: leave_streaming_def)
    then show "running e1 = running e" "queues e1 = queues e" "kv_cache_manager e1 = kv_cache_manager e" "enc_manager e1 = enc_manager e"
      "prev_step_scheduled_req_ids e1 = prev_step_scheduled_req_ids e" "finished_req_ids e1 = finished_req_ids e" by (simp_all add: e1_def)
  qed
  define e2 where "e2 = (if run = [] then e1 else e1\<lparr>running := remove_objects (object_id ` set run) (running e1)\<rparr>)"
  define e3 where "e3 = (if wait = [] then e2 else e2\<lparr>queues := (queues e2)\<lparr>waiting := remove_requests wait (waiting (queues e2)),
    skipped_waiting := remove_requests wait (skipped_waiting (queues e2))\<rparr>\<rparr>)"
  have "distinct (map object_id (running e))" using S(5) by (simp add: members_def)
  then have f: "running e3 = filter (\<lambda>r. object_id r \<notin> object_id ` set run) (running e)" "kv_cache_manager e3 = kv_cache_manager e"
    "enc_manager e3 = enc_manager e" "prev_step_scheduled_req_ids e3 = prev_step_scheduled_req_ids e" "finished_req_ids e3 = finished_req_ids e"
    by (simp_all add: e3_def e2_def e1 remove_objects_filter)
  have q: "policy (queues e3) = policy (queues e)" "queue_ok (policy (queues e)) (waiting (queues e3))" "queue_ok (policy (queues e)) (skipped_waiting (queues e3))"
    and w: "waiting_requests e3 = filter (\<lambda>r. object_id r \<notin> object_id ` set wait) (waiting_requests e)"
    using any_queue.remove_law [OF S(3), of wait] any_queue.remove_law [OF S(4), of wait] S(3,4)
    by (simp_all add: e3_def e2_def e1 waiting_requests_def without_def)
  have m: "members e3 = filter (\<lambda>r. r \<notin> set valid) (members e)"
  proof -
    have "object_id z \<in> object_id ` set run \<longleftrightarrow> z \<in> set valid" if "z \<in> set (running e)" for z
      using that sub status [OF that] uniq [of z] by (auto simp: run_def members_def)
    moreover have "object_id z \<in> object_id ` set wait \<longleftrightarrow> z \<in> set valid" if "z \<in> set (waiting_requests e)" for z
      using that sub waits [OF that] uniq [of z] by (auto simp: wait_def members_def)
    ultimately show ?thesis by (simp add: members_def f(1) w cong: filter_cong)
  qed
  have "aborting size_of ok ps wp valid valid e3"
  proof -
    have "sized size_of v \<and> status v \<noteq> WAITING_FOR_REMOTE_KVS" if "v \<in> set (members e)" for v
      using that status waits S(1,2) by (fastforce simp: members_def served_def ready_def awaiting_def well_formed_def)
    moreover have "request_id v \<notin> request_id ` set (members e3)" if v: "v \<in> set valid" for v
    proof
      assume "request_id v \<in> request_id ` set (members e3)"
      then obtain z where "z \<in> set (members e)" "z \<notin> set valid" "request_id v = request_id z" by (auto simp: m)
      then show False using uniq [of z v] v sub by auto
    qed
    moreover have "set (running e3) \<subseteq> set (running e)" "set (waiting_requests e3) \<subseteq> set (waiting_requests e)" by (auto simp: f(1) w)
    ultimately show ?thesis using S(1,2) sub unfolding aborting_def Let_def f(2,3) served_def by blast
  qed
  from finish_fold_spec [OF this st] obtain e' where
    e': "fold_res (finish_one ops st) valid e3 = Inr e'" "aborting size_of ok ps wp valid [] e'" "running e' = running e3" "queues e' = queues e3"
      "prev_step_scheduled_req_ids e' = prev_step_scheduled_req_ids e3" by blast
  note A = e'(2) [unfolded aborting_def Let_def]
  have w': "waiting_requests e' = waiting_requests e3" "members e' = members e3" by (simp_all add: waiting_requests_def members_def e'(3,4))
  have res: "finish_requests ops request_ids st e = Inr (map (\<lambda>r. (request_id r, client_index r)) valid, e')"
    using st e'(1) unfolding finish_requests_def Let_def ids_def [symmetric] valid_def [symmetric] run_def [symmetric] wait_def [symmetric]
      e1_def [symmetric] e2_def [symmetric] e3_def [symmetric] by simp
  have "length (running e') \<le> max_num_running_reqs wp" using S(7) by (simp add: e'(3) f(1) le_trans [OF length_filter_le])
  moreover have "distinct (map object_id (members e'))" "distinct (map request_id (members e'))"
    using S(5,6) by (simp_all add: w'(2) m distinct_map_filter)
  moreover have "set (waiting_requests e') \<subseteq> set (waiting_requests e)" by (auto simp: w' w)
  ultimately have "in_order size_of ps wp e'"
    using A S(8) q unfolding in_order_def e'(4,5) f(4) by (auto simp: q(1))
  moreover have "served size_of ok ps e'" using A by (simp add: served_def)
  moreover have ss: "set (members e') \<subseteq> set (members e)" by (auto simp: w'(2) m)
  ultimately have "engine_ok size_of ok fine ps wp e'" using ok by (auto simp: engine_ok_def state_ok_def)
  moreover have "request_id r \<in> finished_req_ids e' \<and> unknown (request_id r) (kv_cache_manager e')"
    if "r \<in> set (members e)" "r \<notin> set (members e')" for r using that A by (simp add: w'(2) m)
  moreover have "request_id r \<notin> set rs" if r: "r \<in> set (members e')" and rs: "request_ids = Some rs" for r rs
  proof
    assume "request_id r \<in> set rs"
    have "r \<in> set (members e)" "r \<notin> set valid" using r by (simp_all add: w'(2) m)
    moreover have "\<not> is_finished r" using calculation(1) status waits by (auto simp: members_def is_finished_def is_finished_status_def)
    ultimately show False using get_request_member [OF S(6), of r] \<open>request_id r \<in> set rs\<close> rs by (auto simp: valid_def ids_def set_map_filter)
  qed
  ultimately show ?thesis using res ss by blast
qed

end

section \<open>Drafts\<close>

lemma spec_tokens_only:
  "ready size_of ps k (r\<lparr>spec_token_ids := ts\<rparr>) = ready size_of ps k r"
  "streaming_input wp = (\<lambda>_. False) \<Longrightarrow> awaiting size_of ps wp k (r\<lparr>spec_token_ids := ts\<rparr>) = awaiting size_of ps wp k r"
  by (simp_all add: ready_def awaiting_def well_formed_def in_range_def hashed_def num_tokens_def sized_def get_num_encoder_embeds_def token_bound_def)

context request_hashing
begin

lemma plain_spec: "plain fine n r \<Longrightarrow> plain fine n (r\<lparr>spec_token_ids := ts\<rparr>)"
  by (rule plain_who [of _ r]) simp_all

lemma put_drafts_ok:
  assumes ok: "engine_ok size_of ok fine ps wp e" and r: "r \<in> set (members e)"
    and wp: "streaming_input wp = (\<lambda>_. False)"
  shows "engine_ok size_of ok fine ps wp (put_request (r\<lparr>spec_token_ids := ts\<rparr>) e)"
proof -
  note S = state_okD [OF conjunct1 [OF ok [unfolded engine_ok_def]]]
  let ?r = "r\<lparr>spec_token_ids := ts\<rparr>"
  let ?e = "put_request ?r e"
  have uniq: "z = r" if "z \<in> set (members e)" "object_id z = object_id r" for z using S(5) that r by (metis distinct_map inj_on_eq_iff)
  have key: "request_key ?r = request_key z" if "z \<in> set (members e)" "object_id z = object_id ?r" for z
    using uniq [OF that(1)] that(2) by (simp add: request_key_def)
  have q: "queue_ok (policy (queues e)) (update_in_queue ?r q) \<and> queue_order (update_in_queue ?r q) = set_request ?r (queue_order q)"
    if "queue_ok (policy (queues e)) q" "set (queue_order q) \<subseteq> set (members e)" for q
  proof (cases "r \<in> set (queue_order q)")
    case True
    then show ?thesis using queue_ok_update [OF that(1) True] by (simp add: request_key_def)
  next
    case False
    then have away: "object_id ?r \<notin> object_id ` set (queue_order q)" using uniq that(2) by auto
    have "update_in_queue ?r q = q"
      using set_request_absent [of ?r "queue_items q"] away unfolding set_queue_items [symmetric] by (cases q) simp_all
    then show ?thesis using that(1) set_request_absent [OF away] by simp
  qed
  have sub: "set (queue_order (waiting (queues e))) \<subseteq> set (members e)" "set (queue_order (skipped_waiting (queues e))) \<subseteq> set (members e)"
    by (auto simp: members_def waiting_requests_def)
  have f: "running ?e = set_request ?r (running e)" "waiting_requests ?e = set_request ?r (waiting_requests e)"
    "policy (queues ?e) = policy (queues e)" "kv_cache_manager ?e = kv_cache_manager e" "enc_manager ?e = enc_manager e"
    "prev_step_scheduled_req_ids ?e = prev_step_scheduled_req_ids e"
    "queue_ok (policy (queues e)) (waiting (queues ?e))" "queue_ok (policy (queues e)) (skipped_waiting (queues ?e))"
    using q [OF S(3) sub(1)] q [OF S(4) sub(2)] by (simp_all add: put_request_def waiting_requests_def set_request_def)
  have mem: "members ?e = set_request ?r (members e)" by (simp add: members_def f set_request_def)
  have ids: "map object_id (members ?e) = map object_id (members e)" "map request_id (members ?e) = map request_id (members e)"
    unfolding mem by (rule ids_set_request [OF S(5) r]; simp)+
  have in_run: "z \<in> set (running ?e) \<Longrightarrow> z \<in> set (running e) \<or> z = ?r \<and> r \<in> set (running e)" for z
    using uniq unfolding f(1) mem_set_request members_def set_append by (auto simp: image_iff) (metis UnI1)
  have in_wait: "z \<in> set (waiting_requests ?e) \<Longrightarrow> z \<in> set (waiting_requests e) \<or> z = ?r \<and> r \<in> set (waiting_requests e)" for z
    using uniq unfolding f(2) mem_set_request members_def set_append by (auto simp: image_iff) (metis UnI2)
  have "served size_of ok ps ?e" using S(1) unfolding served_def f(4,5) by (metis in_run spec_tokens_only(1))
  moreover have "in_order size_of ps wp ?e"
  proof -
    have "awaiting size_of ps wp (kv_cache_manager e) z" "status z = PREEMPTED \<Longrightarrow> request_id z \<notin> prev_step_scheduled_req_ids e"
      if "z \<in> set (waiting_requests ?e)" for z
      using in_wait [OF that] S(2,8) spec_tokens_only(2) [OF wp] by auto
    then show ?thesis using S(5-7) f(7,8) unfolding in_order_def ids f(3,4,6) by (simp add: f(1) set_request_def)
  qed
  moreover have "plain fine (sched_max_model_len ps) z" if "z \<in> set (members ?e)" for z
  proof -
    have "z \<in> set (members e) \<or> z = ?r" using that in_run [of z] in_wait [of z] by (auto simp: members_def)
    then show ?thesis using ok r plain_spec by (auto simp: engine_ok_def)
  qed
  ultimately show ?thesis by (simp add: engine_ok_def state_ok_def)
qed

lemma update_draft_token_ids_ok:
  assumes "engine_ok size_of ok fine ps wp e" and wp: "streaming_input wp = (\<lambda>_. False)"
  shows "engine_ok size_of ok fine ps wp (update_draft_token_ids g req_ids drafts e)"
proof -
  have "engine_ok size_of ok fine ps wp (set_drafts g x e)" if "engine_ok size_of ok fine ps wp e" for x and e :: "('a, 'b) sched_state_scheme"
    using that put_drafts_ok [OF that _ wp] by (auto simp: set_drafts_def split: prod.splits option.splits dest: get_request_in)
  then have "engine_ok size_of ok fine ps wp (fold (set_drafts g) xs e)" for xs
    using assms by (induction xs arbitrary: e) simp_all
  then show ?thesis by (simp add: update_draft_token_ids_def)
qed

end

end
