(* ===== verification/Engine_Run.thy ===== *)
theory Engine_Run
  imports Engine_Safe
begin

text \<open>
  Runs of the synchronous engine with the shared encoder cache: steps, arrivals, aborts,
  drafts and pauses in any order.
\<close>

section \<open>Reachable states\<close>

interpretation shared_engine: engine_parts shared_ops False size_of "enc_inv size_of" num_free_slots
  "\<lambda>m h. dict_get (cached m) h = None" holds "Some (request_block_hasher sha256 hash_fn none_hash bs)"
  "hash_fine sha256 hash_fn none_hash bs" bs for size_of sha256 hash_fn none_hash bs
  by unfold_locales

text \<open>
  A step schedules, runs the model and updates; the runner may return anything that
  \<open>runner_ok\<close> allows. Between the steps requests arrive and are aborted, the drafts of the
  proposer are stored and the scheduler is paused or resumed.
\<close>

inductive engine_reach ::
  "(bytes \<Rightarrow> bytes) \<Rightarrow> (hash_input \<Rightarrow> bytes) \<Rightarrow> bytes \<Rightarrow> (string \<Rightarrow> int) \<Rightarrow> scheduler_params \<Rightarrow> waiting_params \<Rightarrow>
   encoder_cache_manager output_params \<Rightarrow> grammar_ops \<Rightarrow> encoder_cache_manager engine \<Rightarrow> encoder_cache_manager engine \<Rightarrow> bool"
  for sha256 hash_fn none_hash size_of ps wp op g e0
where
  started: "engine_reach sha256 hash_fn none_hash size_of ps wp op g e0 e0"
| stepped: "engine_reach sha256 hash_fn none_hash size_of ps wp op g e0 e \<Longrightarrow>
    engine_schedule sha256 shared_ops ps wp op e = Some (Inr (so, e1)) \<Longrightarrow> runner_ok so out e1 \<Longrightarrow>
    hasher = Some (request_block_hasher sha256 hash_fn none_hash (sched_block_size ps)) \<Longrightarrow>
    update_from_output shared_ops hasher (sync_update_output hasher (sched_max_model_len ps)) g stats so out e1 = Inr (outs, evs, e') \<Longrightarrow>
    engine_reach sha256 hash_fn none_hash size_of ps wp op g e0 e'"
| arrived: "engine_reach sha256 hash_fn none_hash size_of ps wp op g e0 e \<Longrightarrow>
    arriving size_of (hash_fine sha256 hash_fn none_hash (sched_block_size ps)) ps r e \<Longrightarrow>
    engine_add_request shared_ops (Some (request_block_hasher sha256 hash_fn none_hash (sched_block_size ps))) r e = Inr e' \<Longrightarrow>
    engine_reach sha256 hash_fn none_hash size_of ps wp op g e0 e'"
| aborted: "engine_reach sha256 hash_fn none_hash size_of ps wp op g e0 e \<Longrightarrow>
    finish_requests shared_ops request_ids st e = Inr (ids, e') \<Longrightarrow>
    engine_reach sha256 hash_fn none_hash size_of ps wp op g e0 e'"
| drafted: "engine_reach sha256 hash_fn none_hash size_of ps wp op g e0 e \<Longrightarrow>
    engine_reach sha256 hash_fn none_hash size_of ps wp op g e0 (update_draft_token_ids g req_ids drafts e)"
| paused: "engine_reach sha256 hash_fn none_hash size_of ps wp op g e0 e \<Longrightarrow>
    engine_reach sha256 hash_fn none_hash size_of ps wp op g e0 (set_pause_state p e)"

text \<open>A configuration of the engine: decoder models, no KV connector, no LoRA limit, no streaming sessions.\<close>

definition engine_config :: "scheduler_params \<Rightarrow> waiting_params \<Rightarrow> encoder_cache_manager output_params \<Rightarrow> grammar_ops \<Rightarrow> bool" where
  "engine_config ps wp op g \<longleftrightarrow>
     params_ok ps \<and> \<not> is_encoder_decoder (encoder_side ps) \<and> kv_connector wp = None \<and> max_loras wp = None \<and>
     streaming_input wp = (\<lambda>_. False) \<and> op_get_freed_mm_hashes op = get_freed_mm_hashes \<and> grammar_sound g"

abbreviation shared_engine_ok ::
  "(bytes \<Rightarrow> bytes) \<Rightarrow> (hash_input \<Rightarrow> bytes) \<Rightarrow> bytes \<Rightarrow> (string \<Rightarrow> int) \<Rightarrow> scheduler_params \<Rightarrow> waiting_params \<Rightarrow>
   encoder_cache_manager engine \<Rightarrow> bool" where
  "shared_engine_ok sha256 hash_fn none_hash size_of ps wp \<equiv>
     engine_ok size_of (enc_inv size_of) (hash_fine sha256 hash_fn none_hash (sched_block_size ps)) ps wp"

lemma step_ok:
  assumes cfg: "engine_config ps wp op g" and ok: "shared_engine_ok sha256 hash_fn none_hash size_of ps wp e"
  shows "\<exists>so e1. engine_schedule sha256 shared_ops ps wp op e = Some (Inr (so, e1)) \<and>
    mset (map who (members e1)) = mset (map who (members e)) \<and>
    step_pending size_of (enc_inv size_of) (hash_fine sha256 hash_fn none_hash (sched_block_size ps)) ps wp so e1"
proof -
  have c: "is_encoder_decoder (encoder_side ps) = False" "params_ok ps" "kv_connector wp = None" "max_loras wp = None"
    using cfg by (simp_all add: engine_config_def)
  have "enc_inv size_of (snd (op_get_freed_mm_hashes op m))" if "enc_inv size_of m" for m
    using that cfg by (simp add: engine_config_def get_freed_mm_hashes_def enc_inv_def)
  from shared_engine.engine_schedule_spec [OF ok c this, of sha256] show ?thesis by blast
qed

lemma engine_reach_ok:
  assumes cfg: "engine_config ps wp op g" and "shared_engine_ok sha256 hash_fn none_hash size_of ps wp e0"
    and "engine_reach sha256 hash_fn none_hash size_of ps wp op g e0 e"
  shows "shared_engine_ok sha256 hash_fn none_hash size_of ps wp e"
  using assms(3)
proof induction
  case started
  show ?case by (fact assms(2))
next
  case (stepped e so e1 out hasher stats outs evs e')
  from step_ok [OF cfg stepped.IH] stepped.hyps(2) have
    "step_pending size_of (enc_inv size_of) (hash_fine sha256 hash_fn none_hash (sched_block_size ps)) ps wp so e1" by auto
  from shared_engine.update_from_output_spec [OF this refl _ stepped.hyps(3), of g stats] cfg stepped.hyps(4,5) show ?case
    by (auto simp: engine_config_def)
next
  case (arrived e r e')
  from add_request_ok [OF arrived.IH arrived.hyps(2), of shared_ops
      "Some (request_block_hasher sha256 hash_fn none_hash (sched_block_size ps))"] arrived.hyps(3) show ?case by auto
next
  case (aborted e request_ids st ids e')
  then have "is_finished_status st" by (auto simp: finish_requests_def split: if_splits)
  from shared_release.finish_requests_ok [OF aborted.IH this, of request_ids] aborted.hyps(2) show ?case by auto
next
  case (drafted e req_ids drafts)
  have "streaming_input wp = (\<lambda>_. False)" using cfg by (simp add: engine_config_def)
  from chained.update_draft_token_ids_ok [OF drafted.IH this] show ?case .
next
  case (paused e p)
  then show ?case
    by (simp add: set_pause_state_def engine_ok_def state_ok_def served_def in_order_def members_def waiting_requests_def)
qed

section \<open>Properties\<close>

text \<open>
  C1. The synchronous engine never raises and keeps its state well formed, whatever the model
  samples and however arrivals, aborts, drafts and pauses are interleaved with the steps. Start
  from a state in order, with the shared encoder cache, no KV connector, no LoRA limit and no streaming sessions, and a
  hash function without collisions. In every reachable state the managers satisfy their
  invariants, every running request has slots for its computed tokens, every waiting request can be admitted, and
  no two requests share an identity or an id. A further step returns: \<open>schedule\<close> changes
  nothing of the requests but their scheduling fields, and for every answer of the model runner
  that has a row for each scheduled request, without tokens while a prompt is computed and
  otherwise with one token and at most one for each draft, \<open>update_from_output\<close> returns too. The
  drafts that were rejected are taken back, so the next state is in order again; and a request
  is either still there or reported as finished, with its blocks freed.
\<close>

theorem engine_never_raises:
  assumes "engine_config ps wp op g" and "shared_engine_ok sha256 hash_fn none_hash size_of ps wp e0"
    and "engine_reach sha256 hash_fn none_hash size_of ps wp op g e0 e"
    and "hasher = Some (request_block_hasher sha256 hash_fn none_hash (sched_block_size ps))"
  shows "shared_engine_ok sha256 hash_fn none_hash size_of ps wp e \<and>
    (\<exists>so e1. engine_schedule sha256 shared_ops ps wp op e = Some (Inr (so, e1)) \<and>
       mset (map who (members e1)) = mset (map who (members e)) \<and>
       (\<forall>out. runner_ok so out e1 \<longrightarrow>
          (\<exists>outs evs e2. update_from_output shared_ops hasher (sync_update_output hasher (sched_max_model_len ps)) g stats so out e1 =
               Inr (outs, evs, e2) \<and>
             shared_engine_ok sha256 hash_fn none_hash size_of ps wp e2 \<and>
             (\<forall>rid \<in> request_id ` set (members e).
                rid \<in> request_id ` set (members e2) \<or> rid \<in> finished_req_ids e2 \<and> unknown rid (kv_cache_manager e2)))))"
proof -
  have ok: "shared_engine_ok sha256 hash_fn none_hash size_of ps wp e" by (rule engine_reach_ok [OF assms(1-3)])
  from step_ok [OF assms(1) ok] obtain so e1 where
    s: "engine_schedule sha256 shared_ops ps wp op e = Some (Inr (so, e1))" "mset (map who (members e1)) = mset (map who (members e))"
      "step_pending size_of (enc_inv size_of) (hash_fine sha256 hash_fn none_hash (sched_block_size ps)) ps wp so e1" by blast
  have ids: "request_id ` set (members e1) = request_id ` set (members e)"
  proof -
    have "(fst \<circ> snd) ` who ` set (members e1) = (fst \<circ> snd) ` who ` set (members e)" using mset_eq_setD [OF s(2)] by simp
    then show ?thesis by (simp add: image_image who_def)
  qed
  have "\<exists>outs evs e2. update_from_output shared_ops hasher (sync_update_output hasher (sched_max_model_len ps)) g stats so out e1 =
        Inr (outs, evs, e2) \<and> shared_engine_ok sha256 hash_fn none_hash size_of ps wp e2 \<and>
      (\<forall>rid \<in> request_id ` set (members e).
         rid \<in> request_id ` set (members e2) \<or> rid \<in> finished_req_ids e2 \<and> unknown rid (kv_cache_manager e2))"
    if out: "runner_ok so out e1" for out
  proof -
    have "grammar_sound g" using assms(1) by (simp add: engine_config_def)
    from shared_engine.update_from_output_spec [OF s(3) refl this out, of stats, folded assms(4)] obtain outs evs e2 where
      u: "update_from_output shared_ops hasher (sync_update_output hasher (sched_max_model_len ps)) g stats so out e1 = Inr (outs, evs, e2)"
        "shared_engine_ok sha256 hash_fn none_hash size_of ps wp e2" "waiting_requests e2 = waiting_requests e1"
        "\<forall>r \<in> set (running e1). request_id r \<notin> request_id ` set (running e2) \<longrightarrow>
          request_id r \<in> finished_req_ids e2 \<and> unknown (request_id r) (kv_cache_manager e2)"
      by blast
    have "rid \<in> request_id ` set (members e2) \<or> rid \<in> finished_req_ids e2 \<and> unknown rid (kv_cache_manager e2)"
      if "rid \<in> request_id ` set (members e)" for rid
    proof -
      from that obtain r where "r \<in> set (members e1)" "request_id r = rid" unfolding ids [symmetric] by auto
      then show ?thesis using u(3,4) by (auto simp: members_def)
    qed
    then show ?thesis using u(1,2) by blast
  qed
  then show ?thesis using ok s(1,2) by blast
qed

text \<open>A hash function without collisions: the hash of a block is longer than that of its parent.\<close>

definition growing_hash :: "hash_input \<Rightarrow> bytes" where
  "growing_hash = (\<lambda>(parent, _). 0 # parent)"

lemma growing_chain:
  "prev \<noteq> Some [] \<Longrightarrow> hash_chain growing_hash [1] prev cs =
     map (\<lambda>i. replicate (Suc i) 0 @ (case prev of None \<Rightarrow> [1] | Some h \<Rightarrow> h)) [0..<length cs]"
proof (induction cs arbitrary: prev)
  case (Cons c cs)
  obtain t k where c: "c = (t, k)" by (cases c)
  let ?base = "case prev of None \<Rightarrow> [1] | Some h \<Rightarrow> h"
  have h: "hash_block_tokens growing_hash [1] prev t k = 0 # ?base"
    using Cons.prems by (cases prev) (auto simp: hash_block_tokens_def growing_hash_def)
  show ?case using Cons.IH [of "Some (0 # ?base)"] h
    by (simp add: c map_upt_Suc Let_def replicate_app_Cons_same del: upt_Suc)
qed simp

lemma growing_collision_free: "collision_free growing_hash [1] bs"
proof -
  let ?z = "\<lambda>h :: bytes. length (takeWhile (\<lambda>b. b = 0) h)"
  have z: "?z (replicate n 0 @ 1 # xs) = n" for n xs by (induction n) simp_all
  have "distinct (bhl_values v)"
    if v: "block_hashes_for bs b (hash_chain growing_hash [1] None cs) = Inr v" for b v cs
  proof -
    define hs where "hs = hash_chain growing_hash [1] None cs"
    have hs: "length hs = length cs" "\<And>i. i < length cs \<Longrightarrow> hs ! i = replicate (Suc i) 0 @ [1]"
      by (simp_all add: hs_def growing_chain del: upt_Suc)
    from v [folded hs_def] consider "v = PlainHashes hs" | k where "v = ScaledHashes hs k"
      by (auto simp: block_hashes_for_def BlockHashListWithBlockSize_def split: if_splits)
    then show ?thesis
    proof cases
      case 1
      have "map ?z hs = map Suc [0..<length cs]" by (rule nth_equalityI) (use hs z [of "Suc _" "[]"] in \<open>simp_all del: replicate.simps\<close>)
      moreover have "distinct (map Suc [0..<length cs])" by (simp add: distinct_map)
      ultimately show ?thesis using 1 by (metis bhl_values.simps(1) distinct_map)
    next
      case (2 k)
      show ?thesis
      proof (cases "k = 0")
        case False
        have first: "?z (concat (py_slice (i * k) (i * k + k) hs)) = Suc (i * k)" if i: "i < length cs div k" for i
        proof -
          have "Suc i * k \<le> length cs" using i False by (metis Suc_leI less_eq_div_iff_mult_less_eq neq0_conv)
          then have "i * k < length cs" "i * k < length hs" using False hs(1) by (simp_all add: add.commute)
          then have "py_slice (i * k) (i * k + k) hs = hs ! (i * k) # py_slice (Suc (i * k)) (i * k + k) hs"
            using False by (cases k) (simp_all add: py_slice_def Cons_nth_drop_Suc [symmetric])
          then show ?thesis using hs(2) [OF \<open>i * k < length cs\<close>] z [of "Suc (i * k)"] by (simp del: replicate.simps)
        qed
        have "distinct (map (\<lambda>i. Suc (i * k)) [0..<length cs div k])" using False by (simp add: distinct_map inj_on_def)
        moreover have "map ?z (bhl_values v) = map (\<lambda>i. Suc (i * k)) [0..<length cs div k]"
          using first merged_hash_slice [of k _ hs] chunk_end [of _ hs k] False by (simp add: 2 hs(1))
        ultimately show ?thesis by (metis distinct_map)
      qed (simp add: 2)
    qed
  qed
  then show ?thesis by (auto simp: collision_free_def hashes_distinct_def)
qed

text \<open>An idle engine, and a prompt of two tokens that arrives.\<close>

definition small_engine :: "kv_manager \<Rightarrow> encoder_cache_manager engine" where
  "small_engine k =
     \<lparr>running = [], queues = \<lparr>policy = FCFS, waiting = FCFSRequestQueue [], skipped_waiting = FCFSRequestQueue []\<rparr>,
      kv_cache_manager = k, enc_manager = EncoderCacheManager 10, finished_req_ids = {}, prev_step_scheduled_req_ids = {},
      pause = UNPAUSED, recv_finished = {}, recv_failed = {},
      streaming_queues = [], num_waiting_for_streaming_input = 0, finished_req_ids_dict = None\<rparr>"

definition small_prompt :: request where
  "small_prompt =
     (mm_request ''a'' [])\<lparr>sampling_params := Some eos_params, num_prompt_tokens := 2, prompt_token_ids := Some [5, 6],
        all_token_ids := [5, 6], block_hashes := [[0, 1], [0, 0, 1]]\<rparr>"

definition no_grammar :: grammar_ops where
  "no_grammar = \<lparr>should_advance = (\<lambda>_. False), has_grammar = (\<lambda>_. False), validate_tokens = (\<lambda>_ ts. ts)\<rparr>"

lemma small_engine_config: "engine_config small_params small_waiting small_output no_grammar"
  using small_params_ok by (simp add: engine_config_def small_waiting_def small_output_def grammar_sound_def no_grammar_def)

lemma small_engine_ok:
  assumes "coord_inv (coordinator k)" and "kv_static (sched_max_model_len small_params) (sched_block_size small_params) k"
  shows "shared_engine_ok id growing_hash [1] (\<lambda>_. 4) small_params small_waiting (small_engine k)"
  using assms enc_inv_init [of 10]
  by (simp add: engine_ok_def state_ok_def served_def in_order_def members_def waiting_requests_def small_engine_def queue_order_def
      queue_ok_def fcfs_ok_def distinct_objects_def)

lemma small_prompt_fine: "hash_fine id growing_hash [1] 1 small_prompt"
proof -
  have "map (block_content id 1 small_prompt) [0..<2] = [([5], None), ([6], None)]"
    by (simp add: upt_rec block_content_def block_extra_keys_def gen_lora_extra_hash_keys_def cache_salt_keys_def small_prompt_def mm_request_def
        py_slice_def)
  then have "hashes_ok id growing_hash [1] 1 small_prompt"
    by (simp add: hashes_ok_def num_tokens_def small_prompt_def hash_block_tokens_def growing_hash_def numeral_2_eq_2 Let_def)
  then show ?thesis using growing_collision_free [of 1]
    by (simp add: hash_fine_def mm_sorted_def mm_passed_def small_prompt_def mm_request_def)
qed

lemma small_prompt_arrives:
  assumes "kv_static (sched_max_model_len small_params) (sched_block_size small_params) k" and "\<And>rid. unknown rid k"
  shows "arriving (\<lambda>_. 4) (hash_fine id growing_hash [1] (sched_block_size small_params)) small_params small_prompt (small_engine k)"
proof -
  have "hash_block_size (coord_pool (coordinator k)) = 1" using assms(1) by (simp add: kv_static_def small_params_def)
  from chained.hashed_law [OF small_prompt_fine this] have "hashed small_prompt k" .
  then show ?thesis using assms(2) small_prompt_fine
    by (simp add: arriving_def small_engine_def members_def waiting_requests_def queue_order_def)
      (simp add: well_formed_def plain_def sized_def items_ok_def num_tokens_def num_output_tokens_def small_params_def small_prompt_def
        mm_request_def eos_params_def chunked_scheduler_def)
qed

theorem engine_never_raises_witness:
  "\<exists>k e so e1. KVCacheManager small_config 8 1 True False False False 1 1 False = Inr k \<and>
     engine_add_request shared_ops (Some (request_block_hasher id growing_hash [1] 1)) small_prompt (small_engine k) = Inr e \<and>
     engine_schedule id shared_ops small_params small_waiting small_output e = Some (Inr (so, e1)) \<and>
     mset (map who (members e1)) = {#who small_prompt#}"
proof -
  from small_scheduler_served obtain k where
    k: "KVCacheManager small_config 8 1 True False False False 1 1 False = Inr k"
      "served (\<lambda>_. 4) (enc_inv (\<lambda>_. 4)) small_params (small_scheduler k)" "\<And>rid. unknown rid k" by blast
  have kv: "coord_inv (coordinator k)" "kv_static (sched_max_model_len small_params) (sched_block_size small_params) k"
    using k(2) by (simp_all add: served_def small_scheduler_def)
  let ?H = "Some (request_block_hasher id growing_hash [1] (sched_block_size small_params))"
  note ok = small_engine_ok [OF kv] and a = small_prompt_arrives [OF kv(2) k(3)]
  from add_request_ok [OF ok a, of shared_ops ?H] obtain e where
    e: "engine_add_request shared_ops ?H small_prompt (small_engine k) = Inr e"
      "mset (members e) = add_mset small_prompt (mset (members (small_engine k)))" by blast
  have "engine_reach id growing_hash [1] (\<lambda>_. 4) small_params small_waiting small_output no_grammar (small_engine k) e"
    by (rule arrived [OF started a e(1)])
  from engine_never_raises [OF small_engine_config ok this refl] obtain so e1 where
    s: "engine_schedule id shared_ops small_params small_waiting small_output e = Some (Inr (so, e1))"
      "mset (map who (members e1)) = mset (map who (members e))" by blast
  have "members (small_engine k) = []" by (simp add: members_def waiting_requests_def small_engine_def queue_order_def)
  then have "mset (map who (members e)) = {#who small_prompt#}" using e(2) by (simp flip: mset_map)
  moreover have "sched_block_size small_params = 1" by (simp add: small_params_def)
  ultimately show ?thesis using k(1) e(1) s by auto
qed

end
