(* ===== verification/Session.thy ===== *)
theory Session
  imports Lifecycle
begin

text \<open>
  Streaming sessions: what \<open>update_request_as_session\<close> does to the tokens and the block hashes of a request.
\<close>

text \<open>The next input replaces the token that was sampled last; the hashes are only extended.\<close>

lemma session_tokens:
  assumes "num_computed_tokens r = int (num_tokens r) - 1" and "0 < num_tokens r" and "su_prompt_token_ids u = Some ids"
    and "update_request_as_session (Some (request_block_hasher sha256 hash_fn none_hash bs)) r u = Inr r'"
  shows "all_token_ids r' = butlast (all_token_ids r) @ ids \<and> (\<exists>hs. block_hashes r' = block_hashes r @ hs)"
proof -
  let ?all = "all_token_ids r"
  have "nat (num_computed_tokens r) = length ?all - 1" using assms(1,2) by (simp add: num_tokens_def)
  then have n: "take (nat (num_computed_tokens r)) ?all = butlast ?all" by (simp add: butlast_conv_take)
  obtain prompt kept feats r1 where s: "update_block_hashes (Some (request_block_hasher sha256 hash_fn none_hash bs))
      (r\<lparr>all_token_ids := butlast ?all @ ids, output_token_ids := [], prompt_token_ids := Some (prompt @ kept @ ids), mm_features := mm_features r @ feats\<rparr>) = Inr r1"
    "all_token_ids r' = all_token_ids r1" "block_hashes r' = block_hashes r1"
    using assms(3,4) n by (auto simp: update_request_as_session_def Let_def rbind_eq_Inr split: option.splits)
  from hashes_extend [OF s(1)] s(2,3) show ?thesis by auto
qed

section \<open>Properties\<close>

text \<open>
  C40. A streaming session can go on with the hash of tokens it no longer has. When the last
  sampled token completed a block, the hash of that block is in the list; the next input
  drops this token, which was not computed, puts its own first token in its place, and only
  hashes of further blocks are appended. So if the first token of the input differs from the dropped one, the old hash stands for a
  block with other tokens, and, with a hash function without collisions, the hashes
  are no longer those of the request's tokens: the block would be cached under, and be found
  for, tokens it does not hold.
\<close>

theorem session_keeps_stale_hash:
  assumes "0 < bs" and "0 < m" and "num_tokens r = m * bs" and "num_computed_tokens r = int (num_tokens r) - 1"
    and "hashes_ok sha256 hash_fn none_hash bs r" and "su_prompt_token_ids u = Some (x # xs)" and "last (all_token_ids r) \<noteq> x"
    and "update_request_as_session (Some (request_block_hasher sha256 hash_fn none_hash bs)) r u = Inr r'"
  shows "all_token_ids r' = butlast (all_token_ids r) @ x # xs \<and>
    block_hashes r' ! (m - 1) = block_hashes r ! (m - 1) \<and>
    py_slice ((m - 1) * bs) (m * bs) (all_token_ids r') \<noteq> py_slice ((m - 1) * bs) (m * bs) (all_token_ids r) \<and>
    (inj hash_fn \<and> (\<forall>y. hash_fn y \<noteq> none_hash \<and> hash_fn y \<noteq> []) \<longrightarrow> \<not> hashes_ok sha256 hash_fn none_hash bs r')"
proof -
  let ?all = "all_token_ids r"
  have len: "length ?all = m * bs" using assms(3) by (simp add: num_tokens_def)
  have pos: "0 < length ?all" using assms(1,2) len by simp
  from session_tokens [OF assms(4) _ assms(6,8)] pos obtain hs where
    all': "all_token_ids r' = butlast ?all @ x # xs" and bh: "block_hashes r' = block_hashes r @ hs" by (auto simp: num_tokens_def)
  have lbh: "length (block_hashes r) = m" using assms(1,3,5) by (simp add: hashes_ok_def)
  then have same: "block_hashes r' ! (m - 1) = block_hashes r ! (m - 1)" using assms(2) bh by (simp add: nth_append)
  have at: "length ?all - 1 = (m - 1) * bs + (bs - 1)" using len assms(1,2) by (cases m; cases bs) simp_all
  have old: "py_slice ((m - 1) * bs) (m * bs) ?all ! (bs - 1) = last ?all"
  proof -
    have "last ?all = ?all ! ((m - 1) * bs + (bs - 1))" using pos unfolding at [symmetric] by (simp add: last_conv_nth)
    then show ?thesis using assms(1,2) len by (simp add: py_slice_def algebra_simps)
  qed
  have new: "py_slice ((m - 1) * bs) (m * bs) (all_token_ids r') ! (bs - 1) = x"
    using assms(1,2) len at pos by (simp add: all' py_slice_def nth_append algebra_simps flip: at)
  have ne: "py_slice ((m - 1) * bs) (m * bs) (all_token_ids r') \<noteq> py_slice ((m - 1) * bs) (m * bs) ?all"
    using old new assms(7) by auto
  have "\<not> hashes_ok sha256 hash_fn none_hash bs r'" if inj: "inj hash_fn" "\<forall>y. hash_fn y \<noteq> none_hash \<and> hash_fn y \<noteq> []"
  proof
    let ?cs = "\<lambda>r. map (block_content sha256 bs r) [0..<num_tokens r div bs]"
    assume "hashes_ok sha256 hash_fn none_hash bs r'"
    then have eq: "hash_chain hash_fn none_hash None (?cs r) ! (m - 1) = hash_chain hash_fn none_hash None (?cs r') ! (m - 1)"
      using same assms(5) by (simp add: hashes_ok_def)
    have d: "num_tokens r div bs = m" "m \<le> num_tokens r' div bs"
      using assms(1,3) len pos by (simp_all add: num_tokens_def all' less_eq_div_iff_mult_less_eq)
    from hash_chain_injective [of hash_fn none_hash "?cs r" "?cs r'" "m - 1" "m - 1"] inj eq d assms(2)
    have "take m (?cs r) = take m (?cs r')" by (simp add: inj_on_subset [OF inj(1)])
    then have "?cs r ! (m - 1) = ?cs r' ! (m - 1)" using assms(2) by (metis diff_less nth_take zero_less_one)
    then have "block_content sha256 bs r (m - 1) = block_content sha256 bs r' (m - 1)" using d assms(2) by simp
    moreover have "(m - 1) * bs + bs = m * bs" using assms(2) by (cases m) simp_all
    ultimately show False using ne by (simp add: block_content_def)
  qed
  then show ?thesis using all' same ne by blast
qed

text \<open>Blocks of two tokens: the sampled token 4 completed the second block, and the next input starts with 9.\<close>

definition chat :: request where
  "chat = (mm_request ''s'' [])\<lparr>resumable := True, all_token_ids := [1, 2, 3, 4], output_token_ids := [4], num_prompt_tokens := 3,
     prompt_token_ids := Some [1, 2, 3], num_computed_tokens := 3, block_hashes := [[0, 1], [0, 0, 1]]\<rparr>"

definition next_input :: streaming_update where
  "next_input = \<lparr>su_mm_features = [], su_prompt_token_ids = Some [9], su_max_tokens = 16, su_arrival_time = 0, su_sampling_params = None\<rparr>"

lemma chat_hashes: "hashes_ok id (\<lambda>(parent, _). 0 # parent) [1] 2 chat"
proof -
  have "map (block_content id 2 chat) [0..<2] = [([1, 2], None), ([3, 4], None)]"
    by (simp add: upt_rec block_content_def block_extra_keys_def gen_lora_extra_hash_keys_def cache_salt_keys_def chat_def mm_request_def py_slice_def)
  moreover have "num_tokens chat div 2 = 2" "block_hashes chat = [[0, 1], [0, 0, 1]]" by (simp_all add: num_tokens_def chat_def)
  ultimately show ?thesis by (simp only: hashes_ok_def) (simp add: hash_block_tokens_def Let_def)
qed

lemma chat_goes_on: "\<exists>r'. update_request_as_session (Some (request_block_hasher id (\<lambda>(parent, _). 0 # parent) [1] 2)) chat next_input = Inr r'"
  by (simp add: update_request_as_session_def update_block_hashes_def request_block_hasher_def next_input_def chat_def mm_request_def num_tokens_def
      py_slice_def Let_def)

theorem session_keeps_stale_hash_witness:
  "\<exists>r'. update_request_as_session (Some (request_block_hasher id (\<lambda>(parent, _). 0 # parent) [1] 2)) chat next_input = Inr r' \<and>
     all_token_ids r' = [1, 2, 3, 9] \<and> block_hashes r' ! 1 = block_hashes chat ! 1 \<and>
     py_slice 2 4 (all_token_ids r') \<noteq> py_slice 2 4 (all_token_ids chat)"
proof -
  from chat_goes_on obtain r' where
    r': "update_request_as_session (Some (request_block_hasher id (\<lambda>(parent, _). 0 # parent) [1] 2)) chat next_input = Inr r'" by blast
  from session_keeps_stale_hash [of 2 2 chat id "\<lambda>(parent, _). 0 # parent" "[1]" next_input 9 "[]" r', OF _ _ _ _ chat_hashes _ _ r']
  show ?thesis using r' by (simp add: next_input_def) (simp add: chat_def num_tokens_def py_slice_def)
qed

end
