(* ===== verification/Invalid_Blocks.thy ===== *)
theory Invalid_Blocks
  imports Lifecycle
begin

text \<open>
  \<^verbatim>\<open>vllm/v1/core/sched/scheduler.py\<close>: \<^verbatim>\<open>_update_requests_with_invalid_blocks\<close> and
  \<^verbatim>\<open>_handle_invalid_blocks\<close>. Blocks whose external tokens failed to load are recomputed: a request that holds one is cut back
  to the tokens before it, unless a request earlier in the list already recomputes the block.
\<close>

section \<open>The scan\<close>

record invalid_scan =
  affected_req_ids :: "string set"
  total_affected_tokens :: int
  blocks_to_evict :: "int set"
  marked_invalid_block_ids :: "int set"

record block_scan = invalid_scan +
  scan_request :: request
  is_affected :: bool
  marked_invalid_block :: bool

text \<open>One block of a request; \<open>computed\<close> are the tokens computed before this step.\<close>

definition scan_block :: "nat \<Rightarrow> bool \<Rightarrow> int set \<Rightarrow> int \<Rightarrow> int list \<Rightarrow> nat \<times> int \<Rightarrow> block_scan \<Rightarrow> block_scan" where
  "scan_block bs evict invalid computed req_block_ids = (\<lambda>(idx, b) s.
     if b \<notin> invalid then s
     else if b \<in> marked_invalid_block_ids s then s\<lparr>is_affected := True\<rparr>
     else if marked_invalid_block s
     then s\<lparr>is_affected := True, marked_invalid_block_ids := insert b (marked_invalid_block_ids s)\<rparr>
     else let r = scan_request s; num_computed = int (idx * bs); num_affected = computed - num_computed
          in s\<lparr>is_affected := True, marked_invalid_block_ids := insert b (marked_invalid_block_ids s), marked_invalid_block := True,
               scan_request := r\<lparr>num_computed_tokens := num_computed,
                                 num_external_computed_tokens := num_external_computed_tokens r - num_affected\<rparr>,
               total_affected_tokens := total_affected_tokens s + num_affected,
               blocks_to_evict := (if evict then blocks_to_evict s \<union> set (drop idx req_block_ids) else blocks_to_evict s)\<rparr>)"

definition tokens_before :: "(string, int) pydict \<Rightarrow> request \<Rightarrow> int" where
  "tokens_before scheduled r = num_computed_tokens r - (case dict_get scheduled (request_id r) of None \<Rightarrow> 0 | Some n \<Rightarrow> n)"

definition scan_one ::
  "nat \<Rightarrow> bool \<Rightarrow> int set \<Rightarrow> (string, int) pydict \<Rightarrow> kv_manager \<Rightarrow> request \<Rightarrow> invalid_scan \<times> request list \<Rightarrow> (invalid_scan \<times> request list) res" where
  "scan_one bs evict invalid scheduled kv r = (\<lambda>(st, acc).
     case kv_get_block_ids (request_id r) kv of
       Some [req_block_ids] \<Rightarrow>
         (let computed = tokens_before scheduled r;
              n = nat ((computed + int bs - 1) div int bs);
              s = fold (scan_block bs evict invalid computed req_block_ids) (zip [0..<n] req_block_ids)
                    (invalid_scan.extend st \<lparr>scan_request = r, is_affected = False, marked_invalid_block = False\<rparr>);
              st' = invalid_scan.truncate s
          in Inr (if \<not> is_affected s then (st', acc @ [r])
                  else if marked_invalid_block s
                  then (st'\<lparr>affected_req_ids := insert (request_id r) (affected_req_ids st')\<rparr>, acc @ [scan_request s])
                  else (st'\<lparr>affected_req_ids := insert (request_id r) (affected_req_ids st'),
                            total_affected_tokens := total_affected_tokens st' + (num_computed_tokens r - computed)\<rparr>,
                        acc @ [r\<lparr>num_computed_tokens := computed\<rparr>])))
     | _ \<Rightarrow> Inl ValueError)"

definition update_requests_with_invalid_blocks ::
  "nat \<Rightarrow> bool \<Rightarrow> int set \<Rightarrow> (string, int) pydict \<Rightarrow> kv_manager \<Rightarrow> request list \<Rightarrow> (invalid_scan \<times> request list) res" where
  "update_requests_with_invalid_blocks bs evict invalid scheduled kv rs =
     fold_res (scan_one bs evict invalid scheduled kv) rs
       (\<lparr>affected_req_ids = {}, total_affected_tokens = 0, blocks_to_evict = {}, marked_invalid_block_ids = {}\<rparr>, [])"

text \<open>The ids of the requests that \<^verbatim>\<open>update_from_output\<close> skips.\<close>

definition handle_invalid_blocks ::
  "bool \<Rightarrow> nat \<Rightarrow> int set \<Rightarrow> (string, int) pydict \<Rightarrow> 'm engine \<Rightarrow> (string set \<times> 'm engine) res" where
  "handle_invalid_blocks recompute_kv_load_failures bs invalid scheduled e =
     rbind (update_requests_with_invalid_blocks bs False invalid scheduled (kv_cache_manager e)
              (filter (\<lambda>r. status r = WAITING_FOR_REMOTE_KVS) (iter_requests (skipped_waiting (queues e))))) (\<lambda>(asy, rs).
       let e1 = fold put_request rs e
       in rbind (update_requests_with_invalid_blocks bs True invalid scheduled (kv_cache_manager e1) (running e1)) (\<lambda>(syn, rs').
            let e2 = fold put_request rs' e1
            in if affected_req_ids asy = {} \<and> affected_req_ids syn = {} then Inr ({}, e2)
               else rbind (if blocks_to_evict syn \<noteq> {} \<and> \<not> recompute_kv_load_failures
                           then kv_evict_blocks (sorted_list_of_set (blocks_to_evict syn)) (kv_cache_manager e2)
                           else Inr (kv_cache_manager e2)) (\<lambda>kv.
                 let e3 = e2\<lparr>kv_cache_manager := kv\<rparr>
                 in Inr (if \<not> recompute_kv_load_failures then (affected_req_ids asy \<union> affected_req_ids syn, e3)
                         else (affected_req_ids syn, e3\<lparr>recv_failed := recv_failed e3 \<union> affected_req_ids asy\<rparr>)))))"

section \<open>One request\<close>

lemma scan_after_mark:
  assumes "marked_invalid_block s"
  shows "let s' = fold (scan_block bs evict invalid computed ids) xs s in
    marked_invalid_block s' \<and> scan_request s' = scan_request s \<and> affected_req_ids s' = affected_req_ids s \<and>
    is_affected s' = (is_affected s \<or> (\<exists>p \<in> set xs. snd p \<in> invalid)) \<and>
    marked_invalid_block_ids s' \<subseteq> marked_invalid_block_ids s \<union> snd ` set xs"
  using assms
proof (induction xs arbitrary: s)
  case (Cons p xs)
  let ?s = "scan_block bs evict invalid computed ids p s"
  have "marked_invalid_block ?s" "scan_request ?s = scan_request s" "affected_req_ids ?s = affected_req_ids s"
    "is_affected ?s = (is_affected s \<or> snd p \<in> invalid)" "marked_invalid_block_ids ?s \<subseteq> insert (snd p) (marked_invalid_block_ids s)"
    using Cons.prems by (auto simp: scan_block_def split: prod.splits)
  then show ?case using Cons.IH [of ?s] by (auto simp: Let_def)
qed simp

text \<open>Where the first invalid block is that nobody recomputes yet.\<close>

definition first_new :: "int set \<Rightarrow> int set \<Rightarrow> (nat \<times> int) list \<Rightarrow> nat \<Rightarrow> bool" where
  "first_new invalid known xs idx \<longleftrightarrow>
     (\<exists>b. (idx, b) \<in> set xs \<and> b \<in> invalid \<and> b \<notin> known) \<and> (\<forall>p \<in> set xs. fst p < idx \<and> snd p \<in> invalid \<longrightarrow> snd p \<in> known)"

lemma scan_until_mark:
  assumes "\<not> marked_invalid_block s" and "sorted_wrt (<) (map fst xs)"
  shows "let s' = fold (scan_block bs evict invalid computed ids) xs s in
    affected_req_ids s' = affected_req_ids s \<and> is_affected s' = (is_affected s \<or> (\<exists>p \<in> set xs. snd p \<in> invalid)) \<and>
    (if marked_invalid_block s'
     then \<exists>idx ext. first_new invalid (marked_invalid_block_ids s) xs idx \<and>
       scan_request s' = (scan_request s)\<lparr>num_computed_tokens := int (idx * bs), num_external_computed_tokens := ext\<rparr> \<and>
       marked_invalid_block_ids s' \<subseteq> marked_invalid_block_ids s \<union> snd ` {p \<in> set xs. idx \<le> fst p}
     else scan_request s' = scan_request s \<and> marked_invalid_block_ids s' = marked_invalid_block_ids s \<and>
       (\<forall>p \<in> set xs. snd p \<in> invalid \<longrightarrow> snd p \<in> marked_invalid_block_ids s))"
  using assms
proof (induction xs arbitrary: s)
  case (Cons p xs)
  obtain i b where p: "p = (i, b)" by (cases p)
  let ?s = "scan_block bs evict invalid computed ids p s"
  have later: "\<forall>q \<in> set xs. i < fst q" "sorted_wrt (<) (map fst xs)" using Cons.prems(2) by (auto simp: p)
  show ?case
  proof (cases "b \<in> invalid \<and> b \<notin> marked_invalid_block_ids s")
    case True
    then have s: "marked_invalid_block ?s" "affected_req_ids ?s = affected_req_ids s" "is_affected ?s"
      "marked_invalid_block_ids ?s = insert b (marked_invalid_block_ids s)"
      "\<exists>ext. scan_request ?s = (scan_request s)\<lparr>num_computed_tokens := int (i * bs), num_external_computed_tokens := ext\<rparr>"
      using Cons.prems(1) by (auto simp: scan_block_def p Let_def)
    let ?t = "fold (scan_block bs evict invalid computed ids) xs ?s"
    have t: "marked_invalid_block ?t" "scan_request ?t = scan_request ?s" "affected_req_ids ?t = affected_req_ids s" "is_affected ?t"
      "marked_invalid_block_ids ?t \<subseteq> insert b (marked_invalid_block_ids s) \<union> snd ` set xs"
      using scan_after_mark [OF s(1), of bs evict invalid computed ids xs] s(2-4) by (simp_all add: Let_def)
    have "first_new invalid (marked_invalid_block_ids s) (p # xs) i" using True later(1) by (auto simp: first_new_def p)
    moreover have "insert b (snd ` set xs) \<subseteq> snd ` {q \<in> set (p # xs). i \<le> fst q}"
    proof -
      have "{q \<in> set (p # xs). i \<le> fst q} = set (p # xs)" using later(1) by (auto simp: p intro: less_imp_le)
      then show ?thesis by (simp add: p)
    qed
    then have "marked_invalid_block_ids ?t \<subseteq> marked_invalid_block_ids s \<union> snd ` {q \<in> set (p # xs). i \<le> fst q}" using t(5) by blast
    moreover obtain ext where "scan_request ?t = (scan_request s)\<lparr>num_computed_tokens := int (i * bs), num_external_computed_tokens := ext\<rparr>"
      using s(5) t(2) by auto
    moreover have "\<exists>q \<in> set (p # xs). snd q \<in> invalid" using True by (simp add: p)
    ultimately show ?thesis using t(1,3,4) unfolding Let_def fold_Cons comp_apply by (simp only: if_True) blast
  next
    case False
    then have s: "\<not> marked_invalid_block ?s" "affected_req_ids ?s = affected_req_ids s" "is_affected ?s = (is_affected s \<or> b \<in> invalid)"
      "marked_invalid_block_ids ?s = marked_invalid_block_ids s" "scan_request ?s = scan_request s"
      using Cons.prems(1) by (auto simp: scan_block_def p)
    have "first_new invalid K xs idx \<Longrightarrow> K = marked_invalid_block_ids s \<Longrightarrow> first_new invalid K (p # xs) idx" for K idx
      using False by (auto simp: first_new_def p)
    note more = this [OF _ refl]
    let ?t = "fold (scan_block bs evict invalid computed ids) xs ?s"
    note ih = Cons.IH [OF s(1) later(2), unfolded Let_def s(2-5)]
    have aff: "is_affected ?t = (is_affected s \<or> (\<exists>q \<in> set (p # xs). snd q \<in> invalid))" using ih by (auto simp: p)
    show ?thesis
    proof (cases "marked_invalid_block ?t")
      case True
      then obtain idx ext where i: "first_new invalid (marked_invalid_block_ids s) xs idx"
        "scan_request ?t = (scan_request s)\<lparr>num_computed_tokens := int (idx * bs), num_external_computed_tokens := ext\<rparr>"
        "marked_invalid_block_ids ?t \<subseteq> marked_invalid_block_ids s \<union> snd ` {q \<in> set xs. idx \<le> fst q}" using ih by auto
      have "snd ` {q \<in> set xs. idx \<le> fst q} \<subseteq> snd ` {q \<in> set (p # xs). idx \<le> fst q}" by auto
      then have "marked_invalid_block_ids ?t \<subseteq> marked_invalid_block_ids s \<union> snd ` {q \<in> set (p # xs). idx \<le> fst q}" using i(3) by blast
      then show ?thesis using True aff ih more [OF i(1)] i(2) unfolding Let_def fold_Cons comp_apply by (simp only: if_True) blast
    next
      case False
      then show ?thesis using aff ih \<open>\<not> (b \<in> invalid \<and> b \<notin> marked_invalid_block_ids s)\<close>
        unfolding Let_def fold_Cons comp_apply by (simp add: p)
    qed
  qed
qed simp

section \<open>All requests\<close>

text \<open>The block table of a request in the only cache group, and its invalid blocks among the blocks computed before the step.\<close>

definition table_of :: "kv_manager \<Rightarrow> request \<Rightarrow> int list" where
  "table_of kv r = (case kv_get_block_ids (request_id r) kv of Some [ids] \<Rightarrow> ids | _ \<Rightarrow> [])"

definition hit_at :: "nat \<Rightarrow> int set \<Rightarrow> (string, int) pydict \<Rightarrow> kv_manager \<Rightarrow> request \<Rightarrow> nat \<Rightarrow> bool" where
  "hit_at bs invalid scheduled kv r j \<longleftrightarrow>
     j < length (table_of kv r) \<and> int (j * bs) < tokens_before scheduled r \<and> table_of kv r ! j \<in> invalid"

text \<open>The request computes the tokens of a block again.\<close>

definition recomputes :: "nat \<Rightarrow> kv_manager \<Rightarrow> request \<Rightarrow> int \<Rightarrow> bool" where
  "recomputes bs kv r b \<longleftrightarrow> (\<exists>j < length (table_of kv r). table_of kv r ! j = b \<and> num_computed_tokens r \<le> int (j * bs))"

text \<open>
  What the scan does to one request, given the requests before it as they are then: without an invalid
  block it is unchanged; otherwise it is cut back, and an invalid block that it still counts as computed
  is recomputed by a request before it.
\<close>

definition cut_back ::
  "nat \<Rightarrow> int set \<Rightarrow> (string, int) pydict \<Rightarrow> kv_manager \<Rightarrow> request list \<Rightarrow> request \<Rightarrow> request \<Rightarrow> bool" where
  "cut_back bs invalid scheduled kv before r r' \<longleftrightarrow>
     (\<exists>n ext. r' = r\<lparr>num_computed_tokens := n, num_external_computed_tokens := ext\<rparr>) \<and>
     (if \<exists>j. hit_at bs invalid scheduled kv r j
      then num_computed_tokens r' \<le> tokens_before scheduled r \<and>
        (\<forall>j. hit_at bs invalid scheduled kv r j \<and> int (j * bs) < num_computed_tokens r' \<longrightarrow>
           (\<exists>q \<in> set before. recomputes bs kv q (table_of kv r ! j)))
      else r' = r)"

lemma block_count:
  assumes "0 < bs"
  shows "j < nat ((c + int bs - 1) div int bs) \<longleftrightarrow> int (j * bs) < c"
proof -
  define y q where "y = c + int bs - 1" and "q = y div int bs"
  have "int bs * q + y mod int bs = y" by (simp add: q_def)
  moreover have "0 \<le> y mod int bs" "y mod int bs < int bs" using assms by simp_all
  ultimately have x: "int bs * q \<le> y" "y < int bs * (q + 1)" by (simp_all add: algebra_simps)
  have e: "int (j * bs) = int bs * int j" "int bs * (int j + 1) = int bs * int j + int bs" by (simp_all add: distrib_left)
  have "int j < q \<longleftrightarrow> int (j * bs) < c"
  proof (cases "int j < q")
    case True
    then have "int bs * (int j + 1) \<le> int bs * q" by (intro mult_left_mono) simp_all
    then have "int bs * int j + int bs \<le> c + int bs - 1" using x(1) unfolding e(2) y_def by (rule order_trans)
    then show ?thesis using True unfolding e(1) by simp
  next
    case False
    then have "int bs * (q + 1) \<le> int bs * (int j + 1)" by (intro mult_left_mono) simp_all
    then have "c + int bs - 1 < int bs * int j + int bs" using x(2) unfolding e(2) y_def by (rule order_less_le_trans [rotated])
    then show ?thesis using False unfolding e(1) by simp
  qed
  then show ?thesis by (simp add: q_def y_def zless_nat_eq_int_zless)
qed

text \<open>The blocks that the inner loop visits are those of the computed tokens.\<close>

lemma visited:
  assumes "0 < bs"
  shows "p \<in> set (zip [0..<nat ((c + int bs - 1) div int bs)] ids) \<longleftrightarrow>
    fst p < length ids \<and> int (fst p * bs) < c \<and> snd p = ids ! fst p"
  unfolding block_count [OF assms, symmetric] by (cases p) (force simp: set_zip)

lemma zip_ascending: "sorted_wrt (<) (map fst (zip [0..<n] ids))"
  by (simp add: map_fst_zip_take)

lemma scan_one_spec:
  assumes bs: "0 < bs" and tab: "kv_get_block_ids (request_id r) kv = Some [ids]"
    and marked: "\<forall>b \<in> marked_invalid_block_ids st. \<exists>q \<in> set acc. recomputes bs kv q b"
  shows "\<exists>st' r'. scan_one bs evict invalid scheduled kv r (st, acc) = Inr (st', acc @ [r']) \<and>
    cut_back bs invalid scheduled kv acc r r' \<and>
    affected_req_ids st' = affected_req_ids st \<union> (if \<exists>j. hit_at bs invalid scheduled kv r j then {request_id r} else {}) \<and>
    (\<forall>b \<in> marked_invalid_block_ids st'. \<exists>q \<in> set (acc @ [r']). recomputes bs kv q b)"
proof -
  let ?c = "tokens_before scheduled r" and ?hit = "hit_at bs invalid scheduled kv r"
  let ?xs = "zip [0..<nat ((?c + int bs - 1) div int bs)] ids"
  define s where "s = fold (scan_block bs evict invalid ?c ids) ?xs
    (invalid_scan.extend st \<lparr>scan_request = r, is_affected = False, marked_invalid_block = False\<rparr>)"
  have t: "table_of kv r = ids" using tab by (simp add: table_of_def)
  have hit: "?hit j \<longleftrightarrow> (j, ids ! j) \<in> set ?xs \<and> ids ! j \<in> invalid" for j
    using visited [OF bs, of "(j, ids ! j)" ?c ids] by (auto simp: hit_at_def t)
  have any: "(\<exists>p \<in> set ?xs. snd p \<in> invalid) \<longleftrightarrow> (\<exists>j. ?hit j)"
    using visited [OF bs, of _ ?c ids] hit by (metis fst_conv prod.collapse snd_conv)
  have ext: "marked_invalid_block_ids (invalid_scan.extend st x) = marked_invalid_block_ids st"
    "affected_req_ids (invalid_scan.extend st x) = affected_req_ids st" for x by (simp_all add: invalid_scan.defs)
  have start: "\<not> marked_invalid_block (invalid_scan.extend st \<lparr>scan_request = r, is_affected = False, marked_invalid_block = False\<rparr>)"
    "scan_request (invalid_scan.extend st \<lparr>scan_request = r, is_affected = False, marked_invalid_block = False\<rparr>) = r"
    "\<not> is_affected (invalid_scan.extend st \<lparr>scan_request = r, is_affected = False, marked_invalid_block = False\<rparr>)"
    by (simp_all add: invalid_scan.defs)
  note sc = scan_until_mark [OF start(1), of ?xs, OF zip_ascending, of bs evict invalid ?c ids, unfolded Let_def ext, folded s_def]
  have aff: "is_affected s \<longleftrightarrow> (\<exists>j. ?hit j)" "affected_req_ids s = affected_req_ids st" using sc start(3) any by auto
  have tr: "affected_req_ids (invalid_scan.truncate s) = affected_req_ids s"
    "marked_invalid_block_ids (invalid_scan.truncate s) = marked_invalid_block_ids s" by (simp_all add: invalid_scan.defs)
  have same: "\<exists>n e. r = r\<lparr>num_computed_tokens := n, num_external_computed_tokens := e\<rparr>"
    by (intro exI [of _ "num_computed_tokens r"] exI [of _ "num_external_computed_tokens r"]) simp
  show ?thesis
  proof (cases "marked_invalid_block s")
    case False
    then have m: "marked_invalid_block_ids s = marked_invalid_block_ids st" "\<forall>p \<in> set ?xs. snd p \<in> invalid \<longrightarrow> snd p \<in> marked_invalid_block_ids st"
      using sc by simp_all
    show ?thesis
    proof (cases "\<exists>j. ?hit j")
      case True
      let ?r = "r\<lparr>num_computed_tokens := ?c\<rparr>"
      have "\<exists>n e. ?r = r\<lparr>num_computed_tokens := n, num_external_computed_tokens := e\<rparr>"
        by (intro exI [of _ ?c] exI [of _ "num_external_computed_tokens r"]) simp
      moreover have "\<exists>q \<in> set acc. recomputes bs kv q (table_of kv r ! j)" if "?hit j" for j
        using that m(2) marked hit [of j] by (auto simp: t)
      ultimately have "cut_back bs invalid scheduled kv acc r ?r" using True by (simp add: cut_back_def)
      moreover have "\<exists>st'. scan_one bs evict invalid scheduled kv r (st, acc) = Inr (st', acc @ [?r]) \<and>
          affected_req_ids st' = affected_req_ids st \<union> {request_id r} \<and> marked_invalid_block_ids st' = marked_invalid_block_ids st"
        using True False aff m(1) tab by (simp add: scan_one_def Let_def s_def [symmetric] tr)
      ultimately show ?thesis using True marked by fastforce
    next
      case no: False
      have "scan_one bs evict invalid scheduled kv r (st, acc) = Inr (invalid_scan.truncate s, acc @ [r])"
        using no aff tab by (simp add: scan_one_def Let_def s_def [symmetric])
      moreover have "cut_back bs invalid scheduled kv acc r r" using no same by (simp add: cut_back_def)
      ultimately show ?thesis using no aff(2) marked m(1) by (intro exI [of _ "invalid_scan.truncate s"] exI [of _ r]) (auto simp: tr)
    qed
  next
    case True
    then obtain idx e where i: "first_new invalid (marked_invalid_block_ids st) ?xs idx"
      "scan_request s = r\<lparr>num_computed_tokens := int (idx * bs), num_external_computed_tokens := e\<rparr>"
      "marked_invalid_block_ids s \<subseteq> marked_invalid_block_ids st \<union> snd ` {p \<in> set ?xs. idx \<le> fst p}"
      using sc start(2) by auto
    let ?r = "scan_request s"
    have tr': "table_of kv ?r = ids" using tab by (simp add: table_of_def i(2))
    obtain b where b: "(idx, b) \<in> set ?xs" "b \<in> invalid" using i(1) by (auto simp: first_new_def)
    have h: "?hit idx" using b visited [OF bs, of "(idx, b)" ?c ids] by (simp add: hit_at_def t)
    have "\<exists>q \<in> set acc. recomputes bs kv q (table_of kv r ! j)" if "?hit j" "int (j * bs) < num_computed_tokens ?r" for j
    proof -
      have "j < idx" using that(2) bs by (simp add: i(2))
      then have "ids ! j \<in> marked_invalid_block_ids st" using i(1) hit [of j] that(1) unfolding first_new_def by force
      then show ?thesis using marked by (simp add: t)
    qed
    moreover have "num_computed_tokens ?r \<le> ?c" using h by (simp add: hit_at_def i(2))
    ultimately have cut: "cut_back bs invalid scheduled kv acc r ?r" using h i(2) unfolding cut_back_def by auto
    have rec: "recomputes bs kv ?r c" if "c \<in> snd ` {p \<in> set ?xs. idx \<le> fst p}" for c
    proof -
      from that obtain p where "p \<in> set ?xs" "idx \<le> fst p" "snd p = c" by auto
      then show ?thesis using visited [OF bs, of p ?c ids] unfolding recomputes_def tr'
        by (intro exI [of _ "fst p"]) (auto simp: i(2) mult_right_mono)
    qed
    have "\<exists>st'. scan_one bs evict invalid scheduled kv r (st, acc) = Inr (st', acc @ [?r]) \<and>
        affected_req_ids st' = affected_req_ids st \<union> {request_id r} \<and> marked_invalid_block_ids st' = marked_invalid_block_ids s"
      using True aff h tab by (auto simp: scan_one_def Let_def s_def [symmetric] tr)
    then obtain st' where st': "scan_one bs evict invalid scheduled kv r (st, acc) = Inr (st', acc @ [?r])"
      "affected_req_ids st' = affected_req_ids st \<union> {request_id r}" "marked_invalid_block_ids st' = marked_invalid_block_ids s" by blast
    have "\<exists>q \<in> set (acc @ [?r]). recomputes bs kv q b" if "b \<in> marked_invalid_block_ids st'" for b
    proof (cases "b \<in> marked_invalid_block_ids st")
      case True
      then show ?thesis using marked by auto
    next
      case False
      then have "b \<in> snd ` {p \<in> set ?xs. idx \<le> fst p}" using that i(3) st'(3) by blast
      then show ?thesis using rec by simp
    qed
    moreover have "affected_req_ids st' = affected_req_ids st \<union> (if \<exists>j. ?hit j then {request_id r} else {})" using st'(2) h by auto
    ultimately show ?thesis using st'(1) cut by blast
  qed
qed

lemma scan_all:
  assumes bs: "0 < bs" and tabs: "\<forall>r \<in> set rs. \<exists>ids. kv_get_block_ids (request_id r) kv = Some [ids]"
    and marked: "\<forall>b \<in> marked_invalid_block_ids st. \<exists>q \<in> set acc. recomputes bs kv q b"
  shows "\<exists>st' rs'. fold_res (scan_one bs evict invalid scheduled kv) rs (st, acc) = Inr (st', acc @ rs') \<and> length rs' = length rs \<and>
    (\<forall>i < length rs. cut_back bs invalid scheduled kv (acc @ take i rs') (rs ! i) (rs' ! i)) \<and>
    affected_req_ids st' = affected_req_ids st \<union> request_id ` {r \<in> set rs. \<exists>j. hit_at bs invalid scheduled kv r j}"
  using tabs marked
proof (induction rs arbitrary: st acc)
  case (Cons r rs)
  from Cons.prems(1) obtain ids where "kv_get_block_ids (request_id r) kv = Some [ids]" by auto
  from scan_one_spec [OF bs this Cons.prems(2), of evict invalid scheduled] obtain st1 r' where
    one: "scan_one bs evict invalid scheduled kv r (st, acc) = Inr (st1, acc @ [r'])" "cut_back bs invalid scheduled kv acc r r'"
      "affected_req_ids st1 = affected_req_ids st \<union> (if \<exists>j. hit_at bs invalid scheduled kv r j then {request_id r} else {})"
      "\<forall>b \<in> marked_invalid_block_ids st1. \<exists>q \<in> set (acc @ [r']). recomputes bs kv q b" by blast
  from Cons.IH [OF _ one(4)] Cons.prems(1) obtain st' rs' where
    all: "fold_res (scan_one bs evict invalid scheduled kv) rs (st1, acc @ [r']) = Inr (st', (acc @ [r']) @ rs')" "length rs' = length rs"
      "\<forall>i < length rs. cut_back bs invalid scheduled kv ((acc @ [r']) @ take i rs') (rs ! i) (rs' ! i)"
      "affected_req_ids st' = affected_req_ids st1 \<union> request_id ` {r \<in> set rs. \<exists>j. hit_at bs invalid scheduled kv r j}" by auto
  have "cut_back bs invalid scheduled kv (acc @ take i (r' # rs')) ((r # rs) ! i) ((r' # rs') ! i)" if "i < length (r # rs)" for i
    using that one(2) all(3) by (cases i) simp_all
  moreover have "affected_req_ids st' = affected_req_ids st \<union> request_id ` {z \<in> set (r # rs). \<exists>j. hit_at bs invalid scheduled kv z j}"
    using one(3) all(4) by auto
  ultimately show ?case using one(1) all(1,2) by (intro exI [of _ st'] exI [of _ "r' # rs'"]) simp
qed simp

section \<open>Properties\<close>

text \<open>
  C22. After blocks failed to load, no request goes on with tokens that nobody computes. The scan
  over the requests, for a single cache group, does not raise; exactly the requests with an
  invalid block among the blocks computed before the step are reported. A request without one
  is unchanged. An affected request is cut back to at most the tokens it had before the step,
  and if it still counts an invalid block as computed, a request before it in the list, cut
  back to that block or an earlier one, computes it again.
\<close>

theorem invalid_blocks_recomputed:
  assumes "0 < bs" and "\<forall>r \<in> set rs. \<exists>ids. kv_get_block_ids (request_id r) kv = Some [ids]"
  shows "\<exists>st rs'. update_requests_with_invalid_blocks bs evict invalid scheduled kv rs = Inr (st, rs') \<and> length rs' = length rs \<and>
    affected_req_ids st = request_id ` {r \<in> set rs. \<exists>j. hit_at bs invalid scheduled kv r j} \<and>
    (\<forall>i < length rs. cut_back bs invalid scheduled kv (take i rs') (rs ! i) (rs' ! i))"
  using scan_all [OF assms, of "\<lparr>affected_req_ids = {}, total_affected_tokens = 0, blocks_to_evict = {}, marked_invalid_block_ids = {}\<rparr>" "[]"
      evict invalid scheduled]
  unfolding update_requests_with_invalid_blocks_def by simp blast

text \<open>Two requests of two blocks each share the first one, which failed to load.\<close>

definition sharing :: "kv_manager \<Rightarrow> kv_manager" where
  "sharing k = k\<lparr>coordinator := (coordinator k)\<lparr>single_type_managers :=
     map (set_req_blocks ''b'' [Blk 1, Blk 3] \<circ> set_req_blocks ''a'' [Blk 1, Blk 2]) (single_type_managers (coordinator k))\<rparr>\<rparr>"

lemma first_cut:
  "cut_back bs invalid scheduled kv [] r r' \<Longrightarrow> hit_at bs invalid scheduled kv r j \<Longrightarrow> num_computed_tokens r' \<le> int (j * bs)"
  by (auto simp: cut_back_def not_less split: if_splits)

lemma sharing_tables:
  assumes "coord_inv (coordinator k)" and "single_type_managers (coordinator k) = [m]"
  shows "kv_get_block_ids ''a'' (sharing k) = Some [[1, 2]]" "kv_get_block_ids ''b'' (sharing k) = Some [[1, 3]]"
proof -
  have "pool_table (coord_pool (coordinator k))" using assms(1) by (auto simp: coord_inv_def mgrs_inv_def pool_inv_def pool_rep_def)
  then have "block_id (blk (coord_pool (coordinator k)) (Blk i)) = int i" for i by (simp add: pool_table_def)
  then show "kv_get_block_ids ''a'' (sharing k) = Some [[1, 2]]" "kv_get_block_ids ''b'' (sharing k) = Some [[1, 3]]"
    by (simp_all add: sharing_def assms(2) kv_get_block_ids_def get_block_ids_def kv_get_blocks_def create_kv_cache_blocks_def
        coord_get_blocks_def set_req_blocks_def req_blocks_def dict_val_def dict_get_set)
qed

theorem invalid_blocks_recomputed_witness:
  "\<exists>kv st rs'. kv_get_block_ids ''a'' kv = Some [[1, 2]] \<and> kv_get_block_ids ''b'' kv = Some [[1, 3]] \<and>
     update_requests_with_invalid_blocks 1 True {1} [] kv
       [(mm_request ''a'' [])\<lparr>num_computed_tokens := 2\<rparr>, (mm_request ''b'' [])\<lparr>num_computed_tokens := 2\<rparr>] = Inr (st, rs') \<and>
     affected_req_ids st = {''a'', ''b''} \<and> num_computed_tokens (rs' ! 0) \<le> 0"
proof -
  from small_manager obtain k :: kv_manager and p where k: "coord_inv (coordinator k)" "coord_pool (coordinator k) = p"
    "single_type_managers (coordinator k) = [SingleTypeKVCacheManager (FullAttentionSpec 1) p True 0 1 1]" by blast
  note tab = sharing_tables [OF k(1,3)]
  let ?a = "(mm_request ''a'' [])\<lparr>num_computed_tokens := 2\<rparr>" and ?b = "(mm_request ''b'' [])\<lparr>num_computed_tokens := 2\<rparr>"
  have ids: "request_id ?a = ''a''" "request_id ?b = ''b''" by simp_all
  from invalid_blocks_recomputed [of 1 "[?a, ?b]" "sharing k" True "{1}" "[]"] tab obtain st rs' where
    r: "update_requests_with_invalid_blocks 1 True {1} [] (sharing k) [?a, ?b] = Inr (st, rs')"
      "affected_req_ids st = request_id ` {r \<in> set [?a, ?b]. \<exists>j. hit_at 1 {1} [] (sharing k) r j}"
      "\<forall>i < 2. cut_back 1 {1} [] (sharing k) (take i rs') ([?a, ?b] ! i) (rs' ! i)" by (auto simp: numeral_2_eq_2)
  have hit: "hit_at 1 {1} [] (sharing k) ?a 0" "hit_at 1 {1} [] (sharing k) ?b 0"
    using tab by (simp_all add: hit_at_def table_of_def tokens_before_def)
  have "{r \<in> set [?a, ?b]. \<exists>j. hit_at 1 {1} [] (sharing k) r j} = {?a, ?b}" using hit by auto
  then have "affected_req_ids st = {''a'', ''b''}" using r(2) by simp
  moreover have "cut_back 1 {1} [] (sharing k) [] ?a (rs' ! 0)" using r(3) [rule_format, of 0] by simp
  from first_cut [OF this hit(1)] have "num_computed_tokens (rs' ! 0) \<le> 0" by simp
  ultimately show ?thesis using r(1) tab by auto
qed

end
