(* ===== verification/Spec2Isabelle.thy ===== *)
theory Spec2Isabelle
  imports Admission Engine_Run Session Invalid_Blocks
begin

text \<open>
  Verification of the KV-cache and scheduling core of the vLLM V1 engine, the copy under
  \<^verbatim>\<open>src/vllm_exploration/vllm-src\<close>. Paths below are relative to \<^verbatim>\<open>vllm/v1\<close> there.

  \<^bold>\<open>The program.\<close> A scheduler serves many requests with one model. In every step it hands out a
  budget of tokens, first to the running requests and then to the waiting ones; a request that is
  given tokens needs slots for them in the blocks of the KV cache and the outputs of the
  encoder for the images they read. When blocks run out, running requests are preempted: their
  blocks are freed and they go back to the waiting queue. Full blocks are indexed by a chained
  hash of their tokens, so that a later request with the same prefix can share them. After the
  model has run, \<^verbatim>\<open>update_from_output\<close> appends the sampled tokens, takes rejected drafts back and frees
  the requests that stop.

  \<^bold>\<open>Theories and code.\<close> Each theory models one part, in the order of the code, and proves what
  the parts above it rely on.
  \<^item> \<open>Prelude\<close>: results with Python exceptions (\<open>'a res\<close>), insertion-ordered dictionaries, folds that may
    raise, slices and \<^verbatim>\<open>cdiv\<close>, with the shared simplification rules.
  \<^item> \<open>Free_Queue\<close> (\<^verbatim>\<open>core/kv_cache_utils.py\<close>, \<^verbatim>\<open>FreeKVCacheBlockQueue\<close>): the doubly linked list of free
    blocks over an explicit store of blocks; it refines a list, and the bulk removal equals repeated single removal.
  \<^item> \<open>Request\<close> (\<^verbatim>\<open>request.py\<close>) and \<open>Block_Hash\<close> (\<^verbatim>\<open>core/kv_cache_utils.py\<close>): requests, their
    extra keys and the incremental hasher; hashing token by token equals hashing the whole
    request, and equal hashes mean equal prefixes, both for requests whose multi-modal items the hasher sees; which
    items it does not see is a theorem of its own.
  \<^item> \<open>Block_Map\<close>, \<open>Block_Pool\<close> (\<^verbatim>\<open>core/block_pool.py\<close>): the index from hashes to blocks and the
    pool with its reference counts; conservation of blocks and invariance over all operations.
  \<^item> \<open>Cache_Manager\<close>, \<open>Cache_Hit\<close> (\<^verbatim>\<open>core/single_type_kv_cache_manager.py\<close>): the managers of full, MLA,
    sliding-window, chunked-local and cross attention: their tables, the release of skipped blocks and the
    search for the longest cached prefix.
  \<^item> \<open>Coordinator\<close>, \<open>Hybrid_Hit\<close> (\<^verbatim>\<open>core/kv_cache_coordinator.py\<close>), \<open>KV_Manager\<close>, \<open>Admission\<close>
    (\<^verbatim>\<open>core/kv_cache_manager.py\<close>): all groups together. Allocation never raises when its guard holds, every
    operation keeps the ownership of blocks, the lookup of hybrid models ends and gives a prefix all groups have,
    and what the lookup returns can be allocated.
  \<^item> \<open>Encoder_Cache\<close>, \<open>Encoder_Sched\<close> (\<^verbatim>\<open>core/encoder_cache_manager.py\<close>, \<^verbatim>\<open>_try_schedule_encoder_inputs\<close>):
    both encoder caches and the pass that plans encoder inputs; the worker finds every output it reads.
  \<^item> \<open>Heapq\<close>, \<open>Request_Queue\<close> (\<^verbatim>\<open>core/sched/request_queue.py\<close>): the heap algorithm of
    the Python library and the two queue classes; they serve requests in the order of their keys.
  \<^item> \<open>Sched_Utils\<close> (\<^verbatim>\<open>core/sched/utils.py\<close>): stop checks and the repetition detector.
  \<^item> \<open>Scheduler\<close>, \<open>Waiting\<close>, \<open>Schedule\<close> (\<^verbatim>\<open>core/sched/scheduler.py\<close>, \<^verbatim>\<open>core/sched/output.py\<close>): \<^verbatim>\<open>schedule\<close>
    as the loop over the running requests, the loop over the waiting ones, the assertions, the output and the advance of the
    scheduled requests. \<open>KV_View\<close>, \<open>Running_Phase\<close>, \<open>Waiting_Phase\<close> and \<open>Step_Safe\<close> hold the invariants of the
    two loops and the safety of the whole step, \<open>Step_Frame\<close> what the loops leave alone, from which follows by how much
    each request advances.
  \<^item> \<open>Lifecycle\<close> (\<^verbatim>\<open>core/sched/scheduler.py\<close>, \<^verbatim>\<open>core/sched/async_scheduler.py\<close>): \<^verbatim>\<open>add_request\<close>, \<^verbatim>\<open>update_from_output\<close>,
    \<^verbatim>\<open>finish_requests\<close>, drafts, streaming sessions, resets and counters. \<open>Engine_Safe\<close> and \<open>Engine_Run\<close>
    compose them with \<^verbatim>\<open>schedule\<close>: in every reachable state of the synchronous engine the next step returns and the state
    stays well formed. \<open>Session\<close> shows how a streaming session keeps a stale hash. \<open>Invalid_Blocks\<close>
    models the recovery from KV blocks that failed to load.

  \<^bold>\<open>State.\<close> The pool keeps the blocks in a store indexed by block references, as the linked list and the
  tables share them. A request is in one place at a time, the running list or a queue, so these lists
  hold the requests themselves, with an \<open>object_id\<close> for Python's identity; \<^verbatim>\<open>self.requests\<close> is
  their union, and writing to a request is \<open>put_request\<close>. Integers are unbounded as in Python; hashes are
  lists of bytes. Every raise, failed assertion and missing key is a value of the error type.

  \<^bold>\<open>Interfaces.\<close> The encoder caches (\<open>encoder_cache_contract\<close>, \<open>encoder_release\<close>), the queues
  (\<open>request_queue_contract\<close>), the order of the heap, the hasher (\<open>request_hashing\<close>) and the engine's parts (\<open>engine_parts\<close>) are locales; the lemmas about
  their clients are proved inside them, and each is interpreted on the definitions that model the code.

  \<^bold>\<open>Loops.\<close> No function of the model takes fuel. Loops over lists are folds or structural recursion; the
  loops over running and waiting requests and the hasher have termination proofs. The fixed-point loop of the hybrid lookup is an
  option type, and \<open>get_computed_blocks_terminates\<close> proves that it returns.

  \<^bold>\<open>Hypotheses.\<close> The hash function is an argument; where the theorems need it, it has no
  collisions. The hashing theorems ask that multi-modal items before the last one lie within the blocks that the prompt fills, which the code
  does not guarantee, and the theorems about hybrid models that at most one group has full attention (see the findings for both). The step theorem assumes that the LoRA adapters of the running requests fit, which the code does not keep
  (see the findings); the engine theorem is for requests that generate, are not
  sessions, and can reach their minimum of tokens within the model's length, and for runner outputs with at most one token more than
  drafts. The small instances that witness the theorems are built by the model's own constructors.

  \<^bold>\<open>Not modelled.\<close> KV connectors (their answer to a lookup is an argument, the end of
  transfers is left out), Mamba and sink cache managers, the choice of the cache configuration, structured-output back ends (an argument),
  log probabilities, statistics and event publishing, worker processes, model code, front ends, and the experiments and tools
  elsewhere in the repository. \<^verbatim>\<open>new_step_starts\<close> does nothing for the managers that are modelled. The
  order in which \<^verbatim>\<open>self.requests\<close> is iterated when all requests are aborted is that of the lists.
\<close>

end
